(* ===== verification/Prelude.thy ===== *)
theory Prelude
  imports Main "HOL-Library.AList"
begin

text \<open>
  Shared vocabulary of the development.

  \<^item> Strings of the program are \<open>string\<close>, read as the UTF-8 bytes of the JavaScript
    string (well-formed Unicode only, so lone surrogates are outside the model).
  \<^item> A JavaScript \<open>Map\<close> is an association list with distinct keys in insertion order:
    \<open>AList.update\<close> overwrites in place or appends, which is what \<open>Map.prototype.set\<close> does,
    and \<open>AList.delete\<close> is \<open>Map.prototype.delete\<close>.
  \<^item> A \<open>throw\<close> is a value: \<open>Inl e\<close> of \<open>'e + 'a\<close>. Code that may change its state and then
    throw is a function \<open>'s \<Rightarrow> ('e + 'a) \<times> 's\<close>: the state it leaves behind is part of its
    result on the error branch too.
\<close>

named_theorems effect_simps \<open>unfolding the error and state plumbing\<close>

section \<open>Maps in insertion order\<close>

type_synonym ('k, 'v) jsmap = "('k \<times> 'v) list"

abbreviation jkeys :: "('k, 'v) jsmap \<Rightarrow> 'k list" where
  "jkeys m \<equiv> map fst m"

abbreviation jvals :: "('k, 'v) jsmap \<Rightarrow> 'v list" where
  "jvals m \<equiv> map snd m"

definition wf_map :: "('k, 'v) jsmap \<Rightarrow> bool" where
  "wf_map m \<longleftrightarrow> distinct (jkeys m)"

lemma wf_map_Nil [simp, intro]: "wf_map []"
  by (simp add: wf_map_def)

lemma wf_map_update [simp, intro]: "wf_map m \<Longrightarrow> wf_map (AList.update k v m)"
  by (simp add: wf_map_def distinct_update)

text \<open>\<open>new Map(pairs)\<close>: a later pair overwrites an earlier one in place.\<close>

definition map_from :: "('k \<times> 'v) list \<Rightarrow> ('k, 'v) jsmap" where
  "map_from ps = fold (\<lambda>(k, v) m. AList.update k v m) ps []"

lemma wf_map_delete [simp, intro]: "wf_map m \<Longrightarrow> wf_map (AList.delete k m)"
  by (simp add: wf_map_def distinct_delete)

lemma wf_map_Cons: "wf_map ((k, v) # m) \<longleftrightarrow> k \<notin> set (jkeys m) \<and> wf_map m"
  by (simp add: wf_map_def)

lemma wf_map_filter: "wf_map m \<Longrightarrow> wf_map (filter P m)"
  by (simp add: wf_map_def distinct_map_filter)

lemma map_of_mem: "wf_map m \<Longrightarrow> (k, v) \<in> set m \<longleftrightarrow> map_of m k = Some v"
  by (simp add: wf_map_def)

lemma map_of_update_eq [simp]: "map_of (AList.update k v m) = (map_of m)(k \<mapsto> v)"
  by (simp add: update_conv')

lemma map_of_delete_eq [simp]: "map_of (AList.delete k m) = (map_of m)(k := None)"
  by (simp add: delete_conv')

lemma set_jkeys_update [simp]: "set (jkeys (AList.update k v m)) = insert k (set (jkeys m))"
  by (induction m) auto

lemma set_jkeys_delete [simp]: "set (jkeys (AList.delete k m)) = set (jkeys m) - {k}"
  by (auto simp: AList.delete_eq)

lemma length_delete_less: "k \<in> set (jkeys m) \<Longrightarrow> length (AList.delete k m) < length m"
proof (induction m)
  case (Cons p m)
  have "length (AList.delete k m) \<le> length m" by (simp add: AList.delete_eq)
  with Cons show ?case by (auto simp: AList.delete_eq intro!: le_imp_less_Suc length_filter_le)
qed simp

lemma length_delete_le: "length (AList.delete k m) \<le> length m"
  by (simp add: AList.delete_eq)

lemma set_update_subset: "set (AList.update k v m) \<subseteq> insert (k, v) (set m)"
  by (induction m) auto

lemma set_delete_subset: "set (AList.delete k m) \<subseteq> set m"
  by (auto simp: AList.delete_eq)

lemma length_update: "length (AList.update k v m) = (if k \<in> set (jkeys m) then length m else Suc (length m))"
  by (induction m) auto

lemma update_fresh: "k \<notin> set (jkeys m) \<Longrightarrow> AList.update k v m = m @ [(k, v)]"
  by (induction m) auto

lemma delete_fresh: "k \<notin> set (jkeys m) \<Longrightarrow> AList.delete k m = m"
  by (induction m) auto

lemma wf_fold_update: "wf_map m \<Longrightarrow> wf_map (fold (\<lambda>(k, v) m. AList.update k v m) ps m)"
  by (induction ps arbitrary: m) (auto simp: case_prod_beta')

lemma wf_map_from [simp]: "wf_map (map_from ps)"
  by (simp add: map_from_def wf_fold_update)

lemma fold_update_distinct:
  "distinct (map fst (m @ ps)) \<Longrightarrow> fold (\<lambda>(k, v) m. AList.update k v m) ps m = m @ ps"
proof (induction ps arbitrary: m)
  case (Cons p ps)
  have "fst p \<notin> set (jkeys m)" using Cons.prems by auto
  then have "AList.update (fst p) (snd p) m = m @ [p]" by (simp add: update_fresh)
  with Cons.IH [of "m @ [p]"] Cons.prems show ?case by (simp add: case_prod_beta')
qed simp

lemma map_from_distinct: "distinct (map fst ps) \<Longrightarrow> map_from ps = ps"
  by (simp add: map_from_def fold_update_distinct)

lemma set_jkeys_fold_update:
  "set (jkeys (fold (\<lambda>(k, v) m. AList.update k v m) ps m)) = set (jkeys m) \<union> fst ` set ps"
  by (induction ps arbitrary: m) (auto simp: case_prod_beta' simp del: set_map)

lemma set_jkeys_map_from: "set (jkeys (map_from ps)) = fst ` set ps"
  unfolding map_from_def set_jkeys_fold_update by simp

lemma set_fold_update:
  "set (fold (\<lambda>(k, v) m. AList.update k v m) ps m) \<subseteq> set m \<union> set ps"
proof (induction ps arbitrary: m)
  case (Cons p ps)
  have "set (AList.update (fst p) (snd p) m) \<subseteq> insert p (set m)"
    using set_update_subset [of "fst p" "snd p" m] by simp
  with Cons [of "AList.update (fst p) (snd p) m"] show ?case by (auto simp: case_prod_beta')
qed simp

lemma set_map_from: "set (map_from ps) \<subseteq> set ps"
  using set_fold_update [of ps "[]"] by (simp add: map_from_def)

section \<open>Errors as values, with state\<close>

text \<open>\<open>let x = f(); g(x)\<close> where \<open>f\<close> may throw.\<close>

definition tryE :: "'e + 'a \<Rightarrow> ('a \<Rightarrow> 'e + 'b) \<Rightarrow> 'e + 'b" where
  "tryE r f = (case r of Inl e \<Rightarrow> Inl e | Inr x \<Rightarrow> f x)"

lemma tryE_simps [simp, effect_simps]:
  "tryE (Inl e) f = Inl e"
  "tryE (Inr x) f = f x"
  by (simp_all add: tryE_def)

lemma tryE_Inr_iff: "tryE r f = Inr y \<longleftrightarrow> (\<exists>x. r = Inr x \<and> f x = Inr y)"
  by (cases r) simp_all

lemma tryE_Inl_iff: "tryE r f = Inl e \<longleftrightarrow> r = Inl e \<or> (\<exists>x. r = Inr x \<and> f x = Inl e)"
  by (cases r) (simp_all add: tryE_def)

lemma tryE_split:
  "P (tryE r f) \<longleftrightarrow> (\<forall>e. r = Inl e \<longrightarrow> P (Inl e)) \<and> (\<forall>x. r = Inr x \<longrightarrow> P (f x))"
  by (cases r) simp_all

text \<open>\<open>xs.map(f)\<close> where \<open>f\<close> may throw: left to right, stopping at the first error.\<close>

fun mapE :: "('a \<Rightarrow> 'e + 'b) \<Rightarrow> 'a list \<Rightarrow> 'e + 'b list" where
  "mapE f [] = Inr []"
| "mapE f (x # xs) = tryE (f x) (\<lambda>y. tryE (mapE f xs) (\<lambda>ys. Inr (y # ys)))"

lemma mapE_Inr_iff: "mapE f xs = Inr ys \<longleftrightarrow> list_all2 (\<lambda>x y. f x = Inr y) xs ys"
proof (induction xs arbitrary: ys)
  case (Cons x xs)
  then show ?case by (cases ys) (auto simp: tryE_Inr_iff list_all2_Cons1)
qed auto

lemma mapE_length: "mapE f xs = Inr ys \<Longrightarrow> length ys = length xs"
  by (auto simp: mapE_Inr_iff dest: list_all2_lengthD)

text \<open>Stateful code that may throw.\<close>

type_synonym ('s, 'e, 'a) eff = "'s \<Rightarrow> ('e + 'a) \<times> 's"

definition retS :: "'a \<Rightarrow> ('s, 'e, 'a) eff" where
  "retS x s = (Inr x, s)"

definition throwS :: "'e \<Rightarrow> ('s, 'e, 'a) eff" where
  "throwS e s = (Inl e, s)"

definition bindS :: "('s, 'e, 'a) eff \<Rightarrow> ('a \<Rightarrow> ('s, 'e, 'b) eff) \<Rightarrow> ('s, 'e, 'b) eff" where
  "bindS m f s = (case m s of (Inl e, s') \<Rightarrow> (Inl e, s') | (Inr x, s') \<Rightarrow> f x s')"

lemma eff_simps [effect_simps]:
  "retS x s = (Inr x, s)"
  "throwS e s = (Inl e, s)"
  "m s = (Inl e, s') \<Longrightarrow> bindS m f s = (Inl e, s')"
  "m s = (Inr x, s') \<Longrightarrow> bindS m f s = f x s'"
  by (simp_all add: retS_def throwS_def bindS_def)

text \<open>
  Triples for such code: from a state in \<open>P\<close> it returns with \<open>Q\<close> of the result and the state, or
  throws in a state in \<open>R\<close>.
\<close>

definition valid_eff :: "('s \<Rightarrow> bool) \<Rightarrow> ('s, 'e, 'a) eff \<Rightarrow> ('a \<Rightarrow> 's \<Rightarrow> bool) \<Rightarrow> ('s \<Rightarrow> bool) \<Rightarrow> bool" where
  "valid_eff P m Q R \<longleftrightarrow>
     (\<forall>s. P s \<longrightarrow> (case m s of (Inr x, s') \<Rightarrow> Q x s' | (Inl e, s') \<Rightarrow> R s'))"

lemma valid_bind:
  assumes "valid_eff P m Q' R" "\<And>x. valid_eff (Q' x) (f x) Q R"
  shows "valid_eff P (bindS m f) Q R"
  using assms unfolding valid_eff_def bindS_def by (fastforce split: prod.splits sum.splits)

lemma valid_ret: "(\<And>s. P s \<Longrightarrow> Q x s) \<Longrightarrow> valid_eff P (retS x) Q R"
  by (simp add: valid_eff_def retS_def)

lemma valid_pre: "valid_eff P m Q R \<Longrightarrow> (\<And>s. P' s \<Longrightarrow> P s) \<Longrightarrow> valid_eff P' m Q R"
  by (simp add: valid_eff_def)

lemma valid_post:
  "valid_eff P m Q R \<Longrightarrow> (\<And>x s. Q x s \<Longrightarrow> Q' x s) \<Longrightarrow> (\<And>s. R s \<Longrightarrow> R' s) \<Longrightarrow> valid_eff P m Q' R'"
  unfolding valid_eff_def by (fastforce split: prod.splits sum.splits)

lemma valid_state:
  assumes "valid_eff P m Q R" "P s" "\<And>x s'. Q x s' \<Longrightarrow> T s'" "\<And>s'. R s' \<Longrightarrow> T s'"
  shows "T (snd (m s))"
  using assms unfolding valid_eff_def by (cases "m s") (fastforce split: sum.splits)

section \<open>Runs of a guarded system\<close>

text \<open>
  Several components share one contract: a step function over a state, an invariant, and
  the law that every step keeps it. What follows for runs is proved once.
\<close>

locale invariant_system =
  fixes step :: "'s \<Rightarrow> 'ev \<Rightarrow> 's"
    and inv :: "'s \<Rightarrow> bool"
  assumes step_inv: "inv s \<Longrightarrow> inv (step s ev)"
begin

lemma run_inv: "inv s \<Longrightarrow> inv (foldl step s evs)"
  by (induction evs arbitrary: s) (simp_all add: step_inv)

lemma run_prefix_inv: "inv s \<Longrightarrow> evs = pre @ post \<Longrightarrow> inv (foldl step s pre)"
  by (simp add: run_inv)

end

text \<open>Where the environment keeps a promise about the steps it asks for, \<open>ok\<close> states it.\<close>

locale guarded_system =
  fixes gstep :: "'s \<Rightarrow> 'ev \<Rightarrow> 's"
    and ok :: "'ev \<Rightarrow> bool"
    and ginv :: "'s \<Rightarrow> bool"
  assumes guarded_step: "ginv s \<Longrightarrow> ok ev \<Longrightarrow> ginv (gstep s ev)"
begin

lemma guarded_run: "ginv s \<Longrightarrow> list_all ok evs \<Longrightarrow> ginv (foldl gstep s evs)"
  by (induction evs arbitrary: s) (simp_all add: guarded_step)

lemma guarded_run_rel:
  assumes refl: "\<And>s. R s s" and trans: "\<And>s t u. R s t \<Longrightarrow> R t u \<Longrightarrow> R s u"
  and step: "\<And>s ev. ginv s \<Longrightarrow> ok ev \<Longrightarrow> R s (gstep s ev)"
  shows "ginv s \<Longrightarrow> list_all ok evs \<Longrightarrow> R s (foldl gstep s evs)"
proof (induction evs arbitrary: s)
  case (Cons ev evs)
  then have "R s (gstep s ev)" "R (gstep s ev) (foldl gstep (gstep s ev) evs)"
    by (simp_all add: step guarded_step)
  then show ?case using trans by simp
qed (simp add: refl)

end

sublocale invariant_system \<subseteq> guarded_system step "\<lambda>_. True" inv
  by unfold_locales (rule step_inv)

text \<open>A measure that no step lowers never goes back along a run.\<close>

locale monotone_system = invariant_system step inv
  for step :: "'s \<Rightarrow> 'ev \<Rightarrow> 's" and inv :: "'s \<Rightarrow> bool" +
  fixes gauge :: "'s \<Rightarrow> nat"
  assumes step_mono: "inv s \<Longrightarrow> gauge s \<le> gauge (step s ev)"
begin

lemma run_mono: "inv s \<Longrightarrow> gauge s \<le> gauge (foldl step s evs)"
proof (induction evs arbitrary: s)
  case (Cons ev evs)
  from Cons.prems have "gauge s \<le> gauge (step s ev)" by (rule step_mono)
  also have "\<dots> \<le> gauge (foldl step (step s ev) evs)"
    by (rule Cons.IH) (rule step_inv [OF Cons.prems])
  finally show ?case by simp
qed simp

end

section \<open>Lists\<close>

lemma filter_map_subset: "set (filter P (map f xs)) \<subseteq> f ` set xs"
  by auto

lemma sum_list_filter_split:
  fixes f :: "'a \<Rightarrow> nat"
  shows "sum_list (map f xs) = sum_list (map f (filter P xs)) + sum_list (map f (filter (\<lambda>x. \<not> P x) xs))"
  by (induction xs) simp_all

lemma take_take_drop: "take n xs @ take m (drop n xs) = take (n + m) xs"
  by (simp add: take_add)

lemma concat_map_singleton_if:
  "concat (map (\<lambda>x. if P x then [f x] else []) xs) = map f (filter P xs)"
  by (induction xs) simp_all

end
