(* ===== verification/Json.thy ===== *)
theory Json
  imports Prelude "HOL-Library.Char_ord" "HOL-Library.List_Lexorder" "HOL-Library.Product_Lexorder"
begin

text \<open>
  The JavaScript values the program sends, stores and signs, with the parts of the
  standard library it uses on them: \<open>JSON.stringify\<close>, \<open>JSON.parse\<close>, \<open>Number.toString\<close>,
  and the canonical serialisers the sources define on top
  (\<open>canonical\<close> in packages/ipc/src/envelope.ts and in packages/control/src/plan-journal.ts,
  \<open>stableSerialize\<close> in packages/control/src/observation-rules.ts).

  A number is its decimal text (\<open>Number::toString\<close>), so that fractions the code only passes
  on are kept exactly; the integers the code computes with are printed by \<open>show_int\<close>.
  Objects keep insertion order. Integer-like property names, which JavaScript moves to the
  front, are kept where they are: nothing here depends on the order of such names.

  The parser runs on fuel; \<open>parse_fuel_irrelevant\<close> shows that the fuel \<open>json_parse\<close>
  gives is always enough, and \<open>json_parse_text\<close> that parsing undoes printing.
\<close>

section \<open>Values\<close>

datatype jsv =
    VUndef
  | VNull
  | VBool bool
  | VNum string
  | VStr string
  | VArr "jsv list"
  | VObj "(string \<times> jsv) list"

section \<open>Numbers in a base\<close>

definition base_digit :: "nat \<Rightarrow> char" where
  "base_digit d = char_of (if d < 10 then 48 + d else 87 + d)"

fun show_base :: "nat \<Rightarrow> nat \<Rightarrow> string" where
  "show_base b n =
     (if b < 2 \<or> n < b then [base_digit n] else show_base b (n div b) @ [base_digit (n mod b)])"

declare show_base.simps [simp del]

definition digit_value :: "char \<Rightarrow> nat" where
  "digit_value c = (let n = of_char c in if n < 58 then n - 48 else n - 87)"

definition read_base :: "nat \<Rightarrow> string \<Rightarrow> nat" where
  "read_base b s = foldl (\<lambda>n c. n * b + digit_value c) 0 s"

definition show_int :: "int \<Rightarrow> string" where
  "show_int i = (if i < 0 then CHR ''-'' # show_base 10 (nat (- i)) else show_base 10 (nat i))"

abbreviation VInt :: "int \<Rightarrow> jsv" where
  "VInt i \<equiv> VNum (show_int i)"

lemma digit_value_base_digit: "d < 36 \<Longrightarrow> digit_value (base_digit d) = d"
  by (simp add: digit_value_def base_digit_def Let_def)

lemma read_base_snoc: "read_base b (s @ [c]) = read_base b s * b + digit_value c"
  by (simp add: read_base_def)

lemma read_base_show_base:
  assumes "2 \<le> b" "b \<le> 36"
  shows "read_base b (show_base b n) = n"
proof (induction n rule: less_induct)
  case (less n)
  show ?case
  proof (cases "n < b")
    case True
    with assms show ?thesis
      by (simp add: show_base.simps [of b n] read_base_def digit_value_base_digit)
  next
    case False
    with assms have "n div b < n" by simp
    then have "read_base b (show_base b (n div b)) = n div b" by (rule less.IH)
    moreover have "n mod b < 36" using assms by (meson mod_less_divisor order_less_le_trans zero_less_numeral order.strict_trans1)
    ultimately show ?thesis using False assms
      by (simp add: show_base.simps [of b n] read_base_snoc digit_value_base_digit)
  qed
qed

lemma show_base_inject:
  assumes "2 \<le> b" "b \<le> 36" "show_base b m = show_base b n"
  shows "m = n"
  using assms by (metis read_base_show_base)

lemma show_base_nonempty [simp]: "show_base b n \<noteq> []"
  by (simp add: show_base.simps [of b n])

lemma set_show_base:
  assumes "2 \<le> b"
  shows "set (show_base b n) \<subseteq> base_digit ` {0..<b}"
proof (induction n rule: less_induct)
  case (less n)
  show ?case
  proof (cases "n < b")
    case True
    with assms show ?thesis by (simp add: show_base.simps [of b n])
  next
    case False
    with assms have "n div b < n" and "n mod b < b" by simp_all
    with less.IH [of "n div b"] False assms show ?thesis
      by (auto simp: show_base.simps [of b n])
  qed
qed

lemma show_base_decimal: "c \<in> set (show_base 10 n) \<Longrightarrow> of_char c \<in> {48..<58::nat}"
  using set_show_base [of 10 n] by (auto simp: base_digit_def)

lemma show_base_length:
  assumes "2 \<le> b" "n < b ^ k" "0 < k"
  shows "length (show_base b n) \<le> k"
  using assms(2,3)
proof (induction k arbitrary: n)
  case (Suc k)
  show ?case
  proof (cases "n < b")
    case True
    with assms(1) show ?thesis by (simp add: show_base.simps [of b n])
  next
    case False
    with Suc.prems assms(1) have "0 < k" by (cases k) auto
    moreover from Suc.prems have "n div b < b ^ k"
      by (simp add: less_mult_imp_div_less mult.commute)
    ultimately have "length (show_base b (n div b)) \<le> k" by (rule Suc.IH [rotated])
    with False assms(1) show ?thesis by (simp add: show_base.simps [of b n])
  qed
qed simp

lemma minus_notin_show_base: "CHR ''-'' \<notin> set (show_base 10 n)"
  using show_base_decimal [of "CHR ''-''" n] by auto

lemma show_int_inject [simp]: "show_int i = show_int j \<longleftrightarrow> i = j"
proof
  have minus: "show_base 10 n \<noteq> CHR ''-'' # xs" for n xs
    using minus_notin_show_base [of n] by (metis list.set_intros(1))
  have inj: "show_base 10 m = show_base 10 n \<Longrightarrow> m = n" for m n
    by (rule show_base_inject [of 10]) simp_all
  assume "show_int i = show_int j"
  with minus minus [symmetric] show "i = j"
    by (auto simp: show_int_def split: if_splits dest!: inj)
qed simp

section \<open>JSON.stringify\<close>

text \<open>QuoteJSONString on the UTF-8 bytes: only ASCII needs escaping.\<close>

definition QUOTE :: char where "QUOTE = CHR 0x22"
definition BSL :: char where "BSL = CHR 0x5C"

definition escape_char :: "char \<Rightarrow> string" where
  "escape_char c =
     (let n = of_char c :: nat in
      if n = 34 then [BSL, QUOTE]
      else if n = 92 then [BSL, BSL]
      else if n = 8 then [BSL, CHR ''b'']
      else if n = 9 then [BSL, CHR ''t'']
      else if n = 10 then [BSL, CHR ''n'']
      else if n = 12 then [BSL, CHR ''f'']
      else if n = 13 then [BSL, CHR ''r'']
      else if n < 32 then
        [BSL, CHR ''u'', CHR ''0'', CHR ''0'', base_digit (n div 16), base_digit (n mod 16)]
      else [c])"

definition json_quote :: "string \<Rightarrow> string" where
  "json_quote s = [QUOTE] @ concat (map escape_char s) @ [QUOTE]"

text \<open>\<open>xs.join(sep)\<close>\<close>

fun join_with :: "string \<Rightarrow> string list \<Rightarrow> string" where
  "join_with sep [] = []"
| "join_with sep [x] = x"
| "join_with sep (x # y # ys) = x @ sep @ join_with sep (y # ys)"

definition is_undef :: "jsv \<Rightarrow> bool" where
  "is_undef v = (case v of VUndef \<Rightarrow> True | _ \<Rightarrow> False)"

lemma is_undef_simps [simp]:
  "is_undef VUndef" "\<not> is_undef VNull" "\<not> is_undef (VBool b)" "\<not> is_undef (VNum t)"
  "\<not> is_undef (VStr s)" "\<not> is_undef (VArr xs)" "\<not> is_undef (VObj ms)"
  by (simp_all add: is_undef_def)

definition bool_text :: "bool \<Rightarrow> string" where
  "bool_text b = (if b then ''true'' else ''false'')"

fun json_text :: "jsv \<Rightarrow> string" where
  "json_text VUndef = ''null''"
| "json_text VNull = ''null''"
| "json_text (VBool b) = bool_text b"
| "json_text (VNum t) = t"
| "json_text (VStr s) = json_quote s"
| "json_text (VArr xs) = ''['' @ join_with '','' (map json_text xs) @ '']''"
| "json_text (VObj ms) =
     CHR 0x7B # join_with '','' (map (\<lambda>(k, v). json_quote k @ '':'' @ json_text v)
        (filter (\<lambda>(k, v). \<not> is_undef v) ms)) @ [CHR 0x7D]"

text \<open>\<open>JSON.stringify(undefined)\<close> is \<open>undefined\<close>, not a string.\<close>

definition json_stringify :: "jsv \<Rightarrow> string option" where
  "json_stringify v = (if is_undef v then None else Some (json_text v))"

section \<open>JSON.parse\<close>

definition is_ws :: "char \<Rightarrow> bool" where
  "is_ws c = (c = CHR '' '' \<or> of_char c = (9::nat) \<or> of_char c = (10::nat) \<or> of_char c = (13::nat))"

definition skip_ws :: "string \<Rightarrow> string" where
  "skip_ws s = dropWhile is_ws s"

definition is_digit :: "char \<Rightarrow> bool" where
  "is_digit c = (48 \<le> (of_char c :: nat) \<and> of_char c < (58::nat))"

definition is_numchar :: "char \<Rightarrow> bool" where
  "is_numchar c = (is_digit c \<or> c \<in> {CHR ''-'', CHR ''+'', CHR ''.'', CHR ''e'', CHR ''E''})"

text \<open>The number grammar of JSON: \<open>-? int frac? exp?\<close>.\<close>

fun strip_sign :: "string \<Rightarrow> string" where
  "strip_sign (c # r) = (if c = CHR ''-'' \<or> c = CHR ''+'' then r else c # r)"
| "strip_sign [] = []"

fun exp_ok :: "string \<Rightarrow> bool" where
  "exp_ok [] = True"
| "exp_ok (c # r) =
     ((c = CHR ''e'' \<or> c = CHR ''E'') \<and> strip_sign r \<noteq> [] \<and> list_all is_digit (strip_sign r))"

fun frac_ok :: "string \<Rightarrow> bool" where
  "frac_ok [] = True"
| "frac_ok (c # r) =
     (if c = CHR ''.'' then takeWhile is_digit r \<noteq> [] \<and> exp_ok (dropWhile is_digit r)
      else exp_ok (c # r))"

definition num_ok :: "string \<Rightarrow> bool" where
  "num_ok t =
     (let u = (case t of [] \<Rightarrow> [] | c # r \<Rightarrow> if c = CHR ''-'' then r else t);
          ip = takeWhile is_digit u
      in ip \<noteq> [] \<and> (hd ip = CHR ''0'' \<longrightarrow> length ip = 1) \<and> frac_ok (dropWhile is_digit u))"

definition hex_value :: "char \<Rightarrow> nat option" where
  "hex_value c =
     (let n = of_char c :: nat in
      if 48 \<le> n \<and> n < 58 then Some (n - 48)
      else if 97 \<le> n \<and> n < 103 then Some (n - 87)
      else if 65 \<le> n \<and> n < 71 then Some (n - 55)
      else None)"

fun hex4 :: "string \<Rightarrow> (nat \<times> string) option" where
  "hex4 (a # b # c # d # r) =
     (case (hex_value a, hex_value b, hex_value c, hex_value d) of
        (Some w, Some x, Some y, Some z) \<Rightarrow> Some (((w * 16 + x) * 16 + y) * 16 + z, r)
      | _ \<Rightarrow> None)"
| "hex4 _ = None"

definition utf8 :: "nat \<Rightarrow> string" where
  "utf8 n =
     (if n < 128 then [char_of n]
      else if n < 2048 then [char_of (192 + n div 64), char_of (128 + n mod 64)]
      else if n < 65536 then
        [char_of (224 + n div 4096), char_of (128 + n div 64 mod 64), char_of (128 + n mod 64)]
      else
        [char_of (240 + n div 262144), char_of (128 + n div 4096 mod 64),
         char_of (128 + n div 64 mod 64), char_of (128 + n mod 64)])"

text \<open>
  One escape, after the backslash: the bytes it stands for and the rest. A surrogate pair is
  one code point; a lone surrogate has no UTF-8 form and is refused.
\<close>

fun p_esc :: "string \<Rightarrow> (string \<times> string) option" where
  "p_esc [] = None"
| "p_esc (e # r) =
     (if e = QUOTE \<or> e = BSL \<or> e = CHR ''/'' then Some ([e], r)
      else if e = CHR ''b'' then Some ([char_of (8::nat)], r)
      else if e = CHR ''t'' then Some ([char_of (9::nat)], r)
      else if e = CHR ''n'' then Some ([char_of (10::nat)], r)
      else if e = CHR ''f'' then Some ([char_of (12::nat)], r)
      else if e = CHR ''r'' then Some ([char_of (13::nat)], r)
      else if e = CHR ''u'' then
        (case hex4 r of
           None \<Rightarrow> None
         | Some (n, r1) \<Rightarrow>
             if 55296 \<le> n \<and> n < 56320 then
               (case r1 of
                  b # u # r2 \<Rightarrow>
                    if b = BSL \<and> u = CHR ''u'' then
                      (case hex4 r2 of
                         Some (m, r3) \<Rightarrow>
                           if 56320 \<le> m \<and> m < 57344
                           then Some (utf8 (65536 + (n - 55296) * 1024 + (m - 56320)), r3)
                           else None
                       | None \<Rightarrow> None)
                    else None
                | _ \<Rightarrow> None)
             else if 56320 \<le> n \<and> n < 57344 then None
             else Some (utf8 n, r1))
      else None)"

lemma hex4_length: "hex4 r = Some (n, r') \<Longrightarrow> length r' < length r"
  by (induction r rule: hex4.induct) (auto split: option.splits prod.splits)

lemma p_esc_length: "p_esc r = Some (bs, r') \<Longrightarrow> length r' < length r"
  by (cases r)
     (auto split: if_splits option.splits list.splits prod.splits dest!: hex4_length)

function p_str :: "string \<Rightarrow> (string \<times> string) option" where
  "p_str [] = None"
| "p_str (c # r) =
     (if c = QUOTE then Some ([], r)
      else if c = BSL then
        (case p_esc r of
           None \<Rightarrow> None
         | Some (bs, r') \<Rightarrow> map_option (\<lambda>(t, q). (bs @ t, q)) (p_str r'))
      else if of_char c < (32::nat) then None
      else map_option (\<lambda>(t, q). (c # t, q)) (p_str r))"
  by pat_completeness auto
termination
  by (relation "measure length") (auto dest!: p_esc_length)

lemma p_str_length: "p_str s = Some (t, r) \<Longrightarrow> length r < length s"
  by (induction s arbitrary: t r rule: p_str.induct)
     (fastforce split: if_splits option.splits dest!: p_esc_length)+

definition p_num :: "string \<Rightarrow> (jsv \<times> string) option" where
  "p_num s =
     (let t = takeWhile is_numchar s in
      if num_ok t then Some (VNum t, dropWhile is_numchar s) else None)"

definition p_lit :: "string \<Rightarrow> jsv \<Rightarrow> string \<Rightarrow> (jsv \<times> string) option" where
  "p_lit w v s = (if take (length w) s = w then Some (v, drop (length w) s) else None)"

text \<open>An object literal with a repeated name keeps the last value at the first position.\<close>

definition js_object :: "(string \<times> jsv) list \<Rightarrow> jsv" where
  "js_object ms = VObj (foldl (\<lambda>m (k, v). AList.update k v m) [] ms)"

fun p_val :: "nat \<Rightarrow> string \<Rightarrow> (jsv \<times> string) option"
  and p_elems :: "nat \<Rightarrow> string \<Rightarrow> (jsv list \<times> string) option"
  and p_members :: "nat \<Rightarrow> string \<Rightarrow> ((string \<times> jsv) list \<times> string) option"
where
  "p_val 0 s = None"
| "p_val (Suc n) s =
     (case skip_ws s of
        [] \<Rightarrow> None
      | c # r \<Rightarrow>
          if c = QUOTE then map_option (\<lambda>(t, q). (VStr t, q)) (p_str r)
          else if c = CHR ''['' then
            (case skip_ws r of
               [] \<Rightarrow> None
             | d # r' \<Rightarrow>
                 if d = CHR '']'' then Some (VArr [], r')
                 else map_option (\<lambda>(xs, q). (VArr xs, q)) (p_elems n r))
          else if c = CHR 0x7B then
            (case skip_ws r of
               [] \<Rightarrow> None
             | d # r' \<Rightarrow>
                 if d = CHR 0x7D then Some (VObj [], r')
                 else map_option (\<lambda>(ms, q). (js_object ms, q)) (p_members n r))
          else if c = CHR ''t'' then p_lit ''true'' (VBool True) (c # r)
          else if c = CHR ''f'' then p_lit ''false'' (VBool False) (c # r)
          else if c = CHR ''n'' then p_lit ''null'' VNull (c # r)
          else p_num (c # r))"
| "p_elems 0 s = None"
| "p_elems (Suc n) s =
     (case p_val n s of
        None \<Rightarrow> None
      | Some (v, r) \<Rightarrow>
          (case skip_ws r of
             [] \<Rightarrow> None
           | c # r' \<Rightarrow>
               if c = CHR '','' then map_option (\<lambda>(vs, q). (v # vs, q)) (p_elems n r')
               else if c = CHR '']'' then Some ([v], r')
               else None))"
| "p_members 0 s = None"
| "p_members (Suc n) s =
     (case skip_ws s of
        [] \<Rightarrow> None
      | q # r \<Rightarrow>
          if q \<noteq> QUOTE then None
          else (case p_str r of
             None \<Rightarrow> None
           | Some (k, r1) \<Rightarrow>
               (case skip_ws r1 of
                  [] \<Rightarrow> None
                | col # r2 \<Rightarrow>
                    if col \<noteq> CHR '':'' then None
                    else (case p_val n r2 of
                       None \<Rightarrow> None
                     | Some (v, r3) \<Rightarrow>
                         (case skip_ws r3 of
                            [] \<Rightarrow> None
                          | c # r' \<Rightarrow>
                              if c = CHR '','' then
                                map_option (\<lambda>(ms, q). ((k, v) # ms, q)) (p_members n r')
                              else if c = CHR 0x7D then Some ([(k, v)], r')
                              else None)))))"

definition json_parse :: "string \<Rightarrow> jsv option" where
  "json_parse s =
     (case p_val (2 * length s + 1) s of
        Some (v, r) \<Rightarrow> if skip_ws r = [] then Some v else None
      | None \<Rightarrow> None)"

subsection \<open>Progress and fuel\<close>

lemma skip_ws_length: "length (skip_ws s) \<le> length s"
  by (simp add: skip_ws_def length_dropWhile_le)

lemma skip_ws_Cons_length: "skip_ws s = c # r \<Longrightarrow> length r < length s"
  using skip_ws_length [of s] by simp

lemma skip_ws_Cons_ex: "skip_ws s = c # r \<Longrightarrow> Suc (length r) \<le> length s"
  using skip_ws_length [of s] by simp

lemma p_num_length: "p_num s = Some (v, r) \<Longrightarrow> length r < length s"
proof -
  assume ok: "p_num s = Some (v, r)"
  then have "takeWhile is_numchar s \<noteq> []"
    by (auto simp: p_num_def Let_def num_ok_def split: if_splits)
  moreover from ok have "r = dropWhile is_numchar s"
    by (auto simp: p_num_def Let_def split: if_splits)
  ultimately show ?thesis
    by (metis takeWhile_dropWhile_id length_append length_greater_0_conv less_add_same_cancel2)
qed

lemma p_lit_length: "p_lit w v s = Some (x, r) \<Longrightarrow> w \<noteq> [] \<Longrightarrow> length r < length s"
  by (cases s) (auto simp: p_lit_def split: if_splits)

lemma p_lengths:
  "p_val n s = Some (v, r) \<Longrightarrow> length r < length s"
  "p_elems n s = Some (vs, r) \<Longrightarrow> length r < length s"
  "p_members n s = Some (ms, r) \<Longrightarrow> length r < length s"
proof (induction n s and n s and n s arbitrary: v r and vs r and ms r
    rule: p_val_p_elems_p_members.induct)
  case (2 n s)
  from "2.prems" obtain c t where s: "skip_ws s = c # t"
    by (auto split: list.splits)
  note len = skip_ws_Cons_length [OF s]
  have elems: "\<And>d r' xs q. skip_ws t = d # r' \<Longrightarrow> d \<noteq> CHR '']'' \<Longrightarrow> c = CHR ''['' \<Longrightarrow>
      p_elems n t = Some (xs, q) \<Longrightarrow> length q < length t"
    using "2.IH"(1) s by (simp add: QUOTE_def)
  have members: "\<And>d r' ms q. skip_ws t = d # r' \<Longrightarrow> d \<noteq> CHR 0x7D \<Longrightarrow> c = CHR 0x7B \<Longrightarrow>
      p_members n t = Some (ms, q) \<Longrightarrow> length q < length t"
    using "2.IH"(2) s by (simp add: QUOTE_def)
  show ?case
    using "2.prems" len s
    by (auto split: if_splits list.splits
        dest!: p_str_length p_num_length p_lit_length dest: elems members skip_ws_Cons_length)
next
  case (4 n s)
  from "4.prems" obtain v q where v: "p_val n s = Some (v, q)"
    by (auto split: option.splits)
  have q: "length q < length s" by (rule "4.IH"(1) [OF v])
  have rest: "\<And>r' vs'' p. skip_ws q = CHR '','' # r' \<Longrightarrow> p_elems n r' = Some (vs'', p) \<Longrightarrow> length p < length r'"
    using "4.IH"(2) [OF v refl] by simp
  from "4.prems" v obtain c r' where r': "skip_ws q = c # r'"
    by (auto split: list.splits)
  show ?case
    using "4.prems" v q r' skip_ws_Cons_length [OF r']
    by (auto split: if_splits dest: rest)
next
  case (6 n s)
  from "6.prems" obtain t where t: "skip_ws s = QUOTE # t"
    by (auto split: list.splits if_splits)
  from "6.prems" t obtain k r1 where k: "p_str t = Some (k, r1)"
    by (auto split: option.splits)
  from "6.prems" t k obtain r2 where r2: "skip_ws r1 = CHR '':'' # r2"
    by (auto split: list.splits if_splits)
  from "6.prems" t k r2 obtain v r3 where v: "p_val n r2 = Some (v, r3)"
    by (auto split: option.splits)
  have len: "length r3 < length s"
    using "6.IH"(1) [OF t _ k refl r2 _ v] skip_ws_Cons_length [OF t] p_str_length [OF k]
      skip_ws_Cons_length [OF r2] by simp
  have rest: "\<And>r' ms'' p. skip_ws r3 = CHR '','' # r' \<Longrightarrow> p_members n r' = Some (ms'', p) \<Longrightarrow> length p < length r'"
    using "6.IH"(2) [OF t _ k refl r2 _ v refl] by simp
  from "6.prems" t k r2 v obtain c r' where r': "skip_ws r3 = c # r'"
    by (auto split: list.splits)
  show ?case
    using "6.prems" t k r2 v len r' skip_ws_Cons_length [OF r']
    by (auto split: if_splits dest: rest)
qed simp_all


text \<open>
  Two units of fuel per byte are enough: any two amounts that large give the same result.
\<close>

lemma parse_fuel_irrelevant:
  "2 * length s + 1 \<le> n \<Longrightarrow> 2 * length s + 1 \<le> m \<Longrightarrow> p_val n s = p_val m s"
  "2 * length s + 2 \<le> n \<Longrightarrow> 2 * length s + 2 \<le> m \<Longrightarrow> p_elems n s = p_elems m s"
  "2 * length s + 2 \<le> n \<Longrightarrow> 2 * length s + 2 \<le> m \<Longrightarrow> p_members n s = p_members m s"
proof (induction n arbitrary: s m)
  case (Suc n)
  {
    case 1
    then obtain m' where m: "m = Suc m'" by (cases m) auto
    show ?case
    proof (cases "skip_ws s")
      case Nil
      with m show ?thesis by simp
    next
      case (Cons c r)
      from skip_ws_Cons_length [OF Cons] 1 m
      have "2 * length r + 2 \<le> n" "2 * length r + 2 \<le> m'" by simp_all
      then have "p_elems n r = p_elems m' r" "p_members n r = p_members m' r"
        by (rule Suc.IH(2), rule Suc.IH(3))
      with m Cons show ?thesis by (simp split: list.splits)
    qed
  next
    case 2
    then obtain m' where m: "m = Suc m'" by (cases m) auto
    with 2 have v: "p_val n s = p_val m' s" by (intro Suc.IH(1)) simp_all
    have rest: "p_elems n r' = p_elems m' r'"
      if "p_val m' s = Some (v, r)" "skip_ws r = c # r'" for v r c r'
      using 2 m p_lengths(1) [OF that(1)] skip_ws_Cons_length [OF that(2)]
      by (intro Suc.IH(2)) simp_all
    show ?case
      by (auto simp: m v rest split: option.splits list.splits)
  next
    case 3
    then obtain m' where m: "m = Suc m'" by (cases m) auto
    have v: "p_val n r2 = p_val m' r2"
      if "skip_ws s = q # r" "p_str r = Some (k, r1)" "skip_ws r1 = c # r2" for q r k r1 c r2
      using 3 m skip_ws_Cons_length [OF that(1)] p_str_length [OF that(2)]
        skip_ws_Cons_length [OF that(3)]
      by (intro Suc.IH(1)) simp_all
    have rest: "p_members n r' = p_members m' r'"
      if "skip_ws s = q # r" "p_str r = Some (k, r1)" "skip_ws r1 = c # r2"
        "p_val m' r2 = Some (v, r3)" "skip_ws r3 = d # r'" for q r k r1 c r2 v r3 d r'
      using 3 m skip_ws_Cons_length [OF that(1)] p_str_length [OF that(2)]
        skip_ws_Cons_length [OF that(3)] p_lengths(1) [OF that(4)] skip_ws_Cons_length [OF that(5)]
      by (intro Suc.IH(3)) simp_all
    show ?case
      by (auto simp: m v rest split: option.splits list.splits)
  }
qed simp_all

subsection \<open>Parsing undoes printing\<close>

text \<open>What is left of a value once printed: undefined members go, undefined elements become null.\<close>

fun norm :: "jsv \<Rightarrow> jsv" where
  "norm VUndef = VNull"
| "norm (VArr xs) = VArr (map norm xs)"
| "norm (VObj ms) = VObj (map (\<lambda>(k, v). (k, norm v)) (filter (\<lambda>(k, v). \<not> is_undef v) ms))"
| "norm v = v"

definition wf_num :: "string \<Rightarrow> bool" where
  "wf_num t \<longleftrightarrow> list_all is_numchar t \<and> num_ok t"

fun wf_jsv :: "jsv \<Rightarrow> bool" where
  "wf_jsv (VNum t) = wf_num t"
| "wf_jsv (VArr xs) = (\<forall>x \<in> set xs. wf_jsv x)"
| "wf_jsv (VObj ms) = (wf_map ms \<and> (\<forall>m \<in> set ms. wf_jsv (snd m)))"
| "wf_jsv v = True"

lemma hex_value_base_digit: "d < 16 \<Longrightarrow> hex_value (base_digit d) = Some d"
  by (simp add: hex_value_def base_digit_def Let_def)

lemma p_esc_escape:
  assumes "of_char c < (32::nat)" "of_char c \<notin> {8, 9, 10, 12, 13 :: nat}"
  shows "p_esc (CHR ''u'' # CHR ''0'' # CHR ''0'' # base_digit (of_char c div 16)
      # base_digit (of_char c mod 16) # r) = Some ([c], r)"
proof -
  have "hex_value (CHR ''0'') = Some 0" by (simp add: hex_value_def Let_def)
  moreover have "utf8 (of_char c div 16 * 16 + of_char c mod 16) = [c]"
    using assms(1) by (simp add: utf8_def div_mult_mod_eq)
  ultimately show ?thesis using assms
    by (simp add: hex_value_base_digit QUOTE_def BSL_def)
qed

lemma of_char_eqD: "of_char c = (n::nat) \<Longrightarrow> c = char_of n"
  by (metis char_of_char)

lemma char_of_quotes: "char_of (34::nat) = QUOTE" "char_of (92::nat) = BSL"
  by (rule of_char_eqD [symmetric], simp add: QUOTE_def BSL_def)+

lemma p_esc_simple:
  "p_esc (QUOTE # r) = Some ([QUOTE], r)"
  "p_esc (BSL # r) = Some ([BSL], r)"
  "p_esc (CHR ''b'' # r) = Some ([char_of (8::nat)], r)"
  "p_esc (CHR ''t'' # r) = Some ([char_of (9::nat)], r)"
  "p_esc (CHR ''n'' # r) = Some ([char_of (10::nat)], r)"
  "p_esc (CHR ''f'' # r) = Some ([char_of (12::nat)], r)"
  "p_esc (CHR ''r'' # r) = Some ([char_of (13::nat)], r)"
  by (simp_all add: QUOTE_def BSL_def)

lemma p_str_BSL:
  "p_esc r = Some (bs, r') \<Longrightarrow> p_str (BSL # r) = map_option (\<lambda>(t, q). (bs @ t, q)) (p_str r')"
  by (simp add: BSL_def QUOTE_def)

lemma p_str_escape_char: "p_str (escape_char c @ s) = map_option (\<lambda>(t, q). (c # t, q)) (p_str s)"
proof -
  consider "of_char c \<in> {34, 92, 8, 9, 10, 12, 13 :: nat}"
    | "of_char c < (32::nat)" "of_char c \<notin> {34, 92, 8, 9, 10, 12, 13 :: nat}"
    | "32 \<le> (of_char c :: nat)" "of_char c \<notin> {34, 92 :: nat}"
    by fastforce
  then show ?thesis
  proof cases
    case 1
    then show ?thesis
      by (auto dest!: of_char_eqD simp: escape_char_def p_str_BSL p_esc_simple simp del: p_str.simps p_esc.simps)
         (simp_all add: char_of_quotes)
  next
    case 2
    then have "p_esc (CHR ''u'' # CHR ''0'' # CHR ''0'' # base_digit (of_char c div 16)
        # base_digit (of_char c mod 16) # s) = Some ([c], s)"
      by (intro p_esc_escape) simp_all
    with 2 show ?thesis
      by (simp add: escape_char_def Let_def p_str_BSL del: p_str.simps p_esc.simps)
  next
    case 3
    then have "c \<noteq> QUOTE" "c \<noteq> BSL" by (auto simp: QUOTE_def BSL_def)
    with 3 show ?thesis by (simp add: escape_char_def Let_def)
  qed
qed

lemma p_str_escaped: "p_str (concat (map escape_char t) @ QUOTE # s) = Some (t, s)"
  by (induction t) (simp_all add: p_str_escape_char del: p_str.simps(2), simp)

lemma json_quote_parts: "json_quote t @ s = QUOTE # concat (map escape_char t) @ QUOTE # s"
  by (simp add: json_quote_def)


text \<open>What may follow a value inside a text: nothing that could continue a number.\<close>

definition ends_value :: "string \<Rightarrow> bool" where
  "ends_value s \<longleftrightarrow> (case s of [] \<Rightarrow> True | c # _ \<Rightarrow> \<not> is_numchar c)"

lemma ends_value_simps [simp]:
  "ends_value []" "ends_value (CHR '','' # s)" "ends_value (CHR '']'' # s)" "ends_value (CHR 0x7D # s)"
  by (simp_all add: ends_value_def is_numchar_def is_digit_def)

lemma skip_ws_simps [simp]:
  "skip_ws []  = []"
  "skip_ws (QUOTE # s) = QUOTE # s" "skip_ws (CHR ''['' # s) = CHR ''['' # s"
  "skip_ws (CHR '']'' # s) = CHR '']'' # s" "skip_ws (CHR 0x7B # s) = CHR 0x7B # s"
  "skip_ws (CHR 0x7D # s) = CHR 0x7D # s" "skip_ws (CHR '','' # s) = CHR '','' # s"
  "skip_ws (CHR '':'' # s) = CHR '':'' # s" "skip_ws (CHR ''t'' # s) = CHR ''t'' # s"
  "skip_ws (CHR ''f'' # s) = CHR ''f'' # s" "skip_ws (CHR ''n'' # s) = CHR ''n'' # s"
  by (simp_all add: skip_ws_def is_ws_def QUOTE_def)

lemma char_neqs [simp]:
  "CHR ''['' \<noteq> QUOTE" "CHR 0x7B \<noteq> QUOTE" "CHR ''t'' \<noteq> QUOTE" "CHR ''f'' \<noteq> QUOTE"
  "CHR ''n'' \<noteq> QUOTE" "CHR '']'' \<noteq> QUOTE" "CHR 0x7D \<noteq> QUOTE"
  "QUOTE \<noteq> CHR '']''" "QUOTE \<noteq> CHR 0x7D"
  by (simp_all add: QUOTE_def)

text \<open>The first character of a printed value never closes a bracket and is no white space.\<close>

definition starts_value :: "string \<Rightarrow> bool" where
  "starts_value s \<longleftrightarrow>
     (case s of [] \<Rightarrow> False | c # _ \<Rightarrow> \<not> is_ws c \<and> c \<noteq> CHR '']'' \<and> c \<noteq> CHR 0x7D)"

lemma num_ok_nonempty: "num_ok t \<Longrightarrow> t \<noteq> []"
  by (auto simp: num_ok_def)

lemma wf_num_first: "wf_num t \<Longrightarrow> \<exists>c r. t = c # r \<and> is_numchar c"
  by (cases t) (auto simp: wf_num_def num_ok_def)

lemma numchar_starts: "is_numchar c \<Longrightarrow> starts_value (c # s)"
  by (auto simp: starts_value_def is_numchar_def is_digit_def is_ws_def)

lemma json_text_starts: "wf_jsv v \<Longrightarrow> starts_value (json_text v @ s)"
proof (cases v)
  case (VNum t)
  assume "wf_jsv v"
  with VNum wf_num_first [of t] numchar_starts show ?thesis by auto
qed (simp_all add: starts_value_def is_ws_def bool_text_def json_quote_def QUOTE_def)

lemma starts_value_skip: "starts_value s \<Longrightarrow> skip_ws s = s"
  by (cases s) (simp_all add: starts_value_def skip_ws_def)

lemma numchar_not_struct:
  "is_numchar c \<Longrightarrow> c \<noteq> QUOTE \<and> c \<noteq> CHR ''['' \<and> c \<noteq> CHR 0x7B \<and> c \<noteq> CHR ''t'' \<and> c \<noteq> CHR ''f'' \<and> c \<noteq> CHR ''n''"
  by (auto simp: is_numchar_def is_digit_def QUOTE_def)

lemma p_num_text:
  assumes "wf_num t" "ends_value s"
  shows "p_num (t @ s) = Some (VNum t, s)"
proof -
  have "takeWhile is_numchar s = []" using assms(2) by (cases s) (simp_all add: ends_value_def)
  moreover have "dropWhile is_numchar s = s"
    using assms(2) by (cases s) (simp_all add: ends_value_def)
  ultimately show ?thesis using assms(1)
    by (simp add: p_num_def wf_num_def list_all_iff takeWhile_append dropWhile_append Let_def)
qed

lemma p_val_num:
  assumes "wf_num t" "ends_value s"
  shows "p_val (Suc n) (t @ s) = Some (VNum t, s)"
proof -
  from wf_num_first [OF assms(1)] obtain c r where t: "t = c # r" "is_numchar c" by blast
  then have "skip_ws (t @ s) = c # (r @ s)"
    using numchar_starts by (simp add: starts_value_skip)
  with t numchar_not_struct [of c] p_num_text [OF assms] show ?thesis by simp
qed

definition parses :: "jsv \<Rightarrow> bool" where
  "parses v \<longleftrightarrow> (\<forall>n s. 2 * length (json_text v) + 1 \<le> n \<longrightarrow> ends_value s \<longrightarrow>
     p_val n (json_text v @ s) = Some (norm v, s))"

lemma parsesD:
  "parses v \<Longrightarrow> 2 * length (json_text v) + 1 \<le> n \<Longrightarrow> ends_value s \<Longrightarrow>
   p_val n (json_text v @ s) = Some (norm v, s)"
  by (simp add: parses_def)

lemma parse_elems:
  assumes "xs \<noteq> []" "\<And>x. x \<in> set xs \<Longrightarrow> parses x"
    and "2 * length (join_with '','' (map json_text xs)) + 2 \<le> n"
  shows "p_elems n (join_with '','' (map json_text xs) @ CHR '']'' # s) = Some (map norm xs, s)"
  using assms
proof (induction xs arbitrary: n rule: induct_list012)
  case (2 x)
  then obtain n' where n: "n = Suc n'" by (cases n) auto
  with 2 have "p_val n' (json_text x @ CHR '']'' # s) = Some (norm x, CHR '']'' # s)"
    by (intro parsesD) simp_all
  with n show ?case by simp
next
  case (3 x y zs)
  then obtain n' where n: "n = Suc n'" by (cases n) auto
  let ?rest = "join_with '','' (map json_text (y # zs))"
  from 3 n have "p_val n' (json_text x @ CHR '','' # ?rest @ CHR '']'' # s)
      = Some (norm x, CHR '','' # ?rest @ CHR '']'' # s)"
    by (intro parsesD) simp_all
  moreover from 3 n have "p_elems n' (?rest @ CHR '']'' # s) = Some (map norm (y # zs), s)"
    by (intro "3.IH"(2)) simp_all
  ultimately show ?case using n by simp
qed simp

abbreviation member_text :: "string \<times> jsv \<Rightarrow> string" where
  "member_text \<equiv> \<lambda>(k, v). json_quote k @ '':'' @ json_text v"

abbreviation norm_member :: "string \<times> jsv \<Rightarrow> string \<times> jsv" where
  "norm_member \<equiv> \<lambda>(k, v). (k, norm v)"

lemma parse_member:
  assumes "parses v" "2 * length (member_text (k, v)) \<le> n" "ends_value s"
  shows "p_members (Suc n) (member_text (k, v) @ s) =
    (case skip_ws s of
       [] \<Rightarrow> None
     | c # r' \<Rightarrow> if c = CHR '','' then map_option (\<lambda>(ms, q). ((k, norm v) # ms, q)) (p_members n r')
               else if c = CHR 0x7D then Some ([(k, norm v)], r') else None)"
proof -
  have "p_val n (json_text v @ s) = Some (norm v, s)"
    using assms by (intro parsesD) (simp_all add: json_quote_def)
  then show ?thesis by (simp add: json_quote_parts p_str_escaped)
qed

lemma parse_members:
  assumes "ms \<noteq> []" "\<And>m. m \<in> set ms \<Longrightarrow> parses (snd m)"
    and "2 * length (join_with '','' (map member_text ms)) + 2 \<le> n"
  shows "p_members n (join_with '','' (map member_text ms) @ CHR 0x7D # s)
    = Some (map norm_member ms, s)"
  using assms
proof (induction ms arbitrary: n rule: induct_list012)
  case (2 m)
  then obtain n' k v where n: "n = Suc n'" "m = (k, v)" by (cases n; cases m) auto
  with 2 parse_member [of v k n' "CHR 0x7D # s"] show ?case by simp
next
  case (3 m m' ms)
  then obtain n' k v where n: "n = Suc n'" "m = (k, v)" by (cases n; cases m) auto
  let ?rest = "join_with '','' (map member_text (m' # ms))"
  from 3 n have "p_members n' (?rest @ CHR 0x7D # s) = Some (map norm_member (m' # ms), s)"
    by (intro "3.IH"(2)) simp_all
  moreover have "parses v" using "3.prems"(2) [of m] n by simp
  ultimately show ?case
    using "3.prems"(3) n parse_member [of v k n' "CHR '','' # ?rest @ CHR 0x7D # s"]
    by (simp del: p_members.simps)
qed simp


lemma join_with_nonempty: "xs \<noteq> [] \<Longrightarrow> \<exists>ys. join_with sep xs = hd xs @ ys"
  by (induction sep xs rule: join_with.induct) auto

lemma set_filter_undef: "m \<in> set (filter (\<lambda>(k, v). \<not> is_undef v) ms) \<Longrightarrow> m \<in> set ms"
  by simp

lemma filter_undef_norm:
  "foldl (\<lambda>m (k, v). AList.update k v m) acc ms = acc @ ms" if "wf_map (acc @ ms)"
  using that
proof (induction ms arbitrary: acc)
  case (Cons m ms)
  obtain k v where m: "m = (k, v)" by (cases m)
  with Cons.prems have "k \<notin> set (jkeys acc)" by (auto simp: wf_map_def)
  with Cons m show ?case by (simp add: update_fresh wf_map_def)
qed simp

lemma js_object_distinct: "wf_map ms \<Longrightarrow> js_object ms = VObj ms"
  using filter_undef_norm [of "[]" ms] by (simp add: js_object_def)

lemma wf_map_norm:
  "wf_map ms \<Longrightarrow> wf_map (map norm_member (filter (\<lambda>(k, v). \<not> is_undef v) ms))"
  by (auto simp: wf_map_def distinct_map_filter comp_def split_def distinct_map inj_on_def)

lemma parsesI:
  assumes "\<And>n s. 2 * length (json_text v) \<le> n \<Longrightarrow> ends_value s \<Longrightarrow>
    p_val (Suc n) (json_text v @ s) = Some (norm v, s)"
  shows "parses v"
  unfolding parses_def
proof (intro allI impI)
  fix n s assume "2 * length (json_text v) + 1 \<le> n" "ends_value s"
  with assms [of "n - 1" s] show "p_val n (json_text v @ s) = Some (norm v, s)"
    by (cases n) simp_all
qed

lemma parses_lit: "parses VUndef" "parses VNull" "parses (VBool b)"
  by (rule parsesI, simp add: bool_text_def p_lit_def)+

lemma parses_all: "wf_jsv v \<Longrightarrow> parses v"
proof (induction v rule: json_text.induct)
  case (4 t)
  show ?case
  proof (unfold parses_def, intro allI impI)
    fix n s assume "2 * length (json_text (VNum t)) + 1 \<le> n" "ends_value s"
    with 4 show "p_val n (json_text (VNum t) @ s) = Some (norm (VNum t), s)"
      by (cases n) (simp_all add: p_val_num del: p_val.simps)
  qed
next
  case (5 t)
  show ?case
  proof (unfold parses_def, intro allI impI)
    fix n s assume "2 * length (json_text (VStr t)) + 1 \<le> n"
    then show "p_val n (json_text (VStr t) @ s) = Some (norm (VStr t), s)"
      by (cases n) (simp_all add: json_quote_parts p_str_escaped)
  qed
next
  case (6 xs)
  show ?case
  proof (unfold parses_def, intro allI impI)
    fix n s assume n: "2 * length (json_text (VArr xs)) + 1 \<le> n"
    then obtain n' where n': "n = Suc n'" by (cases n) auto
    show "p_val n (json_text (VArr xs) @ s) = Some (norm (VArr xs), s)"
    proof (cases xs)
      case Nil
      with n' show ?thesis by simp
    next
      case (Cons x ys)
      let ?body = "join_with '','' (map json_text xs) @ CHR '']'' # s"
      obtain zs where zs: "?body = json_text x @ zs"
        using join_with_nonempty [of "map json_text xs" "'',''"] Cons by auto
      from 6 Cons have "starts_value (json_text x @ zs)" by (simp add: json_text_starts)
      then obtain d r where d: "skip_ws ?body = d # r" "d \<noteq> CHR '']''"
        unfolding zs by (cases "json_text x @ zs") (auto simp: starts_value_skip, auto simp: starts_value_def)
      have "p_elems n' ?body = Some (map norm xs, s)"
        using n n' 6 Cons by (intro parse_elems) auto
      with d n' show ?thesis by (simp del: p_elems.simps)
    qed
  qed
next
  case (7 ms)
  let ?ms = "filter (\<lambda>(k, v). \<not> is_undef v) ms"
  have kids: "parses (snd m)" if "m \<in> set ?ms" for m
  proof -
    obtain k v where m: "m = (k, v)" by fastforce
    show ?thesis unfolding m snd_conv
      by (rule "7.IH") (use that m "7.prems" in auto)
  qed
  show ?case
  proof (unfold parses_def, intro allI impI)
    fix n s assume n: "2 * length (json_text (VObj ms)) + 1 \<le> n"
    then obtain n' where n': "n = Suc n'" by (cases n) auto
    show "p_val n (json_text (VObj ms) @ s) = Some (norm (VObj ms), s)"
    proof (cases "?ms = []")
      case True
      with n' show ?thesis by simp
    next
      case False
      let ?body = "join_with '','' (map member_text ?ms) @ CHR 0x7D # s"
      obtain r where r: "?body = QUOTE # r"
        using join_with_nonempty [of "map member_text ?ms" "'',''"] False
        by (cases ?ms) (auto simp: json_quote_def split: prod.splits)
      have "p_members n' ?body = Some (map norm_member ?ms, s)"
        using n n' kids False by (intro parse_members) auto
      moreover have "js_object (map norm_member ?ms) = VObj (map norm_member ?ms)"
        using "7.prems" by (intro js_object_distinct wf_map_norm) simp
      ultimately show ?thesis using r n' by (simp del: p_members.simps)
    qed
  qed
qed (simp_all add: parses_lit)


theorem json_parse_text: "wf_jsv v \<Longrightarrow> json_parse (json_text v) = Some (norm v)"
  using parsesD [OF parses_all, of v "2 * length (json_text v) + 1" "[]"]
  by (simp add: json_parse_def del: p_val.simps)

lemma json_text_inject:
  "wf_jsv v \<Longrightarrow> wf_jsv w \<Longrightarrow> json_text v = json_text w \<Longrightarrow> norm v = norm w"
  using json_parse_text by (metis option.inject)

lemma show_base_is_digit: "list_all is_digit (show_base 10 n)"
  using show_base_decimal by (force simp: list_all_iff is_digit_def)

lemma show_base_leading: "hd (show_base 10 n) = CHR ''0'' \<Longrightarrow> length (show_base 10 n) = 1"
proof (induction n rule: less_induct)
  case (less n)
  show ?case
  proof (cases "n < 10")
    case True
    then show ?thesis by (simp add: show_base.simps [of 10 n])
  next
    case False
    then have eq: "show_base 10 n = show_base 10 (n div 10) @ [base_digit (n mod 10)]"
      by (simp add: show_base.simps [of 10 n])
    with less.prems have zero: "hd (show_base 10 (n div 10)) = CHR ''0''" by simp
    with False have "length (show_base 10 (n div 10)) = 1" by (intro less.IH) simp_all
    with zero have "show_base 10 (n div 10) = ''0''"
      by (cases "show_base 10 (n div 10)") auto
    then have "n div 10 = read_base 10 ''0''"
      using read_base_show_base [of 10 "n div 10"] by simp
    with False show ?thesis by (simp add: read_base_def digit_value_def)
  qed
qed

lemma num_ok_digits:
  assumes "list_all is_digit t" "t \<noteq> []" "hd t = CHR ''0'' \<Longrightarrow> length t = 1"
  shows "num_ok t" "num_ok (CHR ''-'' # t)"
proof -
  have all: "takeWhile is_digit t = t" "dropWhile is_digit t = []"
    using assms(1) by (simp_all add: list_all_iff)
  show "num_ok (CHR ''-'' # t)" using assms(2,3)
    by (simp add: num_ok_def Let_def all)
  have "\<not> is_digit (CHR ''-'')" by (simp add: is_digit_def)
  with assms(1,2) have "(case t of [] \<Rightarrow> [] | c # r \<Rightarrow> if c = CHR ''-'' then r else t) = t"
    by (cases t) auto
  with assms(2,3) show "num_ok t" by (simp add: num_ok_def Let_def all)
qed

lemma wf_num_show_base: "num_ok (show_base 10 n)" "num_ok (CHR ''-'' # show_base 10 n)"
  by (rule num_ok_digits; simp add: show_base_is_digit show_base_leading)+

lemma wf_num_show_int [simp]: "wf_num (show_int i)"
  using show_base_is_digit
  by (auto simp: wf_num_def show_int_def wf_num_show_base list_all_iff is_numchar_def)

section \<open>Canonical texts\<close>

text \<open>
  The \<open>canonical\<close> of packages/ipc/src/envelope.ts: members sorted by name, undefined members
  left out, undefined elements and an undefined value written as null. JavaScript sorts names
  by UTF-16 code units and the model by UTF-8 bytes; the two orders agree below U+E000.
\<close>

fun canonical :: "jsv \<Rightarrow> string" where
  "canonical VUndef = ''null''"
| "canonical (VArr xs) = ''['' @ join_with '','' (map canonical xs) @ '']''"
| "canonical (VObj ms) =
     CHR 0x7B # join_with '','' (map (\<lambda>(k, v). json_quote k @ '':'' @ canonical v)
        (sort_key fst (filter (\<lambda>(k, v). \<not> is_undef v) ms))) @ [CHR 0x7D]"
| "canonical v = json_text v"

text \<open>
  \<open>stableSerialize\<close> of packages/control/src/observation-rules.ts: every field_of, by
  \<open>localeCompare\<close>, which on the names of the program (ASCII letters) orders by letter first
  and puts lower case before upper case where only the case differs.
\<close>

definition to_lower :: "char \<Rightarrow> char" where
  "to_lower c = (let n = of_char c :: nat in if 65 \<le> n \<and> n < 91 then char_of (n + 32) else c)"

definition locale_key :: "string \<Rightarrow> string \<times> bool list" where
  "locale_key k = (map to_lower k, map (\<lambda>c. to_lower c \<noteq> c) k)"

fun stable_serialize :: "jsv \<Rightarrow> string" where
  "stable_serialize VUndef = ''undefined''"
| "stable_serialize (VArr xs) = ''['' @ join_with '','' (map stable_serialize xs) @ '']''"
| "stable_serialize (VObj ms) =
     CHR 0x7B # join_with '','' (map (\<lambda>(k, v). json_quote k @ '':'' @ stable_serialize v)
        (sort_key (locale_key \<circ> fst) ms)) @ [CHR 0x7D]"
| "stable_serialize v = json_text v"

text \<open>The same value with the members of every object in key order.\<close>

fun sorted_obj :: "(string \<Rightarrow> 'k :: linorder) \<Rightarrow> jsv \<Rightarrow> jsv" where
  "sorted_obj f (VArr xs) = VArr (map (sorted_obj f) xs)"
| "sorted_obj f (VObj ms) = VObj (sort_key (f \<circ> fst) (map (\<lambda>(k, v). (k, sorted_obj f v)) ms))"
| "sorted_obj f v = v"

fun no_undef :: "jsv \<Rightarrow> bool" where
  "no_undef VUndef = False"
| "no_undef (VArr xs) = (\<forall>x \<in> set xs. no_undef x)"
| "no_undef (VObj ms) = (\<forall>m \<in> set ms. no_undef (snd m))"
| "no_undef v = True"

lemma sort_key_map_snd:
  "sort_key (f \<circ> fst) (map (\<lambda>(k, v). (k, g v)) ms) = map (\<lambda>(k, v). (k, g v)) (sort_key (f \<circ> fst) ms)"
proof (induction ms)
  case (Cons m ms)
  have "insort_key (\<lambda>a. f (fst a)) (k, g v) (map (\<lambda>(k, v). (k, g v)) xs)
      = map (\<lambda>(k, v). (k, g v)) (insort_key (\<lambda>a. f (fst a)) (k, v) xs)" for k v xs
    by (induction xs) auto
  with Cons show ?case by (cases m) (simp add: comp_def)
qed simp

lemma no_undef_norm: "no_undef (norm v)"
  by (induction v rule: norm.induct) auto

lemma norm_no_undef: "no_undef v \<Longrightarrow> norm v = v"
proof (induction v rule: norm.induct)
  case (3 ms)
  then have "filter (\<lambda>(k, v). \<not> is_undef v) ms = ms"
    by (auto simp: filter_id_conv is_undef_def split: jsv.splits)
  moreover have "map norm_member ms = ms"
    using 3 \<open>filter _ ms = ms\<close> by (intro map_idI) (auto split: prod.splits)
  ultimately show ?case by simp
qed (auto intro: map_idI)

lemma no_undef_not_undef: "no_undef v \<Longrightarrow> \<not> is_undef v"
  by (cases v) simp_all

lemma no_undef_sorted_obj: "no_undef v \<Longrightarrow> no_undef (sorted_obj f v)"
  by (induction f v rule: sorted_obj.induct) fastforce+

lemma filter_undef_id:
  "(\<And>m. m \<in> set ms \<Longrightarrow> no_undef (snd m)) \<Longrightarrow> filter (\<lambda>(k, v). \<not> is_undef v) ms = ms"
  by (fastforce simp: filter_id_conv dest: no_undef_not_undef)

lemma wf_jsv_sorted_obj: "wf_jsv v \<Longrightarrow> wf_jsv (sorted_obj f v)"
proof (induction f v rule: sorted_obj.induct)
  case (2 f ms)
  have "distinct (map fst (sort_key (f \<circ> fst) (map (\<lambda>(k, v). (k, sorted_obj f v)) ms)))"
    if "distinct (map fst ms)"
    using that by (simp add: distinct_map inj_on_def split_def image_iff) (metis prod.collapse)
  with 2 show ?case by (fastforce simp: wf_map_def)
qed auto

lemma wf_jsv_norm: "wf_jsv v \<Longrightarrow> wf_jsv (norm v)"
proof (induction v rule: norm.induct)
  case (3 ms)
  then show ?case by (auto intro: wf_map_norm)
qed auto

lemma canonical_eq_text: "canonical v = json_text (sorted_obj (\<lambda>k. k) (norm v))"
proof (induction v rule: canonical.induct)
  case (3 ms)
  let ?f = "\<lambda>k :: string. k"
  let ?ms = "filter (\<lambda>(k, v). \<not> is_undef v) ms"
  let ?S = "map (\<lambda>(k, v). (k, sorted_obj ?f (norm v))) (sort_key fst ?ms)"
  have eq: "map (\<lambda>(k, v). json_quote k @ '':'' @ canonical v) (sort_key fst ?ms)
      = map (\<lambda>(k, v). json_quote k @ '':'' @ json_text v) ?S"
    unfolding map_map using 3 by (intro map_cong) auto
  have undef: "filter (\<lambda>(k, v). \<not> is_undef v) ?S = ?S"
    by (rule filter_undef_id) (auto simp: no_undef_sorted_obj no_undef_norm)
  have "map (\<lambda>(k, v). (k, sorted_obj ?f v)) (map (\<lambda>(k, v). (k, norm v)) ?ms)
      = map (\<lambda>(k, v). (k, sorted_obj ?f (norm v))) ?ms"
    by simp
  then have sorted: "sort_key (?f \<circ> fst) (map (\<lambda>(k, v). (k, sorted_obj ?f v)) (map (\<lambda>(k, v). (k, norm v)) ?ms)) = ?S"
    using sort_key_map_snd [of ?f "\<lambda>v. sorted_obj ?f (norm v)" ?ms] by (simp only: comp_def)
  show ?case
    unfolding canonical.simps norm.simps sorted_obj.simps json_text.simps eq sorted undef ..
next
  case (2 xs)
  then have "map canonical xs = map (json_text \<circ> sorted_obj (\<lambda>k. k) \<circ> norm) xs"
    by (intro map_cong) simp_all
  then show ?case by (simp only: canonical.simps norm.simps sorted_obj.simps json_text.simps map_map comp_assoc)
qed simp_all

lemma stable_eq_text: "no_undef v \<Longrightarrow> stable_serialize v = json_text (sorted_obj locale_key v)"
proof (induction v rule: stable_serialize.induct)
  case (3 ms)
  let ?ms = "map (\<lambda>(k, v). (k, sorted_obj locale_key v)) (sort_key (locale_key \<circ> fst) ms)"
  have eq: "map (\<lambda>(k, v). json_quote k @ '':'' @ stable_serialize v) (sort_key (locale_key \<circ> fst) ms)
      = map (\<lambda>(k, v). json_quote k @ '':'' @ json_text v) ?ms"
    unfolding map_map using 3 by (intro map_cong) auto
  have "filter (\<lambda>(k, v). \<not> is_undef v) ?ms = ?ms"
    using 3 by (intro filter_undef_id) (auto simp: no_undef_sorted_obj)
  then show ?case
    unfolding stable_serialize.simps sorted_obj.simps json_text.simps eq
    by (simp only: sort_key_map_snd)
next
  case (2 xs)
  then have "map stable_serialize xs = map (json_text \<circ> sorted_obj locale_key) xs"
    by (intro map_cong) simp_all
  then show ?case by (simp only: stable_serialize.simps sorted_obj.simps json_text.simps map_map)
qed simp_all

text \<open>
  A canonical text determines the value up to the order of members (and undefined members,
  which it does not show): what is compared or signed by its text is compared or signed
  by its content.
\<close>

theorem canonical_inject:
  assumes "wf_jsv v" "wf_jsv w" "canonical v = canonical w"
  shows "sorted_obj (\<lambda>k. k) (norm v) = sorted_obj (\<lambda>k. k) (norm w)"
proof -
  have fixed: "norm (sorted_obj (\<lambda>k. k) (norm u)) = sorted_obj (\<lambda>k. k) (norm u)" for u
    by (rule norm_no_undef) (rule no_undef_sorted_obj [OF no_undef_norm])
  show ?thesis
    using json_text_inject [of "sorted_obj (\<lambda>k. k) (norm v)" "sorted_obj (\<lambda>k. k) (norm w)"] assms
    by (simp add: fixed canonical_eq_text wf_jsv_sorted_obj wf_jsv_norm)
qed

lemma stable_inject:
  assumes "wf_jsv v" "wf_jsv w" "no_undef v" "no_undef w" "stable_serialize v = stable_serialize w"
  shows "sorted_obj locale_key v = sorted_obj locale_key w"
  using json_text_inject [of "sorted_obj locale_key v" "sorted_obj locale_key w"] assms
  by (simp add: stable_eq_text wf_jsv_sorted_obj norm_no_undef no_undef_sorted_obj)

lemma map_of_sort_key: "wf_map ms \<Longrightarrow> map_of (sort_key f ms) = map_of ms"
proof
  fix k assume wf: "wf_map ms"
  have "wf_map (sort_key f ms)"
    using wf by (simp add: wf_map_def distinct_map)
  then show "map_of (sort_key f ms) k = map_of ms k"
    using wf map_of_mem [of "sort_key f ms" k] map_of_mem [of ms k]
    by (metis option.exhaust set_sort)
qed

lemma sorted_obj_lookup:
  assumes "sorted_obj f (VObj ms) = sorted_obj f (VObj ms')" "wf_map ms" "wf_map ms'"
  shows "map_option (sorted_obj f) (map_of ms k) = map_option (sorted_obj f) (map_of ms' k)"
proof -
  let ?s = "map (\<lambda>(k, v). (k, sorted_obj f v))"
  have wf: "wf_map (?s ms)" "wf_map (?s ms')"
    using assms(2,3) by (simp_all add: wf_map_def comp_def split_def)
  from assms(1) have "map_of (sort_key (f \<circ> fst) (?s ms)) k = map_of (sort_key (f \<circ> fst) (?s ms')) k"
    by simp
  with wf have "map_of (?s ms) k = map_of (?s ms') k" by (simp add: map_of_sort_key)
  then show ?thesis by (simp add: map_of_map)
qed

section \<open>The text codec as an interface\<close>

text \<open>
  Framing and signing need of a text codec only what is stated here: a value of the domain
  is recovered, up to \<open>view\<close>, from its text.
\<close>

locale text_codec =
  fixes show_text :: "'v \<Rightarrow> string"
    and read_text :: "string \<Rightarrow> 'w option"
    and view :: "'v \<Rightarrow> 'w"
    and dom_ok :: "'v \<Rightarrow> bool"
  assumes read_show: "dom_ok v \<Longrightarrow> read_text (show_text v) = Some (view v)"
begin

lemma show_inject: "dom_ok v \<Longrightarrow> dom_ok w \<Longrightarrow> show_text v = show_text w \<Longrightarrow> view v = view w"
  using read_show by (metis option.inject)

end

interpretation json: text_codec json_text json_parse norm wf_jsv
  by unfold_locales (rule json_parse_text)

section \<open>Reading values\<close>

text \<open>
  Property access, coercion and truthiness, as the untyped parts of the sources use them.
  A property of a value that is not an object reads as undefined. Zero is falsy however it
  is spelled; array elements that are null or undefined print as the empty string.
\<close>

fun field_of :: "jsv \<Rightarrow> string \<Rightarrow> jsv" where
  "field_of (VObj ms) k = (case map_of ms k of Some v \<Rightarrow> v | None \<Rightarrow> VUndef)"
| "field_of _ k = VUndef"

fun js_truthy :: "jsv \<Rightarrow> bool" where
  "js_truthy VUndef = False"
| "js_truthy VNull = False"
| "js_truthy (VBool b) = b"
| "js_truthy (VNum t) =
     (\<exists>c \<in> set (takeWhile (\<lambda>c. c \<noteq> CHR ''e'' \<and> c \<noteq> CHR ''E'') t). is_digit c \<and> c \<noteq> CHR ''0'')"
| "js_truthy (VStr s) = (s \<noteq> [])"
| "js_truthy _ = True"

fun js_string :: "jsv \<Rightarrow> string" where
  "js_string VUndef = ''undefined''"
| "js_string VNull = ''null''"
| "js_string (VBool b) = bool_text b"
| "js_string (VNum t) = t"
| "js_string (VStr s) = s"
| "js_string (VArr xs) =
     join_with '','' (map (\<lambda>x. case x of VUndef \<Rightarrow> [] | VNull \<Rightarrow> [] | v \<Rightarrow> js_string v) xs)"
| "js_string (VObj _) = ''[object Object]''"

fun is_object :: "jsv \<Rightarrow> bool" where
  "is_object (VObj _) = True"
| "is_object _ = False"

fun is_array :: "jsv \<Rightarrow> bool" where
  "is_array (VArr _) = True"
| "is_array _ = False"

lemma field_of_update [simp]:
  "field_of (VObj (AList.update k v ms)) k' = (if k' = k then v else field_of (VObj ms) k')"
  by simp

lemma field_of_delete [simp]:
  "field_of (VObj (AList.delete k ms)) k' = (if k' = k then VUndef else field_of (VObj ms) k')"
  by simp

lemma norm_idem [simp]: "norm (norm v) = norm v"
  by (rule norm_no_undef) (rule no_undef_norm)

text \<open>What is signed does not change on the wire.\<close>

lemma canonical_norm: "canonical (norm v) = canonical v"
  by (simp add: canonical_eq_text)

lemma map_of_filter_undef:
  "wf_map ms \<Longrightarrow> map_of (filter (\<lambda>(k, v). \<not> is_undef v) ms) k
     = (case map_of ms k of Some v \<Rightarrow> if is_undef v then None else Some v | None \<Rightarrow> None)"
proof (induction ms)
  case (Cons m ms)
  then show ?case
    by (cases m) (force simp: wf_map_def dest: map_of_SomeD split: option.splits)
qed simp

lemma field_of_norm:
  "wf_map ms \<Longrightarrow> field_of (norm (VObj ms)) k
     = (if is_undef (field_of (VObj ms) k) then VUndef else norm (field_of (VObj ms) k))"
  by (auto simp: map_of_map map_of_filter_undef split: option.splits)

lemma norm_VStr_iff [simp]: "norm v = VStr s \<longleftrightarrow> v = VStr s"
  by (cases v) auto

lemma norm_VNum_iff [simp]: "norm v = VNum t \<longleftrightarrow> v = VNum t"
  by (cases v) auto

text \<open>An optional string in a condition, \<open>x ?? y\<close>, and \<open>s.startsWith(p)\<close>.\<close>

definition js_truthy_text :: "string option \<Rightarrow> bool" where
  "js_truthy_text x = (case x of None \<Rightarrow> False | Some s \<Rightarrow> s \<noteq> [])"

definition or_else :: "'a option \<Rightarrow> 'a option \<Rightarrow> 'a option" where
  "or_else x y = (case x of None \<Rightarrow> y | Some a \<Rightarrow> Some a)"

definition has_prefix :: "string \<Rightarrow> string \<Rightarrow> bool" where
  "has_prefix p s \<longleftrightarrow> take (length p) s = p"

lemma js_truthy_text_simps [simp]:
  "\<not> js_truthy_text None"
  "js_truthy_text (Some s) \<longleftrightarrow> s \<noteq> []"
  by (simp_all add: js_truthy_text_def)

end
