(* ===== verification/Framing.thy ===== *)
theory Framing
  imports Json
begin

text \<open>
  Length-prefixed frames: packages/ipc/src/framing.ts.

  Bytes are \<open>char\<close>s. A frame is a four-byte big-endian length and that many bytes of JSON
  text. \<open>decode_loop\<close> is the loop of \<open>FrameDecoder.push\<close> on the bytes not yet consumed
  (the source keeps the whole buffer and an \<open>offset\<close> into it); \<open>push\<close> is the method, with
  its lazily merged chunk list. \<open>push_refines\<close> reduces the chunk list to the bytes it
  holds, and \<open>feed_frames\<close> is the end-to-end property: however a stream of encoded frames
  is cut into chunks, the decoder returns the values that were encoded.
\<close>

section \<open>Encoding\<close>

definition MAX_FRAME_BYTES :: nat where
  "MAX_FRAME_BYTES = 1024 * 1024"

datatype frame_error = FrameTooLarge | NotSerializable | BadJson

definition byte :: "nat \<Rightarrow> char" where
  "byte n = char_of (n mod 256)"

text \<open>\<open>writeUInt32BE\<close> and \<open>readUInt32BE\<close>\<close>

definition u32be :: "nat \<Rightarrow> string" where
  "u32be n = [byte (n div 16777216), byte (n div 65536), byte (n div 256), byte n]"

fun read_u32be :: "string \<Rightarrow> nat" where
  "read_u32be (a # b # c # d # _) =
     ((of_char a * 256 + of_char b) * 256 + of_char c) * 256 + of_char d"
| "read_u32be _ = 0"

definition encodeFrame :: "jsv \<Rightarrow> frame_error + string" where
  "encodeFrame value =
     (case json_stringify value of
        None \<Rightarrow> Inl NotSerializable
      | Some json \<Rightarrow>
          let byteLength = length json in
          if byteLength > MAX_FRAME_BYTES then Inl FrameTooLarge
          else Inr (u32be byteLength @ json))"

section \<open>Decoding\<close>

record decoder =
  chunks :: "string list"
  buffered :: nat

definition new_decoder :: decoder where
  "new_decoder = \<lparr>chunks = [], buffered = 0\<rparr>"

definition peekLength :: "decoder \<Rightarrow> nat \<times> decoder" where
  "peekLength d =
     (if 4 \<le> length (hd (chunks d)) then (read_u32be (hd (chunks d)), d)
      else let merged = concat (chunks d)
           in (read_u32be merged, d\<lparr>chunks := [merged]\<rparr>))"

text \<open>The loop: the values of the complete frames and the bytes that remain.\<close>

function decode_loop :: "string \<Rightarrow> frame_error + (jsv list \<times> string)" where
  "decode_loop buf =
     (if length buf < 4 then Inr ([], buf)
      else let n = read_u32be buf in
        if n > MAX_FRAME_BYTES then Inl FrameTooLarge
        else if length buf < 4 + n then Inr ([], buf)
        else (case json_parse (take n (drop 4 buf)) of
                None \<Rightarrow> Inl BadJson
              | Some v \<Rightarrow>
                  tryE (decode_loop (drop (4 + n) buf)) (\<lambda>(vs, rest). Inr (v # vs, rest))))"
  by pat_completeness auto
termination
  by (relation "measure length") auto

declare decode_loop.simps [simp del]

definition append_chunk :: "string \<Rightarrow> decoder \<Rightarrow> decoder" where
  "append_chunk chunk d =
     (if length chunk > 0
      then d\<lparr>chunks := chunks d @ [chunk], buffered := buffered d + length chunk\<rparr>
      else d)"

definition push :: "string \<Rightarrow> (decoder, frame_error, jsv list) eff" where
  "push chunk d0 =
     (let d = append_chunk chunk d0
      in if buffered d < 4 then (Inr [], d)
         else case peekLength d of
           (firstLen, d) \<Rightarrow>
             if firstLen > MAX_FRAME_BYTES then (Inl FrameTooLarge, d)
             else if buffered d < 4 + firstLen then (Inr [], d)
             else let buf = (if length (chunks d) = 1 then hd (chunks d) else concat (chunks d))
               in case decode_loop buf of
                 Inl e \<Rightarrow> (Inl e, d)
               | Inr (out, tail) \<Rightarrow>
                   if tail = [] then (Inr out, d\<lparr>chunks := [], buffered := 0\<rparr>)
                   else (Inr out, d\<lparr>chunks := [tail], buffered := length tail\<rparr>))"

text \<open>A connection: chunks arrive one after the other until one of them is refused.\<close>

fun feed :: "string list \<Rightarrow> (decoder, frame_error, jsv list) eff" where
  "feed [] d = (Inr [], d)"
| "feed (c # cs) d =
     (case push c d of
        (Inl e, d') \<Rightarrow> (Inl e, d')
      | (Inr vs, d') \<Rightarrow>
          (case feed cs d' of
             (Inl e, d'') \<Rightarrow> (Inl e, d'')
           | (Inr ws, d'') \<Rightarrow> (Inr (vs @ ws), d'')))"

section \<open>The header\<close>

lemma read_u32be_u32be: "n < 2 ^ 32 \<Longrightarrow> read_u32be (u32be n @ s) = n"
proof -
  assume "n < 2 ^ 32"
  then have "n div 16777216 < 256" by simp
  moreover have "n div 16777216 = n div 256 div 256 div 256" "n div 65536 = n div 256 div 256"
    by (simp_all add: div_mult2_eq [symmetric])
  ultimately show ?thesis
    by (simp add: u32be_def byte_def)
qed

lemma length_u32be [simp]: "length (u32be n) = 4"
  by (simp add: u32be_def)

lemma read_u32be_append: "4 \<le> length a \<Longrightarrow> read_u32be (a @ b) = read_u32be a"
proof -
  assume "4 \<le> length a"
  then obtain w x y z r where "a = w # x # y # z # r"
    by (metis (no_types) Suc_le_length_iff numeral_nat(2) numeral_3_eq_3 eval_nat_numeral(2,3) Suc_numeral semiring_norm(2,5,8))
  then show ?thesis by simp
qed


section \<open>The loop\<close>

lemma decode_loop_short: "length buf < 4 \<Longrightarrow> decode_loop buf = Inr ([], buf)"
  by (simp add: decode_loop.simps)

lemma decode_loop_append:
  "decode_loop x = Inr (vs, rest) \<Longrightarrow>
   decode_loop (x @ y) = tryE (decode_loop (rest @ y)) (\<lambda>(ws, r). Inr (vs @ ws, r))"
proof (induction x arbitrary: vs rest rule: decode_loop.induct)
  case (1 x)
  let ?n = "read_u32be x"
  have triv: "tryE t Inr = t" for t :: "frame_error + (jsv list \<times> string)"
    by (cases t) auto
  show ?case
  proof (cases "length x < 4 \<or> length x < 4 + ?n")
    case True
    with "1.prems" have "vs = [] \<and> rest = x"
      by (auto simp: decode_loop.simps [of x] Let_def split: if_splits)
    then show ?thesis by (simp add: triv)
  next
    case False
    with "1.prems" obtain v vs' where v: "\<not> ?n > MAX_FRAME_BYTES"
      "json_parse (take ?n (drop 4 x)) = Some v"
      "decode_loop (drop (4 + ?n) x) = Inr (vs', rest)" "vs = v # vs'"
      by (auto simp: decode_loop.simps [of x] Let_def tryE_Inr_iff split: if_splits option.splits)
    from False have n: "read_u32be (x @ y) = ?n" by (simp add: read_u32be_append)
    have "decode_loop (drop (4 + ?n) x @ y)
        = tryE (decode_loop (rest @ y)) (\<lambda>(ws, r). Inr (vs' @ ws, r))"
      using False v by (intro "1.IH") simp_all
    with False v n show ?thesis
      by (cases "decode_loop (rest @ y)")
         (auto simp: decode_loop.simps [of "x @ y"] Let_def split: prod.splits)
  qed
qed

lemma decode_loop_prefix:
  "decode_loop (x @ y) = Inr (vs, r) \<Longrightarrow> \<exists>us rest. decode_loop x = Inr (us, rest)"
proof (induction x arbitrary: vs rule: decode_loop.induct)
  case (1 x)
  let ?n = "read_u32be x"
  show ?case
  proof (cases "length x < 4 \<or> length x < 4 + ?n \<and> \<not> ?n > MAX_FRAME_BYTES")
    case True
    then show ?thesis by (auto simp: decode_loop.simps [of x] Let_def)
  next
    case False
    then have n: "read_u32be (x @ y) = ?n" by (simp add: read_u32be_append)
    with False "1.prems" have ok: "\<not> ?n > MAX_FRAME_BYTES" "\<not> length x < 4 + ?n" "\<not> length x < 4"
      by (auto simp: decode_loop.simps [of "x @ y"] Let_def split: if_splits)
    with n "1.prems" obtain v vs' where v: "json_parse (take ?n (drop 4 x)) = Some v"
      "decode_loop (drop (4 + ?n) x @ y) = Inr (vs', r)"
      by (auto simp: decode_loop.simps [of "x @ y"] Let_def tryE_Inr_iff split: if_splits option.splits)
    with "1.IH" ok obtain us rest where "decode_loop (drop (4 + ?n) x) = Inr (us, rest)" by blast
    with ok v show ?thesis by (auto simp: decode_loop.simps [of x] Let_def)
  qed
qed

text \<open>What remains after the loop is less than one whole admissible frame.\<close>

lemma decode_loop_rest_bound:
  "decode_loop x = Inr (vs, rest) \<Longrightarrow> length rest < 4 + MAX_FRAME_BYTES"
proof (induction x arbitrary: vs rule: decode_loop.induct)
  case (1 x)
  then show ?case
    by (fastforce simp: decode_loop.simps [of x] Let_def tryE_Inr_iff MAX_FRAME_BYTES_def split: if_splits option.splits)
qed

lemma decode_loop_rest_idle:
  "decode_loop x = Inr (vs, rest) \<Longrightarrow> decode_loop rest = Inr ([], rest)"
proof (induction x arbitrary: vs rule: decode_loop.induct)
  case (1 x)
  show ?case
  proof (cases "length x < 4 \<or> length x < 4 + read_u32be x")
    case True
    with "1.prems" have "rest = x" "vs = []"
      by (auto simp: decode_loop.simps [of x] Let_def split: if_splits)
    with "1.prems" show ?thesis by simp
  next
    case False
    with "1.prems" obtain vs' where "decode_loop (drop (4 + read_u32be x) x) = Inr (vs', rest)"
      "\<not> read_u32be x > MAX_FRAME_BYTES" "json_parse (take (read_u32be x) (drop 4 x)) \<noteq> None"
      by (auto simp: decode_loop.simps [of x] Let_def tryE_Inr_iff split: if_splits option.splits)
    with False "1.IH" show ?thesis by auto
  qed
qed

lemma decode_loop_frame:
  assumes "encodeFrame v = Inr f" "wf_jsv v"
  shows "decode_loop (f @ s) = tryE (decode_loop s) (\<lambda>(vs, r). Inr (norm v # vs, r))"
proof -
  let ?j = "json_text v"
  from assms(1) have f: "f = u32be (length ?j) @ ?j" and le: "length ?j \<le> MAX_FRAME_BYTES"
    by (auto simp: encodeFrame_def json_stringify_def Let_def split: if_splits)
  from le have "read_u32be (f @ s) = length ?j"
    by (simp add: f read_u32be_u32be MAX_FRAME_BYTES_def)
  moreover have "drop 4 (f @ s) = ?j @ s" by (simp add: f u32be_def)
  moreover have "drop (4 + length ?j) (f @ s) = s"
    unfolding f by (metis append.assoc append_eq_conv_conj length_append length_u32be)
  moreover have "json_parse ?j = Some (norm v)" by (rule json.read_show [OF assms(2)])
  ultimately show ?thesis using le
    by (subst decode_loop.simps) (simp add: Let_def f)
qed

section \<open>The chunk list holds exactly the unconsumed bytes\<close>

definition pending :: "decoder \<Rightarrow> string" where
  "pending d = concat (chunks d)"

definition wf_decoder :: "decoder \<Rightarrow> bool" where
  "wf_decoder d \<longleftrightarrow> buffered d = length (pending d) \<and> [] \<notin> set (chunks d)"

lemma wf_new_decoder: "wf_decoder new_decoder" "pending new_decoder = []"
  by (simp_all add: wf_decoder_def new_decoder_def pending_def)

lemma peekLength_spec:
  assumes "wf_decoder d" "4 \<le> buffered d" "peekLength d = (n, d')"
  shows "n = read_u32be (pending d)" "wf_decoder d'" "pending d' = pending d" "buffered d' = buffered d"
proof -
  from assms(1,2) obtain c cs where cs: "chunks d = c # cs"
    by (cases "chunks d") (auto simp: wf_decoder_def pending_def)
  from assms cs show "n = read_u32be (pending d)" "wf_decoder d'" "pending d' = pending d"
    "buffered d' = buffered d"
    by (auto simp: peekLength_def wf_decoder_def pending_def read_u32be_append Let_def split: if_splits)
qed


lemma push_spec:
  assumes "wf_decoder d"
  shows "case push c d of
      (Inl e, d') \<Rightarrow> decode_loop (pending d @ c) = Inl e \<and> pending d' = pending d @ c \<and> wf_decoder d'
    | (Inr vs, d') \<Rightarrow> decode_loop (pending d @ c) = Inr (vs, pending d') \<and> wf_decoder d'"
proof -
  define d1 where "d1 = append_chunk c d"
  have wf1: "wf_decoder d1" and p1: "pending d1 = pending d @ c"
    using assms by (auto simp: d1_def append_chunk_def wf_decoder_def pending_def)
  then have b1: "buffered d1 = length (pending d @ c)" by (simp add: wf_decoder_def)
  show ?thesis
  proof (cases "buffered d1 < 4")
    case True
    with wf1 p1 b1 show ?thesis
      by (simp add: push_def d1_def [symmetric] Let_def decode_loop_short)
  next
    case False
    obtain n d2 where d2: "peekLength d1 = (n, d2)" by (cases "peekLength d1")
    from False peekLength_spec [OF wf1 _ d2]
    have n: "n = read_u32be (pending d @ c)" "wf_decoder d2" "pending d2 = pending d @ c"
      "buffered d2 = length (pending d @ c)"
      by (simp_all add: p1 b1)
    have buf: "(if length (chunks d2) = 1 then hd (chunks d2) else concat (chunks d2)) = pending d @ c"
      using n(3) by (cases "chunks d2") (auto simp: pending_def)
    let ?x = "pending d @ c"
    from False b1 have len: "\<not> length ?x < 4" by simp
    show ?thesis
    proof (cases "n > MAX_FRAME_BYTES \<or> length ?x < 4 + n")
      case True
      with False d2 n b1 len show ?thesis
        by (auto simp: push_def d1_def [symmetric] Let_def decode_loop.simps [of ?x])
    next
      case False': False
      have push: "push c d = (case decode_loop ?x of Inl e \<Rightarrow> (Inl e, d2)
          | Inr (out, tail) \<Rightarrow> if tail = [] then (Inr out, d2\<lparr>chunks := [], buffered := 0\<rparr>)
              else (Inr out, d2\<lparr>chunks := [tail], buffered := length tail\<rparr>))"
        using False False' d2 n(4) buf
        by (simp add: push_def d1_def [symmetric] Let_def del: One_nat_def)
      show ?thesis
        using n(2,3) unfolding push
        by (auto simp: wf_decoder_def pending_def split: sum.splits)
    qed
  qed
qed

lemma decode_loop_error_stable: "decode_loop x = Inl e \<Longrightarrow> decode_loop (x @ y) = Inl e"
proof (induction x rule: decode_loop.induct)
  case (1 x)
  let ?n = "read_u32be x"
  from "1.prems" have len: "\<not> length x < 4" "?n > MAX_FRAME_BYTES \<or> \<not> length x < 4 + ?n"
    by (auto simp: decode_loop.simps [of x] Let_def split: if_splits)
  then have n: "read_u32be (x @ y) = ?n" by (simp add: read_u32be_append)
  show ?case
  proof (cases "?n > MAX_FRAME_BYTES \<or> json_parse (take ?n (drop 4 x)) = None")
    case True
    with "1.prems" len n show ?thesis
      by (auto simp: decode_loop.simps [of x] decode_loop.simps [of "x @ y"] Let_def)
  next
    case False
    with "1.prems" len obtain v where v: "json_parse (take ?n (drop 4 x)) = Some v"
      "decode_loop (drop (4 + ?n) x) = Inl e"
      by (auto simp: decode_loop.simps [of x] Let_def tryE_def split: sum.splits)
    with False len "1.IH" have "decode_loop (drop (4 + ?n) x @ y) = Inl e" by simp
    with False len n v show ?thesis
      by (simp add: decode_loop.simps [of "x @ y"] Let_def)
  qed
qed

lemma feed_spec:
  assumes "wf_decoder d" "decode_loop (pending d) = Inr ([], pending d)"
  shows "case feed cs d of
      (Inl e, d') \<Rightarrow> decode_loop (pending d @ concat cs) = Inl e
    | (Inr vs, d') \<Rightarrow> decode_loop (pending d @ concat cs) = Inr (vs, pending d') \<and> wf_decoder d'"
  using assms
proof (induction cs arbitrary: d)
  case (Cons c cs)
  obtain res d1 where push: "push c d = (res, d1)" by fastforce
  show ?case
  proof (cases res)
    case (Inl e)
    with push_spec [OF Cons.prems(1), of c] push have "decode_loop (pending d @ c) = Inl e"
      by (auto split: sum.splits)
    from decode_loop_error_stable [OF this, of "concat cs"] push Inl show ?thesis by simp
  next
    case (Inr us)
    with push_spec [OF Cons.prems(1), of c] push
    have us: "decode_loop (pending d @ c) = Inr (us, pending d1)" "wf_decoder d1"
      by (auto split: sum.splits)
    from decode_loop_append [OF us(1), of "concat cs"]
    have split: "decode_loop (pending d @ concat (c # cs))
        = tryE (decode_loop (pending d1 @ concat cs)) (\<lambda>(ws, r). Inr (us @ ws, r))"
      by simp
    from Cons.IH [OF us(2) decode_loop_rest_idle [OF us(1)]] push Inr show ?thesis
      unfolding split by (auto split: sum.splits prod.splits)
  qed
qed simp

text \<open>The decoder is a system in the sense of the prelude: no chunk breaks its invariant.\<close>

interpretation decoder_sys: invariant_system "\<lambda>d c. snd (push c d)" wf_decoder
proof
  fix d c assume "wf_decoder d"
  from push_spec [OF this, of c] show "wf_decoder (snd (push c d))"
    by (cases "push c d"; cases "fst (push c d)") auto
qed

lemma wf_decoder_empty: "wf_decoder d \<Longrightarrow> pending d = [] \<Longrightarrow> d = new_decoder"
proof -
  assume "wf_decoder d" "pending d = []"
  then have "chunks d = []" "buffered d = 0"
    by (cases "chunks d"; auto simp: wf_decoder_def pending_def)+
  then show ?thesis by (simp add: new_decoder_def)
qed

lemma decode_loop_frames:
  "list_all2 (\<lambda>v f. wf_jsv v \<and> encodeFrame v = Inr f) vs fs \<Longrightarrow>
   decode_loop (concat fs) = Inr (map norm vs, [])"
  by (induction rule: list_all2_induct) (auto simp: decode_loop_short decode_loop_frame)

lemma feed_frames:
  assumes "list_all2 (\<lambda>v f. wf_jsv v \<and> encodeFrame v = Inr f) vs fs"
    and "concat cs = concat fs"
  shows "feed cs new_decoder = (Inr (map norm vs), new_decoder)"
proof -
  have "case feed cs new_decoder of
      (Inl e, d') \<Rightarrow> decode_loop (concat fs) = Inl e
    | (Inr ws, d') \<Rightarrow> decode_loop (concat fs) = Inr (ws, pending d') \<and> wf_decoder d'"
    using feed_spec [OF wf_new_decoder(1), of cs]
    unfolding wf_new_decoder(2) append_Nil assms(2) by (simp add: decode_loop_short)
  then show ?thesis
    using decode_loop_frames [OF assms(1)] wf_decoder_empty
    by (auto split: prod.splits sum.splits)
qed

section \<open>Properties\<close>

text \<open>
  C13: however the bytes of a sequence of encoded frames are cut into chunks, the decoder
  returns exactly the encoded values, in order, and ends empty (undefined members are what
  JSON drops: \<open>norm\<close>).
\<close>

theorem framing_roundtrip:
  assumes "list_all2 (\<lambda>v f. wf_jsv v \<and> encodeFrame v = Inr f) vs fs"
    and "concat cs = concat fs"
  shows "feed cs new_decoder = (Inr (map norm vs), new_decoder)"
  by (rule feed_frames [OF assms])

theorem framing_roundtrip_witness:
  "\<exists>f. encodeFrame (VObj [(''id'', VInt 7)]) = Inr f \<and>
    feed [take 3 f, drop 3 f @ f] new_decoder
      = (Inr [VObj [(''id'', VInt 7)], VObj [(''id'', VInt 7)]], new_decoder)"
proof -
  let ?v = "VObj [(''id'', VInt 7)]"
  obtain f where f: "encodeFrame ?v = Inr f"
    by (simp add: encodeFrame_def json_stringify_def json_quote_def escape_char_def show_int_def
        show_base.simps MAX_FRAME_BYTES_def Let_def)
  have "feed [take 3 f, drop 3 f @ f] new_decoder = (Inr (map norm [?v, ?v]), new_decoder)"
    by (rule framing_roundtrip [of "[?v, ?v]" "[f, f]"])
       (simp_all add: f wf_map_def append_assoc [symmetric] del: append_assoc)
  with f show ?thesis by auto
qed

text \<open>
  What the decoder returns or refuses depends on the bytes received, never on how the
  transport cut them into chunks.
\<close>

theorem decoder_chunking_independent:
  "fst (feed cs new_decoder)
    = (case decode_loop (concat cs) of Inl e \<Rightarrow> Inl e | Inr (vs, _) \<Rightarrow> Inr vs)"
  using feed_spec [of new_decoder cs]
  by (auto simp: wf_new_decoder(1) wf_new_decoder(2) decode_loop_short split: prod.splits sum.splits)

text \<open>
  A peer cannot make the decoder hold more than one maximal frame: after every run that
  was not refused, fewer than \<open>4 + MAX_FRAME_BYTES\<close> bytes are buffered.
\<close>

theorem decoder_memory_bounded:
  assumes "feed cs new_decoder = (Inr vs, d)"
  shows "buffered d < 4 + MAX_FRAME_BYTES"
proof -
  from feed_spec [of new_decoder cs] assms
  have "decode_loop (concat cs) = Inr (vs, pending d)" "wf_decoder d"
    by (auto simp: wf_new_decoder decode_loop_short)
  with decode_loop_rest_bound show ?thesis by (auto simp: wf_decoder_def)
qed

theorem decoder_memory_bounded_witness:
  "buffered (snd (feed [''ab''] new_decoder)) = 2 \<and> (2::nat) < 4 + MAX_FRAME_BYTES"
proof -
  let ?d = "\<lparr>chunks = [''ab''], buffered = 2\<rparr>"
  have "feed [''ab''] new_decoder = (Inr [], ?d)"
    by (simp add: push_def append_chunk_def new_decoder_def)
  from decoder_memory_bounded [OF this] this show ?thesis by simp
qed

end
