(* ===== verification/ControlTypes.thy ===== *)
theory ControlTypes
  imports Json
begin

text \<open>
  The vocabulary of the control subsystem: packages/protocol/src/control.ts, the adapter
  error and receipt of packages/control/src/adapter.ts, and the JSON form of every type, which
  the byte budgets measure and the comparisons serialise. An optional property is an
  \<open>option\<close>; numbers the code only passes on (coordinates, ratios) are kept as their text.
\<close>

section \<open>Enumerations\<close>

definition CONTROL_SCHEMA_VERSION :: int where "CONTROL_SCHEMA_VERSION = 1"
definition CONTROL_MAX_STEPS :: nat where "CONTROL_MAX_STEPS = 32"
definition CONTROL_MAX_SURFACES :: nat where "CONTROL_MAX_SURFACES = 8"
definition CONTROL_MAX_DEADLINE_MS :: int where "CONTROL_MAX_DEADLINE_MS = 60000"
definition CONTROL_MAX_CONCURRENCY :: int where "CONTROL_MAX_CONCURRENCY = 4"

datatype control_mode = SharedSemantic | Isolated
datatype control_freshness = Fresh | Dirty | Expired | UnknownFreshness
datatype control_watch_health = Healthy | Degraded | Lost
datatype control_dispatch_state = NotDispatched | Dispatched | UnknownDispatch
datatype control_recovery =
  Refresh | NeedsContext | NeedsApproval | ChooseIsolatedRunner | InspectOutcome | NoRecovery
datatype control_action_kind =
  KClick | KType | KPressKey | KScroll | KWaitFor | KInvoke | KSetValue | KSelect | KSetToggleState
datatype toggle_state = Off | On | Indeterminate
datatype control_scope = InSurface | InSubtree | InNode

section \<open>Actions, targets, predicates\<close>

datatype control_action =
    Click
  | TypeText string "bool option"
  | PressKey string
  | Scroll string string
  | WaitFor "string option" int
  | Invoke
  | SetValue string
  | Select string
  | SetToggleState toggle_state

fun action_kind :: "control_action \<Rightarrow> control_action_kind" where
  "action_kind Click = KClick"
| "action_kind (TypeText _ _) = KType"
| "action_kind (PressKey _) = KPressKey"
| "action_kind (Scroll _ _) = KScroll"
| "action_kind (WaitFor _ _) = KWaitFor"
| "action_kind Invoke = KInvoke"
| "action_kind (SetValue _) = KSetValue"
| "action_kind (Select _) = KSelect"
| "action_kind (SetToggleState _) = KSetToggleState"

record control_locator =
  loc_scope :: control_scope
  loc_role :: string
  loc_name :: string
  loc_observedAncestor :: "string option"

datatype control_target = ByRef string | ByLocator control_locator

datatype control_predicate =
    EnabledIs bool
  | ValueEquals string
  | TextPresent control_scope string
  | ToggleStateEquals toggle_state
  | ElementAbsent control_scope "string option" "string option"
  | UrlEquals string

section \<open>Observations\<close>

datatype control_node = Node
  (nref: string) (nrole: string) (nname: string) (nvalue: "string option")
  (nenabled: "bool option") (ntoggleState: "toggle_state option")
  (nactions: "control_action_kind list") (nparentRef: "string option")
  (nchildRefs: "string list option") (nchildren: "control_node list option")

record control_coverage =
  cov_scope :: control_scope
  cov_truncated :: bool
  cov_omittedNodes :: int
  cov_expansionHandle :: "string option"

record control_image =
  img_dataUri :: string
  img_capturedAt :: string
  img_devicePixelRatio :: string
  img_viewport :: "string \<times> string \<times> string \<times> string"

record control_observation =
  observationId :: string
  surfaceId :: string
  generation :: int
  revision :: int
  obs_url :: "string option"
  freshness :: control_freshness
  watchHealth :: control_watch_health
  observedAt :: string
  lastValidatedAt :: string
  policyRevision :: int
  obs_mode :: control_mode
  coverage :: control_coverage
  nodes :: "control_node list"
  image :: "control_image option"

section \<open>Results of an observation request\<close>

record control_delta_continuation =
  cont_token :: string
  cont_baseObservationId :: string
  cont_observationId :: string
  cont_offset :: nat
  cont_totalChanges :: nat

text \<open>\<open>image?: ... | null\<close>: absent, null, or an image.\<close>

record control_delta_metadata =
  meta_generation :: int
  meta_policyRevision :: int
  meta_mode :: control_mode
  meta_observedAt :: string
  meta_lastValidatedAt :: string
  meta_image :: "control_image option option"
  meta_imageChanged :: bool

record control_delta =
  d_baseObservationId :: string
  d_observationId :: string
  d_appliedObservationId :: string
  d_surfaceId :: string
  d_revision :: int
  d_freshness :: control_freshness
  d_watchHealth :: control_watch_health
  d_upsert :: "control_node list"
  d_remove :: "string list"
  d_complete :: bool
  d_continuation :: "control_delta_continuation option"
  d_metadata :: control_delta_metadata
  d_truncated :: bool
  d_coverage :: control_coverage

record control_full_observation =
  f_observation :: control_observation
  f_complete :: bool
  f_appliedObservationId :: "string option"
  f_continuation :: "control_delta_continuation option"

datatype control_observation_result = Delta control_delta | Full control_full_observation

section \<open>Plans and their results\<close>

record control_step =
  step_id :: string
  step_surfaceId :: string
  dependsOn :: "string list"
  step_target :: control_target
  step_action :: control_action
  preconditions :: "control_predicate list"
  postcondition :: control_predicate
  timeoutMs :: int

record control_plan_output =
  out_full :: bool
  out_baseObservationId :: "string option"
  maxOutputTokens :: int

record control_plan =
  requestId :: string
  surfaceIds :: "string list"
  expectedObservations :: "(string, string) jsmap"
  plan_mode :: control_mode
  deadlineMs :: int
  maxConcurrency :: int
  steps :: "control_step list"
  plan_output :: control_plan_output

datatype control_step_status =
  SNotStarted | SRunning | SSucceeded | SFailed | SUnknown | SSkipped | SCancelled
  | SAwaitingApproval | SNeedsContext

datatype postcondition_check = Matched | NotMatched | NotChecked

record control_plan_step_result =
  res_id :: string
  res_status :: control_step_status
  res_postcondition :: postcondition_check

record control_error =
  err_code :: string
  err_stepId :: "string option"
  err_dispatchState :: control_dispatch_state
  err_recovery :: control_recovery
  err_observationId :: "string option"
  err_message :: string

record control_checkpoint =
  cp_reason :: control_recovery
  cp_nextAction :: string

datatype control_plan_status =
  PCompleted | PFailed | PPartial | PCancelled | PAwaitingApproval | PNeedsContext

record control_plan_result =
  pr_planId :: string
  pr_status :: control_plan_status
  pr_steps :: "control_plan_step_result list"
  pr_observation :: "control_observation_result option"
  pr_error :: "control_error option"
  pr_checkpoint :: "control_checkpoint option"

text \<open>What an adapter throws: code, message, dispatch state and recovery.\<close>

record adapter_error =
  ae_code :: string
  ae_message :: string
  ae_dispatchState :: control_dispatch_state
  ae_recovery :: control_recovery

definition adapter_error_default :: "string \<Rightarrow> string \<Rightarrow> adapter_error" where
  "adapter_error_default code message =
     \<lparr>ae_code = code, ae_message = code @ '': '' @ message,
      ae_dispatchState = NotDispatched, ae_recovery = NoRecovery\<rparr>"

definition adapter_error_with ::
    "string \<Rightarrow> string \<Rightarrow> control_dispatch_state \<Rightarrow> control_recovery \<Rightarrow> adapter_error" where
  "adapter_error_with code message ds rc =
     \<lparr>ae_code = code, ae_message = code @ '': '' @ message,
      ae_dispatchState = ds, ae_recovery = rc\<rparr>"

section \<open>The JSON form\<close>

abbreviation opt_field :: "string \<Rightarrow> ('a \<Rightarrow> jsv) \<Rightarrow> 'a option \<Rightarrow> (string \<times> jsv) list" where
  "opt_field k f v \<equiv> (case v of None \<Rightarrow> [] | Some x \<Rightarrow> [(k, f x)])"

fun mode_text :: "control_mode \<Rightarrow> string" where
  "mode_text SharedSemantic = ''sharedSemantic''"
| "mode_text Isolated = ''isolated''"

fun freshness_text :: "control_freshness \<Rightarrow> string" where
  "freshness_text Fresh = ''fresh''"
| "freshness_text Dirty = ''dirty''"
| "freshness_text Expired = ''expired''"
| "freshness_text UnknownFreshness = ''unknown''"

fun watch_text :: "control_watch_health \<Rightarrow> string" where
  "watch_text Healthy = ''healthy''"
| "watch_text Degraded = ''degraded''"
| "watch_text Lost = ''lost''"

fun kind_text :: "control_action_kind \<Rightarrow> string" where
  "kind_text KClick = ''click''"
| "kind_text KType = ''type''"
| "kind_text KPressKey = ''press_key''"
| "kind_text KScroll = ''scroll''"
| "kind_text KWaitFor = ''wait_for''"
| "kind_text KInvoke = ''invoke''"
| "kind_text KSetValue = ''setValue''"
| "kind_text KSelect = ''select''"
| "kind_text KSetToggleState = ''setToggleState''"

fun toggle_text :: "toggle_state \<Rightarrow> string" where
  "toggle_text Off = ''off''"
| "toggle_text On = ''on''"
| "toggle_text Indeterminate = ''indeterminate''"

fun scope_text :: "control_scope \<Rightarrow> string" where
  "scope_text InSurface = ''surface''"
| "scope_text InSubtree = ''subtree''"
| "scope_text InNode = ''node''"

text \<open>The texts are codes of the enumerations.\<close>

lemma kind_text_inject [simp]: "kind_text a = kind_text b \<longleftrightarrow> a = b"
  by (cases a; cases b) simp_all

lemma toggle_text_inject [simp]: "toggle_text a = toggle_text b \<longleftrightarrow> a = b"
  by (cases a; cases b) simp_all

lemma mode_text_inject [simp]: "mode_text a = mode_text b \<longleftrightarrow> a = b"
  by (cases a; cases b) simp_all

lemma scope_text_inject [simp]: "scope_text a = scope_text b \<longleftrightarrow> a = b"
  by (cases a; cases b) simp_all

fun node_json :: "control_node \<Rightarrow> jsv" where
  "node_json (Node r ro n v e t acts p crefs kids) = VObj
     ([(''ref'', VStr r), (''role'', VStr ro), (''name'', VStr n)]
      @ opt_field ''value'' VStr v @ opt_field ''enabled'' VBool e
      @ opt_field ''toggleState'' (\<lambda>s. VStr (toggle_text s)) t
      @ [(''actions'', VArr (map (\<lambda>a. VStr (kind_text a)) acts))]
      @ opt_field ''parentRef'' VStr p
      @ opt_field ''childRefs'' (\<lambda>rs. VArr (map VStr rs)) crefs
      @ opt_field ''children'' (\<lambda>ns. VArr (map node_json ns)) kids)"

definition coverage_json :: "control_coverage \<Rightarrow> jsv" where
  "coverage_json c = VObj
     ([(''scope'', VStr (scope_text (cov_scope c))), (''truncated'', VBool (cov_truncated c)),
       (''omittedNodes'', VInt (cov_omittedNodes c))]
      @ opt_field ''expansionHandle'' VStr (cov_expansionHandle c))"

definition image_json :: "control_image \<Rightarrow> jsv" where
  "image_json i = VObj
     [(''dataUri'', VStr (img_dataUri i)), (''capturedAt'', VStr (img_capturedAt i)),
      (''devicePixelRatio'', VNum (img_devicePixelRatio i)),
      (''viewport'', case img_viewport i of (x, y, w, h) \<Rightarrow>
         VObj [(''x'', VNum x), (''y'', VNum y), (''width'', VNum w), (''height'', VNum h)])]"

definition observation_json :: "control_observation \<Rightarrow> jsv" where
  "observation_json ob = VObj
     ([(''observationId'', VStr (observationId ob)), (''surfaceId'', VStr (surfaceId ob)),
       (''generation'', VInt (generation ob)), (''revision'', VInt (revision ob))]
      @ opt_field ''url'' VStr (obs_url ob)
      @ [(''freshness'', VStr (freshness_text (freshness ob))),
         (''watchHealth'', VStr (watch_text (watchHealth ob))),
         (''observedAt'', VStr (observedAt ob)), (''lastValidatedAt'', VStr (lastValidatedAt ob)),
         (''policyRevision'', VInt (policyRevision ob)), (''mode'', VStr (mode_text (obs_mode ob))),
         (''coverage'', coverage_json (coverage ob)), (''nodes'', VArr (map node_json (nodes ob)))]
      @ opt_field ''image'' image_json (image ob))"

end
