(* ===== verification/ControlParse.thy ===== *)
theory ControlParse
  imports ControlTypes
begin

text \<open>
  packages/protocol/src/control-parse.ts: the parser that closes the shape of a control plan
  before any adapter is called. An error is the message after the CONTROL_INVALID_PLAN prefix.

  Lengths are JavaScript lengths: \<open>js_length\<close> counts UTF-16 units of a UTF-8 string. A number
  is the text JavaScript prints for it, so an integer is recognised by its decimal text.
  The depth-first search of \<open>ensureAcyclic\<close> recurses on fuel, one more than the number of steps;
  \<open>visit_total\<close> shows that this is always enough.
\<close>

section \<open>Primitive checks\<close>

definition fail_plan :: "string \<Rightarrow> string + 'a" where
  "fail_plan msg = Inl (''CONTROL_INVALID_PLAN: '' @ msg)"

definition utf16_units :: "char \<Rightarrow> nat" where
  "utf16_units c = (let b = of_char c :: nat in
     if b < 128 then 1 else if b < 192 then 0 else if b < 240 then 1 else 2)"

definition js_length :: "string \<Rightarrow> nat" where
  "js_length s = sum_list (map utf16_units s)"

definition read_int :: "string \<Rightarrow> int option" where
  "read_int t = (case t of
       CHR ''-'' # r \<Rightarrow> if show_int (- int (read_base 10 r)) = t
                        then Some (- int (read_base 10 r)) else None
     | _ \<Rightarrow> if show_int (int (read_base 10 t)) = t then Some (int (read_base 10 t)) else None)"

definition is_finite :: "string \<Rightarrow> bool" where
  "is_finite t \<longleftrightarrow> t \<notin> {''NaN'', ''Infinity'', ''-Infinity''}"

fun record_field :: "jsv \<Rightarrow> string \<Rightarrow> string + (string \<times> jsv) list" where
  "record_field (VObj ms) path = Inr ms"
| "record_field _ path = fail_plan (path @ '' must be an object'')"

definition input_field :: "(string \<times> jsv) list \<Rightarrow> string \<Rightarrow> jsv" where
  "input_field ms k = field_of (VObj ms) k"

fun keys_check :: "(string \<times> jsv) list \<Rightarrow> string list \<Rightarrow> string \<Rightarrow> string + unit" where
  "keys_check [] allowed path = Inr ()"
| "keys_check ((key, _) # ms) allowed path =
     (if key \<notin> set allowed then fail_plan (''Unknown key at '' @ path @ ''.'' @ key)
      else keys_check ms allowed path)"

fun text_field :: "nat \<Rightarrow> jsv \<Rightarrow> string \<Rightarrow> string + string" where
  "text_field maxLength (VStr s) path =
     (if s = [] \<or> js_length s > maxLength
      then fail_plan (path @ '' must be a non-empty string of at most ''
             @ show_base 10 maxLength @ '' characters'')
      else Inr s)"
| "text_field maxLength _ path =
     fail_plan (path @ '' must be a non-empty string of at most ''
             @ show_base 10 maxLength @ '' characters'')"

fun stringValue :: "nat \<Rightarrow> jsv \<Rightarrow> string \<Rightarrow> string + string" where
  "stringValue maxLength (VStr s) path =
     (if js_length s > maxLength
      then fail_plan (path @ '' must be a string of at most ''
             @ show_base 10 maxLength @ '' characters'')
      else Inr s)"
| "stringValue maxLength _ path =
     fail_plan (path @ '' must be a string of at most '' @ show_base 10 maxLength @ '' characters'')"

definition integer_field :: "int \<Rightarrow> int \<Rightarrow> jsv \<Rightarrow> string \<Rightarrow> string + int" where
  "integer_field lo hi v path =
     (case v of
        VNum t \<Rightarrow> (case read_int t of
            Some i \<Rightarrow> if i < lo \<or> hi < i
              then fail_plan (path @ '' must be between '' @ show_int lo @ '' and '' @ show_int hi)
              else Inr i
          | None \<Rightarrow> fail_plan (path @ '' must be between '' @ show_int lo @ '' and '' @ show_int hi))
      | _ \<Rightarrow> fail_plan (path @ '' must be between '' @ show_int lo @ '' and '' @ show_int hi))"

fun boolean_field :: "jsv \<Rightarrow> string \<Rightarrow> string + bool" where
  "boolean_field (VBool b) path = Inr b"
| "boolean_field _ path = fail_plan (path @ '' must be a boolean'')"

fun oneOf :: "(string \<times> 'a) list \<Rightarrow> jsv \<Rightarrow> string \<Rightarrow> string + 'a" where
  "oneOf values (VStr s) path =
     (case map_of values s of
        Some x \<Rightarrow> Inr x
      | None \<Rightarrow> fail_plan (path @ '' has an unsupported value''))"
| "oneOf values _ path = fail_plan (path @ '' has an unsupported value'')"

text \<open>\<open>x === undefined ? {} : { k: f(x) }\<close>\<close>

definition optional_field :: "jsv \<Rightarrow> (jsv \<Rightarrow> string + 'a) \<Rightarrow> string + 'a option" where
  "optional_field v f = (if v = VUndef then Inr None else tryE (f v) (\<lambda>x. Inr (Some x)))"

text \<open>\<open>xs.map((x, index) => f(x, path + '.' + index))\<close>\<close>

definition map_indexed :: "(jsv \<Rightarrow> string \<Rightarrow> string + 'a) \<Rightarrow> jsv list \<Rightarrow> string \<Rightarrow> string + 'a list" where
  "map_indexed f xs path =
     mapE (\<lambda>(i, x). f x (path @ ''.'' @ show_base 10 i)) (List.enumerate 0 xs)"

section \<open>Actions, predicates, targets and steps\<close>

definition toggle_values :: "(string \<times> toggle_state) list" where
  "toggle_values = [(''off'', Off), (''on'', On), (''indeterminate'', Indeterminate)]"

definition scope_values :: "(string \<times> control_scope) list" where
  "scope_values = [(''surface'', InSurface), (''subtree'', InSubtree)]"

definition parse_action_op :: "string \<Rightarrow> (string \<times> jsv) list \<Rightarrow> string \<Rightarrow> string + control_action" where
  "parse_action_op op input path =
     (if op = ''click'' then
        tryE (keys_check input [''op''] path) (\<lambda>_. Inr Click)
      else if op = ''type'' then
        tryE (keys_check input [''op'', ''text'', ''clear''] path) (\<lambda>_.
        tryE (stringValue 65536 (input_field input ''text'') (path @ ''.text'')) (\<lambda>t.
        tryE (optional_field (input_field input ''clear'') (\<lambda>v. boolean_field v (path @ ''.clear''))) (\<lambda>c.
        Inr (TypeText t c))))
      else if op = ''press_key'' then
        tryE (keys_check input [''op'', ''key''] path) (\<lambda>_.
        tryE (text_field 128 (input_field input ''key'') (path @ ''.key'')) (\<lambda>k. Inr (PressKey k)))
      else if op = ''scroll'' then
        tryE (keys_check input [''op'', ''dx'', ''dy''] path) (\<lambda>_.
        (case (input_field input ''dx'', input_field input ''dy'') of
           (VNum dx, VNum dy) \<Rightarrow>
             if is_finite dx \<and> is_finite dy then Inr (Scroll dx dy)
             else fail_plan (path @ ''.dx and '' @ path @ ''.dy must be finite numbers'')
         | _ \<Rightarrow> fail_plan (path @ ''.dx and '' @ path @ ''.dy must be finite numbers'')))
      else if op = ''wait_for'' then
        tryE (keys_check input [''op'', ''text'', ''timeoutMs''] path) (\<lambda>_.
        tryE (optional_field (input_field input ''text'') (\<lambda>v. text_field 4096 v (path @ ''.text''))) (\<lambda>t.
        tryE (integer_field 1 CONTROL_MAX_DEADLINE_MS (input_field input ''timeoutMs'')
                (path @ ''.timeoutMs'')) (\<lambda>n. Inr (WaitFor t n))))
      else if op = ''invoke'' then
        tryE (keys_check input [''op''] path) (\<lambda>_. Inr Invoke)
      else if op = ''setValue'' then
        tryE (keys_check input [''op'', ''value''] path) (\<lambda>_.
        tryE (stringValue 65536 (input_field input ''value'') (path @ ''.value'')) (\<lambda>v. Inr (SetValue v)))
      else if op = ''select'' then
        tryE (keys_check input [''op'', ''value''] path) (\<lambda>_.
        tryE (stringValue 4096 (input_field input ''value'') (path @ ''.value'')) (\<lambda>v. Inr (Select v)))
      else if op = ''setToggleState'' then
        tryE (keys_check input [''op'', ''state''] path) (\<lambda>_.
        tryE (oneOf [(''off'', Off), (''on'', On)] (input_field input ''state'') (path @ ''.state'')) (\<lambda>s.
        Inr (SetToggleState s)))
      else fail_plan (path @ ''.op is unsupported''))"

definition parseAction :: "jsv \<Rightarrow> string \<Rightarrow> string + control_action" where
  "parseAction v path =
     tryE (record_field v path) (\<lambda>input.
       (case input_field input ''op'' of
          VStr op \<Rightarrow> parse_action_op op input path
        | _ \<Rightarrow> fail_plan (path @ ''.op is required'')))"

datatype predicate_kind =
  PkEnabled | PkValueEquals | PkTextPresent | PkToggleStateEquals | PkElementAbsent | PkUrlEquals

definition predicate_kinds :: "(string \<times> predicate_kind) list" where
  "predicate_kinds =
     [(''enabled'', PkEnabled), (''valueEquals'', PkValueEquals), (''textPresent'', PkTextPresent),
      (''toggleStateEquals'', PkToggleStateEquals), (''elementAbsent'', PkElementAbsent),
      (''urlEquals'', PkUrlEquals)]"

fun parse_predicate_kind ::
    "predicate_kind \<Rightarrow> (string \<times> jsv) list \<Rightarrow> string \<Rightarrow> string + control_predicate" where
  "parse_predicate_kind PkEnabled input path =
     tryE (keys_check input [''kind'', ''equals''] path) (\<lambda>_.
     tryE (boolean_field (input_field input ''equals'') (path @ ''.equals'')) (\<lambda>b. Inr (EnabledIs b)))"
| "parse_predicate_kind PkValueEquals input path =
     tryE (keys_check input [''kind'', ''value''] path) (\<lambda>_.
     tryE (stringValue 65536 (input_field input ''value'') (path @ ''.value'')) (\<lambda>s. Inr (ValueEquals s)))"
| "parse_predicate_kind PkTextPresent input path =
     tryE (keys_check input [''kind'', ''scope'', ''text''] path) (\<lambda>_.
     tryE (oneOf scope_values (input_field input ''scope'') (path @ ''.scope'')) (\<lambda>sc.
     tryE (text_field 4096 (input_field input ''text'') (path @ ''.text'')) (\<lambda>t.
     Inr (TextPresent sc t))))"
| "parse_predicate_kind PkToggleStateEquals input path =
     tryE (keys_check input [''kind'', ''state''] path) (\<lambda>_.
     tryE (oneOf toggle_values (input_field input ''state'') (path @ ''.state'')) (\<lambda>s.
     Inr (ToggleStateEquals s)))"
| "parse_predicate_kind PkElementAbsent input path =
     tryE (keys_check input [''kind'', ''scope'', ''role'', ''name''] path) (\<lambda>_.
     tryE (oneOf scope_values (input_field input ''scope'') (path @ ''.scope'')) (\<lambda>sc.
     tryE (optional_field (input_field input ''role'') (\<lambda>v. text_field 4096 v (path @ ''.role''))) (\<lambda>r.
     tryE (optional_field (input_field input ''name'') (\<lambda>v. text_field 4096 v (path @ ''.name''))) (\<lambda>n.
     Inr (ElementAbsent sc r n)))))"
| "parse_predicate_kind PkUrlEquals input path =
     tryE (keys_check input [''kind'', ''url''] path) (\<lambda>_.
     tryE (text_field 8192 (input_field input ''url'') (path @ ''.url'')) (\<lambda>u. Inr (UrlEquals u)))"

definition parsePredicate :: "jsv \<Rightarrow> string \<Rightarrow> string + control_predicate" where
  "parsePredicate v path =
     tryE (record_field v path) (\<lambda>input.
     tryE (oneOf predicate_kinds (input_field input ''kind'') (path @ ''.kind'')) (\<lambda>kind.
     parse_predicate_kind kind input path))"

definition parse_locator :: "jsv \<Rightarrow> string \<Rightarrow> string + control_locator" where
  "parse_locator v path =
     tryE (record_field v path) (\<lambda>l.
     tryE (keys_check l [''scope'', ''role'', ''name'', ''match'', ''requireUnique'', ''observedAncestor'']
             path) (\<lambda>_.
     if input_field l ''requireUnique'' \<noteq> VBool True
     then fail_plan (path @ ''.requireUnique must be true'')
     else
       tryE (oneOf scope_values (input_field l ''scope'') (path @ ''.scope'')) (\<lambda>sc.
       tryE (text_field 4096 (input_field l ''role'') (path @ ''.role'')) (\<lambda>r.
       tryE (text_field 4096 (input_field l ''name'') (path @ ''.name'')) (\<lambda>n.
       tryE (oneOf [(''exact'', ())] (input_field l ''match'') (path @ ''.match'')) (\<lambda>_.
       tryE (optional_field (input_field l ''observedAncestor'')
               (\<lambda>v. text_field 4096 v (path @ ''.observedAncestor''))) (\<lambda>a.
       Inr \<lparr>loc_scope = sc, loc_role = r, loc_name = n, loc_observedAncestor = a\<rparr>)))))))"

definition parseTarget :: "jsv \<Rightarrow> string \<Rightarrow> string + control_target" where
  "parseTarget v path =
     tryE (record_field v path) (\<lambda>input.
     tryE (keys_check input [''ref'', ''locator''] path) (\<lambda>_.
     let hasRef = (input_field input ''ref'' \<noteq> VUndef);
         hasLocator = (input_field input ''locator'' \<noteq> VUndef) in
     if hasRef = hasLocator then fail_plan (path @ '' must contain exactly one of ref or locator'')
     else if hasRef then
       tryE (text_field 512 (input_field input ''ref'') (path @ ''.ref'')) (\<lambda>r. Inr (ByRef r))
     else
       tryE (parse_locator (input_field input ''locator'') (path @ ''.locator'')) (\<lambda>l. Inr (ByLocator l))))"

definition step_keys :: "string list" where
  "step_keys = [''id'', ''surfaceId'', ''dependsOn'', ''target'', ''action'', ''preconditions'',
     ''postcondition'', ''timeoutMs'']"

definition parseStep :: "jsv \<Rightarrow> string \<Rightarrow> string + control_step" where
  "parseStep v path =
     tryE (record_field v path) (\<lambda>input.
     tryE (keys_check input step_keys path) (\<lambda>_.
     (case input_field input ''dependsOn'' of
        VArr deps \<Rightarrow>
          (case input_field input ''preconditions'' of
             VArr pres \<Rightarrow>
               tryE (text_field 128 (input_field input ''id'') (path @ ''.id'')) (\<lambda>i.
               tryE (text_field 256 (input_field input ''surfaceId'') (path @ ''.surfaceId'')) (\<lambda>sid.
               tryE (map_indexed (text_field 128) deps (path @ ''.dependsOn'')) (\<lambda>ds.
               tryE (parseTarget (input_field input ''target'') (path @ ''.target'')) (\<lambda>tg.
               tryE (parseAction (input_field input ''action'') (path @ ''.action'')) (\<lambda>ac.
               tryE (map_indexed parsePredicate pres (path @ ''.preconditions'')) (\<lambda>ps.
               tryE (parsePredicate (input_field input ''postcondition'') (path @ ''.postcondition'')) (\<lambda>post.
               tryE (integer_field 1 CONTROL_MAX_DEADLINE_MS (input_field input ''timeoutMs'')
                       (path @ ''.timeoutMs'')) (\<lambda>tm.
               Inr \<lparr>step_id = i, step_surfaceId = sid, dependsOn = ds, step_target = tg,
                    step_action = ac, preconditions = ps, postcondition = post,
                    timeoutMs = tm\<rparr>))))))))
           | _ \<Rightarrow> fail_plan (path @ ''.preconditions must be an array''))
      | _ \<Rightarrow> fail_plan (path @ ''.dependsOn must be an array''))))"

section \<open>Dependencies\<close>

datatype mark = Visiting | Visited

text \<open>
  \<open>visit\<close> and its loop over the dependencies of one step. \<open>None\<close> is running out of fuel, an
  \<open>Inl\<close> the thrown message, and an \<open>Inr\<close> the marks afterwards.
\<close>

function (sequential) visit ::
      "control_step list \<Rightarrow> nat \<Rightarrow> string \<Rightarrow> (string, mark) jsmap \<Rightarrow> (string + (string, mark) jsmap) option"
  and visit_deps ::
      "control_step list \<Rightarrow> nat \<Rightarrow> string \<Rightarrow> string list \<Rightarrow> (string, mark) jsmap
       \<Rightarrow> (string + (string, mark) jsmap) option" where
  "visit ss 0 ident st = None"
| "visit ss (Suc n) ident st =
     (case map_of st ident of
        Some Visiting \<Rightarrow> Some (fail_plan ''steps contain a dependency cycle'')
      | Some Visited \<Rightarrow> Some (Inr st)
      | None \<Rightarrow>
          (case find (\<lambda>c. step_id c = ident) ss of
             None \<Rightarrow> Some (fail_plan (''unknown dependency '' @ ident))
           | Some s \<Rightarrow>
               (case visit_deps ss n ident (dependsOn s) (AList.update ident Visiting st) of
                  Some (Inr st') \<Rightarrow> Some (Inr (AList.update ident Visited st'))
                | r \<Rightarrow> r)))"
| "visit_deps ss n ident [] st = Some (Inr st)"
| "visit_deps ss n ident (d # ds) st =
     (if d = ident \<or> d \<notin> step_id ` set ss
      then Some (fail_plan (''step '' @ ident @ '' depends on unknown step '' @ d))
      else (case visit ss n d st of
              Some (Inr st') \<Rightarrow> visit_deps ss n ident ds st'
            | r \<Rightarrow> r))"
  by pat_completeness auto
termination
  by (relation "measures [\<lambda>x. case x of Inl (ss, n, i, st) \<Rightarrow> n | Inr (ss, n, i, ds, st) \<Rightarrow> n,
                          \<lambda>x. case x of Inl _ \<Rightarrow> 0 | Inr (ss, n, i, ds, st) \<Rightarrow> length ds]")
     auto

fun visit_all :: "control_step list \<Rightarrow> string list \<Rightarrow> (string, mark) jsmap \<Rightarrow> (string + (string, mark) jsmap) option" where
  "visit_all ss [] st = Some (Inr st)"
| "visit_all ss (i # is) st =
     (case visit ss (Suc (length ss)) i st of
        Some (Inr st') \<Rightarrow> visit_all ss is st'
      | r \<Rightarrow> r)"

definition ensureAcyclic :: "control_step list \<Rightarrow> (string + unit) option" where
  "ensureAcyclic ss =
     map_option (\<lambda>r. tryE r (\<lambda>_. Inr ())) (visit_all ss (map step_id ss) [])"

section \<open>The plan\<close>

text \<open>
  Assigning \<open>obj[k] = text\<close> on an object literal: the name \<open>__proto__\<close> is the prototype
  accessor, which ignores a string, so no own property appears.
\<close>

definition assign_text :: "string \<Rightarrow> string \<Rightarrow> (string, string) jsmap \<Rightarrow> (string, string) jsmap" where
  "assign_text k v m = (if k = ''__proto__'' then m else AList.update k v m)"

fun read_expected :: "(string \<times> jsv) list \<Rightarrow> string list \<Rightarrow> (string, string) jsmap
    \<Rightarrow> string + (string, string) jsmap" where
  "read_expected obs [] acc = Inr acc"
| "read_expected obs (sid # sids) acc =
     tryE (text_field 256 (input_field obs sid) (''expectedObservations.'' @ sid)) (\<lambda>t.
     read_expected obs sids (assign_text sid t acc))"

fun check_surfaces :: "string list \<Rightarrow> control_step list \<Rightarrow> string + unit" where
  "check_surfaces sids [] = Inr ()"
| "check_surfaces sids (s # ss) =
     (if step_surfaceId s \<notin> set sids
      then fail_plan (''step '' @ step_id s @ '' references an undeclared surface'')
      else check_surfaces sids ss)"

definition parse_surfaces :: "jsv \<Rightarrow> string + string list" where
  "parse_surfaces v = (case v of
     VArr xs \<Rightarrow>
       if xs = [] then fail_plan ''surfaceIds must contain at least one surface''
       else if length xs > CONTROL_MAX_SURFACES
       then fail_plan (''surfaceIds may contain at most '' @ show_base 10 CONTROL_MAX_SURFACES @ '' surfaces'')
       else tryE (map_indexed (text_field 256) xs ''surfaceIds'') (\<lambda>sids.
         if \<not> distinct sids then fail_plan ''surfaceIds must be unique'' else Inr sids)
   | _ \<Rightarrow> fail_plan ''surfaceIds must contain at least one surface'')"

definition parse_steps :: "jsv \<Rightarrow> string list \<Rightarrow> string + control_step list" where
  "parse_steps v sids = (case v of
     VArr xs \<Rightarrow>
       if xs = [] then fail_plan ''steps must contain at least one step''
       else if length xs > CONTROL_MAX_STEPS
       then fail_plan (''steps may contain at most '' @ show_base 10 CONTROL_MAX_STEPS @ '' steps'')
       else tryE (map_indexed parseStep xs ''steps'') (\<lambda>ss.
         if \<not> distinct (map step_id ss) then fail_plan ''step ids must be unique''
         else tryE (check_surfaces sids ss) (\<lambda>_.
         tryE (case ensureAcyclic ss of Some r \<Rightarrow> r | None \<Rightarrow> fail_plan ''fuel'') (\<lambda>_. Inr ss)))
   | _ \<Rightarrow> fail_plan ''steps must contain at least one step'')"

definition output_kinds :: "(string \<times> bool) list" where
  "output_kinds = [(''delta'', False), (''full'', True)]"

definition mode_values :: "(string \<times> control_mode) list" where
  "mode_values = [(''sharedSemantic'', SharedSemantic), (''isolated'', Isolated)]"

definition plan_keys :: "string list" where
  "plan_keys = [''schemaVersion'', ''requestId'', ''surfaceIds'', ''expectedObservations'', ''mode'',
     ''deadlineMs'', ''maxConcurrency'', ''steps'', ''output'']"

definition parse_output_base :: "(string \<times> jsv) list \<Rightarrow> string + string option" where
  "parse_output_base outp = optional_field (input_field outp ''baseObservationId'')
     (\<lambda>v. text_field 256 v ''output.baseObservationId'')"

definition parseControlPlan :: "jsv \<Rightarrow> string + control_plan" where
  "parseControlPlan v =
     tryE (record_field v ''plan'') (\<lambda>input.
     tryE (keys_check input plan_keys ''plan'') (\<lambda>_.
     if input_field input ''schemaVersion'' \<noteq> VInt CONTROL_SCHEMA_VERSION
     then fail_plan (''schemaVersion must be '' @ show_int CONTROL_SCHEMA_VERSION)
     else
     tryE (parse_surfaces (input_field input ''surfaceIds'')) (\<lambda>sids.
     tryE (record_field (input_field input ''expectedObservations'') ''expectedObservations'') (\<lambda>observations.
     tryE (keys_check observations sids ''expectedObservations'') (\<lambda>_.
     tryE (read_expected observations sids []) (\<lambda>expected.
     tryE (parse_steps (input_field input ''steps'') sids) (\<lambda>ss.
     tryE (record_field (input_field input ''output'') ''output'') (\<lambda>outp.
     tryE (keys_check outp [''kind'', ''baseObservationId'', ''maxOutputTokens''] ''output'') (\<lambda>_.
     tryE (oneOf output_kinds (input_field outp ''kind'') ''output.kind'') (\<lambda>full.
     if \<not> full \<and> input_field outp ''baseObservationId'' = VUndef
     then fail_plan ''output.baseObservationId is required for delta output''
     else
     tryE (text_field 256 (input_field input ''requestId'') ''requestId'') (\<lambda>rid.
     tryE (oneOf mode_values (input_field input ''mode'') ''mode'') (\<lambda>m.
     tryE (integer_field 1 CONTROL_MAX_DEADLINE_MS (input_field input ''deadlineMs'') ''deadlineMs'') (\<lambda>dl.
     tryE (integer_field 1 CONTROL_MAX_CONCURRENCY (input_field input ''maxConcurrency'') ''maxConcurrency'') (\<lambda>mc.
     tryE (parse_output_base outp) (\<lambda>base.
     tryE (integer_field 1 4000 (input_field outp ''maxOutputTokens'') ''output.maxOutputTokens'') (\<lambda>tok.
     Inr \<lparr>requestId = rid, surfaceIds = sids, expectedObservations = expected, plan_mode = m,
          deadlineMs = dl, maxConcurrency = mc, steps = ss,
          plan_output = \<lparr>out_full = full, out_baseObservationId = base, maxOutputTokens = tok\<rparr>\<rparr>))))))))))))))))"

section \<open>What a closed plan promises\<close>

definition valid_text :: "nat \<Rightarrow> string \<Rightarrow> bool" where
  "valid_text n s \<longleftrightarrow> s \<noteq> [] \<and> js_length s \<le> n"

definition valid_opt :: "nat \<Rightarrow> string option \<Rightarrow> bool" where
  "valid_opt n o' \<longleftrightarrow> (case o' of None \<Rightarrow> True | Some s \<Rightarrow> valid_text n s)"

fun valid_action :: "control_action \<Rightarrow> bool" where
  "valid_action (TypeText t c) = (js_length t \<le> 65536)"
| "valid_action (PressKey k) = valid_text 128 k"
| "valid_action (Scroll dx dy) = (is_finite dx \<and> is_finite dy)"
| "valid_action (WaitFor t n) = (valid_opt 4096 t \<and> 1 \<le> n \<and> n \<le> CONTROL_MAX_DEADLINE_MS)"
| "valid_action (SetValue v) = (js_length v \<le> 65536)"
| "valid_action (Select v) = (js_length v \<le> 4096)"
| "valid_action (SetToggleState s) = (s \<noteq> Indeterminate)"
| "valid_action _ = True"

fun valid_predicate :: "control_predicate \<Rightarrow> bool" where
  "valid_predicate (ValueEquals s) = (js_length s \<le> 65536)"
| "valid_predicate (TextPresent sc t) = (sc \<noteq> InNode \<and> valid_text 4096 t)"
| "valid_predicate (ElementAbsent sc r n) = (sc \<noteq> InNode \<and> valid_opt 4096 r \<and> valid_opt 4096 n)"
| "valid_predicate (UrlEquals u) = valid_text 8192 u"
| "valid_predicate _ = True"

fun valid_target :: "control_target \<Rightarrow> bool" where
  "valid_target (ByRef r) = valid_text 512 r"
| "valid_target (ByLocator l) =
     (loc_scope l \<noteq> InNode \<and> valid_text 4096 (loc_role l) \<and> valid_text 4096 (loc_name l)
      \<and> valid_opt 4096 (loc_observedAncestor l))"

definition valid_step :: "control_step \<Rightarrow> bool" where
  "valid_step s \<longleftrightarrow> valid_text 128 (step_id s) \<and> valid_text 256 (step_surfaceId s)
     \<and> list_all (valid_text 128) (dependsOn s) \<and> valid_target (step_target s)
     \<and> valid_action (step_action s) \<and> list_all valid_predicate (preconditions s)
     \<and> valid_predicate (postcondition s) \<and> 1 \<le> timeoutMs s \<and> timeoutMs s \<le> CONTROL_MAX_DEADLINE_MS"

definition deps_of :: "control_step list \<Rightarrow> string \<Rightarrow> string list" where
  "deps_of ss i = (case find (\<lambda>c. step_id c = i) ss of None \<Rightarrow> [] | Some s \<Rightarrow> dependsOn s)"

definition dep_rel :: "control_step list \<Rightarrow> (string \<times> string) set" where
  "dep_rel ss = {(i, d). d \<in> set (deps_of ss i)}"

definition deps_known :: "control_step list \<Rightarrow> bool" where
  "deps_known ss \<longleftrightarrow> (\<forall>i. set (deps_of ss i) \<subseteq> step_id ` set ss)"

section \<open>The dependency search\<close>

lemma find_step: "find (\<lambda>c. step_id c = i) ss = Some s \<Longrightarrow> i \<in> step_id ` set ss"
  by (auto simp: find_Some_iff)

lemma find_step_None: "find (\<lambda>c. step_id c = i) ss = None \<longleftrightarrow> i \<notin> step_id ` set ss"
  by (auto simp: find_None_iff)

lemma visit_Inr_iff:
  "visit ss n i st = Some (Inr st') \<longleftrightarrow>
     (\<exists>m. n = Suc m \<and>
       (map_of st i = Some Visited \<and> st' = st \<or>
        map_of st i = None \<and>
          (\<exists>s st1. find (\<lambda>c. step_id c = i) ss = Some s \<and>
             visit_deps ss m i (dependsOn s) (AList.update i Visiting st) = Some (Inr st1) \<and>
             st' = AList.update i Visited st1)))"
  by (cases n; cases "map_of st i")
     (auto simp: fail_plan_def split: option.splits mark.splits sum.splits)

lemma visit_deps_Cons_Inr_iff:
  "visit_deps ss n i (d # ds) st = Some (Inr st') \<longleftrightarrow>
     d \<noteq> i \<and> d \<in> step_id ` set ss \<and>
     (\<exists>st1. visit ss n d st = Some (Inr st1) \<and> visit_deps ss n i ds st1 = Some (Inr st'))"
  by (auto simp: fail_plan_def split: option.splits sum.splits)

declare visit.simps(2) [simp del] visit_deps.simps(2) [simp del]

text \<open>The successful runs, as a relation: rule induction on it carries the proofs below.\<close>

inductive visits :: "control_step list \<Rightarrow> string \<Rightarrow> (string, mark) jsmap \<Rightarrow> (string, mark) jsmap \<Rightarrow> bool"
  and visits_deps ::
    "control_step list \<Rightarrow> string \<Rightarrow> string list \<Rightarrow> (string, mark) jsmap \<Rightarrow> (string, mark) jsmap \<Rightarrow> bool"
  for ss :: "control_step list" where
  seen: "map_of st i = Some Visited \<Longrightarrow> visits ss i st st"
| enter: "map_of st i = None \<Longrightarrow> find (\<lambda>c. step_id c = i) ss = Some s
    \<Longrightarrow> visits_deps ss i (dependsOn s) (AList.update i Visiting st) st1
    \<Longrightarrow> visits ss i st (AList.update i Visited st1)"
| deps_end: "visits_deps ss i [] st st"
| deps_next: "d \<noteq> i \<Longrightarrow> d \<in> step_id ` set ss \<Longrightarrow> visits ss d st st1 \<Longrightarrow> visits_deps ss i ds st1 st2
    \<Longrightarrow> visits_deps ss i (d # ds) st st2"

lemma visit_visits:
  "visit ss n i st = Some (Inr st') \<Longrightarrow> visits ss i st st'"
  "visit_deps ss n i ds st = Some (Inr st') \<Longrightarrow> visits_deps ss i ds st st'"
proof (induction ss n i st and ss n i ds st arbitrary: st' and st' rule: visit_visit_deps.induct)
  case (2 ss n i st)
  show ?case
  proof (cases "map_of st i = Some Visited")
    case False
    with "2.prems" obtain s st1 where "map_of st i = None"
      and "find (\<lambda>c. step_id c = i) ss = Some s" "st' = AList.update i Visited st1"
      and "visit_deps ss n i (dependsOn s) (AList.update i Visiting st) = Some (Inr st1)"
      by (auto simp: visit_Inr_iff)
    with "2.IH" show ?thesis by (auto intro: visits_visits_deps.intros)
  qed (use "2.prems" in \<open>auto simp: visit_Inr_iff intro: visits_visits_deps.intros\<close>)
next
  case (4 ss n i d ds st)
  then obtain st1 where st1: "d \<noteq> i" "d \<in> step_id ` set ss"
    "visit ss n d st = Some (Inr st1)" "visit_deps ss n i ds st1 = Some (Inr st')"
    by (auto simp: visit_deps_Cons_Inr_iff)
  then show ?case
    using "4.IH"(1) [OF _ st1(3)] "4.IH"(2) [OF _ st1(3) refl st1(4)]
    by (auto intro: visits_visits_deps.intros)
qed (auto intro: visits_visits_deps.intros)

text \<open>Enough fuel: one unit for every step that has no mark yet, and one more.\<close>

definition unmarked :: "control_step list \<Rightarrow> (string, mark) jsmap \<Rightarrow> string set" where
  "unmarked ss st = step_id ` set ss - dom (map_of st)"

lemma visits_domain:
  "visits ss i st st' \<Longrightarrow> dom (map_of st) \<subseteq> dom (map_of st')"
  "visits_deps ss i ds st st' \<Longrightarrow> dom (map_of st) \<subseteq> dom (map_of st')"
  by (induction rule: visits_visits_deps.inducts) (auto simp: subset_iff domIff)

lemma unmarked_mono:
  "dom (map_of st) \<subseteq> dom (map_of st') \<Longrightarrow> card (unmarked ss st') \<le> card (unmarked ss st)"
  by (rule card_mono) (auto simp: unmarked_def)

lemma unmarked_update:
  "map_of st i = None \<Longrightarrow> i \<in> step_id ` set ss
   \<Longrightarrow> card (unmarked ss (AList.update i m st)) < card (unmarked ss st)"
  by (rule psubset_card_mono) (auto simp: unmarked_def)

lemma visit_total:
  "card (unmarked ss st) < n \<Longrightarrow> visit ss n i st \<noteq> None"
  "card (unmarked ss st) < n \<Longrightarrow> visit_deps ss n i ds st \<noteq> None"
proof (induction ss n i st and ss n i ds st rule: visit_visit_deps.induct)
  case (2 ss n i st)
  show ?case
  proof (cases "map_of st i")
    case None
    show ?thesis
    proof (cases "find (\<lambda>c. step_id c = i) ss")
      case (Some s)
      have "card (unmarked ss (AList.update i Visiting st)) < n"
        using unmarked_update [OF None find_step [OF Some], of Visiting] "2.prems" by simp
      from "2.IH" [OF None Some this] None Some show ?thesis
        by (auto simp: visit.simps(2) split: sum.splits)
    qed (simp add: None visit.simps(2))
  qed (simp add: visit.simps(2) split: mark.splits)
next
  case (4 ss n i d ds st)
  show ?case
  proof (cases "d = i \<or> d \<notin> step_id ` set ss")
    case False
    with "4.IH"(1) "4.prems" obtain r where r: "visit ss n d st = Some r" by blast
    show ?thesis
    proof (cases r)
      case (Inr st1)
      have "card (unmarked ss st1) < n"
        using unmarked_mono [OF visits_domain(1) [OF visit_visits(1)]] r Inr "4.prems"
        by (metis le_less_trans)
      from "4.IH"(2) [OF False _ Inr this] r Inr False show ?thesis by (simp add: visit_deps.simps(2))
    qed (use r False in \<open>simp add: visit_deps.simps(2)\<close>)
  qed (auto simp: visit_deps.simps(2))
qed simp_all

text \<open>
  Soundness. The marks never leave a visited step without its dependencies visited, and the
  order in which steps become visited is topological.
\<close>

fun topo :: "control_step list \<Rightarrow> string list \<Rightarrow> bool" where
  "topo ss [] = True"
| "topo ss (x # xs) = (x \<notin> set xs \<and> set (deps_of ss x) \<subseteq> set xs \<and> topo ss xs)"

definition ordered_by :: "control_step list \<Rightarrow> string list \<Rightarrow> (string, mark) jsmap \<Rightarrow> bool" where
  "ordered_by ss xs st \<longleftrightarrow> topo ss xs \<and> set xs = {i. map_of st i = Some Visited}"

lemma visits_order:
  "visits ss i st st' \<Longrightarrow> ordered_by ss xs st \<Longrightarrow>
     (\<exists>ys. ordered_by ss (ys @ xs) st') \<and> map_of st' i = Some Visited
     \<and> (\<forall>j. map_of st j = Some Visiting \<longrightarrow> map_of st' j = Some Visiting)"
  "visits_deps ss i ds st st' \<Longrightarrow> ordered_by ss xs st \<Longrightarrow>
     (\<exists>ys. ordered_by ss (ys @ xs) st') \<and> (\<forall>d \<in> set ds. map_of st' d = Some Visited)
     \<and> (\<forall>j. map_of st j = Some Visiting \<longrightarrow> map_of st' j = Some Visiting)"
proof (induction arbitrary: xs and xs rule: visits_visits_deps.inducts)
  case (seen st i)
  then show ?case by (auto intro: exI [of _ "[]"])
next
  case (enter st i s st1)
  from enter.hyps(1) enter.prems have "ordered_by ss xs (AList.update i Visiting st)"
    by (auto simp: ordered_by_def)
  from enter.IH(3) [OF this] obtain ys where ys: "ordered_by ss (ys @ xs) st1"
    and deps: "\<forall>d \<in> set (dependsOn s). map_of st1 d = Some Visited"
    and keep: "map_of st1 i = Some Visiting"
      "\<forall>j. j \<noteq> i \<longrightarrow> map_of st j = Some Visiting \<longrightarrow> map_of st1 j = Some Visiting"
    by auto
  have "ordered_by ss ((i # ys) @ xs) (AList.update i Visited st1)"
    using ys deps keep(1) enter.IH(1) by (auto simp: ordered_by_def deps_of_def)
  moreover have "j \<noteq> i" if "map_of st j = Some Visiting" for j
    using that enter.hyps(1) by auto
  ultimately show ?case using keep by (metis fun_upd_apply map_of_update_eq)
next
  case (deps_end i st)
  then show ?case by (auto intro: exI [of _ "[]"])
next
  case (deps_next d i st st1 ds st2)
  from deps_next.IH(3) [OF deps_next.prems] obtain ys where ys: "ordered_by ss (ys @ xs) st1"
    and d: "map_of st1 d = Some Visited"
    and keep: "\<forall>j. map_of st j = Some Visiting \<longrightarrow> map_of st1 j = Some Visiting" by blast
  from deps_next.IH(5) [OF ys] obtain zs where zs: "ordered_by ss (zs @ ys @ xs) st2"
    and rest: "\<forall>e \<in> set ds. map_of st2 e = Some Visited"
      "\<forall>j. map_of st1 j = Some Visiting \<longrightarrow> map_of st2 j = Some Visiting" by blast
  have "d \<in> set (ys @ xs)" using ys d by (simp only: ordered_by_def) simp
  then have "d \<in> set (zs @ ys @ xs)" by auto
  then have "map_of st2 d = Some Visited" using zs by (simp only: ordered_by_def) simp
  with zs rest keep show ?case by (auto intro: exI [of _ "zs @ ys"])
qed

lemma visit_all_order:
  "visit_all ss is st = Some (Inr st') \<Longrightarrow> ordered_by ss xs st \<Longrightarrow>
     \<exists>ys. ordered_by ss ys st' \<and> set is \<union> set xs \<subseteq> set ys"
proof (induction "is" arbitrary: st xs)
  case (Cons i "is")
  from Cons.prems(1) obtain st1 where st1: "visit ss (Suc (length ss)) i st = Some (Inr st1)"
    "visit_all ss is st1 = Some (Inr st')"
    by (auto split: option.splits sum.splits)
  from visits_order(1) [OF visit_visits(1) [OF st1(1)] Cons.prems(2)]
  obtain ys where ys: "ordered_by ss (ys @ xs) st1" and "map_of st1 i = Some Visited" by blast
  then have "i \<in> set (ys @ xs)" by (simp only: ordered_by_def) simp
  with Cons.IH [OF st1(2) ys] show ?case by auto
qed auto

lemma topo_deps_closed: "topo ss xs \<Longrightarrow> i \<in> set xs \<Longrightarrow> set (deps_of ss i) \<subseteq> set xs"
  by (induction xs) auto

fun position :: "string list \<Rightarrow> string \<Rightarrow> nat" where
  "position [] i = 0"
| "position (x # xs) i = (if x = i then Suc (length xs) else position xs i)"

lemma position_le: "position xs i \<le> length xs"
  by (induction xs) auto

lemma topo_position:
  "topo ss xs \<Longrightarrow> i \<in> set xs \<Longrightarrow> d \<in> set (deps_of ss i) \<Longrightarrow> position xs d < position xs i"
proof (induction xs)
  case (Cons x xs)
  show ?case
  proof (cases "i = x")
    case True
    with Cons.prems have "x \<noteq> d" by auto
    with True show ?thesis using position_le [of xs d] by simp
  next
    case False
    with Cons.prems have "i \<in> set xs" "topo ss xs" by auto
    with topo_deps_closed Cons.prems have "d \<noteq> x" by fastforce
    with False Cons \<open>i \<in> set xs\<close> show ?thesis by simp
  qed
qed simp

lemma deps_of_known: "d \<in> set (deps_of ss i) \<Longrightarrow> i \<in> step_id ` set ss"
  by (cases "find (\<lambda>c. step_id c = i) ss") (auto simp: deps_of_def dest: find_step)

lemma topo_acyclic:
  assumes "topo ss xs" and "step_id ` set ss \<subseteq> set xs"
  shows "acyclic (dep_rel ss)"
proof -
  have "(dep_rel ss)\<inverse> \<subseteq> measure (position xs)"
    using topo_position [OF assms(1)] assms(2) deps_of_known by (force simp: dep_rel_def)
  then have "wf ((dep_rel ss)\<inverse>)" by (rule wf_subset [OF wf_measure])
  then show ?thesis using wf_acyclic by force
qed

text \<open>
  Completeness: with known dependencies and no cycle the search throws nothing. A step being
  visited leads to the step under visit along the relation.
\<close>

definition leads_to :: "control_step list \<Rightarrow> (string, mark) jsmap \<Rightarrow> string \<Rightarrow> bool" where
  "leads_to ss st i \<longleftrightarrow> (\<forall>j. map_of st j = Some Visiting \<longrightarrow> (j, i) \<in> (dep_rel ss)\<^sup>+)"

lemma visits_visiting:
  "visits ss i st st' \<Longrightarrow> map_of st' j = Some Visiting \<Longrightarrow> map_of st j = Some Visiting"
  "visits_deps ss i ds st st' \<Longrightarrow> map_of st' j = Some Visiting \<Longrightarrow> map_of st j = Some Visiting"
  by (induction rule: visits_visits_deps.inducts) (auto split: if_splits)

lemma visit_accepts:
  assumes "acyclic (dep_rel ss)" and "deps_known ss"
  shows "leads_to ss st i \<Longrightarrow> i \<in> step_id ` set ss \<Longrightarrow> visit ss n i st = Some r \<Longrightarrow> \<not> isl r"
    and "(\<And>j. map_of st j = Some Visiting \<Longrightarrow> (j, i) \<in> (dep_rel ss)\<^sup>*) \<Longrightarrow> set ds \<subseteq> set (deps_of ss i)
      \<Longrightarrow> visit_deps ss n i ds st = Some r \<Longrightarrow> \<not> isl r"
  using assms
proof (induction ss n i st and ss n i ds st arbitrary: r and r rule: visit_visit_deps.induct)
  case (2 ss n i st)
  note lead = "2.prems"(1) and ac = "2.prems"(4) and known = "2.prems"(5)
  obtain s where s: "find (\<lambda>c. step_id c = i) ss = Some s"
    using "2.prems"(2) find_step_None by fastforce
  show ?case
  proof (cases "map_of st i")
    case None
    have "(j, i) \<in> (dep_rel ss)\<^sup>*" if "map_of (AList.update i Visiting st) j = Some Visiting" for j
      using that lead by (auto simp: leads_to_def split: if_splits)
    moreover have "set (dependsOn s) \<subseteq> set (deps_of ss i)" by (simp add: deps_of_def s)
    ultimately show ?thesis using "2.IH" [OF None s] "2.prems"(3) ac known None s
      by (auto simp: visit.simps(2) split: option.splits sum.splits)
  next
    case (Some m)
    have "m \<noteq> Visiting"
    proof
      assume "m = Visiting"
      with Some lead have "(i, i) \<in> (dep_rel ss)\<^sup>+" by (simp add: leads_to_def)
      with ac show False by (simp add: acyclic_def)
    qed
    with Some "2.prems"(3) show ?thesis by (cases m) (auto simp: visit.simps(2))
  qed
next
  case (4 ss n i d ds st)
  note lead = "4.prems"(1) and run = "4.prems"(3) and ac = "4.prems"(4) and known = "4.prems"(5)
  have rel: "(i, d) \<in> dep_rel ss" using "4.prems"(2) by (simp add: dep_rel_def)
  then have ok: "\<not> (d = i \<or> d \<notin> step_id ` set ss)"
    using ac known by (auto simp: acyclic_def deps_known_def dep_rel_def)
  have leads: "leads_to ss st d"
    using lead rel by (auto simp: leads_to_def intro: rtrancl_into_trancl1)
  have d: "d \<in> step_id ` set ss" using ok by blast
  from run ok obtain r1 where r1: "visit ss n d st = Some r1"
    by (auto simp: visit_deps.simps(2) split: option.splits)
  from "4.IH"(1) [OF ok leads d r1 ac known] obtain st1 where st1: "r1 = Inr st1" by (cases r1) auto
  with r1 run ok have "visit_deps ss n i ds st1 = Some r" by (auto simp: visit_deps.simps(2))
  moreover have "(j, i) \<in> (dep_rel ss)\<^sup>*" if "map_of st1 j = Some Visiting" for j
    using visits_visiting(1) [OF visit_visits(1)] r1 st1 that lead by blast
  ultimately show ?case using "4.IH"(2) [OF ok r1 st1] "4.prems"(2) ac known by auto
qed auto

lemma visit_all_total: "visit_all ss is st \<noteq> None"
proof (induction "is" arbitrary: st)
  case (Cons i "is")
  have "card (unmarked ss st) \<le> length ss"
    by (rule order_trans [OF card_mono [of "step_id ` set ss"]])
       (auto simp: unmarked_def intro: order_trans [OF card_image_le] card_length)
  then have "visit ss (Suc (length ss)) i st \<noteq> None" by (intro visit_total) simp
  with Cons.IH show ?case by (auto split: sum.splits)
qed simp

lemma ensureAcyclic_total: "ensureAcyclic ss \<noteq> None"
  by (simp add: ensureAcyclic_def visit_all_total)

lemma visit_all_accepts:
  assumes ac: "acyclic (dep_rel ss)" and known: "deps_known ss"
  shows "set is \<subseteq> step_id ` set ss \<Longrightarrow> (\<And>j. map_of st j \<noteq> Some Visiting)
    \<Longrightarrow> visit_all ss is st = Some r \<Longrightarrow> \<not> isl r"
proof (induction "is" arbitrary: st)
  case (Cons i "is")
  from Cons.prems(3) obtain r1 where r1: "visit ss (Suc (length ss)) i st = Some r1"
    by (auto split: option.splits)
  have "leads_to ss st i" using Cons.prems(2) by (simp add: leads_to_def)
  with visit_accepts(1) [OF ac known _ _ r1] Cons.prems(1) obtain st1 where st1: "r1 = Inr st1"
    by (cases r1) auto
  have "map_of st1 j \<noteq> Some Visiting" for j
    using visits_visiting(1) [OF visit_visits(1)] r1 st1 Cons.prems(2) by blast
  with Cons.IH [of st1] Cons.prems(1,3) r1 st1 show ?case by simp
qed auto

lemma visits_known:
  "visits ss i st st' \<Longrightarrow> dom (map_of st') \<subseteq> dom (map_of st) \<union> step_id ` set ss"
  "visits_deps ss i ds st st' \<Longrightarrow> dom (map_of st') \<subseteq> dom (map_of st) \<union> step_id ` set ss"
proof (induction rule: visits_visits_deps.inducts)
  case (enter st i s st1)
  have "i \<in> step_id ` set ss" using enter.IH(1) by (rule find_step)
  with enter.IH(3) show ?case by (auto simp: subset_iff domIff split: if_splits)
qed blast+

lemma visit_all_known:
  "visit_all ss is st = Some (Inr st') \<Longrightarrow> dom (map_of st') \<subseteq> dom (map_of st) \<union> step_id ` set ss"
proof (induction "is" arbitrary: st)
  case (Cons i "is")
  then obtain st1 where st1: "visit ss (Suc (length ss)) i st = Some (Inr st1)"
    "visit_all ss is st1 = Some (Inr st')"
    by (auto split: option.splits sum.splits)
  from visits_known(1) [OF visit_visits(1) [OF st1(1)]] Cons.IH [OF st1(2)] show ?case by blast
qed auto

lemma ensureAcyclic_order:
  assumes "ensureAcyclic ss = Some (Inr ())"
  shows "\<exists>ys. topo ss ys \<and> set ys = step_id ` set ss"
proof -
  from assms obtain st where st: "visit_all ss (map step_id ss) [] = Some (Inr st)"
    by (auto simp: ensureAcyclic_def tryE_Inr_iff)
  have "ordered_by ss [] []" by (simp add: ordered_by_def)
  from visit_all_order [OF st this] obtain ys where ys: "topo ss ys" "step_id ` set ss \<subseteq> set ys"
    and marked: "set ys \<subseteq> dom (map_of st)"
    by (auto simp: ordered_by_def)
  then have "set ys \<subseteq> step_id ` set ss" using visit_all_known [OF st] by auto
  with ys show ?thesis by blast
qed

lemma acyclic_check:
  "ensureAcyclic ss = Some (Inr ()) \<longleftrightarrow> deps_known ss \<and> acyclic (dep_rel ss)"
proof
  assume "ensureAcyclic ss = Some (Inr ())"
  then obtain ys where ys: "topo ss ys" "set ys = step_id ` set ss" using ensureAcyclic_order by blast
  then have "deps_known ss"
    unfolding deps_known_def using topo_deps_closed [OF ys(1)] deps_of_known by blast
  with ys show "deps_known ss \<and> acyclic (dep_rel ss)" by (simp add: topo_acyclic)
next
  assume "deps_known ss \<and> acyclic (dep_rel ss)"
  moreover obtain r where r: "visit_all ss (map step_id ss) [] = Some r"
    using visit_all_total by fast
  ultimately have "\<not> isl r" using visit_all_accepts [of ss "map step_id ss" "[]" r] by auto
  with r show "ensureAcyclic ss = Some (Inr ())" by (cases r) (auto simp: ensureAcyclic_def)
qed

section \<open>Accepted plans are valid plans\<close>

lemma fail_plan_iff [simp]: "fail_plan m = Inr x \<longleftrightarrow> False" "isl (fail_plan m)"
  by (simp_all add: fail_plan_def)

lemma tryE_fail [simp]: "tryE (fail_plan m) f = fail_plan m"
  by (simp add: fail_plan_def)

lemma record_field_Inr [simp]: "record_field v path = Inr ms \<longleftrightarrow> v = VObj ms"
  by (cases v) auto

lemma keys_check_Inr: "keys_check ms allowed path = Inr u \<longleftrightarrow> set (jkeys ms) \<subseteq> set allowed"
  by (induction ms) (auto split: if_splits)

lemma text_field_Inr: "text_field n v path = Inr s \<longleftrightarrow> v = VStr s \<and> valid_text n s"
  by (cases v) (auto simp: valid_text_def)

lemma stringValue_Inr: "stringValue n v path = Inr s \<longleftrightarrow> v = VStr s \<and> js_length s \<le> n"
  by (cases v) auto

lemma boolean_field_Inr: "boolean_field v path = Inr b \<longleftrightarrow> v = VBool b"
  by (cases v) auto

lemma oneOf_Inr: "oneOf vals v path = Inr x \<longleftrightarrow> (\<exists>s. v = VStr s \<and> map_of vals s = Some x)"
  by (cases v) (auto split: option.splits)

lemma optional_field_Inr:
  "optional_field v f = Inr r \<longleftrightarrow> v = VUndef \<and> r = None \<or> v \<noteq> VUndef \<and> (\<exists>x. f v = Inr x \<and> r = Some x)"
  by (auto simp: optional_field_def tryE_Inr_iff)

lemma show_base_not_minus: "show_base 10 n \<noteq> CHR ''-'' # r"
  using minus_notin_show_base [of n] by (metis list.set_intros(1))

lemma read_int_show_int [simp]: "read_int (show_int i) = Some i"
proof (cases "i < 0")
  case True
  then have "show_int i = CHR ''-'' # show_base 10 (nat (- i))" by (simp add: show_int_def)
  with True show ?thesis by (simp add: read_int_def read_base_show_base show_int_def)
next
  case False
  then have "show_int i = show_base 10 (nat i)" by (simp add: show_int_def)
  moreover have "(case t of CHR ''-'' # r \<Rightarrow> a r | _ \<Rightarrow> b) = b" if "\<forall>r. t \<noteq> CHR ''-'' # r" for t and a :: "string \<Rightarrow> int option" and b
    using that by (auto split: list.splits char.splits bool.splits)
  ultimately show ?thesis using False by (simp add: read_int_def read_base_show_base show_base_not_minus)
qed

lemma read_int_Some: "read_int t = Some i \<Longrightarrow> t = show_int i"
  by (auto simp: read_int_def split: list.splits char.splits bool.splits if_splits)

lemma integer_field_Inr:
  "integer_field lo hi v path = Inr i \<longleftrightarrow> v = VInt i \<and> lo \<le> i \<and> i \<le> hi"
  by (cases v) (auto simp: integer_field_def split: option.splits dest: read_int_Some)

lemma array_case_Inr:
  "(case v of VArr xs \<Rightarrow> f xs | _ \<Rightarrow> fail_plan m) = Inr y \<longleftrightarrow> (\<exists>xs. v = VArr xs \<and> f xs = Inr y)"
  by (cases v) auto

lemma string_case_Inr:
  "(case v of VStr s \<Rightarrow> f s | _ \<Rightarrow> fail_plan m) = Inr y \<longleftrightarrow> (\<exists>s. v = VStr s \<and> f s = Inr y)"
  by (cases v) auto

lemmas field_Inr = array_case_Inr string_case_Inr record_field_Inr keys_check_Inr text_field_Inr stringValue_Inr boolean_field_Inr
  oneOf_Inr optional_field_Inr integer_field_Inr tryE_Inr_iff

lemma map_indexed_Inr:
  assumes "map_indexed f xs path = Inr ys"
  shows "length ys = length xs" and "y \<in> set ys \<Longrightarrow> \<exists>x \<in> set xs. \<exists>p. f x p = Inr y"
proof -
  from assms have l: "list_all2 (\<lambda>(i, x) y. f x (path @ ''.'' @ show_base 10 i) = Inr y) (List.enumerate 0 xs) ys"
    by (simp add: map_indexed_def mapE_Inr_iff case_prod_beta')
  from list_all2_lengthD [OF l] show "length ys = length xs" by simp
  assume "y \<in> set ys"
  then obtain k where k: "k < length ys" "y = ys ! k" by (auto simp: in_set_conv_nth)
  with list_all2_nthD2 [OF l k(1)] list_all2_lengthD [OF l] show "\<exists>x \<in> set xs. \<exists>p. f x p = Inr y"
    by (auto simp: nth_enumerate_eq intro!: bexI [of _ "xs ! k"])
qed

lemma map_indexed_all:
  assumes "map_indexed f xs path = Inr ys" and "\<And>x p y. f x p = Inr y \<Longrightarrow> P y"
  shows "list_all P ys"
  using map_indexed_Inr(2) [OF assms(1)] assms(2) by (auto simp: list_all_iff)

lemma map_indexed_map:
  assumes "\<And>x p. x \<in> set xs \<Longrightarrow> f (g x) p = Inr (h x)"
  shows "map_indexed f (map g xs) path = Inr (map h xs)"
  unfolding map_indexed_def mapE_Inr_iff
  by (rule list_all2_all_nthI) (auto simp: nth_enumerate_eq assms)

lemma parseAction_valid: "parseAction v path = Inr a \<Longrightarrow> valid_action a"
  by (auto simp: parseAction_def parse_action_op_def field_Inr valid_opt_def
      split: jsv.splits if_splits)

lemma scope_values_Some: "map_of scope_values s = Some sc \<Longrightarrow> sc \<noteq> InNode"
  by (auto simp: scope_values_def split: if_splits)

lemma parsePredicate_valid: "parsePredicate v path = Inr p \<Longrightarrow> valid_predicate p"
proof -
  assume "parsePredicate v path = Inr p"
  then obtain k ms where "parse_predicate_kind k ms path = Inr p" by (auto simp: parsePredicate_def field_Inr)
  then show ?thesis
    by (cases k) (auto simp: field_Inr valid_opt_def dest: scope_values_Some)
qed

lemma parseTarget_valid: "parseTarget v path = Inr t \<Longrightarrow> valid_target t"
  by (auto simp: parseTarget_def parse_locator_def field_Inr valid_opt_def Let_def
      split: if_splits dest: scope_values_Some)

lemma parseStep_valid: "parseStep v path = Inr s \<Longrightarrow> valid_step s"
  by (auto simp: parseStep_def field_Inr valid_step_def parseTarget_valid parseAction_valid
      parsePredicate_valid text_field_Inr elim!: map_indexed_all)

definition valid_steps :: "control_step list \<Rightarrow> string list \<Rightarrow> bool" where
  "valid_steps ss sids \<longleftrightarrow> 1 \<le> length ss \<and> length ss \<le> CONTROL_MAX_STEPS \<and> list_all valid_step ss
     \<and> distinct (map step_id ss) \<and> step_surfaceId ` set ss \<subseteq> set sids
     \<and> deps_known ss \<and> acyclic (dep_rel ss)"

definition valid_surfaces :: "string list \<Rightarrow> bool" where
  "valid_surfaces sids \<longleftrightarrow> 1 \<le> length sids \<and> length sids \<le> CONTROL_MAX_SURFACES
     \<and> list_all (valid_text 256) sids \<and> distinct sids"

definition valid_expected :: "(string, string) jsmap \<Rightarrow> string list \<Rightarrow> bool" where
  "valid_expected m sids \<longleftrightarrow> jkeys m = filter (\<lambda>s. s \<noteq> ''__proto__'') sids \<and> list_all (valid_text 256) (jvals m)"

definition valid_output :: "control_plan_output \<Rightarrow> bool" where
  "valid_output o' \<longleftrightarrow> 1 \<le> maxOutputTokens o' \<and> maxOutputTokens o' \<le> 4000
     \<and> valid_opt 256 (out_baseObservationId o') \<and> (out_full o' \<or> out_baseObservationId o' \<noteq> None)"

definition valid_plan :: "control_plan \<Rightarrow> bool" where
  "valid_plan p \<longleftrightarrow> valid_text 256 (requestId p) \<and> valid_surfaces (surfaceIds p)
     \<and> valid_expected (expectedObservations p) (surfaceIds p)
     \<and> valid_steps (steps p) (surfaceIds p)
     \<and> 1 \<le> deadlineMs p \<and> deadlineMs p \<le> CONTROL_MAX_DEADLINE_MS
     \<and> 1 \<le> maxConcurrency p \<and> maxConcurrency p \<le> CONTROL_MAX_CONCURRENCY
     \<and> valid_output (plan_output p)"

lemma check_surfaces_Inr: "check_surfaces sids ss = Inr u \<longleftrightarrow> step_surfaceId ` set ss \<subseteq> set sids"
  by (induction ss) (auto split: if_splits)

lemma parse_surfaces_valid: "parse_surfaces v = Inr sids \<Longrightarrow> valid_surfaces sids"
  by (auto simp: parse_surfaces_def field_Inr valid_surfaces_def text_field_Inr Suc_le_eq
      dest: map_indexed_Inr(1) elim!: map_indexed_all split: if_splits)

lemma parse_steps_valid: "parse_steps v sids = Inr ss \<Longrightarrow> valid_steps ss sids"
  using acyclic_check [of ss] ensureAcyclic_total [of ss]
  by (auto simp: parse_steps_def field_Inr valid_steps_def parseStep_valid check_surfaces_Inr Suc_le_eq
      dest: map_indexed_Inr(1) elim!: map_indexed_all split: if_splits)

lemma assign_text_keys:
  "k \<notin> set (jkeys m) \<Longrightarrow> assign_text k t m = m @ filter (\<lambda>(k, _). k \<noteq> ''__proto__'') [(k, t)]"
  by (auto simp: assign_text_def update_fresh)

lemma read_expected_valid:
  "read_expected obs sids acc = Inr m \<Longrightarrow> distinct sids \<Longrightarrow> set (jkeys acc) \<inter> set sids = {} \<Longrightarrow>
   list_all (valid_text 256) (jvals acc) \<Longrightarrow>
   jkeys m = jkeys acc @ filter (\<lambda>s. s \<noteq> ''__proto__'') sids \<and> list_all (valid_text 256) (jvals m)"
proof (induction sids arbitrary: acc)
  case (Cons sid sids)
  then obtain t where t: "valid_text 256 t" and run: "read_expected obs sids (assign_text sid t acc) = Inr m"
    by (auto simp: field_Inr)
  have "sid \<notin> set (jkeys acc)" using Cons.prems(3) by auto
  then have a: "assign_text sid t acc = acc @ filter (\<lambda>(k, _). k \<noteq> ''__proto__'') [(sid, t)]"
    by (rule assign_text_keys)
  show ?case using Cons.IH [OF run] Cons.prems t a by (auto split: if_splits)
qed simp

lemma if_fail_Inr: "(if c then fail_plan m else x) = Inr y \<longleftrightarrow> \<not> c \<and> x = Inr y"
  by simp

lemma parse_plan_valid: "parseControlPlan v = Inr p \<Longrightarrow> valid_plan p"
proof -
  assume "parseControlPlan v = Inr p"
  then obtain obs sids expected ss full base tok rid m dl mc outp input where
      parts: "parse_surfaces (input_field input ''surfaceIds'') = Inr sids"
      "read_expected obs sids [] = Inr expected"
      "parse_steps (input_field input ''steps'') sids = Inr ss"
      "text_field 256 (input_field input ''requestId'') ''requestId'' = Inr rid"
      "integer_field 1 CONTROL_MAX_DEADLINE_MS (input_field input ''deadlineMs'') ''deadlineMs'' = Inr dl"
      "integer_field 1 CONTROL_MAX_CONCURRENCY (input_field input ''maxConcurrency'') ''maxConcurrency'' = Inr mc"
      "parse_output_base outp = Inr base"
      "integer_field 1 4000 (input_field outp ''maxOutputTokens'') ''output.maxOutputTokens'' = Inr tok"
    and delta: "\<not> full \<longrightarrow> input_field outp ''baseObservationId'' \<noteq> VUndef"
    and p: "p = \<lparr>requestId = rid, surfaceIds = sids, expectedObservations = expected, plan_mode = m,
          deadlineMs = dl, maxConcurrency = mc, steps = ss,
          plan_output = \<lparr>out_full = full, out_baseObservationId = base, maxOutputTokens = tok\<rparr>\<rparr>"
    unfolding parseControlPlan_def tryE_Inr_iff if_fail_Inr by auto
  note sv = parse_surfaces_valid [OF parts(1)]
  from sv have "distinct sids" by (simp add: valid_surfaces_def)
  with read_expected_valid [OF parts(2)] have "valid_expected expected sids" by (simp add: valid_expected_def)
  with sv parse_steps_valid [OF parts(3)] parts(4-) delta show ?thesis
    by (auto simp: p valid_plan_def valid_output_def valid_opt_def parse_output_base_def
        text_field_Inr integer_field_Inr optional_field_Inr)
qed

section \<open>Valid plans are accepted, and read back as they are\<close>

text \<open>The JSON form a client sends for a plan.\<close>

fun action_json :: "control_action \<Rightarrow> jsv" where
  "action_json Click = VObj [(''op'', VStr ''click'')]"
| "action_json (TypeText t c) =
     VObj ([(''op'', VStr ''type''), (''text'', VStr t)] @ opt_field ''clear'' VBool c)"
| "action_json (PressKey k) = VObj [(''op'', VStr ''press_key''), (''key'', VStr k)]"
| "action_json (Scroll dx dy) = VObj [(''op'', VStr ''scroll''), (''dx'', VNum dx), (''dy'', VNum dy)]"
| "action_json (WaitFor t n) =
     VObj ([(''op'', VStr ''wait_for'')] @ opt_field ''text'' VStr t @ [(''timeoutMs'', VInt n)])"
| "action_json Invoke = VObj [(''op'', VStr ''invoke'')]"
| "action_json (SetValue v) = VObj [(''op'', VStr ''setValue''), (''value'', VStr v)]"
| "action_json (Select v) = VObj [(''op'', VStr ''select''), (''value'', VStr v)]"
| "action_json (SetToggleState s) =
     VObj [(''op'', VStr ''setToggleState''), (''state'', VStr (toggle_text s))]"

fun predicate_json :: "control_predicate \<Rightarrow> jsv" where
  "predicate_json (EnabledIs b) = VObj [(''kind'', VStr ''enabled''), (''equals'', VBool b)]"
| "predicate_json (ValueEquals s) = VObj [(''kind'', VStr ''valueEquals''), (''value'', VStr s)]"
| "predicate_json (TextPresent sc t) =
     VObj [(''kind'', VStr ''textPresent''), (''scope'', VStr (scope_text sc)), (''text'', VStr t)]"
| "predicate_json (ToggleStateEquals s) =
     VObj [(''kind'', VStr ''toggleStateEquals''), (''state'', VStr (toggle_text s))]"
| "predicate_json (ElementAbsent sc r n) =
     VObj ([(''kind'', VStr ''elementAbsent''), (''scope'', VStr (scope_text sc))]
       @ opt_field ''role'' VStr r @ opt_field ''name'' VStr n)"
| "predicate_json (UrlEquals u) = VObj [(''kind'', VStr ''urlEquals''), (''url'', VStr u)]"

fun target_json :: "control_target \<Rightarrow> jsv" where
  "target_json (ByRef r) = VObj [(''ref'', VStr r)]"
| "target_json (ByLocator l) = VObj [(''locator'', VObj
     ([(''scope'', VStr (scope_text (loc_scope l))), (''role'', VStr (loc_role l)),
       (''name'', VStr (loc_name l)), (''match'', VStr ''exact''), (''requireUnique'', VBool True)]
      @ opt_field ''observedAncestor'' VStr (loc_observedAncestor l)))]"

definition step_json :: "control_step \<Rightarrow> jsv" where
  "step_json s = VObj
     [(''id'', VStr (step_id s)), (''surfaceId'', VStr (step_surfaceId s)),
      (''dependsOn'', VArr (map VStr (dependsOn s))), (''target'', target_json (step_target s)),
      (''action'', action_json (step_action s)),
      (''preconditions'', VArr (map predicate_json (preconditions s))),
      (''postcondition'', predicate_json (postcondition s)), (''timeoutMs'', VInt (timeoutMs s))]"

definition plan_json :: "control_plan \<Rightarrow> jsv" where
  "plan_json p = VObj
     [(''schemaVersion'', VInt CONTROL_SCHEMA_VERSION), (''requestId'', VStr (requestId p)),
      (''surfaceIds'', VArr (map VStr (surfaceIds p))),
      (''expectedObservations'', VObj (map (\<lambda>(k, t). (k, VStr t)) (expectedObservations p))),
      (''mode'', VStr (mode_text (plan_mode p))), (''deadlineMs'', VInt (deadlineMs p)),
      (''maxConcurrency'', VInt (maxConcurrency p)), (''steps'', VArr (map step_json (steps p))),
      (''output'', VObj
         ([(''kind'', VStr (if out_full (plan_output p) then ''full'' else ''delta''))]
          @ opt_field ''baseObservationId'' VStr (out_baseObservationId (plan_output p))
          @ [(''maxOutputTokens'', VInt (maxOutputTokens (plan_output p)))]))]"

lemma text_field_ok: "valid_text n s \<Longrightarrow> text_field n (VStr s) path = Inr s"
  by (simp add: valid_text_def)

lemma integer_field_ok: "lo \<le> i \<Longrightarrow> i \<le> hi \<Longrightarrow> integer_field lo hi (VInt i) path = Inr i"
  by (simp add: integer_field_Inr)

lemma scope_ok: "sc \<noteq> InNode \<Longrightarrow> oneOf scope_values (VStr (scope_text sc)) path = Inr sc"
  by (cases sc) (auto simp: scope_values_def)

lemma toggle_ok: "oneOf toggle_values (VStr (toggle_text t)) path = Inr t"
  by (cases t) (auto simp: toggle_values_def)

lemma toggle_two_ok:
  "t \<noteq> Indeterminate \<Longrightarrow> oneOf [(''off'', Off), (''on'', On)] (VStr (toggle_text t)) path = Inr t"
  by (cases t) auto

lemma oneOf_first: "oneOf ((s, x) # vals) (VStr s) path = Inr x"
  by simp

lemma oneOf_later: "s \<noteq> s' \<Longrightarrow> oneOf ((s', x) # vals) (VStr s) path = oneOf vals (VStr s) path"
  by simp

lemmas field_ok = text_field_ok integer_field_ok scope_ok toggle_ok toggle_two_ok valid_opt_def
  optional_field_def input_field_def

declare text_field.simps(1) [simp del] oneOf.simps(1) [simp del]

lemma parseAction_json: "valid_action a \<Longrightarrow> parseAction (action_json a) path = Inr a"
  by (induction a) (auto simp: parseAction_def parse_action_op_def field_ok split: option.splits)

lemma parsePredicate_json: "valid_predicate p \<Longrightarrow> parsePredicate (predicate_json p) path = Inr p"
  by (induction p)
     (auto simp: parsePredicate_def predicate_kinds_def oneOf_first oneOf_later field_ok split: option.splits)

lemma parseTarget_json: "valid_target t \<Longrightarrow> parseTarget (target_json t) path = Inr t"
  by (induction t)
     (auto simp: parseTarget_def parse_locator_def oneOf_first field_ok split: option.splits)

lemma parseStep_json: "valid_step s \<Longrightarrow> parseStep (step_json s) path = Inr s"
  using map_indexed_map [of "dependsOn s" "text_field 128" VStr "\<lambda>x. x"]
    map_indexed_map [of "preconditions s" parsePredicate predicate_json "\<lambda>x. x"]
  by (auto simp: parseStep_def step_json_def step_keys_def field_ok valid_step_def list_all_iff
      parseTarget_json parseAction_json parsePredicate_json)

lemma read_expected_json:
  assumes "jkeys m = sids" "distinct sids" "list_all (valid_text 256) (jvals m)" "''__proto__'' \<notin> set sids"
    and "set (jkeys acc) \<inter> set sids = {}" "set m \<subseteq> set m0" "distinct (jkeys m0)"
  shows "read_expected (map (\<lambda>(k, t). (k, VStr t)) m0) sids acc = Inr (acc @ m)"
  using assms
proof (induction m arbitrary: sids acc)
  case (Cons e m)
  obtain k t where e: "e = (k, t)" by (cases e)
  obtain rest where sids: "sids = k # rest" "jkeys m = rest" using Cons.prems(1) e by auto
  have "map_of m0 k = Some t" using Cons.prems(6,7) e by auto
  then have field: "input_field (map (\<lambda>(k, t). (k, VStr t)) m0) k = VStr t"
    by (simp add: input_field_def map_of_map)
  have acc: "assign_text k t acc = acc @ [(k, t)]"
    using Cons.prems(4,5) sids by (auto simp: assign_text_def update_fresh)
  have "read_expected (map (\<lambda>(k, t). (k, VStr t)) m0) rest (acc @ [(k, t)]) = Inr ((acc @ [(k, t)]) @ m)"
    by (rule Cons.IH) (use Cons.prems sids e in auto)
  with Cons.prems(3) show ?case by (simp add: sids e field acc text_field_ok)
qed simp

lemma parse_surfaces_json: "valid_surfaces sids \<Longrightarrow> parse_surfaces (VArr (map VStr sids)) = Inr sids"
  using map_indexed_map [of sids "text_field 256" VStr "\<lambda>x. x"]
  by (auto simp: parse_surfaces_def valid_surfaces_def text_field_ok list_all_iff)

lemma parse_steps_json: "valid_steps ss sids \<Longrightarrow> parse_steps (VArr (map step_json ss)) sids = Inr ss"
  using map_indexed_map [of ss parseStep step_json "\<lambda>x. x"] acyclic_check [of ss]
    check_surfaces_Inr [of sids ss "()"]
  by (auto simp: parse_steps_def valid_steps_def parseStep_json list_all_iff)

lemma parse_plan_json:
  assumes "valid_plan p" and proto: "''__proto__'' \<notin> set (surfaceIds p)"
  shows "parseControlPlan (plan_json p) = Inr p"
proof -
  define sids where "sids = surfaceIds p"
  define m where "m = expectedObservations p"
  define ex where "ex = map (\<lambda>(k, t). (k, VStr t)) m"
  define outp where "outp = [(''kind'', VStr (if out_full (plan_output p) then ''full'' else ''delta''))]
          @ opt_field ''baseObservationId'' VStr (out_baseObservationId (plan_output p))
          @ [(''maxOutputTokens'', VInt (maxOutputTokens (plan_output p)))]"
  define input where "input = [(''schemaVersion'', VInt CONTROL_SCHEMA_VERSION), (''requestId'', VStr (requestId p)),
      (''surfaceIds'', VArr (map VStr sids)), (''expectedObservations'', VObj ex),
      (''mode'', VStr (mode_text (plan_mode p))), (''deadlineMs'', VInt (deadlineMs p)),
      (''maxConcurrency'', VInt (maxConcurrency p)), (''steps'', VArr (map step_json (steps p))),
      (''output'', VObj outp)]"
  have p: "plan_json p = VObj input"
    by (simp add: plan_json_def input_def ex_def outp_def sids_def m_def)
  have keys_m: "jkeys m = sids"
    using assms by (auto simp: valid_plan_def valid_expected_def m_def sids_def filter_id_conv)
  have keys_ex: "jkeys ex = sids" by (simp add: ex_def keys_m [symmetric] comp_def case_prod_beta')
  have "distinct sids" "list_all (valid_text 256) (jvals m)"
    using assms by (auto simp: valid_plan_def valid_expected_def valid_surfaces_def m_def sids_def)
  then have expected: "read_expected ex sids [] = Inr m"
    using read_expected_json [of m sids "[]" m] keys_m proto by (simp add: ex_def sids_def)
  have input_keys: "keys_check input plan_keys ''plan'' = Inr ()"
    by (simp add: keys_check_Inr input_def plan_keys_def)
  have outp_keys: "keys_check outp [''kind'', ''baseObservationId'', ''maxOutputTokens''] ''output'' = Inr ()"
    by (cases "out_baseObservationId (plan_output p)") (simp_all add: keys_check_Inr outp_def)
  have outp_fields:
    "input_field outp ''kind'' = VStr (if out_full (plan_output p) then ''full'' else ''delta'')"
    "input_field outp ''baseObservationId'' =
       (case out_baseObservationId (plan_output p) of None \<Rightarrow> VUndef | Some b \<Rightarrow> VStr b)"
    "input_field outp ''maxOutputTokens'' = VInt (maxOutputTokens (plan_output p))"
    by (auto simp: outp_def input_field_def split: option.splits)
  have kind: "oneOf output_kinds (VStr (if full then ''full'' else ''delta'')) path = Inr full" for full path
    by (cases full) (simp_all add: output_kinds_def oneOf_first oneOf_later)
  have mode: "oneOf mode_values (VStr (mode_text md)) path = Inr md" for md path
    by (cases md) (simp_all add: mode_values_def oneOf_first oneOf_later)
  have base: "parse_output_base outp = Inr (out_baseObservationId (plan_output p))"
    using assms(1) by (auto simp: parse_output_base_def outp_fields optional_field_def text_field_ok
        valid_plan_def valid_output_def valid_opt_def split: option.splits)
  have fields: "input_field input ''schemaVersion'' = VInt CONTROL_SCHEMA_VERSION"
    "input_field input ''requestId'' = VStr (requestId p)"
    "input_field input ''surfaceIds'' = VArr (map VStr sids)"
    "input_field input ''expectedObservations'' = VObj ex"
    "input_field input ''mode'' = VStr (mode_text (plan_mode p))"
    "input_field input ''deadlineMs'' = VInt (deadlineMs p)"
    "input_field input ''maxConcurrency'' = VInt (maxConcurrency p)"
    "input_field input ''steps'' = VArr (map step_json (steps p))"
    "input_field input ''output'' = VObj outp"
    by (simp_all add: input_def input_field_def)
  have vs: "parse_surfaces (VArr (map VStr sids)) = Inr sids"
    "parse_steps (VArr (map step_json (steps p))) sids = Inr (steps p)"
    using assms(1) by (auto simp: valid_plan_def sids_def parse_surfaces_json parse_steps_json)
  have ex_keys: "keys_check ex sids ''expectedObservations'' = Inr ()"
    by (simp add: keys_check_Inr keys_ex del: set_map)
  show ?thesis
    using assms(1)
    by (simp add: p parseControlPlan_def fields input_keys vs ex_keys expected outp_keys outp_fields kind mode
        base valid_plan_def valid_output_def text_field_ok integer_field_ok)
       (auto simp: sids_def m_def split: option.splits)
qed

section \<open>Properties\<close>

definition demo_step :: "string \<Rightarrow> string list \<Rightarrow> control_step" where
  "demo_step i deps = \<lparr>step_id = i, step_surfaceId = ''s1'', dependsOn = deps,
     step_target = ByRef ''r1'', step_action = WaitFor (Some ''done'') 50,
     preconditions = [EnabledIs True], postcondition = ElementAbsent InSurface None (Some ''x''),
     timeoutMs = 100\<rparr>"

definition demo_plan :: control_plan where
  "demo_plan = \<lparr>requestId = ''rq'', surfaceIds = [''s1''], expectedObservations = [(''s1'', ''ob'')],
     plan_mode = SharedSemantic, deadlineMs = 1000, maxConcurrency = 2,
     steps = [demo_step ''a'' [], demo_step ''b'' [''a'']],
     plan_output = \<lparr>out_full = False, out_baseObservationId = Some ''ob'', maxOutputTokens = 100\<rparr>\<rparr>"

lemma demo_plan_valid: "valid_plan demo_plan"
proof -
  have "ensureAcyclic (steps demo_plan) = Some (Inr ())" by code_simp
  then have "deps_known (steps demo_plan) \<and> acyclic (dep_rel (steps demo_plan))"
    by (simp add: acyclic_check)
  then show ?thesis
    by (simp add: demo_plan_def demo_step_def valid_plan_def valid_surfaces_def valid_expected_def
        valid_steps_def valid_step_def valid_output_def valid_opt_def valid_text_def js_length_def utf16_units_def
        CONTROL_MAX_STEPS_def CONTROL_MAX_SURFACES_def CONTROL_MAX_DEADLINE_MS_def
        CONTROL_MAX_CONCURRENCY_def)
qed

lemma demo_plan_parses: "parseControlPlan (plan_json demo_plan) = Inr demo_plan"
  by (rule parse_plan_json [OF demo_plan_valid]) (simp add: demo_plan_def)

text \<open>C5: Every plan parseControlPlan returns is valid: between 1 and 32 steps with distinct ids on
  declared surfaces, at most 8 distinct surfaces, an expected observation for each of them,
  every text, deadline, timeout and concurrency inside its bound, only supported operations, and
  dependencies that name steps of the plan and have no cycle.\<close>

theorem accepted_plan_valid: "parseControlPlan v = Inr p \<Longrightarrow> valid_plan p"
  by (rule parse_plan_valid)

theorem accepted_plan_valid_witness: "valid_plan demo_plan"
  by (rule accepted_plan_valid [OF demo_plan_parses])



text \<open>The steps of an accepted plan can be run one after the other: some order lists every
  step once, each after all the steps it depends on.\<close>

theorem accepted_plan_has_order:
  "parseControlPlan v = Inr p \<Longrightarrow>
   \<exists>order. topo (steps p) order \<and> set order = step_id ` set (steps p)"
proof -
  assume "parseControlPlan v = Inr p"
  then have "ensureAcyclic (steps p) = Some (Inr ())"
    using parse_plan_valid acyclic_check by (auto simp: valid_plan_def valid_steps_def)
  then show ?thesis by (rule ensureAcyclic_order)
qed

theorem accepted_plan_has_order_witness:
  "\<exists>order. topo (steps demo_plan) order \<and> set order = step_id ` set (steps demo_plan)"
  by (rule accepted_plan_has_order [OF demo_plan_parses])

text \<open>C7: ensureAcyclic, a depth-first search with three marks, always ends, and passes exactly the
  plans whose every dependency names a step and whose dependencies have no cycle
  (a step that depends on itself is one).\<close>

theorem ensureAcyclic_exact:
  "ensureAcyclic ss \<noteq> None \<and>
   (ensureAcyclic ss = Some (Inr ()) \<longleftrightarrow> deps_known ss \<and> acyclic (dep_rel ss))"
  by (simp add: acyclic_check ensureAcyclic_total)

end
