(* ===== verification/Streams.thy ===== *)
theory Streams
  imports Framing ControlParse
begin

text \<open>
  Chunked streams on one socket: packages/ipc/src/stream.ts (the receiving and the sending end),
  packages/ipc/src/stream-table.ts (the live streams of a socket) and
  packages/ipc/src/stream-server.ts (the worker's side of a request with a stream).

  Bytes are \<open>char\<close>s. The ends are objects that outlive their table entry, so a table has them in two
  lists and an entry holds an index. The code runs without interruption between \<open>await\<close>s: a reader
  asks for the next chunk (\<open>take_next\<close> is one turn of the generator), a sender runs its first
  unfinished job until it needs an acknowledgement, a drained socket, or is done. What is written
  to the socket is appended to \<open>wire\<close>; whether a write could be flushed is an argument.
  \<open>Buffer.from(s, 'base64')\<close> is the parameter \<open>decode\<close>; where a lemma needs it, it undoes the
  encoding, which is \<open>b64\<close>.
\<close>

section \<open>Base 64\<close>

definition b64_alphabet :: string where
  "b64_alphabet = ''ABCDEFGHIJKLMNOPQRSTUVWXYZabcdefghijklmnopqrstuvwxyz0123456789+/''"

definition b64_char :: "nat \<Rightarrow> char" where
  "b64_char n = b64_alphabet ! (n mod 64)"

definition b64_quad :: "nat \<Rightarrow> nat \<Rightarrow> string" where
  "b64_quad k n = take k [b64_char (n div 262144), b64_char (n div 4096), b64_char (n div 64), b64_char n] @
     replicate (4 - k) (CHR ''='')"

definition be24 :: "char \<Rightarrow> char \<Rightarrow> char \<Rightarrow> nat" where
  "be24 a b c = (of_char a * 256 + of_char b) * 256 + of_char c"

text \<open>\<open>toString('base64')\<close>\<close>

fun b64 :: "string \<Rightarrow> string" where
  "b64 [] = []"
| "b64 [a] = b64_quad 2 (be24 a (CHR 0x00) (CHR 0x00))"
| "b64 [a, b] = b64_quad 3 (be24 a b (CHR 0x00))"
| "b64 (a # b # c # r) = b64_quad 4 (be24 a b c) @ b64 r"

section \<open>Constants and errors\<close>

definition STREAM_CHUNK_BYTES :: nat where
  "STREAM_CHUNK_BYTES = 512 * 1024"

definition STREAM_WINDOW :: nat where
  "STREAM_WINDOW = 8"

definition MAX_B64_LENGTH :: nat where
  "MAX_B64_LENGTH = ((STREAM_CHUNK_BYTES + 2) div 3) * 4"

type_synonym stream_error = "string \<times> string"

definition stream_error :: "string \<Rightarrow> stream_error" where
  "stream_error code = (code, code)"

text \<open>\<open>None\<close> where the thrown value has no string for a code.\<close>

definition streamErrorCode :: "string option \<Rightarrow> string \<Rightarrow> string" where
  "streamErrorCode code fallback = (case code of None \<Rightarrow> fallback | Some c \<Rightarrow> if c = [] then fallback else c)"

section \<open>The receiving end\<close>

record receiver =
  rx_stream :: string
  rx_cancels :: bool
  rx_queue :: "string list"
  rx_nextSeq :: nat
  rx_taken :: nat
  rx_bytes :: nat
  rx_done :: bool
  rx_error :: "stream_error option"

definition new_receiver :: "string \<Rightarrow> receiver" where
  "new_receiver sid = \<lparr>rx_stream = sid, rx_cancels = True, rx_queue = [], rx_nextSeq = 0, rx_taken = 0,
     rx_bytes = 0, rx_done = False, rx_error = None\<rparr>"

definition push_chunk :: "(string \<Rightarrow> string) \<Rightarrow> jsv \<Rightarrow> jsv \<Rightarrow> receiver \<Rightarrow> stream_error + receiver" where
  "push_chunk decode seq data r =
     (if rx_done r then Inl (''STREAM_PROTOCOL'', ''data after end'')
      else if seq \<noteq> VInt (int (rx_nextSeq r)) then Inl (stream_error ''STREAM_SEQUENCE'')
      else case data of
        VStr d \<Rightarrow>
          if js_length d > MAX_B64_LENGTH then Inl (stream_error ''STREAM_CHUNK_TOO_LARGE'')
          else (let chunk = decode d in
            if length chunk > STREAM_CHUNK_BYTES then Inl (stream_error ''STREAM_CHUNK_TOO_LARGE'')
            else if b64 chunk \<noteq> d then Inl (stream_error ''STREAM_BAD_DATA'')
            else if length (rx_queue r) \<ge> STREAM_WINDOW then Inl (stream_error ''STREAM_WINDOW'')
            else Inr (r\<lparr>rx_nextSeq := Suc (rx_nextSeq r), rx_bytes := rx_bytes r + length chunk,
                        rx_queue := rx_queue r @ [chunk]\<rparr>))
      | _ \<Rightarrow> Inl (stream_error ''STREAM_CHUNK_TOO_LARGE''))"

definition end_chunks :: "jsv \<Rightarrow> receiver \<Rightarrow> stream_error + receiver" where
  "end_chunks bytes r =
     (if rx_done r then Inl (''STREAM_PROTOCOL'', ''duplicate end'')
      else if bytes \<noteq> VInt (int (rx_bytes r)) then Inl (stream_error ''STREAM_LENGTH_MISMATCH'')
      else Inr (r\<lparr>rx_done := True\<rparr>))"

definition fail_receiver :: "stream_error \<Rightarrow> receiver \<Rightarrow> receiver" where
  "fail_receiver e r =
     (if rx_done r \<or> rx_error r \<noteq> None then r else r\<lparr>rx_error := Some e, rx_queue := []\<rparr>)"

text \<open>One turn of the generator: what the reader gets, with the number it acknowledges.\<close>

datatype pull = PullThrow stream_error | PullChunk nat string | PullEnd | PullWait

definition take_next :: "receiver \<Rightarrow> pull \<times> receiver" where
  "take_next r =
     (case rx_error r of
        Some e \<Rightarrow> (PullThrow e, r)
      | None \<Rightarrow>
          (case rx_queue r of
             c # q \<Rightarrow> (PullChunk (rx_taken r) c, r\<lparr>rx_queue := q, rx_taken := Suc (rx_taken r)\<rparr>)
           | [] \<Rightarrow> (if rx_done r then PullEnd else PullWait, r)))"

section \<open>The sending end\<close>

datatype job = JSend string | JEnd

text \<open>What the first job waits for: its turn, an acknowledgement, or the socket.\<close>

datatype send_phase = SIdle | SWindow string | SDrain string

record sender =
  tx_stream :: string
  tx_request :: string
  tx_seq :: nat
  tx_acked :: nat
  tx_bytes :: nat
  tx_opened :: bool
  tx_error :: "stream_error option"
  tx_jobs :: "job list"
  tx_phase :: send_phase
  tx_settled :: "stream_error option list"

type_synonym frame = "(string, jsv) jsmap"

definition new_sender :: "string \<Rightarrow> string \<Rightarrow> sender" where
  "new_sender sid req = \<lparr>tx_stream = sid, tx_request = req, tx_seq = 0, tx_acked = 0, tx_bytes = 0, tx_opened = False,
     tx_error = None, tx_jobs = [], tx_phase = SIdle, tx_settled = []\<rparr>"

definition open_frame :: "string \<Rightarrow> string \<Rightarrow> frame" where
  "open_frame sid req = [(''type'', VStr ''streamOpen''), (''streamId'', VStr sid), (''requestId'', VStr req)]"

definition data_frame :: "string \<Rightarrow> nat \<Rightarrow> string \<Rightarrow> frame" where
  "data_frame sid seq chunk = [(''type'', VStr ''streamData''), (''streamId'', VStr sid), (''seq'', VInt (int seq)),
     (''data'', VStr (b64 chunk))]"

definition end_frame :: "string \<Rightarrow> nat \<Rightarrow> frame" where
  "end_frame sid bytes = [(''type'', VStr ''streamEnd''), (''streamId'', VStr sid), (''bytes'', VInt (int bytes))]"

definition ack_frame :: "string \<Rightarrow> nat \<Rightarrow> frame" where
  "ack_frame sid seq = [(''type'', VStr ''streamAck''), (''streamId'', VStr sid), (''seq'', VInt (int seq))]"

definition abort_frame :: "string \<Rightarrow> string \<Rightarrow> frame" where
  "abort_frame sid code = [(''type'', VStr ''streamAbort''), (''streamId'', VStr sid), (''code'', VStr code)]"

definition enqueue_job :: "job \<Rightarrow> sender \<Rightarrow> sender" where
  "enqueue_job j s = s\<lparr>tx_jobs := tx_jobs s @ [j]\<rparr>"

text \<open>
  \<open>Math.min(seq + 1, this.seq)\<close> for an integer \<open>seq\<close> that is not negative. A number whose text has a
  positive exponent is an integer beyond 10 ^ 20, more than any count of frames.
\<close>

definition acked_up_to :: "string \<Rightarrow> nat \<Rightarrow> nat option" where
  "acked_up_to t n =
     (case read_int t of
        Some i \<Rightarrow> if i < 0 then None else Some (min (Suc (nat i)) n)
      | None \<Rightarrow> if take 1 t \<noteq> ''-'' \<and> drop 1 (dropWhile (\<lambda>c. c \<noteq> CHR ''e'') t) \<noteq> [] \<and>
            hd (drop 1 (dropWhile (\<lambda>c. c \<noteq> CHR ''e'') t)) = CHR ''+'' then Some n else None)"

definition ack_sender :: "jsv \<Rightarrow> sender \<Rightarrow> sender" where
  "ack_sender seq s =
     (case seq of
        VNum t \<Rightarrow> (case acked_up_to t (tx_seq s) of None \<Rightarrow> s | Some n \<Rightarrow> s\<lparr>tx_acked := max (tx_acked s) n\<rparr>)
      | _ \<Rightarrow> s)"

definition fail_sender :: "stream_error \<Rightarrow> sender \<Rightarrow> sender" where
  "fail_sender e s = (case tx_error s of None \<Rightarrow> s\<lparr>tx_error := Some e\<rparr> | Some _ \<Rightarrow> s)"

text \<open>The first job has ended: its promise is settled and the next one has its turn.\<close>

definition job_done :: "stream_error option \<Rightarrow> sender \<Rightarrow> sender" where
  "job_done e s = s\<lparr>tx_jobs := tl (tx_jobs s), tx_phase := SIdle, tx_settled := tx_settled s @ [e]\<rparr>"

text \<open>The loop of \<open>sendNow\<close> from the check of the window, with the frames it writes.\<close>

function send_loop :: "(nat \<Rightarrow> bool) \<Rightarrow> string \<Rightarrow> sender \<Rightarrow> frame list \<times> sender" where
  "send_loop flushed rest s =
     (if rest = [] then ([], job_done None s)
      else if tx_error s = None \<and> tx_seq s - tx_acked s \<ge> STREAM_WINDOW then ([], s\<lparr>tx_phase := SWindow rest\<rparr>)
      else case tx_error s of
        Some e \<Rightarrow> ([], job_done (Some e) s)
      | None \<Rightarrow>
          (let piece = take STREAM_CHUNK_BYTES rest;
               rest' = drop STREAM_CHUNK_BYTES rest;
               frame = data_frame (tx_stream s) (tx_seq s) piece;
               s' = s\<lparr>tx_bytes := tx_bytes s + length piece, tx_seq := Suc (tx_seq s)\<rparr> in
           if \<not> flushed (tx_seq s) then ([frame], s'\<lparr>tx_phase := SDrain rest'\<rparr>)
           else (case send_loop flushed rest' s' of (fs, s'') \<Rightarrow> (frame # fs, s''))))"
  by pat_completeness auto
termination
  by (relation "measure (\<lambda>(flushed, rest, s). length rest)") (auto simp: STREAM_CHUNK_BYTES_def)

declare send_loop.simps [simp del]

definition open_stream :: "sender \<Rightarrow> frame list \<times> sender" where
  "open_stream s =
     (if tx_opened s then ([], s)
      else ([open_frame (tx_stream s) (tx_request s)], s\<lparr>tx_opened := True\<rparr>))"

text \<open>A turn of the sender: the first job starts, or goes on after its \<open>await\<close>.\<close>

definition run_sender :: "(nat \<Rightarrow> bool) \<Rightarrow> sender \<Rightarrow> frame list \<times> sender" where
  "run_sender flushed s =
     (case tx_phase s of
        SWindow rest \<Rightarrow>
          if tx_error s = None \<and> tx_seq s - tx_acked s \<ge> STREAM_WINDOW then ([], s) else send_loop flushed rest s
      | SDrain rest \<Rightarrow>
          (case tx_error s of Some e \<Rightarrow> ([], job_done (Some e) s) | None \<Rightarrow> send_loop flushed rest s)
      | SIdle \<Rightarrow>
          (case tx_jobs s of
             [] \<Rightarrow> ([], s)
           | j # _ \<Rightarrow>
               (case tx_error s of
                  Some e \<Rightarrow> ([], job_done (Some e) s)
                | None \<Rightarrow>
                    (case open_stream s of (opening, s1) \<Rightarrow>
                      (case j of
                         JSend chunk \<Rightarrow> (case send_loop flushed chunk s1 of (fs, s2) \<Rightarrow> (opening @ fs, s2))
                       | JEnd \<Rightarrow> (opening @ [end_frame (tx_stream s1) (tx_bytes s1)], job_done None s1))))))"

section \<open>The streams of a socket\<close>

record stream_entry =
  se_request :: string
  se_receiver :: "nat option"
  se_sender :: "nat option"
  se_opened :: bool
  se_onAbort :: bool

record stream_table =
  live :: "(string, stream_entry) jsmap"
  rxs :: "receiver list"
  txs :: "sender list"
  wire :: "frame list"
  told :: "(string \<times> stream_error) list"

definition new_table :: stream_table where
  "new_table = \<lparr>live = [], rxs = [], txs = [], wire = [], told = []\<rparr>"

abbreviation has_stream :: "stream_table \<Rightarrow> string \<Rightarrow> bool" where
  "has_stream t sid \<equiv> map_of (live t) sid \<noteq> None"

definition write_frame :: "frame \<Rightarrow> stream_table \<Rightarrow> stream_table" where
  "write_frame f t = t\<lparr>wire := wire t @ [f]\<rparr>"

definition table_receiver :: "string \<Rightarrow> string \<Rightarrow> bool \<Rightarrow> stream_table \<Rightarrow> nat \<times> stream_table" where
  "table_receiver sid req notify t =
     (length (rxs t),
      t\<lparr>rxs := rxs t @ [new_receiver sid],
        live := AList.update sid \<lparr>se_request = req, se_receiver = Some (length (rxs t)), se_sender = None,
          se_opened = False, se_onAbort = notify\<rparr> (live t)\<rparr>)"

definition table_sender :: "string \<Rightarrow> string \<Rightarrow> bool \<Rightarrow> stream_table \<Rightarrow> nat \<times> stream_table" where
  "table_sender sid req notify t =
     (length (txs t),
      t\<lparr>txs := txs t @ [new_sender sid req],
        live := AList.update sid \<lparr>se_request = req, se_receiver = None, se_sender = Some (length (txs t)),
          se_opened = False, se_onAbort = notify\<rparr> (live t)\<rparr>)"

definition table_close :: "string \<Rightarrow> stream_table \<Rightarrow> stream_table" where
  "table_close sid t = t\<lparr>live := AList.delete sid (live t)\<rparr>"

definition fail_ends :: "stream_error \<Rightarrow> stream_entry \<Rightarrow> stream_table \<Rightarrow> stream_table" where
  "fail_ends e en t =
     t\<lparr>rxs := (case se_receiver en of None \<Rightarrow> rxs t | Some i \<Rightarrow> (rxs t)[i := fail_receiver e (rxs t ! i)]),
       txs := (case se_sender en of None \<Rightarrow> txs t | Some i \<Rightarrow> (txs t)[i := fail_sender e (txs t ! i)])\<rparr>"

definition table_abort :: "string \<Rightarrow> string \<Rightarrow> bool \<Rightarrow> stream_table \<Rightarrow> stream_table" where
  "table_abort sid code notifyPeer t =
     (case map_of (live t) sid of
        None \<Rightarrow> t
      | Some en \<Rightarrow>
          (let t1 = table_close sid t;
               t2 = (if notifyPeer then write_frame (abort_frame sid code) t1 else t1);
               t3 = fail_ends (stream_error code) en t2 in
           if se_onAbort en then t3\<lparr>told := told t3 @ [(sid, stream_error code)]\<rparr> else t3))"

definition table_abortAll :: "string \<Rightarrow> stream_table \<Rightarrow> stream_table" where
  "table_abortAll code t = fold (\<lambda>sid. table_abort sid code False) (jkeys (live t)) t"

text \<open>A frame for a stream that has a receiver.\<close>

definition receive_frame ::
    "(string \<Rightarrow> string) \<Rightarrow> frame \<Rightarrow> string \<Rightarrow> bool \<Rightarrow> receiver \<Rightarrow> stream_error + bool \<times> receiver" where
  "receive_frame decode f req opened r =
     (if field_of (VObj f) ''type'' = VStr ''streamOpen'' then
        (if opened \<or> field_of (VObj f) ''requestId'' \<noteq> VStr req then Inl (''STREAM_PROTOCOL'', ''bad open'')
         else Inr (True, r))
      else if field_of (VObj f) ''type'' = VStr ''streamData'' then
        (if \<not> opened then Inl (''STREAM_PROTOCOL'', ''data before open'')
         else map_sum id (Pair opened) (push_chunk decode (field_of (VObj f) ''seq'') (field_of (VObj f) ''data'') r))
      else if field_of (VObj f) ''type'' = VStr ''streamEnd'' then
        (if \<not> opened then Inl (''STREAM_PROTOCOL'', ''end before open'')
         else map_sum id (Pair opened) (end_chunks (field_of (VObj f) ''bytes'') r))
      else Inr (opened, r))"

definition table_handle :: "(string \<Rightarrow> string) \<Rightarrow> frame \<Rightarrow> stream_table \<Rightarrow> stream_table" where
  "table_handle decode f t =
     (case field_of (VObj f) ''streamId'' of
        VStr sid \<Rightarrow>
          (let ty = field_of (VObj f) ''type'' in
           case map_of (live t) sid of
             None \<Rightarrow>
               if ty = VStr ''streamOpen'' \<or> ty = VStr ''streamData'' \<or> ty = VStr ''streamEnd''
               then write_frame (abort_frame sid ''STREAM_UNKNOWN'') t else t
           | Some en \<Rightarrow>
               if ty = VStr ''streamAbort'' then
                 table_abort sid (case field_of (VObj f) ''code'' of VStr c \<Rightarrow> c | _ \<Rightarrow> ''STREAM_ABORTED'') False t
               else if ty = VStr ''streamAck'' then
                 (case se_sender en of
                    None \<Rightarrow> t
                  | Some i \<Rightarrow> t\<lparr>txs := (txs t)[i := ack_sender (field_of (VObj f) ''seq'') (txs t ! i)]\<rparr>)
               else
                 (case se_receiver en of
                    None \<Rightarrow> table_abort sid ''STREAM_PROTOCOL'' True t
                  | Some i \<Rightarrow>
                      (case receive_frame decode f (se_request en) (se_opened en) (rxs t ! i) of
                         Inl e \<Rightarrow> table_abort sid (fst e) True t
                       | Inr (opened, r) \<Rightarrow>
                           t\<lparr>live := AList.update sid (en\<lparr>se_opened := opened\<rparr>) (live t),
                             rxs := (rxs t)[i := r]\<rparr>)))
      | _ \<Rightarrow> t)"

text \<open>A reader of a receiver takes the next chunk, or leaves its loop early.\<close>

definition table_next :: "nat \<Rightarrow> stream_table \<Rightarrow> pull \<times> stream_table" where
  "table_next i t =
     (case take_next (rxs t ! i) of
        (p, r) \<Rightarrow>
          (let t' = t\<lparr>rxs := (rxs t)[i := r]\<rparr> in
           (p, case p of PullChunk n _ \<Rightarrow> write_frame (ack_frame (rx_stream r) n) t' | _ \<Rightarrow> t')))"

definition table_leave :: "nat \<Rightarrow> stream_table \<Rightarrow> stream_table" where
  "table_leave i t =
     (let r = rxs t ! i in
      if \<not> rx_done r \<and> rx_error r = None \<and> rx_cancels r then table_abort (rx_stream r) ''STREAM_CANCELLED'' True t else t)"

definition table_run :: "(nat \<Rightarrow> bool) \<Rightarrow> nat \<Rightarrow> stream_table \<Rightarrow> stream_table" where
  "table_run flushed i t =
     (case run_sender flushed (txs t ! i) of
        (fs, s) \<Rightarrow> t\<lparr>txs := (txs t)[i := s], wire := wire t @ fs\<rparr>)"

definition table_send :: "nat \<Rightarrow> job \<Rightarrow> stream_table \<Rightarrow> stream_table" where
  "table_send i j t = t\<lparr>txs := (txs t)[i := enqueue_job j (txs t ! i)]\<rparr>"


section \<open>The worker's side of a request\<close>

record server_stream =
  ss_id :: string
  ss_upload :: bool
  ss_end :: nat

definition attach_stream :: "string \<Rightarrow> jsv \<Rightarrow> stream_table \<Rightarrow> server_stream option \<times> stream_table" where
  "attach_stream req meta t =
     (case field_of meta ''id'' of
        VStr sid \<Rightarrow>
          if sid = [] \<or> js_length sid > 64 then (None, t)
          else if field_of meta ''direction'' \<notin> {VStr ''upload'', VStr ''download''} then (None, t)
          else if has_stream t sid then (None, t)
          else if field_of meta ''direction'' = VStr ''upload'' then
            (case table_receiver sid req False t of
               (i, t') \<Rightarrow> (Some \<lparr>ss_id = sid, ss_upload = True, ss_end = i\<rparr>,
                 t'\<lparr>rxs := (rxs t')[i := (rxs t' ! i)\<lparr>rx_cancels := False\<rparr>]\<rparr>))
          else
            (case table_sender sid req False t of
               (i, t') \<Rightarrow> (Some \<lparr>ss_id = sid, ss_upload = False, ss_end = i\<rparr>, t'))
      | _ \<Rightarrow> (None, t))"

text \<open>\<open>beforeReply\<close>; an error is given by its code, if it has one. For a download the reply then waits for the end job.\<close>

definition before_reply :: "string option option \<Rightarrow> server_stream \<Rightarrow> stream_table \<Rightarrow> stream_table" where
  "before_reply err ss t =
     (case err of
        Some code \<Rightarrow> table_abort (ss_id ss) (streamErrorCode code ''STREAM_HANDLER_ERROR'') True t
      | None \<Rightarrow>
          if ss_upload ss \<or> \<not> has_stream t (ss_id ss) then t else table_send (ss_end ss) JEnd t)"

definition after_reply :: "server_stream \<Rightarrow> stream_table \<Rightarrow> stream_table" where
  "after_reply ss t =
     (if ss_upload ss then
        table_close (ss_id ss)
          (if has_stream t (ss_id ss) \<and> \<not> rx_done (rxs t ! ss_end ss) then table_abort (ss_id ss) ''STREAM_CLOSED'' True t else t)
      else table_close (ss_id ss) t)"

section \<open>What every peer gets\<close>

text \<open>
  Whatever frames arrive, a receiver buffers at most a window of chunks, and a sender has at most a
  window of chunks in flight. A live entry names ends of its own stream.
\<close>

definition receiver_ok :: "receiver \<Rightarrow> bool" where
  "receiver_ok r \<longleftrightarrow> length (rx_queue r) \<le> STREAM_WINDOW \<and> (\<forall>c \<in> set (rx_queue r). length c \<le> STREAM_CHUNK_BYTES)"

definition sender_ok :: "sender \<Rightarrow> bool" where
  "sender_ok s \<longleftrightarrow> tx_acked s \<le> tx_seq s \<and> tx_seq s \<le> tx_acked s + STREAM_WINDOW"

definition entry_names :: "stream_table \<Rightarrow> string \<Rightarrow> stream_entry \<Rightarrow> bool" where
  "entry_names t sid en \<longleftrightarrow>
     (\<forall>i. se_receiver en = Some i \<longrightarrow> i < length (rxs t) \<and> rx_stream (rxs t ! i) = sid) \<and>
     (\<forall>i. se_sender en = Some i \<longrightarrow> i < length (txs t) \<and> tx_stream (txs t ! i) = sid)"

definition table_inv :: "stream_table \<Rightarrow> bool" where
  "table_inv t \<longleftrightarrow> wf_map (live t) \<and> list_all receiver_ok (rxs t) \<and> list_all sender_ok (txs t) \<and>
     (\<forall>sid en. map_of (live t) sid = Some en \<longrightarrow> entry_names t sid en)"

named_theorems stream_keeps \<open>What an operation leaves of the ends of a stream.\<close>

lemma new_table_inv: "table_inv new_table"
  by (simp add: table_inv_def new_table_def)

lemma push_chunk_Inr:
  "push_chunk decode seq data r = Inr r' \<Longrightarrow>
     \<exists>d. data = VStr d \<and> seq = VInt (int (rx_nextSeq r)) \<and> \<not> rx_done r \<and> b64 (decode d) = d \<and>
       length (decode d) \<le> STREAM_CHUNK_BYTES \<and> length (rx_queue r) < STREAM_WINDOW \<and>
       r' = r\<lparr>rx_nextSeq := Suc (rx_nextSeq r), rx_bytes := rx_bytes r + length (decode d),
              rx_queue := rx_queue r @ [decode d]\<rparr>"
  by (auto simp: push_chunk_def Let_def split: if_splits jsv.splits)

lemma receive_frame_ok:
  "receive_frame decode f req opened r = Inr (b, r') \<Longrightarrow> receiver_ok r \<Longrightarrow> receiver_ok r' \<and> rx_stream r' = rx_stream r"
  by (cases "push_chunk decode (field_of (VObj f) ''seq'') (field_of (VObj f) ''data'') r")
     (auto simp: receive_frame_def receiver_ok_def end_chunks_def map_sum_def dest!: push_chunk_Inr
       simp del: field_of.simps split: if_splits sum.splits)

lemma fail_receiver_ok [stream_keeps]: "receiver_ok r \<Longrightarrow> receiver_ok (fail_receiver e r)" "rx_stream (fail_receiver e r) = rx_stream r"
  by (simp_all add: fail_receiver_def receiver_ok_def)

lemma fail_sender_ok [stream_keeps]: "sender_ok s \<Longrightarrow> sender_ok (fail_sender e s)" "tx_stream (fail_sender e s) = tx_stream s"
  by (simp_all add: fail_sender_def sender_ok_def split: option.splits)

lemma take_next_ok: "take_next r = (p, r') \<Longrightarrow> receiver_ok r \<Longrightarrow> receiver_ok r' \<and> rx_stream r' = rx_stream r"
  by (auto simp: take_next_def receiver_ok_def split: option.splits list.splits if_splits)

lemma acked_le: "acked_up_to t n = Some k \<Longrightarrow> k \<le> n"
  by (auto simp: acked_up_to_def split: option.splits if_splits)

lemma ack_sender_ok [stream_keeps]: "sender_ok s \<Longrightarrow> sender_ok (ack_sender v s)" "tx_stream (ack_sender v s) = tx_stream s"
  by (auto simp: ack_sender_def sender_ok_def split: jsv.splits option.splits dest: acked_le)

lemma job_done_sel [simp]:
  "tx_seq (job_done e s) = tx_seq s" "tx_acked (job_done e s) = tx_acked s" "tx_stream (job_done e s) = tx_stream s"
  "tx_bytes (job_done e s) = tx_bytes s" "tx_opened (job_done e s) = tx_opened s" "tx_error (job_done e s) = tx_error s"
  "tx_request (job_done e s) = tx_request s" "tx_jobs (job_done e s) = tl (tx_jobs s)" "tx_phase (job_done e s) = SIdle"
  by (simp_all add: job_done_def)

text \<open>The loop by cases: its five ways to leave or to go round.\<close>

definition sent_piece :: "string \<Rightarrow> sender \<Rightarrow> sender" where
  "sent_piece rest s = s\<lparr>tx_bytes := tx_bytes s + length (take STREAM_CHUNK_BYTES rest), tx_seq := Suc (tx_seq s)\<rparr>"

abbreviation piece_frame :: "string \<Rightarrow> sender \<Rightarrow> frame" where
  "piece_frame rest s \<equiv> data_frame (tx_stream s) (tx_seq s) (take STREAM_CHUNK_BYTES rest)"

lemma send_loop_induct [case_names empty full failed drain more]:
  assumes "\<And>s. P [] s ([], job_done None s)"
  and "\<And>rest s. rest \<noteq> [] \<Longrightarrow> tx_error s = None \<Longrightarrow> tx_seq s - tx_acked s \<ge> STREAM_WINDOW \<Longrightarrow>
    P rest s ([], s\<lparr>tx_phase := SWindow rest\<rparr>)"
  and "\<And>rest s e. rest \<noteq> [] \<Longrightarrow> tx_error s = Some e \<Longrightarrow> P rest s ([], job_done (Some e) s)"
  and "\<And>rest s. rest \<noteq> [] \<Longrightarrow> tx_error s = None \<Longrightarrow> tx_seq s - tx_acked s < STREAM_WINDOW \<Longrightarrow>
    P rest s ([piece_frame rest s], (sent_piece rest s)\<lparr>tx_phase := SDrain (drop STREAM_CHUNK_BYTES rest)\<rparr>)"
  and "\<And>rest s fs s'. rest \<noteq> [] \<Longrightarrow> tx_error s = None \<Longrightarrow> tx_seq s - tx_acked s < STREAM_WINDOW \<Longrightarrow>
    P (drop STREAM_CHUNK_BYTES rest) (sent_piece rest s) (fs, s') \<Longrightarrow> P rest s (piece_frame rest s # fs, s')"
  shows "P rest s (send_loop flushed rest s)"
proof (induction rest arbitrary: s rule: length_induct)
  case (1 rest)
  show ?case
  proof (cases "rest = [] \<or> tx_error s \<noteq> None \<or> tx_seq s - tx_acked s \<ge> STREAM_WINDOW \<or> \<not> flushed (tx_seq s)")
    case True
    then show ?thesis
      using assms(1-4) by (subst send_loop.simps) (auto simp: Let_def sent_piece_def not_le split: option.splits)
  next
    case False
    then have none: "tx_error s = None" and "rest \<noteq> []" and room: "tx_seq s - tx_acked s < STREAM_WINDOW" and fl: "flushed (tx_seq s)"
      by (blast, blast, simp, blast)
    then have "length (drop STREAM_CHUNK_BYTES rest) < length rest" by (simp add: STREAM_CHUNK_BYTES_def)
    with 1 have "P (drop STREAM_CHUNK_BYTES rest) (sent_piece rest s)
        (send_loop flushed (drop STREAM_CHUNK_BYTES rest) (sent_piece rest s))" by blast
    moreover obtain fs s' where go: "send_loop flushed (drop STREAM_CHUNK_BYTES rest) (sent_piece rest s) = (fs, s')" by fastforce
    ultimately have "P rest s (piece_frame rest s # fs, s')" using assms(5) [OF \<open>rest \<noteq> []\<close> none room] by simp
    then show ?thesis using none \<open>rest \<noteq> []\<close> room fl go by (subst send_loop.simps) (simp add: Let_def sent_piece_def)
  qed
qed

lemma send_loop_ok:
  "sender_ok s \<Longrightarrow> sender_ok (snd (send_loop flushed rest s)) \<and> tx_stream (snd (send_loop flushed rest s)) = tx_stream s"
  by (rule send_loop_induct [where P = "\<lambda>rest s res. sender_ok s \<longrightarrow> sender_ok (snd res) \<and> tx_stream (snd res) = tx_stream s", rule_format])
     (auto simp: sender_ok_def sent_piece_def)

lemma run_sender_ok:
  "sender_ok s \<Longrightarrow> sender_ok (snd (run_sender flushed s)) \<and> tx_stream (snd (run_sender flushed s)) = tx_stream s"
  using send_loop_ok [of s flushed] send_loop_ok [of "s\<lparr>tx_opened := True\<rparr>" flushed]
  by (auto simp: run_sender_def open_stream_def sender_ok_def split: send_phase.splits list.splits option.splits job.splits prod.splits)
     (metis snd_conv)+


subsection \<open>Every operation of a table\<close>

lemma nth_update_stream:
  "i < length xs \<Longrightarrow> f x = f (xs ! i) \<Longrightarrow> j < length xs \<Longrightarrow> f ((xs[i := x]) ! j) = f (xs ! j)"
  by (simp add: nth_list_update)

lemma table_inv_rx:
  assumes "table_inv t" "receiver_ok r" "rx_stream r = rx_stream (rxs t ! i)"
  shows "table_inv (t\<lparr>rxs := (rxs t)[i := r]\<rparr>)"
  using assms
  by (cases "i < length (rxs t)")
     (auto simp: table_inv_def entry_names_def list_all_iff nth_list_update list_update_beyond dest: set_update_subset_insert [THEN subsetD])

lemma table_inv_tx:
  assumes "table_inv t" "sender_ok s" "tx_stream s = tx_stream (txs t ! i)"
  shows "table_inv (t\<lparr>txs := (txs t)[i := s]\<rparr>)"
  using assms
  by (cases "i < length (txs t)")
     (auto simp: table_inv_def entry_names_def list_all_iff nth_list_update list_update_beyond dest: set_update_subset_insert [THEN subsetD])

lemma table_inv_wire [simp]: "table_inv (t\<lparr>wire := w\<rparr>) = table_inv t" "table_inv (t\<lparr>told := l\<rparr>) = table_inv t"
  by (simp_all add: table_inv_def entry_names_def)

lemma table_inv_write [simp]: "table_inv (write_frame f t) = table_inv t"
  by (simp add: write_frame_def)

lemma table_close_inv: "table_inv t \<Longrightarrow> table_inv (table_close sid t)"
  by (auto simp: table_inv_def table_close_def entry_names_def map_of_delete_eq split: if_splits)

lemma fail_ends_inv: "table_inv t \<Longrightarrow> entry_names t sid en \<Longrightarrow> table_inv (fail_ends e en t)"
proof -
  assume inv: "table_inv t" and en: "entry_names t sid en"
  define t1 where "t1 = (case se_receiver en of None \<Rightarrow> t | Some i \<Rightarrow> t\<lparr>rxs := (rxs t)[i := fail_receiver e (rxs t ! i)]\<rparr>)"
  have "table_inv (t\<lparr>rxs := (rxs t)[i := fail_receiver e (rxs t ! i)]\<rparr>)" if "se_receiver en = Some i" for i
    using inv en that by (intro table_inv_rx stream_keeps) (auto simp: table_inv_def list_all_iff entry_names_def)
  with inv have t1: "table_inv t1" "txs t1 = txs t" by (simp_all add: t1_def split: option.splits)
  have "fail_ends e en t = (case se_sender en of None \<Rightarrow> t1 | Some i \<Rightarrow> t1\<lparr>txs := (txs t1)[i := fail_sender e (txs t1 ! i)]\<rparr>)"
    by (auto simp: fail_ends_def t1_def split: option.splits)
  moreover have "table_inv (t1\<lparr>txs := (txs t1)[i := fail_sender e (txs t1 ! i)]\<rparr>)" if "se_sender en = Some i" for i
    using t1 en that by (intro table_inv_tx stream_keeps) (auto simp: table_inv_def list_all_iff entry_names_def)
  ultimately show ?thesis using t1(1) by (simp split: option.splits)
qed

lemma table_abort_inv: "table_inv t \<Longrightarrow> table_inv (table_abort sid code notifyPeer t)"
proof (cases "map_of (live t) sid")
  case (Some en)
  assume inv: "table_inv t"
  with Some have "entry_names t sid en" by (simp add: table_inv_def)
  then have names: "entry_names (table_close sid t) sid en" "entry_names (write_frame f (table_close sid t)) sid en" for f
    by (simp_all add: entry_names_def table_close_def write_frame_def)
  show ?thesis
    using fail_ends_inv [OF table_close_inv [OF inv] names(1)]
      fail_ends_inv [OF table_close_inv [OF inv, THEN table_inv_write [THEN iffD2]] names(2)] Some
    by (simp add: table_abort_def Let_def)
qed (simp add: table_abort_def)

lemma table_abortAll_inv: "table_inv t \<Longrightarrow> table_inv (table_abortAll code t)"
proof -
  have "table_inv t \<Longrightarrow> table_inv (fold (\<lambda>sid. table_abort sid code False) ks t)" for ks t
    by (induction ks arbitrary: t) (simp_all add: table_abort_inv)
  then show "table_inv t \<Longrightarrow> table_inv (table_abortAll code t)" by (simp add: table_abortAll_def)
qed

lemma table_receiver_inv: "table_inv t \<Longrightarrow> table_inv (snd (table_receiver sid req n t))"
  by (auto simp: table_inv_def table_receiver_def new_receiver_def receiver_ok_def entry_names_def update_conv'
      nth_append less_SucI split: if_splits)

lemma table_sender_inv: "table_inv t \<Longrightarrow> table_inv (snd (table_sender sid req n t))"
  by (auto simp: table_inv_def table_sender_def new_sender_def sender_ok_def entry_names_def update_conv'
      nth_append less_SucI split: if_splits)

lemma entry_update_inv:
  assumes "table_inv t" "map_of (live t) sid = Some en"
  shows "table_inv (t\<lparr>live := AList.update sid (en\<lparr>se_opened := b\<rparr>) (live t)\<rparr>)"
  using assms by (auto simp: table_inv_def entry_names_def update_conv' split: if_splits)

lemma table_handle_inv:
  assumes inv: "table_inv t"
  shows "table_inv (table_handle decode f t)"
proof (cases "\<exists>sid en. field_of (VObj f) ''streamId'' = VStr sid \<and> map_of (live t) sid = Some en")
  case True
  then obtain sid en where en: "field_of (VObj f) ''streamId'' = VStr sid" "map_of (live t) sid = Some en" by blast
  then have names: "entry_names t sid en" using inv by (simp add: table_inv_def)
  have ack: "table_inv (t\<lparr>txs := (txs t)[i := ack_sender v (txs t ! i)]\<rparr>)" if "se_sender en = Some i" for i v
    using inv names that by (intro table_inv_tx stream_keeps) (auto simp: table_inv_def list_all_iff entry_names_def)
  have got: "table_inv (t\<lparr>live := AList.update sid (en\<lparr>se_opened := b\<rparr>) (live t), rxs := (rxs t)[i := r]\<rparr>)"
    if i: "se_receiver en = Some i" and r: "receive_frame decode f (se_request en) (se_opened en) (rxs t ! i) = Inr (b, r)" for i b r
  proof -
    have "receiver_ok (rxs t ! i)" using inv names i by (auto simp: table_inv_def list_all_iff entry_names_def)
    from receive_frame_ok [OF r this] table_inv_rx [OF entry_update_inv [OF inv en(2)]] show ?thesis by simp
  qed
  show ?thesis
    using en by (auto simp: table_handle_def Let_def inv ack got table_abort_inv simp del: field_of.simps
        split: option.splits sum.splits)
next
  case False
  then show ?thesis
    by (auto simp: table_handle_def Let_def inv simp del: field_of.simps split: jsv.splits option.splits)
qed


lemma table_next_inv:
  assumes "table_inv t" "i < length (rxs t)"
  shows "table_inv (snd (table_next i t))"
proof -
  obtain p r where n: "take_next (rxs t ! i) = (p, r)" by fastforce
  have "receiver_ok (rxs t ! i)" using assms by (simp add: table_inv_def list_all_length)
  with take_next_ok [OF n] assms(1) have "table_inv (t\<lparr>rxs := (rxs t)[i := r]\<rparr>)" by (intro table_inv_rx) auto
  with n show ?thesis by (simp add: table_next_def Let_def split: pull.splits)
qed

lemma table_run_inv:
  assumes "table_inv t" "i < length (txs t)"
  shows "table_inv (table_run flushed i t)"
proof -
  obtain fs s where r: "run_sender flushed (txs t ! i) = (fs, s)" by fastforce
  have "sender_ok (txs t ! i)" using assms by (simp add: table_inv_def list_all_length)
  from run_sender_ok [OF this, of flushed] r have "table_inv (t\<lparr>txs := (txs t)[i := s]\<rparr>)"
    by (intro table_inv_tx assms) auto
  then show ?thesis by (simp add: table_run_def r table_inv_def entry_names_def)
qed

lemma table_send_inv: "table_inv t \<Longrightarrow> i < length (txs t) \<Longrightarrow> table_inv (table_send i j t)"
  unfolding table_send_def
  by (rule table_inv_tx) (simp_all add: table_inv_def list_all_length enqueue_job_def sender_ok_def)

lemma table_leave_inv: "table_inv t \<Longrightarrow> table_inv (table_leave i t)"
  by (simp add: table_leave_def Let_def table_abort_inv)

lemma attach_inv: "table_inv t \<Longrightarrow> table_inv (snd (attach_stream req meta t))"
proof -
  assume inv: "table_inv t"
  have up: "table_inv (t'\<lparr>rxs := (rxs t')[i := (rxs t' ! i)\<lparr>rx_cancels := False\<rparr>]\<rparr>)"
    if "table_receiver sid req False t = (i, t')" for sid i t'
    using table_receiver_inv [OF inv, of sid req False] that
    by (intro table_inv_rx) (auto simp: table_receiver_def new_receiver_def receiver_ok_def)
  have down: "table_inv t'" if "table_sender sid req False t = (i, t')" for sid i t'
    using table_sender_inv [OF inv, of sid req False] that by simp
  show ?thesis
    by (auto simp: attach_stream_def inv simp del: field_of.simps intro: up down split: jsv.splits prod.splits)
qed

text \<open>Everything that happens to the streams of a socket: frames, and what the two sides of it do.\<close>

datatype table_event =
    EvFrame frame
  | EvReceiver string string bool
  | EvSender string string bool
  | EvAttach string jsv
  | EvClose string
  | EvAbort string string bool
  | EvAbortAll string
  | EvNext nat
  | EvLeave nat
  | EvRun "nat \<Rightarrow> bool" nat
  | EvSend nat job

fun table_step :: "(string \<Rightarrow> string) \<Rightarrow> stream_table \<Rightarrow> table_event \<Rightarrow> stream_table" where
  "table_step decode t (EvFrame f) = table_handle decode f t"
| "table_step decode t (EvReceiver sid req n) = snd (table_receiver sid req n t)"
| "table_step decode t (EvSender sid req n) = snd (table_sender sid req n t)"
| "table_step decode t (EvAttach req meta) = snd (attach_stream req meta t)"
| "table_step decode t (EvClose sid) = table_close sid t"
| "table_step decode t (EvAbort sid code n) = table_abort sid code n t"
| "table_step decode t (EvAbortAll code) = table_abortAll code t"
| "table_step decode t (EvNext i) = (if i < length (rxs t) then snd (table_next i t) else t)"
| "table_step decode t (EvLeave i) = (if i < length (rxs t) then table_leave i t else t)"
| "table_step decode t (EvRun flushed i) = (if i < length (txs t) then table_run flushed i t else t)"
| "table_step decode t (EvSend i j) = (if i < length (txs t) then table_send i j t else t)"

interpretation streams: invariant_system "table_step decode" table_inv for decode
proof
  fix t ev assume "table_inv t"
  then show "table_inv (table_step decode t ev)"
    by (cases ev) (simp_all add: table_handle_inv table_receiver_inv table_sender_inv attach_inv table_close_inv
        table_abort_inv table_abortAll_inv table_next_inv table_leave_inv table_run_inv table_send_inv)
qed

lemma sum_list_bound: "(\<forall>x \<in> set xs. f x \<le> b) \<Longrightarrow> sum_list (map f xs) \<le> length xs * (b :: nat)"
  by (induction xs) auto

text \<open>
  C23: Whatever frames a peer sends and in whatever order the process uses its streams, a receiver
  never buffers more than the window, eight chunks and four MiB, and a sender never has more than
  eight chunks that are not acknowledged.
\<close>

theorem stream_buffers_bounded:
  assumes "t = foldl (table_step decode) new_table evs"
  shows "(\<forall>r \<in> set (rxs t). length (rx_queue r) \<le> 8 \<and> sum_list (map length (rx_queue r)) \<le> 4 * 1024 * 1024) \<and>
    (\<forall>s \<in> set (txs t). tx_acked s \<le> tx_seq s \<and> tx_seq s - tx_acked s \<le> 8)"
proof -
  have inv: "table_inv t" unfolding assms by (rule streams.run_inv [OF new_table_inv])
  have "sum_list (map length (rx_queue r)) \<le> 4 * 1024 * 1024" if "receiver_ok r" for r
  proof -
    have "sum_list (map length (rx_queue r)) \<le> length (rx_queue r) * STREAM_CHUNK_BYTES"
      by (rule sum_list_bound) (use that in \<open>simp add: receiver_ok_def\<close>)
    also have "\<dots> \<le> STREAM_WINDOW * STREAM_CHUNK_BYTES"
      by (rule mult_le_mono1) (use that in \<open>simp add: receiver_ok_def\<close>)
    finally show ?thesis by (simp add: STREAM_WINDOW_def STREAM_CHUNK_BYTES_def)
  qed
  with inv show ?thesis
    by (auto simp: table_inv_def list_all_iff receiver_ok_def sender_ok_def STREAM_WINDOW_def)
qed


subsection \<open>Isolation of streams\<close>

text \<open>\<open>t'\<close> differs from \<open>t\<close> only in what belongs to stream \<open>sid\<close>.\<close>

definition only_stream :: "string \<Rightarrow> stream_table \<Rightarrow> stream_table \<Rightarrow> bool" where
  "only_stream sid t t' \<longleftrightarrow>
     (\<forall>sid'. sid' \<noteq> sid \<longrightarrow> map_of (live t') sid' = map_of (live t) sid') \<and>
     length (rxs t') = length (rxs t) \<and> length (txs t') = length (txs t) \<and>
     (\<forall>i < length (rxs t). rx_stream (rxs t ! i) \<noteq> sid \<longrightarrow> rxs t' ! i = rxs t ! i) \<and>
     (\<forall>i < length (txs t). tx_stream (txs t ! i) \<noteq> sid \<longrightarrow> txs t' ! i = txs t ! i) \<and>
     (\<exists>fs. wire t' = wire t @ fs \<and> (\<forall>f \<in> set fs. map_of f ''streamId'' = Some (VStr sid)))"

lemma only_stream_refl: "only_stream sid t t"
  by (simp add: only_stream_def)

lemma abort_only_stream: "table_inv t \<Longrightarrow> only_stream sid t (table_abort sid code n t)"
proof (cases "map_of (live t) sid")
  case (Some en)
  assume "table_inv t"
  with Some have "entry_names t sid en" by (simp add: table_inv_def)
  then show ?thesis
    using Some
    by (auto simp: only_stream_def table_abort_def Let_def table_close_def fail_ends_def write_frame_def abort_frame_def
        entry_names_def nth_list_update map_of_delete_eq split: option.splits)
qed (simp add: table_abort_def only_stream_refl)

lemma handle_only_stream:
  assumes inv: "table_inv t" and sid: "field_of (VObj f) ''streamId'' = VStr sid"
  shows "only_stream sid t (table_handle decode f t)"
proof (cases "map_of (live t) sid")
  case None
  with sid show ?thesis
    by (simp add: table_handle_def Let_def only_stream_refl del: field_of.simps)
       (auto simp: only_stream_def write_frame_def abort_frame_def)
next
  case (Some en)
  with inv have names: "entry_names t sid en" by (simp add: table_inv_def)
  have tx: "only_stream sid t (t\<lparr>txs := (txs t)[i := s]\<rparr>)" if "se_sender en = Some i" for i s
    using names that by (auto simp: only_stream_def entry_names_def nth_list_update)
  have rx: "only_stream sid t (t\<lparr>live := AList.update sid en' (live t), rxs := (rxs t)[i := r]\<rparr>)"
    if "se_receiver en = Some i" for i r en'
    using names that by (auto simp: only_stream_def entry_names_def nth_list_update update_conv')
  show ?thesis
    using sid Some by (auto simp: table_handle_def Let_def tx rx only_stream_refl abort_only_stream [OF inv] simp del: field_of.simps
        split: option.splits sum.splits)
qed

text \<open>
  A frame reaches only the stream it names. In every reachable table, handling a frame leaves the
  entries, the receivers and the senders of all other streams as they are, and writes nothing
  but frames of the same stream; a frame for a stream that is not live leaves every entry and
  every end as it is.
\<close>

theorem frame_touches_own_stream:
  assumes "t = foldl (table_step decode) new_table evs" "map_of f ''streamId'' = Some (VStr sid)"
  and "t' = table_handle decode f t"
  shows "(\<forall>sid'. sid' \<noteq> sid \<longrightarrow> map_of (live t') sid' = map_of (live t) sid') \<and>
    (\<forall>i < length (rxs t). rx_stream (rxs t ! i) \<noteq> sid \<longrightarrow> rxs t' ! i = rxs t ! i) \<and>
    (\<forall>i < length (txs t). tx_stream (txs t ! i) \<noteq> sid \<longrightarrow> txs t' ! i = txs t ! i) \<and>
    (\<exists>fs. wire t' = wire t @ fs \<and> (\<forall>g \<in> set fs. map_of g ''streamId'' = Some (VStr sid))) \<and>
    (map_of (live t) sid = None \<longrightarrow> live t' = live t \<and> rxs t' = rxs t \<and> txs t' = txs t)"
proof -
  have inv: "table_inv t" unfolding assms(1) by (rule streams.run_inv [OF new_table_inv])
  have sid: "field_of (VObj f) ''streamId'' = VStr sid" using assms(2) by simp
  have "map_of (live t) sid = None \<longrightarrow> live t' = live t \<and> rxs t' = rxs t \<and> txs t' = txs t"
    using sid by (simp add: assms(3) table_handle_def Let_def write_frame_def del: field_of.simps)
  with handle_only_stream [OF inv sid, of decode] show ?thesis by (simp add: only_stream_def assms(3))
qed

section \<open>A transfer from end to end\<close>

text \<open>
  A sender and a receiver of one stream, with the frames and the acknowledgements on their way. The
  connection keeps the order and may break, which fails both ends. \<open>given\<close> are the bytes the
  producer has passed to \<open>send\<close>, \<open>got\<close> those the reader has taken. The producer calls nothing
  after \<open>end\<close>.
\<close>

record transfer =
  tr_tx :: sender
  tr_rx :: receiver
  tr_opened :: bool
  tr_net :: "frame list"
  tr_acks :: "jsv list"
  tr_given :: string
  tr_ended :: bool
  tr_got :: string
  tr_refused :: "stream_error option"
  tr_broken :: bool

definition new_transfer :: "string \<Rightarrow> string \<Rightarrow> transfer" where
  "new_transfer sid req = \<lparr>tr_tx = new_sender sid req, tr_rx = new_receiver sid, tr_opened = False, tr_net = [],
     tr_acks = [], tr_given = [], tr_ended = False, tr_got = [], tr_refused = None, tr_broken = False\<rparr>"

datatype transfer_event =
    TrSend string
  | TrEnd
  | TrRun "nat \<Rightarrow> bool"
  | TrDeliver
  | TrRead
  | TrAck
  | TrBreak stream_error

fun transfer_step :: "(string \<Rightarrow> string) \<Rightarrow> transfer \<Rightarrow> transfer_event \<Rightarrow> transfer" where
  "transfer_step decode s (TrSend chunk) =
     (if tr_ended s then s
      else s\<lparr>tr_tx := enqueue_job (JSend chunk) (tr_tx s), tr_given := tr_given s @ chunk\<rparr>)"
| "transfer_step decode s TrEnd =
     (if tr_ended s then s else s\<lparr>tr_tx := enqueue_job JEnd (tr_tx s), tr_ended := True\<rparr>)"
| "transfer_step decode s (TrRun flushed) =
     (case run_sender flushed (tr_tx s) of (fs, tx) \<Rightarrow>
        s\<lparr>tr_tx := tx, tr_net := tr_net s @ (if tr_broken s then [] else fs)\<rparr>)"
| "transfer_step decode s TrDeliver =
     (case tr_net s of
        [] \<Rightarrow> s
      | f # fs \<Rightarrow>
          (case receive_frame decode f (tx_request (tr_tx s)) (tr_opened s) (tr_rx s) of
             Inl e \<Rightarrow> s\<lparr>tr_net := fs, tr_rx := fail_receiver e (tr_rx s), tr_refused := Some e\<rparr>
           | Inr (b, r) \<Rightarrow> s\<lparr>tr_net := fs, tr_rx := r, tr_opened := b\<rparr>))"
| "transfer_step decode s TrRead =
     (case take_next (tr_rx s) of
        (PullChunk n c, r) \<Rightarrow> s\<lparr>tr_rx := r, tr_got := tr_got s @ c,
          tr_acks := tr_acks s @ (if tr_broken s then [] else [VInt (int n)])\<rparr>
      | (_, r) \<Rightarrow> s\<lparr>tr_rx := r\<rparr>)"
| "transfer_step decode s TrAck =
     (case tr_acks s of [] \<Rightarrow> s | a # as \<Rightarrow> s\<lparr>tr_acks := as, tr_tx := ack_sender a (tr_tx s)\<rparr>)"
| "transfer_step decode s (TrBreak e) =
     s\<lparr>tr_tx := fail_sender e (tr_tx s), tr_rx := fail_receiver e (tr_rx s), tr_net := [], tr_acks := [], tr_broken := True\<rparr>"


subsection \<open>The invariant of a transfer\<close>

fun data_frames :: "string \<Rightarrow> nat \<Rightarrow> string list \<Rightarrow> frame list" where
  "data_frames sid k [] = []"
| "data_frames sid k (p # ps) = data_frame sid k p # data_frames sid (Suc k) ps"

lemma data_frames_append: "data_frames sid k (ps @ qs) = data_frames sid k ps @ data_frames sid (k + length ps) qs"
  by (induction ps arbitrary: k) simp_all

definition jobs_bytes :: "job list \<Rightarrow> string" where
  "jobs_bytes js = concat (map (\<lambda>j. case j of JSend c \<Rightarrow> c | JEnd \<Rightarrow> []) js)"

lemma jobs_bytes_simps [simp]:
  "jobs_bytes [] = []" "jobs_bytes (JSend c # js) = c @ jobs_bytes js" "jobs_bytes (JEnd # js) = jobs_bytes js"
  "jobs_bytes (js @ js') = jobs_bytes js @ jobs_bytes js'"
  by (simp_all add: jobs_bytes_def)

text \<open>What a sender has been given and not yet written.\<close>

definition unwritten :: "sender \<Rightarrow> string" where
  "unwritten s = (case tx_phase s of
       SIdle \<Rightarrow> jobs_bytes (tx_jobs s)
     | SWindow rest \<Rightarrow> rest @ jobs_bytes (tl (tx_jobs s))
     | SDrain rest \<Rightarrow> rest @ jobs_bytes (tl (tx_jobs s)))"

definition piece_ok :: "string \<Rightarrow> bool" where
  "piece_ok p \<longleftrightarrow> p \<noteq> [] \<and> length p \<le> STREAM_CHUNK_BYTES"

text \<open>What a part of a run of the sender leaves: the pieces it wrote, and the rest still to write.\<close>

definition advanced :: "sender \<Rightarrow> string list \<Rightarrow> sender \<Rightarrow> bool" where
  "advanced s ps s' \<longleftrightarrow> tx_seq s' = tx_seq s + length ps \<and> tx_bytes s' = tx_bytes s + length (concat ps) \<and>
     tx_acked s' = tx_acked s \<and> tx_error s' = tx_error s \<and>
     tx_stream s' = tx_stream s \<and> tx_request s' = tx_request s \<and> (\<forall>p \<in> set ps. piece_ok p)"

definition wrote :: "sender \<Rightarrow> string list \<Rightarrow> sender \<Rightarrow> bool" where
  "wrote s ps s' \<longleftrightarrow> advanced s ps s' \<and> tx_opened s' = tx_opened s \<and>
     (tx_phase s' = SIdle \<and> tx_jobs s' = tl (tx_jobs s) \<or> tx_phase s' \<noteq> SIdle \<and> tx_jobs s' = tx_jobs s)"

lemma send_loop_writes:
  assumes "tx_error s = None"
  shows "\<exists>ps. fst (send_loop flushed rest s) = data_frames (tx_stream s) (tx_seq s) ps \<and>
    wrote s ps (snd (send_loop flushed rest s)) \<and>
    rest @ jobs_bytes (tl (tx_jobs s)) = concat ps @ unwritten (snd (send_loop flushed rest s))"
proof -
  have "tx_error s = None \<longrightarrow> (\<exists>ps. fst (send_loop flushed rest s) = data_frames (tx_stream s) (tx_seq s) ps \<and>
      wrote s ps (snd (send_loop flushed rest s)) \<and>
      rest @ jobs_bytes (tl (tx_jobs s)) = concat ps @ unwritten (snd (send_loop flushed rest s)))"
  proof (rule send_loop_induct [where P = "\<lambda>rest s res. tx_error s = None \<longrightarrow> (\<exists>ps. fst res = data_frames (tx_stream s) (tx_seq s) ps \<and>
      wrote s ps (snd res) \<and> rest @ jobs_bytes (tl (tx_jobs s)) = concat ps @ unwritten (snd res))"], goal_cases)
    case (1 s)
    show ?case by (intro impI exI [of _ "[]"]) (simp add: wrote_def advanced_def unwritten_def)
  next
    case (2 rest s)
    show ?case by (intro impI exI [of _ "[]"]) (simp add: wrote_def advanced_def unwritten_def)
  next
    case (3 rest s e)
    then show ?case by simp
  next
    case (4 rest s)
    then show ?case
      by (intro impI exI [of _ "[take STREAM_CHUNK_BYTES rest]"])
         (simp add: wrote_def advanced_def unwritten_def sent_piece_def piece_ok_def STREAM_CHUNK_BYTES_def)
  next
    case (5 rest s fs s')
    show ?case
    proof
      assume "tx_error s = None"
      with 5(4) obtain ps where ps: "fs = data_frames (tx_stream s) (Suc (tx_seq s)) ps" "wrote (sent_piece rest s) ps s'"
        "drop STREAM_CHUNK_BYTES rest @ jobs_bytes (tl (tx_jobs s)) = concat ps @ unwritten s'"
        by (auto simp: sent_piece_def)
      have "rest = take STREAM_CHUNK_BYTES rest @ drop STREAM_CHUNK_BYTES rest" by simp
      then have "rest @ jobs_bytes (tl (tx_jobs s)) = take STREAM_CHUNK_BYTES rest @ concat ps @ unwritten s'"
        using ps(3) by (metis append.assoc)
      with ps 5(1) show "\<exists>ps. fst (piece_frame rest s # fs, s') = data_frames (tx_stream s) (tx_seq s) ps \<and>
          wrote s ps (snd (piece_frame rest s # fs, s')) \<and>
          rest @ jobs_bytes (tl (tx_jobs s)) = concat ps @ unwritten (snd (piece_frame rest s # fs, s'))"
        by (intro exI [of _ "take STREAM_CHUNK_BYTES rest # ps"])
           (auto simp: wrote_def advanced_def sent_piece_def piece_ok_def STREAM_CHUNK_BYTES_def)
    qed
  qed
  with assms show ?thesis by blast
qed

text \<open>The jobs of a producer that calls nothing after \<open>end\<close>; \<open>e\<close> is whether the end frame was written.\<close>

definition jobs_ok :: "bool \<Rightarrow> bool \<Rightarrow> sender \<Rightarrow> bool" where
  "jobs_ok ended e s \<longleftrightarrow> (\<exists>cs. tx_jobs s = map JSend cs @ (if ended \<and> \<not> e then [JEnd] else [])) \<and>
     (e \<longrightarrow> ended \<and> tx_jobs s = [] \<and> tx_phase s = SIdle) \<and>
     (tx_phase s \<noteq> SIdle \<longrightarrow> (\<exists>c js. tx_jobs s = JSend c # js))"

text \<open>A turn of the sender writes the opening frame first, then pieces, and the end frame last.\<close>

definition turn_ok :: "bool \<Rightarrow> bool \<Rightarrow> sender \<Rightarrow> frame list \<Rightarrow> sender \<Rightarrow> string list \<Rightarrow> bool \<Rightarrow> bool" where
  "turn_ok ended e s fs s' ps e' \<longleftrightarrow>
     fs = (if tx_opened s' \<and> \<not> tx_opened s then [open_frame (tx_stream s) (tx_request s)] else []) @
       data_frames (tx_stream s) (tx_seq s) ps @
       (if e' \<and> \<not> e then [end_frame (tx_stream s) (tx_bytes s')] else []) \<and>
     advanced s ps s' \<and> unwritten s = concat ps @ unwritten s' \<and> jobs_ok ended e' s' \<and> (e \<longrightarrow> e') \<and>
     (tx_opened s \<longrightarrow> tx_opened s') \<and> (ps \<noteq> [] \<or> e' \<and> \<not> e \<longrightarrow> tx_opened s') \<and> (tx_opened s' \<or> tx_phase s' = SIdle)"

lemma open_stream_sel [simp]:
  "fst (open_stream s) = (if tx_opened s then [] else [open_frame (tx_stream s) (tx_request s)])"
  "tx_opened (snd (open_stream s))" "tx_seq (snd (open_stream s)) = tx_seq s" "tx_bytes (snd (open_stream s)) = tx_bytes s"
  "tx_acked (snd (open_stream s)) = tx_acked s" "tx_error (snd (open_stream s)) = tx_error s"
  "tx_stream (snd (open_stream s)) = tx_stream s" "tx_request (snd (open_stream s)) = tx_request s"
  "tx_jobs (snd (open_stream s)) = tx_jobs s" "tx_phase (snd (open_stream s)) = tx_phase s"
  by (simp_all add: open_stream_def)

lemma loop_turn:
  assumes err: "tx_error s1 = None" and jobs: "tx_jobs s1 = JSend c # js" "jobs_ok ended e s1" and op: "tx_opened s1"
  and same: "tx_seq s1 = tx_seq s" "tx_bytes s1 = tx_bytes s" "tx_acked s1 = tx_acked s" "tx_error s1 = tx_error s"
    "tx_stream s1 = tx_stream s" "tx_request s1 = tx_request s"
  and un: "unwritten s = rest @ jobs_bytes js"
  and run: "send_loop flushed rest s1 = (fs, s')"
  shows "\<exists>ps. turn_ok ended e s ((if tx_opened s then [] else [open_frame (tx_stream s) (tx_request s)]) @ fs) s' ps e"
proof -
  have e: "\<not> e" using jobs by (auto simp: jobs_ok_def)
  obtain ps where ps: "fs = data_frames (tx_stream s) (tx_seq s) ps" "wrote s1 ps s'"
    "rest @ jobs_bytes js = concat ps @ unwritten s'"
    using send_loop_writes [OF err, of flushed rest] by (auto simp: run jobs(1) same)
  obtain cs where cs: "JSend c # js = map JSend cs @ (if ended \<and> \<not> e then [JEnd] else [])"
    using jobs by (auto simp: jobs_ok_def)
  have js: "js = map JSend (tl cs) @ (if ended \<and> \<not> e then [JEnd] else [])" and cs': "cs \<noteq> []"
    using cs by (cases cs; auto split: if_splits)+
  have "\<exists>cs. tx_jobs s' = map JSend cs @ (if ended \<and> \<not> e then [JEnd] else [])"
    using ps(2) cs js unfolding wrote_def jobs(1) by (metis list.sel(3))
  then have "jobs_ok ended e s'"
    using ps(2) e unfolding jobs_ok_def wrote_def jobs(1) by auto
  moreover have "tx_opened s'" using ps(2) op by (simp add: wrote_def)
  moreover have "advanced s ps s'" using ps(2) by (simp add: wrote_def advanced_def same)
  ultimately show ?thesis using ps un e by (intro exI [of _ ps]) (simp add: turn_ok_def)
qed

lemma run_sender_writes:
  assumes run: "run_sender flushed s = (fs, s')" and err: "tx_error s = None" and jobs: "jobs_ok ended e s"
  and fresh: "tx_opened s \<or> tx_phase s = SIdle"
  shows "\<exists>ps e'. turn_ok ended e s fs s' ps e'"
proof -
  have still: "turn_ok ended e s [] s [] e" using jobs fresh by (simp add: turn_ok_def advanced_def)
  have loop: "\<exists>ps e'. turn_ok ended e s fs s' ps e'" if "tx_phase s = SWindow rest \<or> tx_phase s = SDrain rest" "send_loop flushed rest s = (fs, s')" for rest
  proof -
    have "tx_phase s \<noteq> SIdle" using that(1) by auto
    then obtain c js where j: "tx_jobs s = JSend c # js" using jobs by (auto simp: jobs_ok_def)
    have op: "tx_opened s" using fresh that(1) by auto
    have "unwritten s = rest @ jobs_bytes js" using that(1) j by (auto simp: unwritten_def)
    from loop_turn [OF err j jobs op refl refl refl refl refl refl this that(2)] op show ?thesis by auto
  qed
  show ?thesis
  proof (cases "tx_phase s")
    case (SWindow rest)
    with run loop still show ?thesis by (auto simp: run_sender_def split: if_splits)
  next
    case (SDrain rest)
    with run loop err show ?thesis by (auto simp: run_sender_def)
  next
    case SIdle
    show ?thesis
    proof (cases "tx_jobs s")
      case Nil
      with SIdle run still show ?thesis by (auto simp: run_sender_def)
    next
      case (Cons j js)
      obtain opn s1 where o1: "open_stream s = (opn, s1)" by fastforce
      have s1: "opn = (if tx_opened s then [] else [open_frame (tx_stream s) (tx_request s)])" "tx_opened s1"
        "tx_seq s1 = tx_seq s" "tx_bytes s1 = tx_bytes s" "tx_acked s1 = tx_acked s" "tx_error s1 = tx_error s"
        "tx_stream s1 = tx_stream s" "tx_request s1 = tx_request s" "tx_jobs s1 = tx_jobs s" "tx_phase s1 = tx_phase s"
        using open_stream_sel [of s] by (simp_all add: o1 split: if_splits)
      show ?thesis
      proof (cases j)
        case (JSend c)
        obtain fs' where l: "send_loop flushed c s1 = (fs', s')" "fs = opn @ fs'"
          using run SIdle Cons JSend err o1 by (auto simp: run_sender_def split: prod.splits)
        have "jobs_ok ended e s1" using jobs by (simp add: jobs_ok_def s1)
        moreover have "unwritten s = c @ jobs_bytes js" by (simp add: unwritten_def SIdle Cons JSend)
        ultimately have "\<exists>ps. turn_ok ended e s fs s' ps e"
          using loop_turn [OF _ _ _ s1(2) s1(3-8) _ l(1), of c js ended e] err Cons JSend by (auto simp: s1 l(2))
        then show ?thesis by blast
      next
        case JEnd
        have e: "\<not> e" "ended" "js = []"
          using jobs Cons JEnd by (auto simp: jobs_ok_def Cons_eq_append_conv split: if_splits)
        have fs: "fs = opn @ [end_frame (tx_stream s) (tx_bytes s)]" "s' = job_done None s1"
          using run SIdle Cons JEnd err o1 s1 by (simp_all add: run_sender_def)
        have "turn_ok ended e s fs s' [] True"
          using e by (simp add: turn_ok_def fs s1 advanced_def unwritten_def SIdle Cons JEnd jobs_ok_def)
        then show ?thesis by blast
      qed
    qed
  qed
qed


text \<open>
  While the connection holds: \<open>ws\<close> are the pieces written so far. Those the receiver has not seen are
  on their way in order, between the opening and the end frame; those it has seen are taken or
  in its queue; the taken ones are acknowledged or their acknowledgements are on their way.
\<close>

definition sent_ok :: "string list \<Rightarrow> bool \<Rightarrow> bool \<Rightarrow> string \<Rightarrow> sender \<Rightarrow> bool" where
  "sent_ok ws e ended given tx \<longleftrightarrow>
     tx_error tx = None \<and> tx_seq tx = length ws \<and> tx_bytes tx = length (concat ws) \<and> (\<forall>w \<in> set ws. piece_ok w) \<and>
     given = concat ws @ unwritten tx \<and> jobs_ok ended e tx \<and> (tx_opened tx \<or> tx_phase tx = SIdle) \<and>
     (\<not> tx_opened tx \<longrightarrow> ws = [] \<and> \<not> e)"

definition read_ok :: "string list \<Rightarrow> bool \<Rightarrow> bool \<Rightarrow> string \<Rightarrow> receiver \<Rightarrow> bool" where
  "read_ok ws e opened got rx \<longleftrightarrow>
     rx_error rx = None \<and> rx_taken rx \<le> rx_nextSeq rx \<and> rx_nextSeq rx \<le> length ws \<and>
     rx_queue rx = drop (rx_taken rx) (take (rx_nextSeq rx) ws) \<and>
     rx_bytes rx = length (concat (take (rx_nextSeq rx) ws)) \<and> got = concat (take (rx_taken rx) ws) \<and>
     (rx_done rx \<longrightarrow> e \<and> opened \<and> rx_nextSeq rx = length ws) \<and> (\<not> opened \<longrightarrow> rx_nextSeq rx = 0)"

definition in_flight :: "string list \<Rightarrow> bool \<Rightarrow> bool \<Rightarrow> sender \<Rightarrow> receiver \<Rightarrow> frame list" where
  "in_flight ws e opened tx rx =
     (if tx_opened tx \<and> \<not> opened then [open_frame (tx_stream tx) (tx_request tx)] else []) @
     data_frames (tx_stream tx) (rx_nextSeq rx) (drop (rx_nextSeq rx) ws) @
     (if e \<and> \<not> rx_done rx then [end_frame (tx_stream tx) (tx_bytes tx)] else [])"

definition link_ok :: "string list \<Rightarrow> bool \<Rightarrow> bool \<Rightarrow> sender \<Rightarrow> receiver \<Rightarrow> frame list \<Rightarrow> jsv list \<Rightarrow> bool" where
  "link_ok ws e opened tx rx net as \<longleftrightarrow>
     tx_acked tx \<le> rx_taken rx \<and> length ws \<le> tx_acked tx + STREAM_WINDOW \<and>
     as = map (\<lambda>i. VInt (int i)) [tx_acked tx..<rx_taken rx] \<and> (opened \<longrightarrow> tx_opened tx) \<and>
     net = in_flight ws e opened tx rx"

definition flowing :: "string list \<Rightarrow> bool \<Rightarrow> transfer \<Rightarrow> bool" where
  "flowing ws e s \<longleftrightarrow> \<not> tr_broken s \<and> tr_refused s = None \<and>
     sent_ok ws e (tr_ended s) (tr_given s) (tr_tx s) \<and> read_ok ws e (tr_opened s) (tr_got s) (tr_rx s) \<and>
     link_ok ws e (tr_opened s) (tr_tx s) (tr_rx s) (tr_net s) (tr_acks s)"

text \<open>After a break nothing arrives any more, and what was complete stays complete.\<close>

definition cut_off :: "transfer \<Rightarrow> bool" where
  "cut_off s \<longleftrightarrow> tr_broken s \<and> tr_net s = [] \<and> tr_acks s = [] \<and> tr_refused s = None \<and> tx_error (tr_tx s) \<noteq> None \<and>
     (\<exists>more. tr_given s = tr_got s @ more \<and>
        (rx_error (tr_rx s) = None \<longrightarrow> rx_done (tr_rx s) \<and> tr_ended s \<and> more = concat (rx_queue (tr_rx s))))"

definition transfer_ok :: "transfer \<Rightarrow> bool" where
  "transfer_ok s \<longleftrightarrow> (\<exists>ws e. flowing ws e s) \<or> cut_off s"

lemma new_transfer_ok: "transfer_ok (new_transfer sid req)"
  unfolding transfer_ok_def
  by (intro disjI1 exI [of _ "[]"] exI [of _ False])
     (simp add: flowing_def sent_ok_def read_ok_def link_ok_def in_flight_def new_transfer_def new_sender_def new_receiver_def
       unwritten_def jobs_ok_def)

lemma enqueue_link [simp]: "link_ok ws e opened (enqueue_job j tx) rx net as = link_ok ws e opened tx rx net as"
  by (simp add: link_ok_def in_flight_def enqueue_job_def)

lemma enqueue_unwritten:
  assumes "jobs_ok ended e s"
  shows "unwritten (enqueue_job j s) = unwritten s @ jobs_bytes [j]"
proof -
  have "tx_phase s \<noteq> SIdle \<longrightarrow> (\<exists>c js. tx_jobs s = JSend c # js)" using assms by (simp add: jobs_ok_def)
  then show ?thesis by (cases j) (auto simp: unwritten_def enqueue_job_def split: send_phase.splits)
qed

lemma enqueue_jobs:
  assumes "jobs_ok False e s"
  shows "jobs_ok False e (enqueue_job (JSend c) s)" "jobs_ok True e (enqueue_job JEnd s)"
proof -
  obtain cs where cs: "tx_jobs s = map JSend cs" "\<not> e" using assms by (auto simp: jobs_ok_def)
  have "\<exists>cs'. map JSend cs @ [JSend c] = map JSend cs'" by (rule exI [of _ "cs @ [c]"]) simp
  then show "jobs_ok False e (enqueue_job (JSend c) s)" "jobs_ok True e (enqueue_job JEnd s)"
    using assms cs unfolding jobs_ok_def enqueue_job_def by auto
qed

lemma flow_send:
  assumes "flowing ws e s" "\<not> tr_ended s"
  shows "flowing ws e (s\<lparr>tr_tx := enqueue_job (JSend chunk) (tr_tx s), tr_given := tr_given s @ chunk\<rparr>)"
proof -
  have old: "sent_ok ws e False (tr_given s) (tr_tx s)" using assms by (simp add: flowing_def)
  then have j: "jobs_ok False e (tr_tx s)" by (simp add: sent_ok_def)
  then have "sent_ok ws e False (tr_given s @ chunk) (enqueue_job (JSend chunk) (tr_tx s))"
    using old enqueue_jobs(1) [OF j] enqueue_unwritten [OF j]
    unfolding sent_ok_def by (simp add: enqueue_job_def)
  with assms show ?thesis by (simp add: flowing_def)
qed

lemma flow_end:
  assumes "flowing ws e s" "\<not> tr_ended s"
  shows "flowing ws e (s\<lparr>tr_tx := enqueue_job JEnd (tr_tx s), tr_ended := True\<rparr>)"
proof -
  have old: "sent_ok ws e False (tr_given s) (tr_tx s)" using assms by (simp add: flowing_def)
  then have j: "jobs_ok False e (tr_tx s)" by (simp add: sent_ok_def)
  then have "sent_ok ws e True (tr_given s) (enqueue_job JEnd (tr_tx s))"
    using old enqueue_jobs(2) [OF j] enqueue_unwritten [OF j]
    unfolding sent_ok_def by (simp add: enqueue_job_def)
  with assms show ?thesis by (simp add: flowing_def)
qed

lemma flow_run:
  assumes f: "flowing ws e s" and run: "run_sender flushed (tr_tx s) = (fs, tx)"
  shows "\<exists>ws' e'. flowing ws' e' (s\<lparr>tr_tx := tx, tr_net := tr_net s @ fs\<rparr>)"
proof -
  have sent: "sent_ok ws e (tr_ended s) (tr_given s) (tr_tx s)" and rd: "read_ok ws e (tr_opened s) (tr_got s) (tr_rx s)"
    and lk: "link_ok ws e (tr_opened s) (tr_tx s) (tr_rx s) (tr_net s) (tr_acks s)" using f by (simp_all add: flowing_def)
  obtain ps e' where t: "turn_ok (tr_ended s) e (tr_tx s) fs tx ps e'"
    using run_sender_writes [OF run, of "tr_ended s" e] sent by (auto simp: sent_ok_def)
  have ok: "sender_ok (tr_tx s)" using lk rd sent by (auto simp: link_ok_def sender_ok_def sent_ok_def read_ok_def)
  have room: "tx_seq tx \<le> tx_acked tx + STREAM_WINDOW"
    using run_sender_ok [OF ok, of flushed] by (simp add: run sender_ok_def)
  have adv: "advanced (tr_tx s) ps tx" "unwritten (tr_tx s) = concat ps @ unwritten tx" "jobs_ok (tr_ended s) e' tx"
    "e \<longrightarrow> e'" "tx_opened (tr_tx s) \<longrightarrow> tx_opened tx" "ps \<noteq> [] \<or> e' \<and> \<not> e \<longrightarrow> tx_opened tx" "tx_opened tx \<or> tx_phase tx = SIdle"
    using t by (simp_all add: turn_ok_def)
  have quiet: "e \<Longrightarrow> ps = []"
  proof -
    assume e
    then have "unwritten (tr_tx s) = []" using sent by (simp add: sent_ok_def jobs_ok_def unwritten_def)
    with adv(1,2) show "ps = []" by (cases ps) (auto simp: advanced_def piece_ok_def)
  qed
  have "sent_ok (ws @ ps) e' (tr_ended s) (tr_given s) tx"
    using sent adv by (auto simp: sent_ok_def advanced_def)
  moreover have "read_ok (ws @ ps) e' (tr_opened s) (tr_got s) (tr_rx s)"
    using rd adv(4) quiet by (auto simp: read_ok_def)
  moreover have "link_ok (ws @ ps) e' (tr_opened s) tx (tr_rx s) (tr_net s @ fs) (tr_acks s)"
  proof -
    have len: "rx_nextSeq (tr_rx s) \<le> length ws" using rd by (simp add: read_ok_def)
    have "tr_net s @ fs = in_flight (ws @ ps) e' (tr_opened s) tx (tr_rx s)"
    proof (cases e)
      case True
      with quiet adv(4) have "ps = []" "e'" by auto
      moreover have "tx_opened (tr_tx s)" using True sent by (auto simp: sent_ok_def)
      ultimately show ?thesis using t True lk adv(1) by (simp add: turn_ok_def link_ok_def in_flight_def advanced_def)
    next
      case False
      have new: "fs = (if tx_opened tx \<and> \<not> tx_opened (tr_tx s) then [open_frame (tx_stream (tr_tx s)) (tx_request (tr_tx s))] else []) @
          data_frames (tx_stream (tr_tx s)) (length ws) ps @ (if e' then [end_frame (tx_stream (tr_tx s)) (tx_bytes tx)] else [])"
        using t False sent by (simp add: turn_ok_def sent_ok_def)
      have old: "tr_net s = (if tx_opened (tr_tx s) \<and> \<not> tr_opened s then [open_frame (tx_stream (tr_tx s)) (tx_request (tr_tx s))] else []) @
          data_frames (tx_stream (tr_tx s)) (rx_nextSeq (tr_rx s)) (drop (rx_nextSeq (tr_rx s)) ws)"
        using lk False by (simp add: link_ok_def in_flight_def)
      have split: "data_frames sid (rx_nextSeq (tr_rx s)) (drop (rx_nextSeq (tr_rx s)) (ws @ ps)) =
          data_frames sid (rx_nextSeq (tr_rx s)) (drop (rx_nextSeq (tr_rx s)) ws) @ data_frames sid (length ws) ps" for sid
        using len by (simp add: data_frames_append)
      have "\<not> rx_done (tr_rx s)" using rd False by (auto simp: read_ok_def)
      moreover have "\<not> tx_opened (tr_tx s) \<Longrightarrow> ws = [] \<and> \<not> tr_opened s" using sent lk by (auto simp: sent_ok_def link_ok_def)
      ultimately show ?thesis
        using adv(1,5) unfolding in_flight_def split old new by (auto simp: advanced_def)
    qed
    moreover have "length (ws @ ps) \<le> tx_acked tx + STREAM_WINDOW" using room adv(1) sent by (simp add: advanced_def sent_ok_def)
    ultimately show ?thesis using lk adv(1,5) by (simp add: link_ok_def advanced_def)
  qed
  ultimately show ?thesis using f by (auto simp: flowing_def)
qed


lemma b64_char_ascii: "of_char (b64_char n) < (128 :: nat)"
proof -
  have "\<forall>c \<in> set b64_alphabet. of_char c < (128 :: nat)" by (simp add: b64_alphabet_def)
  moreover have "n mod 64 < length b64_alphabet" by (simp add: b64_alphabet_def)
  ultimately show ?thesis unfolding b64_char_def by (meson nth_mem)
qed

lemma b64_length: "length (b64 bs) = (length bs + 2) div 3 * 4"
proof (induction bs rule: b64.induct)
  case (4 a b c r)
  have "(length (a # b # c # r) + 2) div 3 = Suc ((length r + 2) div 3)" by simp
  with 4 show ?case by (simp add: b64_quad_def)
qed (simp_all add: b64_quad_def)

lemma b64_ascii: "\<forall>c \<in> set (b64 bs). of_char c < (128 :: nat)"
proof -
  have quad: "\<forall>c \<in> set (b64_quad k n). of_char c < (128 :: nat)" for k n
    using b64_char_ascii by (auto simp: b64_quad_def dest!: in_set_takeD)
  show ?thesis using quad by (induction bs rule: b64.induct) auto
qed

lemma js_length_ascii: "\<forall>c \<in> set s. of_char c < (128 :: nat) \<Longrightarrow> js_length s = length s"
  by (induction s) (simp_all add: js_length_def utf16_units_def)

lemma b64_fits: "length bs \<le> STREAM_CHUNK_BYTES \<Longrightarrow> js_length (b64 bs) \<le> MAX_B64_LENGTH"
proof -
  assume "length bs \<le> STREAM_CHUNK_BYTES"
  then have "(length bs + 2) div 3 \<le> (STREAM_CHUNK_BYTES + 2) div 3" by (intro div_le_mono) simp
  then show ?thesis by (simp add: js_length_ascii [OF b64_ascii] b64_length MAX_B64_LENGTH_def)
qed

lemma push_ok:
  assumes "\<And>bs. decode (b64 bs) = bs" "\<not> rx_done r" "length c \<le> STREAM_CHUNK_BYTES" "length (rx_queue r) < STREAM_WINDOW"
  shows "push_chunk decode (VInt (int (rx_nextSeq r))) (VStr (b64 c)) r =
    Inr (r\<lparr>rx_nextSeq := Suc (rx_nextSeq r), rx_bytes := rx_bytes r + length c, rx_queue := rx_queue r @ [c]\<rparr>)"
  using assms b64_fits [of c] by (simp add: push_chunk_def)

lemma receive_frames [simp]:
  "receive_frame decode (open_frame sid req) req False r = Inr (True, r)"
  "receive_frame decode (data_frame sid n c) req True r =
     map_sum id (Pair True) (push_chunk decode (VInt (int n)) (VStr (b64 c)) r)"
  "receive_frame decode (end_frame sid n) req True r = map_sum id (Pair True) (end_chunks (VInt (int n)) r)"
  by (simp_all add: receive_frame_def open_frame_def data_frame_def end_frame_def)

lemma drop_nth: "n < length ws \<Longrightarrow> drop n ws = ws ! n # drop (Suc n) ws"
  by (simp add: Cons_nth_drop_Suc)

lemma flow_deliver:
  assumes dec: "\<And>bs. decode (b64 bs) = bs" and f: "flowing ws e s"
  shows "flowing ws e (transfer_step decode s TrDeliver)"
proof (cases "tr_net s")
  case Nil
  with f show ?thesis by simp
next
  case (Cons g net)
  let ?tx = "tr_tx s" and ?rx = "tr_rx s"
  have sent: "sent_ok ws e (tr_ended s) (tr_given s) ?tx" and rd: "read_ok ws e (tr_opened s) (tr_got s) ?rx"
    and lk: "link_ok ws e (tr_opened s) ?tx ?rx (tr_net s) (tr_acks s)" and ok: "\<not> tr_broken s" "tr_refused s = None"
    using f by (simp_all add: flowing_def)
  have net: "g # net = in_flight ws e (tr_opened s) ?tx ?rx" using lk Cons by (simp add: link_ok_def)
  consider (opn) "tx_opened ?tx" "\<not> tr_opened s" | (data) "tr_opened s" "rx_nextSeq ?rx < length ws"
    | (fin) "tr_opened s" "rx_nextSeq ?rx = length ws" "e" "\<not> rx_done ?rx"
    using net rd sent by (fastforce simp: in_flight_def read_ok_def sent_ok_def split: if_splits)
  then show ?thesis
  proof cases
    case opn
    then have g: "g = open_frame (tx_stream ?tx) (tx_request ?tx)" "net = in_flight ws e True ?tx ?rx"
      using net by (auto simp: in_flight_def)
    have "read_ok ws e True (tr_got s) ?rx" using rd by (auto simp: read_ok_def)
    moreover have "link_ok ws e True ?tx ?rx net (tr_acks s)" using lk g(2) opn(1) by (simp add: link_ok_def)
    ultimately show ?thesis using sent ok opn Cons g(1) by (simp add: flowing_def)
  next
    case data
    let ?c = "ws ! rx_nextSeq ?rx"
    define rx where "rx = ?rx\<lparr>rx_nextSeq := Suc (rx_nextSeq ?rx), rx_bytes := rx_bytes ?rx + length ?c,
      rx_queue := rx_queue ?rx @ [?c]\<rparr>"
    have nd: "\<not> rx_done ?rx" using rd data(2) by (auto simp: read_ok_def)
    have g: "g = data_frame (tx_stream ?tx) (rx_nextSeq ?rx) ?c" "net = in_flight ws e True ?tx rx"
      using net data nd by (simp_all add: in_flight_def drop_nth rx_def)
    have c: "length ?c \<le> STREAM_CHUNK_BYTES" using sent data(2) by (simp add: sent_ok_def piece_ok_def)
    have q: "length (rx_queue ?rx) < STREAM_WINDOW" using rd lk data(2) by (auto simp: read_ok_def link_ok_def STREAM_WINDOW_def)
    have got: "receive_frame decode g (tx_request ?tx) True ?rx = Inr (True, rx)"
      using push_ok [OF dec nd c q] by (simp add: g(1) rx_def)
    have "read_ok ws e True (tr_got s) rx"
      using rd data nd by (auto simp: read_ok_def rx_def take_Suc_conv_app_nth)
    moreover have "link_ok ws e True ?tx rx net (tr_acks s)"
      using lk data(1) g(2) by (simp add: link_ok_def) (simp add: rx_def)
    ultimately show ?thesis using sent ok data(1) Cons got by (simp add: flowing_def)
  next
    case fin
    have g: "g = end_frame (tx_stream ?tx) (tx_bytes ?tx)" "net = []"
      using net fin by (simp_all add: in_flight_def)
    have "tx_bytes ?tx = rx_bytes ?rx" using sent rd fin by (simp add: sent_ok_def read_ok_def)
    then have got: "receive_frame decode g (tx_request ?tx) True ?rx = Inr (True, ?rx\<lparr>rx_done := True\<rparr>)"
      using fin by (simp add: g(1) end_chunks_def)
    have "read_ok ws e True (tr_got s) (?rx\<lparr>rx_done := True\<rparr>)" using rd fin by (simp add: read_ok_def)
    moreover have "link_ok ws e True ?tx (?rx\<lparr>rx_done := True\<rparr>) net (tr_acks s)"
      using lk fin g(2) by (simp add: link_ok_def in_flight_def)
    ultimately show ?thesis using sent ok fin(1) Cons got by (simp add: flowing_def)
  qed
qed

lemma flow_read:
  assumes f: "flowing ws e s"
  shows "flowing ws e (transfer_step decode s TrRead)"
proof -
  let ?rx = "tr_rx s"
  have rd: "read_ok ws e (tr_opened s) (tr_got s) ?rx"
    and lk: "link_ok ws e (tr_opened s) (tr_tx s) ?rx (tr_net s) (tr_acks s)" using f by (simp_all add: flowing_def)
  have err: "rx_error ?rx = None" using rd by (simp add: read_ok_def)
  show ?thesis
  proof (cases "rx_queue ?rx")
    case Nil
    with err f show ?thesis by (simp add: take_next_def)
  next
    case (Cons c q)
    let ?t = "rx_taken ?rx"
    define rx where "rx = ?rx\<lparr>rx_queue := q, rx_taken := Suc ?t\<rparr>"
    have lt: "?t < rx_nextSeq ?rx" using rd Cons by (cases "?t < rx_nextSeq ?rx") (auto simp: read_ok_def)
    then have c: "c = ws ! ?t" "q = drop (Suc ?t) (take (rx_nextSeq ?rx) ws)" "?t < length ws"
      using rd Cons drop_nth [of ?t "take (rx_nextSeq ?rx) ws"] by (auto simp: read_ok_def)
    have "read_ok ws e (tr_opened s) (tr_got s @ c) rx"
      using rd lt c by (auto simp: read_ok_def rx_def take_Suc_conv_app_nth)
    moreover have "link_ok ws e (tr_opened s) (tr_tx s) rx (tr_net s) (tr_acks s @ [VInt (int ?t)])"
      using lk by (auto simp: link_ok_def in_flight_def rx_def)
    ultimately show ?thesis using f err Cons by (simp add: take_next_def flowing_def rx_def)
  qed
qed

lemma flow_ack:
  assumes f: "flowing ws e s"
  shows "flowing ws e (transfer_step decode s TrAck)"
proof (cases "tr_acks s")
  case Nil
  with f show ?thesis by simp
next
  case (Cons a as)
  let ?tx = "tr_tx s"
  have sent: "sent_ok ws e (tr_ended s) (tr_given s) ?tx" and rd: "read_ok ws e (tr_opened s) (tr_got s) (tr_rx s)"
    and lk: "link_ok ws e (tr_opened s) ?tx (tr_rx s) (tr_net s) (tr_acks s)" using f by (simp_all add: flowing_def)
  have acks: "a # as = map (\<lambda>i. VInt (int i)) [tx_acked ?tx..<rx_taken (tr_rx s)]" using lk Cons by (simp add: link_ok_def)
  then have lt: "tx_acked ?tx < rx_taken (tr_rx s)" by (cases "tx_acked ?tx < rx_taken (tr_rx s)") auto
  then have a: "a = VInt (int (tx_acked ?tx))" "as = map (\<lambda>i. VInt (int i)) [Suc (tx_acked ?tx)..<rx_taken (tr_rx s)]"
    using acks by (simp_all add: upt_rec)
  have "tx_acked ?tx < tx_seq ?tx" using lt rd sent by (simp add: read_ok_def sent_ok_def)
  then have tx: "ack_sender a ?tx = ?tx\<lparr>tx_acked := Suc (tx_acked ?tx)\<rparr>" (is "_ = ?tx'")
    by (simp add: a(1) ack_sender_def acked_up_to_def)
  have "sent_ok ws e (tr_ended s) (tr_given s) ?tx'" using sent by (simp add: sent_ok_def jobs_ok_def) (simp add: unwritten_def split: send_phase.splits)
  moreover have "link_ok ws e (tr_opened s) ?tx' (tr_rx s) (tr_net s) as"
    using lk lt a(2) by (simp add: link_ok_def in_flight_def)
  ultimately show ?thesis using f Cons tx by (simp add: flowing_def)
qed


lemma fail_sender_error: "tx_error (fail_sender e s) \<noteq> None"
  by (simp add: fail_sender_def split: option.splits)

lemma flow_break:
  assumes f: "flowing ws e s"
  shows "cut_off (transfer_step decode s (TrBreak err))"
proof -
  have sent: "sent_ok ws e (tr_ended s) (tr_given s) (tr_tx s)" and rd: "read_ok ws e (tr_opened s) (tr_got s) (tr_rx s)"
    and ok: "tr_refused s = None" using f by (simp_all add: flowing_def)
  let ?t = "rx_taken (tr_rx s)"
  have given: "tr_given s = tr_got s @ concat (drop ?t ws) @ unwritten (tr_tx s)"
    using sent rd concat_append [of "take ?t ws" "drop ?t ws"] by (simp add: sent_ok_def read_ok_def)
  show ?thesis
  proof (cases "rx_done (tr_rx s)")
    case True
    then have "rx_queue (tr_rx s) = drop ?t ws" "tr_ended s" "unwritten (tr_tx s) = []"
      using rd sent by (auto simp: read_ok_def sent_ok_def jobs_ok_def unwritten_def)
    with given ok True show ?thesis by (simp add: cut_off_def fail_receiver_def fail_sender_error)
  next
    case False
    with given ok rd show ?thesis by (simp add: cut_off_def fail_receiver_def fail_sender_error read_ok_def)
  qed
qed

lemma cut_step:
  assumes c: "cut_off s"
  shows "cut_off (transfer_step decode s ev)"
proof (cases ev)
  case (TrSend chunk)
  with c show ?thesis by (auto simp: cut_off_def enqueue_job_def)
next
  case TrEnd
  with c show ?thesis by (auto simp: cut_off_def enqueue_job_def)
next
  case (TrRun flushed)
  obtain fs tx where r: "run_sender flushed (tr_tx s) = (fs, tx)" by fastforce
  obtain er where er: "tx_error (tr_tx s) = Some er" using c by (auto simp: cut_off_def)
  have "tx_error (snd (send_loop flushed rest (tr_tx s))) \<noteq> None" for rest
    using er by (subst send_loop.simps) simp
  then have "tx_error (snd (run_sender flushed (tr_tx s))) \<noteq> None"
    using er by (auto simp: run_sender_def split: send_phase.splits list.splits)
  with c r TrRun show ?thesis by (simp add: cut_off_def)
next
  case TrRead
  show ?thesis
  proof (cases "rx_error (tr_rx s) = None \<and> rx_queue (tr_rx s) \<noteq> []")
    case True
    then obtain x q where "rx_queue (tr_rx s) = x # q" by (cases "rx_queue (tr_rx s)") auto
    with True c TrRead show ?thesis by (auto simp: cut_off_def take_next_def)
  next
    case False
    with c TrRead show ?thesis by (auto simp: cut_off_def take_next_def split: option.splits list.splits)
  qed
next
  case (TrBreak e)
  with c show ?thesis by (auto simp: cut_off_def fail_sender_error fail_receiver_def)
qed (use c in \<open>simp_all add: cut_off_def\<close>)

lemma transfer_step_ok:
  assumes "\<And>bs. decode (b64 bs) = bs" "transfer_ok s"
  shows "transfer_ok (transfer_step decode s ev)"
proof -
  from assms(2) consider ws e where "flowing ws e s" | "cut_off s" by (auto simp: transfer_ok_def)
  then show ?thesis
  proof cases
    case (1 ws e)
    have nb: "\<not> tr_broken s" using 1 by (simp add: flowing_def)
    have "(\<exists>ws e. flowing ws e (transfer_step decode s ev)) \<or> cut_off (transfer_step decode s ev)"
    proof (cases ev)
      case (TrRun flushed)
      obtain fs tx where "run_sender flushed (tr_tx s) = (fs, tx)" by fastforce
      with flow_run [OF 1 this] TrRun nb show ?thesis by simp
    next
      case TrRead
      with flow_read [OF 1] show ?thesis by blast
    next
      case TrDeliver
      with flow_deliver [OF assms(1) 1] show ?thesis by blast
    next
      case TrAck
      with flow_ack [OF 1] show ?thesis by blast
    next
      case (TrBreak e)
      with flow_break [OF 1] show ?thesis by blast
    next
      case (TrSend c)
      with flow_send [OF 1] 1 show ?thesis by auto
    next
      case TrEnd
      with flow_end [OF 1] 1 show ?thesis by auto
    qed
    then show ?thesis by (simp add: transfer_ok_def)
  next
    case 2
    then show ?thesis by (simp add: transfer_ok_def cut_step)
  qed
qed


subsection \<open>A decoder\<close>

text \<open>Decoding of what \<open>b64\<close> encodes, as an instance of the parameter.\<close>

definition b64_value :: "char \<Rightarrow> nat" where
  "b64_value c = length (takeWhile (\<lambda>x. x \<noteq> c) b64_alphabet) mod 64"

definition be24_bytes :: "nat \<Rightarrow> string" where
  "be24_bytes n = [byte (n div 65536), byte (n div 256), byte n]"

fun b64_decode :: "string \<Rightarrow> string" where
  "b64_decode (a # b # c # d # r) =
     take (if c = CHR ''='' then 1 else if d = CHR ''='' then 2 else 3)
       (be24_bytes (((b64_value a * 64 + b64_value b) * 64 + b64_value c) * 64 + b64_value d)) @ b64_decode r"
| "b64_decode _ = []"

lemma b64_value_char [simp]: "b64_value (b64_char n) = n mod 64"
proof -
  have "\<forall>m \<in> set [0..<64]. b64_value (b64_alphabet ! m) = m" by code_simp
  then show ?thesis by (simp add: b64_char_def)
qed

lemma b64_char_not_pad [simp]: "b64_char n \<noteq> CHR ''=''"
proof -
  have "CHR ''='' \<notin> set b64_alphabet" by (simp add: b64_alphabet_def)
  moreover have "n mod 64 < length b64_alphabet" by (simp add: b64_alphabet_def)
  ultimately show ?thesis unfolding b64_char_def by (metis nth_mem)
qed

lemma b64_value_pad [simp]: "b64_value (CHR ''='') = 0"
  by code_simp

lemma digits64:
  assumes "n < 16777216"
  shows "((n div 262144 mod 64 * 64 + n div 4096 mod 64) * 64 + n div 64 mod 64) * 64 + n mod 64 = (n :: nat)"
proof -
  have d: "n div 262144 = n div 4096 div 64" "n div 4096 = n div 64 div 64" by (simp_all add: div_mult2_eq [symmetric])
  have "n div 262144 < 64" using assms by simp
  then have "n div 262144 mod 64 * 64 + n div 4096 mod 64 = n div 4096" unfolding d(1) by simp
  moreover have "n div 4096 * 64 + n div 64 mod 64 = n div 64" unfolding d(2) by simp
  ultimately show ?thesis by simp
qed

lemma char_less: "of_char c < (256 :: nat)"
  by simp

lemma be24_less: "be24 a b c < 16777216"
  using char_less [of a] char_less [of b] char_less [of c] by (simp add: be24_def del: nat_of_char_less_256)

lemma shift256: "z < 256 \<Longrightarrow> (m * 256 + z) div 256 = m" "z < 256 \<Longrightarrow> (m * 256 + z) mod 256 = (z :: nat)"
  by simp_all

lemma be24_bytes_be24 [simp]: "be24_bytes (be24 a b c) = [a, b, c]"
proof -
  have d: "be24 a b c div 256 = of_char a * 256 + of_char b" "be24 a b c mod 256 = of_char c"
    unfolding be24_def by (rule shift256, rule char_less)+
  have "be24 a b c div 65536 = be24 a b c div 256 div 256" by (simp add: div_mult2_eq [symmetric])
  then have e: "be24 a b c div 65536 = of_char a" "be24 a b c div 256 mod 256 = of_char b"
    unfolding d by (simp_all only: shift256 char_less)
  show ?thesis by (simp add: be24_bytes_def byte_def e d(2))
qed

lemma b64_decode_b64: "b64_decode (b64 bs) = bs"
proof (induction bs rule: b64.induct)
  case (2 a)
  let ?n = "be24 a (CHR 0x00) (CHR 0x00)"
  have z: "?n div 64 mod 64 = 0" "?n mod 64 = 0" by (simp_all add: be24_def)
  have "?n div 262144 mod 64 = ?n div 262144" using be24_less [of a "CHR 0x00" "CHR 0x00"] by simp
  note z = z this
  show ?case using digits64 [OF be24_less [of a "CHR 0x00" "CHR 0x00"]] z by (simp add: b64_quad_def numeral_2_eq_2)
next
  case (3 a b)
  let ?n = "be24 a b (CHR 0x00)"
  have z: "?n mod 64 = 0" by (simp add: be24_def)
  have "?n div 262144 mod 64 = ?n div 262144" using be24_less [of a b "CHR 0x00"] by simp
  note z = z this
  show ?case using digits64 [OF be24_less [of a b "CHR 0x00"]] z by (simp add: b64_quad_def)
next
  case (4 a b c r)
  have "be24 a b c div 262144 mod 64 = be24 a b c div 262144" using be24_less [of a b c] by simp
  with digits64 [OF be24_less [of a b c]] 4 show ?case by (simp add: b64_quad_def)
qed simp


section \<open>Properties of a transfer\<close>

lemma transfer_reachable:
  assumes "\<And>bs. decode (b64 bs) = bs"
  shows "transfer_ok (foldl (transfer_step decode) (new_transfer sid req) evs)"
proof -
  have run: "transfer_ok s \<Longrightarrow> transfer_ok (foldl (transfer_step decode) s evs)" for s
    by (induction evs arbitrary: s) (simp_all add: transfer_step_ok [OF assms])
  show ?thesis by (rule run [OF new_transfer_ok])
qed

lemma flow_prefix: "flowing ws e s \<Longrightarrow> \<exists>more. tr_given s = tr_got s @ more"
proof -
  assume "flowing ws e s"
  then have "tr_given s = concat ws @ unwritten (tr_tx s)" "tr_got s = concat (take (rx_taken (tr_rx s)) ws)"
    by (simp_all add: flowing_def sent_ok_def read_ok_def)
  then show ?thesis using concat_append [of "take (rx_taken (tr_rx s)) ws" "drop (rx_taken (tr_rx s)) ws"]
    by (metis append.assoc append_take_drop_id)
qed

lemma flow_complete:
  assumes "flowing ws e s" "fst (take_next (tr_rx s)) = PullEnd"
  shows "tr_ended s \<and> tr_got s = tr_given s"
proof -
  have sent: "sent_ok ws e (tr_ended s) (tr_given s) (tr_tx s)" and rd: "read_ok ws e (tr_opened s) (tr_got s) (tr_rx s)"
    using assms(1) by (simp_all add: flowing_def)
  have "rx_done (tr_rx s)" "rx_queue (tr_rx s) = []"
    using assms(2) rd by (auto simp: take_next_def read_ok_def split: list.splits if_splits)
  with rd sent show ?thesis by (auto simp: read_ok_def sent_ok_def jobs_ok_def unwritten_def)
qed

text \<open>
  C21: A stream is a FIFO of bytes. However sends, turns of the sender, deliveries, reads and
  acknowledgements interleave, and wherever the connection breaks, the receiver never refuses a
  frame of the sender (its window is never overrun), what the reader has got is a prefix of what the
  producer passed to \<open>send\<close>, and the reader sees the end only after the producer called \<open>end\<close> and
  every byte was read.
\<close>

theorem stream_is_byte_fifo:
  assumes "\<And>bs. decode (b64 bs) = bs"
  and "s = foldl (transfer_step decode) (new_transfer sid req) evs"
  shows "tr_refused s = None \<and> (\<exists>more. tr_given s = tr_got s @ more) \<and>
    (fst (take_next (tr_rx s)) = PullEnd \<longrightarrow> tr_ended s \<and> tr_got s = tr_given s)"
proof -
  have "transfer_ok s" unfolding assms(2) by (rule transfer_reachable [OF assms(1)])
  then consider ws e where "flowing ws e s" | "cut_off s" by (auto simp: transfer_ok_def)
  then show ?thesis
  proof cases
    case (1 ws e)
    with flow_prefix [OF 1] flow_complete [OF 1] show ?thesis by (auto simp: flowing_def)
  next
    case 2
    then show ?thesis by (auto simp: cut_off_def take_next_def split: option.splits list.splits if_splits)
  qed
qed


text \<open>A short transfer, run to its end.\<close>

definition demo_transfer :: "transfer_event list" where
  "demo_transfer = [TrSend ''abcd'', TrRun (\<lambda>_. True), TrSend ''e'', TrEnd, TrDeliver, TrDeliver, TrRead,
     TrAck, TrRun (\<lambda>_. False), TrRun (\<lambda>_. True), TrRun (\<lambda>_. True), TrDeliver, TrRead, TrDeliver]"

lemma send_small: "0 < length c \<Longrightarrow> length c \<le> STREAM_CHUNK_BYTES \<Longrightarrow> tx_error s = None \<Longrightarrow> tx_seq s - tx_acked s < STREAM_WINDOW \<Longrightarrow>
    send_loop flushed c s = (let s' = s\<lparr>tx_bytes := tx_bytes s + length c, tx_seq := Suc (tx_seq s)\<rparr> in
      ([data_frame (tx_stream s) (tx_seq s) c], if flushed (tx_seq s) then job_done None s' else s'\<lparr>tx_phase := SDrain []\<rparr>))"
  by (subst send_loop.simps) (auto simp: Let_def send_loop.simps [of _ "[]"])

lemma push_first:
  assumes "\<not> rx_done r" "length c \<le> STREAM_CHUNK_BYTES" "rx_queue r = []" "k = int (rx_nextSeq r)"
  shows "push_chunk b64_decode (VInt k) (VStr (b64 c)) r =
    Inr (r\<lparr>rx_nextSeq := Suc (rx_nextSeq r), rx_bytes := rx_bytes r + length c, rx_queue := [c]\<rparr>)"
  using push_ok [of b64_decode r c] assms b64_decode_b64 by (simp add: STREAM_WINDOW_def)

lemma demo_transfer_end:
  defines "s \<equiv> foldl (transfer_step b64_decode) (new_transfer ''s'' ''r'') demo_transfer"
  shows "tr_got s = ''abcde'' \<and> fst (take_next (tr_rx s)) = PullEnd \<and> tr_given s = ''abcde''"
  by (simp add: s_def demo_transfer_def new_transfer_def new_sender_def new_receiver_def enqueue_job_def
      run_sender_def open_stream_def send_small push_first STREAM_CHUNK_BYTES_def STREAM_WINDOW_def job_done_def
      take_next_def ack_sender_def acked_up_to_def end_chunks_def send_loop.simps [of _ "[]"]
      del: b64.simps b64_decode.simps)

theorem stream_is_byte_fifo_witness:
  "tr_ended (foldl (transfer_step b64_decode) (new_transfer ''s'' ''r'') demo_transfer) \<and>
   tr_refused (foldl (transfer_step b64_decode) (new_transfer ''s'' ''r'') demo_transfer) = None"
  using stream_is_byte_fifo [OF b64_decode_b64 refl, of "''s''" "''r''" demo_transfer] demo_transfer_end by blast


definition demo_frames :: "table_event list" where
  "demo_frames = [EvReceiver ''s'' ''r'' True, EvSender ''u'' ''q'' True, EvFrame (open_frame ''s'' ''r''),
     EvFrame (data_frame ''s'' 0 ''abcd'')]"

lemma demo_table:
  "foldl (table_step b64_decode) new_table demo_frames =
     \<lparr>live = [(''s'', \<lparr>se_request = ''r'', se_receiver = Some 0, se_sender = None, se_opened = True, se_onAbort = True\<rparr>),
        (''u'', \<lparr>se_request = ''q'', se_receiver = None, se_sender = Some 0, se_opened = False, se_onAbort = True\<rparr>)],
      rxs = [(new_receiver ''s'')\<lparr>rx_nextSeq := 1, rx_bytes := 4, rx_queue := [''abcd'']\<rparr>], txs = [new_sender ''u'' ''q''],
      wire = [], told = []\<rparr>"
proof -
  have req: "receive_frame b64_decode (open_frame ''s'' ''r'') ''r'' False r = Inr (True, r)" for r by simp
  have push: "push_chunk b64_decode (VInt 0) (VStr (b64 ''abcd'')) (new_receiver ''s'') =
      Inr ((new_receiver ''s'')\<lparr>rx_nextSeq := 1, rx_bytes := 4, rx_queue := [''abcd'']\<rparr>)"
    by (subst push_first) (simp_all add: new_receiver_def STREAM_CHUNK_BYTES_def)
  have ids: "field_of (VObj (open_frame sid rq)) ''streamId'' = VStr sid" "field_of (VObj (open_frame sid rq)) ''type'' = VStr ''streamOpen''"
    "field_of (VObj (data_frame sid n c)) ''streamId'' = VStr sid" "field_of (VObj (data_frame sid n c)) ''type'' = VStr ''streamData''"
    for sid rq n c by (simp_all add: open_frame_def data_frame_def)
  show ?thesis
    by (simp add: demo_frames_def new_table_def table_receiver_def table_sender_def table_handle_def ids Let_def push
        del: field_of.simps b64.simps)
qed

theorem stream_buffers_bounded_witness:
  "list_all (\<lambda>r. length (rx_queue r) \<le> 8) (rxs (foldl (table_step b64_decode) new_table demo_frames))"
  unfolding list_all_iff using stream_buffers_bounded [OF refl, of b64_decode demo_frames] by blast

theorem frame_touches_own_stream_witness:
  "txs (table_handle b64_decode (abort_frame ''s'' ''X'') (foldl (table_step b64_decode) new_table demo_frames)) ! 0 = new_sender ''u'' ''q''"
proof -
  have f: "map_of (abort_frame ''s'' ''X'') ''streamId'' = Some (VStr ''s'')" by (simp add: abort_frame_def)
  show ?thesis
    using frame_touches_own_stream [OF refl f refl, of b64_decode demo_frames] unfolding demo_table
    by (simp add: new_sender_def)
qed

end
