(* ===== verification/Envelope.thy ===== *)
theory Envelope
  imports Json
begin

text \<open>
  Authority on the wire: \<open>HmacEnvelopeSigner\<close> (packages/ipc/src/envelope.ts),
  \<open>parseOperationEnvelope\<close> and \<open>validateScope\<close> (packages/protocol/src/worker.ts), and the
  \<open>execute\<close> handler of the worker server (apps/worker/src/server.ts) up to the call of the
  operation itself.

  An envelope is the JSON object that travels, not a typed record: that is what the worker
  receives and what is signed. HMAC-SHA256, \<open>Date.parse\<close> (implementation-defined for the
  texts a peer may send) and \<open>toISOString\<close> belong to the host: they are the fields of
  \<open>host_fns\<close>, and every theorem holds for all of them.
\<close>

record host_fns =
  hmac :: "string \<Rightarrow> string \<Rightarrow> string"
  date_parse :: "string \<Rightarrow> int option"
  iso_string :: "int \<Rightarrow> string"

datatype envelope_error =
    WrongDaemonInstance | InvalidMac | ExpiredEnvelope | FutureIssued | ReplayNonce | BadMacType
  | InvalidEnvelope string | ScopeInvalid

section \<open>The signer\<close>

record signer =
  secret :: string
  daemonInstanceId :: string
  maxClockSkewMs :: int
  seen :: "(jsv, int) jsmap"

definition new_signer :: "string \<Rightarrow> string \<Rightarrow> signer" where
  "new_signer key daemon =
     \<lparr>secret = key, daemonInstanceId = daemon, maxClockSkewMs = 30000, seen = []\<rparr>"

definition envelope_mac :: "host_fns \<Rightarrow> string \<Rightarrow> jsv \<Rightarrow> string" where
  "envelope_mac h key v = hmac h key (canonical v)"

definition sign :: "host_fns \<Rightarrow> signer \<Rightarrow> (string, jsv) jsmap \<Rightarrow> envelope_error + (string, jsv) jsmap" where
  "sign h sg input =
     (if field_of (VObj input) ''daemonInstanceId'' \<noteq> VStr (daemonInstanceId sg)
      then Inl WrongDaemonInstance
      else Inr (AList.update ''mac'' (VStr (envelope_mac h (secret sg) (VObj input))) input))"

definition prune :: "int \<Rightarrow> (jsv, int) jsmap \<Rightarrow> (jsv, int) jsmap" where
  "prune now m = filter (\<lambda>(n, e). \<not> e < now) m"

definition verify :: "host_fns \<Rightarrow> (string, jsv) jsmap \<Rightarrow> int
    \<Rightarrow> (signer, envelope_error, (string, jsv) jsmap) eff" where
  "verify h env t sg =
     (case field_of (VObj env) ''mac'' of
        VStr claimed \<Rightarrow>
          let body = AList.delete ''mac'' env;
              expected = envelope_mac h (secret sg) (VObj body)
          in if claimed \<noteq> expected then (Inl InvalidMac, sg)
          else if field_of (VObj env) ''daemonInstanceId'' \<noteq> VStr (daemonInstanceId sg)
          then (Inl WrongDaemonInstance, sg)
          else (case (date_parse h (js_string (field_of (VObj env) ''issuedAt'')),
                      date_parse h (js_string (field_of (VObj env) ''expiresAt''))) of
              (Some issued, Some expires) \<Rightarrow>
                if expires < t then (Inl ExpiredEnvelope, sg)
                else if issued > t + maxClockSkewMs sg then (Inl FutureIssued, sg)
                else let seen' = prune t (seen sg);
                         nonce = field_of (VObj env) ''nonce''
                  in if nonce \<in> set (jkeys seen') then (Inl ReplayNonce, sg\<lparr>seen := seen'\<rparr>)
                  else (Inr (AList.update ''verifiedAt'' (VStr (iso_string h t)) env),
                        sg\<lparr>seen := AList.update nonce expires seen'\<rparr>)
            | _ \<Rightarrow> (Inl ExpiredEnvelope, sg))
      | _ \<Rightarrow> (Inl BadMacType, sg))"

section \<open>Parsing and scope\<close>

definition operation_kinds :: "string list" where
  "operation_kinds =
    [''file.list'', ''file.read'', ''file.search'', ''search.multi'', ''hook.run'', ''file.create'',
     ''file.write'', ''file.patch'', ''file.move'', ''file.delete'', ''git.status'', ''git.add'',
     ''git.diff'', ''git.log'', ''git.branch'', ''git.commit'', ''git.push'', ''command.run'',
     ''process.start'', ''process.list'', ''process.status'', ''process.wait'', ''process.logs'',
     ''process.stop'', ''process.restart'', ''recovery.snapshot'', ''recovery.restore'',
     ''recovery.discard'', ''sandbox.inspect'',
     ''browser.connect'', ''browser.tabs'', ''browser.navigate'', ''browser.snapshot'',
     ''browser.read'', ''browser.act'', ''browser.logs'', ''browser.disconnect'', ''browser.status'',
     ''desktop.connect'', ''desktop.status'', ''desktop.disconnect'', ''desktop.apps'',
     ''desktop.windows'', ''desktop.targetIdentity'', ''desktop.describe'', ''desktop.capture'',
     ''desktop.act'', ''desktop.backgroundAct'', ''desktop.releaseWindow'', ''desktop.invalidateOwner'',
     ''mcp.upstream.connect'', ''mcp.upstream.disconnect'', ''mcp.upstream.status'',
     ''mcp.upstream.catalog'', ''mcp.upstream.call'', ''files.download.entry'', ''files.upload.stat'',
     ''files.upload.read'']"

definition starts_with :: "string \<Rightarrow> string \<Rightarrow> bool" where
  "starts_with s p = (take (length p) s = p)"

definition validateScope :: "jsv \<Rightarrow> string \<Rightarrow> jsv list \<Rightarrow> envelope_error + unit" where
  "validateScope scope kind roots =
     (if field_of scope ''kind'' = VStr ''host-control'' then
        let prefix = (if field_of scope ''capability'' = VStr ''browser.control'' then ''browser.''
                      else if field_of scope ''capability'' = VStr ''desktop.control'' then ''desktop.''
                      else [])
        in if prefix = [] \<or> length roots \<noteq> 0 \<or> \<not> starts_with kind prefix then Inl ScopeInvalid
           else Inr ()
      else Inr ())"

definition nonempty_string :: "jsv \<Rightarrow> bool" where
  "nonempty_string v = (case v of VStr s \<Rightarrow> s \<noteq> [] | _ \<Rightarrow> False)"

fun require_strings :: "jsv \<Rightarrow> string list \<Rightarrow> envelope_error + unit" where
  "require_strings r [] = Inr ()"
| "require_strings r (k # ks) =
     (if nonempty_string (field_of r k) then require_strings r ks
      else Inl (InvalidEnvelope (''Invalid '' @ k)))"

definition check_scope :: "jsv \<Rightarrow> string \<Rightarrow> envelope_error + unit" where
  "check_scope r kind =
     (let scope = field_of r ''scope'' in
      if scope \<noteq> VUndef then
        if \<not> is_object scope then Inl (InvalidEnvelope ''Expected object'')
        else if field_of scope ''kind'' = VStr ''host-control'' then
          let identity = field_of scope ''identity'' in
          if field_of r ''workspaceId'' \<noteq> VStr []
            \<or> (field_of scope ''capability'' \<noteq> VStr ''browser.control''
               \<and> field_of scope ''capability'' \<noteq> VStr ''desktop.control'')
            \<or> \<not> js_truthy identity
            \<or> js_string (field_of identity ''kind'') \<notin> {''oauth'', ''connector'', ''session''}
            \<or> \<not> nonempty_string (field_of identity ''key'')
          then Inl ScopeInvalid
          else (case field_of r ''capabilityRoots'' of
                  VArr roots \<Rightarrow> validateScope scope kind roots
                | _ \<Rightarrow> Inl (InvalidEnvelope ''Invalid capabilityRoots''))
        else if field_of scope ''kind'' \<noteq> VStr ''workspace''
          \<or> \<not> nonempty_string (field_of scope ''workspaceId'')
          \<or> field_of scope ''workspaceId'' \<noteq> field_of r ''workspaceId''
        then Inl (InvalidEnvelope ''Invalid scope'')
        else Inr ()
      else if \<not> nonempty_string (field_of r ''workspaceId'')
      then Inl (InvalidEnvelope ''Invalid workspaceId'')
      else Inr ())"

definition parseOperationEnvelope :: "jsv \<Rightarrow> envelope_error + (string, jsv) jsmap" where
  "parseOperationEnvelope value =
     (case value of
        VObj ms \<Rightarrow>
          (let r = VObj ms; op = field_of r ''operation'' in
           if field_of r ''version'' \<noteq> VInt 1 then Inl (InvalidEnvelope ''Unsupported envelope version'')
           else if \<not> is_object op then Inl (InvalidEnvelope ''Expected object'')
           else (case field_of op ''kind'' of
               VStr kind \<Rightarrow>
                 if kind \<notin> set operation_kinds then Inl (InvalidEnvelope ''Unknown operation kind'')
                 else tryE (require_strings r [''daemonInstanceId'', ''operationId'', ''sessionId'',
                        ''issuedAt'', ''expiresAt'', ''nonce'', ''mac'']) (\<lambda>_.
                   tryE (check_scope r kind) (\<lambda>_.
                     if field_of r ''executionMode'' \<noteq> VStr ''sandbox''
                        \<and> field_of r ''executionMode'' \<noteq> VStr ''host''
                     then Inl (InvalidEnvelope ''Invalid executionMode'')
                     else if \<not> is_array (field_of r ''capabilityRoots'')
                     then Inl (InvalidEnvelope ''Invalid capabilityRoots'')
                     else Inr ms))
             | _ \<Rightarrow> Inl (InvalidEnvelope ''Unknown operation kind'')))
      | _ \<Rightarrow> Inl (InvalidEnvelope ''Expected object''))"

text \<open>
  The worker's \<open>execute\<close>: parse, verify, and the scope check the dispatcher makes before it
  looks at the operation. \<open>Inr\<close> is the envelope handed to the operation.
\<close>

definition dispatch_scope :: "(string, jsv) jsmap \<Rightarrow> envelope_error + (string, jsv) jsmap" where
  "dispatch_scope env =
     (if field_of (field_of (VObj env) ''scope'') ''kind'' = VStr ''host-control'' then
        (case (field_of (field_of (VObj env) ''operation'') ''kind'',
               field_of (VObj env) ''capabilityRoots'') of
           (VStr kind, VArr roots) \<Rightarrow>
             tryE (validateScope (field_of (VObj env) ''scope'') kind roots) (\<lambda>_. Inr env)
         | _ \<Rightarrow> Inl ScopeInvalid)
      else Inr env)"

definition worker_execute :: "host_fns \<Rightarrow> jsv \<Rightarrow> int
    \<Rightarrow> (signer, envelope_error, (string, jsv) jsmap) eff" where
  "worker_execute h raw t sg =
     (case parseOperationEnvelope raw of
        Inl e \<Rightarrow> (Inl e, sg)
      | Inr env \<Rightarrow>
          (case verify h env t sg of
             (Inl e, sg') \<Rightarrow> (Inl e, sg')
           | (Inr v, sg') \<Rightarrow> (dispatch_scope v, sg')))"


section \<open>Verification\<close>

lemma is_undef_iff: "is_undef v \<longleftrightarrow> v = VUndef"
  by (cases v) simp_all

lemma sorted_norm_defined: "sorted_obj f (norm v) \<noteq> VUndef" "VUndef \<noteq> sorted_obj f (norm v)"
  using no_undef_sorted_obj [OF no_undef_norm, of f v] by (metis no_undef.simps(1))+

lemma prune_keeps: "(n, e) \<in> set (prune t m) \<longleftrightarrow> (n, e) \<in> set m \<and> t \<le> e"
  by (auto simp: prune_def)

lemma verify_accept_iff:
  "verify h env t sg = (Inr v, sg') \<longleftrightarrow>
    (\<exists>issued expires.
       field_of (VObj env) ''mac'' = VStr (envelope_mac h (secret sg) (VObj (AList.delete ''mac'' env)))
     \<and> field_of (VObj env) ''daemonInstanceId'' = VStr (daemonInstanceId sg)
     \<and> date_parse h (js_string (field_of (VObj env) ''issuedAt'')) = Some issued
     \<and> date_parse h (js_string (field_of (VObj env) ''expiresAt'')) = Some expires
     \<and> t \<le> expires \<and> issued \<le> t + maxClockSkewMs sg
     \<and> field_of (VObj env) ''nonce'' \<notin> set (jkeys (prune t (seen sg)))
     \<and> v = AList.update ''verifiedAt'' (VStr (iso_string h t)) env
     \<and> sg' = sg\<lparr>seen := AList.update (field_of (VObj env) ''nonce'') expires (prune t (seen sg))\<rparr>)"
  by (auto simp: verify_def Let_def simp del: field_of.simps split: jsv.splits option.splits if_splits)

lemma verify_frame:
  "verify h env t sg = (r, sg') \<Longrightarrow>
     secret sg' = secret sg \<and> daemonInstanceId sg' = daemonInstanceId sg
     \<and> maxClockSkewMs sg' = maxClockSkewMs sg"
  by (auto simp: verify_def Let_def simp del: field_of.simps split: jsv.splits option.splits if_splits)

lemma verify_keeps_seen:
  assumes "verify h env t sg = (r, sg')" "(n, e) \<in> set (seen sg)" "t \<le> e"
  shows "(n, e) \<in> set (seen sg')"
proof -
  have pr: "(n, e) \<in> set (prune t (seen sg))" using assms(2,3) by (simp add: prune_keeps)
  have upd: "(n, e) \<in> set (AList.update k x (prune t (seen sg)))"
    if "k \<notin> set (jkeys (prune t (seen sg)))" for k x
    using that pr by (simp add: update_fresh)
  from assms(1) pr assms(2) upd show ?thesis
    by (auto simp: verify_def Let_def simp del: field_of.simps split: jsv.splits option.splits if_splits)
qed

text \<open>A worker answers any sequence of envelopes, each at its own time.\<close>

definition verify_step :: "host_fns \<Rightarrow> signer \<Rightarrow> (string, jsv) jsmap \<times> int \<Rightarrow> signer" where
  "verify_step h sg ev = (case ev of (env, t) \<Rightarrow> snd (verify h env t sg))"

interpretation nonce_memory: invariant_system "\<lambda>sg ev. if snd ev \<le> e then verify_step h sg ev else sg"
    "\<lambda>sg. (n, e) \<in> set (seen sg)" for h n e
proof
  fix sg :: signer and ev :: "(string, jsv) jsmap \<times> int"
  assume "(n, e) \<in> set (seen sg)"
  then show "(n, e) \<in> set (seen (if snd ev \<le> e then verify_step h sg ev else sg))"
    using verify_keeps_seen [of h "fst ev" "snd ev" sg]
    by (cases ev; cases "verify h (fst ev) (snd ev) sg") (auto simp: verify_step_def)
qed

lemma nonce_remembered:
  assumes "(n, e) \<in> set (seen sg)" "\<And>ev. ev \<in> set evs \<Longrightarrow> snd ev \<le> e"
  shows "(n, e) \<in> set (seen (foldl (verify_step h) sg evs))"
proof -
  have "foldl (\<lambda>sg ev. if snd ev \<le> e then verify_step h sg ev else sg) sg evs
      = foldl (verify_step h) sg evs"
    using assms(2) by (induction evs arbitrary: sg) auto
  with nonce_memory.run_inv [of n e sg h evs] assms(1) show ?thesis by simp
qed

section \<open>Parsing\<close>

lemma require_strings_iff:
  "require_strings r ks = Inr u \<longleftrightarrow> (\<forall>k \<in> set ks. nonempty_string (field_of r k))"
  by (induction ks) auto

lemma nonempty_string_iff: "nonempty_string v \<longleftrightarrow> (\<exists>s. v = VStr s \<and> s \<noteq> [])"
  by (cases v) (auto simp: nonempty_string_def)

lemma parse_accepts:
  assumes "parseOperationEnvelope raw = Inr ms"
  shows "raw = VObj ms" "field_of raw ''executionMode'' \<in> {VStr ''sandbox'', VStr ''host''}"
    and "\<exists>kind roots. field_of (field_of raw ''operation'') ''kind'' = VStr kind
      \<and> kind \<in> set operation_kinds \<and> field_of raw ''capabilityRoots'' = VArr roots
      \<and> check_scope raw kind = Inr ()"
    and "k \<in> {''daemonInstanceId'', ''operationId'', ''sessionId'', ''issuedAt'', ''expiresAt'', ''nonce'', ''mac''}
      \<Longrightarrow> nonempty_string (field_of raw k)"
proof -
  from assms obtain ms' where raw: "raw = VObj ms'"
    by (auto simp: parseOperationEnvelope_def split: jsv.splits)
  with assms obtain kind where k: "field_of (field_of raw ''operation'') ''kind'' = VStr kind"
    by (auto simp: parseOperationEnvelope_def Let_def simp del: field_of.simps split: jsv.splits if_splits)
  note defs = parseOperationEnvelope_def Let_def tryE_Inr_iff require_strings_iff
  from assms raw k show "raw = VObj ms"
    by (auto simp: defs simp del: field_of.simps split: if_splits)
  from assms raw k show "field_of raw ''executionMode'' \<in> {VStr ''sandbox'', VStr ''host''}"
    by (auto simp: defs simp del: field_of.simps split: if_splits)
  from assms raw k have "is_array (field_of raw ''capabilityRoots'')" "kind \<in> set operation_kinds"
    "check_scope raw kind = Inr ()"
    by (auto simp: defs simp del: field_of.simps split: if_splits)
  with k show "\<exists>kind roots. field_of (field_of raw ''operation'') ''kind'' = VStr kind
      \<and> kind \<in> set operation_kinds \<and> field_of raw ''capabilityRoots'' = VArr roots
      \<and> check_scope raw kind = Inr ()"
    by (cases "field_of raw ''capabilityRoots''") auto
  show "nonempty_string (field_of raw k)"
    if "k \<in> {''daemonInstanceId'', ''operationId'', ''sessionId'', ''issuedAt'', ''expiresAt'', ''nonce'', ''mac''}"
    using assms raw k that by (auto simp: defs simp del: field_of.simps split: if_splits)
qed

lemma delete_update_fresh: "k \<notin> set (jkeys m) \<Longrightarrow> AList.delete k (AList.update k v m) = m"
  by (simp add: update_fresh AList.delete_eq filter_id_conv image_iff split_def)

lemma norm_VObj_delete:
  "norm (VObj ms) = VObj ms' \<Longrightarrow> norm (VObj (AList.delete k ms)) = VObj (AList.delete k ms')"
  by (auto simp: AList.delete_eq filter_map comp_def split_def intro!: arg_cong [where f = "map _"] filter_cong)

lemma validateScope_host:
  "validateScope scope kind roots = Inr u \<Longrightarrow> field_of scope ''kind'' = VStr ''host-control'' \<Longrightarrow>
    roots = [] \<and> (field_of scope ''capability'' = VStr ''browser.control'' \<and> starts_with kind ''browser.''
      \<or> field_of scope ''capability'' = VStr ''desktop.control'' \<and> starts_with kind ''desktop.'')"
  by (auto simp: validateScope_def Let_def simp del: field_of.simps split: if_splits)

lemma check_scope_host:
  assumes "check_scope r kind = Inr u" "field_of (field_of r ''scope'') ''kind'' = VStr ''host-control''"
    and "field_of r ''capabilityRoots'' = VArr roots"
  shows "validateScope (field_of r ''scope'') kind roots = Inr ()"
proof -
  have "field_of r ''scope'' \<noteq> VUndef"
    using assms(2) by (cases "field_of r ''scope''") simp_all
  with assms show ?thesis
    by (auto simp: check_scope_def Let_def simp del: field_of.simps split: if_splits)
qed

section \<open>Acceptance\<close>

lemma signed_verifies:
  assumes signed: "sign h sg input = Inr env" and wf: "wf_jsv (VObj input)"
    and fresh_mac: "''mac'' \<notin> set (jkeys input)"
    and wire: "norm (VObj env) = VObj env'"
    and peer: "secret sw = secret sg" "daemonInstanceId sw = daemonInstanceId sg"
    and issued: "field_of (VObj input) ''issuedAt'' = VStr i" "date_parse h i = Some ti"
      "ti \<le> t + maxClockSkewMs sw"
    and expires: "field_of (VObj input) ''expiresAt'' = VStr x" "date_parse h x = Some tx" "t \<le> tx"
    and nonce: "field_of (VObj input) ''nonce'' = VStr n" "VStr n \<notin> set (jkeys (prune t (seen sw)))"
  shows "verify h env' t sw
    = (Inr (AList.update ''verifiedAt'' (VStr (iso_string h t)) env'),
       sw\<lparr>seen := AList.update (VStr n) tx (prune t (seen sw))\<rparr>)"
proof -
  define m where "m = envelope_mac h (secret sg) (VObj input)"
  from signed have env: "env = AList.update ''mac'' (VStr m) input"
    and daemon: "field_of (VObj input) ''daemonInstanceId'' = VStr (daemonInstanceId sg)"
    by (auto simp: sign_def m_def simp del: field_of.simps split: if_splits)
  have wf_env: "wf_map env" using wf env by simp
  have field: "field_of (VObj env') k = VStr z" if "field_of (VObj env) k = VStr z" for k z
    using field_of_norm [OF wf_env, of k] that wire by (simp del: field_of.simps)
  have "norm (VObj input) = VObj (AList.delete ''mac'' env')"
    using norm_VObj_delete [OF wire, of "''mac''"] by (simp only: env delete_update_fresh [OF fresh_mac])
  then have "envelope_mac h (secret sw) (VObj (AList.delete ''mac'' env')) = m"
    using peer(1) canonical_norm [of "VObj input"] by (simp add: m_def envelope_mac_def del: norm.simps)
  moreover have "field_of (VObj env') ''mac'' = VStr m"
    by (rule field) (simp add: env del: field_of.simps)
  moreover have "field_of (VObj env') ''daemonInstanceId'' = VStr (daemonInstanceId sw)"
    by (rule field) (simp add: env daemon peer(2) del: field_of.simps)
  moreover have "field_of (VObj env') ''issuedAt'' = VStr i"
    by (rule field) (simp add: env issued del: field_of.simps)
  moreover have "field_of (VObj env') ''expiresAt'' = VStr x"
    by (rule field) (simp add: env expires del: field_of.simps)
  moreover have "field_of (VObj env') ''nonce'' = VStr n"
    by (rule field) (simp add: env nonce del: field_of.simps)
  ultimately show ?thesis
    using issued expires nonce by (simp add: verify_accept_iff del: field_of.simps)
qed

lemma worker_execute_accepts:
  assumes "worker_execute h raw t sg = (Inr v, sg')"
  shows "\<exists>env kind roots. raw = VObj env \<and> verify h env t sg = (Inr v, sg')
    \<and> field_of (field_of raw ''operation'') ''kind'' = VStr kind \<and> kind \<in> set operation_kinds
    \<and> field_of raw ''capabilityRoots'' = VArr roots
    \<and> (field_of (field_of raw ''scope'') ''kind'' = VStr ''host-control'' \<longrightarrow>
        roots = [] \<and>
        (field_of (field_of raw ''scope'') ''capability'' = VStr ''browser.control'' \<and> starts_with kind ''browser.''
         \<or> field_of (field_of raw ''scope'') ''capability'' = VStr ''desktop.control'' \<and> starts_with kind ''desktop.''))"
proof -
  from assms obtain env w where env: "parseOperationEnvelope raw = Inr env"
    "verify h env t sg = (Inr w, sg')" "dispatch_scope w = Inr v"
    by (auto simp: worker_execute_def split: sum.splits prod.splits)
  from parse_accepts(1,3) [OF env(1)] obtain kind roots where raw: "raw = VObj env"
    "field_of (field_of raw ''operation'') ''kind'' = VStr kind" "kind \<in> set operation_kinds"
    "field_of raw ''capabilityRoots'' = VArr roots" "check_scope raw kind = Inr ()" by blast
  from env(3) have "w = v"
    by (auto simp: dispatch_scope_def tryE_Inr_iff simp del: field_of.simps split: if_splits jsv.splits)
  have "roots = [] \<and>
      (field_of (field_of raw ''scope'') ''capability'' = VStr ''browser.control'' \<and> starts_with kind ''browser.''
       \<or> field_of (field_of raw ''scope'') ''capability'' = VStr ''desktop.control'' \<and> starts_with kind ''desktop.'')"
    if host: "field_of (field_of raw ''scope'') ''kind'' = VStr ''host-control''"
    using validateScope_host [OF check_scope_host [OF raw(5) host raw(4)] host] .
  with env raw \<open>w = v\<close> show ?thesis by blast
qed

text \<open>A concrete host and envelope, for the witnesses below.\<close>

definition demo_host :: host_fns where
  "demo_host = \<lparr>hmac = (\<lambda>key text. key @ text), date_parse = (\<lambda>s. Some (int (length s))),
     iso_string = show_int\<rparr>"

definition demo_body :: "(string, jsv) jsmap" where
  "demo_body =
    [(''version'', VInt 1), (''daemonInstanceId'', VStr ''d''), (''operationId'', VStr ''op''),
     (''sessionId'', VStr ''s''), (''workspaceId'', VStr []),
     (''scope'', VObj [(''kind'', VStr ''host-control''), (''capability'', VStr ''browser.control''),
        (''identity'', VObj [(''kind'', VStr ''oauth''), (''key'', VStr ''k'')])]),
     (''issuedAt'', VStr ''a''), (''expiresAt'', VStr ''bbbbb''), (''nonce'', VStr ''n''),
     (''executionMode'', VStr ''host''), (''capabilityRoots'', VArr []),
     (''operation'', VObj [(''kind'', VStr ''browser.tabs'')])]"

definition demo_envelope :: "(string, jsv) jsmap" where
  "demo_envelope = (case sign demo_host (new_signer ''key'' ''d'') demo_body of Inr e \<Rightarrow> e | Inl _ \<Rightarrow> [])"

lemma demo_sign: "sign demo_host (new_signer ''key'' ''d'') demo_body = Inr demo_envelope"
  by (simp add: demo_envelope_def sign_def new_signer_def demo_body_def)

lemma demo_wf: "wf_jsv (VObj demo_body)" "no_undef (VObj demo_body)" "''mac'' \<notin> set (jkeys demo_body)"
  by (simp_all add: demo_body_def wf_map_def)

lemma demo_envelope_eq:
  "demo_envelope = AList.update ''mac'' (VStr (envelope_mac demo_host ''key'' (VObj demo_body))) demo_body"
  using demo_sign by (simp add: sign_def new_signer_def split: if_splits)

lemma demo_mac_nonempty: "envelope_mac demo_host ''key'' v \<noteq> []"
  by (simp add: envelope_mac_def demo_host_def)

lemma demo_wire: "norm (VObj demo_envelope) = VObj demo_envelope"
  using demo_wf(2) set_update_subset [of "''mac''" _ demo_body]
  by (intro norm_no_undef) (fastforce simp: demo_envelope_eq)

lemma demo_accept:
  "verify demo_host demo_envelope 3 (new_signer ''key'' ''d'')
    = (Inr (AList.update ''verifiedAt'' (VStr (iso_string demo_host 3)) demo_envelope),
       (new_signer ''key'' ''d'')\<lparr>seen := [(VStr ''n'', 5)]\<rparr>)"
proof -
  have "field_of (VObj demo_envelope) k = field_of (VObj demo_body) k" if "k \<noteq> ''mac''" for k
    using that by (simp add: demo_envelope_eq)
  then show ?thesis
    unfolding verify_accept_iff
    by (simp add: demo_envelope_eq delete_update_fresh [OF demo_wf(3)] new_signer_def prune_def demo_host_def)
       (simp add: demo_body_def)
qed

section \<open>Properties\<close>

text \<open>
  \<open>verify\<close> accepts exactly the envelopes that carry the MAC of their own body, name this
  daemon, are inside their validity window and bear a nonce not in memory; it then records
  the nonce until the envelope expires and adds only \<open>verifiedAt\<close>.
\<close>

theorem verify_accepts_exactly:
  "verify h env t sg = (Inr v, sg') \<longleftrightarrow>
    (\<exists>issued expires.
       field_of (VObj env) ''mac'' = VStr (envelope_mac h (secret sg) (VObj (AList.delete ''mac'' env)))
     \<and> field_of (VObj env) ''daemonInstanceId'' = VStr (daemonInstanceId sg)
     \<and> date_parse h (js_string (field_of (VObj env) ''issuedAt'')) = Some issued
     \<and> date_parse h (js_string (field_of (VObj env) ''expiresAt'')) = Some expires
     \<and> t \<le> expires \<and> issued \<le> t + maxClockSkewMs sg
     \<and> field_of (VObj env) ''nonce'' \<notin> set (jkeys (prune t (seen sg)))
     \<and> v = AList.update ''verifiedAt'' (VStr (iso_string h t)) env
     \<and> sg' = sg\<lparr>seen := AList.update (field_of (VObj env) ''nonce'') expires (prune t (seen sg))\<rparr>)"
  by (rule verify_accept_iff)

text \<open>
  An envelope is accepted at most once: after it was accepted, whatever was verified in
  between by a clock that never ran past the later reading, the same envelope is refused.
\<close>

theorem envelope_never_replayed:
  assumes first: "verify h env t1 sg = (Inr v, sg1)"
    and clock: "\<And>ev. ev \<in> set evs \<Longrightarrow> snd ev \<le> t2"
  shows "\<exists>e sg2. verify h env t2 (foldl (verify_step h) sg1 evs) = (Inl e, sg2)"
proof -
  let ?sg = "foldl (verify_step h) sg1 evs"
  let ?n = "field_of (VObj env) ''nonce''"
  from first obtain expires where
    exp: "date_parse h (js_string (field_of (VObj env) ''expiresAt'')) = Some expires"
    and mem: "(?n, expires) \<in> set (seen sg1)"
    by (auto simp: verify_accept_iff update_fresh simp del: field_of.simps)
  have "\<not> (\<exists>v sg2. verify h env t2 ?sg = (Inr v, sg2))"
  proof (cases "t2 \<le> expires")
    case True
    with clock have "snd ev \<le> expires" if "ev \<in> set evs" for ev
      using that by fastforce
    with mem have "(?n, expires) \<in> set (seen ?sg)" by (intro nonce_remembered)
    with True have "(?n, expires) \<in> set (prune t2 (seen ?sg))" by (simp add: prune_keeps)
    then have "?n \<in> set (jkeys (prune t2 (seen ?sg)))" by force
    then show ?thesis by (simp add: verify_accept_iff del: field_of.simps)
  next
    case False
    with exp show ?thesis by (simp add: verify_accept_iff del: field_of.simps)
  qed
  then show ?thesis by (metis old.sum.exhaust surj_pair)
qed

theorem envelope_never_replayed_witness:
  "\<exists>e sg2. verify demo_host demo_envelope 4
     (foldl (verify_step demo_host) ((new_signer ''key'' ''d'')\<lparr>seen := [(VStr ''n'', 5)]\<rparr>) [(demo_body, 4)])
     = (Inl e, sg2)"
  by (rule envelope_never_replayed [OF demo_accept]) simp

text \<open>
  What the core signs, the worker accepts: an envelope signed over any wire-safe body
  keeps its MAC through JSON, and a verifier with the same key and daemon id accepts it in
  its validity window while its nonce is new.
\<close>

theorem signed_envelope_accepted:
  assumes signed: "sign h sg input = Inr env" and wf: "wf_jsv (VObj input)"
    and fresh_mac: "''mac'' \<notin> set (jkeys input)"
    and wire: "norm (VObj env) = VObj env'"
    and peer: "secret sw = secret sg" "daemonInstanceId sw = daemonInstanceId sg"
    and issued: "field_of (VObj input) ''issuedAt'' = VStr i" "date_parse h i = Some ti"
      "ti \<le> t + maxClockSkewMs sw"
    and expires: "field_of (VObj input) ''expiresAt'' = VStr x" "date_parse h x = Some tx" "t \<le> tx"
    and nonce: "field_of (VObj input) ''nonce'' = VStr n" "VStr n \<notin> set (jkeys (prune t (seen sw)))"
  shows "verify h env' t sw
    = (Inr (AList.update ''verifiedAt'' (VStr (iso_string h t)) env'),
       sw\<lparr>seen := AList.update (VStr n) tx (prune t (seen sw))\<rparr>)"
  by (rule signed_verifies [OF assms])

theorem signed_envelope_accepted_witness:
  "verify demo_host demo_envelope 3 (new_signer ''key'' ''d'')
    = (Inr (AList.update ''verifiedAt'' (VStr (iso_string demo_host 3)) demo_envelope),
       (new_signer ''key'' ''d'')\<lparr>seen := AList.update (VStr ''n'') 5 (prune 3 [])\<rparr>)"
  using signed_envelope_accepted [OF demo_sign demo_wf(1) demo_wf(3) demo_wire,
      of "new_signer ''key'' ''d''" "''a''" 1 3 "''bbbbb''" 5 "''n''"]
  by (simp add: new_signer_def demo_body_def demo_host_def prune_def)

text \<open>
  The text that is signed determines the authority it grants: two bodies with the same
  canonical text agree on every field, up to the order of members and undefined members.
\<close>

theorem signed_text_binds_fields:
  assumes "wf_jsv (VObj a)" "wf_jsv (VObj b)" "canonical (VObj a) = canonical (VObj b)"
  shows "sorted_obj (\<lambda>k. k) (norm (field_of (VObj a) k)) = sorted_obj (\<lambda>k. k) (norm (field_of (VObj b) k))"
proof -
  obtain a' b' where ab: "norm (VObj a) = VObj a'" "norm (VObj b) = VObj b'" by simp
  have wf: "wf_map a" "wf_map b" "wf_map a'" "wf_map b'"
    using assms(1,2) wf_jsv_norm [OF assms(1)] wf_jsv_norm [OF assms(2)] by (simp_all only: ab wf_jsv.simps)
  from canonical_inject [OF assms] have "sorted_obj (\<lambda>k. k) (VObj a') = sorted_obj (\<lambda>k. k) (VObj b')"
    by (simp only: ab)
  from sorted_obj_lookup [OF this wf(3,4), of k]
  have "sorted_obj (\<lambda>k. k) (field_of (VObj a') k) = sorted_obj (\<lambda>k. k) (field_of (VObj b') k)"
    by (auto split: option.splits)
  then show ?thesis
    using field_of_norm [OF wf(1), of k] field_of_norm [OF wf(2), of k]
    unfolding ab by (auto simp: is_undef_iff sorted_norm_defined simp del: field_of.simps split: if_splits)
qed

theorem signed_text_binds_fields_witness:
  "canonical (VObj [(''a'', VBool True), (''b'', VNull)]) = canonical (VObj [(''b'', VNull), (''a'', VBool True)])
   \<and> sorted_obj (\<lambda>k. k) (norm (field_of (VObj [(''a'', VBool True), (''b'', VNull)]) ''a''))
     = sorted_obj (\<lambda>k. k) (norm (field_of (VObj [(''b'', VNull), (''a'', VBool True)]) ''a''))"
proof
  show eq: "canonical (VObj [(''a'', VBool True), (''b'', VNull)])
      = canonical (VObj [(''b'', VNull), (''a'', VBool True)])"
    by code_simp
  show "sorted_obj (\<lambda>k. k) (norm (field_of (VObj [(''a'', VBool True), (''b'', VNull)]) ''a''))
     = sorted_obj (\<lambda>k. k) (norm (field_of (VObj [(''b'', VNull), (''a'', VBool True)]) ''a''))"
    by (rule signed_text_binds_fields [OF _ _ eq]) (simp_all add: wf_map_def)
qed

text \<open>
  The worker hands an envelope to an operation only when it verified it, its operation is
  a known kind, and, under host control, it carries no capability root and its kind belongs
  to the one surface its scope names.
\<close>

theorem worker_executes_only_verified:
  assumes "worker_execute h raw t sg = (Inr v, sg')"
  shows "\<exists>env kind roots. raw = VObj env \<and> verify h env t sg = (Inr v, sg')
    \<and> field_of (field_of raw ''operation'') ''kind'' = VStr kind \<and> kind \<in> set operation_kinds
    \<and> field_of raw ''capabilityRoots'' = VArr roots
    \<and> (field_of (field_of raw ''scope'') ''kind'' = VStr ''host-control'' \<longrightarrow>
        roots = [] \<and>
        (field_of (field_of raw ''scope'') ''capability'' = VStr ''browser.control'' \<and> starts_with kind ''browser.''
         \<or> field_of (field_of raw ''scope'') ''capability'' = VStr ''desktop.control'' \<and> starts_with kind ''desktop.''))"
  by (rule worker_execute_accepts [OF assms])

theorem worker_executes_only_verified_witness:
  "\<exists>kind roots. field_of (field_of (VObj demo_envelope) ''operation'') ''kind'' = VStr kind
    \<and> kind \<in> set operation_kinds \<and> field_of (VObj demo_envelope) ''capabilityRoots'' = VArr roots"
proof -
  have "parseOperationEnvelope (VObj demo_envelope) = Inr demo_envelope"
    by (simp add: demo_envelope_eq demo_mac_nonempty parseOperationEnvelope_def demo_body_def Let_def show_int_def
        operation_kinds_def nonempty_string_def check_scope_def validateScope_def starts_with_def)
  then have "worker_execute demo_host (VObj demo_envelope) 3 (new_signer ''key'' ''d'')
    = (dispatch_scope (AList.update ''verifiedAt'' (VStr (iso_string demo_host 3)) demo_envelope),
       (new_signer ''key'' ''d'')\<lparr>seen := [(VStr ''n'', 5)]\<rparr>)"
    by (simp add: worker_execute_def demo_accept)
  moreover have "dispatch_scope (AList.update ''verifiedAt'' (VStr (iso_string demo_host 3)) demo_envelope)
    = Inr (AList.update ''verifiedAt'' (VStr (iso_string demo_host 3)) demo_envelope)"
    by (simp add: dispatch_scope_def demo_envelope_eq demo_body_def validateScope_def starts_with_def)
  ultimately show ?thesis
    using worker_executes_only_verified [of demo_host "VObj demo_envelope" 3 "new_signer ''key'' ''d''"] by auto
qed

end
