(* ===== verification/IpcServer.thy ===== *)
theory IpcServer
  imports Streams Envelope "HOL-Library.Multiset"
begin

text \<open>
  packages/ipc/src/server.ts: one connection of the worker's socket. It puts the parts of the
  transport together: the frame decoder, the handshake (\<open>handshakeMac\<close> of
  packages/ipc/src/envelope.ts), the streams of the socket and the requests in flight.

  Everything written to the socket, replies and stream frames alike, is appended to the \<open>wire\<close> of
  the streams, as the object the frame encodes; nothing is written to a destroyed socket. A handler
  runs asynchronously, so a request is answered by later events: its handler settles, then
  \<open>beforeReply\<close> resolves, then the reply is written. \<open>draw i\<close> is the challenge for the i-th frame of
  a chunk: 16 random bytes in hexadecimal. The operations of the handler are not under this model;
  that they settle, and how, is part of an event.
\<close>

section \<open>State\<close>

datatype reply_outcome = ReplyError string | ReplyResult jsv

text \<open>Where a request stands: its handler runs, \<open>beforeReply\<close> runs, it is answered, or its answer was too large to send.\<close>

datatype request_phase = Running | Replying reply_outcome | Replied reply_outcome | Unanswered

record rpc_request =
  rq_id :: jsv
  rq_health :: bool
  rq_envelope :: jsv
  rq_stream :: "server_stream option"
  rq_phase :: request_phase

record connection =
  cn_ready :: bool
  cn_challenge :: string
  cn_decoder :: decoder
  cn_streams :: stream_table
  cn_requests :: "rpc_request list"
  cn_destroyed :: bool

definition new_connection :: connection where
  "new_connection = \<lparr>cn_ready = False, cn_challenge = [], cn_decoder = new_decoder, cn_streams = new_table,
     cn_requests = [], cn_destroyed = False\<rparr>"

definition handshake_text :: "string list \<Rightarrow> string" where
  "handshake_text parts = join_with [CHR 0x00] parts"

definition handshakeMac :: "host_fns \<Rightarrow> string \<Rightarrow> string list \<Rightarrow> string" where
  "handshakeMac h key parts = hmac h key (handshake_text parts)"

section \<open>Writing\<close>

definition write_socket :: "frame \<Rightarrow> connection \<Rightarrow> frame_error + connection" where
  "write_socket f cn =
     (if cn_destroyed cn then Inr cn
      else tryE (encodeFrame (VObj f)) (\<lambda>_. Inr (cn\<lparr>cn_streams := write_frame f (cn_streams cn)\<rparr>)))"

text \<open>What the streams do; their link writes nothing once the socket is destroyed.\<close>

definition on_streams :: "(stream_table \<Rightarrow> stream_table) \<Rightarrow> connection \<Rightarrow> connection" where
  "on_streams g cn =
     (let t = g (cn_streams cn) in
      cn\<lparr>cn_streams := (if cn_destroyed cn then t\<lparr>wire := wire (cn_streams cn)\<rparr> else t)\<rparr>)"

definition destroy :: "connection \<Rightarrow> connection" where
  "destroy cn = cn\<lparr>cn_destroyed := True\<rparr>"

definition reply_frame :: "rpc_request \<Rightarrow> reply_outcome \<Rightarrow> frame" where
  "reply_frame rq out =
     [(''requestId'', rq_id rq),
      (case out of
         ReplyError e \<Rightarrow> (''error'', VStr e)
       | ReplyResult v \<Rightarrow> (if rq_health rq then ''health'' else ''result'', v))]"

section \<open>Frames\<close>

definition new_request :: "jsv \<Rightarrow> bool \<Rightarrow> jsv \<Rightarrow> server_stream option \<Rightarrow> rpc_request" where
  "new_request rid health env ss =
     \<lparr>rq_id = rid, rq_health = health, rq_envelope = env, rq_stream = ss, rq_phase = Running\<rparr>"

definition add_request :: "rpc_request \<Rightarrow> connection \<Rightarrow> connection" where
  "add_request rq cn = cn\<lparr>cn_requests := cn_requests cn @ [rq]\<rparr>"

text \<open>A request that is refused on the spot: it is answered before anything else happens.\<close>

definition refuse :: "jsv \<Rightarrow> string \<Rightarrow> connection \<Rightarrow> frame_error + connection" where
  "refuse rid msg cn =
     (let rq = new_request rid False VUndef None in
      tryE (write_socket (reply_frame rq (ReplyError msg)) cn)
        (\<lambda>cn'. Inr (add_request (rq\<lparr>rq_phase := Replied (ReplyError msg)\<rparr>) cn')))"

definition stream_type :: "jsv \<Rightarrow> bool" where
  "stream_type v = (case v of VStr s \<Rightarrow> has_prefix ''stream'' s | _ \<Rightarrow> False)"

definition members_of :: "jsv \<Rightarrow> frame" where
  "members_of f = (case f of VObj ms \<Rightarrow> ms | _ \<Rightarrow> [])"

definition dispatch_frame :: "(string \<Rightarrow> string) \<Rightarrow> jsv \<Rightarrow> connection \<Rightarrow> frame_error + connection" where
  "dispatch_frame decode f cn =
     (let ty = field_of f ''type''; rid = field_of f ''requestId'' in
      if stream_type ty then Inr (on_streams (table_handle decode (members_of f)) cn)
      else if ty = VStr ''health'' then Inr (add_request (new_request rid True VUndef None) cn)
      else if ty = VStr ''execute'' then
        (if field_of f ''stream'' = VUndef then
           Inr (add_request (new_request rid False (field_of f ''envelope'') None) cn)
         else (case attach_stream (js_string rid) (field_of f ''stream'') (cn_streams cn) of
             (None, t) \<Rightarrow> refuse rid ''invalid stream'' (cn\<lparr>cn_streams := t\<rparr>)
           | (Some ss, t) \<Rightarrow>
               Inr (add_request (new_request rid False (field_of f ''envelope'') (Some ss)) (cn\<lparr>cn_streams := t\<rparr>))))
      else refuse rid ''unknown request'' cn)"

definition hello_ack :: "host_fns \<Rightarrow> string \<Rightarrow> string \<Rightarrow> string \<Rightarrow> string \<Rightarrow> frame" where
  "hello_ack h key daemon a b =
     [(''type'', VStr ''helloAck''), (''daemonInstanceId'', VStr daemon), (''challengeA'', VStr a),
      (''challengeB'', VStr b), (''mac'', VStr (handshakeMac h key [daemon, a, b]))]"

definition is_hello :: "string \<Rightarrow> jsv \<Rightarrow> bool" where
  "is_hello daemon f \<longleftrightarrow> field_of f ''type'' = VStr ''hello'' \<and> field_of f ''daemonInstanceId'' = VStr daemon \<and>
     (case field_of f ''challengeA'' of VStr _ \<Rightarrow> True | _ \<Rightarrow> False)"

definition proves :: "host_fns \<Rightarrow> string \<Rightarrow> string \<Rightarrow> string \<Rightarrow> jsv \<Rightarrow> bool" where
  "proves h key daemon challenge f \<longleftrightarrow> field_of f ''type'' = VStr ''ready'' \<and> field_of f ''challengeB'' = VStr challenge \<and>
     field_of f ''mac'' = VStr (handshakeMac h key [daemon, challenge])"

text \<open>
  One frame. \<open>Inl\<close> when the loop over the frames of the chunk is left: the frame was out of turn, or
  something threw, and the socket is destroyed. Reading a property of \<open>null\<close> throws.
\<close>

definition on_frame :: "host_fns \<Rightarrow> (string \<Rightarrow> string) \<Rightarrow> string \<Rightarrow> string \<Rightarrow> string \<Rightarrow> jsv \<Rightarrow> connection \<Rightarrow>
    connection + connection" where
  "on_frame h decode key daemon fresh f cn =
     (if f = VNull then Inl (destroy cn)
      else if \<not> cn_ready cn then
        (if is_hello daemon f then
           (let cn1 = cn\<lparr>cn_challenge := fresh\<rparr> in
            map_sum (\<lambda>_. destroy cn1) id
              (write_socket (hello_ack h key daemon (js_string (field_of f ''challengeA'')) fresh) cn1))
         else if proves h key daemon (cn_challenge cn) f then Inr (cn\<lparr>cn_ready := True\<rparr>)
         else Inl (destroy cn))
      else map_sum (\<lambda>_. destroy cn) id (dispatch_frame decode f cn))"

fun on_frames :: "host_fns \<Rightarrow> (string \<Rightarrow> string) \<Rightarrow> string \<Rightarrow> string \<Rightarrow> (nat \<Rightarrow> string) \<Rightarrow> jsv list \<Rightarrow> connection \<Rightarrow>
    connection" where
  "on_frames h decode key daemon draw [] cn = cn"
| "on_frames h decode key daemon draw (f # fs) cn =
     (case on_frame h decode key daemon (draw 0) f cn of
        Inl cn' \<Rightarrow> cn'
      | Inr cn' \<Rightarrow> on_frames h decode key daemon (draw \<circ> Suc) fs cn')"

text \<open>\<open>socket.on('data')\<close>; nothing is received on a destroyed socket.\<close>

definition on_data :: "host_fns \<Rightarrow> (string \<Rightarrow> string) \<Rightarrow> string \<Rightarrow> string \<Rightarrow> (nat \<Rightarrow> string) \<Rightarrow> string \<Rightarrow> connection \<Rightarrow>
    connection" where
  "on_data h decode key daemon draw chunk cn =
     (if cn_destroyed cn then cn
      else (case push chunk (cn_decoder cn) of
          (Inl _, d) \<Rightarrow> destroy (cn\<lparr>cn_decoder := d\<rparr>)
        | (Inr fs, d) \<Rightarrow> on_frames h decode key daemon draw fs (cn\<lparr>cn_decoder := d\<rparr>)))"

definition on_close :: "connection \<Rightarrow> connection" where
  "on_close cn = on_streams (table_abortAll ''WORKER_DISCONNECTED'') (destroy cn)"

section \<open>Answers\<close>

definition set_request_phase :: "nat \<Rightarrow> request_phase \<Rightarrow> connection \<Rightarrow> connection" where
  "set_request_phase k p cn = cn\<lparr>cn_requests := (cn_requests cn)[k := (cn_requests cn ! k)\<lparr>rq_phase := p\<rparr>]\<rparr>"

definition stream_before :: "string option option \<Rightarrow> rpc_request \<Rightarrow> connection \<Rightarrow> connection" where
  "stream_before err rq cn =
     (case rq_stream rq of None \<Rightarrow> cn | Some ss \<Rightarrow> on_streams (before_reply err ss) cn)"

definition stream_after :: "rpc_request \<Rightarrow> connection \<Rightarrow> connection" where
  "stream_after rq cn =
     (case rq_stream rq of None \<Rightarrow> cn | Some ss \<Rightarrow> on_streams (after_reply ss) cn)"

text \<open>
  The handler of request \<open>k\<close> settled: the outcome is fixed and \<open>beforeReply\<close> is called. An error is
  its text and, when it is truthy, the string it has for a code.
\<close>

definition handler_settled :: "nat \<Rightarrow> (string \<times> string option option) + jsv \<Rightarrow> connection \<Rightarrow> connection" where
  "handler_settled k r cn =
     (case r of
        Inl (msg, err) \<Rightarrow> stream_before err (cn_requests cn ! k) (set_request_phase k (Replying (ReplyError msg)) cn)
      | Inr v \<Rightarrow> stream_before None (cn_requests cn ! k) (set_request_phase k (Replying (ReplyResult v)) cn))"

text \<open>
  The reply is written. A result that does not fit a frame goes through the \<open>catch\<close> and becomes an
  error; an error reply that does not fit is an unhandled rejection.
\<close>

definition reply :: "nat \<Rightarrow> reply_outcome \<Rightarrow> connection \<Rightarrow> connection" where
  "reply k out cn =
     (let rq = cn_requests cn ! k in
      case write_socket (reply_frame rq out) cn of
        Inr cn' \<Rightarrow> stream_after rq (set_request_phase k (Replied out) cn')
      | Inl _ \<Rightarrow>
          (case out of
             ReplyResult _ \<Rightarrow> handler_settled k (Inl (''Error: frame too large'', Some None)) cn
           | ReplyError _ \<Rightarrow> set_request_phase k Unanswered cn))"

text \<open>The events of a connection: a chunk of bytes, a handler, a reply, and the turns of the readers and senders of streams.\<close>

datatype server_event =
    SData "nat \<Rightarrow> string" string
  | SSettled nat "(string \<times> string option option) + jsv"
  | SReply nat
  | SNext nat
  | SLeave nat
  | SRun "nat \<Rightarrow> bool" nat
  | SSend nat job
  | SClose

fun server_step :: "host_fns \<Rightarrow> (string \<Rightarrow> string) \<Rightarrow> string \<Rightarrow> string \<Rightarrow> connection \<Rightarrow> server_event \<Rightarrow> connection" where
  "server_step h decode key daemon cn (SData draw chunk) = on_data h decode key daemon draw chunk cn"
| "server_step h decode key daemon cn (SSettled k r) =
     (if k < length (cn_requests cn) \<and> rq_phase (cn_requests cn ! k) = Running then handler_settled k r cn else cn)"
| "server_step h decode key daemon cn (SReply k) =
     (if k < length (cn_requests cn) then
        (case rq_phase (cn_requests cn ! k) of Replying out \<Rightarrow> reply k out cn | _ \<Rightarrow> cn)
      else cn)"
| "server_step h decode key daemon cn (SNext i) = on_streams (\<lambda>t. table_step decode t (EvNext i)) cn"
| "server_step h decode key daemon cn (SLeave i) = on_streams (\<lambda>t. table_step decode t (EvLeave i)) cn"
| "server_step h decode key daemon cn (SRun flushed i) = on_streams (\<lambda>t. table_step decode t (EvRun flushed i)) cn"
| "server_step h decode key daemon cn (SSend i j) = on_streams (\<lambda>t. table_step decode t (EvSend i j)) cn"
| "server_step h decode key daemon cn SClose = on_close cn"

section \<open>Replies on the wire\<close>

text \<open>Every frame of the transport has a type, but replies.\<close>

definition is_reply :: "frame \<Rightarrow> bool" where
  "is_reply f \<longleftrightarrow> map_of f ''type'' = None"

definition replies :: "stream_table \<Rightarrow> frame list" where
  "replies t = filter is_reply (wire t)"

lemma stream_frames_typed [simp]:
  "\<not> is_reply (open_frame sid req)" "\<not> is_reply (data_frame sid n c)" "\<not> is_reply (end_frame sid m)"
  "\<not> is_reply (ack_frame sid n)" "\<not> is_reply (abort_frame sid code)" "\<not> is_reply (hello_ack h key daemon a b)"
  by (simp_all add: is_reply_def open_frame_def data_frame_def end_frame_def ack_frame_def abort_frame_def hello_ack_def)

lemma reply_frame_reply [simp]: "is_reply (reply_frame rq out)"
  by (simp add: is_reply_def reply_frame_def split: reply_outcome.splits)

named_theorems quiet \<open>Operations of the streams that write no reply.\<close>

lemma replies_write [simp]: "replies (write_frame f t) = replies t @ (if is_reply f then [f] else [])"
  by (simp add: replies_def write_frame_def)

lemma replies_fields [quiet]:
  "replies (t\<lparr>rxs := a\<rparr>) = replies t" "replies (t\<lparr>txs := b\<rparr>) = replies t" "replies (t\<lparr>live := c\<rparr>) = replies t"
  "replies (t\<lparr>told := d\<rparr>) = replies t" "replies (table_close sid t) = replies t" "replies (fail_ends e en t) = replies t"
  "replies (snd (table_receiver sid req n t)) = replies t" "replies (snd (table_sender sid req n t)) = replies t"
  "replies (table_send i j t) = replies t"
  by (simp_all add: replies_def table_close_def fail_ends_def table_receiver_def table_sender_def table_send_def)

lemma replies_abort [quiet]: "replies (table_abort sid code n t) = replies t"
  by (simp add: table_abort_def Let_def quiet split: option.splits)

lemma replies_abortAll [quiet]: "replies (table_abortAll code t) = replies t"
proof -
  have "replies (fold (\<lambda>sid. table_abort sid code False) ks t) = replies t" for ks t
    by (induction ks arbitrary: t) (simp_all add: quiet)
  then show ?thesis by (simp add: table_abortAll_def)
qed

lemma replies_handle [quiet]: "replies (table_handle decode f t) = replies t"
  by (simp add: table_handle_def Let_def quiet del: field_of.simps split: jsv.splits option.splits sum.splits)

lemma replies_next [quiet]: "replies (snd (table_next i t)) = replies t"
  by (simp add: table_next_def Let_def quiet split: prod.splits pull.splits)

lemma replies_leave [quiet]: "replies (table_leave i t) = replies t"
  by (simp add: table_leave_def Let_def quiet)

lemma send_loop_typed: "filter is_reply (fst (send_loop flushed rest s)) = []"
  by (rule send_loop_induct [where P = "\<lambda>rest s res. filter is_reply (fst res) = []"]) simp_all

lemma run_sender_typed: "filter is_reply (fst (run_sender flushed s)) = []"
proof -
  have loop: "filter is_reply (fst (case send_loop flushed rest s' of (fs, s'') \<Rightarrow> (pre @ fs, s''))) = filter is_reply pre" for pre rest s'
    using send_loop_typed [of flushed rest s'] by (cases "send_loop flushed rest s'") simp
  show ?thesis
    by (simp add: run_sender_def open_stream_def loop send_loop_typed loop [where pre = "[_]", simplified]
        split: send_phase.splits list.splits option.splits job.splits)
qed

lemma replies_run [quiet]: "replies (table_run flushed i t) = replies t"
  using run_sender_typed [of flushed "txs t ! i"]
  by (cases "run_sender flushed (txs t ! i)") (simp add: table_run_def replies_def)

lemma replies_step [quiet]: "replies (table_step decode t (EvNext i)) = replies t" "replies (table_step decode t (EvLeave i)) = replies t"
  "replies (table_step decode t (EvRun flushed i)) = replies t" "replies (table_step decode t (EvSend i j)) = replies t"
  by (simp_all add: quiet)

lemma replies_before [quiet]: "replies (before_reply err ss t) = replies t"
  by (simp add: before_reply_def quiet split: option.splits)

lemma replies_after [quiet]: "replies (after_reply ss t) = replies t"
  by (simp add: after_reply_def quiet)

lemma replies_attach [quiet]: "replies (snd (attach_stream req meta t)) = replies t"
proof -
  have "replies t' = replies t" if "table_receiver sid req n t = (i, t')" for sid n i t'
    using replies_fields(7) [of sid req n t] that by simp
  moreover have "replies t' = replies t" if "table_sender sid req n t = (i, t')" for sid n i t'
    using replies_fields(8) [of sid req n t] that by simp
  ultimately show ?thesis
    by (auto simp: attach_stream_def quiet simp del: field_of.simps split: jsv.splits prod.splits)
qed

section \<open>Requests and replies\<close>

text \<open>The replies the requests of a connection account for.\<close>

definition answer :: "rpc_request \<Rightarrow> frame list" where
  "answer rq = (case rq_phase rq of Replied out \<Rightarrow> [reply_frame rq out] | _ \<Rightarrow> [])"

definition answers :: "rpc_request list \<Rightarrow> frame list" where
  "answers rqs = concat (map answer rqs)"

definition accounted :: "connection \<Rightarrow> bool" where
  "accounted cn \<longleftrightarrow> mset (replies (cn_streams cn)) \<subseteq># mset (answers (cn_requests cn)) \<and>
     (cn_destroyed cn \<or> mset (replies (cn_streams cn)) = mset (answers (cn_requests cn)))"

lemma subseteq_grow: "A \<subseteq># B \<Longrightarrow> A \<subseteq># add_mset x B"
  by (simp add: subseteq_mset_def le_SucI)

lemma answers_append [simp]: "answers (as @ bs) = answers as @ answers bs"
  by (simp add: answers_def)

lemma answers_single [simp]: "answers [rq] = answer rq"
  by (simp add: answers_def)

lemma answer_new [simp]: "answer (new_request rid health env ss) = []"
  "answer (rq\<lparr>rq_phase := Replied out\<rparr>) = [reply_frame rq out]"
  "answer (rq\<lparr>rq_phase := Replying out\<rparr>) = []" "answer (rq\<lparr>rq_phase := Unanswered\<rparr>) = []"
  by (simp_all add: answer_def new_request_def reply_frame_def split: reply_outcome.splits)

lemma mset_answers_update:
  "k < length rqs \<Longrightarrow> answer (rqs ! k) = [] \<Longrightarrow> mset (answers (rqs[k := rq])) = mset (answers rqs) + mset (answer rq)"
proof -
  assume k: "k < length rqs" and none: "answer (rqs ! k) = []"
  have "answers rqs = answers (take k rqs) @ answer (rqs ! k) @ answers (drop (Suc k) rqs)"
    by (subst id_take_nth_drop [OF k]) (simp add: answers_def)
  moreover have "answers (rqs[k := rq]) = answers (take k rqs) @ answer rq @ answers (drop (Suc k) rqs)"
    by (subst upd_conv_take_nth_drop [OF k]) (simp add: answers_def)
  ultimately show ?thesis using none by simp
qed

subsection \<open>What each operation leaves\<close>

lemma on_streams_sel [simp]:
  "cn_ready (on_streams g cn) = cn_ready cn" "cn_challenge (on_streams g cn) = cn_challenge cn"
  "cn_decoder (on_streams g cn) = cn_decoder cn" "cn_requests (on_streams g cn) = cn_requests cn"
  "cn_destroyed (on_streams g cn) = cn_destroyed cn"
  by (simp_all add: on_streams_def Let_def)

lemma replies_on_streams:
  "(\<And>t. replies (g t) = replies t) \<Longrightarrow> replies (cn_streams (on_streams g cn)) = replies (cn_streams cn)"
  by (simp add: on_streams_def Let_def replies_def)

lemma accounted_on_streams:
  "(\<And>t. replies (g t) = replies t) \<Longrightarrow> accounted (on_streams g cn) = accounted cn"
  by (simp add: accounted_def replies_on_streams)

lemma accounted_fields [simp]:
  "accounted (cn\<lparr>cn_ready := a\<rparr>) = accounted cn" "accounted (cn\<lparr>cn_challenge := b\<rparr>) = accounted cn"
  "accounted (cn\<lparr>cn_decoder := c\<rparr>) = accounted cn"
  by (simp_all add: accounted_def)

lemma accounted_destroy: "accounted cn \<Longrightarrow> accounted (destroy cn)"
  by (simp add: accounted_def destroy_def)

lemma accounted_streams:
  "replies t = replies (cn_streams cn) \<Longrightarrow> accounted (cn\<lparr>cn_streams := t\<rparr>) = accounted cn"
  by (simp add: accounted_def)

lemma write_socket_cases:
  assumes "write_socket f cn = Inr cn'"
  shows "cn' = (if cn_destroyed cn then cn else cn\<lparr>cn_streams := write_frame f (cn_streams cn)\<rparr>)"
  using assms by (auto simp: write_socket_def tryE_Inr_iff split: if_splits)

lemma write_socket_sel:
  assumes "write_socket f cn = Inr cn'"
  shows "cn_ready cn' = cn_ready cn" "cn_challenge cn' = cn_challenge cn" "cn_decoder cn' = cn_decoder cn"
    "cn_requests cn' = cn_requests cn" "cn_destroyed cn' = cn_destroyed cn"
  using write_socket_cases [OF assms] by simp_all

lemma accounted_add: "answer rq = [] \<Longrightarrow> accounted (add_request rq cn) = accounted cn"
  by (simp add: accounted_def add_request_def)

lemma accounted_write_other:
  "write_socket f cn = Inr cn' \<Longrightarrow> \<not> is_reply f \<Longrightarrow> accounted cn \<Longrightarrow> accounted cn'"
  by (drule write_socket_cases) (auto simp: accounted_def)

lemma accounted_refuse:
  assumes "refuse rid msg cn = Inr cn'" "accounted cn"
  shows "accounted cn'"
proof -
  let ?rq = "new_request rid False VUndef None"
  from assms(1) obtain cn1 where cn1: "write_socket (reply_frame ?rq (ReplyError msg)) cn = Inr cn1"
    and cn': "cn' = add_request (?rq\<lparr>rq_phase := Replied (ReplyError msg)\<rparr>) cn1"
    by (auto simp: refuse_def tryE_Inr_iff Let_def)
  show ?thesis
    using assms(2) unfolding cn' write_socket_cases [OF cn1]
    by (auto simp: accounted_def add_request_def subseteq_grow)
qed

lemma accounted_dispatch:
  assumes "dispatch_frame decode f cn = Inr cn'" "accounted cn"
  shows "accounted cn'"
proof -
  have attached: "accounted (cn\<lparr>cn_streams := t\<rparr>)" if "attach_stream r m (cn_streams cn) = (ss, t)" for r m ss t
    using replies_attach [of r m "cn_streams cn"] that assms(2) by (simp add: accounted_streams)
  show ?thesis
    using assms
    by (auto simp: dispatch_frame_def Let_def accounted_on_streams accounted_add quiet dest!: attached simp del: field_of.simps
        split: if_splits prod.splits option.splits dest: accounted_refuse)
qed

lemma accounted_frame:
  assumes "accounted cn"
  shows "case on_frame h decode key daemon fresh f cn of Inl cn' \<Rightarrow> accounted cn' | Inr cn' \<Rightarrow> accounted cn'"
  using assms
  by (auto simp: on_frame_def Let_def accounted_destroy map_sum_def simp del: field_of.simps
      split: sum.splits intro: accounted_dispatch accounted_write_other)

lemma accounted_frames: "accounted cn \<Longrightarrow> accounted (on_frames h decode key daemon draw fs cn)"
proof (induction fs arbitrary: cn draw)
  case (Cons f fs)
  then show ?case
    using accounted_frame [OF Cons.prems, of h decode key daemon "draw 0" f] by (auto split: sum.splits)
qed simp

lemma accounted_data: "accounted cn \<Longrightarrow> accounted (on_data h decode key daemon draw chunk cn)"
  by (auto simp: on_data_def accounted_frames accounted_destroy split: prod.splits sum.splits)

lemma accounted_phase:
  "k < length (cn_requests cn) \<Longrightarrow> answer (cn_requests cn ! k) = [] \<Longrightarrow> p = Unanswered \<or> (\<exists>out. p = Replying out) \<Longrightarrow>
     accounted (set_request_phase k p cn) = accounted cn"
  by (auto simp: accounted_def set_request_phase_def mset_answers_update)

lemma accounted_stream_turn:
  "accounted (stream_before err rq cn) = accounted cn" "accounted (stream_after rq cn) = accounted cn"
  by (simp_all add: stream_before_def stream_after_def accounted_on_streams quiet split: option.splits)

lemma accounted_settled:
  "k < length (cn_requests cn) \<Longrightarrow> answer (cn_requests cn ! k) = [] \<Longrightarrow> accounted (handler_settled k r cn) = accounted cn"
  by (simp add: handler_settled_def accounted_stream_turn accounted_phase split: sum.splits)

lemma accounted_reply:
  assumes "k < length (cn_requests cn)" "answer (cn_requests cn ! k) = []" "accounted cn"
  shows "accounted (reply k out cn)"
proof (cases "write_socket (reply_frame (cn_requests cn ! k) out) cn")
  case (Inl e)
  with assms show ?thesis
    by (simp add: reply_def accounted_settled accounted_phase split: reply_outcome.splits)
next
  case (Inr cn')
  have "accounted (set_request_phase k (Replied out) cn')"
    using assms unfolding write_socket_cases [OF Inr]
    by (auto simp: accounted_def set_request_phase_def mset_answers_update subseteq_grow)
  with Inr show ?thesis by (simp add: reply_def Let_def accounted_stream_turn)
qed

interpretation server: invariant_system "server_step h decode key daemon" accounted for h decode key daemon
proof
  fix cn ev assume inv: "accounted cn"
  show "accounted (server_step h decode key daemon cn ev)"
  proof (cases ev)
    case (SSettled k r)
    with inv show ?thesis by (simp add: accounted_settled answer_def)
  next
    case (SReply k)
    with inv show ?thesis by (auto simp: answer_def intro: accounted_reply split: request_phase.splits)
  qed (simp_all add: inv accounted_data on_close_def accounted_on_streams accounted_destroy quiet del: table_step.simps)
qed

lemma accounted_new: "accounted new_connection"
  by (simp add: accounted_def new_connection_def replies_def new_table_def answers_def)

section \<open>Who may ask for work\<close>

text \<open>The frames a connection handed to its loop.\<close>

definition chunk_frames :: "server_event \<Rightarrow> connection \<Rightarrow> jsv list" where
  "chunk_frames ev cn =
     (case ev of
        SData draw chunk \<Rightarrow>
          if cn_destroyed cn then [] else (case fst (push chunk (cn_decoder cn)) of Inr fs \<Rightarrow> fs | Inl _ \<Rightarrow> [])
      | _ \<Rightarrow> [])"

fun heard :: "host_fns \<Rightarrow> (string \<Rightarrow> string) \<Rightarrow> string \<Rightarrow> string \<Rightarrow> connection \<Rightarrow> server_event list \<Rightarrow> jsv list" where
  "heard h decode key daemon cn [] = []"
| "heard h decode key daemon cn (ev # evs) =
     chunk_frames ev cn @ heard h decode key daemon (server_step h decode key daemon cn ev) evs"

fun drawn :: "server_event \<Rightarrow> string set" where
  "drawn (SData draw chunk) = range draw"
| "drawn ev = {}"

text \<open>Nothing was asked of the worker, and no stream is open.\<close>

definition nothing_asked :: "connection \<Rightarrow> bool" where
  "nothing_asked cn \<longleftrightarrow> cn_requests cn = [] \<and> live (cn_streams cn) = [] \<and> rxs (cn_streams cn) = [] \<and> txs (cn_streams cn) = []"

definition trusted :: "connection \<Rightarrow> bool" where
  "trusted cn \<longleftrightarrow> cn_ready cn \<or> nothing_asked cn"

lemma idle_fields [simp]:
  "nothing_asked (cn\<lparr>cn_ready := a\<rparr>) = nothing_asked cn" "nothing_asked (cn\<lparr>cn_challenge := b\<rparr>) = nothing_asked cn"
  "nothing_asked (cn\<lparr>cn_decoder := c\<rparr>) = nothing_asked cn" "nothing_asked (cn\<lparr>cn_destroyed := d\<rparr>) = nothing_asked cn"
  "nothing_asked (cn\<lparr>cn_streams := write_frame f (cn_streams cn)\<rparr>) = nothing_asked cn"
  by (simp_all add: nothing_asked_def write_frame_def)

lemma destroy_sel [simp]:
  "cn_ready (destroy cn) = cn_ready cn" "cn_challenge (destroy cn) = cn_challenge cn"
  "cn_requests (destroy cn) = cn_requests cn" "nothing_asked (destroy cn) = nothing_asked cn" "cn_streams (destroy cn) = cn_streams cn"
  by (simp_all add: destroy_def)

lemma dispatch_sel:
  assumes "dispatch_frame decode f cn = Inr cn'"
  shows "cn_ready cn' = cn_ready cn" "cn_challenge cn' = cn_challenge cn"
proof -
  have refused: "cn_ready cn2 = cn_ready cn1" "cn_challenge cn2 = cn_challenge cn1"
    if "refuse r m cn1 = Inr cn2" for r m cn1 cn2
    using that by (auto simp: refuse_def Let_def tryE_Inr_iff add_request_def write_socket_sel)
  show "cn_ready cn' = cn_ready cn" "cn_challenge cn' = cn_challenge cn"
    using assms
    by (auto simp: dispatch_frame_def Let_def add_request_def dest: refused simp del: field_of.simps
        split: if_splits prod.splits option.splits)
qed

abbreviation both :: "('a + 'a) \<Rightarrow> 'a" where
  "both r \<equiv> case_sum id id r"

text \<open>A frame on a connection that is not ready leaves it idle, and makes it ready only with a proof.\<close>

lemma frame_ready: "cn_ready cn \<Longrightarrow>
  cn_ready (both (on_frame h decode key daemon fresh f cn)) \<and>
  cn_challenge (both (on_frame h decode key daemon fresh f cn)) = cn_challenge cn"
  by (auto simp: on_frame_def map_sum_def dispatch_sel split: sum.splits)

lemma frame_unready:
  assumes "\<not> cn_ready cn" "nothing_asked cn" "cn' = both (on_frame h decode key daemon fresh f cn)"
  shows "nothing_asked cn' \<and> cn_challenge cn' \<in> {cn_challenge cn, fresh} \<and>
    (cn_ready cn' \<longrightarrow> proves h key daemon (cn_challenge cn') f)"
  using assms
  by (auto simp: on_frame_def Let_def map_sum_def nothing_asked_def write_frame_def simp del: field_of.simps
      split: if_splits sum.splits dest!: write_socket_cases)

lemma frames_ready: "cn_ready cn \<Longrightarrow>
  cn_ready (on_frames h decode key daemon draw fs cn) \<and> cn_challenge (on_frames h decode key daemon draw fs cn) = cn_challenge cn"
proof (induction fs arbitrary: cn draw)
  case (Cons f fs)
  then show ?case
    using frame_ready [OF Cons.prems, of h decode key daemon "draw 0" f] by (auto split: sum.splits)
qed simp

lemma frames_unready:
  assumes "\<not> cn_ready cn" "nothing_asked cn" "cn' = on_frames h decode key daemon draw fs cn"
  shows "cn_challenge cn' \<in> insert (cn_challenge cn) (range draw) \<and> (\<not> cn_ready cn' \<longrightarrow> nothing_asked cn') \<and>
    (cn_ready cn' \<longrightarrow> (\<exists>f \<in> set fs. proves h key daemon (cn_challenge cn') f))"
  using assms
proof (induction fs arbitrary: cn draw)
  case (Cons f fs)
  let ?r = "on_frame h decode key daemon (draw 0) f cn"
  from frame_unready [OF Cons.prems(1,2) refl, of h decode key daemon "draw 0" f]
  have first: "nothing_asked (both ?r)" "cn_challenge (both ?r) \<in> {cn_challenge cn, draw 0}"
    "cn_ready (both ?r) \<longrightarrow> proves h key daemon (cn_challenge (both ?r)) f" by blast+
  show ?case
  proof (cases ?r)
    case (Inl cn1)
    with first Cons.prems(3) show ?thesis by auto
  next
    case (Inr cn1)
    then have cn': "cn' = on_frames h decode key daemon (draw \<circ> Suc) fs cn1" using Cons.prems(3) by simp
    show ?thesis
    proof (cases "cn_ready cn1")
      case True
      with frames_ready [OF True, of h decode key daemon "draw \<circ> Suc" fs] first Inr cn' show ?thesis by auto
    next
      case False
      with Cons.IH [OF False _ cn'] first Inr show ?thesis by auto
    qed
  qed
qed simp

lemma step_ready:
  "cn_ready cn \<Longrightarrow> cn_ready (server_step h decode key daemon cn ev) \<and>
     cn_challenge (server_step h decode key daemon cn ev) = cn_challenge cn"
  by (cases ev)
     (auto simp: on_data_def frames_ready on_close_def handler_settled_def stream_before_def stream_after_def set_request_phase_def
       reply_def Let_def write_socket_sel split: prod.splits sum.splits option.splits request_phase.splits reply_outcome.splits
       simp del: table_step.simps)

lemma idle_streams:
  "nothing_asked cn \<Longrightarrow> on_streams (\<lambda>t. table_step decode t (EvNext i)) cn = cn" "nothing_asked cn \<Longrightarrow> on_streams (\<lambda>t. table_step decode t (EvLeave i)) cn = cn"
  "nothing_asked cn \<Longrightarrow> on_streams (\<lambda>t. table_step decode t (EvRun fl i)) cn = cn" "nothing_asked cn \<Longrightarrow> on_streams (\<lambda>t. table_step decode t (EvSend i j)) cn = cn"
  "nothing_asked cn \<Longrightarrow> on_streams (table_abortAll code) cn = cn"
  by (simp_all add: on_streams_def nothing_asked_def table_abortAll_def Let_def)

lemma step_unready:
  assumes "\<not> cn_ready cn" "nothing_asked cn" "cn' = server_step h decode key daemon cn ev"
  shows "cn_challenge cn' \<in> insert (cn_challenge cn) (drawn ev) \<and> (\<not> cn_ready cn' \<longrightarrow> nothing_asked cn') \<and>
    (cn_ready cn' \<longrightarrow> (\<exists>f \<in> set (chunk_frames ev cn). proves h key daemon (cn_challenge cn') f))"
proof (cases ev)
  case (SData draw chunk)
  obtain r d where push: "push chunk (cn_decoder cn) = (r, d)" by fastforce
  show ?thesis
  proof (cases r)
    case (Inl e)
    with assms SData push show ?thesis by (auto simp: on_data_def)
  next
    case (Inr fs)
    show ?thesis
    proof (cases "cn_destroyed cn")
      case True
      with assms SData show ?thesis by (simp add: on_data_def)
    next
      case False
      with SData push Inr assms(3) have cn': "cn' = on_frames h decode key daemon draw fs (cn\<lparr>cn_decoder := d\<rparr>)"
        by (simp add: on_data_def)
      from frames_unready [OF _ _ cn'] assms(1,2) SData push Inr False show ?thesis by (simp add: chunk_frames_def)
    qed
  qed
qed (use assms in \<open>auto simp: idle_streams on_close_def nothing_asked_def [of cn] simp del: table_step.simps\<close>)

lemma insert_chain: "b \<in> insert a D \<Longrightarrow> c \<in> insert b U \<Longrightarrow> c \<in> insert a (D \<union> U)"
  by auto

lemma trusted_run:
  assumes "trusted cn" "cn' = foldl (server_step h decode key daemon) cn evs"
  shows "trusted cn' \<and> (cn_ready cn' \<longrightarrow> cn_ready cn \<and> cn_challenge cn' = cn_challenge cn \<or>
      cn_challenge cn' \<in> insert (cn_challenge cn) (\<Union> (set (map drawn evs))) \<and>
      (\<exists>f \<in> set (heard h decode key daemon cn evs). proves h key daemon (cn_challenge cn') f))"
  using assms
proof (induction evs arbitrary: cn)
  case (Cons ev evs)
  let ?cn1 = "server_step h decode key daemon cn ev"
  let ?ok = "\<lambda>cn2 evs'. cn_challenge cn' \<in> insert (cn_challenge cn2) (\<Union> (set (map drawn evs'))) \<and>
      (\<exists>f \<in> set (heard h decode key daemon cn2 evs'). proves h key daemon (cn_challenge cn') f)"
  from Cons.prems(2) have cn': "cn' = foldl (server_step h decode key daemon) ?cn1 evs" by simp
  show ?case
  proof (cases "cn_ready cn")
    case True
    with step_ready [OF True, of h decode key daemon ev] Cons.IH [OF _ cn'] show ?thesis
      by (auto simp: trusted_def)
  next
    case False
    with Cons.prems(1) have "nothing_asked cn" by (simp add: trusted_def)
    from step_unready [OF False this refl, of h decode key daemon ev]
    have first: "cn_challenge ?cn1 \<in> insert (cn_challenge cn) (drawn ev)" "trusted ?cn1"
      "cn_ready ?cn1 \<longrightarrow> (\<exists>f \<in> set (chunk_frames ev cn). proves h key daemon (cn_challenge ?cn1) f)"
      by (auto simp: trusted_def)
    from Cons.IH [OF first(2) cn'] have rest: "trusted cn'"
      "cn_ready cn' \<Longrightarrow> cn_ready ?cn1 \<and> cn_challenge cn' = cn_challenge ?cn1 \<or> ?ok ?cn1 evs" by blast+
    have "?ok cn (ev # evs)" if "cn_ready ?cn1" "cn_challenge cn' = cn_challenge ?cn1"
      using first(1,3) that by auto
    moreover have "?ok cn (ev # evs)" if "?ok ?cn1 evs"
      using insert_chain [OF first(1) conjunct1 [OF that]] conjunct2 [OF that] by (simp del: server_step.simps) blast
    ultimately show ?thesis using rest by blast
  qed
qed simp

section \<open>The handshake\<close>

lemma handshake_texts_differ:
  assumes "CHR 0x00 \<notin> set b'"
  shows "handshake_text [daemon, a, b] \<noteq> handshake_text [daemon, b']"
proof
  assume "handshake_text [daemon, a, b] = handshake_text [daemon, b']"
  then have "b' = a @ CHR 0x00 # b" by (simp add: handshake_text_def)
  then have "CHR 0x00 \<in> set b'" by simp
  with assms show False ..
qed

section \<open>Chunks\<close>

text \<open>
  On a connection that is ready, the frames of the bytes received decide what happens, not the
  chunks they came in.
\<close>

lemma push_frame:
  assumes "encodeFrame v = Inr bytes" "wf_jsv v"
  shows "push bytes new_decoder = (Inr [norm v], new_decoder)"
proof -
  have "decode_loop bytes = Inr ([norm v], [])"
    using decode_loop_frame [OF assms, of "[]"] by (simp add: decode_loop_short)
  with push_spec [OF wf_new_decoder(1), of bytes] wf_decoder_empty show ?thesis
    by (auto simp: wf_new_decoder(2) split: prod.splits sum.splits)
qed

lemma decoder_last:
  "cn\<lparr>cn_decoder := d, cn_challenge := c\<rparr> = cn\<lparr>cn_challenge := c, cn_decoder := d\<rparr>"
  "cn\<lparr>cn_decoder := d, cn_streams := t\<rparr> = cn\<lparr>cn_streams := t, cn_decoder := d\<rparr>"
  "cn\<lparr>cn_decoder := d, cn_requests := rqs\<rparr> = cn\<lparr>cn_requests := rqs, cn_decoder := d\<rparr>"
  "cn\<lparr>cn_decoder := d, cn_ready := r\<rparr> = cn\<lparr>cn_ready := r, cn_decoder := d\<rparr>"
  "cn\<lparr>cn_decoder := d, cn_destroyed := x\<rparr> = cn\<lparr>cn_destroyed := x, cn_decoder := d\<rparr>"
  by simp_all

lemma decoder_update_frame:
  "on_frame h decode key daemon fresh f (cn\<lparr>cn_decoder := d\<rparr>)
    = map_sum (\<lambda>c. c\<lparr>cn_decoder := d\<rparr>) (\<lambda>c. c\<lparr>cn_decoder := d\<rparr>) (on_frame h decode key daemon fresh f cn)"
proof -
  have writing: "write_socket g (cn\<lparr>cn_decoder := d\<rparr>) = map_sum id (\<lambda>c. c\<lparr>cn_decoder := d\<rparr>) (write_socket g cn)" for g cn
    by (cases "encodeFrame (VObj g)") (simp_all add: write_socket_def decoder_last)
  have refuse: "refuse r m (cn\<lparr>cn_decoder := d\<rparr>) = map_sum id (\<lambda>c. c\<lparr>cn_decoder := d\<rparr>) (refuse r m cn)" for r m cn
    by (cases "write_socket (reply_frame (new_request r False VUndef None) (ReplyError m)) cn")
       (simp_all add: refuse_def writing add_request_def Let_def decoder_last)
  have dispatch_frame: "dispatch_frame decode f (cn\<lparr>cn_decoder := d\<rparr>) = map_sum id (\<lambda>c. c\<lparr>cn_decoder := d\<rparr>) (dispatch_frame decode f cn)"
    by (simp add: dispatch_frame_def Let_def decoder_last refuse add_request_def on_streams_def del: field_of.simps
        split: prod.splits option.splits)
  show ?thesis
    by (cases "write_socket (hello_ack h key daemon (js_string (field_of f ''challengeA'')) fresh) (cn\<lparr>cn_challenge := fresh\<rparr>)";
        cases "dispatch_frame decode f cn")
       (simp_all add: on_frame_def Let_def dispatch_frame writing decoder_last destroy_def del: field_of.simps)
qed

lemma decoder_update_frames:
  "on_frames h decode key daemon draw fs (cn\<lparr>cn_decoder := d\<rparr>) = (on_frames h decode key daemon draw fs cn)\<lparr>cn_decoder := d\<rparr>"
proof (induction fs arbitrary: cn draw)
  case (Cons f fs)
  then show ?case
    by (cases "on_frame h decode key daemon (draw 0) f cn") (simp_all add: decoder_update_frame del: comp_apply)
qed simp

lemma frame_destroyed: "on_frame h decode key daemon fresh f cn = Inl cn' \<Longrightarrow> cn_destroyed cn'"
  by (auto simp: on_frame_def map_sum_def Let_def destroy_def simp del: field_of.simps split: if_splits sum.splits)

lemma ready_draw:
  assumes "cn_ready cn"
  shows "on_frames h decode key daemon draw fs cn = on_frames h decode key daemon draw' fs cn"
  using assms
proof (induction fs arbitrary: cn draw draw')
  case (Cons f fs)
  have same: "on_frame h decode key daemon fresh f cn = on_frame h decode key daemon fresh' f cn" for fresh fresh'
    using Cons.prems by (simp add: on_frame_def)
  show ?case
  proof (cases "on_frame h decode key daemon (draw 0) f cn")
    case (Inr cn1)
    have "cn_ready cn1" using frame_ready [OF Cons.prems, of h decode key daemon "draw 0" f] Inr by simp
    from Cons.IH [OF this] Inr same [of "draw' 0" "draw 0"] show ?thesis by simp
  next
    case (Inl cn1)
    with same [of "draw' 0" "draw 0"] show ?thesis by simp
  qed
qed simp

lemma frame_alive:
  assumes "on_frame h decode key daemon fresh f cn = Inr cn'"
  shows "cn_destroyed cn' = cn_destroyed cn"
proof -
  have refused: "cn_destroyed cn2 = cn_destroyed cn1" if "refuse r m cn1 = Inr cn2" for r m cn1 cn2
    using that by (auto simp: refuse_def Let_def tryE_Inr_iff add_request_def write_socket_sel)
  have "cn_destroyed cn2 = cn_destroyed cn" if "dispatch_frame decode f cn = Inr cn2" for cn2
    using that
    by (auto simp: dispatch_frame_def Let_def add_request_def dest: refused simp del: field_of.simps
        split: if_splits prod.splits option.splits)
  with assms show ?thesis
    by (auto simp: on_frame_def map_sum_def Let_def simp del: field_of.simps split: if_splits sum.splits dest: write_socket_sel(5))
qed

lemma frames_append:
  assumes "cn_ready cn" "\<not> cn_destroyed cn"
  shows "on_frames h decode key daemon draw (fs @ gs) cn
    = (let cn' = on_frames h decode key daemon draw fs cn in
       if cn_destroyed cn' then cn' else on_frames h decode key daemon draw gs cn')"
  using assms
proof (induction fs arbitrary: cn draw)
  case (Cons f fs)
  show ?case
  proof (cases "on_frame h decode key daemon (draw 0) f cn")
    case (Inl cn1)
    with frame_destroyed [OF Inl] show ?thesis by simp
  next
    case (Inr cn1)
    then have ready: "cn_ready cn1" "\<not> cn_destroyed cn1"
      using frame_ready [OF Cons.prems(1), of h decode key daemon "draw 0" f] frame_alive [OF Inr] Cons.prems(2) by simp_all
    have "cn_ready (on_frames h decode key daemon (draw \<circ> Suc) fs cn1)" using frames_ready [OF ready(1)] by blast
    from ready_draw [OF this, where draw = "draw \<circ> Suc" and draw' = draw] Cons.IH [OF ready, of "draw \<circ> Suc"] Inr
    show ?thesis by (simp add: Let_def del: comp_apply)
  qed
qed (simp add: Let_def)

lemma chunks_frames:
  assumes "cn_ready cn" "\<not> cn_destroyed cn" "feed cs (cn_decoder cn) = (Inr fs, d')"
    and "\<not> cn_destroyed (on_frames h decode key daemon draw fs cn)"
  shows "foldl (\<lambda>cn c. on_data h decode key daemon draw c cn) cn cs = (on_frames h decode key daemon draw fs cn)\<lparr>cn_decoder := d'\<rparr>"
  using assms
proof (induction cs arbitrary: cn fs)
  case (Cons c cs)
  from Cons.prems(3) obtain gs d1 hs where c: "push c (cn_decoder cn) = (Inr gs, d1)" "feed cs d1 = (Inr hs, d')" "fs = gs @ hs"
    by (auto split: prod.splits sum.splits)
  let ?cn1 = "on_frames h decode key daemon draw gs cn"
  have ready: "cn_ready ?cn1" using frames_ready [OF Cons.prems(1)] by blast
  from Cons.prems(4) have alive: "\<not> cn_destroyed ?cn1" "\<not> cn_destroyed (on_frames h decode key daemon draw hs ?cn1)"
    "on_frames h decode key daemon draw fs cn = on_frames h decode key daemon draw hs ?cn1"
    by (auto simp: c(3) frames_append [OF Cons.prems(1,2)] Let_def split: if_splits)
  have "on_data h decode key daemon draw c cn = ?cn1\<lparr>cn_decoder := d1\<rparr>"
    using Cons.prems(2) c(1) by (simp add: on_data_def decoder_update_frames)
  moreover have "foldl (\<lambda>cn c. on_data h decode key daemon draw c cn) (?cn1\<lparr>cn_decoder := d1\<rparr>) cs
      = (on_frames h decode key daemon draw hs (?cn1\<lparr>cn_decoder := d1\<rparr>))\<lparr>cn_decoder := d'\<rparr>"
    by (rule Cons.IH) (simp_all add: ready alive c decoder_update_frames)
  ultimately show ?case by (simp add: alive(3) decoder_update_frames)
qed simp

section \<open>A concrete connection\<close>

text \<open>A peer says hello, proves itself and asks for health, for the witnesses below.\<close>

definition demo_frames :: "jsv list" where
  "demo_frames =
    [VObj [(''type'', VStr ''hello''), (''daemonInstanceId'', VStr ''d''), (''challengeA'', VStr ''a'')],
     VObj [(''type'', VStr ''ready''), (''challengeB'', VStr ''b''), (''mac'', VStr (handshakeMac demo_host ''key'' [''d'', ''b'']))],
     VObj [(''type'', VStr ''health''), (''requestId'', VStr ''r1'')]]"

definition demo_bytes :: "nat \<Rightarrow> string" where
  "demo_bytes i = (case encodeFrame (demo_frames ! i) of Inr bytes \<Rightarrow> bytes | Inl _ \<Rightarrow> [])"

definition demo_events :: "server_event list" where
  "demo_events = [SData (\<lambda>_. ''b'') (demo_bytes 0), SData (\<lambda>_. ''b'') (demo_bytes 1), SData (\<lambda>_. ''b'') (demo_bytes 2),
     SSettled 0 (Inr (VBool True)), SReply 0]"

lemmas demo_encode = encodeFrame_def json_stringify_def json_quote_def escape_char_def show_int_def show_base.simps
  MAX_FRAME_BYTES_def Let_def handshakeMac_def handshake_text_def demo_host_def base_digit_def BSL_def QUOTE_def

lemma demo_push:
  assumes "i < 3"
  shows "push (demo_bytes i) new_decoder = (Inr [demo_frames ! i], new_decoder)"
proof -
  from assms have i: "i = 0 \<or> i = 1 \<or> i = 2" by arith
  then obtain bytes where "encodeFrame (demo_frames ! i) = Inr bytes"
    by (auto simp: demo_frames_def demo_encode)
  moreover have "norm (demo_frames ! i) = demo_frames ! i" "wf_jsv (demo_frames ! i)"
    using i by (auto simp: demo_frames_def wf_map_def)
  ultimately show ?thesis using push_frame by (simp add: demo_bytes_def)
qed

definition demo_ready :: connection where
  "demo_ready = \<lparr>cn_ready = True, cn_challenge = ''b'', cn_decoder = new_decoder,
     cn_streams = new_table\<lparr>wire := [hello_ack demo_host ''key'' ''d'' ''a'' ''b'']\<rparr>, cn_requests = [], cn_destroyed = False\<rparr>"

lemma demo_handshake:
  "foldl (server_step demo_host id ''key'' ''d'') new_connection (take 2 demo_events) = demo_ready"
proof -
  have ack: "\<exists>bytes. encodeFrame (VObj (hello_ack demo_host ''key'' ''d'' ''a'' ''b'')) = Inr bytes"
    by (simp add: hello_ack_def demo_encode)
  have "on_data demo_host id ''key'' ''d'' (\<lambda>_. ''b'') (demo_bytes 0) new_connection
      = demo_ready\<lparr>cn_ready := False\<rparr>"
    using ack demo_push [of 0]
    by (auto simp: on_data_def new_connection_def demo_frames_def on_frame_def is_hello_def write_socket_def
        write_frame_def demo_ready_def new_table_def)
  moreover have "on_data demo_host id ''key'' ''d'' (\<lambda>_. ''b'') (demo_bytes 1) (demo_ready\<lparr>cn_ready := False\<rparr>) = demo_ready"
    using demo_push [of 1] by (simp add: on_data_def demo_ready_def demo_frames_def on_frame_def is_hello_def proves_def)
  ultimately show ?thesis by (simp add: demo_events_def)
qed

definition demo_final :: connection where
  "demo_final = demo_ready\<lparr>
     cn_streams := write_frame [(''requestId'', VStr ''r1''), (''health'', VBool True)] (cn_streams demo_ready),
     cn_requests := [(new_request (VStr ''r1'') True VUndef None)\<lparr>rq_phase := Replied (ReplyResult (VBool True))\<rparr>]\<rparr>"

lemma demo_rest: "foldl (server_step demo_host id ''key'' ''d'') demo_ready (drop 2 demo_events) = demo_final"
proof -
  let ?rq = "new_request (VStr ''r1'') True VUndef None"
  have "on_data demo_host id ''key'' ''d'' (\<lambda>_. ''b'') (demo_bytes 2) demo_ready = add_request ?rq demo_ready"
    using demo_push [of 2]
    by (simp add: on_data_def demo_ready_def demo_frames_def on_frame_def dispatch_frame_def stream_type_def has_prefix_def add_request_def)
  moreover have "server_step demo_host id ''key'' ''d'' (server_step demo_host id ''key'' ''d'' (add_request ?rq demo_ready)
      (SSettled 0 (Inr (VBool True)))) (SReply 0) = demo_final"
    by (simp add: add_request_def demo_ready_def new_request_def handler_settled_def set_request_phase_def stream_before_def reply_def
        reply_frame_def write_socket_def stream_after_def demo_final_def demo_encode new_table_def write_frame_def bool_text_def is_undef_def)
  ultimately show ?thesis by (simp add: demo_events_def)
qed

lemma demo_run: "foldl (server_step demo_host id ''key'' ''d'') new_connection demo_events = demo_final"
  unfolding demo_rest [symmetric] demo_handshake [symmetric] foldl_append [symmetric] by simp

section \<open>Properties\<close>

text \<open>
  C9: No request reaches the worker and no stream is opened on a connection until the peer has sent a
  \<open>ready\<close> frame whose MAC covers the challenge of this very connection, and that challenge is one the
  server drew (or none, before the first hello).
\<close>

theorem no_work_before_proof:
  assumes "cn = foldl (server_step h decode key daemon) new_connection evs"
    and "cn_requests cn \<noteq> [] \<or> live (cn_streams cn) \<noteq> []"
  shows "(\<exists>f \<in> set (heard h decode key daemon new_connection evs). proves h key daemon (cn_challenge cn) f) \<and>
    (cn_challenge cn = [] \<or> (\<exists>ev \<in> set evs. cn_challenge cn \<in> drawn ev))"
proof -
  have new: "trusted new_connection" "\<not> cn_ready new_connection" "cn_challenge new_connection = []"
    by (simp_all add: trusted_def nothing_asked_def new_connection_def new_table_def)
  note run = trusted_run [OF new(1) assms(1)]
  from run assms(2) have "cn_ready cn" by (auto simp: trusted_def nothing_asked_def)
  with run new(2) have got: "cn_challenge cn \<in> insert [] (\<Union> (set (map drawn evs)))"
    "\<exists>f \<in> set (heard h decode key daemon new_connection evs). proves h key daemon (cn_challenge cn) f"
    unfolding new(3) by blast+
  from got(1) have "cn_challenge cn = [] \<or> (\<exists>ev \<in> set evs. cn_challenge cn \<in> drawn ev)" by simp
  with got(2) show ?thesis by blast
qed

text \<open>
  The server's own messages cannot be reflected to it: a \<open>ready\<close> frame that carries the MAC of any
  acknowledgement it ever sent destroys the connection, unless HMAC maps two different texts to one
  value. (Challenges are hexadecimal, so they hold no separator.)
\<close>

theorem handshake_not_reflected:
  assumes "\<not> cn_ready cn" "CHR 0x00 \<notin> set (cn_challenge cn)"
    and "field_of f ''type'' = VStr ''ready''" "field_of f ''mac'' = VStr (handshakeMac h key [daemon, a, b])"
  shows "on_frame h decode key daemon fresh f cn = Inl (destroy cn) \<or> (\<exists>x y. x \<noteq> y \<and> hmac h key x = hmac h key y)"
proof (cases "proves h key daemon (cn_challenge cn) f")
  case True
  with assms(4) have "hmac h key (handshake_text [daemon, a, b]) = hmac h key (handshake_text [daemon, cn_challenge cn])"
    by (simp add: proves_def handshakeMac_def del: field_of.simps)
  with handshake_texts_differ [OF assms(2)] show ?thesis by blast
next
  case False
  with assms show ?thesis by (auto simp: on_frame_def is_hello_def simp del: field_of.simps)
qed

text \<open>
  C10: However handlers and frames interleave, every reply on the wire answers one request of its own:
  the replies are those of the requests that are answered, each once, and while the connection is
  up every answered request has its reply on the wire.
\<close>

theorem each_request_answered_once:
  assumes "cn = foldl (server_step h decode key daemon) new_connection evs"
  shows "mset (replies (cn_streams cn)) \<subseteq># mset (answers (cn_requests cn)) \<and>
    (cn_destroyed cn \<or> mset (replies (cn_streams cn)) = mset (answers (cn_requests cn)))"
  using server.run_inv [OF accounted_new, of h decode key daemon evs] unfolding assms accounted_def .



theorem no_work_before_proof_witness:
  "\<exists>f \<in> set (heard demo_host id ''key'' ''d'' new_connection demo_events). proves demo_host ''key'' ''d'' ''b'' f"
  using no_work_before_proof [OF demo_run [symmetric]] by (simp add: demo_final_def demo_ready_def)

theorem each_request_answered_once_witness:
  "mset (replies (cn_streams demo_final)) \<subseteq># {#[(''requestId'', VStr ''r1''), (''health'', VBool True)]#}"
  using each_request_answered_once [OF demo_run [symmetric]]
  by (simp add: demo_final_def answers_def answer_def reply_frame_def new_request_def)

theorem handshake_not_reflected_witness:
  "on_frame demo_host id ''key'' ''d'' ''c'' (VObj [(''type'', VStr ''ready''), (''challengeB'', VStr ''b''),
      (''mac'', VStr (handshakeMac demo_host ''key'' [''d'', ''a'', ''b'']))]) (demo_ready\<lparr>cn_ready := False\<rparr>)
    = Inl (destroy (demo_ready\<lparr>cn_ready := False\<rparr>))"
  using handshake_not_reflected [of "demo_ready\<lparr>cn_ready := False\<rparr>" "VObj [(''type'', VStr ''ready''), (''challengeB'', VStr ''b''),
      (''mac'', VStr (handshakeMac demo_host ''key'' [''d'', ''a'', ''b'']))]" demo_host "''key''" "''d''" "''a''" "''b''" id "''c''"]
  by (simp add: demo_ready_def) (simp add: demo_host_def)


text \<open>
  A request that runs for long holds nothing up: on a connection with any requests in flight a health
  probe is answered as soon as its own handler settles, and the requests in flight are as they were.
\<close>

theorem health_not_blocked:
  assumes "cn_ready cn" "\<not> cn_destroyed cn" "cn_decoder cn = new_decoder"
    and "encodeFrame (VObj [(''type'', VStr ''health''), (''requestId'', VStr rid)]) = Inr bytes"
    and "encodeFrame (VObj [(''requestId'', VStr rid), (''health'', status)]) = Inr out"
    and "cn' = foldl (server_step h decode key daemon) cn
      [SData draw bytes, SSettled (length (cn_requests cn)) (Inr status), SReply (length (cn_requests cn))]"
  shows "wire (cn_streams cn') = wire (cn_streams cn) @ [[(''requestId'', VStr rid), (''health'', status)]] \<and>
    take (length (cn_requests cn)) (cn_requests cn') = cn_requests cn"
proof -
  let ?rq = "new_request (VStr rid) True VUndef None"
  let ?k = "length (cn_requests cn)"
  have "on_data h decode key daemon draw bytes cn = add_request ?rq cn"
    using push_frame [OF assms(4)] assms(1-3)
    by (simp add: on_data_def wf_map_def on_frame_def dispatch_frame_def stream_type_def has_prefix_def add_request_def)
  moreover have "server_step h decode key daemon (add_request ?rq cn) (SSettled ?k (Inr status))
      = add_request (?rq\<lparr>rq_phase := Replying (ReplyResult status)\<rparr>) cn"
    by (simp add: add_request_def new_request_def handler_settled_def stream_before_def set_request_phase_def)
  moreover have "server_step h decode key daemon (add_request (?rq\<lparr>rq_phase := Replying (ReplyResult status)\<rparr>) cn) (SReply ?k)
      = add_request (?rq\<lparr>rq_phase := Replied (ReplyResult status)\<rparr>)
          (cn\<lparr>cn_streams := write_frame [(''requestId'', VStr rid), (''health'', status)] (cn_streams cn)\<rparr>)"
    using assms(2,5)
    by (simp add: add_request_def new_request_def reply_def reply_frame_def write_socket_def stream_after_def set_request_phase_def)
  ultimately show ?thesis using assms(6) by (simp add: add_request_def write_frame_def)
qed

theorem health_not_blocked_witness:
  "wire (cn_streams demo_final) = wire (cn_streams demo_ready) @ [[(''requestId'', VStr ''r1''), (''health'', VBool True)]]"
proof -
  have run: "demo_final = foldl (server_step demo_host id ''key'' ''d'') demo_ready
      [SData (\<lambda>_. ''b'') (demo_bytes 2), SSettled (length (cn_requests demo_ready)) (Inr (VBool True)), SReply (length (cn_requests demo_ready))]"
    unfolding demo_rest [symmetric] by (simp add: demo_events_def demo_ready_def)
  obtain bytes where "encodeFrame (VObj [(''type'', VStr ''health''), (''requestId'', VStr ''r1'')]) = Inr bytes"
    by (simp add: demo_encode)
  then have bytes: "encodeFrame (VObj [(''type'', VStr ''health''), (''requestId'', VStr ''r1'')]) = Inr (demo_bytes 2)"
    by (simp add: demo_bytes_def demo_frames_def)
  obtain out where "encodeFrame (VObj [(''requestId'', VStr ''r1''), (''health'', VBool True)]) = Inr out"
    by (simp add: demo_encode bool_text_def)
  from health_not_blocked [OF _ _ _ bytes this run] show ?thesis by (simp add: demo_ready_def)
qed

end
