(* ===== verification/WorkerProcess.thy ===== *)
theory WorkerProcess
  imports IpcServer
begin

text \<open>
  apps/worker/src/server.ts: the worker process. Its connections share one signer, and every \<open>execute\<close>
  is parsed and verified in the turn of the frame that asks for it, before its handler first waits.
  What is verified is handed to an operation; \<open>wk_started\<close> records these hand-overs.
\<close>

section \<open>The process\<close>

record started =
  st_conn :: nat
  st_env :: frame
  st_at :: int

record worker =
  wk_signer :: signer
  wk_conns :: "connection list"
  wk_started :: "started list"

definition new_worker :: "string \<Rightarrow> string \<Rightarrow> worker" where
  "new_worker key daemon = \<lparr>wk_signer = new_signer key daemon, wk_conns = [], wk_started = []\<rparr>"

text \<open>The synchronous part of the handler of one request, at time \<open>t\<close>.\<close>

definition start_request :: "host_fns \<Rightarrow> nat \<Rightarrow> int \<Rightarrow> rpc_request \<Rightarrow> worker \<Rightarrow> worker" where
  "start_request h i t rq w =
     (if rq_health rq \<or> rq_phase rq \<noteq> Running then w
      else (case worker_execute h (rq_envelope rq) t (wk_signer w) of
          (Inl _, sg) \<Rightarrow> w\<lparr>wk_signer := sg\<rparr>
        | (Inr env, sg) \<Rightarrow>
            w\<lparr>wk_signer := sg, wk_started := wk_started w @ [\<lparr>st_conn = i, st_env = env, st_at = t\<rparr>]\<rparr>))"

datatype worker_event = WConnect | WConn nat server_event int

fun worker_step :: "host_fns \<Rightarrow> (string \<Rightarrow> string) \<Rightarrow> string \<Rightarrow> string \<Rightarrow> worker \<Rightarrow> worker_event \<Rightarrow> worker" where
  "worker_step h decode key daemon w WConnect = w\<lparr>wk_conns := wk_conns w @ [new_connection]\<rparr>"
| "worker_step h decode key daemon w (WConn i ev t) =
     (if i < length (wk_conns w) then
        (let cn = wk_conns w ! i; cn' = server_step h decode key daemon cn ev in
         fold (start_request h i t) (drop (length (cn_requests cn)) (cn_requests cn'))
           (w\<lparr>wk_conns := (wk_conns w)[i := cn']\<rparr>))
      else w)"

fun event_time :: "worker_event \<Rightarrow> int option" where
  "event_time WConnect = None"
| "event_time (WConn i ev t) = Some t"

definition clock_runs :: "worker_event list \<Rightarrow> bool" where
  "clock_runs evs = sorted (List.map_filter event_time evs)"

section \<open>What is handed over\<close>

definition nonce_of :: "frame \<Rightarrow> jsv" where
  "nonce_of env = field_of (VObj env) ''nonce''"

definition expiry :: "host_fns \<Rightarrow> frame \<Rightarrow> int option" where
  "expiry h env = date_parse h (js_string (field_of (VObj env) ''expiresAt''))"

text \<open>\<open>v\<close> is an envelope that carries the MAC of its own body, stamped with the time of its verification.\<close>

definition authentic :: "host_fns \<Rightarrow> string \<Rightarrow> string \<Rightarrow> started \<Rightarrow> bool" where
  "authentic h key daemon r \<longleftrightarrow>
     (\<exists>env. st_env r = AList.update ''verifiedAt'' (VStr (iso_string h (st_at r))) env \<and>
        field_of (VObj env) ''mac'' = VStr (envelope_mac h key (VObj (AList.delete ''mac'' env))) \<and>
        field_of (VObj env) ''daemonInstanceId'' = VStr daemon \<and>
        (\<exists>e. expiry h env = Some e \<and> st_at r \<le> e))"

text \<open>A nonce is not used again before the envelope that used it has expired.\<close>

definition nonce_free :: "host_fns \<Rightarrow> started \<Rightarrow> started \<Rightarrow> bool" where
  "nonce_free h a b \<longleftrightarrow> nonce_of (st_env a) = nonce_of (st_env b) \<longrightarrow> (\<exists>e. expiry h (st_env a) = Some e \<and> e < st_at b)"

definition worker_inv :: "host_fns \<Rightarrow> string \<Rightarrow> string \<Rightarrow> int \<Rightarrow> worker \<Rightarrow> bool" where
  "worker_inv h key daemon now w \<longleftrightarrow>
     secret (wk_signer w) = key \<and> daemonInstanceId (wk_signer w) = daemon \<and>
     list_all trusted (wk_conns w) \<and>
     sorted_wrt (nonce_free h) (wk_started w) \<and>
     (\<forall>r \<in> set (wk_started w). authentic h key daemon r \<and> st_conn r < length (wk_conns w) \<and> cn_ready (wk_conns w ! st_conn r) \<and>
        (\<exists>e. expiry h (st_env r) = Some e \<and> (now \<le> e \<longrightarrow> (nonce_of (st_env r), e) \<in> set (seen (wk_signer w)))))"

lemma verify_accepted:
  assumes "verify h env t sg = (Inr v, sg')"
  obtains e where "v = AList.update ''verifiedAt'' (VStr (iso_string h t)) env"
    "field_of (VObj env) ''mac'' = VStr (envelope_mac h (secret sg) (VObj (AList.delete ''mac'' env)))"
    "field_of (VObj env) ''daemonInstanceId'' = VStr (daemonInstanceId sg)"
    "expiry h env = Some e" "t \<le> e" "nonce_of env \<notin> set (jkeys (prune t (seen sg)))"
    "(nonce_of env, e) \<in> set (seen sg')" "nonce_of v = nonce_of env" "expiry h v = expiry h env"
proof -
  from assms obtain e where *: "v = AList.update ''verifiedAt'' (VStr (iso_string h t)) env"
    "field_of (VObj env) ''mac'' = VStr (envelope_mac h (secret sg) (VObj (AList.delete ''mac'' env)))"
    "field_of (VObj env) ''daemonInstanceId'' = VStr (daemonInstanceId sg)"
    "expiry h env = Some e" "t \<le> e" "nonce_of env \<notin> set (jkeys (prune t (seen sg)))"
    "sg' = sg\<lparr>seen := AList.update (nonce_of env) e (prune t (seen sg))\<rparr>"
    by (auto simp: verify_accept_iff nonce_of_def expiry_def simp del: field_of.simps)
  moreover from * have "(nonce_of env, e) \<in> set (seen sg')" by (simp add: update_fresh)
  moreover from * have "nonce_of v = nonce_of env" "expiry h v = expiry h env"
    by (simp_all add: nonce_of_def expiry_def)
  ultimately show ?thesis using that by blast
qed

lemma dispatch_scope_same: "dispatch_scope w = Inr v \<Longrightarrow> w = v"
  by (auto simp: dispatch_scope_def tryE_Inr_iff simp del: field_of.simps split: if_splits jsv.splits)

lemma worker_execute_cases:
  assumes "worker_execute h raw t sg = (r, sg')"
  obtains e where "r = Inl e" "sg' = sg"
  | e env where "r = Inl e" "sg' = snd (verify h env t sg)"
  | env v where "r = Inr v" "raw = VObj env" "verify h env t sg = (Inr v, sg')"
proof (cases "parseOperationEnvelope raw")
  case (Inl e)
  with assms that(1) [of e] show ?thesis by (simp add: worker_execute_def)
next
  case (Inr env)
  obtain q sg1 where v: "verify h env t sg = (q, sg1)" by fastforce
  show ?thesis
  proof (cases r)
    case (Inl e)
    with assms Inr v that(2) [of e env] show ?thesis by (auto simp: worker_execute_def split: sum.splits)
  next
    case (Inr v')
    with assms \<open>parseOperationEnvelope raw = Inr env\<close> v that(3) [of v' env] parse_accepts(1) [of raw env]
    show ?thesis by (auto simp: worker_execute_def dest: dispatch_scope_same split: sum.splits)
  qed
qed

text \<open>A nonce that is remembered stays so while its envelope is valid.\<close>

lemma execute_keeps_seen:
  assumes "worker_execute h raw t sg = (r, sg')" "(n, e) \<in> set (seen sg)" "t \<le> e"
  shows "(n, e) \<in> set (seen sg')"
  using assms(1)
proof (cases rule: worker_execute_cases)
  case (2 e' env)
  obtain q where "verify h env t sg = (q, sg')" using 2(2) by (cases "verify h env t sg") simp
  then show ?thesis using assms(2,3) by (rule verify_keeps_seen)
next
  case (3 env v)
  then show ?thesis using assms(2,3) by (auto intro: verify_keeps_seen)
qed (use assms in simp)

lemma execute_same_key:
  assumes "worker_execute h raw t sg = (r, sg')"
  shows "secret sg' = secret sg \<and> daemonInstanceId sg' = daemonInstanceId sg"
  using assms
proof (cases rule: worker_execute_cases)
  case (2 e env)
  then show ?thesis using verify_frame [of h env t sg "fst (verify h env t sg)" sg'] by simp
next
  case (3 env v)
  then show ?thesis using verify_frame [of h env t sg "Inr v" sg'] by simp
qed simp

lemma worker_inv_later: "worker_inv h key daemon now w \<Longrightarrow> now \<le> t \<Longrightarrow> worker_inv h key daemon t w"
  by (fastforce simp: worker_inv_def)

lemma start_request_inv:
  assumes inv: "worker_inv h key daemon t w" and i: "i < length (wk_conns w)" "cn_ready (wk_conns w ! i)"
  shows "worker_inv h key daemon t (start_request h i t rq w)"
proof (cases "rq_health rq \<or> rq_phase rq \<noteq> Running")
  case True
  with inv show ?thesis by (simp add: start_request_def)
next
  case False
  obtain r sg' where x: "worker_execute h (rq_envelope rq) t (wk_signer w) = (r, sg')" by fastforce
  note keep = execute_keeps_seen [OF x] and same = execute_same_key [OF x]
  show ?thesis
  proof (cases r)
    case (Inl e)
    with False x inv keep same show ?thesis by (auto simp: start_request_def worker_inv_def)
  next
    case (Inr v)
    with x obtain env where "verify h env t (wk_signer w) = (Inr v, sg')" by (auto elim: worker_execute_cases)
    then obtain e where v: "v = AList.update ''verifiedAt'' (VStr (iso_string h t)) env"
      "field_of (VObj env) ''mac'' = VStr (envelope_mac h (secret (wk_signer w)) (VObj (AList.delete ''mac'' env)))"
      "field_of (VObj env) ''daemonInstanceId'' = VStr (daemonInstanceId (wk_signer w))"
      "expiry h env = Some e" "t \<le> e" "nonce_of env \<notin> set (jkeys (prune t (seen (wk_signer w))))"
      "(nonce_of env, e) \<in> set (seen sg')" "nonce_of v = nonce_of env" "expiry h v = expiry h env"
      by (rule verify_accepted)
    let ?new = "\<lparr>st_conn = i, st_env = v, st_at = t\<rparr>"
    have free: "nonce_free h r ?new" if "r \<in> set (wk_started w)" for r
    proof -
      from inv that obtain e' where e': "expiry h (st_env r) = Some e'"
        "t \<le> e' \<longrightarrow> (nonce_of (st_env r), e') \<in> set (seen (wk_signer w))" by (auto simp: worker_inv_def)
      have "nonce_of (st_env r) \<noteq> nonce_of env" if "t \<le> e'"
      proof
        assume "nonce_of (st_env r) = nonce_of env"
        with e'(2) that have "(nonce_of env, e') \<in> set (prune t (seen (wk_signer w)))" by (simp add: prune_keeps)
        then have "nonce_of env \<in> set (jkeys (prune t (seen (wk_signer w))))" by force
        with v(6) show False ..
      qed
      with e'(1) v(8) show ?thesis by (auto simp: nonce_free_def not_le [symmetric])
    qed
    have auth: "authentic h key daemon ?new"
      unfolding authentic_def using v inv by (auto simp: worker_inv_def intro!: exI [of _ env])
    have w': "start_request h i t rq w = w\<lparr>wk_signer := sg', wk_started := wk_started w @ [?new]\<rparr>"
      using False x Inr by (simp add: start_request_def)
    show ?thesis
      using inv i keep same free auth v(4,7,8,9) unfolding w' by (auto simp: worker_inv_def sorted_wrt_append)
  qed
qed

lemma start_requests_inv:
  assumes "worker_inv h key daemon t w" "i < length (wk_conns w)" "cn_ready (wk_conns w ! i)"
  shows "worker_inv h key daemon t (fold (start_request h i t) rqs w)"
proof -
  have conns: "wk_conns (start_request h i t rq w) = wk_conns w" for rq w
    by (simp add: start_request_def split: prod.splits sum.splits)
  show ?thesis
    using assms by (induction rqs arbitrary: w) (simp_all add: start_request_inv conns)
qed

lemma worker_step_inv:
  assumes inv: "worker_inv h key daemon now w" and time: "\<And>t. event_time ev = Some t \<Longrightarrow> now \<le> t"
  shows "worker_inv h key daemon (case event_time ev of None \<Rightarrow> now | Some t \<Rightarrow> t) (worker_step h decode key daemon w ev)"
proof (cases ev)
  case WConnect
  have "trusted new_connection" by (simp add: trusted_def nothing_asked_def new_connection_def new_table_def)
  with inv WConnect show ?thesis by (auto simp: worker_inv_def nth_append)
next
  case (WConn i sev t)
  show ?thesis
  proof (cases "i < length (wk_conns w)")
    case False
    with WConn worker_inv_later [OF inv] time show ?thesis by simp
  next
    case True
    let ?cn = "wk_conns w ! i"
    let ?cn' = "server_step h decode key daemon ?cn sev"
    let ?w = "w\<lparr>wk_conns := (wk_conns w)[i := ?cn']\<rparr>"
    have cn: "trusted ?cn" using inv True by (simp add: worker_inv_def list_all_length)
    have cn': "trusted ?cn'" "cn_ready ?cn \<longrightarrow> cn_ready ?cn'"
      using step_ready [of ?cn h decode key daemon sev] step_unready [of ?cn ?cn' h decode key daemon sev] cn
      by (auto simp: trusted_def)
    have "worker_inv h key daemon t w" using worker_inv_later [OF inv] time WConn by simp
    then have w: "worker_inv h key daemon t ?w"
      using cn' True by (auto simp: worker_inv_def list_all_iff nth_list_update dest: set_update_subset_insert [THEN subsetD])
    show ?thesis
    proof (cases "cn_ready ?cn'")
      case True': True
      with start_requests_inv [OF w, of i "drop (length (cn_requests ?cn)) (cn_requests ?cn')"] True WConn
      show ?thesis by (simp add: Let_def)
    next
      case False
      with cn'(1) have "cn_requests ?cn' = []" by (simp add: trusted_def nothing_asked_def)
      with w WConn True show ?thesis by (simp add: Let_def)
    qed
  qed
qed

lemma event_times: "ev \<in> set evs \<Longrightarrow> event_time ev = Some t \<Longrightarrow> t \<in> set (List.map_filter event_time evs)"
  by (force simp: List.map_filter_def)

lemma worker_run_inv:
  assumes "worker_inv h key daemon now w" "clock_runs evs" "\<And>ev t. ev \<in> set evs \<Longrightarrow> event_time ev = Some t \<Longrightarrow> now \<le> t"
  shows "\<exists>later. worker_inv h key daemon later (foldl (worker_step h decode key daemon) w evs)"
  using assms
proof (induction evs arbitrary: now w)
  case (Cons ev evs)
  let ?now = "case event_time ev of None \<Rightarrow> now | Some t \<Rightarrow> t"
  have first: "worker_inv h key daemon ?now (worker_step h decode key daemon w ev)"
    by (rule worker_step_inv [OF Cons.prems(1)]) (use Cons.prems(3) in auto)
  have "clock_runs evs" using Cons.prems(2) by (auto simp: clock_runs_def map_filter_simps split: option.splits)
  moreover have "?now \<le> t" if "ev' \<in> set evs" "event_time ev' = Some t" for ev' t
    using Cons.prems(2) Cons.prems(3) [of ev' t] event_times [OF that] that
    by (auto simp: clock_runs_def map_filter_simps split: option.splits)
  ultimately show ?case using Cons.IH [OF first] by simp
qed auto

section \<open>A call over the wire\<close>

text \<open>A connection only ever adds requests, so what its chunks start is what they added.\<close>

lemma frame_adds: "\<exists>new. cn_requests (both (on_frame h decode key daemon fresh f cn)) = cn_requests cn @ new"
proof -
  have refused: "\<exists>new. cn_requests cn2 = cn_requests cn1 @ new" if "refuse r m cn1 = Inr cn2" for r m cn1 cn2
    using that by (auto simp: refuse_def Let_def tryE_Inr_iff add_request_def write_socket_sel)
  have "\<exists>new. cn_requests cn2 = cn_requests cn @ new" if "dispatch_frame decode f cn = Inr cn2" for cn2
    using that refused [of _ _ "cn\<lparr>cn_streams := t\<rparr>" for t] refused [of _ _ cn]
    by (fastforce simp: dispatch_frame_def Let_def add_request_def simp del: field_of.simps split: if_splits prod.splits option.splits)
  then show ?thesis
    by (auto simp: on_frame_def map_sum_def Let_def simp del: field_of.simps split: if_splits sum.splits dest: write_socket_sel(4))
qed

lemma frames_add: "\<exists>new. cn_requests (on_frames h decode key daemon draw fs cn) = cn_requests cn @ new"
proof (induction fs arbitrary: cn draw)
  case (Cons f fs)
  obtain new where "cn_requests (both (on_frame h decode key daemon (draw 0) f cn)) = cn_requests cn @ new"
    using frame_adds by blast
  with Cons [where cn = "both (on_frame h decode key daemon (draw 0) f cn)" and draw = "draw \<circ> Suc"] show ?case
    by (auto simp del: comp_apply split: sum.splits)
qed simp

lemma data_adds: "\<exists>new. cn_requests (on_data h decode key daemon draw c cn) = cn_requests cn @ new"
  using frames_add [of h decode key daemon draw _ "cn\<lparr>cn_decoder := d\<rparr>" for d]
  by (auto simp: on_data_def split: prod.splits sum.splits)

abbreviation receive :: "host_fns \<Rightarrow> (string \<Rightarrow> string) \<Rightarrow> string \<Rightarrow> string \<Rightarrow> (nat \<Rightarrow> string) \<Rightarrow> string list \<Rightarrow> connection \<Rightarrow> connection" where
  "receive h decode key daemon draw cs cn \<equiv> foldl (\<lambda>cn c. on_data h decode key daemon draw c cn) cn cs"

lemma receive_adds: "\<exists>new. cn_requests (receive h decode key daemon draw cs cn) = cn_requests cn @ new"
proof (induction cs rule: rev_induct)
  case (snoc c cs)
  with data_adds [of h decode key daemon draw c "receive h decode key daemon draw cs cn"] show ?case by auto
qed simp

lemma fold_start_conns:
  "fold (start_request h i t) rqs (w\<lparr>wk_conns := cns\<rparr>) = (fold (start_request h i t) rqs w)\<lparr>wk_conns := cns\<rparr>"
proof (induction rqs arbitrary: w)
  case (Cons rq rqs)
  have "start_request h i t rq (w\<lparr>wk_conns := cns\<rparr>) = (start_request h i t rq w)\<lparr>wk_conns := cns\<rparr>"
    by (simp add: start_request_def split: prod.splits sum.splits)
  with Cons show ?case by simp
qed simp

lemma receive_starts:
  assumes "i < length (wk_conns w)" "cn = wk_conns w ! i" "cn' = receive h decode key daemon draw cs cn"
  shows "foldl (worker_step h decode key daemon) w (map (\<lambda>c. WConn i (SData draw c) t) cs)
    = (fold (start_request h i t) (drop (length (cn_requests cn)) (cn_requests cn')) w)\<lparr>wk_conns := (wk_conns w)[i := cn']\<rparr>"
  using assms(3)
proof (induction cs arbitrary: cn' rule: rev_induct)
  case Nil
  with assms(1,2) show ?case by simp
next
  case (snoc c cs)
  let ?cn1 = "receive h decode key daemon draw cs cn"
  let ?w1 = "fold (start_request h i t) (drop (length (cn_requests cn)) (cn_requests ?cn1)) w"
  obtain new1 where n1: "cn_requests ?cn1 = cn_requests cn @ new1" using receive_adds by blast
  from snoc.prems have cn': "cn' = on_data h decode key daemon draw c ?cn1" by simp
  obtain new2 where n2: "cn_requests cn' = cn_requests ?cn1 @ new2" using data_adds unfolding cn' by blast
  from snoc.IH [OF refl] n1 n2 assms(1) show ?case
    by (simp add: Let_def cn' [symmetric] fold_start_conns)
qed

text \<open>A parsed envelope passes the dispatcher's scope check after it is verified.\<close>

lemma parsed_in_scope:
  assumes "parseOperationEnvelope (VObj env) = Inr env"
  shows "dispatch_scope (AList.update ''verifiedAt'' v env) = Inr (AList.update ''verifiedAt'' v env)"
proof (cases "field_of (field_of (VObj env) ''scope'') ''kind'' = VStr ''host-control''")
  case True
  from parse_accepts(3) [OF assms] obtain kind roots where k: "field_of (field_of (VObj env) ''operation'') ''kind'' = VStr kind"
    "field_of (VObj env) ''capabilityRoots'' = VArr roots" "check_scope (VObj env) kind = Inr ()" by blast
  from check_scope_host [OF k(3) True k(2)] k show ?thesis
    by (simp add: dispatch_scope_def del: field_of.simps)
next
  case False
  then show ?thesis by (simp add: dispatch_scope_def)
qed

definition execute_frame :: "string \<Rightarrow> frame \<Rightarrow> jsv" where
  "execute_frame rid env = VObj [(''type'', VStr ''execute''), (''requestId'', VStr rid), (''envelope'', VObj env)]"

lemma execute_frame_received:
  assumes "cn_ready cn" "\<not> cn_destroyed cn" "cn_decoder cn = new_decoder" "wf_jsv (VObj env)" "norm (VObj env) = VObj env'"
    and "encodeFrame (execute_frame rid env) = Inr bytes" "concat cs = bytes"
  shows "receive h decode key daemon draw cs cn = add_request (new_request (VStr rid) False (VObj env') None) cn"
proof -
  have wf: "wf_jsv (execute_frame rid env)" using assms(4) by (simp add: execute_frame_def wf_map_def)
  have fed: "feed cs (cn_decoder cn) = (Inr [norm (execute_frame rid env)], new_decoder)"
    using feed_frames [of "[execute_frame rid env]" "[bytes]" cs] wf assms(3,6,7) by simp
  have norm: "norm (execute_frame rid env) = execute_frame rid env'"
    using assms(5) by (simp add: execute_frame_def)
  let ?cn' = "add_request (new_request (VStr rid) False (VObj env') None) cn"
  have one: "on_frames h decode key daemon draw [norm (execute_frame rid env)] cn = ?cn'"
    using assms(1) unfolding norm
    by (simp add: on_frame_def dispatch_frame_def execute_frame_def stream_type_def has_prefix_def)
  moreover have "\<not> cn_destroyed ?cn'" "?cn'\<lparr>cn_decoder := new_decoder\<rparr> = ?cn'"
    using assms(2,3) by (simp_all add: add_request_def)
  ultimately show ?thesis using chunks_frames [OF assms(1,2) fed, of h decode key daemon draw] by simp
qed

text \<open>A body the core signed, sent to the worker in an execute frame.\<close>

lemma call_starts:
  assumes conn: "i < length (wk_conns w)" "cn_ready (wk_conns w ! i)" "\<not> cn_destroyed (wk_conns w ! i)"
      "cn_decoder (wk_conns w ! i) = new_decoder"
    and signed: "sign h sg input = Inr env" and wf: "wf_jsv (VObj input)"
    and fresh_mac: "''mac'' \<notin> set (jkeys input)" and wire: "norm (VObj env) = VObj env'"
    and peer: "secret (wk_signer w) = secret sg" "daemonInstanceId (wk_signer w) = daemonInstanceId sg"
    and issued: "field_of (VObj input) ''issuedAt'' = VStr is" "date_parse h is = Some ti"
      "ti \<le> t + maxClockSkewMs (wk_signer w)"
    and expires: "field_of (VObj input) ''expiresAt'' = VStr x" "date_parse h x = Some tx" "t \<le> tx"
    and nonce: "field_of (VObj input) ''nonce'' = VStr n" "VStr n \<notin> set (jkeys (prune t (seen (wk_signer w))))"
    and parsed: "parseOperationEnvelope (VObj env') = Inr env'"
    and sent: "encodeFrame (execute_frame rid env) = Inr bytes" "concat cs = bytes"
  shows "wk_started (foldl (worker_step h decode key daemon) w (map (\<lambda>c. WConn i (SData draw c) t) cs))
    = wk_started w @ [\<lparr>st_conn = i, st_env = AList.update ''verifiedAt'' (VStr (iso_string h t)) env', st_at = t\<rparr>]"
proof -
  let ?rq = "new_request (VStr rid) False (VObj env') None"
  let ?cn' = "receive h decode key daemon draw cs (wk_conns w ! i)"
  have "env = AList.update ''mac'' (VStr (envelope_mac h (secret sg) (VObj input))) input"
    using signed by (simp add: sign_def split: if_splits)
  then have "wf_jsv (VObj env)" using wf set_update_subset [of "''mac''" _ input] by fastforce
  with execute_frame_received [OF conn(2-4) _ wire sent] have got: "?cn' = add_request ?rq (wk_conns w ! i)" by simp
  have "worker_execute h (VObj env') t (wk_signer w)
      = (Inr (AList.update ''verifiedAt'' (VStr (iso_string h t)) env'),
         (wk_signer w)\<lparr>seen := AList.update (VStr n) tx (prune t (seen (wk_signer w)))\<rparr>)"
    using signed_verifies [OF signed wf fresh_mac wire peer issued expires nonce] parsed
    by (simp add: worker_execute_def parsed_in_scope)
  then show ?thesis
    unfolding receive_starts [OF conn(1) refl refl] got
    by (simp add: add_request_def start_request_def new_request_def)
qed

section \<open>A concrete worker\<close>

definition demo_worker_events :: "worker_event list" where
  "demo_worker_events = WConnect # map (\<lambda>ev. WConn 0 ev 1) (take 2 demo_events)"

definition demo_worker :: worker where
  "demo_worker = \<lparr>wk_signer = new_signer ''key'' ''d'', wk_conns = [demo_ready], wk_started = []\<rparr>"

lemma demo_worker_run: "foldl (worker_step demo_host id ''key'' ''d'') (new_worker ''key'' ''d'') demo_worker_events = demo_worker"
proof -
  let ?w = "(new_worker ''key'' ''d'')\<lparr>wk_conns := [new_connection]\<rparr>"
  let ?cs = "[demo_bytes 0, demo_bytes 1]"
  have "receive demo_host id ''key'' ''d'' (\<lambda>_. ''b'') ?cs new_connection = demo_ready"
    using demo_handshake by (simp add: demo_events_def)
  then have "foldl (worker_step demo_host id ''key'' ''d'') ?w (map (\<lambda>c. WConn 0 (SData (\<lambda>_. ''b'') c) 1) ?cs) = demo_worker"
    using receive_starts [of 0 ?w new_connection demo_ready demo_host id "''key''" "''d''" "\<lambda>_. ''b''" ?cs 1]
    by (simp add: new_worker_def demo_worker_def demo_ready_def new_connection_def)
  then show ?thesis
    by (simp add: demo_worker_events_def demo_events_def new_worker_def del: worker_step.simps(2))
qed

definition demo_call :: string where
  "demo_call = (case encodeFrame (execute_frame ''r1'' demo_envelope) of Inr bytes \<Rightarrow> bytes | Inl _ \<Rightarrow> [])"

lemma demo_call_encodes: "encodeFrame (execute_frame ''r1'' demo_envelope) = Inr demo_call"
proof -
  obtain bytes where "encodeFrame (execute_frame ''r1'' demo_envelope) = Inr bytes"
    by (simp add: execute_frame_def demo_envelope_eq demo_body_def demo_encode envelope_mac_def)
  then show ?thesis by (simp add: demo_call_def)
qed

section \<open>Properties\<close>



text \<open>
  A call the core signs reaches its operation: the frame, however its bytes are cut, starts exactly one
  operation on the worker, with the envelope that was signed and the time it was verified, when
  the connection is proven and free, the envelope is in its validity window and its nonce is new.
\<close>

theorem signed_call_starts_operation:
  assumes "i < length (wk_conns w)" "cn_ready (wk_conns w ! i)" "\<not> cn_destroyed (wk_conns w ! i)"
      "cn_decoder (wk_conns w ! i) = new_decoder"
    and "sign h sg input = Inr env" "wf_jsv (VObj input)" "''mac'' \<notin> set (jkeys input)" "norm (VObj env) = VObj env'"
    and "secret (wk_signer w) = secret sg" "daemonInstanceId (wk_signer w) = daemonInstanceId sg"
    and "field_of (VObj input) ''issuedAt'' = VStr is" "date_parse h is = Some ti" "ti \<le> t + maxClockSkewMs (wk_signer w)"
    and "field_of (VObj input) ''expiresAt'' = VStr x" "date_parse h x = Some tx" "t \<le> tx"
    and "field_of (VObj input) ''nonce'' = VStr n" "VStr n \<notin> set (jkeys (prune t (seen (wk_signer w))))"
    and "parseOperationEnvelope (VObj env') = Inr env'"
    and "encodeFrame (execute_frame rid env) = Inr bytes" "concat cs = bytes"
  shows "wk_started (foldl (worker_step h decode key daemon) w (map (\<lambda>c. WConn i (SData draw c) t) cs))
    = wk_started w @ [\<lparr>st_conn = i, st_env = AList.update ''verifiedAt'' (VStr (iso_string h t)) env', st_at = t\<rparr>]"
  by (rule call_starts [OF assms])

definition demo_started :: started where
  "demo_started = \<lparr>st_conn = 0, st_env = AList.update ''verifiedAt'' (VStr (iso_string demo_host 3)) demo_envelope, st_at = 3\<rparr>"

lemma demo_parse: "parseOperationEnvelope (VObj demo_envelope) = Inr demo_envelope"
  by (simp add: demo_envelope_eq demo_mac_nonempty parseOperationEnvelope_def demo_body_def Let_def show_int_def
      operation_kinds_def nonempty_string_def check_scope_def validateScope_def starts_with_def)

lemma demo_times: "field_of (VObj demo_body) ''issuedAt'' = VStr ''a''" "date_parse demo_host ''a'' = Some 1"
  "field_of (VObj demo_body) ''expiresAt'' = VStr ''bbbbb''" "date_parse demo_host ''bbbbb'' = Some 5"
  "field_of (VObj demo_body) ''nonce'' = VStr ''n''"
  by (simp_all add: demo_body_def demo_host_def)

theorem signed_call_starts_operation_witness:
  "wk_started (foldl (worker_step demo_host id ''key'' ''d'') demo_worker
     (map (\<lambda>c. WConn 0 (SData (\<lambda>_. ''b'') c) 3) [take 7 demo_call, drop 7 demo_call])) = [demo_started]"
  using signed_call_starts_operation [where sg = "new_signer ''key'' ''d''" and h = demo_host and i = 0 and w = demo_worker
      and cs = "[take 7 demo_call, drop 7 demo_call]" and t = 3, OF _ _ _ _ demo_sign demo_wf(1) demo_wf(3) demo_wire _ _
      demo_times(1,2) _ demo_times(3,4) _ demo_times(5) _ demo_parse demo_call_encodes]
  by (simp add: demo_worker_def demo_ready_def new_signer_def prune_def demo_started_def)


end
