(* ===== verification/IpcClient.thy ===== *)
theory IpcClient
  imports WorkerProcess
begin

text \<open>
  packages/ipc/src/client.ts and stream-client.ts: the core's side of the socket. A client opens a
  socket when it needs one, proves itself to the worker and multiplexes calls over it; a call is a
  promise that a reply, its deadline, an abort of its stream, or the end of the socket settles.

  Sockets outlive the field that names the current one, so they are kept in a list and named by
  their index; so are calls. A call settles through its entry in \<open>pending\<close>. What the client writes to a
  socket is in its \<open>sk_out\<close>; \<open>wire\<close> and \<open>told\<close> of the streams are emptied as they are delivered, to the
  current socket and to \<open>host.reject\<close>. An exception in the \<open>data\<close> listener has no handler: it is an
  uncaught exception of the process, \<open>cl_crashed\<close>. A promise settles once; what runs when the
  connecting promise settles (\<open>finally\<close>) is taken to run at once. The number of a stream is drawn when its
  call is built, not before the connection is awaited: the two orders name the same streams differently.
\<close>

section \<open>State\<close>

datatype open_state = Opening | Opened | OpenFailed

record client_socket =
  sk_challenge :: string
  sk_decoder :: decoder
  sk_ready :: bool
  sk_opening :: open_state
  sk_destroyed :: bool
  sk_out :: "frame list"

datatype call_outcome = Waiting | Answered jsv | Failed string

record client_stream =
  cs_id :: string
  cs_upload :: bool
  cs_end :: nat

text \<open>A call is an orphan when \<open>start\<close> threw after it registered the call: nobody holds its promise.\<close>

record call =
  ca_id :: string
  ca_type :: string
  ca_stream :: "client_stream option"
  ca_outcome :: call_outcome
  ca_orphan :: bool

record client =
  cl_sockets :: "client_socket list"
  cl_current :: "nat option"
  cl_connecting :: "nat option"
  cl_calls :: "call list"
  cl_pending :: "(string, nat) jsmap"
  cl_streams :: stream_table
  cl_counter :: nat
  cl_crashed :: bool

definition new_client :: client where
  "new_client = \<lparr>cl_sockets = [], cl_current = None, cl_connecting = None, cl_calls = [], cl_pending = [],
     cl_streams = new_table, cl_counter = 0, cl_crashed = False\<rparr>"

definition new_socket :: "string \<Rightarrow> client_socket" where
  "new_socket a = \<lparr>sk_challenge = a, sk_decoder = new_decoder, sk_ready = False, sk_opening = Opening,
     sk_destroyed = False, sk_out = []\<rparr>"

definition set_socket :: "nat \<Rightarrow> (client_socket \<Rightarrow> client_socket) \<Rightarrow> client \<Rightarrow> client" where
  "set_socket s g cl = cl\<lparr>cl_sockets := (cl_sockets cl)[s := g (cl_sockets cl ! s)]\<rparr>"

section \<open>Settling calls\<close>

text \<open>\<open>`r${++this.next}`\<close>; \<open>next\<close> is the number of calls registered.\<close>

definition call_name :: "nat \<Rightarrow> string" where
  "call_name k = ''r'' @ show_int (int (Suc k))"

definition settle_call :: "string \<Rightarrow> call_outcome \<Rightarrow> client \<Rightarrow> client" where
  "settle_call r out cl =
     (case map_of (cl_pending cl) r of
        None \<Rightarrow> cl
      | Some k \<Rightarrow> cl\<lparr>cl_pending := AList.delete r (cl_pending cl),
          cl_calls := (cl_calls cl)[k := (cl_calls cl ! k)\<lparr>ca_outcome := out\<rparr>]\<rparr>)"

definition settleAll :: "string \<Rightarrow> client \<Rightarrow> client" where
  "settleAll code cl = fold (\<lambda>r. settle_call r (Failed code)) (jkeys (cl_pending cl)) cl"

section \<open>Writing\<close>

definition write_to :: "nat \<Rightarrow> frame list \<Rightarrow> client \<Rightarrow> client" where
  "write_to s fs cl = set_socket s (\<lambda>sk. if sk_destroyed sk then sk else sk\<lparr>sk_out := sk_out sk @ fs\<rparr>) cl"

definition write_current :: "frame list \<Rightarrow> client \<Rightarrow> client" where
  "write_current fs cl = (case cl_current cl of None \<Rightarrow> cl | Some s \<Rightarrow> write_to s fs cl)"

text \<open>An operation of the streams: what they write goes to the current socket, and an abort rejects the call of the stream.\<close>

definition reject_told :: "(string, stream_entry) jsmap \<Rightarrow> string \<times> stream_error \<Rightarrow> client \<Rightarrow> client" where
  "reject_told entries note cl =
     (case map_of entries (fst note) of
        None \<Rightarrow> cl
      | Some en \<Rightarrow> settle_call (se_request en) (Failed (fst (snd note))) cl)"

definition streams_do :: "(stream_table \<Rightarrow> stream_table) \<Rightarrow> client \<Rightarrow> client" where
  "streams_do g cl =
     (let t = g (cl_streams cl) in
      fold (reject_told (live (cl_streams cl))) (told t)
        (write_current (wire t) (cl\<lparr>cl_streams := t\<lparr>wire := [], told := []\<rparr>\<rparr>)))"

section \<open>The socket\<close>

definition connect :: "string \<Rightarrow> client \<Rightarrow> client" where
  "connect a cl =
     (if cl_connecting cl \<noteq> None \<or> cl_current cl \<noteq> None then cl
      else cl\<lparr>cl_sockets := cl_sockets cl @ [new_socket a], cl_current := Some (length (cl_sockets cl)),
             cl_connecting := Some (length (cl_sockets cl))\<rparr>)"

definition hello_frame :: "string \<Rightarrow> string \<Rightarrow> frame" where
  "hello_frame daemon a =
     [(''type'', VStr ''hello''), (''daemonInstanceId'', VStr daemon), (''challengeA'', VStr a)]"

definition on_connect :: "string \<Rightarrow> nat \<Rightarrow> client \<Rightarrow> client" where
  "on_connect daemon s cl = write_to s [hello_frame daemon (sk_challenge (cl_sockets cl ! s))] cl"

text \<open>The promise of \<open>openSocket\<close> settles, unless it has.\<close>

definition opening_settles :: "nat \<Rightarrow> open_state \<Rightarrow> client \<Rightarrow> client" where
  "opening_settles s out cl =
     (if sk_opening (cl_sockets cl ! s) = Opening
      then (set_socket s (\<lambda>sk. sk\<lparr>sk_opening := out\<rparr>) cl)\<lparr>cl_connecting := (if cl_connecting cl = Some s then None else cl_connecting cl)\<rparr>
      else cl)"

definition destroy_socket :: "nat \<Rightarrow> client \<Rightarrow> client" where
  "destroy_socket s cl = set_socket s (\<lambda>sk. sk\<lparr>sk_destroyed := True\<rparr>) cl"

text \<open>The timer of the handshake only rejects the promise.\<close>

definition on_handshake_timeout :: "nat \<Rightarrow> client \<Rightarrow> client" where
  "on_handshake_timeout s cl = opening_settles s OpenFailed cl"

definition forget_socket :: "nat \<Rightarrow> client \<Rightarrow> client" where
  "forget_socket s cl = (if cl_current cl = Some s then cl\<lparr>cl_current := None\<rparr> else cl)"

text \<open>\<open>fail\<close>, for the first error and for the close of a socket.\<close>

definition on_socket_gone :: "nat \<Rightarrow> client \<Rightarrow> client" where
  "on_socket_gone s cl =
     forget_socket s (settleAll ''WORKER_DISCONNECTED''
       (streams_do (table_abortAll ''WORKER_DISCONNECTED'')
         (opening_settles s OpenFailed (destroy_socket s (forget_socket s cl)))))"

section \<open>Frames from the worker\<close>

text \<open>\<open>parts.join\<close> reads undefined and null as empty.\<close>

definition join_part :: "jsv \<Rightarrow> string" where
  "join_part v = (if v = VUndef \<or> v = VNull then [] else js_string v)"

definition ready_frame :: "host_fns \<Rightarrow> string \<Rightarrow> string \<Rightarrow> jsv \<Rightarrow> frame" where
  "ready_frame h key daemon b =
     [(''type'', VStr ''ready''), (''challengeB'', b), (''mac'', VStr (handshakeMac h key [daemon, join_part b]))]"

definition acknowledges :: "host_fns \<Rightarrow> string \<Rightarrow> string \<Rightarrow> jsv \<Rightarrow> bool" where
  "acknowledges h key daemon f \<longleftrightarrow>
     field_of f ''mac'' =
       VStr (handshakeMac h key [daemon, join_part (field_of f ''challengeA''), join_part (field_of f ''challengeB'')])"

text \<open>One frame; \<open>Inl\<close> when the listener throws.\<close>

definition on_worker_frame :: "host_fns \<Rightarrow> (string \<Rightarrow> string) \<Rightarrow> string \<Rightarrow> string \<Rightarrow> nat \<Rightarrow> jsv \<Rightarrow> client \<Rightarrow> client + client" where
  "on_worker_frame h decode key daemon s f cl =
     (if f = VNull then Inl cl
      else if field_of f ''type'' = VStr ''helloAck'' then
        (if \<not> acknowledges h key daemon f then Inr (destroy_socket s cl)
         else case encodeFrame (VObj (ready_frame h key daemon (field_of f ''challengeB''))) of
             Inl _ \<Rightarrow> Inl cl
           | Inr _ \<Rightarrow>
               Inr (opening_settles s Opened (set_socket s (\<lambda>sk. sk\<lparr>sk_ready := True\<rparr>)
                 (write_to s [ready_frame h key daemon (field_of f ''challengeB'')] cl))))
      else if stream_type (field_of f ''type'') then
        Inr (if sk_ready (cl_sockets cl ! s) then streams_do (table_handle decode (members_of f)) cl else cl)
      else
        (case field_of f ''requestId'' of
           VStr r \<Rightarrow> Inr (if r = [] then cl else settle_call r (Answered f) cl)
         | _ \<Rightarrow> Inr cl))"

fun on_worker_frames :: "host_fns \<Rightarrow> (string \<Rightarrow> string) \<Rightarrow> string \<Rightarrow> string \<Rightarrow> nat \<Rightarrow> jsv list \<Rightarrow> client \<Rightarrow> client" where
  "on_worker_frames h decode key daemon s [] cl = cl"
| "on_worker_frames h decode key daemon s (f # fs) cl =
     (case on_worker_frame h decode key daemon s f cl of
        Inl cl' \<Rightarrow> cl'\<lparr>cl_crashed := True\<rparr>
      | Inr cl' \<Rightarrow> on_worker_frames h decode key daemon s fs cl')"

definition on_worker_data :: "host_fns \<Rightarrow> (string \<Rightarrow> string) \<Rightarrow> string \<Rightarrow> string \<Rightarrow> nat \<Rightarrow> string \<Rightarrow> client \<Rightarrow> client" where
  "on_worker_data h decode key daemon s chunk cl =
     (if sk_destroyed (cl_sockets cl ! s) then cl
      else (case push chunk (sk_decoder (cl_sockets cl ! s)) of
          (r, d) \<Rightarrow>
            (let cl1 = set_socket s (\<lambda>sk. sk\<lparr>sk_decoder := d\<rparr>) cl in
             case r of Inl _ \<Rightarrow> cl1\<lparr>cl_crashed := True\<rparr> | Inr fs \<Rightarrow> on_worker_frames h decode key daemon s fs cl1)))"

section \<open>Calls\<close>

text \<open>What \<open>build\<close> makes of a call: its members, or a stream that it registers first.\<close>

datatype call_body = PlainCall frame | UploadCall jsv | DownloadCall jsv

definition stream_members :: "jsv \<Rightarrow> string \<Rightarrow> string \<Rightarrow> frame" where
  "stream_members env sid dir = [(''envelope'', env), (''stream'', VObj [(''id'', VStr sid), (''direction'', VStr dir)])]"

definition next_stream_id :: "call_body \<Rightarrow> client \<Rightarrow> string" where
  "next_stream_id body cl =
     (case body of UploadCall _ \<Rightarrow> ''u'' | _ \<Rightarrow> ''d'') @ show_int (int (Suc (cl_counter cl)))"

definition build_call :: "call_body \<Rightarrow> string \<Rightarrow> client \<Rightarrow> frame \<times> client_stream option \<times> client" where
  "build_call body r cl =
     (let sid = next_stream_id body cl; cl1 = cl\<lparr>cl_counter := Suc (cl_counter cl)\<rparr> in
      case body of
        PlainCall ms \<Rightarrow> (ms, None, cl)
      | UploadCall env \<Rightarrow>
          (case table_sender sid r True (cl_streams cl) of
             (i, t) \<Rightarrow> (stream_members env sid ''upload'', Some \<lparr>cs_id = sid, cs_upload = True, cs_end = i\<rparr>, cl1\<lparr>cl_streams := t\<rparr>))
      | DownloadCall env \<Rightarrow>
          (case table_receiver sid r True (cl_streams cl) of
             (i, t) \<Rightarrow> (stream_members env sid ''download'', Some \<lparr>cs_id = sid, cs_upload = False, cs_end = i\<rparr>, cl1\<lparr>cl_streams := t\<rparr>)))"

definition register_call :: "string \<Rightarrow> client \<Rightarrow> client" where
  "register_call ty cl =
     (let k = length (cl_calls cl); r = call_name k in
      cl\<lparr>cl_calls := cl_calls cl @ [\<lparr>ca_id = r, ca_type = ty, ca_stream = None, ca_outcome = Waiting, ca_orphan = False\<rparr>],
         cl_pending := AList.update r k (cl_pending cl)\<rparr>)"

definition set_call :: "nat \<Rightarrow> client_stream option \<Rightarrow> bool \<Rightarrow> client \<Rightarrow> client" where
  "set_call k stm orphan cl =
     cl\<lparr>cl_calls := (cl_calls cl)[k := (cl_calls cl ! k)\<lparr>ca_stream := stm, ca_orphan := orphan\<rparr>]\<rparr>"

definition call_frame :: "string \<Rightarrow> string \<Rightarrow> frame \<Rightarrow> frame" where
  "call_frame ty r ms = [(''type'', VStr ty), (''requestId'', VStr r)] @ ms"

text \<open>
  \<open>start\<close> after its \<open>connect\<close>. The slot is registered first; a throw after that (no socket any more, or a
  frame that is too large) leaves it without a holder. The caller then closes its stream.
\<close>

definition start_call :: "string \<Rightarrow> call_body \<Rightarrow> client \<Rightarrow> client" where
  "start_call ty body cl =
     (let k = length (cl_calls cl); r = call_name k; cl1 = register_call ty cl in
      case cl_current cl of
        None \<Rightarrow> set_call k None True cl1
      | Some s \<Rightarrow>
          (case build_call body r cl1 of
             (ms, stm, cl2) \<Rightarrow>
               (case encodeFrame (VObj (call_frame ty r ms)) of
                  Inl _ \<Rightarrow> set_call k None True
                    (case stm of None \<Rightarrow> cl2 | Some cs \<Rightarrow> cl2\<lparr>cl_streams := table_close (cs_id cs) (cl_streams cl2)\<rparr>)
                | Inr _ \<Rightarrow> set_call k stm False (write_to s [call_frame ty r ms] cl2))))"

definition on_deadline :: "nat \<Rightarrow> client \<Rightarrow> client" where
  "on_deadline k cl = settle_call (call_name k) (Failed ''WORKER_TIMEOUT'') cl"

text \<open>What \<open>runUpload\<close> and \<open>runDownload\<close> do with their stream when the call has settled.\<close>

definition fail_download :: "stream_error \<Rightarrow> nat \<Rightarrow> stream_table \<Rightarrow> stream_table" where
  "fail_download e i t = t\<lparr>rxs := (rxs t)[i := fail_receiver e (rxs t ! i)]\<rparr>"

definition reply_error :: "jsv \<Rightarrow> bool" where
  "reply_error f \<longleftrightarrow> field_of f ''error'' \<noteq> VUndef"

definition finish_stream :: "client_stream \<Rightarrow> call_outcome \<Rightarrow> client \<Rightarrow> client" where
  "finish_stream cs out cl =
     (case out of
        Waiting \<Rightarrow> cl
      | Failed code \<Rightarrow> streams_do (table_abort (cs_id cs) (streamErrorCode (Some code) ''STREAM_ABORTED'') True) cl
      | Answered f \<Rightarrow>
          if cs_upload cs then
            streams_do (table_abort (cs_id cs) ''STREAM_CLOSED'' False)
              (if reply_error f then streams_do (table_abort (cs_id cs) ''STREAM_ABORTED'' True) cl else cl)
          else
            streams_do (\<lambda>t. table_close (cs_id cs)
              (if reply_error f then fail_download ('''', js_string (field_of f ''error'')) (cs_end cs) t
               else if rx_done (rxs t ! cs_end cs) then t
               else fail_download (stream_error ''STREAM_INCOMPLETE'') (cs_end cs) t)) cl)"

definition close_client :: "client \<Rightarrow> client" where
  "close_client cl =
     (let cl1 = settleAll ''WORKER_DISCONNECTED'' (streams_do (table_abortAll ''WORKER_DISCONNECTED'') (cl\<lparr>cl_current := None\<rparr>)) in
      case cl_current cl of None \<Rightarrow> cl1 | Some s \<Rightarrow> destroy_socket s cl1)"

text \<open>The events of a client.\<close>

datatype client_event =
    CConnect string
  | COpened nat
  | CHandshakeTimeout nat
  | CData nat string
  | CGone nat
  | CStart string call_body
  | CDeadline nat
  | CFinish nat
  | CStreams table_event
  | CPumpFailed string string
  | CClose

fun client_step :: "host_fns \<Rightarrow> (string \<Rightarrow> string) \<Rightarrow> string \<Rightarrow> string \<Rightarrow> client \<Rightarrow> client_event \<Rightarrow> client" where
  "client_step h decode key daemon cl (CConnect a) = connect a cl"
| "client_step h decode key daemon cl (COpened s) = (if s < length (cl_sockets cl) then on_connect daemon s cl else cl)"
| "client_step h decode key daemon cl (CHandshakeTimeout s) = (if s < length (cl_sockets cl) then on_handshake_timeout s cl else cl)"
| "client_step h decode key daemon cl (CData s chunk) =
     (if s < length (cl_sockets cl) then on_worker_data h decode key daemon s chunk cl else cl)"
| "client_step h decode key daemon cl (CGone s) = (if s < length (cl_sockets cl) then on_socket_gone s cl else cl)"
| "client_step h decode key daemon cl (CStart ty body) = (if cl_connecting cl = None then start_call ty body cl else cl)"
| "client_step h decode key daemon cl (CDeadline k) = on_deadline k cl"
| "client_step h decode key daemon cl (CFinish k) =
     (if k < length (cl_calls cl) then
        (case ca_stream (cl_calls cl ! k) of None \<Rightarrow> cl | Some cs \<Rightarrow> finish_stream cs (ca_outcome (cl_calls cl ! k)) cl)
      else cl)"
| "client_step h decode key daemon cl (CStreams ev) = streams_do (\<lambda>t. table_step decode t ev) cl"
| "client_step h decode key daemon cl (CPumpFailed sid code) = streams_do (table_abort sid code True) cl"
| "client_step h decode key daemon cl CClose = close_client cl"

section \<open>Calls and their slots\<close>

text \<open>Every waiting call has its slot, and every slot its waiting call.\<close>

definition booked :: "client \<Rightarrow> bool" where
  "booked cl \<longleftrightarrow>
     (\<forall>k < length (cl_calls cl). ca_id (cl_calls cl ! k) = call_name k) \<and>
     (\<forall>r k. map_of (cl_pending cl) r = Some k \<longleftrightarrow>
        k < length (cl_calls cl) \<and> r = call_name k \<and> ca_outcome (cl_calls cl ! k) = Waiting)"

text \<open>From one state of a client to a later one: an outcome, once there, stays.\<close>

definition moves_on :: "client \<Rightarrow> client \<Rightarrow> bool" where
  "moves_on cl cl' \<longleftrightarrow> booked cl' \<and> length (cl_calls cl) \<le> length (cl_calls cl') \<and>
     (\<forall>k < length (cl_calls cl). ca_outcome (cl_calls cl ! k) \<noteq> Waiting \<longrightarrow> ca_outcome (cl_calls cl' ! k) = ca_outcome (cl_calls cl ! k))"

definition same_calls :: "client \<Rightarrow> client \<Rightarrow> bool" where
  "same_calls cl cl' \<longleftrightarrow> cl_calls cl' = cl_calls cl \<and> cl_pending cl' = cl_pending cl"

lemma call_name_inject [simp]: "call_name i = call_name j \<longleftrightarrow> i = j"
  by (simp add: call_name_def)

lemma moves_on_refl: "booked cl \<Longrightarrow> moves_on cl cl"
  by (simp add: moves_on_def)

lemma moves_on_trans: "moves_on a b \<Longrightarrow> moves_on b c \<Longrightarrow> moves_on a c"
  by (auto simp: moves_on_def)

lemma moves_on_booked: "moves_on a b \<Longrightarrow> booked b"
  by (simp add: moves_on_def)

lemma same_calls_refl [simp]: "same_calls cl cl"
  by (simp add: same_calls_def)

lemma same_calls_moves_on: "same_calls cl cl' \<Longrightarrow> booked cl \<Longrightarrow> moves_on cl cl'"
  by (simp add: same_calls_def moves_on_def booked_def)

lemma moves_on_same: "moves_on a b \<Longrightarrow> same_calls b c \<Longrightarrow> moves_on a c"
  by (simp add: same_calls_def moves_on_def booked_def)

named_theorems calls_kept \<open>Operations that touch no call.\<close>

lemma same_calls_fields [calls_kept]:
  "same_calls cl (set_socket s g cl')= same_calls cl cl'" "same_calls cl (write_to s fs cl') = same_calls cl cl'"
  "same_calls cl (destroy_socket s cl') = same_calls cl cl'" "same_calls cl (cl'\<lparr>cl_streams := t\<rparr>) = same_calls cl cl'"
  "same_calls cl (cl'\<lparr>cl_crashed := b\<rparr>) = same_calls cl cl'" "same_calls cl (cl'\<lparr>cl_current := c\<rparr>) = same_calls cl cl'"
  "same_calls cl (cl'\<lparr>cl_connecting := c\<rparr>) = same_calls cl cl'" "same_calls cl (cl'\<lparr>cl_counter := n\<rparr>) = same_calls cl cl'"
  by (simp_all add: same_calls_def set_socket_def write_to_def destroy_socket_def)

lemma same_calls_ops [calls_kept]:
  "same_calls cl (write_current fs cl') = same_calls cl cl'" "same_calls cl (opening_settles s out cl') = same_calls cl cl'"
  "same_calls cl (forget_socket s cl') = same_calls cl cl'" "same_calls cl (connect a cl') = same_calls cl cl'"
  "same_calls cl (on_connect daemon s cl') = same_calls cl cl'"
  by (simp_all add: write_current_def opening_settles_def forget_socket_def connect_def on_connect_def calls_kept split: option.splits)
     (simp_all add: same_calls_def)

lemma settle_call_moves_on: "booked cl \<Longrightarrow> out \<noteq> Waiting \<Longrightarrow> moves_on cl (settle_call r out cl)"
proof (cases "map_of (cl_pending cl) r")
  case None
  assume "booked cl"
  with None show ?thesis by (simp add: settle_call_def moves_on_refl)
next
  case (Some k)
  assume b: "booked cl" and out: "out \<noteq> Waiting"
  from b Some have k: "k < length (cl_calls cl)" "r = call_name k" "ca_outcome (cl_calls cl ! k) = Waiting"
    unfolding booked_def by blast+
  let ?cl' = "cl\<lparr>cl_pending := AList.delete r (cl_pending cl), cl_calls := (cl_calls cl)[k := (cl_calls cl ! k)\<lparr>ca_outcome := out\<rparr>]\<rparr>"
  have "booked ?cl'" using b k out by (auto simp: booked_def nth_list_update map_of_delete_eq split: if_splits)
  then have "moves_on cl ?cl'" using k by (auto simp: moves_on_def nth_list_update)
  then show ?thesis by (simp add: settle_call_def Some)
qed

lemma fold_moves_on:
  assumes "\<And>x cl. booked cl \<Longrightarrow> moves_on cl (g x cl)" "booked cl"
  shows "moves_on cl (fold g xs cl)"
  using assms(2)
proof (induction xs arbitrary: cl)
  case (Cons x xs)
  from assms(1) [OF Cons.prems] have one: "moves_on cl (g x cl)" .
  from Cons.IH [OF moves_on_booked [OF one]] one show ?case by (auto intro: moves_on_trans)
qed (simp add: moves_on_refl)

lemma settleAll_moves_on: "booked cl \<Longrightarrow> moves_on cl (settleAll code cl)"
  unfolding settleAll_def by (rule fold_moves_on) (simp_all add: settle_call_moves_on)

lemma reject_told_moves_on: "booked cl \<Longrightarrow> moves_on cl (reject_told entries note cl)"
  by (simp add: reject_told_def settle_call_moves_on moves_on_refl split: option.splits)

lemma streams_do_moves_on:
  assumes "booked cl"
  shows "moves_on cl (streams_do g cl)"
proof -
  let ?t = "g (cl_streams cl)"
  let ?cl1 = "write_current (wire ?t) (cl\<lparr>cl_streams := ?t\<lparr>wire := [], told := []\<rparr>\<rparr>)"
  have one: "moves_on cl ?cl1" using assms by (intro same_calls_moves_on) (simp_all add: calls_kept)
  have "moves_on ?cl1 (fold (reject_told (live (cl_streams cl))) (told ?t) ?cl1)"
    by (rule fold_moves_on) (simp_all add: reject_told_moves_on moves_on_booked [OF one])
  with one show ?thesis unfolding streams_do_def Let_def by (rule moves_on_trans)
qed

lemma worker_frame_moves_on:
  assumes "booked cl"
  shows "moves_on cl (both (on_worker_frame h decode key daemon s f cl))"
  using assms
  by (auto simp: on_worker_frame_def moves_on_refl streams_do_moves_on settle_call_moves_on simp del: field_of.simps
      split: sum.splits jsv.splits intro!: same_calls_moves_on) (simp_all add: calls_kept)

lemma worker_frames_moves_on: "booked cl \<Longrightarrow> moves_on cl (on_worker_frames h decode key daemon s fs cl)"
proof (induction fs arbitrary: cl)
  case (Cons f fs)
  from worker_frame_moves_on [OF Cons.prems, of h decode key daemon s f]
  have one: "moves_on cl (both (on_worker_frame h decode key daemon s f cl))" .
  then show ?case
    using Cons.IH [OF moves_on_booked [OF one]]
    by (cases "on_worker_frame h decode key daemon s f cl")
       (auto intro: moves_on_trans moves_on_same simp: calls_kept)
qed (simp add: moves_on_refl)

lemma worker_data_moves_on:
  assumes "booked cl"
  shows "moves_on cl (on_worker_data h decode key daemon s chunk cl)"
proof -
  have same: "moves_on cl (set_socket s g cl)" for g
    using assms by (intro same_calls_moves_on) (simp_all add: calls_kept)
  have run: "moves_on cl (on_worker_frames h decode key daemon s fs (set_socket s g cl))" for fs g
    by (rule moves_on_trans [OF same worker_frames_moves_on [OF moves_on_booked [OF same]]])
  have "moves_on cl ((set_socket s g cl)\<lparr>cl_crashed := True\<rparr>)" for g
    using assms by (intro same_calls_moves_on) (simp_all add: calls_kept)
  then show ?thesis
    using run assms by (auto simp: on_worker_data_def Let_def moves_on_refl split: prod.splits sum.splits)
qed

lemma register_call_moves_on:
  assumes "booked cl"
  shows "moves_on cl (register_call ty cl)"
proof -
  have "booked (register_call ty cl)"
    using assms by (auto simp: booked_def register_call_def Let_def nth_append update_conv' less_Suc_eq)
  then show ?thesis by (auto simp: moves_on_def register_call_def Let_def nth_append)
qed

lemma set_call_moves_on: "booked cl \<Longrightarrow> moves_on cl (set_call k stm orphan cl)"
proof -
  assume b: "booked cl"
  have out: "ca_outcome (cl_calls (set_call k stm orphan cl) ! j) = ca_outcome (cl_calls cl ! j)"
      "ca_id (cl_calls (set_call k stm orphan cl) ! j) = ca_id (cl_calls cl ! j)" for j
    by (cases "k < length (cl_calls cl)"; cases "j = k"; simp add: set_call_def list_update_beyond)+
  have "booked (set_call k stm orphan cl)" using b by (simp add: booked_def out) (simp add: set_call_def)
  then show ?thesis by (simp add: moves_on_def out) (simp add: set_call_def)
qed

lemma start_call_moves_on:
  assumes "booked cl"
  shows "moves_on cl (start_call ty body cl)"
proof -
  note one = register_call_moves_on [OF assms, of ty]
  have built: "same_calls cl1 cl2" if "build_call body r cl1 = (ms, stm, cl2)" for r ms stm cl1 cl2
    using that by (auto simp: build_call_def Let_def calls_kept split: call_body.splits prod.splits)
  have two: "moves_on cl (set_call k stm orphan cl2)" if "same_calls (register_call ty cl) cl2" for k stm orphan cl2
    using moves_on_same [OF one that] set_call_moves_on [OF moves_on_booked [OF moves_on_same [OF one that]]]
    by (rule moves_on_trans)
  show ?thesis
    using one
    by (auto simp: start_call_def Let_def calls_kept intro!: two dest: built split: option.splits prod.splits sum.splits)
qed

lemma finish_stream_moves_on:
  assumes "booked cl"
  shows "moves_on cl (finish_stream cs out cl)"
proof -
  have twice: "moves_on cl (streams_do g' (streams_do g cl))" for g g'
    using streams_do_moves_on [OF assms] streams_do_moves_on [OF moves_on_booked [OF streams_do_moves_on [OF assms]]]
    by (rule moves_on_trans)
  show ?thesis using assms by (simp add: finish_stream_def moves_on_refl streams_do_moves_on twice split: call_outcome.splits)
qed

lemma gone_moves_on:
  assumes "booked cl" "same_calls cl cl0"
  shows "moves_on cl (settleAll code (streams_do g cl0))"
proof -
  note zero = same_calls_moves_on [OF assms(2,1)]
  note one = moves_on_trans [OF zero streams_do_moves_on [OF moves_on_booked [OF zero]]]
  show ?thesis by (rule moves_on_trans [OF one settleAll_moves_on [OF moves_on_booked [OF one]]])
qed

lemma moves_on_kept: "moves_on a b \<Longrightarrow> moves_on a (forget_socket s b)" "moves_on a b \<Longrightarrow> moves_on a (destroy_socket s b)"
  by (erule moves_on_same, simp add: calls_kept)+

lemma client_step_moves_on:
  assumes "booked cl"
  shows "moves_on cl (client_step h decode key daemon cl ev)"
proof (cases ev)
  case (CGone s)
  have "same_calls cl (opening_settles s OpenFailed (destroy_socket s (forget_socket s cl)))" by (simp add: calls_kept)
  from gone_moves_on [OF assms this] show ?thesis
    using CGone assms by (auto simp: on_socket_gone_def moves_on_refl intro!: moves_on_kept)
next
  case CClose
  have "same_calls cl (cl\<lparr>cl_current := None\<rparr>)" by (simp add: calls_kept)
  from gone_moves_on [OF assms this] show ?thesis
    using CClose by (auto simp: close_client_def Let_def intro!: moves_on_kept split: option.splits)
qed (use assms in \<open>auto simp: moves_on_refl worker_data_moves_on start_call_moves_on on_deadline_def settle_call_moves_on
    finish_stream_moves_on streams_do_moves_on calls_kept on_handshake_timeout_def intro: same_calls_moves_on split: option.splits\<close>)

interpretation calls: invariant_system "client_step h decode key daemon" booked for h decode key daemon
  by unfold_locales (rule moves_on_booked [OF client_step_moves_on])

lemma booked_new: "booked new_client"
  by (simp add: booked_def new_client_def)

lemma client_run_moves_on: "booked cl \<Longrightarrow> moves_on cl (foldl (client_step h decode key daemon) cl evs)"
proof (induction evs arbitrary: cl)
  case (Cons ev evs)
  note one = client_step_moves_on [OF Cons.prems, of h decode key daemon ev]
  from moves_on_trans [OF one Cons.IH [OF moves_on_booked [OF one]]] show ?case by simp
qed (simp add: moves_on_refl)

section \<open>Nobody waits for ever\<close>

lemma pending_settle: "map_of (cl_pending (settle_call r out cl)) = (map_of (cl_pending cl))(r := None)"
  by (auto simp: settle_call_def map_of_delete_eq fun_eq_iff split: option.splits)

lemma pending_settle_fold:
  "map_of (cl_pending (fold (\<lambda>r. settle_call r out) rs cl)) r = (if r \<in> set rs then None else map_of (cl_pending cl) r)"
  by (induction rs arbitrary: cl) (auto simp: pending_settle)

definition all_settled :: "client \<Rightarrow> bool" where
  "all_settled cl \<longleftrightarrow> list_all (\<lambda>c. ca_outcome c \<noteq> Waiting) (cl_calls cl)"

lemma settleAll_settles:
  assumes "booked cl"
  shows "all_settled (settleAll code cl)"
proof -
  have "booked (settleAll code cl)" by (rule moves_on_booked [OF settleAll_moves_on [OF assms]])
  moreover have "map_of (cl_pending (settleAll code cl)) r = None" for r
    by (simp add: settleAll_def pending_settle_fold map_of_eq_None_iff)
  ultimately show ?thesis unfolding all_settled_def booked_def list_all_length by (metis option.distinct(1))
qed

lemma all_settled_kept [simp]: "all_settled (forget_socket s cl) = all_settled cl" "all_settled (destroy_socket s cl) = all_settled cl"
  by (simp_all add: all_settled_def forget_socket_def destroy_socket_def set_socket_def)

lemma settle_call_waiting:
  assumes "booked cl" "k < length (cl_calls cl)" "ca_outcome (cl_calls cl ! k) = Waiting"
  shows "settle_call (call_name k) out cl = cl\<lparr>cl_pending := AList.delete (call_name k) (cl_pending cl),
    cl_calls := (cl_calls cl)[k := (cl_calls cl ! k)\<lparr>ca_outcome := out\<rparr>]\<rparr>"
proof -
  from assms have "map_of (cl_pending cl) (call_name k) = Some k" by (simp add: booked_def)
  then show ?thesis by (simp add: settle_call_def)
qed

lemma settle_call_done:
  assumes "booked cl" "k < length (cl_calls cl)" "ca_outcome (cl_calls cl ! k) \<noteq> Waiting"
  shows "settle_call (call_name k) out cl = cl"
proof -
  have "map_of (cl_pending cl) (call_name k) \<noteq> Some j" for j using assms by (auto simp: booked_def)
  then have "map_of (cl_pending cl) (call_name k) = None" by (cases "map_of (cl_pending cl) (call_name k)") auto
  then show ?thesis by (simp add: settle_call_def)
qed

section \<open>Handshake and replies\<close>

text \<open>An acknowledgement made with the key is accepted, whatever challenge it answers.\<close>

lemma join_part_VStr [simp]: "join_part (VStr t) = t"
  by (simp add: join_part_def)

lemma ack_frame_accepted:
  assumes "s < length (cl_sockets cl)" "encodeFrame (VObj (ready_frame h key daemon (VStr b))) = Inr bytes"
  shows "on_worker_frame h decode key daemon s (VObj (hello_ack h key daemon a b)) cl
    = Inr (opening_settles s Opened (set_socket s (\<lambda>sk. sk\<lparr>sk_ready := True\<rparr>) (write_to s [ready_frame h key daemon (VStr b)] cl)))"
  using assms by (simp add: on_worker_frame_def hello_ack_def acknowledges_def)

lemma set_socket_sel [simp]:
  "length (cl_sockets (set_socket s g cl)) = length (cl_sockets cl)"
  "s < length (cl_sockets cl) \<Longrightarrow> cl_sockets (set_socket s g cl) ! s = g (cl_sockets cl ! s)"
  by (simp_all add: set_socket_def)

lemma opening_settles_socket:
  assumes "s < length (cl_sockets cl)"
  shows "cl_sockets (opening_settles s out cl) ! s =
    (if sk_opening (cl_sockets cl ! s) = Opening then (cl_sockets cl ! s)\<lparr>sk_opening := out\<rparr> else cl_sockets cl ! s)"
  using assms by (simp add: opening_settles_def set_socket_def)

text \<open>The client does not compare the challenge with the one it drew: an acknowledgement recorded earlier makes it ready.\<close>

theorem recorded_ack_is_accepted:
  assumes "s < length (cl_sockets cl)" "a \<noteq> sk_challenge (cl_sockets cl ! s)"
    and "encodeFrame (VObj (ready_frame h key daemon (VStr b))) = Inr bytes"
  shows "\<exists>cl'. on_worker_frame h decode key daemon s (VObj (hello_ack h key daemon a b)) cl = Inr cl' \<and> sk_ready (cl_sockets cl' ! s)"
  using assms(1) by (simp add: ack_frame_accepted [OF assms(1,3)] opening_settles_socket write_to_def)

text \<open>
  \<open>fail\<close> of a socket that was replaced settles the calls of the socket in use. (An error is followed by
  a close, and \<open>close\<close> leaves the close of its socket to come.)
\<close>

theorem old_socket_fails_live_calls:
  assumes "booked cl" "s < length (cl_sockets cl)" "cl_current cl = Some s'" "s' \<noteq> s"
  shows "all_settled (client_step h decode key daemon cl (CGone s)) \<and> cl_current (client_step h decode key daemon cl (CGone s)) = Some s'"
proof -
  let ?cl0 = "opening_settles s OpenFailed (destroy_socket s (forget_socket s cl))"
  have "same_calls cl ?cl0" by (simp add: calls_kept)
  note b = moves_on_booked [OF streams_do_moves_on [OF moves_on_booked [OF same_calls_moves_on [OF this assms(1)]]]]
  have current_fold: "cl_current (fold g xs cl1) = cl_current cl1" if "\<And>x c. cl_current (g x c) = cl_current c"
    for g :: "'x \<Rightarrow> client \<Rightarrow> client" and xs cl1
    using that by (induction xs arbitrary: cl1) simp_all
  have settle: "cl_current (settle_call r out c) = cl_current c" for r out c
    by (simp add: settle_call_def split: option.splits)
  have "cl_current (streams_do g c) = cl_current c" for g c
    unfolding streams_do_def Let_def
    by (subst current_fold) (auto simp: reject_told_def settle write_current_def write_to_def set_socket_def split: option.splits)
  then have "cl_current (settleAll code (streams_do g ?cl0)) = Some s'" for code g
    unfolding settleAll_def using assms(3,4)
    by (subst current_fold) (auto simp: settle opening_settles_def destroy_socket_def set_socket_def forget_socket_def)
  then show ?thesis using settleAll_settles [OF b] assms(2,4) by (auto simp: on_socket_gone_def forget_socket_def)
qed

text \<open>After a handshake timed out, the next call is written to the socket that is not ready.\<close>

definition demo_late_start :: "client_event list" where
  "demo_late_start = [CConnect ''a'', COpened 0, CHandshakeTimeout 0, CConnect ''b'', CStart ''health'' (PlainCall [])]"

theorem call_before_ready:
  "\<exists>cl. cl = foldl (client_step demo_host id ''key'' ''d'') new_client demo_late_start \<and> \<not> sk_ready (cl_sockets cl ! 0) \<and>
     sk_out (cl_sockets cl ! 0) = [hello_frame ''d'' ''a'', [(''type'', VStr ''health''), (''requestId'', VStr ''r1'')]] \<and>
     map ca_outcome (cl_calls cl) = [Waiting]"
proof -
  have enc: "\<exists>bytes. encodeFrame (VObj [(''type'', VStr ''health''), (''requestId'', VStr ''r1'')]) = Inr bytes"
    by (simp add: demo_encode)
  have "call_name 0 = ''r1''" by code_simp
  with enc show ?thesis
    by (auto simp: demo_late_start_def new_client_def connect_def new_socket_def on_connect_def write_to_def set_socket_def
        on_handshake_timeout_def opening_settles_def start_call_def register_call_def build_call_def call_frame_def set_call_def Let_def)
qed

section \<open>Properties\<close>

text \<open>
  C11: A call settles at most once and by itself: over any run of the client, with replies, deadlines,
  aborted streams, lost sockets and reconnections in any order, every waiting call has exactly its
  own slot, nothing else has one, and an outcome that is there stays.
\<close>

theorem call_settles_once:
  assumes "cl = foldl (client_step h decode key daemon) new_client evs" "cl' = foldl (client_step h decode key daemon) cl later"
  shows "booked cl \<and> moves_on cl cl'"
  unfolding assms(2) by (simp add: assms(1) calls.run_inv booked_new client_run_moves_on)

text \<open>
  C12: No call waits for ever: when a socket is gone or the client is closed no call is left waiting, and
  a call that is still waiting at its deadline fails with a timeout.
\<close>

theorem no_call_waits_for_ever:
  assumes "cl = foldl (client_step h decode key daemon) new_client evs" "s < length (cl_sockets cl)"
    and "k < length (cl_calls cl)" "ca_outcome (cl_calls cl ! k) = Waiting"
  shows "all_settled (client_step h decode key daemon cl CClose) \<and> all_settled (client_step h decode key daemon cl (CGone s)) \<and>
    ca_outcome (cl_calls (client_step h decode key daemon cl (CDeadline k)) ! k) = Failed ''WORKER_TIMEOUT''"
proof -
  have b: "booked cl" unfolding assms(1) by (rule calls.run_inv [OF booked_new])
  have gone: "all_settled (settleAll code (streams_do g cl0))" if "same_calls cl cl0" for code g cl0
    by (rule settleAll_settles [OF moves_on_booked [OF streams_do_moves_on [OF moves_on_booked [OF same_calls_moves_on [OF that b]]]]])
  have "all_settled (client_step h decode key daemon cl CClose)"
    using gone [of "cl\<lparr>cl_current := None\<rparr>"] by (simp add: close_client_def Let_def calls_kept split: option.splits)
  moreover have "all_settled (client_step h decode key daemon cl (CGone s))"
    using gone assms(2) by (simp add: on_socket_gone_def calls_kept)
  ultimately show ?thesis
    using settle_call_waiting [OF b assms(3,4)] assms(3) by (simp add: on_deadline_def)
qed

text \<open>
  A reply the server writes settles the call that asked for it, with the value that travelled, and
  nothing else; a second copy is ignored.
\<close>

theorem reply_reaches_its_call:
  assumes "cl = foldl (client_step h decode key daemon) new_client evs"
    and "k < length (cl_calls cl)" "ca_outcome (cl_calls cl ! k) = Waiting"
    and "rq_id rq = VStr (call_name k)" "f = norm (VObj (reply_frame rq out))"
    and "cl' = cl\<lparr>cl_pending := AList.delete (call_name k) (cl_pending cl),
      cl_calls := (cl_calls cl)[k := (cl_calls cl ! k)\<lparr>ca_outcome := Answered f\<rparr>]\<rparr>"
  shows "on_worker_frame h decode key daemon s f cl = Inr cl' \<and> on_worker_frame h decode key daemon s f cl' = Inr cl'"
proof -
  have b: "booked cl" unfolding assms(1) by (rule calls.run_inv [OF booked_new])
  have settled: "settle_call (call_name k) (Answered f) cl = cl'" using settle_call_waiting [OF b assms(2,3)] assms(6) by simp
  have "booked cl'" using settle_call_moves_on [OF b, of "Answered f" "call_name k"] unfolding settled by (simp add: moves_on_booked)
  from settle_call_done [OF this, of k "Answered f"] have again: "settle_call (call_name k) (Answered f) cl' = cl'"
    using assms(2,6) by simp
  have "field_of f ''requestId'' = VStr (call_name k)" "field_of f ''type'' = VUndef" "f \<noteq> VNull"
    using assms(4) unfolding assms(5) by (auto simp: reply_frame_def split: reply_outcome.splits)
  then show ?thesis
    using settled again by (simp add: on_worker_frame_def stream_type_def call_name_def del: field_of.simps)
qed

text \<open>
  The two sides agree: a hello, the acknowledgement it gets and the ready frame that follows make both
  ends ready, and the client's promise of a connection is kept.
\<close>

theorem handshake_completes:
  assumes "\<not> cn_ready cn" "\<not> cn_destroyed cn" "s < length (cl_sockets cl)" "sk_opening (cl_sockets cl ! s) = Opening"
    and "encodeFrame (VObj (hello_ack h key daemon a b)) = Inr bytes"
    and "encodeFrame (VObj (ready_frame h key daemon (VStr b))) = Inr bytes'"
  shows "\<exists>cn1 cl1 cn2.
    on_frame h decode key daemon b (VObj (hello_frame daemon a)) cn = Inr cn1 \<and>
    wire (cn_streams cn1) = wire (cn_streams cn) @ [hello_ack h key daemon a b] \<and>
    on_worker_frame h decode key daemon s (VObj (hello_ack h key daemon a b)) cl = Inr cl1 \<and>
    sk_ready (cl_sockets cl1 ! s) \<and> sk_opening (cl_sockets cl1 ! s) = Opened \<and>
    on_frame h decode key daemon fresh (VObj (ready_frame h key daemon (VStr b))) cn1 = Inr cn2 \<and> cn_ready cn2"
proof -
  let ?cn1 = "cn\<lparr>cn_challenge := b, cn_streams := write_frame (hello_ack h key daemon a b) (cn_streams cn)\<rparr>"
  have "on_frame h decode key daemon b (VObj (hello_frame daemon a)) cn = Inr ?cn1"
    using assms(1,2,5) by (simp add: on_frame_def is_hello_def hello_frame_def write_socket_def)
  moreover have "on_frame h decode key daemon fresh (VObj (ready_frame h key daemon (VStr b))) ?cn1 = Inr (?cn1\<lparr>cn_ready := True\<rparr>)"
    using assms(1) by (simp add: on_frame_def is_hello_def proves_def ready_frame_def)
  ultimately show ?thesis
    using assms(3,4) unfolding ack_frame_accepted [OF assms(3,6)]
    by (auto simp: write_frame_def opening_settles_socket write_to_def)
qed

section \<open>Witnesses\<close>

lemma demo_client:
  obtains cl where "cl = foldl (client_step demo_host id ''key'' ''d'') new_client demo_late_start" "length (cl_sockets cl) = 1"
    "length (cl_calls cl) = 1" "ca_outcome (cl_calls cl ! 0) = Waiting"
proof -
  from call_before_ready obtain cl where cl: "cl = foldl (client_step demo_host id ''key'' ''d'') new_client demo_late_start"
    "sk_out (cl_sockets cl ! 0) \<noteq> []" "map ca_outcome (cl_calls cl) = [Waiting]" by auto
  have "length (cl_calls cl) = 1" "ca_outcome (cl_calls cl ! 0) = Waiting"
    using arg_cong [OF cl(3), of length] arg_cong [OF cl(3), of "\<lambda>xs. xs ! 0"] by simp_all
  moreover have "length (cl_sockets cl) = 1"
    unfolding cl(1)
    by (simp add: demo_late_start_def new_client_def connect_def new_socket_def on_connect_def write_to_def set_socket_def
        on_handshake_timeout_def opening_settles_def start_call_def register_call_def build_call_def set_call_def Let_def
        split: sum.split)
  ultimately show ?thesis using that cl(1) by blast
qed

theorem call_settles_once_witness:
  "moves_on (foldl (client_step demo_host id ''key'' ''d'') new_client demo_late_start)
     (foldl (client_step demo_host id ''key'' ''d'') (foldl (client_step demo_host id ''key'' ''d'') new_client demo_late_start) [CDeadline 0, CGone 0])"
  by (rule conjunct2 [OF call_settles_once [OF refl refl]])

theorem no_call_waits_for_ever_witness:
  "\<exists>cl. ca_outcome (cl_calls cl ! 0) = Waiting \<and>
     ca_outcome (cl_calls (client_step demo_host id ''key'' ''d'' cl (CDeadline 0)) ! 0) = Failed ''WORKER_TIMEOUT''"
proof -
  obtain cl where cl: "cl = foldl (client_step demo_host id ''key'' ''d'') new_client demo_late_start" "length (cl_sockets cl) = 1"
    "length (cl_calls cl) = 1" "ca_outcome (cl_calls cl ! 0) = Waiting" by (rule demo_client)
  have "0 < length (cl_sockets cl)" "0 < length (cl_calls cl)" using cl by simp_all
  with no_call_waits_for_ever [OF cl(1) _ _ cl(4), of 0] cl(4) show ?thesis by blast
qed

theorem reply_reaches_its_call_witness:
  "\<exists>cl f. ca_outcome (cl_calls cl ! 0) = Waiting \<and>
     (\<exists>cl'. on_worker_frame demo_host id ''key'' ''d'' 0 f cl = Inr cl' \<and> ca_outcome (cl_calls cl' ! 0) = Answered f)"
proof -
  obtain cl where cl: "cl = foldl (client_step demo_host id ''key'' ''d'') new_client demo_late_start" "length (cl_sockets cl) = 1"
    "length (cl_calls cl) = 1" "ca_outcome (cl_calls cl ! 0) = Waiting" by (rule demo_client)
  have rq: "rq_id (new_request (VStr (call_name 0)) True VUndef None) = VStr (call_name 0)" by (simp add: new_request_def)
  have k: "0 < length (cl_calls cl)" using cl(3) by simp
  let ?f = "norm (VObj (reply_frame (new_request (VStr (call_name 0)) True VUndef None) (ReplyResult VNull)))"
  let ?cl' = "cl\<lparr>cl_pending := AList.delete (call_name 0) (cl_pending cl),
      cl_calls := (cl_calls cl)[0 := (cl_calls cl ! 0)\<lparr>ca_outcome := Answered ?f\<rparr>]\<rparr>"
  have "on_worker_frame demo_host id ''key'' ''d'' 0 ?f cl = Inr ?cl'"
    by (rule conjunct1 [OF reply_reaches_its_call [OF cl(1) k cl(4) rq refl refl]])
  moreover have "ca_outcome (cl_calls ?cl' ! 0) = Answered ?f" using k by simp
  ultimately show ?thesis using cl(4) by blast
qed

theorem handshake_completes_witness:
  "\<exists>cn1 cn2. on_frame demo_host id ''key'' ''d'' ''b'' (VObj (hello_frame ''d'' ''a'')) new_connection = Inr cn1 \<and>
     on_frame demo_host id ''key'' ''d'' ''c'' (VObj (ready_frame demo_host ''key'' ''d'' (VStr ''b''))) cn1 = Inr cn2 \<and> cn_ready cn2"
proof -
  obtain x y where enc: "encodeFrame (VObj (hello_ack demo_host ''key'' ''d'' ''a'' ''b'')) = Inr x"
    "encodeFrame (VObj (ready_frame demo_host ''key'' ''d'' (VStr ''b''))) = Inr y"
    by (simp add: hello_ack_def ready_frame_def demo_encode)
  from handshake_completes [OF _ _ _ _ enc, of new_connection 0 "connect ''a'' new_client" id "''c''"] show ?thesis
    by (auto simp: new_connection_def connect_def new_client_def new_socket_def)
qed

end
