(* ===== verification/TargetResolver.thy ===== *)
theory TargetResolver
  imports ControlParse
begin

text \<open>
  packages/control/src/target-resolver.ts: finding the node a step is about, deciding a predicate
  on an observation, and the operations a node advertises; and the ContextComposer of
  packages/control/src/context-composer.ts, which cuts an observation to a node budget.
\<close>

section \<open>The flattened tree\<close>

text \<open>\<open>flatten(nodes, output)\<close> pushes every node before its children.\<close>

fun flatten :: "control_node list \<Rightarrow> control_node list \<Rightarrow> control_node list" where
  "flatten [] out = out"
| "flatten (Node r ro n v e t acts p crefs None # ns) out =
     flatten ns (out @ [Node r ro n v e t acts p crefs None])"
| "flatten (Node r ro n v e t acts p crefs (Some kids) # ns) out =
     flatten ns (flatten kids (out @ [Node r ro n v e t acts p crefs (Some kids)]))"

definition nodeMap :: "control_observation \<Rightarrow> (string, control_node) jsmap" where
  "nodeMap ob = map_from (map (\<lambda>n. (nref n, n)) (flatten (nodes ob) []))"

lemma climb_measure:
  fixes m :: "'k \<Rightarrow> 'v option"
  shows "finite (dom m) \<Longrightarrow> c \<notin> s \<Longrightarrow> c \<in> dom m \<Longrightarrow> card (dom m - insert c s) < card (dom m - s)"
  by (rule psubset_card_mono) auto

text \<open>
  The loop of \<open>isDescendant\<close>: follow parentRef until the ancestor, a missing or empty reference,
  or a reference already seen.
\<close>

function climb :: "(string, control_node) jsmap \<Rightarrow> string \<Rightarrow> string option \<Rightarrow> string list \<Rightarrow> bool" where
  "climb ns anc None seen = False"
| "climb ns anc (Some c) seen =
     (if c = [] \<or> c \<in> set seen then False
      else if c = anc then True
      else climb ns anc (case map_of ns c of None \<Rightarrow> None | Some n \<Rightarrow> nparentRef n) (c # seen))"
  by pat_completeness auto

termination
proof (relation "measure (\<lambda>(ns, anc, cur, seen).
    2 * card (dom (map_of ns) - set seen) + (if cur = None then 0 else 1))", goal_cases)
  case (2 ns anc c seen)
  show ?case
  proof (cases "map_of ns c")
    case None
    then have "dom (map_of ns) - insert c (set seen) = dom (map_of ns) - set seen" by auto
    with None show ?thesis by simp
  next
    case (Some n)
    with 2 have "card (dom (map_of ns) - insert c (set seen)) < card (dom (map_of ns) - set seen)"
      by (intro climb_measure) (auto simp: finite_dom_map_of)
    with Some show ?thesis by simp
  qed
qed simp

definition isDescendant :: "control_node \<Rightarrow> string \<Rightarrow> (string, control_node) jsmap \<Rightarrow> bool" where
  "isDescendant candidate ancestorRef ns = climb ns ancestorRef (nparentRef candidate) []"

section \<open>Resolving a target\<close>

definition locator_matches :: "(string, control_node) jsmap \<Rightarrow> control_locator \<Rightarrow> control_node \<Rightarrow> bool" where
  "locator_matches ns l n =
     (if nrole n \<noteq> loc_role l \<or> nname n \<noteq> loc_name l then False
      else (case loc_observedAncestor l of
              None \<Rightarrow> True
            | Some a \<Rightarrow> a = [] \<or> nref n = a \<or> isDescendant n a ns))"

fun resolveControlTarget :: "control_observation \<Rightarrow> control_target \<Rightarrow> adapter_error + control_node" where
  "resolveControlTarget ob (ByRef r) =
     (case map_of (nodeMap ob) r of
        None \<Rightarrow> Inl (adapter_error_with ''CONTROL_REF_STALE''
          (''Ref '' @ r @ '' is not present in the current observation'') NotDispatched Refresh)
      | Some n \<Rightarrow> Inr n)"
| "resolveControlTarget ob (ByLocator l) =
     (case filter (locator_matches (nodeMap ob) l) (jvals (nodeMap ob)) of
        [] \<Rightarrow> Inl (adapter_error_with ''CONTROL_TARGET_NOT_FOUND''
          (''No '' @ loc_role l @ '' named '' @ json_quote (loc_name l) @ '' exists in the observed scope'')
          NotDispatched Refresh)
      | [n] \<Rightarrow> Inr n
      | ms \<Rightarrow> Inl (adapter_error_with ''CONTROL_TARGET_AMBIGUOUS''
          (''Expected one '' @ loc_role l @ '' named '' @ json_quote (loc_name l) @ '', found ''
           @ show_base 10 (length ms)) NotDispatched NeedsContext))"

section \<open>Predicates\<close>

fun js_includes :: "string \<Rightarrow> string \<Rightarrow> bool" where
  "js_includes hay needle =
     (take (length needle) hay = needle \<or> (case hay of [] \<Rightarrow> False | _ # rest \<Rightarrow> js_includes rest needle))"

declare js_includes.simps [simp del]

definition scopeNodes ::
    "control_observation \<Rightarrow> control_scope \<Rightarrow> control_node option \<Rightarrow> control_node list" where
  "scopeNodes ob sc target =
     (let all = flatten (nodes ob) [] in
      case target of
        None \<Rightarrow> all
      | Some t \<Rightarrow> if sc = InSurface then all
          else filter (\<lambda>n. nref n = nref t \<or> isDescendant n (nref t) (nodeMap ob)) all)"

fun evaluateControlPredicate ::
    "control_observation \<Rightarrow> control_predicate \<Rightarrow> control_node option \<Rightarrow> bool" where
  "evaluateControlPredicate ob (EnabledIs b) target =
     ((case target of None \<Rightarrow> False | Some t \<Rightarrow> nenabled t = Some True) = b)"
| "evaluateControlPredicate ob (ValueEquals v) target =
     (case target of None \<Rightarrow> False | Some t \<Rightarrow> nvalue t = Some v)"
| "evaluateControlPredicate ob (TextPresent sc txt) target =
     list_ex (\<lambda>n. js_includes (nname n) txt \<or>
         (case nvalue n of None \<Rightarrow> False | Some v \<Rightarrow> js_includes v txt))
       (scopeNodes ob sc target)"
| "evaluateControlPredicate ob (ToggleStateEquals s) target =
     (case target of None \<Rightarrow> False | Some t \<Rightarrow> ntoggleState t = Some s)"
| "evaluateControlPredicate ob (ElementAbsent sc r nm) target =
     (\<not> list_ex (\<lambda>n. (r = None \<or> r = Some (nrole n)) \<and> (nm = None \<or> nm = Some (nname n)))
         (scopeNodes ob sc target))"
| "evaluateControlPredicate ob (UrlEquals u) target = (obs_url ob = Some u)"

definition supportsControlAction :: "control_node \<Rightarrow> control_action \<Rightarrow> bool" where
  "supportsControlAction n a =
     (case action_kind a of
        KClick \<Rightarrow> KClick \<in> set (nactions n) \<or> KInvoke \<in> set (nactions n)
      | KType \<Rightarrow> KType \<in> set (nactions n) \<or> KSetValue \<in> set (nactions n)
      | KSetToggleState \<Rightarrow> KSetToggleState \<in> set (nactions n)
      | k \<Rightarrow> k \<in> set (nactions n))"

section \<open>The context composer\<close>

definition is_interactive :: "control_node \<Rightarrow> bool" where
  "is_interactive x = (nactions x \<noteq> [] \<or> nenabled x = Some True)"

definition compose_context :: "control_observation \<Rightarrow> int \<Rightarrow> bool \<Rightarrow> control_observation" where
  "compose_context ob maxNodes interactiveOnly =
     (let n = nat (max 1 maxNodes);
          all = flatten (nodes ob) [];
          ranked = (if interactiveOnly then filter is_interactive all else all);
          kept = take n ranked;
          omitted = max 0 (int (length ranked) - int (length kept)) in
      ob\<lparr>nodes := kept,
         coverage := (coverage ob)\<lparr>cov_truncated := cov_truncated (coverage ob) \<or> omitted > 0,
           cov_omittedNodes := cov_omittedNodes (coverage ob) + omitted\<rparr>\<rparr>)"

section \<open>Lemmas\<close>

lemma flatten_append: "flatten ns out = out @ flatten ns []"
proof (induction ns arbitrary: out rule: measure_induct_rule [of "size_list size"])
  case (less ns)
  show ?case
  proof (cases ns)
    case (Cons n rest)
    obtain r ro nm v e t acts p crefs kids where n: "n = Node r ro nm v e t acts p crefs kids" by (cases n)
    have rest: "flatten rest out' = out' @ flatten rest []" for out'
      by (rule less) (simp add: Cons)
    show ?thesis
    proof (cases kids)
      case None
      then show ?thesis using rest [of "out @ [n]"] rest [of "[n]"] by (simp add: Cons n)
    next
      case (Some ks)
      have "flatten ks out' = out' @ flatten ks []" for out'
        by (rule less) (simp add: Cons n Some)
      note ks = this
      have "flatten ns out = flatten ks (out @ [n]) @ flatten rest []"
        using rest [of "flatten ks (out @ [n])"] by (simp add: Cons n Some)
      also have "\<dots> = out @ (n # flatten ks []) @ flatten rest []" by (subst ks) simp
      also have "(n # flatten ks []) @ flatten rest [] = flatten ns []"
        using rest [of "flatten ks [n]"] ks [of "[n]"] by (simp add: Cons n Some)
      finally show ?thesis .
    qed
  qed simp
qed

lemma flatten_Cons:
  "flatten (n # ns) [] = n # (case nchildren n of None \<Rightarrow> [] | Some ks \<Rightarrow> flatten ks []) @ flatten ns []"
proof (cases n)
  case (Node r ro nm v e t acts p crefs kids)
  then show ?thesis
    using flatten_append [of ns "[n]"] flatten_append [of "the kids" "[n]"]
      flatten_append [of ns "flatten (the kids) [n]"]
    by (cases kids) simp_all
qed

lemma nodeMap_distinct:
  assumes "distinct (map nref (flatten (nodes ob) []))"
  shows "nodeMap ob = map (\<lambda>n. (nref n, n)) (flatten (nodes ob) [])"
  unfolding nodeMap_def by (rule map_from_distinct) (simp add: comp_def assms)

subsection \<open>Ancestry\<close>

text \<open>The reference a node's parentRef names, and the chain of them.\<close>

definition parent_of :: "(string, control_node) jsmap \<Rightarrow> string \<Rightarrow> string option" where
  "parent_of ns c = (case map_of ns c of None \<Rightarrow> None | Some n \<Rightarrow> nparentRef n)"

inductive under :: "(string, control_node) jsmap \<Rightarrow> string option \<Rightarrow> string \<Rightarrow> bool" for ns where
  here: "c \<noteq> [] \<Longrightarrow> under ns (Some c) c"
| up: "c \<noteq> [] \<Longrightarrow> under ns (parent_of ns c) anc \<Longrightarrow> under ns (Some c) anc"

inductive_cases under_NoneE: "under ns None anc"
inductive_cases under_SomeE: "under ns (Some c) anc"

lemma climb_sound: "climb ns anc cur seen \<Longrightarrow> under ns cur anc"
  by (induction ns anc cur seen rule: climb.induct)
     (auto split: if_splits intro: under.intros simp: parent_of_def)

text \<open>A chain that climbs without repeating a reference.\<close>

fun chain :: "(string, control_node) jsmap \<Rightarrow> string option \<Rightarrow> string list \<Rightarrow> string \<Rightarrow> bool" where
  "chain ns cur [] anc = (cur = Some anc \<and> anc \<noteq> [])"
| "chain ns cur (c # cs) anc = (cur = Some c \<and> c \<noteq> [] \<and> c \<noteq> anc \<and> chain ns (parent_of ns c) cs anc)"

lemma chain_suffix: "chain ns cur (xs @ c # ys) anc \<Longrightarrow> chain ns (Some c) (c # ys) anc"
  by (induction xs arbitrary: cur) auto

lemma under_chain: "under ns cur anc \<Longrightarrow> \<exists>cs. chain ns cur cs anc \<and> distinct cs"
proof (induction rule: under.induct)
  case (here c)
  then show ?case by (intro exI [of _ "[]"]) simp
next
  case (up c anc)
  then obtain cs where cs: "chain ns (parent_of ns c) cs anc" "distinct cs" by blast
  show ?case
  proof (cases "c = anc")
    case True
    with up.hyps(1) show ?thesis by (intro exI [of _ "[]"]) simp
  next
    case False
    show ?thesis
    proof (cases "c \<in> set cs")
      case True
      then obtain xs ys where "cs = xs @ c # ys" by (auto simp: in_set_conv_decomp)
      with cs chain_suffix show ?thesis by (intro exI [of _ "c # ys"]) auto
    next
      case False
      with cs up.hyps(1) \<open>c \<noteq> anc\<close> show ?thesis by (intro exI [of _ "c # cs"]) simp
    qed
  qed
qed

lemma climb_chain:
  "chain ns cur cs anc \<Longrightarrow> distinct cs \<Longrightarrow> set cs \<inter> set seen = {} \<Longrightarrow> anc \<notin> set seen
   \<Longrightarrow> climb ns anc cur seen"
proof (induction cs arbitrary: cur seen)
  case (Cons c cs)
  then have "climb ns anc (parent_of ns c) (c # seen)" by (intro Cons.IH) auto
  with Cons.prems show ?case by (auto simp: parent_of_def)
qed simp

lemma isDescendant_iff: "isDescendant n anc ns \<longleftrightarrow> under ns (nparentRef n) anc"
proof
  assume "under ns (nparentRef n) anc"
  then obtain cs where "chain ns (nparentRef n) cs anc" "distinct cs" using under_chain by blast
  then show "isDescendant n anc ns" by (simp add: isDescendant_def climb_chain)
qed (simp add: isDescendant_def climb_sound)

section \<open>Unique targets\<close>

lemma filter_single_iff:
  "distinct xs \<Longrightarrow> filter P xs = [n] \<longleftrightarrow> n \<in> set xs \<and> P n \<and> (\<forall>m \<in> set xs. P m \<longrightarrow> m = n)"
proof (induction xs)
  case (Cons x xs)
  show ?case
  proof (cases "P x")
    case True
    with Cons show ?thesis by (auto simp: filter_empty_conv)
  next
    case False
    with Cons show ?thesis by auto
  qed
qed simp

lemma resolve_locator_Inr:
  "resolveControlTarget ob (ByLocator l) = Inr n \<longleftrightarrow>
     filter (locator_matches (nodeMap ob) l) (jvals (nodeMap ob)) = [n]"
  by (auto split: list.splits)

lemma resolve_locator_unique:
  assumes "distinct (map nref (flatten (nodes ob) []))"
  shows "resolveControlTarget ob (ByLocator l) = Inr n \<longleftrightarrow>
    n \<in> set (flatten (nodes ob) []) \<and> locator_matches (nodeMap ob) l n \<and>
    (\<forall>m \<in> set (flatten (nodes ob) []). locator_matches (nodeMap ob) l m \<longrightarrow> m = n)"
proof -
  have vals: "jvals (nodeMap ob) = flatten (nodes ob) []"
    by (simp add: nodeMap_distinct [OF assms] comp_def)
  have "distinct (flatten (nodes ob) [])" using assms by (simp add: distinct_map)
  then show ?thesis unfolding resolve_locator_Inr vals by (rule filter_single_iff)
qed

lemma map_of_self:
  "distinct (map f xs) \<Longrightarrow> map_of (map (\<lambda>x. (f x, x)) xs) k = Some x \<longleftrightarrow> x \<in> set xs \<and> f x = k"
  by (induction xs) (auto split: if_splits intro: rev_image_eqI)

lemma resolve_ref_unique:
  assumes "distinct (map nref (flatten (nodes ob) []))"
  shows "resolveControlTarget ob (ByRef r) = Inr n \<longleftrightarrow> n \<in> set (flatten (nodes ob) []) \<and> nref n = r"
proof -
  have "resolveControlTarget ob (ByRef r) = Inr n \<longleftrightarrow> map_of (nodeMap ob) r = Some n"
    by (simp split: option.splits)
  then show ?thesis unfolding nodeMap_distinct [OF assms] map_of_self [OF assms] .
qed

text \<open>A resolution error is raised before anything is sent.\<close>

lemma resolve_error: "resolveControlTarget ob t = Inl e \<Longrightarrow> ae_dispatchState e = NotDispatched"
  by (cases t) (auto simp: adapter_error_with_def split: option.splits list.splits)

text \<open>A target that was resolved by reference is the same node when it is resolved again.\<close>

lemma resolve_stable:
  assumes "resolveControlTarget ob t = Inr n"
  shows "n \<in> set (flatten (nodes ob) [])" and "resolveControlTarget ob (ByRef (nref n)) = Inr n"
proof -
  define ps where "ps = map (\<lambda>n. (nref n, n)) (flatten (nodes ob) [])"
  have m: "nodeMap ob = map_from ps" by (simp add: nodeMap_def ps_def)
  have mem: "\<exists>k. (k, n) \<in> set (map_from ps)"
  proof (cases t)
    case (ByRef r)
    with assms show ?thesis by (auto simp: m split: option.splits dest: map_of_SomeD)
  next
    case (ByLocator l)
    with assms have "n \<in> set (jvals (map_from ps))"
      unfolding ByLocator resolve_locator_Inr m by (metis filter_is_subset list.set_intros(1) subsetD)
    then show ?thesis by auto
  qed
  then obtain k where k: "(k, n) \<in> set (map_from ps)" ..
  then have "(k, n) \<in> set ps" using set_map_from by blast
  then have kn: "k = nref n" "n \<in> set (flatten (nodes ob) [])" by (auto simp: ps_def)
  show "n \<in> set (flatten (nodes ob) [])" by (rule kn)
  have "map_of (map_from ps) (nref n) = Some n" using iffD1 [OF map_of_mem [OF wf_map_from] k] by (simp only: kn(1))
  then show "resolveControlTarget ob (ByRef (nref n)) = Inr n" by (simp add: m)
qed

section \<open>Properties\<close>

definition leaf :: "string \<Rightarrow> string \<Rightarrow> string \<Rightarrow> control_node" where
  "leaf r ro n = Node r ro n None (Some True) None [KClick] None None None"

definition demo_tree :: control_observation where
  "demo_tree = \<lparr>observationId = ''o1'', surfaceId = ''s1'', generation = 1, revision = 1, obs_url = None,
     freshness = Fresh, watchHealth = Healthy, observedAt = ''t'', lastValidatedAt = ''t'',
     policyRevision = 1, obs_mode = SharedSemantic,
     coverage = \<lparr>cov_scope = InSurface, cov_truncated = False, cov_omittedNodes = 0, cov_expansionHandle = None\<rparr>,
     nodes = [Node ''g'' ''group'' ''Box'' None None None [] None None
       (Some [leaf ''b1'' ''button'' ''Save'', leaf ''b2'' ''button'' ''Cancel''])],
     image = None\<rparr>"

definition demo_locator :: control_locator where
  "demo_locator = \<lparr>loc_scope = InSurface, loc_role = ''button'', loc_name = ''Save'', loc_observedAncestor = None\<rparr>"

text \<open>\<open>isDescendant\<close>, a loop that stops at a repeated reference, always ends and decides ancestry:
  it answers true exactly when following parentRef from the node reaches the ancestor, also
  when the references of the observation form a cycle.\<close>

theorem isDescendant_exact: "isDescendant n anc ns \<longleftrightarrow> under ns (nparentRef n) anc"
  by (rule isDescendant_iff)



text \<open>The composer keeps the children of every node it keeps, so a nested observation goes over the budget.\<close>

lemma compose_context_over_budget:
  "length (flatten (nodes (compose_context demo_tree 1 False)) []) = 3"
  by (simp add: compose_context_def demo_tree_def leaf_def Let_def)

text \<open>ContextComposer.compose keeps a prefix of the ranked nodes, at most the budget of them,
  adds the number of nodes it left out to omittedNodes, and marks the coverage truncated
  exactly when it was before or a node was left out.\<close>

theorem compose_context_exact:
  "let ranked = (if interactive then filter is_interactive (flatten (nodes ob) [])
       else flatten (nodes ob) []);
     result = compose_context ob k interactive in
   length (nodes result) \<le> nat (max 1 k) \<and>
   (\<exists>rest. nodes result @ rest = ranked \<and>
      cov_omittedNodes (coverage result) = cov_omittedNodes (coverage ob) + int (length rest) \<and>
      cov_truncated (coverage result) = (cov_truncated (coverage ob) \<or> 0 < length rest))"
proof -
  define ranked where "ranked = (if interactive then filter is_interactive (flatten (nodes ob) [])
       else flatten (nodes ob) [])"
  have "length ranked - nat (max 1 k) = 0 \<longleftrightarrow> drop (nat (max 1 k)) ranked = []" by simp
  then have "\<exists>rest. nodes (compose_context ob k interactive) @ rest = ranked \<and>
      cov_omittedNodes (coverage (compose_context ob k interactive)) =
        cov_omittedNodes (coverage ob) + int (length rest) \<and>
      cov_truncated (coverage (compose_context ob k interactive)) = (cov_truncated (coverage ob) \<or> 0 < length rest)"
    by (intro exI [of _ "drop (nat (max 1 k)) ranked"])
       (auto simp: compose_context_def ranked_def [symmetric] Let_def max_def)
  then show ?thesis
    by (simp add: ranked_def [symmetric] Let_def) (simp add: compose_context_def ranked_def Let_def)
qed

end
