(* ===== verification/ObservationRules.thy ===== *)
theory ObservationRules
  imports TargetResolver
begin

text \<open>
  The state of the observation store and the rules every write goes through:
  packages/control/src/observation-types.ts and observation-rules.ts. Times are integers
  (milliseconds), byte counts are the lengths of JSON texts. A thrown ObservationStoreError is
  its code and its message.
\<close>

section \<open>Limits and state\<close>

record store_limits =
  maxSurfacesPerOwner :: int
  maxSurfacesTotal :: int
  maxNodesPerSurface :: int
  maxHistoryPerSurface :: int
  maxBytesTotal :: int
  maxBytesPerObservation :: int
  maxBytesPerHistory :: int
  maxImageBytes :: int
  maxImagesPerSurface :: int
  idleRetentionMs :: int

definition DEFAULT_LIMITS :: store_limits where
  "DEFAULT_LIMITS = \<lparr>maxSurfacesPerOwner = 8, maxSurfacesTotal = 32, maxNodesPerSurface = 5000,
     maxHistoryPerSurface = 4, maxBytesTotal = 64 * 1024 * 1024,
     maxBytesPerObservation = 8 * 1024 * 1024, maxBytesPerHistory = 32 * 1024 * 1024,
     maxImageBytes = 8 * 1024 * 1024, maxImagesPerSurface = 2, idleRetentionMs = 60000\<rparr>"

definition limit_values :: "store_limits \<Rightarrow> (string \<times> int) list" where
  "limit_values l = [(''maxSurfacesPerOwner'', maxSurfacesPerOwner l),
     (''maxSurfacesTotal'', maxSurfacesTotal l), (''maxNodesPerSurface'', maxNodesPerSurface l),
     (''maxHistoryPerSurface'', maxHistoryPerSurface l), (''maxBytesTotal'', maxBytesTotal l),
     (''maxBytesPerObservation'', maxBytesPerObservation l),
     (''maxBytesPerHistory'', maxBytesPerHistory l), (''maxImageBytes'', maxImageBytes l),
     (''maxImagesPerSurface'', maxImagesPerSurface l), (''idleRetentionMs'', idleRetentionMs l)]"

datatype pending_change = UpsertNode control_node | RemoveRef string

record pending_delta =
  pd_full :: bool
  pd_pageSize :: int
  pd_baseObservationId :: string
  pd_observationId :: string
  pd_surfaceId :: string
  pd_revision :: int
  pd_freshness :: control_freshness
  pd_watchHealth :: control_watch_health
  pd_changes :: "pending_change list"
  pd_fullNodes :: "control_node list option"
  pd_fullObservation :: "control_observation option"
  pd_offset :: nat
  pd_nextToken :: "string option"
  pd_imageSent :: bool
  pd_metadata :: control_delta_metadata
  pd_coverage :: control_coverage

record surface_entry =
  history :: "control_observation list"
  dirtyReasons :: "string list"
  continuations :: "(string, pending_delta) jsmap"
  lastAccessAt :: int
  entry_bytes :: int
  pendingBytes :: int
  eventEpoch :: nat
  lastEventKey :: "string option"

type_synonym store_error = "string \<times> string"

definition store_fail :: "string \<Rightarrow> string \<Rightarrow> store_error + 'a" where
  "store_fail code msg = Inl (code, code @ '': '' @ msg)"

section \<open>Sizes\<close>

definition byteLength :: "jsv \<Rightarrow> int" where
  "byteLength v = int (length (json_text v))"

definition history_json :: "control_observation list \<Rightarrow> jsv" where
  "history_json h = VArr (map observation_json h)"

definition change_json :: "pending_change \<Rightarrow> jsv" where
  "change_json c = (case c of
     UpsertNode n \<Rightarrow> VObj [(''kind'', VStr ''upsert''), (''node'', node_json n)]
   | RemoveRef r \<Rightarrow> VObj [(''kind'', VStr ''remove''), (''ref'', VStr r)])"

definition metadata_json :: "control_delta_metadata \<Rightarrow> jsv" where
  "metadata_json m = VObj
     ([(''generation'', VInt (meta_generation m)), (''policyRevision'', VInt (meta_policyRevision m)),
       (''mode'', VStr (mode_text (meta_mode m))), (''observedAt'', VStr (meta_observedAt m)),
       (''lastValidatedAt'', VStr (meta_lastValidatedAt m))]
      @ opt_field ''image'' (\<lambda>i. case i of None \<Rightarrow> VNull | Some im \<Rightarrow> image_json im) (meta_image m)
      @ [(''imageChanged'', VBool (meta_imageChanged m))])"

definition pending_json :: "pending_delta \<Rightarrow> jsv" where
  "pending_json p = VObj
     ([(''kind'', VStr (if pd_full p then ''full'' else ''delta'')), (''pageSize'', VInt (pd_pageSize p)),
       (''baseObservationId'', VStr (pd_baseObservationId p)),
       (''observationId'', VStr (pd_observationId p)), (''surfaceId'', VStr (pd_surfaceId p)),
       (''revision'', VInt (pd_revision p)), (''freshness'', VStr (freshness_text (pd_freshness p))),
       (''watchHealth'', VStr (watch_text (pd_watchHealth p))), (''offset'', VInt (int (pd_offset p))),
       (''imageSent'', VBool (pd_imageSent p)), (''coverage'', coverage_json (pd_coverage p)),
       (''changes'', VArr (map change_json (pd_changes p)))]
      @ opt_field ''fullNodes'' (\<lambda>ns. VArr (map node_json ns)) (pd_fullNodes p)
      @ opt_field ''fullObservation'' observation_json (pd_fullObservation p)
      @ [(''metadata'', metadata_json (pd_metadata p))]
      @ opt_field ''nextToken'' VStr (pd_nextToken p))"

section \<open>Projected nodes\<close>

definition projectedNode :: "control_node \<Rightarrow> string option \<Rightarrow> control_node" where
  "projectedNode n parent =
     (let refs = (case nchildren n of Some kids \<Rightarrow> Some (map nref kids) | None \<Rightarrow> nchildRefs n) in
      Node (nref n) (nrole n) (nname n) (nvalue n) (nenabled n) (ntoggleState n) (nactions n)
        (case nparentRef n of Some p \<Rightarrow> Some p | None \<Rightarrow> parent)
        (case refs of Some (r # rs) \<Rightarrow> Some (r # rs) | _ \<Rightarrow> nchildRefs n)
        None)"

fun projectNodes :: "control_node list \<Rightarrow> control_node list \<Rightarrow> string option \<Rightarrow> control_node list" where
  "projectNodes [] out parent = out"
| "projectNodes (Node r ro n v e t acts p crefs None # ns) out parent =
     projectNodes ns (out @ [projectedNode (Node r ro n v e t acts p crefs None) parent]) parent"
| "projectNodes (Node r ro n v e t acts p crefs (Some kids) # ns) out parent =
     projectNodes ns
       (projectNodes kids (out @ [projectedNode (Node r ro n v e t acts p crefs (Some kids)) parent]) (Some r))
       parent"

abbreviation projected :: "control_observation \<Rightarrow> control_node list" where
  "projected ob \<equiv> projectNodes (nodes ob) [] None"

section \<open>The rules of a write\<close>

definition current_observation :: "surface_entry \<Rightarrow> store_error + control_observation" where
  "current_observation e = (case history e of
     [] \<Rightarrow> store_fail ''CONTROL_SURFACE_NOT_FOUND'' ''Observation is not recorded''
   | ob # _ \<Rightarrow> Inr ob)"

definition validateObservation :: "control_observation \<Rightarrow> store_limits \<Rightarrow> store_error + unit" where
  "validateObservation ob limits =
     (let ns = projected ob in
      if int (length ns) > maxNodesPerSurface limits then
        store_fail ''CONTROL_OBSERVATION_TOO_LARGE''
          (''surface '' @ surfaceId ob @ '' contains '' @ show_base 10 (length ns)
           @ '' nodes; limit is '' @ show_int (maxNodesPerSurface limits))
      else if \<not> distinct (map nref ns) then
        store_fail ''CONTROL_DUPLICATE_REF'' ''Observation contains duplicate node refs''
      else if (case image ob of None \<Rightarrow> False
               | Some im \<Rightarrow> byteLength (VStr (img_dataUri im)) > maxImageBytes limits) then
        store_fail ''CONTROL_IMAGE_TOO_LARGE'' ''Observation image exceeds the configured limit''
      else if byteLength (observation_json ob) > maxBytesPerObservation limits then
        store_fail ''CONTROL_OBSERVATION_TOO_LARGE'' ''Observation exceeds the configured byte limit''
      else Inr ())"

definition rejectStaleWrite ::
    "surface_entry \<Rightarrow> control_observation \<Rightarrow> nat option \<Rightarrow> store_error + unit" where
  "rejectStaleWrite e ob validationEpoch =
     tryE (current_observation e) (\<lambda>latest.
       if eventEpoch e > 0 \<and> validationEpoch \<noteq> Some (eventEpoch e) then
         store_fail ''CONTROL_OBSERVATION_STALE'' ''Observation was validated against an older event epoch''
       else if observationId ob \<in> observationId ` set (history e) \<and> observationId ob \<noteq> observationId latest then
         store_fail ''CONTROL_OBSERVATION_STALE'' ''Observation ID already identifies a retained baseline''
       else if observationId latest = observationId ob
            \<and> stable_serialize (observation_json latest) \<noteq> stable_serialize (observation_json ob) then
         store_fail ''CONTROL_OBSERVATION_IMMUTABLE'' ''Observation IDs are immutable''
       else if generation ob < generation latest then
         store_fail ''CONTROL_OBSERVATION_STALE'' ''Observation generation is stale''
       else if generation ob = generation latest \<and> revision ob < revision latest then
         store_fail ''CONTROL_OBSERVATION_STALE'' ''Observation revision is stale''
       else if generation ob = generation latest \<and> revision ob = revision latest
            \<and> observationId ob \<noteq> observationId latest
            \<and> (eventEpoch e = 0 \<or> validationEpoch \<noteq> Some (eventEpoch e) \<or> freshness ob \<noteq> Fresh) then
         store_fail ''CONTROL_OBSERVATION_STALE'' ''Observation revision is not newer''
       else if policyRevision ob < policyRevision latest then
         store_fail ''CONTROL_OBSERVATION_STALE'' ''Observation policy revision is stale''
       else Inr ())"

fun trimHistoryImages :: "int \<Rightarrow> int \<Rightarrow> control_observation list \<Rightarrow> control_observation list" where
  "trimHistoryImages images maxImages [] = []"
| "trimHistoryImages images maxImages (ob # obs) =
     (if image ob = None then ob # trimHistoryImages images maxImages obs
      else if images + 1 \<le> maxImages then ob # trimHistoryImages (images + 1) maxImages obs
      else ob\<lparr>image := None\<rparr> # trimHistoryImages (images + 1) maxImages obs)"

function pop_to_budget :: "int \<Rightarrow> control_observation list \<Rightarrow> control_observation list" where
  "pop_to_budget maxBytes retained =
     (if length retained > 1 \<and> byteLength (history_json retained) > maxBytes
      then pop_to_budget maxBytes (butlast retained) else retained)"
  by pat_completeness auto
termination
  by (relation "measure (length \<circ> snd)") auto

declare pop_to_budget.simps [simp del]

definition trimHistoryToBudget ::
    "control_observation list \<Rightarrow> int \<Rightarrow> store_error + control_observation list" where
  "trimHistoryToBudget h maxBytes =
     (let retained = pop_to_budget maxBytes h in
      if byteLength (history_json retained) > maxBytes then
        store_fail ''CONTROL_CACHE_BYTES_EXCEEDED'' ''Current observation exceeds the history byte limit''
      else Inr retained)"

definition trimHistory ::
    "control_observation list \<Rightarrow> store_limits \<Rightarrow> store_error + control_observation list" where
  "trimHistory h limits =
     trimHistoryToBudget (trimHistoryImages 0 (maxImagesPerSurface limits) h) (maxBytesPerHistory limits)"

section \<open>Events\<close>

definition MAX_DIRTY_REASONS :: nat where "MAX_DIRTY_REASONS = 16"
definition MAX_DIRTY_REASON_LENGTH :: nat where "MAX_DIRTY_REASON_LENGTH = 256"

text \<open>\<open>s.slice(0, n)\<close>, which counts UTF-16 units; a pair the cut would split is left out whole.\<close>

fun js_take :: "nat \<Rightarrow> string \<Rightarrow> string" where
  "js_take n [] = []"
| "js_take n (c # cs) = (if utf16_units c \<le> n then c # js_take (n - utf16_units c) cs else [])"

fun shrink_reasons :: "string list \<Rightarrow> string list" where
  "shrink_reasons [] = []"
| "shrink_reasons (r # rs) = (if length (r # rs) > MAX_DIRTY_REASONS then shrink_reasons rs else r # rs)"

definition rememberDirtyReason :: "surface_entry \<Rightarrow> string \<Rightarrow> surface_entry" where
  "rememberDirtyReason e reason =
     (let bounded = js_take MAX_DIRTY_REASON_LENGTH reason in
      e\<lparr>dirtyReasons := shrink_reasons (filter (\<lambda>r. r \<noteq> bounded) (dirtyReasons e) @ [bounded])\<rparr>)"

definition advanceEvent :: "surface_entry \<Rightarrow> string option \<Rightarrow> bool \<times> surface_entry" where
  "advanceEvent e eventKey =
     (if eventKey \<noteq> None \<and> lastEventKey e = eventKey then (False, e)
      else (True, e\<lparr>eventEpoch := eventEpoch e + 1, lastEventKey := eventKey\<rparr>))"

section \<open>Lemmas\<close>

subsection \<open>Projection\<close>

lemma projectNodes_append: "projectNodes ns out parent = out @ projectNodes ns [] parent"
proof (induction ns arbitrary: out parent rule: measure_induct_rule [of "size_list size"])
  case (less ns)
  show ?case
  proof (cases ns)
    case (Cons n rest)
    obtain r ro nm v e t acts p crefs kids where n: "n = Node r ro nm v e t acts p crefs kids" by (cases n)
    have rest: "projectNodes rest out' parent = out' @ projectNodes rest [] parent" for out'
      by (rule less) (simp add: Cons)
    show ?thesis
    proof (cases kids)
      case None
      then show ?thesis using rest [of "out @ [projectedNode n parent]"] rest [of "[projectedNode n parent]"]
        by (simp add: Cons n)
    next
      case (Some ks)
      have ks: "projectNodes ks out' q = out' @ projectNodes ks [] q" for out' q
        by (rule less) (simp add: Cons n Some)
      have "projectNodes ns out parent =
          projectNodes ks (out @ [projectedNode n parent]) (Some r) @ projectNodes rest [] parent"
        using rest [of "projectNodes ks (out @ [projectedNode n parent]) (Some r)"] by (simp add: Cons n Some)
      also have "\<dots> = out @ (projectedNode n parent # projectNodes ks [] (Some r)) @ projectNodes rest [] parent"
        by (subst ks) simp
      also have "(projectedNode n parent # projectNodes ks [] (Some r)) @ projectNodes rest [] parent
          = projectNodes ns [] parent"
        using rest [of "projectNodes ks [projectedNode n parent] (Some r)"] ks [of "[projectedNode n parent]"]
        by (simp add: Cons n Some)
      finally show ?thesis .
    qed
  qed simp
qed

lemma projectNodes_Cons:
  "projectNodes (n # ns) [] parent =
     projectedNode n parent # (case nchildren n of None \<Rightarrow> [] | Some ks \<Rightarrow> projectNodes ks [] (Some (nref n)))
       @ projectNodes ns [] parent"
proof (cases n)
  case (Node r ro nm v e t acts p crefs kids)
  then show ?thesis
    using projectNodes_append [of ns "[projectedNode n parent]"]
      projectNodes_append [of "the kids" "[projectedNode n parent]" "Some r"]
      projectNodes_append [of ns "projectNodes (the kids) [projectedNode n parent] (Some r)"]
    by (cases kids) simp_all
qed

lemma projectedNode_sel [simp]:
  "nref (projectedNode n parent) = nref n" "nchildren (projectedNode n parent) = None"
  "nrole (projectedNode n parent) = nrole n" "nname (projectedNode n parent) = nname n"
  by (simp_all add: projectedNode_def Let_def)

lemma projected_refs: "map nref (projectNodes ns [] parent) = map nref (flatten ns [])"
proof (induction ns arbitrary: parent rule: measure_induct_rule [of "size_list size"])
  case (less ns)
  show ?case
  proof (cases ns)
    case (Cons n rest)
    have "map nref (projectNodes rest [] parent) = map nref (flatten rest [])"
      by (rule less) (simp add: Cons)
    moreover have "map nref (projectNodes ks [] q) = map nref (flatten ks [])" if "nchildren n = Some ks" for ks q
      by (rule less) (use that in \<open>cases n; simp add: Cons\<close>)
    ultimately show ?thesis
      by (simp add: Cons projectNodes_Cons flatten_Cons split: option.splits)
  qed simp
qed

subsection \<open>Histories\<close>

lemma trimHistoryImages_ids [simp]:
  "map observationId (trimHistoryImages i m h) = map observationId h"
  by (induction h arbitrary: i) auto

lemma trimHistoryImages_length [simp]: "length (trimHistoryImages i m h) = length h"
  by (metis trimHistoryImages_ids length_map)

definition image_count :: "control_observation list \<Rightarrow> int" where
  "image_count h = int (length (filter (\<lambda>ob. image ob \<noteq> None) h))"

lemma trimHistoryImages_count:
  "0 \<le> i \<Longrightarrow> image_count (trimHistoryImages i m h) \<le> max 0 (m - i)"
proof (induction h arbitrary: i)
  case (Cons ob h)
  have "image_count (trimHistoryImages i m h) \<le> max 0 (m - i)"
    "image_count (trimHistoryImages (i + 1) m h) \<le> max 0 (m - (i + 1))"
    using Cons by auto
  then show ?case by (auto simp: image_count_def)
qed (simp add: image_count_def)

lemma trimHistoryImages_head: "1 \<le> m \<Longrightarrow> hd (trimHistoryImages 0 m (ob # h)) = ob"
  by simp

lemma trimHistoryImages_stale:
  "c \<in> set (trimHistoryImages i m h) \<Longrightarrow> \<exists>ob \<in> set h. c = ob \<or> c = ob\<lparr>image := None\<rparr>"
  by (induction h arbitrary: i) (auto split: if_splits)

lemma pop_to_budget_props:
  "(\<exists>dropped. h = pop_to_budget m h @ dropped) \<and> (h \<noteq> [] \<longrightarrow> pop_to_budget m h \<noteq> [])
   \<and> (length (pop_to_budget m h) > 1 \<longrightarrow> byteLength (history_json (pop_to_budget m h)) \<le> m)"
proof (induction m h rule: pop_to_budget.induct)
  case (1 m h)
  show ?case
  proof (cases "length h > 1 \<and> byteLength (history_json h) > m")
    case True
    have eq: "pop_to_budget m h = pop_to_budget m (butlast h)"
      using True pop_to_budget.simps [of m h] by presburger
    from 1 True obtain d where d: "butlast h = pop_to_budget m (butlast h) @ d" by blast
    from True have "h = butlast h @ [last h]" by (intro append_butlast_last_id [symmetric]) auto
    with d have "h = pop_to_budget m (butlast h) @ (d @ [last h])" by (metis append.assoc)
    moreover have "butlast h \<noteq> []" using True by (cases h) auto
    ultimately show ?thesis using 1 True unfolding eq by blast
  next
    case False
    then have "pop_to_budget m h = h" by (subst pop_to_budget.simps) auto
    with False show ?thesis by auto
  qed
qed

lemma trimHistory_props:
  assumes "trimHistory h limits = Inr h'" and "h \<noteq> []"
  shows "h' \<noteq> []" "length h' \<le> length h" "byteLength (history_json h') \<le> maxBytesPerHistory limits"
    "\<exists>d. map observationId h = map observationId h' @ d"
    "1 \<le> maxImagesPerSurface limits \<Longrightarrow> hd h' = hd h"
    "image_count h' \<le> max 0 (maxImagesPerSurface limits)"
proof -
  define t where "t = trimHistoryImages 0 (maxImagesPerSurface limits) h"
  define b where "b = maxBytesPerHistory limits"
  have h': "h' = pop_to_budget b t" and le: "byteLength (history_json h') \<le> maxBytesPerHistory limits"
    using assms(1) by (auto simp: trimHistory_def trimHistoryToBudget_def Let_def store_fail_def t_def b_def
        split: if_splits)
  have "t \<noteq> []" using assms(2) by (metis t_def trimHistoryImages_length length_0_conv)
  with pop_to_budget_props [of t b] obtain d where d: "t = h' @ d" and ne: "h' \<noteq> []" by (auto simp: h')
  show "h' \<noteq> []" by (rule ne)
  show "byteLength (history_json h') \<le> maxBytesPerHistory limits" by (rule le)
  have len: "length t = length h" by (simp add: t_def)
  with d show "length h' \<le> length h" by (metis length_append le_add1)
  have "map observationId h = map observationId t" by (simp add: t_def)
  with d show "\<exists>d. map observationId h = map observationId h' @ d" by auto
  have "image_count t \<le> max 0 (maxImagesPerSurface limits)"
    unfolding t_def using trimHistoryImages_count [of 0 "maxImagesPerSurface limits" h] by simp
  moreover have "image_count h' \<le> image_count t" by (simp add: d image_count_def)
  ultimately show "image_count h' \<le> max 0 (maxImagesPerSurface limits)" by simp
  show "hd h' = hd h" if "1 \<le> maxImagesPerSurface limits"
  proof (cases h)
    case (Cons ob rest)
    have "hd h' = hd t" using d ne by simp
    with trimHistoryImages_head [OF that] show ?thesis by (simp add: t_def Cons)
  qed (use assms(2) in simp)
qed

subsection \<open>Dirty reasons\<close>

lemma js_take_length: "js_length (js_take n s) \<le> n"
proof (induction n s rule: js_take.induct)
  case (2 n c cs)
  then show ?case by (auto simp: js_length_def)
qed (simp add: js_length_def)

lemma js_take_all: "js_length s \<le> n \<Longrightarrow> js_take n s = s"
  by (induction n s rule: js_take.induct) (auto simp: js_length_def)

lemma shrink_reasons_eq: "shrink_reasons rs = drop (length rs - MAX_DIRTY_REASONS) rs"
proof (induction rs)
  case (Cons r rs)
  then show ?case by (auto simp: Suc_diff_le not_less)
qed simp

definition reasons_ok :: "string list \<Rightarrow> bool" where
  "reasons_ok rs \<longleftrightarrow> distinct rs \<and> length rs \<le> MAX_DIRTY_REASONS
     \<and> (\<forall>r \<in> set rs. js_length r \<le> MAX_DIRTY_REASON_LENGTH)"

lemma reasons_ok_Nil [simp]: "reasons_ok []"
  by (simp add: reasons_ok_def)

lemma remember_reasons_ok:
  "reasons_ok (dirtyReasons e) \<Longrightarrow> reasons_ok (dirtyReasons (rememberDirtyReason e reason))"
  using js_take_length [of MAX_DIRTY_REASON_LENGTH reason]
  by (auto simp: reasons_ok_def rememberDirtyReason_def Let_def shrink_reasons_eq distinct_drop
      dest!: in_set_dropD simp del: drop_append)

lemma remember_last:
  "last (dirtyReasons (rememberDirtyReason e reason)) = js_take MAX_DIRTY_REASON_LENGTH reason"
  by (simp add: rememberDirtyReason_def Let_def shrink_reasons_eq last_drop MAX_DIRTY_REASONS_def
      del: drop_append)

lemma remember_frame [simp]:
  "history (rememberDirtyReason e r) = history e" "entry_bytes (rememberDirtyReason e r) = entry_bytes e"
  "pendingBytes (rememberDirtyReason e r) = pendingBytes e"
  "lastAccessAt (rememberDirtyReason e r) = lastAccessAt e"
  "eventEpoch (rememberDirtyReason e r) = eventEpoch e"
  "continuations (rememberDirtyReason e r) = continuations e"
  by (simp_all add: rememberDirtyReason_def Let_def)

lemma advanceEvent_frame [simp]:
  "history (snd (advanceEvent e k)) = history e" "entry_bytes (snd (advanceEvent e k)) = entry_bytes e"
  "pendingBytes (snd (advanceEvent e k)) = pendingBytes e"
  "lastAccessAt (snd (advanceEvent e k)) = lastAccessAt e"
  "dirtyReasons (snd (advanceEvent e k)) = dirtyReasons e"
  "continuations (snd (advanceEvent e k)) = continuations e"
  by (simp_all add: advanceEvent_def)

lemma advanceEvent_epoch: "eventEpoch e \<le> eventEpoch (snd (advanceEvent e k))"
  by (simp add: advanceEvent_def)

end
