(* ===== verification/SurfaceRegistry.thy ===== *)
theory SurfaceRegistry
  imports ObservationRules
begin

text \<open>
  packages/control/src/surface-registry.ts: the map from owners to their surfaces, its quotas,
  the byte budget, the idle purge and eviction.

  A surface map is shared between \<open>owners\<close> and the caller of \<open>reserveSurface\<close>. It leaves
  \<open>owners\<close> only when it is empty, so the caller's map is always \<open>owned reg owner\<close>: the entry
  of \<open>owners\<close>, or the empty map. A deletion in a shared map is an in-place change of its entry.
  The \<open>onEvict\<close> callback is the log \<open>evictions\<close>; it is taken not to call back into the store.
\<close>

record registry =
  owners :: "(string, (string, surface_entry) jsmap) jsmap"
  evictions :: "(string \<times> string \<times> string) list"

type_synonym 'a reg_op = "(registry, store_error, 'a) eff"

definition emptyEntry :: "int \<Rightarrow> surface_entry" where
  "emptyEntry now = \<lparr>history = [], dirtyReasons = [], continuations = [], lastAccessAt = now,
     entry_bytes = 0, pendingBytes = 0, eventEpoch = 0, lastEventKey = None\<rparr>"

definition find_entry :: "registry \<Rightarrow> string \<Rightarrow> string \<Rightarrow> surface_entry option" where
  "find_entry reg owner sid =
     (case map_of (owners reg) owner of None \<Rightarrow> None | Some m \<Rightarrow> map_of m sid)"

definition owned :: "registry \<Rightarrow> string \<Rightarrow> (string, surface_entry) jsmap" where
  "owned reg owner = (case map_of (owners reg) owner of None \<Rightarrow> [] | Some m \<Rightarrow> m)"

definition requireOwner :: "string \<Rightarrow> unit reg_op" where
  "requireOwner owner reg =
     (if owner = [] then (store_fail ''CONTROL_OWNER_FORBIDDEN'' ''A runtime owner is required'', reg)
      else if owner \<in> set (jkeys (owners reg)) then (Inr (), reg)
      else (Inr (), reg\<lparr>owners := AList.update owner [] (owners reg)\<rparr>))"

definition requireEntry :: "registry \<Rightarrow> string \<Rightarrow> string \<Rightarrow> store_error + surface_entry" where
  "requireEntry reg owner sid =
     (case map_of (owners reg) owner of
        None \<Rightarrow> store_fail ''CONTROL_OWNER_FORBIDDEN'' ''Observation belongs to another owner''
      | Some m \<Rightarrow>
          (case map_of m sid of
             None \<Rightarrow> store_fail ''CONTROL_SURFACE_NOT_FOUND'' (''Unknown surface '' @ sid)
           | Some e \<Rightarrow> Inr e))"

definition surfaceCount :: "registry \<Rightarrow> nat" where
  "surfaceCount reg = sum_list (map (\<lambda>(_, m). length m) (owners reg))"

definition entry_total :: "surface_entry \<Rightarrow> int" where
  "entry_total e = entry_bytes e + pendingBytes e"

definition totalBytes :: "registry \<Rightarrow> int" where
  "totalBytes reg = sum_list (map (\<lambda>(_, m). sum_list (map (\<lambda>(_, e). entry_total e) m)) (owners reg))"

definition notifyEviction :: "string \<Rightarrow> string \<Rightarrow> string \<Rightarrow> registry \<Rightarrow> registry" where
  "notifyEviction owner sid reason reg = reg\<lparr>evictions := evictions reg @ [(owner, sid, reason)]\<rparr>"

text \<open>\<open>surfaces.delete(surfaceId)\<close> on the map of \<open>owner\<close>, where it is.\<close>

definition delete_surface :: "string \<Rightarrow> string \<Rightarrow> registry \<Rightarrow> registry" where
  "delete_surface owner sid reg =
     reg\<lparr>owners := map (\<lambda>(o', m). (o', if o' = owner then AList.delete sid m else m)) (owners reg)\<rparr>"

definition drop_if_empty :: "string \<Rightarrow> registry \<Rightarrow> registry" where
  "drop_if_empty owner reg =
     (if owned reg owner = [] then reg\<lparr>owners := AList.delete owner (owners reg)\<rparr> else reg)"

definition set_entry :: "string \<Rightarrow> string \<Rightarrow> surface_entry \<Rightarrow> registry \<Rightarrow> registry" where
  "set_entry owner sid e reg =
     reg\<lparr>owners := AList.update owner (AList.update sid e (owned reg owner)) (owners reg)\<rparr>"

definition evictOldest :: "string \<Rightarrow> string \<Rightarrow> registry \<Rightarrow> registry" where
  "evictOldest owner reason reg =
     (case sort_key (\<lambda>(_, e). lastAccessAt e) (owned reg owner) of
        [] \<Rightarrow> reg
      | (sid, _) # _ \<Rightarrow> notifyEviction owner sid reason (delete_surface owner sid reg))"

text \<open>All surfaces in iteration order, and the first one least recently used.\<close>

definition all_surfaces :: "registry \<Rightarrow> (string \<times> string \<times> surface_entry) list" where
  "all_surfaces reg = concat (map (\<lambda>(o', m). map (\<lambda>(s, e). (o', s, e)) m) (owners reg))"

definition pick_oldest :: "(string \<times> string \<times> surface_entry) option \<Rightarrow> string \<times> string \<times> surface_entry
    \<Rightarrow> (string \<times> string \<times> surface_entry) option" where
  "pick_oldest cand x = (case cand of
     None \<Rightarrow> Some x
   | Some c \<Rightarrow> if lastAccessAt (snd (snd x)) < lastAccessAt (snd (snd c)) then Some x else Some c)"

definition global_victim :: "string \<Rightarrow> string \<Rightarrow> registry \<Rightarrow> (string \<times> string \<times> surface_entry) option" where
  "global_victim excludeOwner excludeSurface reg =
     foldl pick_oldest None
       (filter (\<lambda>(o', s, _). \<not> (o' = excludeOwner \<and> s = excludeSurface)) (all_surfaces reg))"

definition evictGlobal :: "string \<Rightarrow> string \<Rightarrow> string \<Rightarrow> registry \<Rightarrow> bool \<times> registry" where
  "evictGlobal excludeOwner excludeSurface reason reg =
     (case global_victim excludeOwner excludeSurface reg of
        None \<Rightarrow> (False, reg)
      | Some (o', s, _) \<Rightarrow> (True, drop_if_empty o' (notifyEviction o' s reason (delete_surface o' s reg))))"

section \<open>Eviction makes progress\<close>

lemma owners_notify [simp]: "owners (notifyEviction o' s r reg) = owners reg"
  by (simp add: notifyEviction_def)

lemma owned_notify [simp]: "owned (notifyEviction o' s r reg) = owned reg"
  by (rule ext) (simp add: owned_def)

lemma map_of_delete_surface:
  "map_of (owners (delete_surface owner sid reg)) k =
     map_option (\<lambda>m. if k = owner then AList.delete sid m else m) (map_of (owners reg) k)"
proof -
  have "map_of (map (\<lambda>(o', m). (o', if o' = owner then AList.delete sid m else m)) xs) k =
     map_option (\<lambda>m. if k = owner then AList.delete sid m else m) (map_of xs k)" for xs
    by (induction xs) auto
  then show ?thesis by (simp add: delete_surface_def)
qed

lemma owned_delete_surface:
  "owned (delete_surface owner sid reg) k = (if k = owner then AList.delete sid (owned reg k) else owned reg k)"
  by (auto simp: owned_def map_of_delete_surface split: option.splits)

lemma pick_oldest_mem: "foldl pick_oldest cand xs = Some x \<Longrightarrow> Some x = cand \<or> x \<in> set xs"
  by (induction xs arbitrary: cand) (force simp: pick_oldest_def split: option.splits if_splits)+

lemma pick_oldest_None: "foldl pick_oldest cand xs = None \<longleftrightarrow> cand = None \<and> xs = []"
  by (induction xs arbitrary: cand) (auto simp: pick_oldest_def split: option.splits)

lemma all_surfaces_iff:
  "(o', s, e) \<in> set (all_surfaces reg) \<longleftrightarrow> (\<exists>m. (o', m) \<in> set (owners reg) \<and> (s, e) \<in> set m)"
  by (auto simp: all_surfaces_def)

lemma sum_list_less:
  fixes f g :: "'a \<Rightarrow> nat"
  assumes "\<And>x. x \<in> set xs \<Longrightarrow> f x \<le> g x" and "x \<in> set xs" "f x < g x"
  shows "sum_list (map f xs) < sum_list (map g xs)"
  using assms
proof (induction xs)
  case (Cons y ys)
  have "sum_list (map f ys) \<le> sum_list (map g ys)" by (rule sum_list_mono) (simp add: Cons.prems(1))
  moreover have "f y \<le> g y" by (simp add: Cons.prems(1))
  moreover have "f y < g y \<or> sum_list (map f ys) < sum_list (map g ys)" using Cons by auto
  ultimately show ?case by auto
qed simp

lemma surfaceCount_delete:
  assumes "(o', m) \<in> set (owners reg)" "s \<in> set (jkeys m)"
  shows "surfaceCount (delete_surface o' s reg) < surfaceCount reg"
proof -
  have "surfaceCount (delete_surface o' s reg) =
      sum_list (map (\<lambda>(k, m). length (if k = o' then AList.delete s m else m)) (owners reg))"
    by (simp add: surfaceCount_def delete_surface_def comp_def case_prod_beta')
  also have "\<dots> < surfaceCount reg"
    unfolding surfaceCount_def
    by (rule sum_list_less [where x = "(o', m)"])
       (use assms(1) length_delete_less [OF assms(2)] length_delete_le in auto)
  finally show ?thesis .
qed

lemma surfaceCount_notify [simp]: "surfaceCount (notifyEviction o' s r reg) = surfaceCount reg"
  by (simp add: surfaceCount_def)

lemma sum_list_filter_le:
  fixes f :: "'a \<Rightarrow> nat"
  shows "sum_list (map f (filter P xs)) \<le> sum_list (map f xs)"
  by (induction xs) auto

lemma surfaceCount_drop: "surfaceCount (drop_if_empty o' reg) \<le> surfaceCount reg"
  by (simp add: drop_if_empty_def surfaceCount_def AList.delete_eq sum_list_filter_le)

lemma global_victim_Some:
  assumes "global_victim xo xs reg = Some (o', s, e)"
  shows "(o', s, e) \<in> set (all_surfaces reg)" and "\<not> (o' = xo \<and> s = xs)"
  using pick_oldest_mem [OF assms [unfolded global_victim_def]] by auto

lemma global_victim_None:
  "global_victim xo xs reg = None \<longleftrightarrow> (\<forall>(o', s, _) \<in> set (all_surfaces reg). o' = xo \<and> s = xs)"
  by (auto simp: global_victim_def pick_oldest_None filter_empty_conv)

lemma evictGlobal_progress:
  assumes "evictGlobal xo xs r reg = (True, reg')"
  shows "surfaceCount reg' < surfaceCount reg"
proof -
  from assms obtain o' s e where pick: "global_victim xo xs reg = Some (o', s, e)"
    and reg': "reg' = drop_if_empty o' (notifyEviction o' s r (delete_surface o' s reg))"
    by (auto simp: evictGlobal_def split: option.splits)
  from global_victim_Some(1) [OF pick] obtain m where "(o', m) \<in> set (owners reg)" "(s, e) \<in> set m"
    by (auto simp: all_surfaces_iff)
  then have "surfaceCount (delete_surface o' s reg) < surfaceCount reg"
    by (intro surfaceCount_delete) force+
  with surfaceCount_drop show ?thesis unfolding reg' by (metis le_less_trans surfaceCount_notify)
qed

lemma evictOldest_progress:
  assumes "owned reg owner \<noteq> []"
  shows "length (owned (evictOldest owner r reg) owner) < length (owned reg owner)"
proof (cases "sort_key (\<lambda>(_, e). lastAccessAt e) (owned reg owner)")
  case Nil
  with assms show ?thesis by (metis length_0_conv length_sort)
next
  case (Cons x rest)
  obtain sid e where x: "x = (sid, e)" by (cases x)
  have "x \<in> set (owned reg owner)" using Cons by (metis list.set_intros(1) set_sort)
  then have "sid \<in> set (jkeys (owned reg owner))" by (force simp: x)
  then show ?thesis by (simp add: evictOldest_def Cons x owned_delete_surface length_delete_less)
qed

section \<open>Making room\<close>

text \<open>
  The loop of the owner quota. It stops on an empty map: with the positive limits the store's
  constructor demands, the loop has ended before.
\<close>

function evict_owned :: "store_limits \<Rightarrow> string \<Rightarrow> registry \<Rightarrow> registry" where
  "evict_owned limits owner reg =
     (if int (length (owned reg owner)) \<ge> maxSurfacesPerOwner limits \<and> owned reg owner \<noteq> []
      then evict_owned limits owner (evictOldest owner ''owner-quota'' reg) else reg)"
  by pat_completeness auto
termination
  by (relation "measure (\<lambda>(_, owner, reg). length (owned reg owner))") (auto intro: evictOldest_progress)

function evict_total :: "store_limits \<Rightarrow> string \<Rightarrow> string \<Rightarrow> unit reg_op" where
  "evict_total limits owner sid reg =
     (if int (surfaceCount reg) \<ge> maxSurfacesTotal limits then
        (case evictGlobal owner sid ''global-quota'' reg of
           (True, reg') \<Rightarrow> evict_total limits owner sid reg'
         | (False, reg') \<Rightarrow> (store_fail ''CONTROL_SURFACE_QUOTA_EXCEEDED''
             ''No surface is available for global quota eviction'', reg'))
      else (Inr (), reg))"
  by pat_completeness auto
termination
  by (relation "measure (\<lambda>(_, _, _, reg). surfaceCount reg)") (auto dest: sym intro: evictGlobal_progress)

definition reserveSurface :: "store_limits \<Rightarrow> string \<Rightarrow> string \<Rightarrow> unit reg_op" where
  "reserveSurface limits owner sid reg =
     (let reg1 = evict_owned limits owner reg;
          reg2 = reg1\<lparr>owners := AList.update owner (owned reg1 owner) (owners reg1)\<rparr> in
      evict_total limits owner sid reg2)"

function ensureByteCapacity :: "store_limits \<Rightarrow> string \<Rightarrow> string \<Rightarrow> int \<Rightarrow> int \<Rightarrow> unit reg_op" where
  "ensureByteCapacity limits owner sid candidateBytes existingBytes reg =
     (if totalBytes reg - existingBytes + candidateBytes > maxBytesTotal limits then
        (case evictGlobal owner sid ''byte-quota'' reg of
           (True, reg') \<Rightarrow> ensureByteCapacity limits owner sid candidateBytes existingBytes reg'
         | (False, reg') \<Rightarrow> (store_fail ''CONTROL_CACHE_BYTES_EXCEEDED''
             ''Observation cache byte limit exceeded'', reg'))
      else (Inr (), reg))"
  by pat_completeness auto
termination
  by (relation "measure (\<lambda>(_, _, _, _, _, reg). surfaceCount reg)") (auto dest: sym intro: evictGlobal_progress)

declare evict_owned.simps [simp del] evict_total.simps [simp del] ensureByteCapacity.simps [simp del]

definition release_owner :: "string \<Rightarrow> registry \<Rightarrow> registry" where
  "release_owner owner reg =
     (case map_of (owners reg) owner of
        None \<Rightarrow> reg
      | Some m \<Rightarrow> reg\<lparr>owners := AList.delete owner (owners reg),
          evictions := evictions reg @ map (\<lambda>(s, _). (owner, s, ''release'')) m\<rparr>)"

definition idle :: "store_limits \<Rightarrow> int \<Rightarrow> surface_entry \<Rightarrow> bool" where
  "idle limits now e \<longleftrightarrow> now - lastAccessAt e \<ge> idleRetentionMs limits"

definition purgeIdle :: "store_limits \<Rightarrow> int \<Rightarrow> registry \<Rightarrow> registry" where
  "purgeIdle limits now reg =
     reg\<lparr>owners := filter (\<lambda>(_, m). m \<noteq> [])
           (map (\<lambda>(o', m). (o', filter (\<lambda>(_, e). \<not> idle limits now e) m)) (owners reg)),
         evictions := evictions reg @ concat (map (\<lambda>(o', m).
           map (\<lambda>(s, _). (o', s, ''idle'')) (filter (\<lambda>(_, e). idle limits now e) m)) (owners reg))\<rparr>"

section \<open>The registry as a flat list of surfaces\<close>

definition reg_wf :: "registry \<Rightarrow> bool" where
  "reg_wf reg \<longleftrightarrow> wf_map (owners reg) \<and> (\<forall>m \<in> set (jvals (owners reg)). wf_map m)"

lemma sum_update:
  fixes g :: "'v \<Rightarrow> int"
  assumes "wf_map xs"
  shows "sum_list (map g (jvals (AList.update k v xs))) =
    sum_list (map g (jvals xs)) - (case map_of xs k of None \<Rightarrow> 0 | Some w \<Rightarrow> g w) + g v"
  using assms
proof (induction xs)
  case (Cons x xs)
  then have "k = fst x \<Longrightarrow> map_of xs k = None" by (cases x) (auto simp: wf_map_Cons map_of_eq_None_iff)
  with Cons show ?case by (cases x) (auto simp: wf_map_Cons split: option.splits)
qed simp

lemma wf_owned [simp]: "reg_wf reg \<Longrightarrow> wf_map (owned reg owner)"
  by (auto simp: reg_wf_def owned_def dest!: map_of_SomeD split: option.splits)

lemma find_owned: "find_entry reg owner sid = map_of (owned reg owner) sid"
  by (simp add: find_entry_def owned_def split: option.splits)

lemma owned_Some: "map_of (owners reg) owner = Some m \<Longrightarrow> owned reg owner = m"
  by (simp add: owned_def)

lemma all_surfaces_find:
  assumes "reg_wf reg"
  shows "(o', s, e) \<in> set (all_surfaces reg) \<longleftrightarrow> find_entry reg o' s = Some e"
proof -
  have "(o', s, e) \<in> set (all_surfaces reg) \<longleftrightarrow>
      (\<exists>m. map_of (owners reg) o' = Some m \<and> (s, e) \<in> set m)"
    using assms by (simp add: all_surfaces_iff reg_wf_def map_of_mem)
  also have "\<dots> \<longleftrightarrow> find_entry reg o' s = Some e"
  proof (cases "map_of (owners reg) o'")
    case (Some m)
    then have "m \<in> set (jvals (owners reg))" by (force dest: map_of_SomeD)
    then have "wf_map m" using assms by (simp add: reg_wf_def del: set_map)
    then show ?thesis by (simp add: find_entry_def Some map_of_mem)
  qed (simp add: find_entry_def)
  finally show ?thesis .
qed

lemma surfaceCount_all: "surfaceCount reg = length (all_surfaces reg)"
  by (simp add: surfaceCount_def all_surfaces_def length_concat comp_def case_prod_beta')

lemma totalBytes_all: "totalBytes reg = sum_list (map (\<lambda>(_, _, e). entry_total e) (all_surfaces reg))"
proof -
  have "sum_list (map (\<lambda>(_, _, e). entry_total e) (concat (map (\<lambda>(o', m). map (\<lambda>(s, e). (o', s, e)) m) xs)))
     = sum_list (map (\<lambda>(_, m). sum_list (map (\<lambda>(_, e). entry_total e) m)) xs)"
    for xs :: "(string \<times> (string \<times> surface_entry) list) list"
    by (induction xs) (auto simp: comp_def case_prod_beta')
  then show ?thesis by (simp add: totalBytes_def all_surfaces_def)
qed

lemma all_surfaces_delete:
  "all_surfaces (delete_surface owner sid reg) =
     filter (\<lambda>(o', s, _). \<not> (o' = owner \<and> s = sid)) (all_surfaces reg)"
proof -
  have "concat (map (\<lambda>(o', m). map (\<lambda>(s, e). (o', s, e)) m)
           (map (\<lambda>(o', m). (o', if o' = owner then AList.delete sid m else m)) xs)) =
      filter (\<lambda>(o', s, _). \<not> (o' = owner \<and> s = sid)) (concat (map (\<lambda>(o', m). map (\<lambda>(s, e). (o', s, e)) m) xs))"
    for xs :: "(string \<times> (string \<times> surface_entry) list) list"
    by (induction xs) (auto simp: filter_map AList.delete_eq comp_def case_prod_beta' eq_commute [of sid])
  then show ?thesis by (simp add: all_surfaces_def delete_surface_def)
qed

lemma wf_delete_surface: "reg_wf reg \<Longrightarrow> reg_wf (delete_surface owner sid reg)"
  by (auto simp: reg_wf_def delete_surface_def wf_map_def comp_def case_prod_beta' distinct_delete)

lemma wf_notify [simp]: "reg_wf (notifyEviction o' s r reg) = reg_wf reg"
  by (simp add: reg_wf_def)

lemma all_surfaces_notify [simp]: "all_surfaces (notifyEviction o' s r reg) = all_surfaces reg"
  by (simp add: all_surfaces_def)

lemma wf_drop: "reg_wf reg \<Longrightarrow> reg_wf (drop_if_empty owner reg)"
  using set_delete_subset by (fastforce simp: reg_wf_def drop_if_empty_def)

lemma all_surfaces_drop:
  assumes "reg_wf reg"
  shows "all_surfaces (drop_if_empty owner reg) = all_surfaces reg"
proof (cases "owned reg owner = []")
  case True
  have "concat (map (\<lambda>(o', m). map (\<lambda>(s, e). (o', s, e)) m) (filter (\<lambda>(k, _). owner \<noteq> k) xs)) =
      concat (map (\<lambda>(o', m). map (\<lambda>(s, e). (o', s, e)) m) xs)"
    if "\<forall>(k, m) \<in> set xs. k = owner \<longrightarrow> m = []" for xs :: "(string \<times> (string \<times> surface_entry) list) list"
    using that by (induction xs) auto
  moreover have "\<forall>(k, m) \<in> set (owners reg). k = owner \<longrightarrow> m = []"
  proof clarify
    fix k m
    assume "(owner, m) \<in> set (owners reg)"
    with assms have "map_of (owners reg) owner = Some m" by (simp add: reg_wf_def map_of_mem)
    with True show "m = []" by (simp add: owned_def)
  qed
  ultimately show ?thesis by (simp add: drop_if_empty_def True all_surfaces_def AList.delete_eq)
qed (simp add: drop_if_empty_def)

lemma wf_set_entry: "reg_wf reg \<Longrightarrow> reg_wf (set_entry owner sid e reg)"
  using set_update_subset [of owner "AList.update sid e (owned reg owner)" "owners reg"]
  by (fastforce simp: reg_wf_def set_entry_def)

lemma find_set_entry:
  "find_entry (set_entry owner sid e reg) o' s =
     (if o' = owner \<and> s = sid then Some e else find_entry reg o' s)"
  by (auto simp: find_entry_def set_entry_def owned_def split: option.splits)

lemma owned_set_entry:
  "owned (set_entry owner sid e reg) o' =
     (if o' = owner then AList.update sid e (owned reg owner) else owned reg o')"
  by (simp add: owned_def set_entry_def)

lemma totalBytes_set_entry:
  assumes "reg_wf reg"
  shows "totalBytes (set_entry owner sid e reg) =
    totalBytes reg - (case find_entry reg owner sid of None \<Rightarrow> 0 | Some e0 \<Rightarrow> entry_total e0) + entry_total e"
proof -
  define g :: "(string, surface_entry) jsmap \<Rightarrow> int" where "g m = sum_list (map entry_total (jvals m))" for m
  have tb: "totalBytes r = sum_list (map g (jvals (owners r)))" for r
    by (simp add: totalBytes_def g_def comp_def case_prod_beta')
  have old: "(case map_of (owners reg) owner of None \<Rightarrow> 0 | Some w \<Rightarrow> g w) = g (owned reg owner)"
    by (simp add: owned_def g_def split: option.splits)
  show ?thesis
    unfolding tb set_entry_def
    using assms sum_update [of "owners reg" g owner "AList.update sid e (owned reg owner)"]
      sum_update [of "owned reg owner" entry_total sid e]
    by (simp add: reg_wf_def old find_owned g_def wf_owned [unfolded reg_wf_def])
qed

lemma surfaceCount_set_entry:
  assumes "reg_wf reg"
  shows "int (surfaceCount (set_entry owner sid e reg)) =
    int (surfaceCount reg) + (if find_entry reg owner sid = None then 1 else 0)"
proof -
  have sc: "int (surfaceCount r) = sum_list (map (\<lambda>m. int (length m)) (jvals (owners r)))" for r
    by (simp add: surfaceCount_def comp_def case_prod_beta' flip: sum_list_of_nat)
  have old: "(case map_of (owners reg) owner of None \<Rightarrow> 0 | Some w \<Rightarrow> int (length w)) = int (length (owned reg owner))"
    by (simp add: owned_def split: option.splits)
  have len: "length (AList.update sid e (owned reg owner)) =
      length (owned reg owner) + (if find_entry reg owner sid = None then 1 else 0)"
    by (auto simp: length_update find_owned map_of_eq_None_iff)
  show ?thesis
    unfolding sc set_entry_def
    using assms sum_update [of "owners reg" "\<lambda>m. int (length m)" owner "AList.update sid e (owned reg owner)"]
    by (simp add: reg_wf_def old len)
qed

section \<open>What eviction may do\<close>

text \<open>
  Every eviction keeps the order and the content of what it does not remove, and never
  removes a surface \<open>keep\<close> protects.
\<close>

definition shrunk :: "(string \<Rightarrow> string \<Rightarrow> bool) \<Rightarrow> registry \<Rightarrow> registry \<Rightarrow> bool" where
  "shrunk keep reg reg' \<longleftrightarrow> reg_wf reg' \<and>
     (\<exists>Q. all_surfaces reg' = filter Q (all_surfaces reg) \<and> (\<forall>o' s e. keep o' s \<longrightarrow> Q (o', s, e)))"

lemma shrunk_refl [simp]: "shrunk keep reg reg \<longleftrightarrow> reg_wf reg"
  by (auto simp: shrunk_def intro: exI [of _ "\<lambda>_. True"])

lemma shrunk_trans:
  assumes "shrunk keep r1 r2" "shrunk keep r2 r3"
  shows "shrunk keep r1 r3"
proof -
  from assms obtain Q Q' where "all_surfaces r2 = filter Q (all_surfaces r1)"
    "\<forall>o' s e. keep o' s \<longrightarrow> Q (o', s, e)" "all_surfaces r3 = filter Q' (all_surfaces r2)"
    "\<forall>o' s e. keep o' s \<longrightarrow> Q' (o', s, e)" "reg_wf r3" by (auto simp: shrunk_def)
  then show ?thesis unfolding shrunk_def by (intro conjI exI [of _ "\<lambda>x. Q x \<and> Q' x"]) auto
qed

lemma shrunk_weaken: "shrunk keep reg reg' \<Longrightarrow> (\<And>o' s. keep' o' s \<Longrightarrow> keep o' s) \<Longrightarrow> shrunk keep' reg reg'"
  unfolding shrunk_def by metis

lemma shrunk_wf: "shrunk keep reg reg' \<Longrightarrow> reg_wf reg'"
  by (simp add: shrunk_def)

lemma shrunk_find:
  assumes "shrunk keep reg reg'" "reg_wf reg"
  shows "find_entry reg' o' s = Some e \<Longrightarrow> find_entry reg o' s = Some e"
    and "keep o' s \<Longrightarrow> find_entry reg' o' s = find_entry reg o' s"
proof -
  from assms obtain Q where Q: "all_surfaces reg' = filter Q (all_surfaces reg)"
    "\<forall>o' s e. keep o' s \<longrightarrow> Q (o', s, e)" and wf: "reg_wf reg'" by (auto simp: shrunk_def)
  have sub: "find_entry reg' o' s = Some e \<Longrightarrow> find_entry reg o' s = Some e" for e
    using Q(1) by (simp add: all_surfaces_find [OF wf, symmetric] all_surfaces_find [OF assms(2), symmetric])
  then show "find_entry reg' o' s = Some e \<Longrightarrow> find_entry reg o' s = Some e" .
  show "find_entry reg' o' s = find_entry reg o' s" if "keep o' s"
  proof (cases "find_entry reg o' s")
    case None
    with sub show ?thesis by (cases "find_entry reg' o' s") auto
  next
    case (Some e)
    with Q that have "(o', s, e) \<in> set (all_surfaces reg')"
      by (simp add: all_surfaces_find [OF assms(2), symmetric])
    with Some show ?thesis by (simp add: all_surfaces_find [OF wf])
  qed
qed

lemma sum_list_filter_nonneg:
  fixes f :: "'a \<Rightarrow> int"
  shows "(\<And>x. x \<in> set xs \<Longrightarrow> 0 \<le> f x) \<Longrightarrow> sum_list (map f (filter P xs)) \<le> sum_list (map f xs)"
  by (induction xs) (auto simp: add_increasing)

definition bytes_nonneg :: "registry \<Rightarrow> bool" where
  "bytes_nonneg reg \<longleftrightarrow> (\<forall>(_, _, e) \<in> set (all_surfaces reg). 0 \<le> entry_bytes e \<and> 0 \<le> pendingBytes e)"

lemma shrunk_counts:
  assumes "shrunk keep reg reg'"
  shows "surfaceCount reg' \<le> surfaceCount reg"
    and "bytes_nonneg reg \<Longrightarrow> bytes_nonneg reg' \<and> totalBytes reg' \<le> totalBytes reg"
proof -
  from assms obtain Q where Q: "all_surfaces reg' = filter Q (all_surfaces reg)" by (auto simp: shrunk_def)
  then show "surfaceCount reg' \<le> surfaceCount reg" by (simp add: surfaceCount_all)
  assume "bytes_nonneg reg"
  then show "bytes_nonneg reg' \<and> totalBytes reg' \<le> totalBytes reg"
    by (auto simp: bytes_nonneg_def Q totalBytes_all entry_total_def intro!: sum_list_filter_nonneg)
qed

lemma owned_length:
  assumes "reg_wf reg"
  shows "length (owned reg owner) = length (filter (\<lambda>(o', _). o' = owner) (all_surfaces reg))"
proof -
  have "length (filter (\<lambda>(o', _). o' = owner) (concat (map (\<lambda>(o', m). map (\<lambda>(s, e). (o', s, e)) m) xs))) =
      length (case map_of xs owner of None \<Rightarrow> [] | Some m \<Rightarrow> m)"
    if "wf_map xs" for xs :: "(string \<times> (string \<times> surface_entry) list) list"
    using that
  proof (induction xs)
    case (Cons x xs)
    then have "fst x = owner \<Longrightarrow> map_of xs owner = None"
      by (cases x) (auto simp: wf_map_Cons map_of_eq_None_iff)
    with Cons show ?case by (cases x) (auto simp: wf_map_Cons filter_map comp_def case_prod_beta')
  qed simp
  with assms show ?thesis by (simp add: all_surfaces_def owned_def reg_wf_def)
qed

lemma shrunk_owned:
  assumes "shrunk keep reg reg'" "reg_wf reg"
  shows "length (owned reg' owner) \<le> length (owned reg owner)"
proof -
  from assms obtain Q where Q: "all_surfaces reg' = filter Q (all_surfaces reg)" by (auto simp: shrunk_def)
  have "length (filter P (filter Q xs)) \<le> length (filter P xs)" for P :: "string \<times> string \<times> surface_entry \<Rightarrow> bool" and xs
    by (induction xs) auto
  then show ?thesis by (simp add: owned_length [OF assms(2)] owned_length [OF shrunk_wf [OF assms(1)]] Q)
qed

lemma delete_shrunk:
  assumes "reg_wf reg" "\<not> keep owner sid"
  shows "shrunk keep reg (delete_surface owner sid reg)"
  unfolding shrunk_def all_surfaces_delete
  by (intro conjI wf_delete_surface [OF assms(1)] exI [of _ "\<lambda>(o', s, _). \<not> (o' = owner \<and> s = sid)"])
     (use assms(2) in auto)

lemma shrunk_notify [simp]: "shrunk keep reg (notifyEviction o' s r reg') = shrunk keep reg reg'"
  by (simp add: shrunk_def)

lemma shrunk_drop: "shrunk keep reg reg' \<Longrightarrow> shrunk keep reg (drop_if_empty owner reg')"
  by (simp add: shrunk_def wf_drop all_surfaces_drop)

lemma evictOldest_shrunk: "reg_wf reg \<Longrightarrow> shrunk (\<lambda>o' s. o' \<noteq> owner) reg (evictOldest owner r reg)"
  by (auto simp: evictOldest_def delete_shrunk split: list.splits)

lemma evictGlobal_shrunk:
  "reg_wf reg \<Longrightarrow> shrunk (\<lambda>o' s. o' = xo \<and> s = xs) reg (snd (evictGlobal xo xs r reg))"
  by (auto simp: evictGlobal_def split: option.splits intro!: shrunk_drop delete_shrunk
      dest: global_victim_Some(2))

lemma evictGlobal_False:
  "evictGlobal xo xs r reg = (False, reg') \<longleftrightarrow>
     reg' = reg \<and> (\<forall>(o', s, _) \<in> set (all_surfaces reg). o' = xo \<and> s = xs)"
  unfolding global_victim_None [symmetric] by (auto simp: evictGlobal_def split: option.splits)

lemma evict_owned_shrunk: "reg_wf reg \<Longrightarrow> shrunk (\<lambda>o' s. o' \<noteq> owner) reg (evict_owned limits owner reg)"
proof (induction limits owner reg rule: evict_owned.induct)
  case (1 limits owner reg)
  have "shrunk (\<lambda>o' s. o' \<noteq> owner) reg (evictOldest owner ''owner-quota'' reg)"
    by (rule evictOldest_shrunk [OF "1.prems"])
  with 1 show ?case
    by (subst evict_owned.simps) (auto intro: shrunk_trans dest: shrunk_wf)
qed

lemma evict_owned_bound:
  "1 \<le> maxSurfacesPerOwner limits \<Longrightarrow>
     int (length (owned (evict_owned limits owner reg) owner)) < maxSurfacesPerOwner limits"
proof (induction limits owner reg rule: evict_owned.induct)
  case (1 limits owner reg)
  then show ?case by (subst evict_owned.simps) auto
qed

lemma evictGlobal_shrunkI:
  "reg_wf reg \<Longrightarrow> evictGlobal xo xs r reg = (b, reg') \<Longrightarrow> shrunk (\<lambda>o' s. o' = xo \<and> s = xs) reg reg'"
  using evictGlobal_shrunk [of reg xo xs r] by simp

lemma evict_total_unfold:
  "evictGlobal owner sid ''global-quota'' reg = (b, reg1) \<Longrightarrow> evict_total limits owner sid reg =
     (if int (surfaceCount reg) \<ge> maxSurfacesTotal limits then
        (if b then evict_total limits owner sid reg1 else (store_fail ''CONTROL_SURFACE_QUOTA_EXCEEDED''
             ''No surface is available for global quota eviction'', reg1))
      else (Inr (), reg))"
  by (subst evict_total.simps) (cases b; simp)

lemma ensureByteCapacity_unfold:
  "evictGlobal owner sid ''byte-quota'' reg = (b, reg1) \<Longrightarrow> ensureByteCapacity limits owner sid c x reg =
     (if totalBytes reg - x + c > maxBytesTotal limits then
        (if b then ensureByteCapacity limits owner sid c x reg1 else (store_fail ''CONTROL_CACHE_BYTES_EXCEEDED''
             ''Observation cache byte limit exceeded'', reg1))
      else (Inr (), reg))"
  by (subst ensureByteCapacity.simps) (cases b; simp)

lemma evict_total_shrunk:
  "reg_wf reg \<Longrightarrow> shrunk (\<lambda>o' s. o' = owner \<and> s = sid) reg (snd (evict_total limits owner sid reg))"
proof (induction limits owner sid reg rule: evict_total.induct)
  case (1 limits owner sid reg)
  obtain b reg1 where g: "evictGlobal owner sid ''global-quota'' reg = (b, reg1)" by fastforce
  note shr = evictGlobal_shrunkI [OF "1.prems" g]
  show ?case
  proof (cases "maxSurfacesTotal limits \<le> int (surfaceCount reg) \<and> b")
    case True
    with 1(1) [OF _ g [symmetric]] shrunk_wf [OF shr]
    have "shrunk (\<lambda>o' s. o' = owner \<and> s = sid) reg1 (snd (evict_total limits owner sid reg1))" by simp
    with shr True show ?thesis
      by (subst evict_total.simps) (auto simp: g intro: shrunk_trans)
  next
    case False
    with shr "1.prems" show ?thesis
      by (subst evict_total.simps) (auto simp: g split: bool.splits)
  qed
qed

lemma evict_total_Inr:
  "evict_total limits owner sid reg = (Inr u, reg') \<Longrightarrow> int (surfaceCount reg') < maxSurfacesTotal limits"
proof (induction limits owner sid reg rule: evict_total.induct)
  case (1 limits owner sid reg)
  obtain b reg1 where g: "evictGlobal owner sid ''global-quota'' reg = (b, reg1)" by fastforce
  from 1(2) have run: "(if int (surfaceCount reg) \<ge> maxSurfacesTotal limits then
        (if b then evict_total limits owner sid reg1 else (store_fail ''CONTROL_SURFACE_QUOTA_EXCEEDED''
             ''No surface is available for global quota eviction'', reg1))
      else (Inr (), reg)) = (Inr u, reg')"
    unfolding evict_total_unfold [OF g] .
  show ?case
    using run 1(1) [OF _ g [symmetric]] by (auto simp: store_fail_def split: if_splits)
qed

text \<open>With positive limits there is always a surface to evict for a new one.\<close>

lemma evict_total_succeeds:
  assumes "reg_wf reg" "1 \<le> maxSurfacesTotal limits" "find_entry reg owner sid = None"
  shows "\<exists>reg'. evict_total limits owner sid reg = (Inr (), reg')"
  using assms
proof (induction limits owner sid reg rule: evict_total.induct)
  case (1 limits owner sid reg)
  show ?case
  proof (cases "maxSurfacesTotal limits \<le> int (surfaceCount reg)")
    case True
    obtain b reg1 where g: "evictGlobal owner sid ''global-quota'' reg = (b, reg1)" by fastforce
    have b
    proof (rule ccontr)
      assume "\<not> b"
      with g have all: "\<forall>(o', s, _) \<in> set (all_surfaces reg). o' = owner \<and> s = sid"
        by (simp add: evictGlobal_False)
      have "all_surfaces reg \<noteq> []" using True "1.prems"(2) by (auto simp: surfaceCount_all)
      then obtain x where "x \<in> set (all_surfaces reg)" by (meson last_in_set)
      with all obtain e where "(owner, sid, e) \<in> set (all_surfaces reg)" by (cases x) auto
      with "1.prems"(1,3) show False by (simp add: all_surfaces_find)
    qed
    have shr: "shrunk (\<lambda>o' s. o' = owner \<and> s = sid) reg reg1"
      by (rule evictGlobal_shrunkI [OF "1.prems"(1) g])
    with shrunk_find(2) [OF shr "1.prems"(1)] "1.prems"
    have "reg_wf reg1" "find_entry reg1 owner sid = None" by (auto dest: shrunk_wf)
    with 1(1) [OF True g [symmetric] ] \<open>b\<close> "1.prems"(2) have "\<exists>reg'. evict_total limits owner sid reg1 = (Inr (), reg')"
      by simp
    with True g \<open>b\<close> show ?thesis by (subst evict_total.simps) simp
  qed (subst evict_total.simps, simp)
qed

lemma ensureByteCapacity_shrunk:
  "reg_wf reg \<Longrightarrow>
     shrunk (\<lambda>o' s. o' = owner \<and> s = sid) reg (snd (ensureByteCapacity limits owner sid c x reg))"
proof (induction limits owner sid c x reg rule: ensureByteCapacity.induct)
  case (1 limits owner sid c x reg)
  obtain b reg1 where g: "evictGlobal owner sid ''byte-quota'' reg = (b, reg1)" by fastforce
  note shr = evictGlobal_shrunkI [OF "1.prems" g]
  show ?case
  proof (cases "totalBytes reg - x + c > maxBytesTotal limits \<and> b")
    case True
    with 1(1) [OF _ g [symmetric]] shrunk_wf [OF shr]
    have "shrunk (\<lambda>o' s. o' = owner \<and> s = sid) reg1 (snd (ensureByteCapacity limits owner sid c x reg1))" by simp
    with shr True show ?thesis
      by (subst ensureByteCapacity.simps) (auto simp: g intro: shrunk_trans)
  next
    case False
    with shr "1.prems" show ?thesis
      by (subst ensureByteCapacity.simps) (auto simp: g split: bool.splits)
  qed
qed

lemma ensureByteCapacity_Inr:
  "ensureByteCapacity limits owner sid c x reg = (Inr u, reg') \<Longrightarrow> totalBytes reg' - x + c \<le> maxBytesTotal limits"
proof (induction limits owner sid c x reg rule: ensureByteCapacity.induct)
  case (1 limits owner sid c x reg)
  obtain b reg1 where g: "evictGlobal owner sid ''byte-quota'' reg = (b, reg1)" by fastforce
  from 1(2) have run: "(if totalBytes reg - x + c > maxBytesTotal limits then
        (if b then ensureByteCapacity limits owner sid c x reg1 else (store_fail ''CONTROL_CACHE_BYTES_EXCEEDED''
             ''Observation cache byte limit exceeded'', reg1))
      else (Inr (), reg)) = (Inr u, reg')"
    unfolding ensureByteCapacity_unfold [OF g] .
  show ?case
    using run 1(1) [OF _ g [symmetric]] by (auto simp: store_fail_def split: if_splits)
qed

text \<open>The byte budget is refused only when the candidate alone does not fit.\<close>

lemma ensureByteCapacity_Inl:
  assumes "ensureByteCapacity limits owner sid c x reg = (Inl e, reg')"
  shows "(\<forall>(o', s, _) \<in> set (all_surfaces reg'). o' = owner \<and> s = sid)
    \<and> totalBytes reg' - x + c > maxBytesTotal limits"
  using assms
proof (induction limits owner sid c x reg rule: ensureByteCapacity.induct)
  case (1 limits owner sid c x reg)
  obtain b reg1 where g: "evictGlobal owner sid ''byte-quota'' reg = (b, reg1)" by fastforce
  from 1(2) have run: "(if totalBytes reg - x + c > maxBytesTotal limits then
        (if b then ensureByteCapacity limits owner sid c x reg1 else (store_fail ''CONTROL_CACHE_BYTES_EXCEEDED''
             ''Observation cache byte limit exceeded'', reg1))
      else (Inr (), reg)) = (Inl e, reg')"
    unfolding ensureByteCapacity_unfold [OF g] .
  show ?case
  proof (cases b)
    case True
    with run 1(1) [OF _ g [symmetric]] show ?thesis by (auto split: if_splits)
  next
    case False
    with run g show ?thesis by (auto simp: evictGlobal_False store_fail_def split: if_splits)
  qed
qed

lemma purgeIdle_all: "all_surfaces (purgeIdle limits now reg) = filter (\<lambda>(_, _, e). \<not> idle limits now e) (all_surfaces reg)"
proof -
  have "concat (map (\<lambda>(o', m). map (\<lambda>(s, e). (o', s, e)) m)
      (filter (\<lambda>(_, m). m \<noteq> []) (map (\<lambda>(o', m). (o', filter (\<lambda>(_, e). \<not> idle limits now e) m)) xs))) =
      filter (\<lambda>(_, _, e). \<not> idle limits now e) (concat (map (\<lambda>(o', m). map (\<lambda>(s, e). (o', s, e)) m) xs))"
    for xs :: "(string \<times> (string \<times> surface_entry) list) list"
    by (induction xs) (auto simp: filter_map comp_def case_prod_beta')
  then show ?thesis by (simp add: all_surfaces_def purgeIdle_def)
qed

lemma purgeIdle_wf: "reg_wf reg \<Longrightarrow> reg_wf (purgeIdle limits now reg)"
  by (auto simp: reg_wf_def purgeIdle_def wf_map_def comp_def case_prod_beta' distinct_map_filter)

lemma purgeIdle_shrunk: "reg_wf reg \<Longrightarrow> shrunk (\<lambda>_ _. False) reg (purgeIdle limits now reg)"
  unfolding shrunk_def purgeIdle_all by (blast intro: purgeIdle_wf)

lemma purgeIdle_find:
  "reg_wf reg \<Longrightarrow> find_entry (purgeIdle limits now reg) o' s = Some e \<longleftrightarrow>
     find_entry reg o' s = Some e \<and> \<not> idle limits now e"
  by (simp add: all_surfaces_find [symmetric] purgeIdle_wf purgeIdle_all)

end
