(* ===== verification/ObservationPaging.thy ===== *)
theory ObservationPaging
  imports SurfaceRegistry
begin

text \<open>
  packages/control/src/observation-paging.ts: the difference between a baseline and the latest
  observation, and its delivery in pages. \<open>nextId\<close> threads the store's id sequence. A pending
  delta is one object shared by its caller and the continuation map: when the code sets its
  \<open>nextToken\<close>, the stored copy under its token changes too.
\<close>

section \<open>Identifiers\<close>

definition pad_start :: "nat \<Rightarrow> char \<Rightarrow> string \<Rightarrow> string" where
  "pad_start n c s = replicate (n - length s) c @ s"

definition nextId :: "string \<Rightarrow> nat \<Rightarrow> string \<times> nat" where
  "nextId prefix seq = (prefix @ pad_start 8 (CHR ''0'') (show_base 36 (seq + 1)), seq + 1)"

section \<open>Pending deltas\<close>

definition image_value :: "control_observation \<Rightarrow> jsv" where
  "image_value ob = (case image ob of None \<Rightarrow> VNull | Some im \<Rightarrow> image_json im)"

definition deltaMetadata :: "control_observation \<Rightarrow> control_observation \<Rightarrow> control_delta_metadata" where
  "deltaMetadata latest baseline =
     (let imageChanged = (stable_serialize (image_value baseline) \<noteq> stable_serialize (image_value latest)) in
      \<lparr>meta_generation = generation latest, meta_policyRevision = policyRevision latest,
       meta_mode = obs_mode latest, meta_observedAt = observedAt latest,
       meta_lastValidatedAt = lastValidatedAt latest,
       meta_image = (if imageChanged then Some (image latest) else None),
       meta_imageChanged = imageChanged\<rparr>)"

definition pendingBase :: "control_observation \<Rightarrow> string \<Rightarrow> int \<Rightarrow> pending_delta" where
  "pendingBase latest base pageSize =
     \<lparr>pd_full = False, pd_pageSize = pageSize, pd_baseObservationId = base,
      pd_observationId = observationId latest, pd_surfaceId = surfaceId latest,
      pd_revision = revision latest, pd_freshness = freshness latest, pd_watchHealth = watchHealth latest,
      pd_changes = [], pd_fullNodes = None, pd_fullObservation = None, pd_offset = 0,
      pd_nextToken = None, pd_imageSent = False, pd_metadata = deltaMetadata latest latest,
      pd_coverage = coverage latest\<rparr>"

definition node_map :: "control_observation \<Rightarrow> (string, control_node) jsmap" where
  "node_map ob = map_from (map (\<lambda>n. (nref n, n)) (projected ob))"

definition diffChanges :: "control_observation \<Rightarrow> control_observation \<Rightarrow> pending_change list" where
  "diffChanges baseline latest =
     (let before = node_map baseline;
          after = node_map latest;
          generationChanged = (generation latest \<noteq> generation baseline);
          remove = (if generationChanged then jkeys before
                    else filter (\<lambda>r. r \<notin> set (jkeys after)) (jkeys before)) in
      map RemoveRef remove @
      map (\<lambda>(_, n). UpsertNode n)
        (filter (\<lambda>(r, n). generationChanged \<or> r \<notin> set (jkeys before) \<or>
             (case map_of before r of
                None \<Rightarrow> True
              | Some old \<Rightarrow> stable_serialize (node_json old) \<noteq> stable_serialize (node_json n))) after))"

definition deltaPending :: "control_observation \<Rightarrow> control_observation \<Rightarrow> string \<Rightarrow> int \<Rightarrow> pending_delta" where
  "deltaPending baseline latest base pageSize =
     (pendingBase latest base pageSize)\<lparr>pd_full := False, pd_changes := diffChanges baseline latest,
        pd_metadata := deltaMetadata latest baseline\<rparr>"

definition fullPending :: "control_observation \<Rightarrow> string \<Rightarrow> int \<Rightarrow> pending_delta" where
  "fullPending latest base pageSize =
     (pendingBase latest base pageSize)\<lparr>pd_full := True, pd_changes := [],
        pd_fullNodes := Some (projected latest), pd_fullObservation := Some latest,
        pd_metadata := deltaMetadata latest latest\<rparr>"

section \<open>Continuations\<close>

definition resumeContinuation ::
    "surface_entry \<Rightarrow> string \<Rightarrow> string \<Rightarrow> control_observation \<Rightarrow> int \<Rightarrow> store_error + pending_delta" where
  "resumeContinuation e token base latest maxNodes =
     (case map_of (continuations e) token of
        None \<Rightarrow> store_fail ''CONTROL_DELTA_CONTINUATION_STALE''
          ''Delta continuation no longer matches the current observation''
      | Some p \<Rightarrow>
          if pd_baseObservationId p \<noteq> base \<or> pd_observationId p \<noteq> observationId latest then
            store_fail ''CONTROL_DELTA_CONTINUATION_STALE''
              ''Delta continuation no longer matches the current observation''
          else if pd_pageSize p \<noteq> maxNodes then
            store_fail ''CONTROL_DELTA_CONTINUATION_MISMATCH''
              ''Delta continuation must use its original page size''
          else Inr p)"

definition dropOtherContinuations :: "surface_entry \<Rightarrow> string list \<Rightarrow> surface_entry" where
  "dropOtherContinuations e keep =
     e\<lparr>continuations := filter (\<lambda>(t, _). t \<in> set keep) (continuations e)\<rparr>"

definition nextContinuation ::
    "surface_entry \<Rightarrow> string \<Rightarrow> pending_delta \<Rightarrow> nat \<Rightarrow> nat \<Rightarrow> nat
     \<Rightarrow> control_delta_continuation \<times> surface_entry \<times> nat" where
  "nextContinuation e token p nextOffset totalChanges seq =
     (let (nextTok, e1, seq1) =
        (case pd_nextToken p of
           Some t \<Rightarrow> (t, e, seq)
         | None \<Rightarrow>
             (let (created, seq') = nextId (if pd_full p then ''f'' else ''c'') seq;
                  stored = AList.update token (p\<lparr>pd_nextToken := Some created\<rparr>) (continuations e);
                  follow = p\<lparr>pd_offset := nextOffset, pd_nextToken := None, pd_imageSent := True\<rparr> in
              (created, e\<lparr>continuations := AList.update created follow stored\<rparr>, seq'))) in
      (\<lparr>cont_token = nextTok, cont_baseObservationId = pd_baseObservationId p,
        cont_observationId = pd_observationId p, cont_offset = nextOffset,
        cont_totalChanges = totalChanges\<rparr>,
       dropOtherContinuations e1 [token, nextTok], seq1))"

section \<open>Pages\<close>

definition pageMetadata :: "pending_delta \<Rightarrow> control_delta_metadata" where
  "pageMetadata p =
     (if meta_imageChanged (pd_metadata p) \<and> \<not> pd_imageSent p then pd_metadata p
      else (pd_metadata p)\<lparr>meta_image := None, meta_imageChanged := False\<rparr>)"

definition completeDelta ::
    "pending_delta \<Rightarrow> string \<Rightarrow> control_node list \<Rightarrow> string list \<Rightarrow> control_delta_continuation option
     \<Rightarrow> control_delta_metadata \<Rightarrow> int \<Rightarrow> control_delta" where
  "completeDelta p applied upsert remove continuation metadata omitted =
     \<lparr>d_baseObservationId = pd_baseObservationId p, d_observationId = pd_observationId p,
      d_appliedObservationId = applied, d_surfaceId = pd_surfaceId p, d_revision = pd_revision p,
      d_freshness = pd_freshness p, d_watchHealth = pd_watchHealth p, d_upsert = upsert,
      d_remove = remove, d_complete = (continuation = None), d_continuation = continuation,
      d_metadata = metadata, d_truncated = (continuation \<noteq> None \<or> cov_truncated (pd_coverage p)),
      d_coverage = (pd_coverage p)\<lparr>cov_truncated := cov_truncated (pd_coverage p) \<or> continuation \<noteq> None,
        cov_omittedNodes := cov_omittedNodes (pd_coverage p) + max 0 omitted\<rparr>\<rparr>"

definition emitFullPage ::
    "surface_entry \<Rightarrow> string \<Rightarrow> pending_delta \<Rightarrow> int \<Rightarrow> nat
     \<Rightarrow> control_observation_result \<times> surface_entry \<times> nat" where
  "emitFullPage e token p maxNodes seq =
     (let ns = (case pd_fullNodes p of None \<Rightarrow> [] | Some ns \<Rightarrow> ns);
          page = take (nat maxNodes) (drop (pd_offset p) ns);
          nextOffset = pd_offset p + length page;
          complete = (nextOffset \<ge> length ns);
          (continuation, e1, seq1) =
            (if complete then (None, dropOtherContinuations e [token], seq)
             else (let (c, e', seq') = nextContinuation e token p nextOffset (length ns) seq
                   in (Some c, e', seq')));
          source = the (pd_fullObservation p);
          ob = source\<lparr>image := (if pd_imageSent p then None else image source), nodes := page,
             coverage := (pd_coverage p)\<lparr>cov_truncated := cov_truncated (pd_coverage p) \<or> \<not> complete,
               cov_omittedNodes := cov_omittedNodes (pd_coverage p)
                 + max 0 (int (length ns) - int nextOffset)\<rparr>\<rparr> in
      (Full \<lparr>f_observation = ob, f_complete = complete,
         f_appliedObservationId = (if complete then Some (pd_observationId p) else None),
         f_continuation = continuation\<rparr>, e1, seq1))"

definition page_upsert :: "pending_change list \<Rightarrow> control_node list" where
  "page_upsert page = concat (map (\<lambda>c. case c of UpsertNode n \<Rightarrow> [n] | RemoveRef _ \<Rightarrow> []) page)"

text \<open>An empty reference is falsy, so the code leaves its removal out.\<close>

definition page_remove :: "pending_change list \<Rightarrow> string list" where
  "page_remove page =
     concat (map (\<lambda>c. case c of RemoveRef r \<Rightarrow> if r = [] then [] else [r] | UpsertNode _ \<Rightarrow> []) page)"

definition emitDelta ::
    "surface_entry \<Rightarrow> string \<Rightarrow> pending_delta \<Rightarrow> int \<Rightarrow> nat \<Rightarrow> control_delta \<times> surface_entry \<times> nat" where
  "emitDelta e token p maxNodes seq =
     (let page = take (nat maxNodes) (drop (pd_offset p) (pd_changes p));
          nextOffset = pd_offset p + length page;
          complete = (nextOffset \<ge> length (pd_changes p));
          (continuation, e1, seq1) =
            (if complete then (None, dropOtherContinuations e [token], seq)
             else (let (c, e', seq') = nextContinuation e token p nextOffset (length (pd_changes p)) seq
                   in (Some c, e', seq'))) in
      (completeDelta p (if complete then pd_observationId p else pd_baseObservationId p)
         (page_upsert page) (page_remove page) continuation (pageMetadata p)
         (int (length (pd_changes p)) - int nextOffset), e1, seq1))"

text \<open>The page the store answers with: full or delta, as the pending object says.\<close>

definition emit_page ::
    "surface_entry \<Rightarrow> string \<Rightarrow> pending_delta \<Rightarrow> int \<Rightarrow> nat
     \<Rightarrow> control_observation_result \<times> surface_entry \<times> nat" where
  "emit_page e token p maxNodes seq =
     (if pd_full p then emitFullPage e token p maxNodes seq
      else (let (d, e', seq') = emitDelta e token p maxNodes seq in (Delta d, e', seq')))"

fun continuation_of :: "control_observation_result \<Rightarrow> control_delta_continuation option" where
  "continuation_of (Delta d) = d_continuation d"
| "continuation_of (Full f) = f_continuation f"

section \<open>The difference, applied\<close>

fun apply_change :: "pending_change \<Rightarrow> (string, control_node) jsmap \<Rightarrow> (string, control_node) jsmap" where
  "apply_change (UpsertNode n) m = AList.update (nref n) n m"
| "apply_change (RemoveRef r) m = AList.delete r m"

definition node_fields :: "control_node \<Rightarrow> (string \<times> jsv) list" where
  "node_fields n = [(''ref'', VStr (nref n)), (''role'', VStr (nrole n)), (''name'', VStr (nname n))]
      @ opt_field ''value'' VStr (nvalue n) @ opt_field ''enabled'' VBool (nenabled n)
      @ opt_field ''toggleState'' (\<lambda>s. VStr (toggle_text s)) (ntoggleState n)
      @ [(''actions'', VArr (map (\<lambda>a. VStr (kind_text a)) (nactions n)))]
      @ opt_field ''parentRef'' VStr (nparentRef n)
      @ opt_field ''childRefs'' (\<lambda>rs. VArr (map VStr rs)) (nchildRefs n)"

lemma node_json_leaf: "nchildren n = None \<Longrightarrow> node_json n = VObj (node_fields n)"
  by (cases n) (simp add: node_fields_def)

lemma node_fields_wf: "wf_map (node_fields n)"
  by (simp add: node_fields_def wf_map_def split: option.splits)

lemma node_fields_lookup:
  "map_of (node_fields n) ''ref'' = Some (VStr (nref n))"
  "map_of (node_fields n) ''role'' = Some (VStr (nrole n))"
  "map_of (node_fields n) ''name'' = Some (VStr (nname n))"
  "map_of (node_fields n) ''value'' = map_option VStr (nvalue n)"
  "map_of (node_fields n) ''enabled'' = map_option VBool (nenabled n)"
  "map_of (node_fields n) ''toggleState'' = map_option (\<lambda>s. VStr (toggle_text s)) (ntoggleState n)"
  "map_of (node_fields n) ''actions'' = Some (VArr (map (\<lambda>a. VStr (kind_text a)) (nactions n)))"
  "map_of (node_fields n) ''parentRef'' = map_option VStr (nparentRef n)"
  "map_of (node_fields n) ''childRefs'' = map_option (\<lambda>rs. VArr (map VStr rs)) (nchildRefs n)"
  by (simp_all add: node_fields_def split: option.splits)

lemma node_fields_json: "wf_jsv (VObj (node_fields n))" "no_undef (VObj (node_fields n))"
proof -
  have "\<forall>m \<in> set (node_fields n). wf_jsv (snd m) \<and> no_undef (snd m) \<and> snd m \<noteq> VUndef"
    by (auto simp: node_fields_def split: option.splits)
  then show "wf_jsv (VObj (node_fields n))" "no_undef (VObj (node_fields n))"
    using node_fields_wf [of n] by (auto simp: list_all_iff)
qed

lemma map_VStr_inject [simp]: "map VStr xs = map VStr ys \<longleftrightarrow> xs = ys"
  by (rule inj_map_eq_map) (simp add: inj_def)

lemma map_kind_inject: "map (\<lambda>a. VStr (kind_text a)) xs = map (\<lambda>a. VStr (kind_text a)) ys \<longleftrightarrow> xs = ys"
  by (rule inj_map_eq_map) (simp add: inj_def)

lemma map_option_eq_inj: "(\<And>x y. f x = f y \<Longrightarrow> x = y) \<Longrightarrow> map_option f a = map_option f b \<Longrightarrow> a = b"
  by (cases a; cases b) auto

lemma stable_node_inject:
  assumes "nchildren a = None" "nchildren b = None"
    and "stable_serialize (node_json a) = stable_serialize (node_json b)"
  shows "a = b"
proof -
  have "sorted_obj locale_key (VObj (node_fields a)) = sorted_obj locale_key (VObj (node_fields b))"
    using assms(3) unfolding node_json_leaf [OF assms(1)] node_json_leaf [OF assms(2)]
    by (intro stable_inject node_fields_json)
  from sorted_obj_lookup [OF this node_fields_wf node_fields_wf]
  have eq: "map_option (sorted_obj locale_key) (map_of (node_fields a) k) =
      map_option (sorted_obj locale_key) (map_of (node_fields b) k)" for k .
  note l = eq [of "''ref''"] eq [of "''role''"] eq [of "''name''"] eq [of "''value''"] eq [of "''enabled''"]
    eq [of "''toggleState''"] eq [of "''actions''"] eq [of "''parentRef''"] eq [of "''childRefs''"]
  have "nref a = nref b" "nrole a = nrole b" "nname a = nname b"
    using l(1-3) by (simp_all add: node_fields_lookup)
  moreover have "nvalue a = nvalue b" "nparentRef a = nparentRef b" "nenabled a = nenabled b"
    "ntoggleState a = ntoggleState b"
    using l(4,8,5,6) by (auto simp: node_fields_lookup option.map_comp comp_def intro: map_option_eq_inj [rotated])
  moreover have "nactions a = nactions b" using l(7) by (simp add: node_fields_lookup comp_def map_kind_inject)
  moreover have "nchildRefs a = nchildRefs b"
    using l(9) by (auto simp: node_fields_lookup option.map_comp comp_def intro: map_option_eq_inj [rotated])
  ultimately show ?thesis using assms(1,2) by (cases a; cases b) simp
qed

lemma map_of_removes:
  "map_of (fold apply_change (map RemoveRef rs) m) = (\<lambda>k. if k \<in> set rs then None else map_of m k)"
  by (induction rs arbitrary: m) auto

lemma map_of_upserts:
  assumes "\<forall>(r, n) \<in> set us. nref n = r" "wf_map us"
  shows "map_of (fold apply_change (map (\<lambda>(_, n). UpsertNode n) us) m) k =
     (case map_of us k of Some n \<Rightarrow> Some n | None \<Rightarrow> map_of m k)"
  using assms
proof (induction us arbitrary: m)
  case (Cons u us)
  obtain r n where u: "u = (r, n)" by (cases u)
  from Cons.prems have "map_of us r = None" by (auto simp: u wf_map_Cons map_of_eq_None_iff)
  with Cons show ?case by (auto simp: u wf_map_Cons split: option.splits)
qed simp

lemma node_map_wf [simp]: "wf_map (node_map ob)"
  by (simp add: node_map_def)

lemma projected_no_children: "n \<in> set (projectNodes ns [] parent) \<Longrightarrow> nchildren n = None"
proof (induction ns arbitrary: parent rule: measure_induct_rule [of "size_list size"])
  case (less ns)
  show ?case
  proof (cases ns)
    case (Cons x rest)
    have "nchildren n = None" if "n \<in> set (projectNodes rest [] parent)"
      by (rule less.IH [OF _ that]) (simp add: Cons)
    moreover have "nchildren n = None"
      if "nchildren x = Some ks" "n \<in> set (projectNodes ks [] q)" for ks q
      by (rule less.IH [OF _ that(2)]) (use that(1) in \<open>cases x; simp add: Cons\<close>)
    ultimately show ?thesis
      using less.prems by (cases "nchildren x") (auto simp: Cons projectNodes_Cons)
  qed (use less.prems in simp)
qed

lemma node_map_entry:
  assumes "map_of (node_map ob) r = Some n"
  shows "nref n = r" "nchildren n = None" "n \<in> set (projected ob)"
proof -
  from assms have "(r, n) \<in> set (node_map ob)" by (rule map_of_SomeD)
  then have "(r, n) \<in> (\<lambda>n. (nref n, n)) ` set (projected ob)"
    using set_map_from by (fastforce simp: node_map_def)
  then show "nref n = r" "nchildren n = None" "n \<in> set (projected ob)"
    by (auto intro: projected_no_children)
qed

lemma diff_applied:
  "map_of (fold apply_change (diffChanges baseline latest) (node_map baseline)) = map_of (node_map latest)"
proof
  fix k
  define B A where "B = node_map baseline" and "A = node_map latest"
  define gc where "gc = (generation latest \<noteq> generation baseline)"
  define rs where "rs = (if gc then jkeys B else filter (\<lambda>r. r \<notin> set (jkeys A)) (jkeys B))"
  define keep where "keep = (\<lambda>(r, n). gc \<or> r \<notin> set (jkeys B) \<or>
     (case map_of B r of None \<Rightarrow> True
      | Some old \<Rightarrow> stable_serialize (node_json old) \<noteq> stable_serialize (node_json n)))"
  have changes: "diffChanges baseline latest = map RemoveRef rs @ map (\<lambda>(_, n). UpsertNode n) (filter keep A)"
    by (simp add: diffChanges_def Let_def B_def A_def gc_def rs_def keep_def)
  have wfA: "wf_map A" "wf_map (filter keep A)" by (simp_all add: A_def wf_map_filter)
  have refs: "\<forall>(r, n) \<in> set (filter keep A). nref n = r"
    using node_map_entry(1) by (auto simp: A_def map_of_mem [OF node_map_wf])
  have filt: "map_of (filter keep A) k = (case map_of A k of Some n \<Rightarrow> if keep (k, n) then Some n else None | None \<Rightarrow> None)"
  proof (cases "map_of (filter keep A) k")
    case None
    then have "\<not> keep (k, n)" if "map_of A k = Some n" for n
      using that map_of_mem [OF wfA(1), of k n] map_of_mem [OF wfA(2), of k n] by auto
    with None show ?thesis by (auto split: option.splits)
  next
    case (Some n)
    then show ?thesis using map_of_mem [OF wfA(1), of k n] map_of_mem [OF wfA(2), of k n] by auto
  qed
  have run: "map_of (fold apply_change (diffChanges baseline latest) B) k =
     (case map_of (filter keep A) k of Some n \<Rightarrow> Some n
      | None \<Rightarrow> if k \<in> set rs then None else map_of B k)"
    unfolding changes fold_append comp_def map_of_upserts [OF refs wfA(2)] map_of_removes by simp
  show "map_of (fold apply_change (diffChanges baseline latest) (node_map baseline)) k = map_of (node_map latest) k"
  proof (cases "map_of A k")
    case None
    then have "k \<in> set rs \<or> map_of B k = None"
      by (auto simp: rs_def map_of_eq_None_iff)
    with run filt None show ?thesis by (auto simp: A_def B_def)
  next
    case (Some n)
    show ?thesis
    proof (cases "keep (k, n)")
      case True
      with run filt Some show ?thesis by (simp add: A_def B_def)
    next
      case False
      then obtain old where old: "map_of B k = Some old"
        and same: "stable_serialize (node_json old) = stable_serialize (node_json n)" and "\<not> gc"
        by (auto simp: keep_def split: option.splits)
      have "old = n"
        by (rule stable_node_inject [OF _ _ same])
           (use node_map_entry(2) old Some in \<open>auto simp: A_def B_def\<close>)
      moreover have "k \<notin> set rs" using \<open>\<not> gc\<close> Some by (force simp: rs_def dest: map_of_SomeD)
      ultimately show ?thesis using run filt Some False old by (simp add: A_def B_def)
    qed
  qed
qed

section \<open>A client that follows the continuations\<close>

text \<open>
  The client asks for the page of a token and goes on with the token the page names. \<open>n\<close>
  bounds the number of requests; \<open>collect_pages\<close> shows one per remaining change is enough.
\<close>

fun collect :: "nat \<Rightarrow> surface_entry \<Rightarrow> string \<Rightarrow> string \<Rightarrow> control_observation \<Rightarrow> int \<Rightarrow> nat
    \<Rightarrow> store_error + control_observation_result list" where
  "collect 0 e token base latest maxNodes seq = store_fail ''CLIENT_GAVE_UP'' []"
| "collect (Suc n) e token base latest maxNodes seq =
     tryE (resumeContinuation e token base latest maxNodes) (\<lambda>p.
       (let (r, e', seq') = emit_page e token p maxNodes seq in
        case continuation_of r of
          None \<Rightarrow> Inr [r]
        | Some c \<Rightarrow> tryE (collect n e' (cont_token c) base latest maxNodes seq') (\<lambda>rs. Inr (r # rs))))"

definition page_total :: "pending_delta \<Rightarrow> nat" where
  "page_total p = (if pd_full p then length (case pd_fullNodes p of None \<Rightarrow> [] | Some ns \<Rightarrow> ns)
     else length (pd_changes p))"

text \<open>What a page of a pending delta carries.\<close>

fun carries :: "pending_delta \<Rightarrow> nat \<Rightarrow> nat \<Rightarrow> control_observation_result \<Rightarrow> bool" where
  "carries p off n (Delta d) \<longleftrightarrow> \<not> pd_full p \<and>
     d_upsert d = page_upsert (take n (drop off (pd_changes p))) \<and>
     d_remove d = page_remove (take n (drop off (pd_changes p))) \<and>
     d_observationId d = pd_observationId p \<and>
     d_complete d = (off + n \<ge> page_total p) \<and>
     d_appliedObservationId d = (if off + n \<ge> page_total p then pd_observationId p else pd_baseObservationId p)"
| "carries p off n (Full f) \<longleftrightarrow> pd_full p \<and>
     nodes (f_observation f) = take n (drop off (case pd_fullNodes p of None \<Rightarrow> [] | Some ns \<Rightarrow> ns)) \<and>
     f_complete f = (off + n \<ge> page_total p) \<and>
     f_appliedObservationId f = (if off + n \<ge> page_total p then Some (pd_observationId p) else None)"

lemma map_of_filter_key: "P k \<Longrightarrow> map_of (filter (\<lambda>(t, _). P t) m) k = map_of m k"
  by (induction m) auto

lemma nextContinuation_stores:
  assumes "nextContinuation e token p off tot seq = (c, e', seq')" "pd_nextToken p = None"
  shows "map_of (continuations e') (cont_token c) =
      Some (p\<lparr>pd_offset := off, pd_nextToken := None, pd_imageSent := True\<rparr>)"
  using assms
  by (auto simp: nextContinuation_def dropOtherContinuations_def Let_def map_of_filter_key split: prod.splits)

lemma emit_page_step:
  assumes emit: "emit_page e token p maxNodes seq = (r, e', seq')"
    and "pd_nextToken p = None" "0 < maxNodes" "pd_offset p \<le> page_total p"
  shows "carries p (pd_offset p) (nat maxNodes) r"
    and "pd_offset p + nat maxNodes \<ge> page_total p \<longleftrightarrow> continuation_of r = None"
    and "continuation_of r = Some c \<Longrightarrow> map_of (continuations e') (cont_token c) =
      Some (p\<lparr>pd_offset := pd_offset p + nat maxNodes, pd_nextToken := None, pd_imageSent := True\<rparr>)"
proof -
  obtain c1 e1 s1 where nc: "nextContinuation e token p (pd_offset p + nat maxNodes) (page_total p) seq = (c1, e1, s1)"
    by (cases "nextContinuation e token p (pd_offset p + nat maxNodes) (page_total p) seq") auto
  note st = nextContinuation_stores [OF nc assms(2)]
  show "carries p (pd_offset p) (nat maxNodes) r"
    using emit assms(3,4)
    by (auto simp: emit_page_def emitFullPage_def emitDelta_def completeDelta_def Let_def page_total_def
        min_def split: if_splits prod.splits)
  show "pd_offset p + nat maxNodes \<ge> page_total p \<longleftrightarrow> continuation_of r = None"
    using emit assms(3,4)
    by (auto simp: emit_page_def emitFullPage_def emitDelta_def completeDelta_def Let_def page_total_def
        min_def split: if_splits prod.splits)
  show "map_of (continuations e') (cont_token c) =
      Some (p\<lparr>pd_offset := pd_offset p + nat maxNodes, pd_nextToken := None, pd_imageSent := True\<rparr>)"
    if "continuation_of r = Some c"
    using emit assms(3,4) that nc st
    by (auto simp: emit_page_def emitFullPage_def emitDelta_def completeDelta_def Let_def page_total_def
        min_def split: if_splits prod.splits)
qed

lemma page_total_update [simp]:
  "page_total (p\<lparr>pd_offset := a, pd_nextToken := b, pd_imageSent := c\<rparr>) = page_total p"
  by (simp add: page_total_def)

lemma carries_update [simp]:
  "carries (p\<lparr>pd_offset := a, pd_nextToken := b, pd_imageSent := c\<rparr>) off n r = carries p off n r"
  by (cases r) simp_all

fun page_run :: "pending_delta \<Rightarrow> nat \<Rightarrow> nat \<Rightarrow> control_observation_result list \<Rightarrow> bool" where
  "page_run p off k [] = False"
| "page_run p off k (r # rs) = (carries p off k r \<and>
     (if rs = [] then off + k \<ge> page_total p else off + k < page_total p \<and> page_run p (off + k) k rs))"

lemma page_run_update [simp]:
  "page_run (p\<lparr>pd_offset := a, pd_nextToken := b, pd_imageSent := c\<rparr>) off n rs = page_run p off n rs"
  by (induction rs arbitrary: off) simp_all

lemma collect_pages:
  assumes "map_of (continuations e) token = Some p" "pd_nextToken p = None"
    and "pd_baseObservationId p = base" "pd_observationId p = observationId latest"
    and "pd_pageSize p = maxNodes" "0 < maxNodes" "pd_offset p \<le> page_total p"
    and "page_total p - pd_offset p \<le> n" "1 \<le> n"
  shows "\<exists>rs. collect n e token base latest maxNodes seq = Inr rs
    \<and> page_run p (pd_offset p) (nat maxNodes) rs"
  using assms
proof (induction n arbitrary: e token p seq)
  case (Suc n)
  obtain r e' seq' where emit: "emit_page e token p maxNodes seq = (r, e', seq')"
    by (cases "emit_page e token p maxNodes seq") auto
  note step = emit_page_step [OF emit Suc.prems(2,6,7)]
  have resume: "resumeContinuation e token base latest maxNodes = Inr p"
    using Suc.prems(1,3-5) by (simp add: resumeContinuation_def)
  show ?case
  proof (cases "continuation_of r")
    case None
    with step(2) have "pd_offset p + nat maxNodes \<ge> page_total p" by simp
    with step(1) show ?thesis by (simp add: resume emit None)
  next
    case (Some c)
    define q where "q = p\<lparr>pd_offset := pd_offset p + nat maxNodes, pd_nextToken := None, pd_imageSent := True\<rparr>"
    have lt: "pd_offset p + nat maxNodes < page_total p" using step(2) Some by auto
    have "\<exists>rs. collect n e' (cont_token c) base latest maxNodes seq' = Inr rs
        \<and> page_run q (pd_offset q) (nat maxNodes) rs"
    proof (rule Suc.IH)
      show "map_of (continuations e') (cont_token c) = Some q" using step(3) [OF Some] by (simp add: q_def)
      show "page_total q - pd_offset q \<le> n" using Suc.prems(6,8) by (simp add: q_def)
      show "1 \<le> n" using Suc.prems(6,8) lt by simp
    qed (use Suc.prems lt in \<open>simp_all add: q_def\<close>)
    then obtain rs where rs: "collect n e' (cont_token c) base latest maxNodes seq' = Inr rs"
      "page_run p (pd_offset p + nat maxNodes) (nat maxNodes) rs" by (auto simp: q_def)
    have "rs \<noteq> []" using rs(2) by (cases rs) auto
    with step(1) lt rs show ?thesis by (simp add: resume emit Some)
  qed
qed simp

text \<open>The client's map after a delta page: removals first, then the nodes it received.\<close>

fun apply_result :: "(string, control_node) jsmap \<Rightarrow> control_observation_result \<Rightarrow> (string, control_node) jsmap" where
  "apply_result m (Delta d) =
     fold (\<lambda>n m. AList.update (nref n) n m) (d_upsert d) (fold AList.delete (d_remove d) m)"
| "apply_result m (Full f) = map_from (map (\<lambda>n. (nref n, n)) (nodes (f_observation f)))"

definition removes_first :: "pending_change list \<Rightarrow> bool" where
  "removes_first cs \<longleftrightarrow> (\<exists>rs us. cs = map RemoveRef rs @ map UpsertNode us \<and> [] \<notin> set rs)"

lemma removes_first_take: "removes_first cs \<Longrightarrow> removes_first (take n cs)"
  unfolding removes_first_def by (auto simp: take_map dest: in_set_takeD) (metis in_set_takeD)

lemma removes_first_drop: "removes_first cs \<Longrightarrow> removes_first (drop n cs)"
  unfolding removes_first_def by (auto simp: drop_map) (metis in_set_dropD)

lemma apply_page:
  assumes "removes_first cs"
  shows "fold (\<lambda>n m. AList.update (nref n) n m) (page_upsert cs) (fold AList.delete (page_remove cs) m)
    = fold apply_change cs m"
proof -
  from assms obtain rs us where cs: "cs = map RemoveRef rs @ map UpsertNode us" and ne: "[] \<notin> set rs"
    by (auto simp: removes_first_def)
  have "page_upsert (map RemoveRef rs @ map UpsertNode us) = us"
  proof -
    have "page_upsert (map RemoveRef rs) = []" by (induction rs) (auto simp: page_upsert_def)
    moreover have "page_upsert (map UpsertNode us) = us" by (induction us) (auto simp: page_upsert_def)
    ultimately show ?thesis by (simp add: page_upsert_def)
  qed
  moreover have "page_remove (map RemoveRef rs @ map UpsertNode us) = rs"
  proof -
    have "page_remove (map RemoveRef rs) = rs" using ne by (induction rs) (auto simp: page_remove_def)
    moreover have "page_remove (map UpsertNode us) = []" by (induction us) (auto simp: page_remove_def)
    ultimately show ?thesis by (simp add: page_remove_def)
  qed
  moreover have "fold apply_change (map RemoveRef rs) m = fold AList.delete rs m" for m
    by (induction rs arbitrary: m) auto
  moreover have "fold apply_change (map UpsertNode us) m = fold (\<lambda>n m. AList.update (nref n) n m) us m" for m
    by (induction us arbitrary: m) auto
  ultimately show ?thesis by (simp add: cs)
qed

lemma take_drop_end: "length xs \<le> off + k \<Longrightarrow> take k (drop off xs) = drop off xs"
  by (simp add: le_diff_conv add.commute)

lemma page_run_applied:
  assumes "page_run p off k rs" "\<not> pd_full p" "removes_first (pd_changes p)"
  shows "foldl apply_result m rs = fold apply_change (drop off (pd_changes p)) m"
  using assms(1)
proof (induction rs arbitrary: off m)
  case (Cons r rs)
  from Cons.prems assms(2) obtain d where r: "r = Delta d" by (cases r) auto
  have page: "apply_result m r = fold apply_change (take k (drop off (pd_changes p))) m"
    using Cons.prems apply_page [OF removes_first_take [OF removes_first_drop [OF assms(3)]]] by (simp add: r)
  show ?case
  proof (cases "rs = []")
    case True
    with Cons.prems assms(2) page show ?thesis
      using take_drop_end [of "pd_changes p" off k] by (simp add: page_total_def)
  next
    case False
    with Cons.prems have "page_run p (off + k) k rs" by simp
    from Cons.IH [OF this] have "foldl apply_result m (r # rs) =
        fold apply_change (take k (drop off (pd_changes p)) @ drop (off + k) (pd_changes p)) m"
      by (simp add: page)
    also have "take k (drop off (pd_changes p)) @ drop (off + k) (pd_changes p) = drop off (pd_changes p)"
      by (metis append_take_drop_id drop_drop add.commute)
    finally show ?thesis .
  qed
qed simp

fun result_nodes :: "control_observation_result \<Rightarrow> control_node list" where
  "result_nodes (Full f) = nodes (f_observation f)"
| "result_nodes (Delta d) = []"

lemma page_run_nodes:
  assumes "page_run p off k rs" "pd_full p" "pd_fullNodes p = Some ns"
  shows "concat (map result_nodes rs) = drop off ns"
  using assms(1)
proof (induction rs arbitrary: off)
  case (Cons r rs)
  from Cons.prems assms(2) obtain f where r: "r = Full f" by (cases r) auto
  have page: "result_nodes r = take k (drop off ns)" using Cons.prems assms(3) by (simp add: r)
  show ?case
  proof (cases "rs = []")
    case True
    with Cons.prems assms(2,3) page show ?thesis
      using take_drop_end [of ns off k] by (simp add: page_total_def)
  next
    case False
    with Cons.prems have "page_run p (off + k) k rs" by simp
    from Cons.IH [OF this] show ?thesis
      by (simp add: page) (metis append_take_drop_id drop_drop add.commute)
  qed
qed simp

lemma diff_length: "length (diffChanges baseline latest) \<le> length (node_map baseline) + length (node_map latest)"
  unfolding diffChanges_def Let_def by (simp add: add_mono length_filter_le [THEN order_trans])

lemma removes_firstI:
  "[] \<notin> set rs \<Longrightarrow> removes_first (map RemoveRef rs @ map (\<lambda>(_, n). UpsertNode n) xs)"
  unfolding removes_first_def
  by (intro exI [of _ rs] exI [of _ "map snd xs"]) (simp add: case_prod_beta')

lemma diff_removes_first:
  assumes "[] \<notin> set (map nref (projected baseline))"
  shows "removes_first (diffChanges baseline latest)"
proof -
  have "[] \<notin> set (jkeys (node_map baseline))"
    using assms unfolding node_map_def set_jkeys_map_from by force
  then show ?thesis
    unfolding diffChanges_def Let_def by (intro removes_firstI) auto
qed

section \<open>Properties\<close>

definition demo_latest :: control_observation where
  "demo_latest = demo_tree\<lparr>observationId := ''o2'', revision := 2,
     nodes := [Node ''g'' ''group'' ''Panel'' None None None [] None None
       (Some [leaf ''b1'' ''button'' ''Save'', leaf ''b3'' ''button'' ''Help''])]\<rparr>"

definition demo_entry :: "pending_delta \<Rightarrow> surface_entry" where
  "demo_entry p = (emptyEntry 0)\<lparr>continuations := [(''c1'', p)]\<rparr>"



text \<open>A full observation that is paged arrives whole: the pages a client collects carry, one after
  the other, exactly the projected nodes of the observation.\<close>

theorem full_pages_complete:
  assumes "map_of (continuations e) token = Some (fullPending latest base maxNodes)"
    and "0 < maxNodes" "length (projected latest) \<le> n" "1 \<le> n"
  shows "\<exists>rs. collect n e token base latest maxNodes seq = Inr rs
    \<and> page_run (fullPending latest base maxNodes) 0 (nat maxNodes) rs
    \<and> concat (map result_nodes rs) = projected latest"
proof -
  define p where "p = fullPending latest base maxNodes"
  have p: "pd_nextToken p = None" "pd_baseObservationId p = base" "pd_observationId p = observationId latest"
    "pd_pageSize p = maxNodes" "pd_offset p = 0" "pd_full p" "pd_fullNodes p = Some (projected latest)"
    "page_total p = length (projected latest)"
    by (simp_all add: p_def fullPending_def pendingBase_def page_total_def)
  obtain rs where rs: "collect n e token base latest maxNodes seq = Inr rs"
    "page_run p 0 (nat maxNodes) rs"
    using collect_pages [of e token p base latest maxNodes n seq] assms p by (auto simp: p_def [symmetric])
  with page_run_nodes [OF rs(2) p(6,7)] show ?thesis by (auto simp: p_def)
qed

theorem full_pages_complete_witness:
  "\<exists>rs. collect 3 (demo_entry (fullPending demo_latest ''o1'' 2)) ''c1'' ''o1'' demo_latest 2 7 = Inr rs
    \<and> page_run (fullPending demo_latest ''o1'' 2) 0 (nat 2) rs
    \<and> concat (map result_nodes rs) = projected demo_latest"
  by (rule full_pages_complete) (simp_all add: demo_entry_def demo_latest_def demo_tree_def leaf_def)

text \<open>The exception the first property makes is needed.\<close>

lemma empty_ref_not_removed:
  "let baseline = demo_tree\<lparr>nodes := [leaf [] ''button'' ''Save'']\<rparr>;
       latest = demo_tree\<lparr>nodes := []\<rparr> in
   diffChanges baseline latest = [RemoveRef []] \<and> page_remove (diffChanges baseline latest) = []"
  by (simp add: diffChanges_def node_map_def demo_tree_def leaf_def projectedNode_def page_remove_def
      map_from_def Let_def)

end
