(* ===== verification/ObservationStore.thy ===== *)
theory ObservationStore
  imports ObservationPaging
begin

text \<open>
  packages/control/src/observation-store.ts: the store of observations over the registry, with
  its limits and its id sequence. \<open>clk i\<close> is the i-th reading of the clock during one call.
  An entry is a shared object: what the code changes in it before it throws stays changed, so
  the model writes the entry back before every step that may throw.
\<close>

record store =
  limits :: store_limits
  reg :: registry
  idSequence :: nat

type_synonym 'a store_op = "(store, store_error, 'a) eff"

fun check_limits :: "(string \<times> int) list \<Rightarrow> store_error + unit" where
  "check_limits [] = Inr ()"
| "check_limits ((name, v) # vs) =
     (if v \<le> 0 then store_fail ''CONTROL_INVALID_LIMIT'' (name @ '' must be a positive integer'')
      else check_limits vs)"

definition new_store :: "store_limits \<Rightarrow> store_error + store" where
  "new_store l = tryE (check_limits (limit_values l)) (\<lambda>_.
     Inr \<lparr>limits = l, reg = \<lparr>owners = [], evictions = []\<rparr>, idSequence = 0\<rparr>)"

section \<open>Plumbing\<close>

definition liftE :: "store_error + 'a \<Rightarrow> 'a store_op" where
  "liftE r st = (r, st)"

definition on_reg :: "'a reg_op \<Rightarrow> 'a store_op" where
  "on_reg f st = (case f (reg st) of (r, g) \<Rightarrow> (r, st\<lparr>reg := g\<rparr>))"

definition purge :: "int \<Rightarrow> unit store_op" where
  "purge now st = (Inr (), st\<lparr>reg := purgeIdle (limits st) now (reg st)\<rparr>)"

definition put_entry :: "string \<Rightarrow> string \<Rightarrow> surface_entry \<Rightarrow> unit store_op" where
  "put_entry owner sid e st = (Inr (), st\<lparr>reg := set_entry owner sid e (reg st)\<rparr>)"

definition fresh_id :: "string \<Rightarrow> string store_op" where
  "fresh_id prefix st = (case nextId prefix (idSequence st) of (i, seq) \<Rightarrow> (Inr i, st\<lparr>idSequence := seq\<rparr>))"

definition getS :: "(store \<Rightarrow> 'a) \<Rightarrow> 'a store_op" where
  "getS f st = (Inr (f st), st)"

definition require_entry :: "string \<Rightarrow> string \<Rightarrow> surface_entry store_op" where
  "require_entry owner sid st = (requireEntry (reg st) owner sid, st)"

section \<open>Operations\<close>

text \<open>The part of \<open>record\<close> after the surface has its place.\<close>

definition record_history ::
    "(nat \<Rightarrow> int) \<Rightarrow> string \<Rightarrow> control_observation \<Rightarrow> surface_entry option \<Rightarrow> unit store_op" where
  "record_history clk owner ob existing =
     bindS (getS limits) (\<lambda>l.
     let entry = (case existing of Some e \<Rightarrow> e | None \<Rightarrow> emptyEntry (clk 1));
         full = take (nat (maxHistoryPerSurface l))
           (ob # filter (\<lambda>c. observationId c \<noteq> observationId ob) (history entry)) in
     bindS (liftE (trimHistory full l)) (\<lambda>trimmed.
     let bytes = byteLength (history_json trimmed) in
     bindS (on_reg (ensureByteCapacity l owner (surfaceId ob) bytes
              (case existing of Some e \<Rightarrow> entry_bytes e + pendingBytes e | None \<Rightarrow> 0))) (\<lambda>_.
     put_entry owner (surfaceId ob)
       (entry\<lparr>history := trimmed, entry_bytes := bytes, pendingBytes := 0, dirtyReasons := [],
          continuations := [], lastAccessAt := clk 2\<rparr>))))"

definition record_body ::
    "(nat \<Rightarrow> int) \<Rightarrow> string \<Rightarrow> control_observation \<Rightarrow> nat option \<Rightarrow> unit store_op" where
  "record_body clk owner ob validationEpoch =
     bindS (on_reg (requireOwner owner)) (\<lambda>_.
     bindS (getS limits) (\<lambda>l.
     bindS (liftE (validateObservation ob l)) (\<lambda>_.
     bindS (getS (\<lambda>st. find_entry (reg st) owner (surfaceId ob))) (\<lambda>existing.
     case existing of
       Some e \<Rightarrow>
         bindS (liftE (rejectStaleWrite e ob validationEpoch)) (\<lambda>_.
         record_history clk owner ob existing)
     | None \<Rightarrow>
         if validationEpoch \<noteq> None
         then liftE (store_fail ''CONTROL_OBSERVATION_STALE'' ''Observation validation target no longer exists'')
         else bindS (on_reg (reserveSurface l owner (surfaceId ob))) (\<lambda>_.
           record_history clk owner ob None)))))"

definition record_observation ::
    "(nat \<Rightarrow> int) \<Rightarrow> string \<Rightarrow> control_observation \<Rightarrow> nat option \<Rightarrow> unit store_op" where
  "record_observation clk owner ob validationEpoch =
     bindS (purge (clk 0)) (\<lambda>_. record_body clk owner ob validationEpoch)"

definition get_body :: "(nat \<Rightarrow> int) \<Rightarrow> string \<Rightarrow> string \<Rightarrow> surface_entry \<Rightarrow> control_observation option store_op" where
  "get_body clk owner sid e =
     bindS (put_entry owner sid (e\<lparr>lastAccessAt := clk 1\<rparr>)) (\<lambda>_.
     bindS (liftE (current_observation e)) (\<lambda>ob. retS (Some ob)))"

definition get_observation :: "(nat \<Rightarrow> int) \<Rightarrow> string \<Rightarrow> string \<Rightarrow> control_observation option store_op" where
  "get_observation clk owner sid =
     bindS (purge (clk 0)) (\<lambda>_.
     bindS (getS (\<lambda>st. find_entry (reg st) owner sid)) (\<lambda>found.
     case found of None \<Rightarrow> retS None | Some e \<Rightarrow> get_body clk owner sid e))"

definition epoch_body :: "(nat \<Rightarrow> int) \<Rightarrow> string \<Rightarrow> string \<Rightarrow> surface_entry \<Rightarrow> nat store_op" where
  "epoch_body clk owner sid e =
     bindS (put_entry owner sid (e\<lparr>lastAccessAt := clk 1\<rparr>)) (\<lambda>_. retS (eventEpoch e))"

definition validationEpoch_of :: "(nat \<Rightarrow> int) \<Rightarrow> string \<Rightarrow> string \<Rightarrow> nat store_op" where
  "validationEpoch_of clk owner sid =
     bindS (purge (clk 0)) (\<lambda>_.
     bindS (require_entry owner sid) (epoch_body clk owner sid))"

text \<open>\<open>pushHistory\<close> returns the entry as it leaves it.\<close>

definition pushHistory ::
    "string \<Rightarrow> string \<Rightarrow> surface_entry \<Rightarrow> control_observation \<Rightarrow> surface_entry store_op" where
  "pushHistory owner sid e head =
     bindS (getS limits) (\<lambda>l.
     bindS (liftE (trimHistory (take (nat (maxHistoryPerSurface l)) (head # history e)) l)) (\<lambda>h.
     let bytes = byteLength (history_json h);
         e' = e\<lparr>history := h, entry_bytes := bytes, pendingBytes := 0\<rparr> in
     bindS (on_reg (ensureByteCapacity l owner sid bytes (entry_bytes e + pendingBytes e))) (\<lambda>_.
     bindS (put_entry owner sid e') (\<lambda>_. retS e'))))"

definition mark_body ::
    "(nat \<Rightarrow> int) \<Rightarrow> string \<Rightarrow> string \<Rightarrow> string \<Rightarrow> string option \<Rightarrow> surface_entry \<Rightarrow> unit store_op" where
  "mark_body clk owner sid reason eventKey e =
     bindS (liftE (current_observation e)) (\<lambda>ob.
     let (advanced, e1) = advanceEvent (e\<lparr>lastAccessAt := clk (1::nat)\<rparr>) eventKey in
     if \<not> advanced \<or> freshness ob = Dirty then put_entry owner sid (rememberDirtyReason e1 reason)
     else
       bindS (put_entry owner sid e1) (\<lambda>_.
       bindS (fresh_id ''d'') (\<lambda>i.
       bindS (pushHistory owner sid e1 (ob\<lparr>observationId := i, freshness := Dirty\<rparr>)) (\<lambda>e2.
       put_entry owner sid ((rememberDirtyReason e2 reason)\<lparr>continuations := []\<rparr>)))))"

definition markDirty ::
    "(nat \<Rightarrow> int) \<Rightarrow> string \<Rightarrow> string \<Rightarrow> string \<Rightarrow> string option \<Rightarrow> unit store_op" where
  "markDirty clk owner sid reason eventKey =
     bindS (purge (clk 0)) (\<lambda>_.
     bindS (require_entry owner sid) (mark_body clk owner sid reason eventKey))"

definition invalidate_body ::
    "(nat \<Rightarrow> int) \<Rightarrow> string \<Rightarrow> string \<Rightarrow> string \<Rightarrow> string option \<Rightarrow> surface_entry \<Rightarrow> unit store_op" where
  "invalidate_body clk owner sid reason eventKey e =
     bindS (liftE (current_observation e)) (\<lambda>ob.
     let (advanced, e1) = advanceEvent e eventKey in
     if \<not> advanced then retS ()
     else
       bindS (put_entry owner sid e1) (\<lambda>_.
       bindS (fresh_id ''i'') (\<lambda>i.
       bindS (pushHistory owner sid e1
           (ob\<lparr>observationId := i, generation := generation ob + 1, freshness := UnknownFreshness,
              watchHealth := Lost, revision := revision ob + 1,
              coverage := \<lparr>cov_scope = InSurface, cov_truncated = True, cov_omittedNodes = 0,
                cov_expansionHandle = None\<rparr>,
              nodes := []\<rparr>)) (\<lambda>e2.
       put_entry owner sid ((rememberDirtyReason e2 reason)\<lparr>continuations := [], lastAccessAt := clk (1::nat)\<rparr>)))))"

definition invalidate ::
    "(nat \<Rightarrow> int) \<Rightarrow> string \<Rightarrow> string \<Rightarrow> string \<Rightarrow> string option \<Rightarrow> unit store_op" where
  "invalidate clk owner sid reason eventKey =
     bindS (purge (clk 0)) (\<lambda>_.
     bindS (require_entry owner sid) (invalidate_body clk owner sid reason eventKey))"

text \<open>The byte capacity is reserved against the entry without its old continuations.\<close>

definition storeContinuation ::
    "string \<Rightarrow> string \<Rightarrow> surface_entry \<Rightarrow> string \<Rightarrow> pending_delta \<Rightarrow> surface_entry store_op" where
  "storeContinuation owner sid e token p =
     (let e0 = e\<lparr>continuations := [], pendingBytes := 0\<rparr>;
          pb = byteLength (pending_json p) in
      bindS (put_entry owner sid e0) (\<lambda>_.
      bindS (getS limits) (\<lambda>l.
      bindS (on_reg (ensureByteCapacity l owner sid (entry_bytes e0 + pb) (entry_bytes e0 + pendingBytes e0))) (\<lambda>_.
      let e1 = e0\<lparr>continuations := [(token, p)], pendingBytes := pb\<rparr> in
      bindS (put_entry owner sid e1) (\<lambda>_. retS e1)))))"

definition emit_op :: "string \<Rightarrow> string \<Rightarrow> surface_entry \<Rightarrow> string \<Rightarrow> pending_delta \<Rightarrow> int
    \<Rightarrow> control_observation_result store_op" where
  "emit_op owner sid e token p maxNodes =
     bindS (getS idSequence) (\<lambda>seq.
     let (r, e', seq') = emit_page e token p maxNodes seq in
     bindS (\<lambda>st. (Inr (), st\<lparr>idSequence := seq'\<rparr>)) (\<lambda>_.
     bindS (put_entry owner sid e') (\<lambda>_. retS r)))"

definition createFullContinuation ::
    "string \<Rightarrow> string \<Rightarrow> surface_entry \<Rightarrow> control_observation \<Rightarrow> string \<Rightarrow> int
     \<Rightarrow> control_observation_result store_op" where
  "createFullContinuation owner sid e latest base maxNodes =
     (let p = fullPending latest base maxNodes; ns = projected latest in
      if int (length ns) \<le> maxNodes then
        retS (Full \<lparr>f_observation = latest\<lparr>nodes := ns\<rparr>, f_complete = True,
          f_appliedObservationId = Some (observationId latest), f_continuation = None\<rparr>)
      else
        bindS (fresh_id ''f'') (\<lambda>token.
        bindS (storeContinuation owner sid e token p) (\<lambda>e1.
        emit_op owner sid e1 token p maxNodes)))"

definition delta_body ::
    "(nat \<Rightarrow> int) \<Rightarrow> string \<Rightarrow> string \<Rightarrow> string \<Rightarrow> int \<Rightarrow> string option \<Rightarrow> surface_entry
     \<Rightarrow> control_observation_result store_op" where
  "delta_body clk owner sid base maxNodes continuationToken e0 =
     (let e = e0\<lparr>lastAccessAt := clk 1\<rparr> in
      bindS (put_entry owner sid e) (\<lambda>_.
      bindS (liftE (current_observation e)) (\<lambda>latest.
      case continuationToken of
        Some (c # cs) \<Rightarrow>
          bindS (liftE (resumeContinuation e (c # cs) base latest maxNodes)) (\<lambda>p.
          emit_op owner sid e (c # cs) p maxNodes)
      | _ \<Rightarrow>
          (let e1 = e\<lparr>continuations := [], pendingBytes := 0\<rparr> in
           bindS (put_entry owner sid e1) (\<lambda>_.
           case find (\<lambda>item. observationId item = base) (history e1) of
             None \<Rightarrow> createFullContinuation owner sid e1 latest base maxNodes
           | Some baseline \<Rightarrow>
               (let p = deltaPending baseline latest base maxNodes in
                if pd_changes p = [] then
                  retS (Delta (completeDelta p (observationId latest) [] [] None (pd_metadata p)
                    (int (length (pd_changes p)) - int (pd_offset p))))
                else
                  bindS (fresh_id ''c'') (\<lambda>token.
                  bindS (storeContinuation owner sid e1 token p) (\<lambda>e2.
                  emit_op owner sid e2 token p maxNodes))))))))"

definition delta ::
    "(nat \<Rightarrow> int) \<Rightarrow> string \<Rightarrow> string \<Rightarrow> string \<Rightarrow> int \<Rightarrow> string option
     \<Rightarrow> control_observation_result store_op" where
  "delta clk owner sid base maxNodes continuationToken =
     bindS (purge (clk 0)) (\<lambda>_.
     if maxNodes \<le> 0
     then liftE (store_fail ''CONTROL_INVALID_BUDGET'' ''maxNodes must be a positive integer'')
     else bindS (require_entry owner sid) (delta_body clk owner sid base maxNodes continuationToken))"

definition release :: "(nat \<Rightarrow> int) \<Rightarrow> string \<Rightarrow> unit store_op" where
  "release clk owner =
     bindS (purge (clk 0)) (\<lambda>_ st. (Inr (), st\<lparr>reg := release_owner owner (reg st)\<rparr>))"

section \<open>Runs\<close>

datatype store_event =
    Record "nat \<Rightarrow> int" string control_observation "nat option"
  | Get "nat \<Rightarrow> int" string string
  | ValidationEpoch "nat \<Rightarrow> int" string string
  | MarkDirty "nat \<Rightarrow> int" string string string "string option"
  | Invalidate "nat \<Rightarrow> int" string string string "string option"
  | Delta_request "nat \<Rightarrow> int" string string string int "string option"
  | Release "nat \<Rightarrow> int" string

fun store_step :: "store \<Rightarrow> store_event \<Rightarrow> store" where
  "store_step st (Record clk owner ob ve) = snd (record_observation clk owner ob ve st)"
| "store_step st (Get clk owner sid) = snd (get_observation clk owner sid st)"
| "store_step st (ValidationEpoch clk owner sid) = snd (validationEpoch_of clk owner sid st)"
| "store_step st (MarkDirty clk owner sid reason key) = snd (markDirty clk owner sid reason key st)"
| "store_step st (Invalidate clk owner sid reason key) = snd (invalidate clk owner sid reason key st)"
| "store_step st (Delta_request clk owner sid base n tok) = snd (delta clk owner sid base n tok st)"
| "store_step st (Release clk owner) = snd (release clk owner st)"

section \<open>The invariant\<close>

definition limits_ok :: "store_limits \<Rightarrow> bool" where
  "limits_ok l \<longleftrightarrow> (\<forall>v \<in> snd ` set (limit_values l). 1 \<le> v)"

lemma limits_okD:
  assumes "limits_ok l"
  shows "1 \<le> maxSurfacesPerOwner l" "1 \<le> maxSurfacesTotal l" "1 \<le> maxHistoryPerSurface l"
    "1 \<le> maxImagesPerSurface l" "1 \<le> idleRetentionMs l"
  using assms by (simp_all add: limits_ok_def limit_values_def)

definition entry_ok :: "store_limits \<Rightarrow> surface_entry \<Rightarrow> bool" where
  "entry_ok l e \<longleftrightarrow> history e \<noteq> [] \<and> int (length (history e)) \<le> maxHistoryPerSurface l
     \<and> entry_bytes e = byteLength (history_json (history e))
     \<and> entry_bytes e \<le> maxBytesPerHistory l \<and> 0 \<le> pendingBytes e
     \<and> reasons_ok (dirtyReasons e) \<and> image_count (history e) \<le> maxImagesPerSurface l"

definition store_inv :: "store \<Rightarrow> bool" where
  "store_inv st \<longleftrightarrow> limits_ok (limits st) \<and> reg_wf (reg st)
     \<and> (\<forall>o' s e. find_entry (reg st) o' s = Some e \<longrightarrow> entry_ok (limits st) e)
     \<and> (\<forall>o'. int (length (owned (reg st) o')) \<le> maxSurfacesPerOwner (limits st))
     \<and> int (surfaceCount (reg st)) \<le> maxSurfacesTotal (limits st)
     \<and> totalBytes (reg st) \<le> maxBytesTotal (limits st)"

lemma entry_ok_nonneg: "entry_ok l e \<Longrightarrow> 0 \<le> entry_bytes e \<and> 0 \<le> pendingBytes e"
  by (simp add: entry_ok_def byteLength_def)

lemma store_inv_entry: "store_inv st \<Longrightarrow> find_entry (reg st) o' s = Some e \<Longrightarrow> entry_ok (limits st) e"
  by (auto simp: store_inv_def)

lemma store_inv_wf: "store_inv st \<Longrightarrow> reg_wf (reg st)"
  by (simp add: store_inv_def)

lemma store_inv_nonneg: "store_inv st \<Longrightarrow> bytes_nonneg (reg st)"
  by (auto simp: bytes_nonneg_def all_surfaces_find [OF store_inv_wf]) (meson store_inv_entry entry_ok_nonneg)+

lemma store_inv_shrunk:
  assumes "store_inv st" "shrunk keep (reg st) g"
  shows "store_inv (st\<lparr>reg := g\<rparr>)"
proof -
  have wf: "reg_wf (reg st)" using assms(1) by (simp add: store_inv_def)
  note sc = shrunk_counts [OF assms(2)]
  have "\<forall>o'. int (length (owned g o')) \<le> maxSurfacesPerOwner (limits st)"
  proof
    fix o'
    have "int (length (owned (reg st) o')) \<le> maxSurfacesPerOwner (limits st)"
      using assms(1) by (simp add: store_inv_def)
    with shrunk_owned [OF assms(2) wf, of o']
    show "int (length (owned g o')) \<le> maxSurfacesPerOwner (limits st)" by linarith
  qed
  moreover have "totalBytes g \<le> maxBytesTotal (limits st)"
    using sc(2) [OF store_inv_nonneg [OF assms(1)]] assms(1) by (simp add: store_inv_def)
  moreover have "entry_ok (limits st) e" if "find_entry g o' s = Some e" for o' s e
    using store_inv_entry [OF assms(1) shrunk_find(1) [OF assms(2) wf that]] .
  ultimately show ?thesis
    using assms(1) shrunk_wf [OF assms(2)] sc(1) by (auto simp: store_inv_def)
qed

text \<open>
  Every other surface is as it was at the start or gone.
\<close>

definition others :: "store \<Rightarrow> string \<Rightarrow> string \<Rightarrow> store \<Rightarrow> bool" where
  "others st0 owner sid st \<longleftrightarrow> (\<forall>o' s. (o', s) \<noteq> (owner, sid) \<longrightarrow>
     find_entry (reg st) o' s = find_entry (reg st0) o' s \<or> find_entry (reg st) o' s = None)"

definition "at" :: "store \<Rightarrow> string \<Rightarrow> string \<Rightarrow> surface_entry \<Rightarrow> store \<Rightarrow> bool" where
  "at st0 owner sid e st \<longleftrightarrow> store_inv st \<and> limits st = limits st0
     \<and> find_entry (reg st) owner sid = Some e \<and> others st0 owner sid st"

text \<open>The current observation only moves forward.\<close>

definition newer :: "surface_entry \<Rightarrow> surface_entry \<Rightarrow> bool" where
  "newer e e' \<longleftrightarrow> (let a = hd (history e); b = hd (history e') in
     (generation a < generation b \<or> generation a = generation b \<and> revision a \<le> revision b)
     \<and> policyRevision a \<le> policyRevision b) \<and> eventEpoch e \<le> eventEpoch e'"

lemma newer_refl [simp]: "newer e e"
  by (simp add: newer_def Let_def)

lemma newer_trans: "newer e1 e2 \<Longrightarrow> newer e2 e3 \<Longrightarrow> newer e1 e3"
  by (auto simp: newer_def Let_def)

definition moved :: "store \<Rightarrow> string \<Rightarrow> string \<Rightarrow> surface_entry \<Rightarrow> store \<Rightarrow> bool" where
  "moved st0 owner sid e0 st \<longleftrightarrow> (\<exists>e. at st0 owner sid e st \<and> newer e0 e)"

lemma at_moved: "at st0 owner sid e st \<Longrightarrow> newer e0 e \<Longrightarrow> moved st0 owner sid e0 st"
  by (auto simp: moved_def)

section \<open>Steps that keep it\<close>

lemma entry_ok_frame [simp]:
  "entry_ok l (e\<lparr>lastAccessAt := t\<rparr>) = entry_ok l e"
  "entry_ok l (e\<lparr>continuations := c\<rparr>) = entry_ok l e"
  by (simp_all add: entry_ok_def)

lemma entry_total_frame [simp]:
  "entry_total (e\<lparr>lastAccessAt := t\<rparr>) = entry_total e"
  "entry_total (e\<lparr>continuations := c\<rparr>) = entry_total e"
  by (simp_all add: entry_total_def)

lemma newer_frame [simp]:
  "newer e (e\<lparr>lastAccessAt := t\<rparr>)" "newer e (e\<lparr>continuations := c\<rparr>)"
  by (simp_all add: newer_def Let_def)

lemma put_inv:
  assumes "store_inv st" "entry_ok (limits st) e'"
    and room: "totalBytes (reg st) - (case find_entry (reg st) owner sid of None \<Rightarrow> 0 | Some e \<Rightarrow> entry_total e)
        + entry_total e' \<le> maxBytesTotal (limits st)"
    and slot: "find_entry (reg st) owner sid = None \<Longrightarrow>
        int (length (owned (reg st) owner)) < maxSurfacesPerOwner (limits st)
        \<and> int (surfaceCount (reg st)) < maxSurfacesTotal (limits st)"
  shows "store_inv (st\<lparr>reg := set_entry owner sid e' (reg st)\<rparr>)"
proof -
  have wf: "reg_wf (reg st)" using assms(1) by (simp add: store_inv_def)
  have "int (length (owned (set_entry owner sid e' (reg st)) o')) \<le> maxSurfacesPerOwner (limits st)" for o'
    using assms(1) slot
    by (auto simp: owned_set_entry length_update store_inv_def find_owned map_of_eq_None_iff)
  moreover have "int (surfaceCount (set_entry owner sid e' (reg st))) \<le> maxSurfacesTotal (limits st)"
    using assms(1) slot by (auto simp: surfaceCount_set_entry [OF wf] store_inv_def)
  ultimately show ?thesis
    using assms(1,2) room
    by (auto simp: store_inv_def wf_set_entry find_set_entry totalBytes_set_entry [OF wf])
qed

lemma put_at_room:
  assumes "entry_ok (limits st0) e'"
  shows "valid_eff (\<lambda>st. at st0 owner sid e st \<and>
      totalBytes (reg st) - entry_total e + entry_total e' \<le> maxBytesTotal (limits st0))
    (put_entry owner sid e') (\<lambda>_. at st0 owner sid e') R"
proof -
  have "at st0 owner sid e' (st\<lparr>reg := set_entry owner sid e' (reg st)\<rparr>)"
    if a: "at st0 owner sid e st" and r: "totalBytes (reg st) - entry_total e + entry_total e' \<le> maxBytesTotal (limits st0)" for st
  proof -
    have "store_inv (st\<lparr>reg := set_entry owner sid e' (reg st)\<rparr>)"
      by (rule put_inv) (use a r assms in \<open>auto simp: at_def\<close>)
    with a show ?thesis by (auto simp: at_def others_def find_set_entry)
  qed
  then show ?thesis by (simp add: valid_eff_def put_entry_def)
qed

lemma put_at:
  assumes "entry_ok (limits st0) e'" "entry_total e' \<le> entry_total e"
  shows "valid_eff (at st0 owner sid e) (put_entry owner sid e') (\<lambda>_. at st0 owner sid e') R"
  by (rule valid_pre [OF put_at_room [OF assms(1), of owner sid e]])
     (use assms(2) in \<open>auto simp: at_def store_inv_def\<close>)

lemma shrunk_others:
  assumes "others st0 owner sid st" "shrunk (\<lambda>o' s. o' = owner \<and> s = sid) (reg st) g" "reg_wf (reg st)"
  shows "others st0 owner sid (st\<lparr>reg := g\<rparr>)"
proof -
  have "find_entry g o' s = find_entry (reg st) o' s \<or> find_entry g o' s = None" for o' s
    using shrunk_find(1) [OF assms(2,3), of o' s] by (cases "find_entry g o' s") auto
  with assms(1) show ?thesis unfolding others_def by simp metis
qed

lemma ensure_at:
  "valid_eff (at st0 owner sid e)
     (on_reg (ensureByteCapacity (limits st0) owner sid c (entry_total e)))
     (\<lambda>_ st. at st0 owner sid e st \<and> totalBytes (reg st) - entry_total e + c \<le> maxBytesTotal (limits st0))
     (at st0 owner sid e)"
proof -
  have "at st0 owner sid e (st\<lparr>reg := g\<rparr>) \<and> (r = Inr u \<longrightarrow> totalBytes g - entry_total e + c \<le> maxBytesTotal (limits st0))"
    if a: "at st0 owner sid e st" and run: "ensureByteCapacity (limits st0) owner sid c (entry_total e) (reg st) = (r, g)" for st r u g
  proof -
    have wf: "reg_wf (reg st)" using a by (simp add: at_def store_inv_def)
    have sh: "shrunk (\<lambda>o' s. o' = owner \<and> s = sid) (reg st) g"
      using ensureByteCapacity_shrunk [OF wf, of owner sid "limits st0" c "entry_total e"] run by simp
    have "at st0 owner sid e (st\<lparr>reg := g\<rparr>)"
      using a store_inv_shrunk [OF _ sh] shrunk_find(2) [OF sh wf] shrunk_others [OF _ sh wf]
      by (simp add: at_def)
    with run ensureByteCapacity_Inr show ?thesis by blast
  qed
  then show ?thesis by (auto simp: valid_eff_def on_reg_def split: prod.splits sum.splits)
qed

lemma at_seq [simp]: "at st0 owner sid e (st\<lparr>idSequence := n\<rparr>) = at st0 owner sid e st"
  by (simp add: at_def store_inv_def others_def)

lemma fresh_at: "valid_eff (at st0 owner sid e) (fresh_id p) (\<lambda>_. at st0 owner sid e) R"
  by (auto simp: valid_eff_def fresh_id_def at_def store_inv_def others_def split: prod.splits)

lemma limits_at: "valid_eff (at st0 owner sid e) (getS limits) (\<lambda>l st. l = limits st0 \<and> at st0 owner sid e st) R"
  by (auto simp: valid_eff_def getS_def at_def)

lemma lift_at: "valid_eff (at st0 owner sid e) (liftE r) (\<lambda>x st. r = Inr x \<and> at st0 owner sid e st) (at st0 owner sid e)"
  by (auto simp: valid_eff_def liftE_def split: sum.splits)

lemma valid_Inr: "valid_eff P m Q R \<Longrightarrow> P s \<Longrightarrow> m s = (Inr x, s') \<Longrightarrow> Q x s'"
  by (fastforce simp: valid_eff_def)

lemma valid_assume: "(\<And>s. P s \<Longrightarrow> c) \<Longrightarrow> (c \<Longrightarrow> valid_eff P m Q R) \<Longrightarrow> valid_eff P m Q R"
  by (auto simp: valid_eff_def)

lemma valid_pure: "(c \<Longrightarrow> valid_eff P m Q R) \<Longrightarrow> valid_eff (\<lambda>s. c \<and> P s) m Q R"
  by (auto simp: valid_eff_def)

lemma at_entry_ok: "at st0 owner sid e st \<Longrightarrow> entry_ok (limits st0) e"
  by (auto simp: at_def dest: store_inv_entry)

lemma at_limits_ok: "at st0 owner sid e st \<Longrightarrow> limits_ok (limits st0)"
  by (auto simp: at_def store_inv_def)

text \<open>A trimmed history makes an entry that is in order.\<close>

lemma trimmed_entry_ok:
  assumes trim: "trimHistory (take (nat (maxHistoryPerSurface l)) (ob # rest)) l = Inr h"
    and l: "limits_ok l" and e: "history e = h" "entry_bytes e = byteLength (history_json h)"
      "0 \<le> pendingBytes e" "reasons_ok (dirtyReasons e)"
  shows "entry_ok l e" and "hd h = ob"
proof -
  note pos = limits_okD [OF l]
  have ne: "take (nat (maxHistoryPerSurface l)) (ob # rest) \<noteq> []" using pos(3) by simp
  note tp = trimHistory_props [OF trim ne]
  have "length h \<le> nat (maxHistoryPerSurface l)" using tp(2) by (simp add: min_def split: if_splits)
  then have "int (length h) \<le> maxHistoryPerSurface l" using pos(3) by linarith
  with tp pos(4) e show "entry_ok l e" by (simp add: entry_ok_def max_def split: if_splits)
  have "hd (take (nat (maxHistoryPerSurface l)) (ob # rest)) = ob"
    using pos(3) by (cases "nat (maxHistoryPerSurface l)") auto
  with tp(5) [OF pos(4)] show "hd h = ob" by simp
qed

lemma pushHistory_at:
  "valid_eff (at st0 owner sid e) (pushHistory owner sid e head)
     (\<lambda>e' st. (hd (history e') = head \<and> dirtyReasons e' = dirtyReasons e \<and> eventEpoch e' = eventEpoch e)
        \<and> at st0 owner sid e' st)
     (at st0 owner sid e)"
  unfolding pushHistory_def Let_def
proof (rule valid_assume [OF at_entry_ok], assumption, rule valid_assume [OF at_limits_ok], assumption,
    rule valid_bind [OF limits_at], rule valid_pure, hypsubst, rule valid_bind [OF lift_at], rule valid_pure)
  fix h
  assume ok: "entry_ok (limits st0) e" "limits_ok (limits st0)"
    and trim: "trimHistory (take (nat (maxHistoryPerSurface (limits st0))) (head # history e)) (limits st0) = Inr h"
  define e' where "e' = e\<lparr>history := h, entry_bytes := byteLength (history_json h), pendingBytes := 0\<rparr>"
  have e': "entry_ok (limits st0) e'" "hd (history e') = head"
    using trimmed_entry_ok [OF trim ok(2), of e'] ok(1) by (simp_all add: e'_def entry_ok_def)
  have tot: "entry_total e' = byteLength (history_json h)" by (simp add: e'_def entry_total_def)
  note put = put_at_room [OF e'(1), of owner sid e, unfolded tot]
  show "valid_eff (at st0 owner sid e)
     (bindS (on_reg (ensureByteCapacity (limits st0) owner sid (byteLength (history_json h)) (entry_bytes e + pendingBytes e)))
       (\<lambda>_. bindS (put_entry owner sid (e\<lparr>history := h, entry_bytes := byteLength (history_json h), pendingBytes := 0\<rparr>))
         (\<lambda>_. retS (e\<lparr>history := h, entry_bytes := byteLength (history_json h), pendingBytes := 0\<rparr>))))
     (\<lambda>e' st. (hd (history e') = head \<and> dirtyReasons e' = dirtyReasons e \<and> eventEpoch e' = eventEpoch e)
        \<and> at st0 owner sid e' st) (at st0 owner sid e)"
    unfolding e'_def [symmetric] entry_total_def [symmetric]
    by (rule valid_bind [OF ensure_at], rule valid_bind [OF put], rule valid_ret) (use e' in \<open>simp add: e'_def\<close>)
qed

lemma valid_moved: "valid_eff P m Q (at st0 owner sid e) \<Longrightarrow> newer e0 e \<Longrightarrow> valid_eff P m Q (moved st0 owner sid e0)"
  by (erule valid_post) (auto intro: at_moved)

lemma advanceEvent_newer: "newer e (snd (advanceEvent e k))"
  using advanceEvent_epoch [of e k] by (simp add: newer_def Let_def)

lemma advanceEvent_ok [simp]: "entry_ok l (snd (advanceEvent e k)) = entry_ok l e"
  by (simp add: entry_ok_def)

lemma advanceEvent_total [simp]: "entry_total (snd (advanceEvent e k)) = entry_total e"
  by (simp add: entry_total_def)

lemma remember_ok: "entry_ok l e \<Longrightarrow> entry_ok l (rememberDirtyReason e r)"
  by (simp add: entry_ok_def remember_reasons_ok)

lemma remember_total [simp]: "entry_total (rememberDirtyReason e r) = entry_total e"
  by (simp add: entry_total_def)

lemma remember_newer [simp]: "newer e (rememberDirtyReason e r)"
  by (simp add: newer_def Let_def)

lemma put_last:
  assumes "entry_ok (limits st0) e'" "entry_total e' \<le> entry_total e" "newer e0 e'"
  shows "valid_eff (at st0 owner sid e) (put_entry owner sid e') (\<lambda>_. moved st0 owner sid e0) R"
  by (rule valid_post [OF put_at [OF assms(1,2)]]) (auto intro: at_moved [OF _ assms(3)])

text \<open>The common part of \<open>markDirty\<close> and \<open>invalidate\<close>: an event that derives a new observation.\<close>

lemma derive_moved:
  fixes fin :: "surface_entry \<Rightarrow> surface_entry" and e0 e1 e :: surface_entry
  assumes e1: "newer e0 e1" "entry_ok (limits st0) e1" "entry_total e1 \<le> entry_total e"
    and upd: "\<And>i (e' :: surface_entry). hd (history e') = head i \<Longrightarrow> eventEpoch e' = eventEpoch e1 \<Longrightarrow> newer e0 e'"
    and fin: "\<And>e'. entry_ok (limits st0) e' \<Longrightarrow> entry_ok (limits st0) (fin e')"
      "\<And>e'. entry_total (fin e') = entry_total e'" "\<And>e'. newer e' (fin e')"
  shows "valid_eff (at st0 owner sid e)
    (bindS (put_entry owner sid e1) (\<lambda>_.
     bindS (fresh_id p) (\<lambda>i.
     bindS (pushHistory owner sid e1 (head i)) (\<lambda>e2. put_entry owner sid (fin e2)))))
    (\<lambda>_. moved st0 owner sid e0) (moved st0 owner sid e0)"
proof (rule valid_bind [OF put_at [OF e1(2,3)]], rule valid_bind [OF fresh_at],
    rule valid_bind [OF valid_moved [OF pushHistory_at e1(1)]], rule valid_pure, elim conjE)
  fix i and e2 :: surface_entry
  assume e2: "hd (history e2) = head i" "eventEpoch e2 = eventEpoch e1"
  show "valid_eff (at st0 owner sid e2) (put_entry owner sid (fin e2))
      (\<lambda>_. moved st0 owner sid e0) (moved st0 owner sid e0)"
    by (rule valid_assume [OF at_entry_ok], assumption, rule put_last)
       (use fin upd [OF e2] newer_trans in auto)
qed

section \<open>Operations on a surface that is there\<close>

lemma current_hd: "current_observation e = Inr ob \<Longrightarrow> history e \<noteq> [] \<and> hd (history e) = ob"
  by (auto simp: current_observation_def store_fail_def split: list.splits)

lemma lift_moved:
  "newer e0 e \<Longrightarrow> valid_eff (at st0 owner sid e) (liftE r) (\<lambda>x st. r = Inr x \<and> at st0 owner sid e st) (moved st0 owner sid e0)"
  by (rule valid_moved [OF lift_at])

lemma mark_body_moved:
  "valid_eff (at st0 owner sid e) (mark_body clk owner sid reason key e)
     (\<lambda>_. moved st0 owner sid e) (moved st0 owner sid e)"
  unfolding mark_body_def
proof (rule valid_assume [OF at_entry_ok], assumption, rule valid_bind [OF lift_moved [OF newer_refl]], rule valid_pure)
  fix ob assume ok: "entry_ok (limits st0) e" and ob: "current_observation e = Inr ob"
  define adv e1 where "adv = fst (advanceEvent (e\<lparr>lastAccessAt := clk (1::nat)\<rparr>) key)"
    and "e1 = snd (advanceEvent (e\<lparr>lastAccessAt := clk (1::nat)\<rparr>) key)"
  then have split: "advanceEvent (e\<lparr>lastAccessAt := clk (1::nat)\<rparr>) key = (adv, e1)" by simp
  have e1: "newer e e1" "entry_ok (limits st0) e1" "entry_total e1 = entry_total e"
    using advanceEvent_newer newer_trans [OF newer_frame(1)] ok unfolding e1_def by (blast, simp_all)
  have hd1: "hd (history e) = ob" using current_hd [OF ob] by simp
  show "valid_eff (at st0 owner sid e)
      (let (advanced, e1) = advanceEvent (e\<lparr>lastAccessAt := clk (1::nat)\<rparr>) key in
       if \<not> advanced \<or> freshness ob = Dirty then put_entry owner sid (rememberDirtyReason e1 reason)
       else bindS (put_entry owner sid e1) (\<lambda>_. bindS (fresh_id ''d'') (\<lambda>i.
         bindS (pushHistory owner sid e1 (ob\<lparr>observationId := i, freshness := Dirty\<rparr>)) (\<lambda>e2.
         put_entry owner sid ((rememberDirtyReason e2 reason)\<lparr>continuations := []\<rparr>)))))
      (\<lambda>_. moved st0 owner sid e) (moved st0 owner sid e)"
  proof (cases "\<not> adv \<or> freshness ob = Dirty")
    case True
    have "valid_eff (at st0 owner sid e) (put_entry owner sid (rememberDirtyReason e1 reason))
        (\<lambda>_. moved st0 owner sid e) (moved st0 owner sid e)"
      by (rule put_last) (use e1 remember_ok newer_trans [OF e1(1) remember_newer] in auto)
    with True show ?thesis unfolding split Let_def prod.case by simp
  next
    case False
    have "valid_eff (at st0 owner sid e)
       (bindS (put_entry owner sid e1) (\<lambda>_. bindS (fresh_id ''d'') (\<lambda>i.
         bindS (pushHistory owner sid e1 (ob\<lparr>observationId := i, freshness := Dirty\<rparr>)) (\<lambda>e2.
         put_entry owner sid ((\<lambda>e2. (rememberDirtyReason e2 reason)\<lparr>continuations := []\<rparr>) e2)))))
      (\<lambda>_. moved st0 owner sid e) (moved st0 owner sid e)"
      by (rule derive_moved)
         (use e1 in \<open>auto simp: remember_ok newer_def Let_def hd1 [symmetric]\<close>)
    with False show ?thesis unfolding split Let_def prod.case by simp
  qed
qed

lemma invalidate_body_moved:
  "valid_eff (at st0 owner sid e) (invalidate_body clk owner sid reason key e)
     (\<lambda>_. moved st0 owner sid e) (moved st0 owner sid e)"
  unfolding invalidate_body_def
proof (rule valid_assume [OF at_entry_ok], assumption, rule valid_bind [OF lift_moved [OF newer_refl]], rule valid_pure)
  fix ob assume ok: "entry_ok (limits st0) e" and ob: "current_observation e = Inr ob"
  define adv e1 where "adv = fst (advanceEvent e key)" and "e1 = snd (advanceEvent e key)"
  then have split: "advanceEvent e key = (adv, e1)" by simp
  have e1: "newer e e1" "entry_ok (limits st0) e1" "entry_total e1 = entry_total e"
    using advanceEvent_newer ok unfolding e1_def by simp_all
  have hd1: "hd (history e) = ob" using current_hd [OF ob] by simp
  define head where "head i = ob\<lparr>observationId := i, generation := generation ob + 1, freshness := UnknownFreshness,
              watchHealth := Lost, revision := revision ob + 1,
              coverage := \<lparr>cov_scope = InSurface, cov_truncated = True, cov_omittedNodes = 0,
                cov_expansionHandle = None\<rparr>,
              nodes := []\<rparr>" for i
  have "valid_eff (at st0 owner sid e)
       (bindS (put_entry owner sid e1) (\<lambda>_. bindS (fresh_id ''i'') (\<lambda>i.
         bindS (pushHistory owner sid e1 (head i)) (\<lambda>e2.
         put_entry owner sid ((\<lambda>e2. (rememberDirtyReason e2 reason)\<lparr>continuations := [], lastAccessAt := clk (1::nat)\<rparr>) e2)))))
      (\<lambda>_. moved st0 owner sid e) (moved st0 owner sid e)"
    by (rule derive_moved)
       (use e1 in \<open>auto simp: remember_ok newer_def Let_def hd1 [symmetric] head_def\<close>)
  moreover have "valid_eff (at st0 owner sid e) (retS () :: unit store_op) (\<lambda>_. moved st0 owner sid e) (moved st0 owner sid e)"
    by (rule valid_ret) (auto intro: at_moved)
  ultimately show "valid_eff (at st0 owner sid e)
      (let (advanced, e1) = advanceEvent e key in
       if \<not> advanced then retS ()
       else bindS (put_entry owner sid e1) (\<lambda>_. bindS (fresh_id ''i'') (\<lambda>i.
         bindS (pushHistory owner sid e1 (ob\<lparr>observationId := i, generation := generation ob + 1, freshness := UnknownFreshness,
              watchHealth := Lost, revision := revision ob + 1,
              coverage := \<lparr>cov_scope = InSurface, cov_truncated = True, cov_omittedNodes = 0,
                cov_expansionHandle = None\<rparr>,
              nodes := []\<rparr>)) (\<lambda>e2.
         put_entry owner sid ((rememberDirtyReason e2 reason)\<lparr>continuations := [], lastAccessAt := clk (1::nat)\<rparr>)))))
      (\<lambda>_. moved st0 owner sid e) (moved st0 owner sid e)"
    unfolding split Let_def prod.case head_def by simp
qed

lemma get_body_moved:
  "valid_eff (at st0 owner sid e) (get_body clk owner sid e) (\<lambda>_. moved st0 owner sid e) (moved st0 owner sid e)"
  unfolding get_body_def
proof (rule valid_assume [OF at_entry_ok], assumption, rule valid_bind [OF put_at])
  show "valid_eff (at st0 owner sid (e\<lparr>lastAccessAt := clk 1\<rparr>))
      (bindS (liftE (current_observation e)) (\<lambda>ob. retS (Some ob)))
      (\<lambda>_. moved st0 owner sid e) (moved st0 owner sid e)"
    by (rule valid_bind [OF lift_moved [OF newer_frame(1)]], rule valid_ret) (auto intro: at_moved)
qed simp_all

lemma epoch_body_moved:
  "valid_eff (at st0 owner sid e) (epoch_body clk owner sid e) (\<lambda>_. moved st0 owner sid e) (moved st0 owner sid e)"
  unfolding epoch_body_def
  by (rule valid_assume [OF at_entry_ok], assumption, rule valid_bind [OF put_at], simp, simp, rule valid_ret)
     (auto intro: at_moved)

lemma emit_page_entry: "emit_page e token p maxNodes seq = (r, e', seq') \<Longrightarrow> \<exists>cs. e' = e\<lparr>continuations := cs\<rparr>"
  by (auto simp: emit_page_def emitFullPage_def emitDelta_def nextContinuation_def dropOtherContinuations_def
      Let_def split: if_splits prod.splits option.splits)

lemma emit_moved:
  assumes "newer e0 e"
  shows "valid_eff (at st0 owner sid e) (emit_op owner sid e token p maxNodes)
    (\<lambda>_. moved st0 owner sid e0) (moved st0 owner sid e0)"
  unfolding emit_op_def
proof (rule valid_assume [OF at_entry_ok], assumption, rule valid_bind)
  show "valid_eff (at st0 owner sid e) (getS idSequence) (\<lambda>_. at st0 owner sid e) (moved st0 owner sid e0)"
    by (simp add: valid_eff_def getS_def)
next
  fix seq assume ok: "entry_ok (limits st0) e"
  obtain r e' seq' where emit: "emit_page e token p maxNodes seq = (r, e', seq')"
    by (cases "emit_page e token p maxNodes seq") auto
  then obtain cs where e': "e' = e\<lparr>continuations := cs\<rparr>" using emit_page_entry by blast
  have seqset: "valid_eff (at st0 owner sid e) (\<lambda>st. (Inr (), st\<lparr>idSequence := seq'\<rparr>)) (\<lambda>_. at st0 owner sid e) R" for R
    by (simp add: valid_eff_def)
  have "valid_eff (at st0 owner sid e)
      (bindS (\<lambda>st. (Inr (), st\<lparr>idSequence := seq'\<rparr>)) (\<lambda>_. bindS (put_entry owner sid e') (\<lambda>_. retS r)))
      (\<lambda>_. moved st0 owner sid e0) (moved st0 owner sid e0)"
    by (rule valid_bind [OF seqset], rule valid_bind [OF put_at], use ok in \<open>simp add: e'\<close>, simp add: e', rule valid_ret)
       (use assms newer_trans [OF assms newer_frame(2), of cs] in \<open>auto simp: e' intro: at_moved\<close>)
  then show "valid_eff (at st0 owner sid e)
      (let (r, e', seq') = emit_page e token p maxNodes seq in
       bindS (\<lambda>st. (Inr (), st\<lparr>idSequence := seq'\<rparr>)) (\<lambda>_. bindS (put_entry owner sid e') (\<lambda>_. retS r)))
      (\<lambda>_. moved st0 owner sid e0) (moved st0 owner sid e0)"
    by (simp add: emit)
qed

lemma storeContinuation_at:
  assumes "newer e0 e"
  shows "valid_eff (at st0 owner sid e) (storeContinuation owner sid e token p)
    (\<lambda>e1 st. newer e0 e1 \<and> at st0 owner sid e1 st) (moved st0 owner sid e0)"
  unfolding storeContinuation_def Let_def
proof (rule valid_assume [OF at_entry_ok], assumption)
  assume ok: "entry_ok (limits st0) e"
  define e1 where "e1 = e\<lparr>continuations := [], pendingBytes := 0\<rparr>"
  define pb where "pb = byteLength (pending_json p)"
  define e2 where "e2 = e1\<lparr>continuations := [(token, p)], pendingBytes := pb\<rparr>"
  have pb: "0 \<le> pb" by (simp add: pb_def byteLength_def)
  have e1: "entry_ok (limits st0) e1" "entry_total e1 \<le> entry_total e" "newer e0 e1"
    using ok assms by (auto simp: e1_def entry_ok_def entry_total_def newer_def Let_def)
  have e2: "entry_ok (limits st0) e2" "newer e0 e2" "entry_total e2 = entry_bytes e1 + pb"
    using ok assms pb by (auto simp: e2_def e1_def entry_ok_def entry_total_def newer_def Let_def)
  show "valid_eff (at st0 owner sid e)
     (bindS (put_entry owner sid (e\<lparr>continuations := [], pendingBytes := 0\<rparr>)) (\<lambda>_.
      bindS (getS limits) (\<lambda>l.
      bindS (on_reg (ensureByteCapacity l owner sid
          (entry_bytes (e\<lparr>continuations := [], pendingBytes := 0\<rparr>) + byteLength (pending_json p))
          (entry_bytes (e\<lparr>continuations := [], pendingBytes := 0\<rparr>) + pendingBytes (e\<lparr>continuations := [], pendingBytes := 0\<rparr>)))) (\<lambda>_.
      bindS (put_entry owner sid (e\<lparr>continuations := [], pendingBytes := 0, continuations := [(token, p)], pendingBytes := byteLength (pending_json p)\<rparr>))
        (\<lambda>_. retS (e\<lparr>continuations := [], pendingBytes := 0, continuations := [(token, p)], pendingBytes := byteLength (pending_json p)\<rparr>))))))
     (\<lambda>e1 st. newer e0 e1 \<and> at st0 owner sid e1 st) (moved st0 owner sid e0)"
    unfolding e1_def [symmetric] pb_def [symmetric] e2_def [symmetric] entry_total_def [symmetric]
    by (rule valid_bind [OF put_at [OF e1(1,2)]], rule valid_bind [OF limits_at], rule valid_pure, hypsubst,
        rule valid_bind [OF valid_moved [OF ensure_at e1(3)]],
        rule valid_bind [OF put_at_room [OF e2(1), of owner sid e1, unfolded e2(3)]], rule valid_ret)
       (use e2 in simp)
qed

lemma full_moved:
  assumes "newer e0 e"
  shows "valid_eff (at st0 owner sid e) (createFullContinuation owner sid e latest base maxNodes)
    (\<lambda>_. moved st0 owner sid e0) (moved st0 owner sid e0)"
proof -
  have "valid_eff (at st0 owner sid e) (retS x :: control_observation_result store_op)
      (\<lambda>_. moved st0 owner sid e0) (moved st0 owner sid e0)" for x
    by (rule valid_ret) (auto intro: at_moved assms)
  moreover have "valid_eff (at st0 owner sid e)
      (bindS (fresh_id ''f'') (\<lambda>token. bindS (storeContinuation owner sid e token p) (\<lambda>e1.
        emit_op owner sid e1 token p maxNodes)))
      (\<lambda>_. moved st0 owner sid e0) (moved st0 owner sid e0)" for p
    by (rule valid_bind [OF fresh_at], rule valid_bind [OF storeContinuation_at [OF assms]], rule valid_pure,
        rule emit_moved)
  ultimately show ?thesis unfolding createFullContinuation_def Let_def by simp
qed

lemma delta_tail_moved:
  assumes "newer e0 e"
  shows "valid_eff (at st0 owner sid e)
      (bindS (fresh_id ''c'') (\<lambda>token. bindS (storeContinuation owner sid e token p) (\<lambda>e2.
        emit_op owner sid e2 token p maxNodes)))
      (\<lambda>_. moved st0 owner sid e0) (moved st0 owner sid e0)"
  by (rule valid_bind [OF fresh_at], rule valid_bind [OF storeContinuation_at [OF assms]], rule valid_pure,
      rule emit_moved)

lemma delta_body_moved:
  "valid_eff (at st0 owner sid e) (delta_body clk owner sid base maxNodes token e)
     (\<lambda>_. moved st0 owner sid e) (moved st0 owner sid e)"
  unfolding delta_body_def Let_def
proof (rule valid_assume [OF at_entry_ok], assumption, rule valid_bind [OF put_at], simp, simp,
    rule valid_bind [OF lift_moved [OF newer_frame(1)]], rule valid_pure)
  fix latest assume ok: "entry_ok (limits st0) e"
  define e1 where "e1 = e\<lparr>lastAccessAt := clk 1\<rparr>"
  define e2 where "e2 = e1\<lparr>continuations := [], pendingBytes := 0\<rparr>"
  have n1: "newer e e1" by (simp add: e1_def)
  have e2: "entry_ok (limits st0) e2" "entry_total e2 \<le> entry_total e1" "newer e e2"
    using ok by (auto simp: e1_def e2_def entry_ok_def entry_total_def newer_def Let_def)
  have ret: "valid_eff (at st0 owner sid e2) (retS x :: control_observation_result store_op)
      (\<lambda>_. moved st0 owner sid e) (moved st0 owner sid e)" for x
    by (rule valid_ret) (auto intro: at_moved e2(3))
  have resume: "valid_eff (at st0 owner sid e1)
      (bindS (liftE (resumeContinuation e1 tok base latest maxNodes)) (\<lambda>p. emit_op owner sid e1 tok p maxNodes))
      (\<lambda>_. moved st0 owner sid e) (moved st0 owner sid e)" for tok
    by (rule valid_bind [OF lift_moved [OF n1]], rule valid_pure, rule emit_moved [OF n1])
  have start: "valid_eff (at st0 owner sid e1)
      (bindS (put_entry owner sid e2) (\<lambda>_.
        case find (\<lambda>item. observationId item = base) (history e2) of
          None \<Rightarrow> createFullContinuation owner sid e2 latest base maxNodes
        | Some baseline \<Rightarrow>
            (if pd_changes (deltaPending baseline latest base maxNodes) = [] then
               retS (Delta (completeDelta (deltaPending baseline latest base maxNodes) (observationId latest) [] [] None
                 (pd_metadata (deltaPending baseline latest base maxNodes))
                 (int (length (pd_changes (deltaPending baseline latest base maxNodes)))
                  - int (pd_offset (deltaPending baseline latest base maxNodes)))))
             else bindS (fresh_id ''c'') (\<lambda>token.
               bindS (storeContinuation owner sid e2 token (deltaPending baseline latest base maxNodes)) (\<lambda>e2.
               emit_op owner sid e2 token (deltaPending baseline latest base maxNodes) maxNodes)))))
      (\<lambda>_. moved st0 owner sid e) (moved st0 owner sid e)"
    by (rule valid_bind [OF put_at [OF e2(1,2)]])
       (auto split: option.splits intro: full_moved [OF e2(3)] delta_tail_moved [OF e2(3)] ret)
  show "valid_eff (at st0 owner sid (e\<lparr>lastAccessAt := clk 1\<rparr>)) (case token of
      Some (c # cs) \<Rightarrow> bindS (liftE (resumeContinuation (e\<lparr>lastAccessAt := clk 1\<rparr>) (c # cs) base latest maxNodes))
        (\<lambda>p. emit_op owner sid (e\<lparr>lastAccessAt := clk 1\<rparr>) (c # cs) p maxNodes)
      | _ \<Rightarrow> bindS (put_entry owner sid (e\<lparr>lastAccessAt := clk 1, continuations := [], pendingBytes := 0\<rparr>)) (\<lambda>_.
        case find (\<lambda>item. observationId item = base) (history (e\<lparr>lastAccessAt := clk 1, continuations := [], pendingBytes := 0\<rparr>)) of
          None \<Rightarrow> createFullContinuation owner sid (e\<lparr>lastAccessAt := clk 1, continuations := [], pendingBytes := 0\<rparr>) latest base maxNodes
        | Some baseline \<Rightarrow>
            (if pd_changes (deltaPending baseline latest base maxNodes) = [] then
               retS (Delta (completeDelta (deltaPending baseline latest base maxNodes) (observationId latest) [] [] None
                 (pd_metadata (deltaPending baseline latest base maxNodes))
                 (int (length (pd_changes (deltaPending baseline latest base maxNodes)))
                  - int (pd_offset (deltaPending baseline latest base maxNodes)))))
             else bindS (fresh_id ''c'') (\<lambda>token.
               bindS (storeContinuation owner sid (e\<lparr>lastAccessAt := clk 1, continuations := [], pendingBytes := 0\<rparr>) token (deltaPending baseline latest base maxNodes)) (\<lambda>e2.
               emit_op owner sid e2 token (deltaPending baseline latest base maxNodes) maxNodes)))))
      (\<lambda>_. moved st0 owner sid e) (moved st0 owner sid e)"
    unfolding e1_def [symmetric] e2_def [symmetric]
    using resume start by (auto split: option.splits list.splits)
qed

section \<open>Recording\<close>

lemma accepted_write_newer:
  assumes "rejectStaleWrite e ob ve = Inr u" "hd (history e') = ob" "eventEpoch e' = eventEpoch e"
  shows "newer e e'"
  using assms
  by (auto simp: rejectStaleWrite_def tryE_Inr_iff store_fail_def newer_def Let_def
      dest!: current_hd split: if_splits)

lemma owner_at: "valid_eff (at st0 owner sid e) (on_reg (requireOwner owner)) (\<lambda>_. at st0 owner sid e) (at st0 owner sid e)"
proof -
  have "owner \<in> set (jkeys (owners (reg st)))" if "find_entry (reg st) owner sid = Some e" for st
    using that by (force simp: find_entry_def split: option.splits dest: map_of_SomeD)
  then show ?thesis
    by (auto simp: valid_eff_def on_reg_def requireOwner_def store_fail_def at_def)
qed

lemma record_history_at:
  assumes stale: "rejectStaleWrite e ob ve = Inr u"
  shows "valid_eff (at st0 owner (surfaceId ob) e) (record_history clk owner ob (Some e))
    (\<lambda>_. moved st0 owner (surfaceId ob) e) (moved st0 owner (surfaceId ob) e)"
  unfolding record_history_def Let_def option.case
proof (rule valid_assume [OF at_entry_ok], assumption, rule valid_assume [OF at_limits_ok], assumption,
    rule valid_bind [OF limits_at], rule valid_pure, hypsubst, rule valid_bind [OF lift_moved [OF newer_refl]],
    rule valid_pure)
  fix h
  assume ok: "entry_ok (limits st0) e" "limits_ok (limits st0)"
    and trim: "trimHistory (take (nat (maxHistoryPerSurface (limits st0)))
      (ob # filter (\<lambda>c. observationId c \<noteq> observationId ob) (history e))) (limits st0) = Inr h"
  define e' where "e' = e\<lparr>history := h, entry_bytes := byteLength (history_json h), pendingBytes := 0,
     dirtyReasons := [], continuations := [], lastAccessAt := clk 2\<rparr>"
  have e': "entry_ok (limits st0) e'" "hd (history e') = ob"
    using trimmed_entry_ok [OF trim ok(2), of e'] by (simp_all add: e'_def)
  have new: "newer e e'" by (rule accepted_write_newer [OF stale e'(2)]) (simp add: e'_def)
  have tot: "entry_total e' = byteLength (history_json h)" by (simp add: e'_def entry_total_def)
  note put = put_at_room [OF e'(1), of owner "surfaceId ob" e, unfolded tot]
  show "valid_eff (at st0 owner (surfaceId ob) e)
     (bindS (on_reg (ensureByteCapacity (limits st0) owner (surfaceId ob) (byteLength (history_json h)) (entry_bytes e + pendingBytes e)))
       (\<lambda>_. put_entry owner (surfaceId ob) (e\<lparr>history := h, entry_bytes := byteLength (history_json h), pendingBytes := 0,
          dirtyReasons := [], continuations := [], lastAccessAt := clk 2\<rparr>)))
     (\<lambda>_. moved st0 owner (surfaceId ob) e) (moved st0 owner (surfaceId ob) e)"
    unfolding e'_def [symmetric] entry_total_def [symmetric]
    by (rule valid_bind [OF valid_moved [OF ensure_at newer_refl]], rule valid_post [OF put])
       (auto intro: at_moved new)
qed

lemma record_body_moved:
  "valid_eff (at st0 owner (surfaceId ob) e) (record_body clk owner ob ve)
     (\<lambda>_. moved st0 owner (surfaceId ob) e) (moved st0 owner (surfaceId ob) e)"
proof -
  have found: "valid_eff (at st0 owner sid e) (getS (\<lambda>st. find_entry (reg st) owner sid))
      (\<lambda>x st. x = Some e \<and> at st0 owner sid e st) R" for sid R
    by (auto simp: valid_eff_def getS_def at_def)
  have wr: "valid_eff (at st0 owner (surfaceId ob) e)
      (bindS (liftE (rejectStaleWrite e ob ve)) (\<lambda>_. record_history clk owner ob (Some e)))
      (\<lambda>_. moved st0 owner (surfaceId ob) e) (moved st0 owner (surfaceId ob) e)"
    by (rule valid_bind [OF lift_moved [OF newer_refl]], rule valid_pure, rule record_history_at)
  show ?thesis
    unfolding record_body_def
    by (rule valid_bind [OF valid_moved [OF owner_at newer_refl]], rule valid_bind [OF limits_at], rule valid_pure,
        rule valid_bind [OF lift_moved [OF newer_refl]], rule valid_pure, rule valid_bind [OF found], rule valid_pure)
       (use wr in simp)
qed

text \<open>A new surface: the slot is free, the quotas leave room for one more.\<close>

definition absent :: "store \<Rightarrow> string \<Rightarrow> string \<Rightarrow> store \<Rightarrow> bool" where
  "absent st0 owner sid st \<longleftrightarrow> store_inv st \<and> limits st = limits st0
     \<and> find_entry (reg st) owner sid = None \<and> others st0 owner sid st"

definition slot_free :: "store \<Rightarrow> string \<Rightarrow> store \<Rightarrow> bool" where
  "slot_free st0 owner st \<longleftrightarrow> int (length (owned (reg st) owner)) < maxSurfacesPerOwner (limits st0)
     \<and> int (surfaceCount (reg st)) < maxSurfacesTotal (limits st0)"

definition settled :: "store \<Rightarrow> string \<Rightarrow> string \<Rightarrow> store \<Rightarrow> bool" where
  "settled st0 owner sid st \<longleftrightarrow> store_inv st \<and> limits st = limits st0 \<and> others st0 owner sid st"

lemma absent_settled: "absent st0 owner sid st \<Longrightarrow> settled st0 owner sid st"
  by (simp add: absent_def settled_def)

lemma moved_settled: "moved st0 owner sid e st \<Longrightarrow> settled st0 owner sid st"
  by (auto simp: moved_def at_def settled_def)

lemma add_owner_inv:
  assumes "store_inv st" "owner \<notin> set (jkeys (owners (reg st)))"
  shows "store_inv (st\<lparr>reg := (reg st)\<lparr>owners := AList.update owner [] (owners (reg st))\<rparr>\<rparr>)"
    and "find_entry ((reg st)\<lparr>owners := AList.update owner [] (owners (reg st))\<rparr>) = find_entry (reg st)"
proof -
  let ?g = "(reg st)\<lparr>owners := AList.update owner [] (owners (reg st))\<rparr>"
  have o: "owners ?g = owners (reg st) @ [(owner, [])]" using assms(2) by (simp add: update_fresh)
  have none: "map_of (owners (reg st)) owner = None" using assms(2) by (simp add: map_of_eq_None_iff)
  show find: "find_entry ?g = find_entry (reg st)"
    by (intro ext) (simp add: find_entry_def none split: option.splits)
  have own: "owned ?g o' = owned (reg st) o'" for o' by (simp add: owned_def none)
  have "surfaceCount ?g = surfaceCount (reg st)" "totalBytes ?g = totalBytes (reg st)"
    by (simp_all add: surfaceCount_def totalBytes_def o)
  moreover have "reg_wf ?g"
    using store_inv_wf [OF assms(1)] assms(2) by (auto simp: reg_wf_def o wf_map_def)
  ultimately show "store_inv (st\<lparr>reg := ?g\<rparr>)"
    using assms(1) by (simp add: store_inv_def find own)
qed

lemma owner_absent: "valid_eff (absent st0 owner sid) (on_reg (requireOwner owner)) (\<lambda>_. absent st0 owner sid) (absent st0 owner sid)"
  using add_owner_inv
  by (auto simp: valid_eff_def on_reg_def requireOwner_def store_fail_def absent_def others_def)

lemma set_same_owner:
  assumes "map_of xs k = Some v"
  shows "AList.update k v xs = xs"
  using assms by (induction xs) (auto split: if_splits)

lemma absent_shrunk:
  assumes "absent st0 owner sid st" "shrunk keep (reg st) g"
  shows "absent st0 owner sid (st\<lparr>reg := g\<rparr>)"
proof -
  have inv: "store_inv st" using assms(1) by (simp add: absent_def)
  have sub: "find_entry g o' s = find_entry (reg st) o' s \<or> find_entry g o' s = None" for o' s
    using shrunk_find(1) [OF assms(2) store_inv_wf [OF inv], of o' s] by (cases "find_entry g o' s") auto
  have "others st0 owner sid (st\<lparr>reg := g\<rparr>)"
    using assms(1) sub unfolding absent_def others_def by simp metis
  moreover have "find_entry g owner sid = None" using sub [of owner sid] assms(1) by (auto simp: absent_def)
  ultimately show ?thesis using assms store_inv_shrunk [OF inv assms(2)] by (simp add: absent_def)
qed

lemma set_owner_absent:
  assumes "absent st0 owner sid st"
  defines "g \<equiv> (reg st)\<lparr>owners := AList.update owner (owned (reg st) owner) (owners (reg st))\<rparr>"
  shows "absent st0 owner sid (st\<lparr>reg := g\<rparr>)" and "owned g owner = owned (reg st) owner"
proof -
  show "owned g owner = owned (reg st) owner" by (simp add: g_def owned_def)
  show "absent st0 owner sid (st\<lparr>reg := g\<rparr>)"
  proof (cases "map_of (owners (reg st)) owner")
    case None
    then have "owner \<notin> set (jkeys (owners (reg st)))" by (simp add: map_of_eq_None_iff)
    with add_owner_inv [of st owner] assms(1) None show ?thesis
      by (simp add: g_def owned_def absent_def others_def)
  next
    case (Some m)
    then have "g = reg st" by (simp add: g_def owned_def set_same_owner)
    with assms(1) show ?thesis by simp
  qed
qed

lemma reserve_absent:
  "valid_eff (absent st0 owner sid) (on_reg (reserveSurface (limits st0) owner sid))
     (\<lambda>_ st. absent st0 owner sid st \<and> slot_free st0 owner st) (absent st0 owner sid)"
proof -
  have "absent st0 owner sid (st\<lparr>reg := g\<rparr>) \<and> (isl r \<or> slot_free st0 owner (st\<lparr>reg := g\<rparr>))"
    if a: "absent st0 owner sid st" and run: "reserveSurface (limits st0) owner sid (reg st) = (r, g)" for st r g
  proof -
    have inv: "store_inv st" and l: "limits_ok (limits st0)" using a by (auto simp: absent_def store_inv_def)
    define g1 where "g1 = evict_owned (limits st0) owner (reg st)"
    define g2 where "g2 = g1\<lparr>owners := AList.update owner (owned g1 owner) (owners g1)\<rparr>"
    have a1: "absent st0 owner sid (st\<lparr>reg := g1\<rparr>)"
      unfolding g1_def by (rule absent_shrunk [OF a evict_owned_shrunk [OF store_inv_wf [OF inv]]])
    have a2: "absent st0 owner sid (st\<lparr>reg := g2\<rparr>)" and o2: "owned g2 owner = owned g1 owner"
      using set_owner_absent [OF a1] by (simp_all add: g2_def)
    have wf2: "reg_wf g2" using a2 store_inv_wf [of "st\<lparr>reg := g2\<rparr>"] by (simp add: absent_def)
    have r: "evict_total (limits st0) owner sid g2 = (r, g)"
      using run by (simp add: reserveSurface_def Let_def g1_def g2_def)
    have sh: "shrunk (\<lambda>o' s. o' = owner \<and> s = sid) g2 g"
      using evict_total_shrunk [OF wf2, of owner sid "limits st0"] r by simp
    have "absent st0 owner sid (st\<lparr>reg := g\<rparr>)" using absent_shrunk [OF a2, of _ g] sh by simp
    moreover have "int (length (owned g owner)) < maxSurfacesPerOwner (limits st0)"
      using evict_owned_bound [of "limits st0" owner "reg st"] limits_okD(1) [OF l]
        shrunk_owned [OF sh wf2, of owner] o2 by (simp add: g1_def)
    ultimately show ?thesis
      using evict_total_Inr [of "limits st0" owner sid g2 _ g] r by (cases r) (auto simp: slot_free_def)
  qed
  then show ?thesis by (fastforce simp: valid_eff_def on_reg_def split: prod.splits sum.splits)
qed

lemma ensure_absent:
  "valid_eff (\<lambda>st. absent st0 owner sid st \<and> slot_free st0 owner st)
     (on_reg (ensureByteCapacity (limits st0) owner sid c 0))
     (\<lambda>_ st. (absent st0 owner sid st \<and> slot_free st0 owner st) \<and> totalBytes (reg st) + c \<le> maxBytesTotal (limits st0))
     (settled st0 owner sid)"
proof -
  have "(absent st0 owner sid (st\<lparr>reg := g\<rparr>) \<and> slot_free st0 owner (st\<lparr>reg := g\<rparr>))
      \<and> (r = Inr u \<longrightarrow> totalBytes g + c \<le> maxBytesTotal (limits st0))"
    if a: "absent st0 owner sid st" and s: "slot_free st0 owner st"
      and run: "ensureByteCapacity (limits st0) owner sid c 0 (reg st) = (r, g)" for st r u g
  proof -
    have wf: "reg_wf (reg st)" using a by (simp add: absent_def store_inv_def)
    have sh: "shrunk (\<lambda>o' s. o' = owner \<and> s = sid) (reg st) g"
      using ensureByteCapacity_shrunk [OF wf, of owner sid "limits st0" c 0] run by simp
    have "slot_free st0 owner (st\<lparr>reg := g\<rparr>)"
      using s shrunk_owned [OF sh wf, of owner] shrunk_counts(1) [OF sh] by (simp add: slot_free_def)
    with absent_shrunk [OF a sh] ensureByteCapacity_Inr [of "limits st0" owner sid c 0 "reg st" u g] run
    show ?thesis by auto
  qed
  then show ?thesis
    by (auto simp: valid_eff_def on_reg_def split: prod.splits sum.splits intro: absent_settled)
qed

lemma put_absent:
  assumes "entry_ok (limits st0) e'" "entry_total e' = c"
  shows "valid_eff (\<lambda>st. (absent st0 owner sid st \<and> slot_free st0 owner st)
       \<and> totalBytes (reg st) + c \<le> maxBytesTotal (limits st0))
     (put_entry owner sid e') (\<lambda>_. settled st0 owner sid) R"
proof -
  have "settled st0 owner sid (st\<lparr>reg := set_entry owner sid e' (reg st)\<rparr>)"
    if a: "absent st0 owner sid st" "slot_free st0 owner st"
      "totalBytes (reg st) + c \<le> maxBytesTotal (limits st0)" for st
  proof -
    have "store_inv (st\<lparr>reg := set_entry owner sid e' (reg st)\<rparr>)"
      by (rule put_inv) (use a assms in \<open>auto simp: absent_def slot_free_def\<close>)
    with a(1) show ?thesis by (auto simp: settled_def absent_def others_def find_set_entry)
  qed
  then show ?thesis by (simp add: valid_eff_def put_entry_def)
qed

lemma record_history_absent:
  "valid_eff (\<lambda>st. absent st0 owner (surfaceId ob) st \<and> slot_free st0 owner st)
     (record_history clk owner ob None) (\<lambda>_. settled st0 owner (surfaceId ob)) (settled st0 owner (surfaceId ob))"
  unfolding record_history_def Let_def option.case
proof (rule valid_assume [where c = "limits_ok (limits st0)"], simp add: absent_def store_inv_def, metis,
    rule valid_bind)
  show "valid_eff (\<lambda>st. absent st0 owner (surfaceId ob) st \<and> slot_free st0 owner st) (getS limits)
      (\<lambda>l st. l = limits st0 \<and> absent st0 owner (surfaceId ob) st \<and> slot_free st0 owner st) (settled st0 owner (surfaceId ob))"
    by (auto simp: valid_eff_def getS_def absent_def)
next
  fix l :: store_limits assume l: "limits_ok (limits st0)"
  let ?full = "take (nat (maxHistoryPerSurface l))
      (ob # filter (\<lambda>c. observationId c \<noteq> observationId ob) (history (emptyEntry (clk 1))))"
  show "valid_eff (\<lambda>st. l = limits st0 \<and> absent st0 owner (surfaceId ob) st \<and> slot_free st0 owner st)
      (bindS (liftE (trimHistory ?full l)) (\<lambda>h.
         bindS (on_reg (ensureByteCapacity l owner (surfaceId ob) (byteLength (history_json h)) 0))
           (\<lambda>_. put_entry owner (surfaceId ob) (emptyEntry (clk 1)\<lparr>history := h, entry_bytes := byteLength (history_json h),
              pendingBytes := 0, dirtyReasons := [], continuations := [], lastAccessAt := clk 2\<rparr>))))
      (\<lambda>_. settled st0 owner (surfaceId ob)) (settled st0 owner (surfaceId ob))"
  proof (rule valid_pure, rule valid_bind)
    show "valid_eff (\<lambda>st. absent st0 owner (surfaceId ob) st \<and> slot_free st0 owner st)
        (liftE (trimHistory ?full l))
        (\<lambda>h st. trimHistory ?full l = Inr h \<and> absent st0 owner (surfaceId ob) st \<and> slot_free st0 owner st)
        (settled st0 owner (surfaceId ob))"
      by (auto simp: valid_eff_def liftE_def absent_settled split: sum.splits)
  next
    fix h assume leq: "l = limits st0"
    show "valid_eff (\<lambda>st. trimHistory ?full l = Inr h \<and> absent st0 owner (surfaceId ob) st \<and> slot_free st0 owner st)
       (bindS (on_reg (ensureByteCapacity l owner (surfaceId ob) (byteLength (history_json h)) 0))
           (\<lambda>_. put_entry owner (surfaceId ob) (emptyEntry (clk 1)\<lparr>history := h, entry_bytes := byteLength (history_json h),
              pendingBytes := 0, dirtyReasons := [], continuations := [], lastAccessAt := clk 2\<rparr>)))
      (\<lambda>_. settled st0 owner (surfaceId ob)) (settled st0 owner (surfaceId ob))"
    proof (rule valid_pure, unfold leq, rule valid_bind [OF ensure_absent], rule put_absent)
      assume "trimHistory (take (nat (maxHistoryPerSurface (limits st0)))
        (ob # filter (\<lambda>c. observationId c \<noteq> observationId ob) (history (emptyEntry (clk 1))))) (limits st0) = Inr h"
      then show "entry_ok (limits st0) (emptyEntry (clk 1)\<lparr>history := h, entry_bytes := byteLength (history_json h),
              pendingBytes := 0, dirtyReasons := [], continuations := [], lastAccessAt := clk 2\<rparr>)"
        by (rule trimmed_entry_ok [OF _ l]) (simp_all add: emptyEntry_def)
    qed (simp add: entry_total_def)
  qed
qed

lemma record_body_absent:
  "valid_eff (absent st0 owner (surfaceId ob)) (record_body clk owner ob ve)
     (\<lambda>_. settled st0 owner (surfaceId ob)) (settled st0 owner (surfaceId ob))"
proof -
  let ?A = "absent st0 owner (surfaceId ob)" and ?S = "settled st0 owner (surfaceId ob)"
  have weak: "valid_eff P m Q ?A \<Longrightarrow> valid_eff P m Q ?S" for P and m :: "'a store_op" and Q
    by (erule valid_post) (auto intro: absent_settled)
  have lim: "valid_eff ?A (getS limits) (\<lambda>l st. l = limits st0 \<and> ?A st) ?S"
    by (auto simp: valid_eff_def getS_def absent_def)
  have lift: "valid_eff ?A (liftE r) (\<lambda>_. ?A) ?S" for r :: "store_error + 'b"
    by (auto simp: valid_eff_def liftE_def absent_settled split: sum.splits)
  have found: "valid_eff ?A (getS (\<lambda>st. find_entry (reg st) owner (surfaceId ob))) (\<lambda>x st. x = None \<and> ?A st) ?S"
    by (auto simp: valid_eff_def getS_def absent_def)
  have refuse: "valid_eff ?A (liftE (store_fail c m) :: unit store_op) (\<lambda>_. ?S) ?S" for c m
    by (auto simp: valid_eff_def liftE_def store_fail_def absent_settled)
  have accept: "valid_eff ?A (bindS (on_reg (reserveSurface (limits st0) owner (surfaceId ob)))
      (\<lambda>_. record_history clk owner ob None)) (\<lambda>_. ?S) ?S"
    by (rule valid_bind [OF valid_post [OF reserve_absent]], assumption, erule absent_settled,
        rule record_history_absent)
  show ?thesis
    unfolding record_body_def
    by (rule valid_bind [OF valid_post [OF owner_absent]], assumption, erule absent_settled,
        rule valid_bind [OF lim], rule valid_pure, rule valid_bind [OF lift], rule valid_bind [OF found], rule valid_pure)
       (use refuse accept in simp)
qed

section \<open>Every operation\<close>

definition purged :: "int \<Rightarrow> store \<Rightarrow> store" where
  "purged now st = st\<lparr>reg := purgeIdle (limits st) now (reg st)\<rparr>"

lemma purge_bind: "bindS (purge now) f st = f () (purged now st)"
  by (simp add: bindS_def purge_def purged_def)

lemma purged_inv: "store_inv st \<Longrightarrow> store_inv (purged now st)"
  unfolding purged_def by (rule store_inv_shrunk [OF _ purgeIdle_shrunk]) (simp_all add: store_inv_wf)

lemma purged_limits [simp]: "limits (purged now st) = limits st"
  by (simp add: purged_def)

lemma purged_find:
  "store_inv st \<Longrightarrow> find_entry (reg (purged now st)) o' s = Some e \<longleftrightarrow>
     find_entry (reg st) o' s = Some e \<and> \<not> idle (limits st) now e"
  by (simp add: purged_def purgeIdle_find store_inv_wf)

text \<open>What an operation on one surface may do to the store.\<close>

definition step_ok :: "store \<Rightarrow> string \<Rightarrow> string \<Rightarrow> store \<Rightarrow> bool" where
  "step_ok st1 owner sid st' \<longleftrightarrow> settled st1 owner sid st' \<and>
     (\<forall>e. find_entry (reg st1) owner sid = Some e \<longrightarrow>
        (\<exists>e'. find_entry (reg st') owner sid = Some e' \<and> newer e e'))"

lemma step_ok_others:
  assumes "step_ok st1 owner sid st'" "(o', s) \<noteq> (owner, sid)"
  shows "find_entry (reg st') o' s = find_entry (reg st1) o' s \<or> find_entry (reg st') o' s = None"
proof -
  from assms(1) have "others st1 owner sid st'" by (simp add: step_ok_def settled_def)
  with assms(2) show ?thesis by (simp only: others_def) metis
qed

lemma settled_refl: "store_inv st \<Longrightarrow> settled st o' s st"
  by (simp add: settled_def others_def)

lemma step_ok_refl: "store_inv st \<Longrightarrow> step_ok st o' s st"
  by (auto simp: step_ok_def settled_refl)

lemma at_refl: "store_inv st \<Longrightarrow> find_entry (reg st) o' s = Some e \<Longrightarrow> at st o' s e st"
  by (simp add: at_def others_def)

lemma moved_step_ok: "find_entry (reg st1) o' s = Some e \<Longrightarrow> moved st1 o' s e st' \<Longrightarrow> step_ok st1 o' s st'"
  using moved_settled by (auto simp: step_ok_def moved_def at_def)

lemma entry_step_ok:
  assumes "store_inv st1" "find_entry (reg st1) o' s = Some e"
    "valid_eff (at st1 o' s e) m (\<lambda>_. moved st1 o' s e) (moved st1 o' s e)"
  shows "step_ok st1 o' s (snd (m st1))"
  by (rule valid_state [OF assms(3) at_refl [OF assms(1,2)]]) (auto intro: moved_step_ok [OF assms(2)])

lemma require_step_ok:
  assumes "store_inv st1" "\<And>e. valid_eff (at st1 o' s e) (f e) (\<lambda>_. moved st1 o' s e) (moved st1 o' s e)"
  shows "step_ok st1 o' s (snd (bindS (require_entry o' s) f st1))"
proof (cases "find_entry (reg st1) o' s")
  case None
  then have "\<exists>er. requireEntry (reg st1) o' s = Inl er"
    by (auto simp: requireEntry_def find_entry_def store_fail_def split: option.splits)
  with assms(1) show ?thesis by (auto simp: bindS_def require_entry_def step_ok_refl)
next
  case (Some e)
  then have "requireEntry (reg st1) o' s = Inr e"
    by (auto simp: requireEntry_def find_entry_def split: option.splits)
  then have "bindS (require_entry o' s) f st1 = f e st1" by (simp add: bindS_def require_entry_def)
  with entry_step_ok [OF assms(1) Some assms(2)] show ?thesis by simp
qed

lemma record_step_ok:
  assumes "store_inv st1"
  shows "step_ok st1 owner (surfaceId ob) (snd (record_body clk owner ob ve st1))"
proof (cases "find_entry (reg st1) owner (surfaceId ob)")
  case None
  with assms have "absent st1 owner (surfaceId ob) st1" by (simp add: absent_def others_def)
  then have "settled st1 owner (surfaceId ob) (snd (record_body clk owner ob ve st1))"
    by (rule valid_state [OF record_body_absent])
  with None show ?thesis by (simp add: step_ok_def)
next
  case (Some e)
  show ?thesis by (rule entry_step_ok [OF assms Some record_body_moved])
qed

lemma get_step_ok:
  assumes "store_inv st1"
  shows "step_ok st1 owner sid (snd (bindS (getS (\<lambda>st. find_entry (reg st) owner sid))
      (\<lambda>found. case found of None \<Rightarrow> retS None | Some e \<Rightarrow> get_body clk owner sid e) st1))"
proof (cases "find_entry (reg st1) owner sid")
  case (Some e)
  with entry_step_ok [OF assms Some get_body_moved] show ?thesis by (simp add: bindS_def getS_def)
qed (simp add: bindS_def getS_def retS_def step_ok_refl [OF assms])

fun event_time :: "store_event \<Rightarrow> int" where
  "event_time (Record clk _ _ _) = clk 0"
| "event_time (Get clk _ _) = clk 0"
| "event_time (ValidationEpoch clk _ _) = clk 0"
| "event_time (MarkDirty clk _ _ _ _) = clk 0"
| "event_time (Invalidate clk _ _ _ _) = clk 0"
| "event_time (Delta_request clk _ _ _ _ _) = clk 0"
| "event_time (Release clk _) = clk 0"

fun event_owner :: "store_event \<Rightarrow> string" where
  "event_owner (Record _ owner _ _) = owner"
| "event_owner (Get _ owner _) = owner"
| "event_owner (ValidationEpoch _ owner _) = owner"
| "event_owner (MarkDirty _ owner _ _ _) = owner"
| "event_owner (Invalidate _ owner _ _ _) = owner"
| "event_owner (Delta_request _ owner _ _ _ _) = owner"
| "event_owner (Release _ owner) = owner"

text \<open>The surface an event is about; a release is about every surface of its owner.\<close>

fun event_surface :: "store_event \<Rightarrow> string option" where
  "event_surface (Record _ _ ob _) = Some (surfaceId ob)"
| "event_surface (Get _ _ sid) = Some sid"
| "event_surface (ValidationEpoch _ _ sid) = Some sid"
| "event_surface (MarkDirty _ _ sid _ _) = Some sid"
| "event_surface (Invalidate _ _ sid _ _) = Some sid"
| "event_surface (Delta_request _ _ sid _ _ _) = Some sid"
| "event_surface (Release _ _) = None"

lemma surface_event_ok:
  assumes inv: "store_inv st" and "event_surface ev = Some sid"
  shows "step_ok (purged (event_time ev) st) (event_owner ev) sid (store_step st ev)"
proof (cases ev)
  case (Delta_request clk owner sid' base n tok)
  note p = purged_inv [OF inv, of "clk 0"]
  show ?thesis
  proof (cases "n \<le> 0")
    case True
    with step_ok_refl [OF p] Delta_request show ?thesis
      by (simp add: delta_def purge_bind liftE_def)
  next
    case False
    with require_step_ok [OF p, of owner sid' "delta_body clk owner sid' base n tok"] delta_body_moved
      Delta_request assms(2) show ?thesis by (simp add: delta_def purge_bind)
  qed
qed (use assms in
    \<open>auto simp: record_observation_def get_observation_def validationEpoch_of_def markDirty_def
       invalidate_def purge_bind intro!: record_step_ok get_step_ok require_step_ok epoch_body_moved
       mark_body_moved invalidate_body_moved purged_inv [OF inv]\<close>)

lemma release_find:
  assumes "reg_wf g"
  shows "find_entry (release_owner owner g) o' s = (if o' = owner then None else find_entry g o' s)"
  by (auto simp: release_owner_def find_entry_def split: option.splits)

lemma release_shrunk:
  assumes "reg_wf g"
  shows "shrunk (\<lambda>o' s. o' \<noteq> owner) g (release_owner owner g)"
proof (cases "map_of (owners g) owner")
  case None
  with assms show ?thesis by (simp add: release_owner_def)
next
  case (Some m)
  have wf: "reg_wf (release_owner owner g)"
    using assms set_delete_subset by (fastforce simp: release_owner_def Some reg_wf_def)
  have "all_surfaces (release_owner owner g) = filter (\<lambda>(o', _). o' \<noteq> owner) (all_surfaces g)"
  proof -
    have "concat (map (\<lambda>(o', m). map (\<lambda>(s, e). (o', s, e)) m) (filter (\<lambda>(k, _). owner \<noteq> k) xs)) =
        filter (\<lambda>(o', _). o' \<noteq> owner) (concat (map (\<lambda>(o', m). map (\<lambda>(s, e). (o', s, e)) m) xs))"
      for xs :: "(string \<times> (string \<times> surface_entry) list) list"
      by (induction xs) (auto simp: filter_map comp_def case_prod_beta' intro!: filter_True filter_False)
    then show ?thesis by (simp add: all_surfaces_def release_owner_def Some AList.delete_eq)
  qed
  with wf show ?thesis unfolding shrunk_def by (intro conjI exI [of _ "\<lambda>(o', _). o' \<noteq> owner"]) auto
qed

lemma release_step: "store_step st (Release clk owner) =
    (purged (clk 0) st)\<lparr>reg := release_owner owner (reg (purged (clk 0) st))\<rparr>"
  by (simp add: release_def purge_bind)

lemma store_step_inv: "store_inv st \<Longrightarrow> store_inv (store_step st ev)"
proof (cases "event_surface ev")
  case None
  then obtain clk owner where ev: "ev = Release clk owner" by (cases ev) auto
  assume "store_inv st"
  then show ?thesis unfolding ev release_step
    by (intro store_inv_shrunk [OF purged_inv release_shrunk] store_inv_wf purged_inv)
next
  case (Some sid)
  assume "store_inv st"
  from surface_event_ok [OF this Some] show ?thesis by (simp add: step_ok_def settled_def)
qed

interpretation store_sys: invariant_system store_step store_inv
  by unfold_locales (rule store_step_inv)

lemma new_store_inv: "new_store l = Inr st \<Longrightarrow> store_inv st"
proof -
  assume "new_store l = Inr st"
  then have st: "st = \<lparr>limits = l, reg = \<lparr>owners = [], evictions = []\<rparr>, idSequence = 0\<rparr>"
    and ok: "check_limits (limit_values l) = Inr ()" by (auto simp: new_store_def tryE_Inr_iff)
  have "check_limits vs = Inr () \<Longrightarrow> \<forall>v \<in> snd ` set vs. 1 \<le> v" for vs
    by (induction vs) (fastforce simp: store_fail_def split: if_splits)+
  with ok have l: "limits_ok l" by (simp add: limits_ok_def)
  then have "0 \<le> maxBytesTotal l" "0 \<le> maxSurfacesPerOwner l" "0 \<le> maxSurfacesTotal l"
    by (auto simp: limits_ok_def limit_values_def)
  with l show "store_inv st"
    by (simp add: st store_inv_def reg_wf_def find_entry_def owned_def surfaceCount_def totalBytes_def)
qed

section \<open>A write that was validated before an event\<close>

lemma invalidate_body_epoch:
  assumes "\<not> (key \<noteq> None \<and> lastEventKey e = key)"
  shows "valid_eff (at st0 owner sid e) (invalidate_body clk owner sid reason key e)
     (\<lambda>_ st. \<exists>e'. find_entry (reg st) owner sid = Some e' \<and> eventEpoch e' = eventEpoch e + 1) (\<lambda>_. True)"
  unfolding invalidate_body_def
proof (rule valid_assume [OF at_entry_ok], assumption,
    rule valid_bind [OF valid_post [OF lift_at]], assumption, rule TrueI, rule valid_pure)
  fix ob assume ok: "entry_ok (limits st0) e"
  define e1 where "e1 = e\<lparr>eventEpoch := eventEpoch e + 1, lastEventKey := key\<rparr>"
  have adv: "advanceEvent e key = (True, e1)" using assms by (auto simp: advanceEvent_def e1_def)
  have e1: "entry_ok (limits st0) e1" "entry_total e1 \<le> entry_total e"
    using ok by (simp_all add: e1_def entry_ok_def entry_total_def)
  have fin: "valid_eff (\<lambda>st. (hd (history e2) = h \<and> dirtyReasons e2 = dirtyReasons e1 \<and> eventEpoch e2 = eventEpoch e1)
        \<and> at st0 owner sid e2 st)
      (put_entry owner sid ((rememberDirtyReason e2 reason)\<lparr>continuations := [], lastAccessAt := clk 1\<rparr>))
      (\<lambda>_ st. \<exists>e'. find_entry (reg st) owner sid = Some e' \<and> eventEpoch e' = eventEpoch e + 1) (\<lambda>_. True)" for e2 h
    by (auto simp: valid_eff_def put_entry_def find_set_entry e1_def)
  show "valid_eff (at st0 owner sid e)
      (let (advanced, e1) = advanceEvent e key in
       if \<not> advanced then retS ()
       else bindS (put_entry owner sid e1) (\<lambda>_. bindS (fresh_id ''i'') (\<lambda>i.
         bindS (pushHistory owner sid e1 (ob\<lparr>observationId := i, generation := generation ob + 1, freshness := UnknownFreshness,
              watchHealth := Lost, revision := revision ob + 1,
              coverage := \<lparr>cov_scope = InSurface, cov_truncated = True, cov_omittedNodes = 0,
                cov_expansionHandle = None\<rparr>,
              nodes := []\<rparr>)) (\<lambda>e2.
         put_entry owner sid ((rememberDirtyReason e2 reason)\<lparr>continuations := [], lastAccessAt := clk 1\<rparr>)))))
      (\<lambda>_ st. \<exists>e'. find_entry (reg st) owner sid = Some e' \<and> eventEpoch e' = eventEpoch e + 1) (\<lambda>_. True)"
    unfolding adv Let_def prod.case
    by (simp, rule valid_bind [OF put_at [OF e1]], rule valid_bind [OF fresh_at],
        rule valid_bind [OF valid_post [OF pushHistory_at]], assumption, rule TrueI, use fin in simp)
qed

lemma late_write:
  assumes ne: "ve \<noteq> None" and epoch: "\<And>e. find_entry (reg st) owner (surfaceId ob) = Some e \<Longrightarrow>
      0 < eventEpoch e \<and> ve \<noteq> Some (eventEpoch e)"
  shows "isl (fst (record_body clk owner ob ve st))"
proof -
  have rej: "\<exists>er. rejectStaleWrite e ob ve = Inl er" if "find_entry (reg st) owner (surfaceId ob) = Some e" for e
    using epoch [OF that]
    by (cases "current_observation e") (auto simp: rejectStaleWrite_def store_fail_def)
  have own: "find_entry (reg st') = find_entry (reg st)"
    if "on_reg (requireOwner owner) st = (Inr u, st')" for u st'
  proof -
    have "find_entry (g\<lparr>owners := AList.update owner [] (owners g)\<rparr>) = find_entry g"
      if "owner \<notin> set (jkeys (owners g))" for g
    proof -
      have "map_of (owners g) owner = None" using that by (simp add: map_of_eq_None_iff)
      then show ?thesis by (intro ext) (simp add: find_entry_def split: option.splits)
    qed
    with that show ?thesis by (auto simp: on_reg_def requireOwner_def store_fail_def split: if_splits)
  qed
  show ?thesis
  proof (cases "on_reg (requireOwner owner) st")
    case (Pair r st1)
    show ?thesis
    proof (cases r)
      case (Inr u)
      note f = own [OF Pair [unfolded Inr]]
      show ?thesis
      proof (cases "validateObservation ob (limits st1)")
        case (Inr v)
        show ?thesis
        proof (cases "find_entry (reg st) owner (surfaceId ob)")
          case None
          with ne show ?thesis
            by (simp add: record_body_def bindS_def Pair \<open>r = Inr u\<close> getS_def liftE_def Inr f store_fail_def)
        next
          case (Some e)
          with rej obtain er where "rejectStaleWrite e ob ve = Inl er" by blast
          with Some show ?thesis
            by (simp add: record_body_def bindS_def Pair \<open>r = Inr u\<close> getS_def liftE_def Inr f)
        qed
      qed (simp add: record_body_def bindS_def Pair Inr getS_def liftE_def)
    qed (simp add: record_body_def bindS_def Pair)
  qed
qed

section \<open>Properties\<close>

definition demo_store :: store where
  "demo_store = \<lparr>limits = DEFAULT_LIMITS, reg = \<lparr>owners = [], evictions = []\<rparr>, idSequence = 0\<rparr>"

lemma demo_store_new: "new_store DEFAULT_LIMITS = Inr demo_store"
  by (simp add: new_store_def DEFAULT_LIMITS_def limit_values_def demo_store_def)

definition demo_blank :: control_observation where
  "demo_blank = demo_tree\<lparr>nodes := []\<rparr>"

definition demo_surface :: surface_entry where
  "demo_surface = (emptyEntry 0)\<lparr>history := [demo_blank], entry_bytes := byteLength (history_json [demo_blank])\<rparr>"

definition demo_recorded :: store where
  "demo_recorded = demo_store\<lparr>reg := \<lparr>owners = [(''alice'', [(''s1'', demo_surface)])], evictions = []\<rparr>\<rparr>"

lemma demo_size: "byteLength (history_json [demo_blank]) \<le> 1000"
  by (simp add: byteLength_def history_json_def demo_blank_def demo_tree_def observation_json_def)
     (simp add: json_quote_def escape_char_def coverage_json_def bool_text_def show_int_def base_digit_def
       Let_def, simp add: show_base.simps base_digit_def)

lemma demo_recorded_inv: "store_inv demo_recorded"
proof -
  have "put_entry ''alice'' ''s1'' demo_surface demo_store = (Inr (), demo_recorded)"
    by (simp add: put_entry_def set_entry_def owned_def demo_recorded_def demo_store_def)
  moreover have "store_inv (snd (put_entry ''alice'' ''s1'' demo_surface demo_store))"
    unfolding put_entry_def snd_conv
  proof (rule put_inv)
    show "store_inv demo_store" by (rule new_store_inv [OF demo_store_new])
    show "entry_ok (limits demo_store) demo_surface"
      using demo_size
      by (simp add: entry_ok_def demo_surface_def emptyEntry_def demo_store_def DEFAULT_LIMITS_def image_count_def demo_blank_def demo_tree_def)
  qed (use demo_size in \<open>simp_all add: demo_store_def totalBytes_def find_entry_def entry_total_def demo_surface_def
      emptyEntry_def DEFAULT_LIMITS_def owned_def surfaceCount_def\<close>)
  ultimately show ?thesis by simp
qed



text \<open>The current observation of a surface never goes back: unless the surface expired, was evicted or
  released, every call leaves it with the same or a later generation, within a generation the same or
  a later revision, the same or a later policy revision, and the same or a later event epoch.\<close>

theorem current_observation_moves_forward:
  assumes "store_inv st" "find_entry (reg st) owner sid = Some e"
    and "\<not> idle (limits st) (event_time ev) e"
    and "find_entry (reg (store_step st ev)) owner sid = Some e'"
  shows "newer e e'"
proof -
  let ?st1 = "purged (event_time ev) st"
  have at1: "find_entry (reg ?st1) owner sid = Some e" using assms(1-3) by (simp add: purged_find)
  show ?thesis
  proof (cases "event_surface ev")
    case None
    then obtain clk o' where ev: "ev = Release clk o'" by (cases ev) auto
    have "find_entry (reg (store_step st ev)) owner sid = (if owner = o' then None else Some e)"
      using at1 by (simp only: ev release_step) (simp add: release_find store_inv_wf [OF purged_inv [OF assms(1)]])
    with assms(4) show ?thesis by (simp split: if_splits)
  next
    case (Some s')
    note ok = surface_event_ok [OF assms(1) Some]
    show ?thesis
    proof (cases "(owner, sid) = (event_owner ev, s')")
      case True
      with ok at1 assms(4) show ?thesis by (auto simp: step_ok_def)
    next
      case False
      with ok have "find_entry (reg (store_step st ev)) owner sid = find_entry (reg ?st1) owner sid
          \<or> find_entry (reg (store_step st ev)) owner sid = None"
        by (intro step_ok_others)
      with at1 assms(4) show ?thesis by auto
    qed
  qed
qed

lemma demo_find: "find_entry (reg demo_recorded) ''alice'' ''s1'' = Some demo_surface"
  by (simp add: demo_recorded_def find_entry_def)

lemma demo_fresh: "\<not> idle (limits demo_recorded) 5 demo_surface"
  by (simp add: idle_def demo_recorded_def demo_store_def DEFAULT_LIMITS_def demo_surface_def emptyEntry_def)

lemma demo_get:
  "find_entry (reg (store_step demo_recorded (Get (\<lambda>_. 5) ''alice'' ''s1''))) ''alice'' ''s1''
     = Some (demo_surface\<lparr>lastAccessAt := 5\<rparr>)"
proof -
  have "find_entry (reg (purged 5 demo_recorded)) ''alice'' ''s1'' = Some demo_surface"
    by (simp add: purged_find [OF demo_recorded_inv] demo_find demo_fresh)
  then have "snd (get_observation (\<lambda>_. 5) ''alice'' ''s1'' demo_recorded) =
      snd (get_body (\<lambda>_. 5) ''alice'' ''s1'' demo_surface (purged 5 demo_recorded))"
    unfolding get_observation_def purge_bind by (simp add: bindS_def getS_def)
  then show ?thesis
    by (simp add: get_body_def bindS_def put_entry_def liftE_def retS_def current_observation_def
        demo_surface_def find_set_entry)
qed

theorem current_observation_moves_forward_witness:
  "newer demo_surface (demo_surface\<lparr>lastAccessAt := 5\<rparr>)"
  by (rule current_observation_moves_forward [OF demo_recorded_inv demo_find _ demo_get]) (simp add: demo_fresh)

text \<open>Owners do not see or change each other's observations: a call by one owner leaves every surface of
  another owner exactly as it was, or removes it (expiry or eviction) as a whole.\<close>

theorem owners_are_isolated:
  assumes "store_inv st" "event_owner ev \<noteq> owner"
  shows "find_entry (reg (store_step st ev)) owner sid \<in> {find_entry (reg st) owner sid, None}"
proof -
  let ?st1 = "purged (event_time ev) st"
  have purge: "find_entry (reg ?st1) owner sid = find_entry (reg st) owner sid \<or> find_entry (reg ?st1) owner sid = None"
  proof (cases "find_entry (reg ?st1) owner sid")
    case (Some e)
    with purged_find [OF assms(1), of "event_time ev" owner sid e] show ?thesis by simp
  qed simp
  show ?thesis
  proof (cases "event_surface ev")
    case None
    then obtain clk o' where ev: "ev = Release clk o'" by (cases ev) auto
    have "find_entry (reg (store_step st ev)) owner sid = find_entry (reg ?st1) owner sid"
      using assms(2) by (simp only: ev release_step) (simp add: release_find store_inv_wf [OF purged_inv [OF assms(1)]])
    with purge show ?thesis by auto
  next
    case (Some s')
    have "find_entry (reg (store_step st ev)) owner sid = find_entry (reg ?st1) owner sid
        \<or> find_entry (reg (store_step st ev)) owner sid = None"
      by (rule step_ok_others [OF surface_event_ok [OF assms(1) Some]]) (use assms(2) in auto)
    with purge show ?thesis by auto
  qed
qed

theorem owners_are_isolated_witness:
  "find_entry (reg (store_step demo_recorded (Release (\<lambda>_. 5) ''bob''))) ''alice'' ''s1''
     \<in> {Some demo_surface, None}"
  using owners_are_isolated [OF demo_recorded_inv, of "Release (\<lambda>_. 5) ''bob''" "''alice''" "''s1''"]
  by (simp add: demo_find)


text \<open>What a record that returns leaves behind.\<close>

definition holds_now :: "string \<Rightarrow> control_observation \<Rightarrow> int \<Rightarrow> store \<Rightarrow> bool" where
  "holds_now owner ob t st \<longleftrightarrow> (\<exists>e rest. find_entry (reg st) owner (surfaceId ob) = Some e
     \<and> history e = ob # rest \<and> lastAccessAt e = t)"

lemma hist_holds_now:
  "valid_eff (\<lambda>st. limits_ok (limits st)) (record_history clk owner ob x)
     (\<lambda>_. holds_now owner ob (clk 2)) (\<lambda>_. True)"
  unfolding record_history_def Let_def
proof (rule valid_bind)
  show "valid_eff (\<lambda>st. limits_ok (limits st)) (getS limits) (\<lambda>l _. limits_ok l) (\<lambda>_. True)"
    by (auto simp: valid_eff_def getS_def)
next
  fix l :: store_limits
  define e where "e = (case x of Some e \<Rightarrow> e | None \<Rightarrow> emptyEntry (clk 1))"
  define full where "full = take (nat (maxHistoryPerSurface l)) (ob # filter (\<lambda>c. observationId c \<noteq> observationId ob) (history e))"
  have "valid_eff (\<lambda>_. limits_ok l)
     (bindS (liftE (trimHistory full l)) (\<lambda>h.
        bindS (on_reg (ensureByteCapacity l owner (surfaceId ob) (byteLength (history_json h)) c)) (\<lambda>_.
        put_entry owner (surfaceId ob) (e\<lparr>history := h, entry_bytes := byteLength (history_json h),
          pendingBytes := 0, dirtyReasons := [], continuations := [], lastAccessAt := clk 2\<rparr>))))
     (\<lambda>_. holds_now owner ob (clk 2)) (\<lambda>_. True)" for c
  proof (rule valid_bind)
    show "valid_eff (\<lambda>_. limits_ok l) (liftE (trimHistory full l)) (\<lambda>h _. \<exists>rest. h = ob # rest) (\<lambda>_. True)"
    proof -
      have "\<exists>rest. h = ob # rest" if "limits_ok l" "trimHistory full l = Inr h" for h
      proof -
        let ?e = "e\<lparr>history := h, entry_bytes := byteLength (history_json h), pendingBytes := 0, dirtyReasons := []\<rparr>"
        note t = trimmed_entry_ok [OF that(2) [unfolded full_def] that(1), of ?e]
        have "entry_ok l ?e" by (rule t(1)) simp_all
        moreover have "hd h = ob" by (rule t(2)) simp_all
        ultimately show ?thesis by (cases h) (simp_all add: entry_ok_def)
      qed
      then show ?thesis by (auto simp: valid_eff_def liftE_def split: sum.splits)
    qed
  next
    fix h
    show "valid_eff (\<lambda>_. \<exists>rest. h = ob # rest)
       (bindS (on_reg (ensureByteCapacity l owner (surfaceId ob) (byteLength (history_json h)) c)) (\<lambda>_.
        put_entry owner (surfaceId ob) (e\<lparr>history := h, entry_bytes := byteLength (history_json h),
          pendingBytes := 0, dirtyReasons := [], continuations := [], lastAccessAt := clk 2\<rparr>)))
       (\<lambda>_. holds_now owner ob (clk 2)) (\<lambda>_. True)"
      by (rule valid_bind [where Q' = "\<lambda>_ _. \<exists>rest. h = ob # rest"])
         (auto simp: valid_eff_def on_reg_def put_entry_def holds_now_def find_set_entry split: prod.splits sum.splits)
  qed
  then show "valid_eff (\<lambda>_. limits_ok l)
     (bindS (liftE (trimHistory (take (nat (maxHistoryPerSurface l)) (ob # filter (\<lambda>c. observationId c \<noteq> observationId ob)
           (history (case x of Some e \<Rightarrow> e | None \<Rightarrow> emptyEntry (clk 1))))) l)) (\<lambda>h.
        bindS (on_reg (ensureByteCapacity l owner (surfaceId ob) (byteLength (history_json h))
            (case x of Some e \<Rightarrow> entry_bytes e + pendingBytes e | None \<Rightarrow> 0))) (\<lambda>_.
        put_entry owner (surfaceId ob) ((case x of Some e \<Rightarrow> e | None \<Rightarrow> emptyEntry (clk 1))\<lparr>history := h,
          entry_bytes := byteLength (history_json h),
          pendingBytes := 0, dirtyReasons := [], continuations := [], lastAccessAt := clk 2\<rparr>))))
     (\<lambda>_. holds_now owner ob (clk 2)) (\<lambda>_. True)"
    unfolding e_def full_def .
qed

lemma body_holds_now:
  "valid_eff (\<lambda>st. limits_ok (limits st)) (record_body clk owner ob ve)
     (\<lambda>_. holds_now owner ob (clk 2)) (\<lambda>_. True)"
proof -
  let ?L = "\<lambda>st :: store. limits_ok (limits st)"
  have reg: "valid_eff ?L (on_reg f) (\<lambda>_. ?L) (\<lambda>_. True)" for f :: "unit reg_op"
    by (auto simp: valid_eff_def on_reg_def split: prod.splits sum.splits)
  have get: "valid_eff ?L (getS g) (\<lambda>_. ?L) (\<lambda>_. True)" for g :: "store \<Rightarrow> 'b"
    by (simp add: valid_eff_def getS_def)
  have lift: "valid_eff ?L (liftE r) (\<lambda>_. ?L) (\<lambda>_. True)" for r :: "store_error + 'b"
    by (auto simp: valid_eff_def liftE_def split: sum.splits)
  have fail: "valid_eff ?L (liftE (store_fail c m) :: unit store_op) Q (\<lambda>_. True)" for c m Q
    by (simp add: valid_eff_def liftE_def store_fail_def)
  have "valid_eff ?L (case ex of
       Some e \<Rightarrow> bindS (liftE (rejectStaleWrite e ob ve)) (\<lambda>_. record_history clk owner ob ex)
     | None \<Rightarrow> if ve \<noteq> None
         then liftE (store_fail ''CONTROL_OBSERVATION_STALE'' ''Observation validation target no longer exists'')
         else bindS (on_reg (reserveSurface l owner (surfaceId ob))) (\<lambda>_. record_history clk owner ob None))
     (\<lambda>_. holds_now owner ob (clk 2)) (\<lambda>_. True)" for ex l
    using valid_bind [OF lift hist_holds_now] valid_bind [OF reg hist_holds_now] fail
    by (auto split: option.splits)
  then show ?thesis
    unfolding record_body_def
    by (intro valid_bind [OF reg] valid_bind [OF get] valid_bind [OF lift])
qed

lemma get_returns_head:
  assumes "store_inv st" "holds_now owner ob t st" "clk 0 - t < idleRetentionMs (limits st)"
  shows "fst (get_observation clk owner (surfaceId ob) st) = Inr (Some ob)"
proof -
  from assms(2) obtain e rest where e: "find_entry (reg st) owner (surfaceId ob) = Some e"
    "history e = ob # rest" "lastAccessAt e = t" by (auto simp: holds_now_def)
  have "find_entry (reg (purged (clk 0) st)) owner (surfaceId ob) = Some e"
    using assms(1,3) e by (simp add: purged_find idle_def)
  then have "get_observation clk owner (surfaceId ob) st = get_body clk owner (surfaceId ob) e (purged (clk 0) st)"
    unfolding get_observation_def purge_bind by (simp add: bindS_def getS_def)
  with e show ?thesis
    by (simp add: get_body_def bindS_def put_entry_def liftE_def current_observation_def retS_def)
qed

text \<open>What was recorded is what is read: after a record that returned, a read by the same owner before the
  surface expires answers the recorded observation, with all its nodes and its image.\<close>

theorem recorded_observation_is_read:
  assumes "store_inv st" "record_observation clk owner ob ve st = (Inr (), st')"
    and "clk' 0 - clk 2 < idleRetentionMs (limits st')"
  shows "fst (get_observation clk' owner (surfaceId ob) st') = Inr (Some ob)"
proof (rule get_returns_head)
  show "store_inv st'" using store_step_inv [OF assms(1), of "Record clk owner ob ve"] assms(2) by simp
  have "limits_ok (limits (purged (clk 0) st))" using assms(1) by (simp add: store_inv_def)
  moreover have "record_body clk owner ob ve (purged (clk 0) st) = (Inr (), st')"
    using assms(2) unfolding record_observation_def purge_bind .
  ultimately show "holds_now owner ob (clk 2) st'"
    by (rule valid_Inr [OF body_holds_now])
qed (rule assms(3))

subsection \<open>Two concrete calls\<close>

lemma trimHistory_small:
  assumes "\<forall>ob \<in> set h. image ob = None" "byteLength (history_json h) \<le> maxBytesPerHistory l"
  shows "trimHistory h l = Inr h"
proof -
  have "trimHistoryImages i m h = h" for i m using assms(1) by (induction h arbitrary: i) auto
  moreover have "pop_to_budget (maxBytesPerHistory l) h = h"
    using assms(2) by (subst pop_to_budget.simps) simp
  ultimately show ?thesis using assms(2) by (simp add: trimHistory_def trimHistoryToBudget_def Let_def)
qed

lemma ensure_small:
  "totalBytes g - x + c \<le> maxBytesTotal l \<Longrightarrow> ensureByteCapacity l owner sid c x g = (Inr (), g)"
  by (subst ensureByteCapacity.simps) simp

lemma demo_observation_size: "byteLength (observation_json demo_blank) \<le> 1000"
  by (simp add: byteLength_def history_json_def demo_blank_def demo_tree_def observation_json_def)
     (simp add: json_quote_def escape_char_def coverage_json_def bool_text_def show_int_def base_digit_def
       Let_def, simp add: show_base.simps base_digit_def)

lemma demo_record: "record_observation (\<lambda>_. 0) ''alice'' demo_blank None demo_store = (Inr (), demo_recorded)"
proof -
  have owner: "on_reg (requireOwner ''alice'') demo_store =
      (Inr (), demo_store\<lparr>reg := \<lparr>owners = [(''alice'', [])], evictions = []\<rparr>\<rparr>)" (is "_ = (_, ?st1)")
    by (simp add: on_reg_def requireOwner_def demo_store_def)
  have valid: "validateObservation demo_blank DEFAULT_LIMITS = Inr ()"
    using demo_observation_size
    by (simp add: validateObservation_def demo_blank_def demo_tree_def DEFAULT_LIMITS_def Let_def)
  have reserve: "on_reg (reserveSurface DEFAULT_LIMITS ''alice'' ''s1'') ?st1 = (Inr (), ?st1)"
    by (simp add: on_reg_def reserveSurface_def evict_owned.simps evict_total.simps owned_def surfaceCount_def
        DEFAULT_LIMITS_def demo_store_def)
  have trim: "trimHistory [demo_blank] DEFAULT_LIMITS = Inr [demo_blank]"
    using demo_size by (intro trimHistory_small) (simp_all add: demo_blank_def demo_tree_def DEFAULT_LIMITS_def)
  have ensure: "on_reg (ensureByteCapacity DEFAULT_LIMITS ''alice'' ''s1'' (byteLength (history_json [demo_blank])) 0) ?st1
      = (Inr (), ?st1)"
    using demo_size by (simp add: on_reg_def ensure_small totalBytes_def DEFAULT_LIMITS_def demo_store_def)
  have id: "surfaceId demo_blank = ''s1''" by (simp add: demo_blank_def demo_tree_def)
  have lim: "limits ?st1 = DEFAULT_LIMITS" "maxHistoryPerSurface DEFAULT_LIMITS = 4"
    by (simp_all add: demo_store_def DEFAULT_LIMITS_def)
  have none: "find_entry \<lparr>owners = [(''alice'', [])], evictions = []\<rparr> ''alice'' ''s1'' = None"
    by (simp add: find_entry_def)
  have pg: "purged 0 demo_store = demo_store" by (simp add: purged_def purgeIdle_def demo_store_def)
  have hist: "record_history (\<lambda>_. 0) ''alice'' demo_blank None ?st1 = (Inr (), demo_recorded)"
    by (simp add: record_history_def bindS_def getS_def lim liftE_def emptyEntry_def [of 0] trim id Let_def ensure)
       (simp add: put_entry_def set_entry_def owned_def demo_recorded_def demo_surface_def emptyEntry_def demo_store_def)
  show ?thesis
    unfolding record_observation_def purge_bind pg
    by (simp add: record_body_def bindS_def owner getS_def lim liftE_def valid id none reserve hist)
qed

theorem recorded_observation_is_read_witness:
  "fst (get_observation (\<lambda>_. 7) ''alice'' (surfaceId demo_blank) demo_recorded) = Inr (Some demo_blank)"
  by (rule recorded_observation_is_read [OF new_store_inv [OF demo_store_new] demo_record])
     (simp add: demo_recorded_def demo_store_def DEFAULT_LIMITS_def)

definition demo_lost :: control_observation where
  "demo_lost = demo_blank\<lparr>observationId := ''i00000001'', generation := 2, freshness := UnknownFreshness,
     watchHealth := Lost, revision := 2,
     coverage := \<lparr>cov_scope = InSurface, cov_truncated = True, cov_omittedNodes = 0, cov_expansionHandle = None\<rparr>,
     nodes := []\<rparr>"

lemma demo_lost_size: "byteLength (history_json [demo_lost, demo_blank]) \<le> 2000"
  by (simp add: byteLength_def history_json_def demo_lost_def demo_blank_def demo_tree_def observation_json_def)
     (simp add: json_quote_def escape_char_def coverage_json_def bool_text_def show_int_def base_digit_def
       Let_def, simp add: show_base.simps base_digit_def)

lemma demo_invalidate:
  "\<exists>st. invalidate (\<lambda>_. 5) ''alice'' ''s1'' ''nav'' None demo_recorded = (Inr (), st)"
proof -
  define e1 where "e1 = demo_surface\<lparr>eventEpoch := 1, lastEventKey := None\<rparr>"
  define st1 where "st1 = demo_recorded\<lparr>reg := \<lparr>owners = [(''alice'', [(''s1'', e1)])], evictions = []\<rparr>, idSequence := 1\<rparr>"
  have pg: "purged 5 demo_recorded = demo_recorded"
    using demo_fresh by (simp add: purged_def purgeIdle_def demo_recorded_def)
  have req: "require_entry ''alice'' ''s1'' demo_recorded = (Inr demo_surface, demo_recorded)"
    by (simp add: require_entry_def requireEntry_def demo_recorded_def)
  have cur: "current_observation demo_surface = Inr demo_blank"
    by (simp add: current_observation_def demo_surface_def)
  have adv: "advanceEvent demo_surface None = (True, e1)"
    by (simp add: advanceEvent_def e1_def demo_surface_def emptyEntry_def)
  have put: "put_entry ''alice'' ''s1'' e1 demo_recorded =
      (Inr (), demo_recorded\<lparr>reg := \<lparr>owners = [(''alice'', [(''s1'', e1)])], evictions = []\<rparr>\<rparr>)"
    by (simp add: put_entry_def set_entry_def owned_def demo_recorded_def)
  have fresh: "fresh_id ''i'' (demo_recorded\<lparr>reg := g\<rparr>) = (Inr ''i00000001'', demo_recorded\<lparr>reg := g, idSequence := 1\<rparr>)" for g
  proof -
    have d: "base_digit 1 = CHR ''1''" by (simp add: base_digit_def) code_simp
    have one: "show_base 36 1 = ''1''" by (simp add: show_base.simps d [simplified])
    have pad: "pad_start 8 (CHR ''0'') ''1'' = ''00000001''" by (simp add: pad_start_def numeral_eq_Suc)
    show ?thesis
      by (simp add: fresh_id_def nextId_def one [simplified] pad [simplified] demo_recorded_def demo_store_def)
  qed
  have lost: "demo_blank\<lparr>observationId := ''i00000001'', generation := generation demo_blank + 1, freshness := UnknownFreshness,
              watchHealth := Lost, revision := revision demo_blank + 1,
              coverage := \<lparr>cov_scope = InSurface, cov_truncated = True, cov_omittedNodes = 0, cov_expansionHandle = None\<rparr>,
              nodes := []\<rparr> = demo_lost"
    by (simp add: demo_lost_def demo_blank_def demo_tree_def)
  have trim: "trimHistory [demo_lost, demo_blank] DEFAULT_LIMITS = Inr [demo_lost, demo_blank]"
    using demo_lost_size
    by (intro trimHistory_small) (simp_all add: demo_lost_def demo_blank_def demo_tree_def DEFAULT_LIMITS_def)
  have lim: "limits st1 = DEFAULT_LIMITS" "maxHistoryPerSurface DEFAULT_LIMITS = 4"
    by (simp_all add: st1_def demo_recorded_def demo_store_def DEFAULT_LIMITS_def)
  have hist: "take 3 (history e1) = [demo_blank]" by (simp add: e1_def demo_surface_def)
  have ensure: "on_reg (ensureByteCapacity DEFAULT_LIMITS ''alice'' ''s1''
      (byteLength (history_json [demo_lost, demo_blank])) (entry_bytes e1 + pendingBytes e1)) st1 = (Inr (), st1)"
    using demo_lost_size
    by (simp add: on_reg_def ensure_small totalBytes_def DEFAULT_LIMITS_def st1_def entry_total_def)
  have push: "\<exists>e2 st2. pushHistory ''alice'' ''s1'' e1 demo_lost st1 = (Inr e2, st2)"
    by (simp add: pushHistory_def bindS_def getS_def lim liftE_def hist trim Let_def ensure)
       (simp add: put_entry_def retS_def)
  then obtain e2 st2 where push: "pushHistory ''alice'' ''s1'' e1 demo_lost st1 = (Inr e2, st2)" by blast
  have fold: "demo_recorded\<lparr>reg := \<lparr>owners = [(''alice'', [(''s1'', e1)])], evictions = []\<rparr>, idSequence := Suc 0\<rparr> = st1"
    by (simp add: st1_def)
  show ?thesis
    unfolding invalidate_def purge_bind pg
    by (simp add: bindS_def req invalidate_body_def liftE_def cur adv put fresh lost fold push)
       (simp add: put_entry_def)
qed


end
