(* ===== verification/PlanOutcome.thy ===== *)
theory PlanOutcome
  imports TargetResolver
begin

text \<open>
  packages/control/src/plan-outcome.ts: how a thrown value becomes a \<open>ControlError\<close>, why a plan
  cannot start, and the status of a step and of a plan after a failure. \<open>failPlan\<close>-style
  messages are kept; \<open>show_mode\<close> is the text of the mode in a template literal.
\<close>

section \<open>Thrown values\<close>

text \<open>
  What a \<open>catch\<close> may receive: an adapter error, or any other value, of which the code reads
  \<open>code\<close>, \<open>message\<close>, \<open>dispatchState\<close> and, when there is no message, its text.
\<close>

datatype thrown =
    AdapterThrown adapter_error
  | OtherThrown "string option" "string option" "control_dispatch_state option" string

definition thrown_with :: "string \<Rightarrow> string \<Rightarrow> thrown" where
  "thrown_with code message = OtherThrown (Some code) (Some message) None (''Error: '' @ message)"

definition thrown_error :: "string \<Rightarrow> thrown" where
  "thrown_error message = OtherThrown None (Some message) None (''Error: '' @ message)"

fun asControlError :: "thrown \<Rightarrow> string option \<Rightarrow> control_error" where
  "asControlError (AdapterThrown e) sid =
     \<lparr>err_code = ae_code e, err_stepId = (if sid = Some [] then None else sid),
      err_dispatchState = ae_dispatchState e, err_recovery = ae_recovery e,
      err_observationId = None, err_message = ae_message e\<rparr>"
| "asControlError (OtherThrown c m d shown) sid =
     \<lparr>err_code = (case c of None \<Rightarrow> ''CONTROL_EXECUTION_FAILED'' | Some x \<Rightarrow> x),
      err_stepId = (if sid = Some [] then None else sid),
      err_dispatchState = (case d of None \<Rightarrow> NotDispatched | Some x \<Rightarrow> x),
      err_recovery = NoRecovery, err_observationId = None,
      err_message = (case m of None \<Rightarrow> shown | Some x \<Rightarrow> x)\<rparr>"

definition nodeBudget :: "int \<Rightarrow> int" where
  "nodeBudget maxTokens = max 1 (min 500 (maxTokens div 12))"

lemma nodeBudget_bounds: "1 \<le> nodeBudget t" "nodeBudget t \<le> 500"
  by (simp_all add: nodeBudget_def)

section \<open>Outcomes\<close>

text \<open>\<open>PlanOutcome\<close>: a plan result without its plan id, here with an empty one.\<close>

definition plan_outcome ::
    "control_plan_status \<Rightarrow> control_error \<Rightarrow> control_checkpoint \<Rightarrow> control_plan_result" where
  "plan_outcome s e c =
     \<lparr>pr_planId = [], pr_status = s, pr_steps = [], pr_observation = None,
      pr_error = Some e, pr_checkpoint = Some c\<rparr>"

text \<open>
  \<open>currentObservation\<close> is a call back into the observation store, which changes its state and may
  throw; it is made only for a surface that has an adapter of the right mode.
\<close>

definition missing_adapter :: "string \<Rightarrow> control_plan_result" where
  "missing_adapter sid = plan_outcome PNeedsContext
     \<lparr>err_code = ''CONTROL_SURFACE_NOT_FOUND'', err_stepId = None, err_dispatchState = NotDispatched,
      err_recovery = NeedsContext, err_observationId = None,
      err_message = ''Surface '' @ sid @ '' has not been observed in this session''\<rparr>
     \<lparr>cp_reason = NeedsContext, cp_nextAction = ''Observe '' @ sid @ '' again before executing the plan.''\<rparr>"

definition mode_mismatch :: "control_plan \<Rightarrow> control_mode \<Rightarrow> string \<Rightarrow> control_plan_result" where
  "mode_mismatch plan m sid =
     (let iso = (plan_mode plan = Isolated) in
      plan_outcome PNeedsContext
        \<lparr>err_code = ''CONTROL_MODE_MISMATCH'', err_stepId = None, err_dispatchState = NotDispatched,
         err_recovery = (if iso then ChooseIsolatedRunner else NeedsContext), err_observationId = None,
         err_message = ''Surface '' @ sid @ '' is bound to '' @ mode_text m @ '', not '' @ mode_text (plan_mode plan)\<rparr>
        \<lparr>cp_reason = (if iso then ChooseIsolatedRunner else NeedsContext),
         cp_nextAction = (if iso then ''Choose a verified isolated runner for this plan.''
           else ''Observe the surface in shared semantic mode.'')\<rparr>)"

definition stale_observation :: "control_observation option \<Rightarrow> string \<Rightarrow> control_plan_result" where
  "stale_observation latest sid = plan_outcome PNeedsContext
     \<lparr>err_code = ''CONTROL_OBSERVATION_STALE'', err_stepId = None, err_dispatchState = NotDispatched,
      err_recovery = Refresh, err_observationId = map_option observationId latest,
      err_message = ''Expected observation for '' @ sid @ '' is no longer current''\<rparr>
     \<lparr>cp_reason = NeedsContext,
      cp_nextAction = ''Refresh '' @ sid @ '' and submit a plan against the new observation.''\<rparr>"

definition expected_current :: "control_plan \<Rightarrow> string \<Rightarrow> control_observation option \<Rightarrow> bool" where
  "expected_current plan sid latest \<longleftrightarrow>
     (case latest of None \<Rightarrow> False | Some ob \<Rightarrow> map_of (expectedObservations plan) sid = Some (observationId ob))"

definition surface_failure ::
    "control_plan \<Rightarrow> (string \<Rightarrow> control_mode option) \<Rightarrow> (string \<Rightarrow> ('s, 'e, control_observation option) eff) \<Rightarrow> string
     \<Rightarrow> ('s, 'e, control_plan_result option) eff" where
  "surface_failure plan adapters cur sid =
     (case adapters sid of
        None \<Rightarrow> retS (Some (missing_adapter sid))
      | Some m \<Rightarrow>
          if m \<noteq> plan_mode plan then retS (Some (mode_mismatch plan m sid))
          else bindS (cur sid) (\<lambda>latest.
            retS (if expected_current plan sid latest then None else Some (stale_observation latest sid))))"

fun preflight_loop ::
    "control_plan \<Rightarrow> (string \<Rightarrow> control_mode option) \<Rightarrow> (string \<Rightarrow> ('s, 'e, control_observation option) eff) \<Rightarrow> string list
     \<Rightarrow> ('s, 'e, control_plan_result option) eff" where
  "preflight_loop plan adapters cur [] = retS None"
| "preflight_loop plan adapters cur (sid # rest) =
     bindS (surface_failure plan adapters cur sid) (\<lambda>out.
       case out of Some o' \<Rightarrow> retS (Some o') | None \<Rightarrow> preflight_loop plan adapters cur rest)"

definition preflightFailure ::
    "control_plan \<Rightarrow> (string \<Rightarrow> control_mode option) \<Rightarrow> (string \<Rightarrow> ('s, 'e, control_observation option) eff)
     \<Rightarrow> ('s, 'e, control_plan_result option) eff" where
  "preflightFailure plan adapters cur = preflight_loop plan adapters cur (surfaceIds plan)"

definition failedStepStatus :: "control_error \<Rightarrow> control_step_status" where
  "failedStepStatus e =
     (if err_recovery e = NeedsApproval then SAwaitingApproval
      else if err_recovery e = NeedsContext \<or> err_recovery e = Refresh then SNeedsContext
      else if err_dispatchState e = UnknownDispatch then SUnknown else SFailed)"

definition failedPlanOutcome ::
    "control_plan_step_result option \<Rightarrow> nat \<Rightarrow> control_plan_status \<times> control_checkpoint option" where
  "failedPlanOutcome failed resultCount =
     (if map_option res_status failed = Some SAwaitingApproval then
        (PAwaitingApproval, Some \<lparr>cp_reason = NeedsApproval,
           cp_nextAction = ''Approve the pending step, then submit a fresh plan against current state.''\<rparr>)
      else if map_option res_status failed = Some SNeedsContext then
        (PNeedsContext, Some \<lparr>cp_reason = NeedsContext,
           cp_nextAction = ''Refresh the affected surface before continuing.''\<rparr>)
      else (if resultCount > 1 then PPartial else PFailed, None))"

section \<open>Lemmas\<close>

text \<open>
  A plan passes the preflight only if every surface has an adapter of the plan's mode and its
  current observation, as the store answers, is the expected one; a refused plan dispatched
  nothing and has no step results.
\<close>

definition refusal :: "control_plan_result \<Rightarrow> bool" where
  "refusal out \<longleftrightarrow> pr_status out = PNeedsContext \<and> pr_steps out = [] \<and>
     (\<exists>e. pr_error out = Some e \<and> err_dispatchState e = NotDispatched)"

lemma refusals: "refusal (missing_adapter sid)" "refusal (mode_mismatch plan m sid)" "refusal (stale_observation l sid)"
  by (simp_all add: refusal_def missing_adapter_def mode_mismatch_def stale_observation_def plan_outcome_def Let_def)

lemma surface_failure_valid:
  assumes cur: "\<And>sid. valid_eff P (cur sid) (\<lambda>r s. P s \<and> Q sid r s) R"
  shows "valid_eff P (surface_failure plan adapters cur sid)
     (\<lambda>r s. P s \<and> (case r of
        None \<Rightarrow> adapters sid = Some (plan_mode plan) \<and> (\<exists>l. expected_current plan sid l \<and> Q sid l s)
      | Some out \<Rightarrow> refusal out)) R"
  using cur [of sid]
  by (fastforce simp: surface_failure_def valid_eff_def bindS_def retS_def refusals
      split: option.splits prod.splits sum.splits)

lemma preflight_loop_valid:
  assumes cur: "\<And>sid. valid_eff P (cur sid) (\<lambda>r s. P s \<and> Q sid r s) R"
  and stable: "\<And>sid sid' r r' s s'. P s \<Longrightarrow> Q sid' r' s \<Longrightarrow> cur sid s = (Inr r, s') \<Longrightarrow> Q sid' r' s'"
  shows "valid_eff (\<lambda>s. P s \<and> (\<forall>d \<in> checked. \<exists>l. expected_current plan d l \<and> Q d l s))
     (preflight_loop plan adapters cur sids)
     (\<lambda>r s. P s \<and> (case r of
        None \<Rightarrow> (\<forall>sid \<in> set sids. adapters sid = Some (plan_mode plan)) \<and>
          (\<forall>sid \<in> checked \<union> set sids. \<exists>l. expected_current plan sid l \<and> Q sid l s)
      | Some out \<Rightarrow> refusal out)) R"
proof (induction sids arbitrary: checked)
  case Nil
  show ?case by (auto simp: valid_eff_def retS_def)
next
  case (Cons sid sids)
  let ?I = "\<lambda>ds s. \<forall>d \<in> ds. \<exists>l. expected_current plan d l \<and> Q d l s"
  have step: "valid_eff (\<lambda>s. P s \<and> ?I checked s) (surface_failure plan adapters cur sid)
     (\<lambda>r s. case r of
        None \<Rightarrow> adapters sid = Some (plan_mode plan) \<and> P s \<and> ?I (insert sid checked) s
      | Some out \<Rightarrow> P s \<and> refusal out) R"
    unfolding valid_eff_def
  proof (intro allI impI)
    fix s assume s: "P s \<and> ?I checked s"
    show "case surface_failure plan adapters cur sid s of (Inl e, s') \<Rightarrow> R s' | (Inr r, s') \<Rightarrow>
        (case r of None \<Rightarrow> adapters sid = Some (plan_mode plan) \<and> P s' \<and> ?I (insert sid checked) s'
         | Some out \<Rightarrow> P s' \<and> refusal out)"
    proof (cases "adapters sid = Some (plan_mode plan)")
      case False
      with s show ?thesis by (auto simp: surface_failure_def retS_def refusals split: option.splits)
    next
      case True
      obtain r s' where c: "cur sid s = (r, s')" by fastforce
      show ?thesis
      proof (cases r)
        case (Inl e)
        with c cur [of sid] s True show ?thesis
          by (auto simp: surface_failure_def bindS_def valid_eff_def dest!: spec [of _ s])
      next
        case (Inr l)
        with c cur [of sid] s have P: "P s'" "Q sid l s'" by (auto simp: valid_eff_def dest!: spec [of _ s])
        have "?I checked s'" using s stable [of s _ _ sid l s'] c Inr by blast
        with P c Inr True show ?thesis
          by (auto simp: surface_failure_def bindS_def retS_def refusals)
      qed
    qed
  qed
  show ?case
  proof (simp only: preflight_loop.simps, rule valid_bind [OF step])
    fix out
    show "valid_eff (\<lambda>s. case out of
          None \<Rightarrow> adapters sid = Some (plan_mode plan) \<and> P s \<and> ?I (insert sid checked) s
        | Some out \<Rightarrow> P s \<and> refusal out)
       (case out of Some o' \<Rightarrow> retS (Some o') | None \<Rightarrow> preflight_loop plan adapters cur sids)
       (\<lambda>r s. P s \<and> (case r of
          None \<Rightarrow> (\<forall>sid \<in> set (sid # sids). adapters sid = Some (plan_mode plan)) \<and> ?I (checked \<union> set (sid # sids)) s
        | Some out \<Rightarrow> refusal out)) R"
    proof (cases out)
      case None
      have un: "insert sid checked \<union> set sids = checked \<union> set (sid # sids)" by simp
      show ?thesis
      proof (cases "adapters sid = Some (plan_mode plan)")
        case True
        show ?thesis unfolding None option.case
          by (rule valid_post, rule valid_pre, rule Cons.IH [of "insert sid checked", unfolded un])
             (simp_all add: True split: option.splits)
      qed (simp add: None valid_eff_def)
    next
      case (Some o')
      then show ?thesis by (simp add: valid_eff_def retS_def)
    qed
  qed
qed

lemma preflight_valid:
  assumes "\<And>sid. valid_eff P (cur sid) (\<lambda>r s. P s \<and> Q sid r s) R"
  and "\<And>sid sid' r r' s s'. P s \<Longrightarrow> Q sid' r' s \<Longrightarrow> cur sid s = (Inr r, s') \<Longrightarrow> Q sid' r' s'"
  shows "valid_eff P (preflightFailure plan adapters cur)
     (\<lambda>r s. P s \<and> (case r of
        None \<Rightarrow> (\<forall>sid \<in> set (surfaceIds plan). adapters sid = Some (plan_mode plan) \<and>
                 (\<exists>l. expected_current plan sid l \<and> Q sid l s))
      | Some out \<Rightarrow> refusal out)) R"
  unfolding preflightFailure_def
  by (rule valid_post, rule valid_pre, rule preflight_loop_valid [where checked = "{}", OF assms])
     (auto split: option.splits)

end
