(* ===== verification/PlanJournal.thy ===== *)
theory PlanJournal
  imports PlanOutcome
begin

text \<open>
  packages/control/src/plan-journal.ts: the journal of accepted plans. A request id of an owner
  is claimed once; a repeated claim returns the first record, or is refused when the plan differs.
  The journal keeps its own records and, when it has one, a durable store behind the interface
  \<open>ControlPlanPersistence\<close>, here a record of operations over a state of its own. \<open>clk i\<close> is the
  i-th reading of the clock in a call, as an ISO text; \<open>hmac\<close> is the keyed hash, \<open>uuid\<close> the
  random part of a new plan id.
\<close>

section \<open>Records\<close>

datatype journal_status =
  JRunning | JCompleted | JFailed | JCancelled | JAwaitingApproval | JNeedsContext | JUnknown

record journal_record =
  jr_planId :: string
  jr_owner :: string
  jr_requestId :: string
  jr_digest :: string
  jr_status :: journal_status
  jr_cancelled :: bool
  jr_result :: "control_plan_result option"
  jr_createdAt :: string
  jr_updatedAt :: string

fun journal_status_text :: "journal_status \<Rightarrow> string" where
  "journal_status_text JRunning = ''running''"
| "journal_status_text JCompleted = ''completed''"
| "journal_status_text JFailed = ''failed''"
| "journal_status_text JCancelled = ''cancelled''"
| "journal_status_text JAwaitingApproval = ''awaitingApproval''"
| "journal_status_text JNeedsContext = ''needsContext''"
| "journal_status_text JUnknown = ''unknown''"

definition journal_status :: "string \<Rightarrow> journal_status" where
  "journal_status value =
     (if value = ''completed'' then JCompleted
      else if value = ''failed'' then JFailed
      else if value = ''cancelled'' then JCancelled
      else if value = ''awaitingApproval'' then JAwaitingApproval
      else if value = ''needsContext'' then JNeedsContext
      else if value = ''unknown'' then JUnknown
      else JRunning)"

section \<open>The durable store, an interface\<close>

record claim_input =
  ci_planId :: string
  ci_owner :: string
  ci_requestId :: string
  ci_digest :: string
  ci_mode :: control_mode
  ci_status :: string
  ci_createdAt :: string
  ci_updatedAt :: string

record durable_plan =
  dp_planId :: string
  dp_owner :: string
  dp_requestId :: string
  dp_digest :: string
  dp_mode :: control_mode
  dp_status :: string
  dp_cancelled :: bool
  dp_result :: "control_plan_result option"
  dp_createdAt :: string
  dp_updatedAt :: string

record step_attempt =
  sa_planId :: string
  sa_stepId :: string
  sa_attemptId :: string
  sa_action :: string
  sa_dispatchState :: string
  sa_status :: string

text \<open>The first argument of an operation that reads the clock is that reading.\<close>

record 'p persistence =
  p_claim :: "claim_input \<Rightarrow> ('p, thrown, durable_plan \<times> bool) eff"
  p_get :: "string \<Rightarrow> string \<Rightarrow> 'p \<Rightarrow> durable_plan option"
  p_digestKey :: "('p, thrown, string) eff"
  p_updateStatus :: "string \<Rightarrow> string \<Rightarrow> string \<Rightarrow> string \<Rightarrow> bool \<Rightarrow> ('p, thrown, bool) eff"
  p_finish :: "string \<Rightarrow> string \<Rightarrow> string \<Rightarrow> string \<Rightarrow> control_plan_result \<Rightarrow> bool \<Rightarrow> ('p, thrown, bool) eff"
  p_recordStep :: "string \<Rightarrow> step_attempt \<Rightarrow> ('p, thrown, unit) eff"

section \<open>The journal\<close>

record 'p journal =
  jkey :: string
  journal_records :: "(string, journal_record) jsmap"
  byRequest :: "(string, string) jsmap"
  durable :: 'p

type_synonym ('p, 'a) journal_op = "('p journal, thrown, 'a) eff"

text \<open>The canonical text of this file: an undefined value has none.\<close>

fun journal_canonical :: "jsv \<Rightarrow> string option" where
  "journal_canonical VUndef = None"
| "journal_canonical (VArr xs) = Some (''['' @ join_with '',''
     (map (\<lambda>x. case journal_canonical x of None \<Rightarrow> [] | Some t \<Rightarrow> t) xs) @ '']'')"
| "journal_canonical (VObj ms) = Some (CHR 0x7B # join_with '',''
     (map (\<lambda>(k, t). json_quote k @ '':'' @ t)
       (sort_key fst (map (\<lambda>(k, v). (k, case journal_canonical v of None \<Rightarrow> ''undefined'' | Some t \<Rightarrow> t)) ms)))
     @ [CHR 0x7D])"
| "journal_canonical v = Some (json_text v)"

definition plan_digest :: "(string \<Rightarrow> string \<Rightarrow> string) \<Rightarrow> string \<Rightarrow> control_plan \<Rightarrow> thrown + string" where
  "plan_digest hmac key plan =
     (case journal_canonical (plan_json plan) of
        None \<Rightarrow> Inl (OtherThrown None (Some ''The data argument must be of type string'') None ''TypeError'')
      | Some t \<Rightarrow> Inr (hmac key t))"

definition request_key :: "string \<Rightarrow> string \<Rightarrow> string" where
  "request_key owner req = owner @ CHR 0x00 # req"

definition conflict :: thrown where
  "conflict = thrown_with ''CONTROL_REQUEST_CONFLICT''
     ''CONTROL_REQUEST_CONFLICT: requestId was reused with different plan content''"

text \<open>\<open>constructor\<close>: the key of the durable store, or random bytes.\<close>

definition new_journal :: "'p persistence option \<Rightarrow> string \<Rightarrow> 'p \<Rightarrow> thrown + 'p journal" where
  "new_journal ps rnd d =
     (case ps of
        None \<Rightarrow> Inr \<lparr>jkey = rnd, journal_records = [], byRequest = [], durable = d\<rparr>
      | Some p \<Rightarrow> (case p_digestKey p d of
          (Inl e, _) \<Rightarrow> Inl e
        | (Inr k, d') \<Rightarrow> Inr \<lparr>jkey = k, journal_records = [], byRequest = [], durable = d'\<rparr>))"

definition on_durable :: "('p, thrown, 'a) eff \<Rightarrow> ('p, 'a) journal_op" where
  "on_durable m j = (case m (durable j) of (r, d) \<Rightarrow> (r, j\<lparr>durable := d\<rparr>))"

definition put_record :: "string \<Rightarrow> journal_record \<Rightarrow> 'p journal \<Rightarrow> 'p journal" where
  "put_record pid r j = j\<lparr>journal_records := AList.update pid r (journal_records j)\<rparr>"

definition remember_claim :: "string \<Rightarrow> journal_record \<Rightarrow> 'p journal \<Rightarrow> 'p journal" where
  "remember_claim rk r j =
     (put_record (jr_planId r) r j)\<lparr>byRequest := AList.update rk (jr_planId r) (byRequest j)\<rparr>"

definition proposed_record :: "string \<Rightarrow> string \<Rightarrow> string \<Rightarrow> string \<Rightarrow> string \<Rightarrow> journal_record" where
  "proposed_record uuid now owner req digest =
     \<lparr>jr_planId = ''plan_'' @ uuid, jr_owner = owner, jr_requestId = req, jr_digest = digest,
      jr_status = JRunning, jr_cancelled = False, jr_result = None, jr_createdAt = now, jr_updatedAt = now\<rparr>"

definition restored_record :: "journal_record \<Rightarrow> durable_plan \<Rightarrow> journal_record" where
  "restored_record proposed d =
     proposed\<lparr>jr_planId := dp_planId d, jr_status := journal_status (dp_status d),
       jr_cancelled := dp_cancelled d, jr_createdAt := dp_createdAt d, jr_updatedAt := dp_updatedAt d,
       jr_result := (case dp_result d of None \<Rightarrow> jr_result proposed | Some r \<Rightarrow> Some r)\<rparr>"

text \<open>The part of \<open>claim\<close> after a request id the journal has not seen itself.\<close>

definition claim_new ::
    "'p persistence option \<Rightarrow> string \<Rightarrow> string \<Rightarrow> string \<Rightarrow> control_plan \<Rightarrow> string
     \<Rightarrow> ('p, journal_record \<times> bool) journal_op" where
  "claim_new ps uuid now owner plan digest =
     (let rk = request_key owner (requestId plan);
          proposed = proposed_record uuid now owner (requestId plan) digest in
      case ps of
        None \<Rightarrow> (\<lambda>j. (Inr (proposed, False), remember_claim rk proposed j))
      | Some p \<Rightarrow>
          bindS (on_durable (p_claim p
             \<lparr>ci_planId = jr_planId proposed, ci_owner = owner, ci_requestId = requestId plan,
              ci_digest = digest, ci_mode = plan_mode plan, ci_status = ''running'',
              ci_createdAt = now, ci_updatedAt = now\<rparr>))
            (\<lambda>(d, existing).
              if \<not> existing then (\<lambda>j. (Inr (proposed, False), remember_claim rk proposed j))
              else if dp_digest d \<noteq> digest then throwS conflict
              else (\<lambda>j. (Inr (restored_record proposed d, True), remember_claim rk (restored_record proposed d) j))))"

definition claim ::
    "(string \<Rightarrow> string \<Rightarrow> string) \<Rightarrow> 'p persistence option \<Rightarrow> string \<Rightarrow> string \<Rightarrow> string \<Rightarrow> control_plan
     \<Rightarrow> ('p, journal_record \<times> bool) journal_op" where
  "claim hmac ps uuid now owner plan j =
     (case plan_digest hmac (jkey j) plan of
        Inl e \<Rightarrow> (Inl e, j)
      | Inr digest \<Rightarrow>
          (case map_of (byRequest j) (request_key owner (requestId plan)) of
             None \<Rightarrow> claim_new ps uuid now owner plan digest j
           | Some pid \<Rightarrow>
               if pid = [] then claim_new ps uuid now owner plan digest j
               else (case map_of (journal_records j) pid of
                  None \<Rightarrow> (Inl (thrown_error ''Cannot read properties of undefined''), j)
                | Some r \<Rightarrow> if jr_digest r \<noteq> digest then (Inl conflict, j) else (Inr (r, True), j))))"

definition projected_record :: "durable_plan \<Rightarrow> journal_record" where
  "projected_record d =
     \<lparr>jr_planId = dp_planId d, jr_owner = dp_owner d, jr_requestId = dp_requestId d, jr_digest = dp_digest d,
      jr_status = journal_status (dp_status d), jr_cancelled = dp_cancelled d, jr_result = dp_result d,
      jr_createdAt = dp_createdAt d, jr_updatedAt = dp_updatedAt d\<rparr>"

definition journal_get :: "'p persistence option \<Rightarrow> string \<Rightarrow> string \<Rightarrow> 'p journal \<Rightarrow> journal_record option" where
  "journal_get ps owner pid j =
     (let stored = (case ps of None \<Rightarrow> None | Some p \<Rightarrow> map_option projected_record (p_get p owner pid (durable j))) in
      case map_of (journal_records j) pid of
        Some r \<Rightarrow> if jr_owner r = owner then Some r else stored
      | None \<Rightarrow> stored)"

definition isCancelled :: "'p persistence option \<Rightarrow> string \<Rightarrow> string \<Rightarrow> 'p journal \<Rightarrow> bool" where
  "isCancelled ps owner pid j = (case journal_get ps owner pid j of None \<Rightarrow> False | Some r \<Rightarrow> jr_cancelled r)"

definition owned_record :: "string \<Rightarrow> string \<Rightarrow> 'p journal \<Rightarrow> journal_record option" where
  "owned_record owner pid j =
     (case map_of (journal_records j) pid of None \<Rightarrow> None | Some r \<Rightarrow> if jr_owner r = owner then Some r else None)"

definition journal_cancel ::
    "'p persistence option \<Rightarrow> (nat \<Rightarrow> string) \<Rightarrow> string \<Rightarrow> string \<Rightarrow> ('p, bool) journal_op" where
  "journal_cancel ps clk owner pid j =
     (case owned_record owner pid j of
        Some r \<Rightarrow>
          (let j' = put_record pid (r\<lparr>jr_cancelled := True, jr_status := JCancelled, jr_updatedAt := clk 0\<rparr>) j in
           case ps of
             None \<Rightarrow> (Inr True, j')
           | Some p \<Rightarrow> bindS (on_durable (p_updateStatus p (clk 1) owner pid ''cancelled'' True)) (\<lambda>_. retS True) j')
      | None \<Rightarrow>
          (case ps of
             None \<Rightarrow> (Inr False, j)
           | Some p \<Rightarrow>
               if p_get p owner pid (durable j) = None then (Inr False, j)
               else on_durable (p_updateStatus p (clk 0) owner pid ''cancelled'' True) j))"

definition journal_recordStep ::
    "'p persistence option \<Rightarrow> string \<Rightarrow> string \<Rightarrow> string \<Rightarrow> string \<Rightarrow> string \<Rightarrow> string \<Rightarrow> string \<Rightarrow> ('p, unit) journal_op" where
  "journal_recordStep ps now owner pid sid action ds st j =
     (if journal_get ps owner pid j = None then (Inr (), j)
      else case ps of
        None \<Rightarrow> (Inr (), j)
      | Some p \<Rightarrow> on_durable (p_recordStep p now
          \<lparr>sa_planId = pid, sa_stepId = sid, sa_attemptId = pid @ '':'' @ sid @ '':1'',
           sa_action = action, sa_dispatchState = ds, sa_status = st\<rparr>) j)"

definition durableResult :: "control_plan_result \<Rightarrow> control_plan_result" where
  "durableResult r =
     \<lparr>pr_planId = pr_planId r, pr_status = pr_status r, pr_steps = pr_steps r,
      pr_observation = None, pr_error = None, pr_checkpoint = None\<rparr>"

fun finished_status :: "control_plan_status \<Rightarrow> journal_status" where
  "finished_status PPartial = JFailed"
| "finished_status PAwaitingApproval = JAwaitingApproval"
| "finished_status PCompleted = JCompleted"
| "finished_status PFailed = JFailed"
| "finished_status PCancelled = JCancelled"
| "finished_status PNeedsContext = JNeedsContext"

definition journal_finish ::
    "'p persistence option \<Rightarrow> (nat \<Rightarrow> string) \<Rightarrow> string \<Rightarrow> control_plan_result \<Rightarrow> ('p, unit) journal_op" where
  "journal_finish ps clk owner result j =
     (let pid = pr_planId result;
          st = finished_status (pr_status result);
          (j', i) = (case owned_record owner pid j of
             None \<Rightarrow> (j, 0)
           | Some r \<Rightarrow> (put_record pid (r\<lparr>jr_result := Some result, jr_status := st, jr_updatedAt := clk 0\<rparr>) j, 1)) in
      case ps of
        None \<Rightarrow> (Inr (), j')
      | Some p \<Rightarrow> bindS (on_durable (p_finish p (clk i) owner pid (journal_status_text st)
          (durableResult result) (st = JCancelled))) (\<lambda>_. retS ()) j')"

section \<open>The contract of a claim\<close>

text \<open>
  What a claim promises: a write-once map from owner and request id to plan id and digest. A new
  request takes its entry, a repeated one gets the plan id that is there, and other content under
  the same request id is refused.
\<close>

type_synonym claims = "string \<times> string \<Rightarrow> (string \<times> string) option"

fun spec_claim ::
    "claims \<Rightarrow> string \<times> string \<Rightarrow> string \<Rightarrow> string \<Rightarrow> (thrown + string \<times> bool) \<times> claims" where
  "spec_claim m k pid digest =
     (case m k of
        None \<Rightarrow> (Inr (pid, False), m(k \<mapsto> (pid, digest)))
      | Some (pid', digest') \<Rightarrow> if digest' = digest then (Inr (pid', True), m) else (Inl conflict, m))"

definition claim_answer :: "thrown + journal_record \<times> bool \<Rightarrow> thrown + string \<times> bool" where
  "claim_answer r = (case r of Inl e \<Rightarrow> Inl e | Inr (rec, existing) \<Rightarrow> Inr (jr_planId rec, existing))"

lemma claim_answer_simps [simp]:
  "claim_answer (Inl e) = Inl e" "claim_answer (Inr (rec, existing)) = Inr (jr_planId rec, existing)"
  by (simp_all add: claim_answer_def)

definition no_nul :: "string \<Rightarrow> bool" where
  "no_nul s \<longleftrightarrow> CHR 0x00 \<notin> set s"

lemma request_key_inject:
  "no_nul o1 \<Longrightarrow> no_nul o2 \<Longrightarrow> request_key o1 q1 = request_key o2 q2 \<longleftrightarrow> o1 = o2 \<and> q1 = q2"
proof (induction o1 arbitrary: o2)
  case Nil
  then show ?case by (cases o2) (auto simp: request_key_def no_nul_def)
next
  case (Cons c o1)
  then show ?case by (cases o2) (auto simp: request_key_def no_nul_def)
qed

text \<open>
  The contract of the durable store. \<open>lookup\<close> is the write-once map it keeps, \<open>skey\<close> the digest
  key it has handed out. A claim answers with the row of the request, adding it when there is
  none; it fails only if the new plan id is taken. Nothing else changes what was claimed.
\<close>

locale plan_store =
  fixes ps :: "'p persistence"
    and pinv :: "'p \<Rightarrow> bool"
    and lookup :: "'p \<Rightarrow> string \<times> string \<Rightarrow> (string \<times> string) option"
    and skey :: "'p \<Rightarrow> string option"
  assumes claim_law: "pinv s \<Longrightarrow> ci_planId inp \<noteq> [] \<Longrightarrow> p_claim ps inp s = (r, s') \<Longrightarrow>
      pinv s' \<and> skey s' = skey s \<and>
      (case r of
         Inl e \<Rightarrow> lookup s' = lookup s \<and> (\<exists>k d. lookup s k = Some (ci_planId inp, d)) \<and>
           lookup s (ci_owner inp, ci_requestId inp) = None
       | Inr (d, existing) \<Rightarrow>
           (if existing then lookup s (ci_owner inp, ci_requestId inp) = Some (dp_planId d, dp_digest d) \<and> lookup s' = lookup s
            else lookup s (ci_owner inp, ci_requestId inp) = None \<and>
              (\<forall>k d. lookup s k \<noteq> Some (ci_planId inp, d)) \<and>
              lookup s' = (lookup s)((ci_owner inp, ci_requestId inp) \<mapsto> (ci_planId inp, ci_digest inp))))"
    and ids_law: "pinv s \<Longrightarrow> lookup s k = Some (i, d) \<Longrightarrow> i \<noteq> [] \<and> (lookup s k' = Some (i, d') \<longrightarrow> k' = k)"
    and key_law: "pinv s \<Longrightarrow> p_digestKey ps s = (rk, s') \<Longrightarrow>
      pinv s' \<and> lookup s' = lookup s \<and> (\<forall>key. skey s = Some key \<longrightarrow> skey s' = Some key) \<and>
      (\<forall>key. rk = Inr key \<longrightarrow> skey s' = Some key)"
    and status_law: "pinv s \<Longrightarrow> p_updateStatus ps now ow pid st c s = (rb, s') \<Longrightarrow>
      pinv s' \<and> lookup s' = lookup s \<and> skey s' = skey s"
    and finish_law: "pinv s \<Longrightarrow> p_finish ps now ow pid st res c s = (rb, s') \<Longrightarrow>
      pinv s' \<and> lookup s' = lookup s \<and> skey s' = skey s"
    and step_law: "pinv s \<Longrightarrow> p_recordStep ps now att s = (ru, s') \<Longrightarrow>
      pinv s' \<and> lookup s' = lookup s \<and> skey s' = skey s"
begin

text \<open>What the journal remembers itself agrees with the durable store.\<close>

definition jinv :: "'p journal \<Rightarrow> bool" where
  "jinv j \<longleftrightarrow> pinv (durable j) \<and> skey (durable j) = Some (jkey j) \<and>
     (\<forall>pid r. map_of (journal_records j) pid = Some r \<longrightarrow>
        jr_planId r = pid \<and> no_nul (jr_owner r) \<and>
        lookup (durable j) (jr_owner r, jr_requestId r) = Some (pid, jr_digest r)) \<and>
     (\<forall>rk pid. map_of (byRequest j) rk = Some pid \<longrightarrow>
        (\<exists>r. map_of (journal_records j) pid = Some r \<and> rk = request_key (jr_owner r) (jr_requestId r)))"

lemma jinvD:
  assumes "jinv j"
  shows "pinv (durable j)" "skey (durable j) = Some (jkey j)"
    "map_of (journal_records j) pid = Some r \<Longrightarrow> jr_planId r = pid"
    "map_of (journal_records j) pid = Some r \<Longrightarrow> no_nul (jr_owner r)"
    "map_of (journal_records j) pid = Some r \<Longrightarrow>
       lookup (durable j) (jr_owner r, jr_requestId r) = Some (pid, jr_digest r)"
    "map_of (byRequest j) rk = Some pid \<Longrightarrow>
       \<exists>r. map_of (journal_records j) pid = Some r \<and> rk = request_key (jr_owner r) (jr_requestId r)"
  using assms unfolding jinv_def by blast+

text \<open>A change of one record that keeps its identity, and any change of the store that keeps the claims.\<close>

lemma jinv_put:
  assumes "jinv j" "map_of (journal_records j) pid = Some r"
    "jr_planId r' = jr_planId r" "jr_owner r' = jr_owner r" "jr_requestId r' = jr_requestId r" "jr_digest r' = jr_digest r"
  shows "jinv (put_record pid r' j)"
  unfolding jinv_def
proof (intro conjI allI impI)
  note D = jinvD [OF assms(1)]
  have recs: "map_of (journal_records (put_record pid r' j)) = (map_of (journal_records j))(pid \<mapsto> r')"
    by (simp add: put_record_def update_conv')
  show "pinv (durable (put_record pid r' j))" "skey (durable (put_record pid r' j)) = Some (jkey (put_record pid r' j))"
    using D(1,2) by (simp_all add: put_record_def)
  fix p x assume m: "map_of (journal_records (put_record pid r' j)) p = Some x"
  have "jr_planId x = p \<and> no_nul (jr_owner x) \<and>
      lookup (durable (put_record pid r' j)) (jr_owner x, jr_requestId x) = Some (p, jr_digest x)"
    using m D(3,4,5) [of p x] D(3,4,5) [OF assms(2)] assms(3-6)
    by (cases "p = pid") (auto simp: recs, simp_all add: put_record_def)
  then show "jr_planId x = p" "no_nul (jr_owner x)"
    "lookup (durable (put_record pid r' j)) (jr_owner x, jr_requestId x) = Some (p, jr_digest x)" by blast+
next
  fix rk p assume "map_of (byRequest (put_record pid r' j)) rk = Some p"
  then obtain x where x: "map_of (journal_records j) p = Some x" "rk = request_key (jr_owner x) (jr_requestId x)"
    using jinvD(6) [OF assms(1), of rk p] by (auto simp: put_record_def)
  show "\<exists>r. map_of (journal_records (put_record pid r' j)) p = Some r \<and> rk = request_key (jr_owner r) (jr_requestId r)"
  proof (cases "p = pid")
    case True
    with x assms show ?thesis by (intro exI [of _ r']) (auto simp: put_record_def update_conv')
  next
    case False
    with x show ?thesis by (intro exI [of _ x]) (auto simp: put_record_def update_conv')
  qed
qed

lemma jinv_durable:
  "jinv j \<Longrightarrow> pinv d \<Longrightarrow> lookup d = lookup (durable j) \<Longrightarrow> skey d = skey (durable j) \<Longrightarrow> jinv (j\<lparr>durable := d\<rparr>)"
  by (simp add: jinv_def)

text \<open>The journal remembers a claim the store has answered.\<close>

lemma jinv_remember:
  assumes inv: "jinv j" and d: "pinv d" "skey d = skey (durable j)"
    and grown: "\<And>k v. lookup (durable j) k = Some v \<Longrightarrow> lookup d k = Some v"
    and here: "lookup d (jr_owner r, jr_requestId r) = Some (jr_planId r, jr_digest r)" "no_nul (jr_owner r)"
  shows "jinv (remember_claim (request_key (jr_owner r) (jr_requestId r)) r (j\<lparr>durable := d\<rparr>))"
    (is "jinv ?j")
proof -
  note D = jinvD [OF inv]
  have recs: "map_of (journal_records ?j) = (map_of (journal_records j))(jr_planId r \<mapsto> r)"
    and reqs: "map_of (byRequest ?j) = (map_of (byRequest j))(request_key (jr_owner r) (jr_requestId r) \<mapsto> jr_planId r)"
    and rest: "durable ?j = d" "jkey ?j = jkey j"
    by (simp_all add: remember_claim_def put_record_def update_conv')
  have old: "jr_owner x = jr_owner r \<and> jr_requestId x = jr_requestId r"
    if "map_of (journal_records j) (jr_planId r) = Some x" for x
  proof -
    from D(5) [OF that] have "lookup d (jr_owner x, jr_requestId x) = Some (jr_planId r, jr_digest x)" by (rule grown)
    with ids_law [OF d(1) here(1)] show ?thesis by auto
  qed
  have known: "jr_planId x = p \<and> no_nul (jr_owner x) \<and> lookup d (jr_owner x, jr_requestId x) = Some (p, jr_digest x)"
    if "map_of (journal_records ?j) p = Some x" for p x
    using that here D(3,4) [of p x] grown [OF D(5) [of p x]] by (cases "p = jr_planId r") (auto simp: recs)
  have asked: "\<exists>x. map_of (journal_records ?j) p = Some x \<and> rk = request_key (jr_owner x) (jr_requestId x)"
    if "map_of (byRequest ?j) rk = Some p" for rk p
  proof (cases "rk = request_key (jr_owner r) (jr_requestId r)")
    case True
    with that show ?thesis by (auto simp: recs reqs)
  next
    case False
    with that D(6) [of rk p] obtain x where "map_of (journal_records j) p = Some x" "rk = request_key (jr_owner x) (jr_requestId x)"
      by (auto simp: reqs)
    with old [of x] False show ?thesis by (cases "p = jr_planId r") (auto simp: recs)
  qed
  show ?thesis unfolding jinv_def rest using d D(2) known asked by auto
qed

end

section \<open>The journal refines the write-once map\<close>

lemma on_durable_simp: "on_durable m j = (fst (m (durable j)), j\<lparr>durable := snd (m (durable j))\<rparr>)"
  by (simp add: on_durable_def split: prod.splits)

definition new_claim :: "string \<Rightarrow> string \<Rightarrow> string \<Rightarrow> control_plan \<Rightarrow> string \<Rightarrow> claim_input" where
  "new_claim uuid now ow plan digest =
     \<lparr>ci_planId = ''plan_'' @ uuid, ci_owner = ow, ci_requestId = requestId plan,
      ci_digest = digest, ci_mode = plan_mode plan, ci_status = ''running'',
      ci_createdAt = now, ci_updatedAt = now\<rparr>"

lemma new_claim_sel [simp]:
  "ci_planId (new_claim uuid now ow plan digest) = ''plan_'' @ uuid"
  "ci_owner (new_claim uuid now ow plan digest) = ow"
  "ci_requestId (new_claim uuid now ow plan digest) = requestId plan"
  "ci_digest (new_claim uuid now ow plan digest) = digest"
  by (simp_all add: new_claim_def)

lemma claim_new_cases:
  "claim_new (Some p) uuid now ow plan digest j =
     (case p_claim p (new_claim uuid now ow plan digest) (durable j) of
        (Inl e, d) \<Rightarrow> (Inl e, j\<lparr>durable := d\<rparr>)
      | (Inr (stored, existing), d) \<Rightarrow>
          (let proposed = proposed_record uuid now ow (requestId plan) digest;
               rk = request_key ow (requestId plan);
               restored = restored_record proposed stored in
           if \<not> existing then (Inr (proposed, False), remember_claim rk proposed (j\<lparr>durable := d\<rparr>))
           else if dp_digest stored \<noteq> digest then (Inl conflict, j\<lparr>durable := d\<rparr>)
           else (Inr (restored, True), remember_claim rk restored (j\<lparr>durable := d\<rparr>))))"
  by (simp add: claim_new_def new_claim_def bindS_def on_durable_def throwS_def Let_def proposed_record_def
      split: prod.splits sum.splits)

context plan_store
begin

text \<open>A claim whose id is new answers as the map prescribes and changes it so.\<close>

definition refines_claim ::
    "'p journal \<Rightarrow> string \<Rightarrow> control_plan \<Rightarrow> string \<Rightarrow> string \<Rightarrow> thrown + journal_record \<times> bool \<Rightarrow> 'p journal \<Rightarrow> bool" where
  "refines_claim j ow plan pid digest res j' \<longleftrightarrow>
     jinv j' \<and> jkey j' = jkey j \<and>
     ((claim_answer res, lookup (durable j')) = spec_claim (lookup (durable j)) (ow, requestId plan) pid digest \<or>
      (\<exists>e k d. res = Inl e \<and> lookup (durable j) k = Some (pid, d) \<and> lookup (durable j) (ow, requestId plan) = None \<and>
         lookup (durable j') = lookup (durable j)))"

lemma claim_new_refines:
  assumes inv: "jinv j" and ow: "no_nul ow" and c: "claim_new (Some ps) uuid now ow plan digest j = (res, j')"
  shows "refines_claim j ow plan (''plan_'' @ uuid) digest res j'"
proof -
  let ?k = "(ow, requestId plan)"
  note D = jinvD [OF inv]
  define proposed where "proposed = proposed_record uuid now ow (requestId plan) digest"
  have p: "jr_owner proposed = ow" "jr_requestId proposed = requestId plan" "jr_planId proposed = ''plan_'' @ uuid"
    "jr_digest proposed = digest"
    by (simp_all add: proposed_def proposed_record_def)
  obtain r d where pc: "p_claim ps (new_claim uuid now ow plan digest) (durable j) = (r, d)" by fastforce
  note law = claim_law [OF D(1) _ pc, simplified]
  show ?thesis
  proof (cases r)
    case (Inl e)
    with c pc law inv show ?thesis by (auto simp: claim_new_cases refines_claim_def intro!: jinv_durable)
  next
    case (Inr a)
    then obtain stored existing where r: "r = Inr (stored, existing)" by (cases a) auto
    define restored where "restored = restored_record proposed stored"
    have rs: "jr_owner restored = ow" "jr_requestId restored = requestId plan" "jr_planId restored = dp_planId stored"
      "jr_digest restored = digest"
      using p by (simp_all add: restored_def restored_record_def)
    consider (new) "\<not> existing" | (same) "existing" "dp_digest stored = digest"
      | (other) "existing" "dp_digest stored \<noteq> digest" by blast
    then show ?thesis
    proof cases
      case new
      with c pc r have eq: "res = Inr (proposed, False)" "j' = remember_claim (request_key ow (requestId plan)) proposed (j\<lparr>durable := d\<rparr>)"
        by (simp_all add: claim_new_cases proposed_def Let_def)
      from new law r have l: "lookup (durable j) ?k = None" "lookup d = (lookup (durable j))(?k \<mapsto> (''plan_'' @ uuid, digest))"
        "pinv d" "skey d = skey (durable j)" by auto
      have grown: "lookup d k = Some v" if "lookup (durable j) k = Some v" for k v
        using that l(1,2) by auto
      have "jinv j'"
        using jinv_remember [OF inv l(3,4) grown, of proposed] l p ow by (simp add: eq)
      with l eq p show ?thesis by (simp add: refines_claim_def remember_claim_def put_record_def)
    next
      case same
      with c pc r have eq: "res = Inr (restored, True)" "j' = remember_claim (request_key ow (requestId plan)) restored (j\<lparr>durable := d\<rparr>)"
        by (simp_all add: claim_new_cases proposed_def restored_def Let_def)
      from same law r have l: "lookup (durable j) ?k = Some (dp_planId stored, digest)" "lookup d = lookup (durable j)"
        "pinv d" "skey d = skey (durable j)" by auto
      have "jinv j'"
        using jinv_remember [OF inv l(3,4), of restored] l rs ow by (auto simp: eq)
      with l eq rs show ?thesis by (simp add: refines_claim_def remember_claim_def put_record_def)
    next
      case other
      with c pc r have eq: "res = Inl conflict" "j' = j\<lparr>durable := d\<rparr>"
        by (simp_all add: claim_new_cases Let_def)
      from other law r have l: "lookup (durable j) ?k = Some (dp_planId stored, dp_digest stored)" "lookup d = lookup (durable j)"
        "pinv d" "skey d = skey (durable j)" by auto
      with eq inv other show ?thesis by (auto simp: refines_claim_def intro: jinv_durable)
    qed
  qed
qed

lemma claim_refines:
  assumes inv: "jinv j" and ow: "no_nul ow" and dg: "plan_digest hmac (jkey j) plan = Inr digest"
    and c: "claim hmac (Some ps) uuid now ow plan j = (res, j')"
  shows "refines_claim j ow plan (''plan_'' @ uuid) digest res j'"
proof (cases "map_of (byRequest j) (request_key ow (requestId plan))")
  case None
  with c dg have "claim_new (Some ps) uuid now ow plan digest j = (res, j')" by (simp add: claim_def)
  then show ?thesis by (rule claim_new_refines [OF inv ow])
next
  case (Some pid)
  note D = jinvD [OF inv]
  from D(6) [OF Some] obtain r where r: "map_of (journal_records j) pid = Some r"
    "request_key ow (requestId plan) = request_key (jr_owner r) (jr_requestId r)" by blast
  with D(4) [OF r(1)] ow have key: "jr_owner r = ow" "jr_requestId r = requestId plan"
    by (simp_all add: request_key_inject)
  with D(5) [OF r(1)] have l: "lookup (durable j) (ow, requestId plan) = Some (pid, jr_digest r)" by simp
  with ids_law [OF D(1)] have "pid \<noteq> []" by blast
  with c dg Some r D(3) [OF r(1)] l inv show ?thesis
    by (auto simp: claim_def refines_claim_def split: if_splits)
qed

text \<open>The other operations keep what the journal knows and what was claimed.\<close>

definition keeps_claims :: "'p journal \<Rightarrow> 'p journal \<Rightarrow> bool" where
  "keeps_claims j j' \<longleftrightarrow> jinv j' \<and> lookup (durable j') = lookup (durable j) \<and> jkey j' = jkey j"

lemma keeps_durable:
  assumes "jinv j" "\<And>r s'. m (durable j) = (r, s') \<Longrightarrow> pinv s' \<and> lookup s' = lookup (durable j) \<and> skey s' = skey (durable j)"
  shows "keeps_claims j (snd (on_durable m j))"
  using assms jinv_durable [OF assms(1), of "snd (m (durable j))"]
  by (cases "m (durable j)") (auto simp: keeps_claims_def on_durable_simp)

lemma keeps_put:
  assumes "jinv j" "owned_record ow pid j = Some r"
    "jr_planId r' = jr_planId r" "jr_owner r' = jr_owner r" "jr_requestId r' = jr_requestId r" "jr_digest r' = jr_digest r"
  shows "keeps_claims j (put_record pid r' j)"
proof -
  have "map_of (journal_records j) pid = Some r"
    using assms(2) by (simp add: owned_record_def split: option.splits if_splits)
  from jinv_put [OF assms(1) this assms(3-6)] show ?thesis by (simp add: keeps_claims_def put_record_def)
qed

lemma keeps_trans: "keeps_claims j1 j2 \<Longrightarrow> keeps_claims j2 j3 \<Longrightarrow> keeps_claims j1 j3"
  by (simp add: keeps_claims_def)

lemma keeps_refl: "jinv j \<Longrightarrow> keeps_claims j j"
  by (simp add: keeps_claims_def)

lemma keeps_bind_ret: "keeps_claims j (snd (m j)) \<Longrightarrow> keeps_claims j (snd (bindS m (\<lambda>_. retS x) j))"
  by (cases "m j"; cases "fst (m j)") (auto simp: bindS_def retS_def)

lemma update_keeps: "jinv j \<Longrightarrow> keeps_claims j (snd (on_durable (p_updateStatus ps now ow pid st c) j))"
  using status_law jinvD(1) by (intro keeps_durable) blast+

lemma finish_keeps: "jinv j \<Longrightarrow> keeps_claims j (snd (on_durable (p_finish ps now ow pid st res c) j))"
  using finish_law jinvD(1) by (intro keeps_durable) blast+

lemma cancel_keeps: "jinv j \<Longrightarrow> keeps_claims j (snd (journal_cancel (Some ps) clk ow pid j))"
proof (cases "owned_record ow pid j")
  case None
  assume "jinv j"
  with None show ?thesis by (simp add: journal_cancel_def keeps_refl update_keeps)
next
  case (Some r)
  assume "jinv j"
  define r' where "r' = r\<lparr>jr_cancelled := True, jr_status := JCancelled, jr_updatedAt := clk 0\<rparr>"
  have put: "keeps_claims j (put_record pid r' j)"
    by (rule keeps_put [OF \<open>jinv j\<close> Some]) (simp_all add: r'_def)
  then have "jinv (put_record pid r' j)" by (simp add: keeps_claims_def)
  then have "keeps_claims (put_record pid r' j) (snd (journal_cancel (Some ps) clk ow pid j))"
    by (simp add: journal_cancel_def Some r'_def [symmetric] keeps_bind_ret update_keeps)
  with put show ?thesis by (rule keeps_trans)
qed

lemma step_keeps: "jinv j \<Longrightarrow> keeps_claims j (snd (journal_recordStep (Some ps) now ow pid sid act ds st j))"
proof -
  assume "jinv j"
  then have "keeps_claims j (snd (on_durable (p_recordStep ps now att) j))" for att
    using step_law jinvD(1) by (intro keeps_durable) blast+
  with \<open>jinv j\<close> show ?thesis by (auto simp: journal_recordStep_def keeps_refl)
qed

lemma journal_finish_keeps: "jinv j \<Longrightarrow> keeps_claims j (snd (journal_finish (Some ps) clk ow res j))"
proof (cases "owned_record ow (pr_planId res) j")
  case None
  assume "jinv j"
  with None show ?thesis by (simp add: journal_finish_def Let_def keeps_bind_ret finish_keeps)
next
  case (Some r)
  assume "jinv j"
  define r' where "r' = r\<lparr>jr_result := Some res, jr_status := finished_status (pr_status res), jr_updatedAt := clk 0\<rparr>"
  have put: "keeps_claims j (put_record (pr_planId res) r' j)"
    by (rule keeps_put [OF \<open>jinv j\<close> Some]) (simp_all add: r'_def)
  then have "jinv (put_record (pr_planId res) r' j)" by (simp add: keeps_claims_def)
  then have "keeps_claims (put_record (pr_planId res) r' j) (snd (journal_finish (Some ps) clk ow res j))"
    by (simp add: journal_finish_def Let_def Some r'_def [symmetric] keeps_bind_ret finish_keeps)
  with put show ?thesis by (rule keeps_trans)
qed

text \<open>A restart loses the records in memory and keeps the store.\<close>

lemma restart_keeps:
  assumes "jinv j" "new_journal (Some ps) rnd (durable j) = Inr j'"
  shows "keeps_claims j j'"
proof -
  obtain k d where k: "p_digestKey ps (durable j) = (Inr k, d)" "j' = \<lparr>jkey = k, journal_records = [], byRequest = [], durable = d\<rparr>"
    using assms(2) by (auto simp: new_journal_def split: prod.splits sum.splits)
  from key_law [OF jinvD(1) [OF assms(1)] k(1)] jinvD(2) [OF assms(1)] k(2) show ?thesis
    by (auto simp: keeps_claims_def jinv_def)
qed

end

section \<open>Runs of the journal\<close>

text \<open>The calls a journal receives over its life, and a restart of the process.\<close>

datatype journal_event =
    EvClaim string string string control_plan
  | EvCancel "nat \<Rightarrow> string" string string
  | EvStep string string string string string string string
  | EvFinish "nat \<Rightarrow> string" string control_plan_result
  | EvRestart string

fun journal_step ::
    "(string \<Rightarrow> string \<Rightarrow> string) \<Rightarrow> 'p persistence option \<Rightarrow> 'p journal \<Rightarrow> journal_event \<Rightarrow> 'p journal" where
  "journal_step hmac ps j (EvClaim uuid now ow plan) = snd (claim hmac ps uuid now ow plan j)"
| "journal_step hmac ps j (EvCancel clk ow pid) = snd (journal_cancel ps clk ow pid j)"
| "journal_step hmac ps j (EvStep now ow pid sid act ds st) =
     snd (journal_recordStep ps now ow pid sid act ds st j)"
| "journal_step hmac ps j (EvFinish clk ow res) = snd (journal_finish ps clk ow res j)"
| "journal_step hmac ps j (EvRestart rnd) =
     (case new_journal ps rnd (durable j) of Inl _ \<Rightarrow> j | Inr j' \<Rightarrow> j')"

text \<open>Owners are names of sessions and connections, without the separator of the request key.\<close>

fun clean_event :: "journal_event \<Rightarrow> bool" where
  "clean_event (EvClaim uuid now ow plan) = no_nul ow"
| "clean_event _ = True"

lemma plan_digest_Inr: "\<exists>dg. plan_digest hmac key plan = Inr dg"
  by (simp add: plan_digest_def plan_json_def)

context plan_store
begin

definition grows :: "'p journal \<Rightarrow> 'p journal \<Rightarrow> bool" where
  "grows j j' \<longleftrightarrow> jkey j' = jkey j \<and> lookup (durable j) \<subseteq>\<^sub>m lookup (durable j')"

lemma keeps_grows: "keeps_claims j j' \<Longrightarrow> jinv j' \<and> grows j j'"
  by (simp add: keeps_claims_def grows_def)

lemma refines_grows: "refines_claim j ow plan pid digest res j' \<Longrightarrow> jinv j' \<and> grows j j'"
  by (auto simp: refines_claim_def grows_def map_le_def claim_answer_def split: option.splits if_splits sum.splits)

lemma step_grows:
  assumes "jinv j" "clean_event ev"
  shows "jinv (journal_step hmac (Some ps) j ev) \<and> grows j (journal_step hmac (Some ps) j ev)"
proof (cases ev)
  case (EvClaim uuid now ow plan)
  obtain dg where dg: "plan_digest hmac (jkey j) plan = Inr dg" using plan_digest_Inr by blast
  obtain res j' where c: "claim hmac (Some ps) uuid now ow plan j = (res, j')" by fastforce
  from claim_refines [OF assms(1) _ dg c] assms(2) EvClaim
  have "refines_claim j ow plan (''plan_'' @ uuid) dg res j'" by simp
  with c EvClaim show ?thesis by (simp add: refines_grows)
next
  case (EvRestart rnd)
  show ?thesis
  proof (cases "new_journal (Some ps) rnd (durable j)")
    case (Inl e)
    with EvRestart assms(1) show ?thesis by (simp add: grows_def)
  next
    case (Inr j')
    with EvRestart keeps_grows [OF restart_keeps [OF assms(1) Inr]] show ?thesis by simp
  qed
qed (simp_all add: keeps_grows [OF cancel_keeps] keeps_grows [OF step_keeps] keeps_grows [OF journal_finish_keeps] assms(1))

end

sublocale plan_store \<subseteq> journal: guarded_system "journal_step hmac (Some ps)" clean_event jinv
  for hmac by unfold_locales (use step_grows in blast)

context plan_store
begin

lemma run_grows: "jinv j \<Longrightarrow> list_all clean_event evs \<Longrightarrow> grows j (foldl (journal_step hmac (Some ps)) j evs)"
  by (rule journal.guarded_run_rel [where R = grows])
     (use step_grows in \<open>auto simp: grows_def intro: map_le_trans\<close>)

text \<open>A request id names one plan for ever.\<close>

lemma later_claim:
  assumes inv: "jinv j" and ow: "no_nul ow"
  and first: "claim hmac (Some ps) u1 t1 ow p j = (Inr (r, ex), j1)"
  and evs: "list_all clean_event evs"
  and again: "claim hmac (Some ps) u2 t2 ow q (foldl (journal_step hmac (Some ps)) j1 evs) = (res, j3)"
  and req: "requestId q = requestId p"
  shows "if plan_digest hmac (jkey j) q = plan_digest hmac (jkey j) p
         then \<exists>r2. res = Inr (r2, True) \<and> jr_planId r2 = jr_planId r
         else res = Inl conflict"
proof -
  obtain dp where dp: "plan_digest hmac (jkey j) p = Inr dp" using plan_digest_Inr by blast
  have one: "refines_claim j ow p (''plan_'' @ u1) dp (Inr (r, ex)) j1"
    by (rule claim_refines [OF inv ow dp first])
  then have j1: "jinv j1" "grows j j1" "lookup (durable j1) (ow, requestId p) = Some (jr_planId r, dp)"
    using refines_grows [OF one]
    by (auto simp: refines_claim_def split: option.splits if_splits)
  let ?j2 = "foldl (journal_step hmac (Some ps)) j1 evs"
  have j2: "jinv ?j2" "grows j1 ?j2"
    using journal.guarded_run [OF j1(1) evs] run_grows [OF j1(1) evs] by simp_all
  have key: "jkey ?j2 = jkey j" using j1(2) j2(2) by (simp add: grows_def)
  have l2: "lookup (durable ?j2) (ow, requestId q) = Some (jr_planId r, dp)"
    using j1(3) j2(2) req by (auto simp: grows_def map_le_def dom_def)
  obtain dq where dq: "plan_digest hmac (jkey j) q = Inr dq" using plan_digest_Inr by blast
  have "refines_claim ?j2 ow q (''plan_'' @ u2) dq res j3"
    by (rule claim_refines [OF j2(1) ow _ again]) (simp add: key dq)
  with l2 dp dq show ?thesis
    by (auto simp: refines_claim_def claim_answer_def split: sum.splits if_splits)
qed

text \<open>A claim under a new id always ends with an answer of the map.\<close>

lemma claim_exact:
  assumes inv: "jinv j" and ow: "no_nul ow" and dg: "plan_digest hmac (jkey j) plan = Inr digest"
    and c: "claim hmac (Some ps) uuid now ow plan j = (res, j')"
    and new: "\<And>k d. lookup (durable j) k \<noteq> Some (''plan_'' @ uuid, d)"
  shows "(claim_answer res, lookup (durable j')) =
     spec_claim (lookup (durable j)) (ow, requestId plan) (''plan_'' @ uuid) digest"
  using claim_refines [OF inv ow dg c] new unfolding refines_claim_def by blast

end

section \<open>What the digest covers\<close>

lemma journal_canonical_members:
  "map (\<lambda>(k, t). json_quote k @ '':'' @ t)
     (sort_key fst (map (\<lambda>(k, v). (k, case journal_canonical v of None \<Rightarrow> u | Some t \<Rightarrow> t)) ms)) =
   map (\<lambda>(k, v). json_quote k @ '':'' @ (case journal_canonical v of None \<Rightarrow> u | Some t \<Rightarrow> t)) (sort_key fst ms)"
  using sort_key_map_snd [of "\<lambda>k. k" "\<lambda>v. case journal_canonical v of None \<Rightarrow> u | Some t \<Rightarrow> t" ms]
  by (simp add: comp_def case_prod_beta')

lemma journal_canonical_eq: "no_undef v \<Longrightarrow> journal_canonical v = Some (canonical v)"
proof (induction v rule: journal_canonical.induct)
  case (2 xs)
  then have "map (\<lambda>x. case journal_canonical x of None \<Rightarrow> [] | Some t \<Rightarrow> t) xs = map canonical xs" by simp
  then show ?case by (simp only: journal_canonical.simps canonical.simps)
next
  case (3 ms)
  have ih: "(case journal_canonical v of None \<Rightarrow> ''undefined'' | Some t \<Rightarrow> t) = canonical v" if "(k, v) \<in> set ms" for k v
    using 3 that by fastforce
  have "map (\<lambda>(k, v). json_quote k @ '':'' @ (case journal_canonical v of None \<Rightarrow> ''undefined'' | Some t \<Rightarrow> t)) (sort_key fst ms)
      = map (\<lambda>(k, v). json_quote k @ '':'' @ canonical v) (sort_key fst ms)"
    using ih by (intro map_cong) auto
  moreover have "filter (\<lambda>(k, v). \<not> is_undef v) ms = ms" using 3(2) by (intro filter_undef_id) auto
  ultimately show ?case
    by (simp only: journal_canonical.simps journal_canonical_members canonical.simps)
qed simp_all

text \<open>Equality of values up to the order of members.\<close>

abbreviation same_json :: "jsv \<Rightarrow> jsv \<Rightarrow> bool" where
  "same_json v w \<equiv> sorted_obj (\<lambda>k. k) v = sorted_obj (\<lambda>k. k) w"

lemma same_json_member:
  assumes "same_json (VObj ms) (VObj ms')" "wf_map ms" "wf_map ms'"
  shows "map_option (sorted_obj (\<lambda>k. k)) (map_of ms k) = map_option (sorted_obj (\<lambda>k. k)) (map_of ms' k)"
  using assms by (rule sorted_obj_lookup)

lemma same_json_list:
  assumes "map (sorted_obj (\<lambda>k. k)) (map f xs) = map (sorted_obj (\<lambda>k. k)) (map f ys)"
  and "\<And>x y. x \<in> set xs \<Longrightarrow> y \<in> set ys \<Longrightarrow> same_json (f x) (f y) \<Longrightarrow> x = y"
  shows "xs = ys"
  using assms by (intro list_eq_iff_nth_eq [THEN iffD2]) (auto simp: list_eq_iff_nth_eq)

text \<open>Two objects with the same JSON up to the order of members agree on every member.\<close>

lemma same_jsonE:
  assumes "same_json v w" "v = VObj ms" "w = VObj ms'" "wf_map ms" "wf_map ms'"
  shows "map_option (sorted_obj (\<lambda>k. k)) (map_of ms k) = map_option (sorted_obj (\<lambda>k. k)) (map_of ms' k)"
  using assms by (intro same_json_member) simp_all

lemma action_json_obj: "\<exists>ms. action_json a = VObj ms \<and> wf_map ms \<and> map_of ms ''op'' = Some (VStr (kind_text (action_kind a)))"
  by (cases a) (auto simp: wf_map_def split: option.splits)

lemma action_json_inject:
  assumes same: "same_json (action_json a) (action_json b)"
  shows "a = b"
proof -
  obtain ms where ms: "action_json a = VObj ms" "wf_map ms" "map_of ms ''op'' = Some (VStr (kind_text (action_kind a)))"
    using action_json_obj [of a] by blast
  obtain ms' where ms': "action_json b = VObj ms'" "wf_map ms'" "map_of ms' ''op'' = Some (VStr (kind_text (action_kind b)))"
    using action_json_obj [of b] by blast
  note L = same_jsonE [OF same ms(1) ms'(1) ms(2) ms'(2)]
  have kind: "action_kind a = action_kind b" using L [of "''op''"] ms(3) ms'(3) by simp
  note lookups = L [of "''text''"] L [of "''clear''"] L [of "''key''"] L [of "''dx''"] L [of "''dy''"]
      L [of "''timeoutMs''"] L [of "''value''"] L [of "''state''"]
  show "a = b"
  proof (cases a)
    case Click with kind show ?thesis by (cases b) simp_all
  next
    case (TypeText t c) with kind ms(1) ms'(1) lookups(1,2) show ?thesis by (cases b) (auto split: option.splits)
  next
    case (PressKey t) with kind ms(1) ms'(1) lookups(3) show ?thesis by (cases b) auto
  next
    case (Scroll x y) with kind ms(1) ms'(1) lookups(4,5) show ?thesis by (cases b) auto
  next
    case (WaitFor t n) with kind ms(1) ms'(1) lookups(1,6) show ?thesis by (cases b) (auto split: option.splits)
  next
    case Invoke with kind show ?thesis by (cases b) simp_all
  next
    case (SetValue t) with kind ms(1) ms'(1) lookups(7) show ?thesis by (cases b) auto
  next
    case (Select t) with kind ms(1) ms'(1) lookups(7) show ?thesis by (cases b) auto
  next
    case (SetToggleState t) with kind ms(1) ms'(1) lookups(8) show ?thesis by (cases b) auto
  qed
qed

fun predicate_kind_text :: "control_predicate \<Rightarrow> string" where
  "predicate_kind_text (EnabledIs b) = ''enabled''"
| "predicate_kind_text (ValueEquals s) = ''valueEquals''"
| "predicate_kind_text (TextPresent sc t) = ''textPresent''"
| "predicate_kind_text (ToggleStateEquals s) = ''toggleStateEquals''"
| "predicate_kind_text (ElementAbsent sc r n) = ''elementAbsent''"
| "predicate_kind_text (UrlEquals u) = ''urlEquals''"

lemma predicate_json_obj:
  "\<exists>ms. predicate_json a = VObj ms \<and> wf_map ms \<and> map_of ms ''kind'' = Some (VStr (predicate_kind_text a))"
  by (cases a) (auto simp: wf_map_def split: option.splits)

lemma predicate_json_inject:
  assumes same: "same_json (predicate_json a) (predicate_json b)"
  shows "a = b"
proof -
  obtain ms where ms: "predicate_json a = VObj ms" "wf_map ms" "map_of ms ''kind'' = Some (VStr (predicate_kind_text a))"
    using predicate_json_obj [of a] by blast
  obtain ms' where ms': "predicate_json b = VObj ms'" "wf_map ms'" "map_of ms' ''kind'' = Some (VStr (predicate_kind_text b))"
    using predicate_json_obj [of b] by blast
  note L = same_jsonE [OF same ms(1) ms'(1) ms(2) ms'(2)]
  have kind: "predicate_kind_text a = predicate_kind_text b" using L [of "''kind''"] ms(3) ms'(3) by simp
  note lookups = L [of "''equals''"] L [of "''value''"] L [of "''scope''"] L [of "''text''"] L [of "''state''"]
    L [of "''role''"] L [of "''name''"] L [of "''url''"]
  show "a = b"
  proof (cases a)
    case (EnabledIs e) with kind ms(1) ms'(1) lookups(1) show ?thesis by (cases b) auto
  next
    case (ValueEquals t) with kind ms(1) ms'(1) lookups(2) show ?thesis by (cases b) auto
  next
    case (TextPresent sc t) with kind ms(1) ms'(1) lookups(3,4) show ?thesis by (cases b) auto
  next
    case (ToggleStateEquals t) with kind ms(1) ms'(1) lookups(5) show ?thesis by (cases b) auto
  next
    case (ElementAbsent sc r n) with kind ms(1) ms'(1) lookups(3,6,7) show ?thesis
      by (cases b) (auto split: option.splits)
  next
    case (UrlEquals t) with kind ms(1) ms'(1) lookups(8) show ?thesis by (cases b) auto
  qed
qed

lemma target_json_inject:
  assumes same: "same_json (target_json a) (target_json b)"
  shows "a = b"
proof (cases a; cases b)
  fix r r' assume "a = ByRef r" "b = ByRef r'"
  with same show ?thesis by simp
next
  fix r l assume a: "a = ByRef r" "b = ByLocator l"
  then show ?thesis using a same_jsonE [OF same, of "[(''ref'', VStr r)]" _ "''ref''"] by (simp add: wf_map_def)
next
  fix r l assume a: "b = ByRef r" "a = ByLocator l"
  then show ?thesis using same_jsonE [OF same, of _ "[(''ref'', VStr r)]" "''ref''"] by (simp add: wf_map_def)
next
  fix l l' assume a: "a = ByLocator l" "b = ByLocator l'"
  define ms where "ms l = [(''scope'', VStr (scope_text (loc_scope l))), (''role'', VStr (loc_role l)),
       (''name'', VStr (loc_name l)), (''match'', VStr ''exact''), (''requireUnique'', VBool True)]
      @ opt_field ''observedAncestor'' VStr (loc_observedAncestor l)" for l :: control_locator
  have wf: "wf_map (ms l)" for l by (auto simp: ms_def wf_map_def split: option.splits)
  have "same_json (VObj (ms l)) (VObj (ms l'))"
    using same_jsonE [OF same, of "[(''locator'', VObj (ms l))]" "[(''locator'', VObj (ms l'))]" "''locator''"] a
    by (simp add: ms_def wf_map_def)
  from same_json_member [OF this wf wf]
  have L: "map_option (sorted_obj (\<lambda>k. k)) (map_of (ms l) k) = map_option (sorted_obj (\<lambda>k. k)) (map_of (ms l') k)" for k .
  have "l = l'"
    using L [of "''scope''"] L [of "''role''"] L [of "''name''"] L [of "''observedAncestor''"]
    by (cases l; cases l') (auto simp: ms_def split: option.splits)
  with a show ?thesis by simp
qed

lemma map_VStr_same: "map (\<lambda>x. VStr x) xs = map (\<lambda>x. VStr x) ys \<longleftrightarrow> xs = ys"
  by (rule inj_map_eq_map) (simp add: inj_def)

lemma step_json_inject:
  assumes same: "same_json (step_json a) (step_json b)"
  shows "a = b"
proof -
  obtain ms where ms: "step_json a = VObj ms" "wf_map ms" by (auto simp: step_json_def wf_map_def)
  obtain ms' where ms': "step_json b = VObj ms'" "wf_map ms'" by (auto simp: step_json_def wf_map_def)
  note L = same_jsonE [OF same ms(1) ms'(1) ms(2) ms'(2)]
  have "step_id a = step_id b" "step_surfaceId a = step_surfaceId b" "timeoutMs a = timeoutMs b"
    using L [of "''id''"] L [of "''surfaceId''"] L [of "''timeoutMs''"] ms(1) ms'(1) by (auto simp: step_json_def)
  moreover have "dependsOn a = dependsOn b"
    using L [of "''dependsOn''"] ms(1) ms'(1) by (auto simp: step_json_def comp_def map_VStr_same)
  moreover have "step_target a = step_target b"
    using L [of "''target''"] ms(1) ms'(1) by (auto simp: step_json_def intro: target_json_inject)
  moreover have "step_action a = step_action b"
    using L [of "''action''"] ms(1) ms'(1) by (auto simp: step_json_def intro: action_json_inject)
  moreover have "postcondition a = postcondition b"
    using L [of "''postcondition''"] ms(1) ms'(1) by (auto simp: step_json_def intro: predicate_json_inject)
  moreover have "preconditions a = preconditions b"
    using L [of "''preconditions''"] ms(1) ms'(1)
    by (intro same_json_list [where f = predicate_json]) (auto simp: step_json_def intro: predicate_json_inject)
  ultimately show ?thesis by (cases a; cases b) simp
qed

text \<open>Plans with one canonical text differ at most in the order of the expected observations.\<close>

lemma plan_json_inject:
  assumes same: "same_json (plan_json p) (plan_json q)"
  and wf: "wf_map (expectedObservations p)" "wf_map (expectedObservations q)"
  shows "q = p\<lparr>expectedObservations := expectedObservations q\<rparr> \<and>
    map_of (expectedObservations q) = map_of (expectedObservations p)"
proof -
  obtain ms where ms: "plan_json p = VObj ms" "wf_map ms" by (auto simp: plan_json_def wf_map_def)
  obtain ms' where ms': "plan_json q = VObj ms'" "wf_map ms'" by (auto simp: plan_json_def wf_map_def)
  note L = same_jsonE [OF same ms(1) ms'(1) ms(2) ms'(2)]
  have "requestId p = requestId q" "plan_mode p = plan_mode q" "deadlineMs p = deadlineMs q" "maxConcurrency p = maxConcurrency q"
    using L [of "''requestId''"] L [of "''mode''"] L [of "''deadlineMs''"] L [of "''maxConcurrency''"] ms(1) ms'(1)
    by (auto simp: plan_json_def)
  moreover have "surfaceIds p = surfaceIds q"
    using L [of "''surfaceIds''"] ms(1) ms'(1) by (auto simp: plan_json_def comp_def map_VStr_same)
  moreover have "steps p = steps q"
    using L [of "''steps''"] ms(1) ms'(1)
    by (intro same_json_list [where f = step_json]) (auto simp: plan_json_def intro: step_json_inject)
  moreover have "plan_output p = plan_output q"
  proof -
    define os where "os out = [(''kind'', VStr (if out_full out then ''full'' else ''delta''))]
          @ opt_field ''baseObservationId'' VStr (out_baseObservationId out)
          @ [(''maxOutputTokens'', VInt (maxOutputTokens out))]" for out :: control_plan_output
    have w: "wf_map (os out)" for out by (auto simp: os_def wf_map_def split: option.splits)
    have "same_json (VObj (os (plan_output p))) (VObj (os (plan_output q)))"
      using L [of "''output''"] ms(1) ms'(1) by (auto simp: plan_json_def os_def)
    from same_json_member [OF this w w]
    have O: "map_option (sorted_obj (\<lambda>k. k)) (map_of (os (plan_output p)) k) =
        map_option (sorted_obj (\<lambda>k. k)) (map_of (os (plan_output q)) k)" for k .
    show ?thesis
      using O [of "''kind''"] O [of "''baseObservationId''"] O [of "''maxOutputTokens''"]
      by (cases "plan_output p"; cases "plan_output q") (auto simp: os_def split: option.splits if_splits)
  qed
  moreover have "map_of (expectedObservations q) = map_of (expectedObservations p)"
  proof -
    let ?ms = "\<lambda>p. map (\<lambda>(k, t). (k, VStr t)) (expectedObservations p)"
    have "same_json (VObj (?ms p)) (VObj (?ms q))"
      using L [of "''expectedObservations''"] ms(1) ms'(1) by (auto simp: plan_json_def)
    then have "map_option (sorted_obj (\<lambda>k. k)) (map_of (?ms p) k) = map_option (sorted_obj (\<lambda>k. k)) (map_of (?ms q) k)" for k
      by (rule same_json_member) (use wf in \<open>simp_all add: wf_map_def comp_def case_prod_beta'\<close>)
    then have "map_option VStr (map_of (expectedObservations q) k) = map_option VStr (map_of (expectedObservations p) k)" for k
      by (simp add: map_of_map [where f = VStr] option.map_comp comp_def)
    moreover have "inj (map_option VStr)" by (rule option.inj_map) (simp add: inj_def)
    ultimately show ?thesis by (intro ext) (rule injD)
  qed
  ultimately show ?thesis by (cases p; cases q) simp
qed

lemma opt_no_undef: "(\<And>x. no_undef (f x)) \<Longrightarrow> m \<in> set (opt_field k f v) \<Longrightarrow> no_undef (snd m)"
  by (cases v) auto

lemma plan_no_undef: "no_undef (plan_json p)"
proof -
  have a: "no_undef (action_json x)" for x by (cases x) (auto split: option.splits)
  have b: "no_undef (predicate_json x)" for x by (cases x) (auto split: option.splits)
  have c: "no_undef (target_json x)" for x by (cases x) (auto split: option.splits)
  have "no_undef (step_json x)" for x by (simp add: step_json_def a b c)
  then show ?thesis by (auto simp: plan_json_def split: option.splits)
qed

lemma plan_digest_text: "plan_digest hmac key p = Inr (hmac key (canonical (plan_json p)))"
  by (simp add: plan_digest_def journal_canonical_eq [OF plan_no_undef])

end
