(* ===== verification/PlanRepository.thy ===== *)
theory PlanRepository
  imports PlanJournal
begin

text \<open>
  packages/store/src/control-plans.ts: the durable store of plans, two SQL tables and one row of
  the settings table. A table is the list of its rows; SELECT reads the first match, UPDATE
  changes every match and reports their number, INSERT refuses a second row with one of the keys
  that packages/store/src/migrations/control-plan-desktop.ts declares (plan id; owner and request id;
  plan, step and attempt id) and a step of a plan that does not exist. The column result_json holds
  the JSON text of a result; reading it back gives the value, which the model keeps instead.
  \<open>enc\<close> and \<open>dec\<close> are base64url, \<open>rnd\<close> the 32 random bytes.
\<close>

section \<open>Tables\<close>

record plan_row =
  row_plan_id :: string
  row_owner :: string
  row_request_id :: string
  row_digest :: string
  row_mode :: string
  row_status :: string
  row_cancelled :: int
  row_result :: "control_plan_result option"
  row_created_at :: string
  row_updated_at :: string

record step_row =
  st_plan_id :: string
  st_step_id :: string
  st_attempt_id :: string
  st_action :: string
  st_dispatch_state :: string
  st_status :: string
  st_created_at :: string
  st_updated_at :: string

record plan_db =
  settings :: "(string, string) jsmap"
  plan_rows :: "plan_row list"
  step_rows :: "step_row list"

type_synonym 'a db_op = "(plan_db, thrown, 'a) eff"

definition sql_error :: "string \<Rightarrow> thrown" where
  "sql_error message = thrown_with ''ERR_SQLITE_ERROR'' message"

definition project :: "plan_row \<Rightarrow> durable_plan" where
  "project row =
     \<lparr>dp_planId = row_plan_id row, dp_owner = row_owner row, dp_requestId = row_request_id row,
      dp_digest = row_digest row,
      dp_mode = (if row_mode row = ''isolated'' then Isolated else SharedSemantic),
      dp_status = row_status row, dp_cancelled = (row_cancelled row = 1), dp_result = row_result row,
      dp_createdAt = row_created_at row, dp_updatedAt = row_updated_at row\<rparr>"

section \<open>Operations\<close>

definition digest_key_name :: string where
  "digest_key_name = ''control.plan.digestKey.v1''"

definition digestKey :: "(string \<Rightarrow> string) \<Rightarrow> (string \<Rightarrow> string) \<Rightarrow> string \<Rightarrow> string db_op" where
  "digestKey enc dec rnd db =
     (case map_of (settings db) digest_key_name of
        Some value \<Rightarrow>
          (case json_parse value of
             None \<Rightarrow> (Inl (thrown_error ''SyntaxError''), db)
           | Some encoded \<Rightarrow>
               (let key = dec (js_string encoded) in
                if length key \<noteq> 32 then (Inl (thrown_error ''Invalid persisted control-plan digest key''), db)
                else (Inr key, db)))
      | None \<Rightarrow>
          (Inr (dec (enc rnd)),
           db\<lparr>settings := AList.update digest_key_name (json_text (VStr (enc rnd))) (settings db)\<rparr>))"

definition repo_get :: "string \<Rightarrow> string \<Rightarrow> plan_db \<Rightarrow> durable_plan option" where
  "repo_get owner pid db =
     map_option project (find (\<lambda>r. row_owner r = owner \<and> row_plan_id r = pid) (plan_rows db))"

definition insert_plan :: "plan_row \<Rightarrow> unit db_op" where
  "insert_plan row db =
     (if \<exists>r \<in> set (plan_rows db). row_plan_id r = row_plan_id row then
        (Inl (sql_error ''UNIQUE constraint failed: control_plans.plan_id''), db)
      else if \<exists>r \<in> set (plan_rows db). row_owner r = row_owner row \<and> row_request_id r = row_request_id row then
        (Inl (sql_error ''UNIQUE constraint failed: control_plans.owner, control_plans.request_id''), db)
      else (Inr (), db\<lparr>plan_rows := plan_rows db @ [row]\<rparr>))"

definition claimInTransaction :: "claim_input \<Rightarrow> (durable_plan \<times> bool) db_op" where
  "claimInTransaction inp db =
     (case find (\<lambda>r. row_owner r = ci_owner inp \<and> row_request_id r = ci_requestId inp) (plan_rows db) of
        Some existing \<Rightarrow> (Inr (project existing, True), db)
      | None \<Rightarrow>
          bindS (insert_plan
             \<lparr>row_plan_id = ci_planId inp, row_owner = ci_owner inp, row_request_id = ci_requestId inp,
              row_digest = ci_digest inp, row_mode = mode_text (ci_mode inp), row_status = ci_status inp,
              row_cancelled = 0, row_result = None, row_created_at = ci_createdAt inp,
              row_updated_at = ci_updatedAt inp\<rparr>)
            (\<lambda>_ db'. case repo_get (ci_owner inp) (ci_planId inp) db' of
               Some d \<Rightarrow> (Inr (d, False), db')
             | None \<Rightarrow> (Inl (thrown_error ''undefined''), db'))
            db)"

text \<open>BEGIN IMMEDIATE, then COMMIT, or ROLLBACK when the operation throws.\<close>

definition transaction :: "'a db_op \<Rightarrow> 'a db_op" where
  "transaction operation db =
     (case operation db of (Inl e, _) \<Rightarrow> (Inl e, db) | (Inr x, db') \<Rightarrow> (Inr x, db'))"

definition repo_claim :: "claim_input \<Rightarrow> (durable_plan \<times> bool) db_op" where
  "repo_claim inp = transaction (claimInTransaction inp)"

definition update_plans :: "(plan_row \<Rightarrow> bool) \<Rightarrow> (plan_row \<Rightarrow> plan_row) \<Rightarrow> plan_db \<Rightarrow> nat \<times> plan_db" where
  "update_plans P f db =
     (length (filter P (plan_rows db)),
      db\<lparr>plan_rows := map (\<lambda>r. if P r then f r else r) (plan_rows db)\<rparr>)"

definition repo_updateStatus :: "string \<Rightarrow> string \<Rightarrow> string \<Rightarrow> string \<Rightarrow> bool \<Rightarrow> bool db_op" where
  "repo_updateStatus now owner pid status cancelled db =
     (case update_plans (\<lambda>r. row_owner r = owner \<and> row_plan_id r = pid)
        (\<lambda>r. r\<lparr>row_status := status, row_cancelled := (if cancelled then 1 else 0), row_updated_at := now\<rparr>) db of
        (changes, db') \<Rightarrow> (Inr (changes > 0), db'))"

definition repo_finish ::
    "string \<Rightarrow> string \<Rightarrow> string \<Rightarrow> string \<Rightarrow> control_plan_result \<Rightarrow> bool \<Rightarrow> bool db_op" where
  "repo_finish now owner pid status result cancelled db =
     (case update_plans (\<lambda>r. row_owner r = owner \<and> row_plan_id r = pid)
        (\<lambda>r. r\<lparr>row_status := status, row_cancelled := (if cancelled then 1 else 0),
               row_result := Some result, row_updated_at := now\<rparr>) db of
        (changes, db') \<Rightarrow> (Inr (changes > 0), db'))"

definition same_attempt :: "step_attempt \<Rightarrow> step_row \<Rightarrow> bool" where
  "same_attempt a r \<longleftrightarrow>
     st_plan_id r = sa_planId a \<and> st_step_id r = sa_stepId a \<and> st_attempt_id r = sa_attemptId a"

definition repo_recordStep :: "string \<Rightarrow> step_attempt \<Rightarrow> unit db_op" where
  "repo_recordStep now a db =
     (if \<not> (\<exists>r \<in> set (plan_rows db). row_plan_id r = sa_planId a) then
        (Inl (sql_error ''FOREIGN KEY constraint failed''), db)
      else if \<exists>r \<in> set (step_rows db). same_attempt a r then
        (Inr (), db\<lparr>step_rows := map (\<lambda>r. if same_attempt a r then
           r\<lparr>st_dispatch_state := sa_dispatchState a, st_status := sa_status a, st_updated_at := now\<rparr> else r)
           (step_rows db)\<rparr>)
      else (Inr (), db\<lparr>step_rows := step_rows db @
          [\<lparr>st_plan_id = sa_planId a, st_step_id = sa_stepId a, st_attempt_id = sa_attemptId a,
            st_action = sa_action a, st_dispatch_state = sa_dispatchState a, st_status = sa_status a,
            st_created_at = now, st_updated_at = now\<rparr>]\<rparr>))"

definition reconcileIncomplete :: "string \<Rightarrow> nat db_op" where
  "reconcileIncomplete now db =
     (case update_plans (\<lambda>r. row_status r = ''running'' \<or> row_status r = ''awaitingApproval'')
        (\<lambda>r. r\<lparr>row_status := ''unknown'', row_result := None, row_updated_at := now\<rparr>) db of
        (changes, db') \<Rightarrow> (Inr changes, db'))"

definition plan_repository :: "(string \<Rightarrow> string) \<Rightarrow> (string \<Rightarrow> string) \<Rightarrow> string \<Rightarrow> plan_db persistence" where
  "plan_repository enc dec rnd =
     \<lparr>p_claim = repo_claim, p_get = repo_get, p_digestKey = digestKey enc dec rnd,
      p_updateStatus = repo_updateStatus, p_finish = repo_finish, p_recordStep = repo_recordStep\<rparr>"

section \<open>The keys of the tables, and the contract of a durable store\<close>

definition db_inv :: "plan_db \<Rightarrow> bool" where
  "db_inv db \<longleftrightarrow> distinct (map row_plan_id (plan_rows db)) \<and>
     distinct (map (\<lambda>r. (row_owner r, row_request_id r)) (plan_rows db)) \<and>
     (\<forall>r \<in> set (plan_rows db). row_plan_id r \<noteq> []) \<and>
     distinct (map (\<lambda>r. (st_plan_id r, st_step_id r, st_attempt_id r)) (step_rows db)) \<and>
     (\<forall>r \<in> set (step_rows db). st_plan_id r \<in> row_plan_id ` set (plan_rows db))"

definition claimed :: "plan_db \<Rightarrow> string \<times> string \<Rightarrow> (string \<times> string) option" where
  "claimed db = map_of (map (\<lambda>r. ((row_owner r, row_request_id r), (row_plan_id r, row_digest r))) (plan_rows db))"

definition stored_key :: "(string \<Rightarrow> string) \<Rightarrow> plan_db \<Rightarrow> string option" where
  "stored_key dec db =
     (case map_of (settings db) digest_key_name of
        None \<Rightarrow> None
      | Some value \<Rightarrow> map_option (\<lambda>v. dec (js_string v)) (json_parse value))"

lemma claimed_find:
  "claimed db (ow, req) = map_option (\<lambda>r. (row_plan_id r, row_digest r))
     (find (\<lambda>r. row_owner r = ow \<and> row_request_id r = req) (plan_rows db))"
proof -
  have "map_of (map (\<lambda>r. ((row_owner r, row_request_id r), (row_plan_id r, row_digest r))) rs) (ow, req) =
      map_option (\<lambda>r. (row_plan_id r, row_digest r)) (find (\<lambda>r. row_owner r = ow \<and> row_request_id r = req) rs)" for rs
    by (induction rs) auto
  then show ?thesis by (simp add: claimed_def)
qed

lemma claimed_Some:
  "claimed db k = Some (i, d) \<Longrightarrow>
     \<exists>r \<in> set (plan_rows db). k = (row_owner r, row_request_id r) \<and> i = row_plan_id r \<and> d = row_digest r"
  unfolding claimed_def by (drule map_of_SomeD) auto

text \<open>An update that keeps the keys of the rows keeps the tables' keys and what was claimed.\<close>

lemma update_plans_keeps:
  assumes "\<And>r. row_plan_id (f r) = row_plan_id r" "\<And>r. row_owner (f r) = row_owner r"
    "\<And>r. row_request_id (f r) = row_request_id r" "\<And>r. row_digest (f r) = row_digest r" "update_plans P f db = (n, db')"
  shows "(db_inv db \<longrightarrow> db_inv db') \<and> claimed db' = claimed db \<and> settings db' = settings db"
proof -
  define h where "h = (\<lambda>r. if P r then f r else r)"
  have db': "db' = db\<lparr>plan_rows := map h (plan_rows db)\<rparr>"
    using assms(5) by (auto simp: update_plans_def h_def)
  have ids: "row_plan_id (h r) = row_plan_id r" "row_owner (h r) = row_owner r"
    "row_request_id (h r) = row_request_id r" "row_digest (h r) = row_digest r" for r
    by (simp_all add: assms(1-4) h_def)
  show ?thesis
    by (simp add: db' db_inv_def claimed_def comp_def ids image_image)
qed

lemma stored_key_settings: "settings db' = settings db \<Longrightarrow> stored_key dec db' = stored_key dec db"
  by (simp add: stored_key_def)

lemma repo_claim_spec:
  assumes inv: "db_inv s" and id: "ci_planId inp \<noteq> []" and c: "repo_claim inp s = (r, s')"
  shows "db_inv s' \<and> settings s' = settings s \<and>
      (case r of
         Inl e \<Rightarrow> claimed s' = claimed s \<and> (\<exists>k d. claimed s k = Some (ci_planId inp, d)) \<and>
           claimed s (ci_owner inp, ci_requestId inp) = None
       | Inr (d, existing) \<Rightarrow>
           (if existing then claimed s (ci_owner inp, ci_requestId inp) = Some (dp_planId d, dp_digest d) \<and> claimed s' = claimed s
            else claimed s (ci_owner inp, ci_requestId inp) = None \<and>
              (\<forall>k d. claimed s k \<noteq> Some (ci_planId inp, d)) \<and>
              claimed s' = (claimed s)((ci_owner inp, ci_requestId inp) \<mapsto> (ci_planId inp, ci_digest inp))))"
proof (cases "find (\<lambda>r. row_owner r = ci_owner inp \<and> row_request_id r = ci_requestId inp) (plan_rows s)")
  case (Some row)
  with c inv show ?thesis
    by (auto simp: repo_claim_def transaction_def claimInTransaction_def claimed_find project_def)
next
  case None
  then have free: "claimed s (ci_owner inp, ci_requestId inp) = None" by (simp add: claimed_find)
  from None have fresh: "\<forall>r \<in> set (plan_rows s). \<not> (row_owner r = ci_owner inp \<and> row_request_id r = ci_requestId inp)"
    by (auto simp: find_None_iff)
  define row where "row = \<lparr>row_plan_id = ci_planId inp, row_owner = ci_owner inp, row_request_id = ci_requestId inp,
              row_digest = ci_digest inp, row_mode = mode_text (ci_mode inp), row_status = ci_status inp,
              row_cancelled = 0, row_result = None, row_created_at = ci_createdAt inp,
              row_updated_at = ci_updatedAt inp\<rparr>"
  have row: "row_plan_id row = ci_planId inp" "row_owner row = ci_owner inp" "row_request_id row = ci_requestId inp"
    "row_digest row = ci_digest inp" by (simp_all add: row_def)
  note ops = repo_claim_def transaction_def claimInTransaction_def None bindS_def insert_plan_def row_def [symmetric]
  show ?thesis
  proof (cases "\<exists>r \<in> set (plan_rows s). row_plan_id r = ci_planId inp")
    case True
    with c have "r = Inl (sql_error ''UNIQUE constraint failed: control_plans.plan_id'')" "s' = s"
      by (simp_all add: ops row)
    moreover obtain x where x: "x \<in> set (plan_rows s)" "row_plan_id x = ci_planId inp" using True by blast
    have "claimed s (row_owner x, row_request_id x) = Some (row_plan_id x, row_digest x)"
      unfolding claimed_def using inv x(1) by (intro map_of_is_SomeI) (auto simp: db_inv_def comp_def image_iff)
    ultimately show ?thesis using inv free x(2) by auto
  next
    case False
    then have get: "repo_get (ci_owner inp) (ci_planId inp) (s\<lparr>plan_rows := plan_rows s @ [row]\<rparr>) = Some (project row)"
    proof -
      have "find (\<lambda>r. row_owner r = ci_owner inp \<and> row_plan_id r = ci_planId inp) (rs @ [row]) = Some row"
        if "\<not> (\<exists>r \<in> set rs. row_plan_id r = ci_planId inp)" for rs
        using that by (induction rs) (auto simp: row_def)
      with False show ?thesis by (simp add: repo_get_def)
    qed
    have "r = Inr (project row, False)" "s' = s\<lparr>plan_rows := plan_rows s @ [row]\<rparr>"
      using c False fresh get by (auto simp: ops row split: if_splits)
    moreover have "claimed (s\<lparr>plan_rows := plan_rows s @ [row]\<rparr>) =
        (claimed s)((ci_owner inp, ci_requestId inp) \<mapsto> (ci_planId inp, ci_digest inp))"
    proof
      fix k
      show "claimed (s\<lparr>plan_rows := plan_rows s @ [row]\<rparr>) k =
          ((claimed s)((ci_owner inp, ci_requestId inp) \<mapsto> (ci_planId inp, ci_digest inp))) k"
        using free by (auto simp: claimed_def map_add_def row split: option.splits)
    qed
    moreover have "db_inv (s\<lparr>plan_rows := plan_rows s @ [row]\<rparr>)"
      using inv False fresh id by (auto simp: db_inv_def row)
    moreover have "\<forall>k d. claimed s k \<noteq> Some (ci_planId inp, d)" using False by (auto dest!: claimed_Some)
    ultimately show ?thesis using free by auto
  qed
qed

lemma digestKey_spec:
  assumes "digestKey enc dec rnd s = (rk, s')"
  shows "(db_inv s \<longrightarrow> db_inv s') \<and> claimed s' = claimed s \<and>
    (\<forall>key. stored_key dec s = Some key \<longrightarrow> stored_key dec s' = Some key) \<and>
    (\<forall>key. rk = Inr key \<longrightarrow> stored_key dec s' = Some key)"
proof (cases "map_of (settings s) digest_key_name")
  case None
  have "json_parse (json_text (VStr (enc rnd))) = Some (VStr (enc rnd))"
    using json_parse_text [of "VStr (enc rnd)"] by simp
  with assms None show ?thesis
    by (auto simp: digestKey_def stored_key_def db_inv_def claimed_def update_conv')
next
  case (Some stored)
  with assms show ?thesis
    by (auto simp: digestKey_def stored_key_def Let_def split: option.splits if_splits)
qed

lemma repo_updateStatus_keeps:
  assumes "repo_updateStatus now ow pid st c s = (rb, s')"
  shows "(db_inv s \<longrightarrow> db_inv s') \<and> claimed s' = claimed s \<and> settings s' = settings s"
proof -
  from assms obtain n where "update_plans (\<lambda>r. row_owner r = ow \<and> row_plan_id r = pid)
        (\<lambda>r. r\<lparr>row_status := st, row_cancelled := (if c then 1 else 0), row_updated_at := now\<rparr>) s = (n, s')"
    by (auto simp: repo_updateStatus_def split: prod.splits)
  from update_plans_keeps [OF _ _ _ _ this] show ?thesis by simp
qed

lemma repo_finish_keeps:
  assumes "repo_finish now ow pid st res c s = (rb, s')"
  shows "(db_inv s \<longrightarrow> db_inv s') \<and> claimed s' = claimed s \<and> settings s' = settings s"
proof -
  from assms obtain n where "update_plans (\<lambda>r. row_owner r = ow \<and> row_plan_id r = pid)
        (\<lambda>r. r\<lparr>row_status := st, row_cancelled := (if c then 1 else 0), row_result := Some res, row_updated_at := now\<rparr>) s = (n, s')"
    by (auto simp: repo_finish_def split: prod.splits)
  from update_plans_keeps [OF _ _ _ _ this] show ?thesis by simp
qed

lemma reconcile_keeps:
  assumes "reconcileIncomplete now s = (rn, s')"
  shows "(db_inv s \<longrightarrow> db_inv s') \<and> claimed s' = claimed s \<and> settings s' = settings s \<and>
    (\<forall>r \<in> set (plan_rows s'). row_status r \<noteq> ''running'' \<and> row_status r \<noteq> ''awaitingApproval'')"
proof -
  from assms obtain n where u: "update_plans (\<lambda>r. row_status r = ''running'' \<or> row_status r = ''awaitingApproval'')
        (\<lambda>r. r\<lparr>row_status := ''unknown'', row_result := None, row_updated_at := now\<rparr>) s = (n, s')"
    by (auto simp: reconcileIncomplete_def split: prod.splits)
  moreover have "\<forall>r \<in> set (plan_rows s'). row_status r \<noteq> ''running'' \<and> row_status r \<noteq> ''awaitingApproval''"
    using u by (auto simp: update_plans_def)
  ultimately show ?thesis using update_plans_keeps [OF _ _ _ _ u] by simp
qed

lemma repo_recordStep_keeps:
  assumes "repo_recordStep now a s = (ru, s')"
  shows "(db_inv s \<longrightarrow> db_inv s') \<and> claimed s' = claimed s \<and> settings s' = settings s"
proof -
  define h where "h = (\<lambda>r. if same_attempt a r then
           r\<lparr>st_dispatch_state := sa_dispatchState a, st_status := sa_status a, st_updated_at := now\<rparr> else r)"
  have h: "st_plan_id (h r) = st_plan_id r" "st_step_id (h r) = st_step_id r" "st_attempt_id (h r) = st_attempt_id r" for r
    by (simp_all add: h_def)
  note op = repo_recordStep_def h_def [symmetric]
  consider (none) "\<not> (\<exists>r \<in> set (plan_rows s). row_plan_id r = sa_planId a)"
    | (old) "\<exists>r \<in> set (plan_rows s). row_plan_id r = sa_planId a" "\<exists>r \<in> set (step_rows s). same_attempt a r"
    | (new) "\<exists>r \<in> set (plan_rows s). row_plan_id r = sa_planId a" "\<not> (\<exists>r \<in> set (step_rows s). same_attempt a r)"
    by blast
  then show ?thesis
  proof cases
    case none
    with assms show ?thesis by (simp add: op)
  next
    case old
    with assms have "s' = s\<lparr>step_rows := map h (step_rows s)\<rparr>" by (simp add: op)
    then show ?thesis by (simp add: db_inv_def claimed_def comp_def h)
  next
    case new
    with assms have "s' = s\<lparr>step_rows := step_rows s @
          [\<lparr>st_plan_id = sa_planId a, st_step_id = sa_stepId a, st_attempt_id = sa_attemptId a,
            st_action = sa_action a, st_dispatch_state = sa_dispatchState a, st_status = sa_status a,
            st_created_at = now, st_updated_at = now\<rparr>]\<rparr>" by (simp add: op)
    with new show ?thesis by (auto simp: db_inv_def claimed_def same_attempt_def image_iff eq_commute)
  qed
qed

interpretation repo: plan_store "plan_repository enc dec rnd" db_inv claimed "stored_key dec"
  for enc dec rnd
proof (unfold_locales, goal_cases)
  case (1 s inp r s')
  then have "repo_claim inp s = (r, s')" by (simp add: plan_repository_def)
  from repo_claim_spec [OF 1(1,2) this] show ?case using stored_key_settings [of s' s] by blast
next
  case (2 s k i d k' d')
  have "k' = k" if "claimed s k' = Some (i, d')"
  proof -
    from that 2(2) obtain x y where "x \<in> set (plan_rows s)" "k = (row_owner x, row_request_id x)" "i = row_plan_id x"
      "y \<in> set (plan_rows s)" "k' = (row_owner y, row_request_id y)" "i = row_plan_id y"
      by (blast dest: claimed_Some)
    with 2(1) show ?thesis by (auto simp: db_inv_def distinct_map dest: inj_onD)
  qed
  moreover have "i \<noteq> []" using claimed_Some [OF 2(2)] 2(1) by (auto simp: db_inv_def)
  ultimately show ?case by blast
next
  case (3 s rk s')
  then show ?case using digestKey_spec [of enc dec rnd s rk s'] by (simp add: plan_repository_def)
next
  case (4 s now ow pid st c rb s')
  then show ?case using repo_updateStatus_keeps [of now ow pid st c s rb s'] stored_key_settings [of s' s]
    by (simp add: plan_repository_def)
next
  case (5 s now ow pid st res c rb s')
  then show ?case using repo_finish_keeps [of now ow pid st res c s rb s'] stored_key_settings [of s' s]
    by (simp add: plan_repository_def)
next
  case (6 s now att ru s')
  then show ?case using repo_recordStep_keeps [of now att s ru s'] stored_key_settings [of s' s]
    by (simp add: plan_repository_def)
qed

section \<open>The journal over the repository\<close>

definition empty_db :: plan_db where
  "empty_db = \<lparr>settings = [], plan_rows = [], step_rows = []\<rparr>"

lemma empty_db_inv: "db_inv empty_db"
  by (simp add: db_inv_def empty_db_def)

lemma new_journal_inv:
  assumes "db_inv db" "new_journal (Some (plan_repository enc dec rnd)) r0 db = Inr j"
  shows "repo.jinv dec j"
proof -
  obtain k d where k: "digestKey enc dec rnd db = (Inr k, d)"
    and j: "j = \<lparr>jkey = k, journal_records = [], byRequest = [], durable = d\<rparr>"
    using assms(2) by (auto simp: new_journal_def plan_repository_def split: prod.splits sum.splits)
  from digestKey_spec [OF k] assms(1) show ?thesis
    unfolding repo.jinv_def j by simp
qed

lemma journal_run_inv:
  assumes "db_inv db" "new_journal (Some (plan_repository enc dec rnd)) r0 db = Inr j0" "list_all clean_event evs"
  shows "repo.jinv dec (foldl (journal_step hmac (Some (plan_repository enc dec rnd))) j0 evs)"
  using repo.journal.guarded_run [OF new_journal_inv [OF assms(1,2)] assms(3)] by blast

definition demo_key :: string where "demo_key = replicate 32 (CHR ''k'')"

definition demo_repo :: "plan_db persistence" where
  "demo_repo = plan_repository (\<lambda>s. s) (\<lambda>s. s) demo_key"

definition demo_db :: plan_db where
  "demo_db = \<lparr>settings = [(digest_key_name, json_text (VStr demo_key))], plan_rows = [], step_rows = []\<rparr>"

definition demo_journal :: "plan_db journal" where
  "demo_journal = \<lparr>jkey = demo_key, journal_records = [], byRequest = [], durable = demo_db\<rparr>"

lemma demo_new: "new_journal (Some demo_repo) r0 empty_db = Inr demo_journal"
  by (simp add: new_journal_def demo_repo_def plan_repository_def digestKey_def empty_db_def demo_journal_def demo_db_def
      del: json_text.simps)

lemma demo_restart: "digestKey (\<lambda>s. s) (\<lambda>s. s) rnd (demo_db\<lparr>plan_rows := rows\<rparr>) = (Inr demo_key, demo_db\<lparr>plan_rows := rows\<rparr>)"
  using json_parse_text [of "VStr demo_key"]
  by (simp add: digestKey_def demo_db_def del: json_text.simps) (simp add: demo_key_def)

text \<open>
  C24: ControlPlanJournal.claim over ControlPlanRepository refines a write-once map from owner and
  request id to plan id and digest: whatever calls and restarts came before, a claim under an
  unused plan id answers and changes the table exactly as the map does, the repository's
  transaction and the journal's cache included.
\<close>

theorem claim_refines_write_once_map:
  assumes "db_inv db" "new_journal (Some (plan_repository enc dec rnd)) r0 db = Inr j0"
  and "list_all clean_event evs" "j = foldl (journal_step hmac (Some (plan_repository enc dec rnd))) j0 evs"
  and "no_nul ow" "plan_digest hmac (jkey j) plan = Inr digest"
  and "\<forall>r \<in> set (plan_rows (durable j)). row_plan_id r \<noteq> ''plan_'' @ uuid"
  and "claim hmac (Some (plan_repository enc dec rnd)) uuid now ow plan j = (res, j')"
  shows "(claim_answer res, claimed (durable j')) =
     spec_claim (claimed (durable j)) (ow, requestId plan) (''plan_'' @ uuid) digest"
proof -
  have "repo.jinv dec j" using journal_run_inv [OF assms(1-3)] assms(4) by simp
  moreover have "claimed (durable j) k \<noteq> Some (''plan_'' @ uuid, d)" for k d
    using assms(7) claimed_Some [of "durable j" k "''plan_'' @ uuid" d] by (metis (no_types))
  ultimately show ?thesis by (intro repo.claim_exact [OF _ assms(5,6,8)])
qed

theorem claim_refines_write_once_map_witness:
  "(claim_answer (fst (claim (\<lambda>k t. t) (Some demo_repo) ''1'' ''now'' ''alice'' demo_plan demo_journal)),
    claimed (durable (snd (claim (\<lambda>k t. t) (Some demo_repo) ''1'' ''now'' ''alice'' demo_plan demo_journal)))) =
   spec_claim (claimed demo_db) (''alice'', requestId demo_plan) ''plan_1'' (canonical (plan_json demo_plan))"
proof -
  have j: "demo_journal = foldl (journal_step (\<lambda>k t. t) (Some (plan_repository (\<lambda>s. s) (\<lambda>s. s) demo_key))) demo_journal []" by simp
  have dg: "plan_digest (\<lambda>k t. t) (jkey demo_journal) demo_plan = Inr (canonical (plan_json demo_plan))"
    by (rule plan_digest_text)
  have d: "durable demo_journal = demo_db" by (simp add: demo_journal_def)
  show ?thesis
    using claim_refines_write_once_map [OF empty_db_inv demo_new [of "[]", unfolded demo_repo_def] _ j _ dg _
        surjective_pairing, where ow = "''alice''" and uuid = "''1''" and now = "''now''"]
    by (simp add: d no_nul_def demo_repo_def) (simp add: demo_db_def)
qed

text \<open>
  A request id of an owner names one plan for ever. After any calls and restarts, claiming it
  again with the same plan content returns the first plan id as existing, so no second plan starts;
  claiming it with content of another digest is refused as a conflict.
\<close>

theorem request_id_names_one_plan:
  assumes "db_inv db" "new_journal (Some (plan_repository enc dec rnd)) r0 db = Inr j0"
  and "list_all clean_event before" "list_all clean_event between" "no_nul ow" "requestId q = requestId p"
  and "claim hmac (Some (plan_repository enc dec rnd)) u1 t1 ow p
     (foldl (journal_step hmac (Some (plan_repository enc dec rnd))) j0 before) = (Inr (r, existing), j1)"
  and "claim hmac (Some (plan_repository enc dec rnd)) u2 t2 ow q
     (foldl (journal_step hmac (Some (plan_repository enc dec rnd))) j1 between) = (res, j3)"
  shows "if plan_digest hmac (jkey j1) q = plan_digest hmac (jkey j1) p
         then \<exists>r2. res = Inr (r2, True) \<and> jr_planId r2 = jr_planId r
         else res = Inl conflict"
proof -
  let ?j = "foldl (journal_step hmac (Some (plan_repository enc dec rnd))) j0 before"
  have inv: "repo.jinv dec ?j" by (rule journal_run_inv [OF assms(1-3)])
  have key: "jkey j1 = jkey ?j"
    using repo.claim_refines [OF inv assms(5) plan_digest_text assms(7)] by (simp add: repo.refines_claim_def)
  show ?thesis
    unfolding key by (rule repo.later_claim [OF inv assms(5,7,4,8,6)])
qed

text \<open>
  The digest covers the whole plan: two plans whose canonical texts agree have the same steps,
  surfaces, mode, limits and output, and expect the same observations (their order aside).
\<close>

theorem digest_text_covers_plan:
  assumes "wf_jsv (plan_json p)" "wf_jsv (plan_json q)"
  and "journal_canonical (plan_json p) = journal_canonical (plan_json q)"
  shows "q = p\<lparr>expectedObservations := expectedObservations q\<rparr> \<and>
    map_of (expectedObservations q) = map_of (expectedObservations p)"
proof (rule plan_json_inject)
  have "canonical (plan_json p) = canonical (plan_json q)"
    using assms(3) by (simp add: journal_canonical_eq plan_no_undef)
  from canonical_inject [OF assms(1,2) this]
  show "same_json (plan_json p) (plan_json q)" by (simp add: norm_no_undef plan_no_undef)
  show "wf_map (expectedObservations p)" "wf_map (expectedObservations q)"
    using assms(1,2) by (simp_all add: plan_json_def wf_map_def comp_def case_prod_beta')
qed

definition demo_claimed :: "plan_db journal" where
  "demo_claimed = snd (claim (\<lambda>k t. t) (Some demo_repo) ''1'' ''t'' ''alice'' demo_plan demo_journal)"

lemma demo_first_claim:
  "claim (\<lambda>k t. t) (Some demo_repo) ''1'' ''t'' ''alice'' demo_plan demo_journal =
     (Inr (proposed_record ''1'' ''t'' ''alice'' (requestId demo_plan) (canonical (plan_json demo_plan)), False), demo_claimed)"
  by (simp add: demo_claimed_def claim_def plan_digest_text claim_new_cases Let_def demo_repo_def plan_repository_def
      repo_claim_def transaction_def claimInTransaction_def insert_plan_def bindS_def repo_get_def new_claim_def
      demo_journal_def demo_db_def)

theorem request_id_names_one_plan_witness:
  "\<exists>r2. fst (claim (\<lambda>k t. t) (Some demo_repo) ''2'' ''t'' ''alice'' demo_plan
     (journal_step (\<lambda>k t. t) (Some demo_repo) demo_claimed (EvRestart []))) = Inr (r2, True) \<and> jr_planId r2 = ''plan_1''"
proof -
  let ?repo = "plan_repository (\<lambda>s. s) (\<lambda>s. s) demo_key"
  have first: "claim (\<lambda>k t. t) (Some ?repo) ''1'' ''t'' ''alice'' demo_plan (foldl (journal_step (\<lambda>k t. t) (Some ?repo)) demo_journal []) =
     (Inr (proposed_record ''1'' ''t'' ''alice'' (requestId demo_plan) (canonical (plan_json demo_plan)), False), demo_claimed)"
    using demo_first_claim by (simp add: demo_repo_def)
  show ?thesis
    using request_id_names_one_plan [OF empty_db_inv demo_new [of "[]", unfolded demo_repo_def] _ _ _ _ first surjective_pairing,
        where between = "[EvRestart []]" and q = demo_plan and ?u2.0 = "''2''" and ?t2.0 = "''t''"]
    by (simp add: no_nul_def demo_repo_def proposed_record_def)
qed

definition two_surfaces :: "(string, string) jsmap \<Rightarrow> control_plan" where
  "two_surfaces expected = demo_plan\<lparr>surfaceIds := [''s1'', ''s2''], expectedObservations := expected\<rparr>"

theorem digest_text_covers_plan_witness:
  "two_surfaces [(''s2'', ''o2''), (''s1'', ''o1'')] =
     two_surfaces [(''s1'', ''o1''), (''s2'', ''o2'')]\<lparr>expectedObservations := [(''s2'', ''o2''), (''s1'', ''o1'')]\<rparr> \<and>
   map_of [(''s2'', ''o2''), (''s1'', ''o1'')] = map_of [(''s1'', ''o1''), (''s2'', ''o2'')]"
proof -
  define p where "p = two_surfaces [(''s1'', ''o1''), (''s2'', ''o2'')]"
  define q where "q = two_surfaces [(''s2'', ''o2''), (''s1'', ''o1'')]"
  have wf: "wf_jsv (plan_json p)" "wf_jsv (plan_json q)"
    by (simp_all add: p_def q_def two_surfaces_def plan_json_def demo_plan_def demo_step_def step_json_def wf_map_def
        wf_num_show_int CONTROL_SCHEMA_VERSION_def)
  have "journal_canonical (plan_json p) = journal_canonical (plan_json q)"
    by (simp add: p_def q_def two_surfaces_def plan_json_def demo_plan_def)
  from digest_text_covers_plan [OF wf this] show ?thesis by (simp add: p_def q_def two_surfaces_def)
qed

end
