(* ===== verification/StepExecution.thy ===== *)
theory StepExecution
  imports ObservationStore PlanJournal
begin

text \<open>
  packages/control/src/plan-executor.ts, \<open>executeStep\<close>: one step of a plan against the adapter of its
  surface. The method runs without interruption between two \<open>await\<close>s, so it is a state machine: a
  task waits for the scheduler, for an observation, for the receipt of a dispatch or for a timer,
  and each answer runs one segment of the code. A segment changes the world that all steps share,
  the observation store and the journal, and may throw. \<open>clk i\<close> is the i-th reading of the clock in
  a segment, \<open>iso\<close> its text. Of a receipt the code reads only \<open>dispatched\<close>.
\<close>

section \<open>The world\<close>

text \<open>\<open>dispatches\<close> records the calls of \<open>adapter.dispatch\<close>, with the observation they rest on.\<close>

record dispatch =
  di_step :: control_step
  di_seen :: control_observation
  di_node :: control_node

record 'p world =
  w_store :: store
  w_journal :: "'p journal"
  w_dispatches :: "dispatch list"

type_synonym ('p, 'a) world_op = "('p world, thrown, 'a) eff"

definition thrown_of :: "store_error \<Rightarrow> thrown" where
  "thrown_of e = OtherThrown (Some (fst e)) (Some (snd e)) None (''ObservationStoreError: '' @ snd e)"

definition on_store :: "'a store_op \<Rightarrow> ('p, 'a) world_op" where
  "on_store m w = (case m (w_store w) of
     (Inl e, st) \<Rightarrow> (Inl (thrown_of e), w\<lparr>w_store := st\<rparr>)
   | (Inr x, st) \<Rightarrow> (Inr x, w\<lparr>w_store := st\<rparr>))"

definition on_journal :: "('p, 'a) journal_op \<Rightarrow> ('p, 'a) world_op" where
  "on_journal m w = (case m (w_journal w) of (r, j) \<Rightarrow> (r, w\<lparr>w_journal := j\<rparr>))"

definition shift :: "nat \<Rightarrow> (nat \<Rightarrow> int) \<Rightarrow> nat \<Rightarrow> int" where
  "shift k clk = (\<lambda>i. clk (k + i))"

text \<open>What stays the same during one execution of a plan.\<close>

record 'p exec_ctx =
  cx_owner :: string
  cx_plan :: control_plan
  cx_planId :: string
  cx_started :: int
  cx_adapters :: "string \<Rightarrow> control_mode option"
  cx_ps :: "'p persistence option"
  cx_iso :: "int \<Rightarrow> string"

section \<open>Tasks\<close>

datatype task_state =
    TWaiting
  | TFirstObserve
  | TDispatching
  | TObserving bool int
  | TSleeping bool int
  | TSettled "thrown + control_plan_step_result"

definition step_result :: "control_step \<Rightarrow> control_step_status \<Rightarrow> postcondition_check \<Rightarrow> control_plan_step_result" where
  "step_result step st pc = \<lparr>res_id = step_id step, res_status = st, res_postcondition = pc\<rparr>"

definition cancelled_now :: "'p exec_ctx \<Rightarrow> ('p, bool) world_op" where
  "cancelled_now cx w = (Inr (isCancelled (cx_ps cx) (cx_owner cx) (cx_planId cx) (w_journal w)), w)"

definition record_attempt ::
    "'p exec_ctx \<Rightarrow> control_step \<Rightarrow> int \<Rightarrow> string \<Rightarrow> string \<Rightarrow> ('p, unit) world_op" where
  "record_attempt cx step now ds st =
     on_journal (journal_recordStep (cx_ps cx) (cx_iso cx now) (cx_owner cx) (cx_planId cx) (step_id step)
       (kind_text (action_kind (step_action step))) ds st)"

text \<open>\<open>adapter.dispatch(...)\<close> up to its \<open>await\<close>.\<close>

definition call_dispatch :: "control_step \<Rightarrow> control_observation \<Rightarrow> control_node \<Rightarrow> ('p, unit) world_op" where
  "call_dispatch step ob node w =
     (Inr (), w\<lparr>w_dispatches := w_dispatches w @ [\<lparr>di_step = step, di_seen = ob, di_node = node\<rparr>]\<rparr>)"

definition already_in_state :: "control_action \<Rightarrow> control_node \<Rightarrow> bool" where
  "already_in_state act node = (case act of SetToggleState s \<Rightarrow> ntoggleState node = Some s | _ \<Rightarrow> False)"

definition failed_precondition :: "control_step \<Rightarrow> control_observation \<Rightarrow> control_node \<Rightarrow> control_predicate option" where
  "failed_precondition step ob node =
     find (\<lambda>p. \<not> evaluateControlPredicate ob p (Some node)) (preconditions step)"

definition check_and_dispatch ::
    "'p exec_ctx \<Rightarrow> control_step \<Rightarrow> control_observation \<Rightarrow> (nat \<Rightarrow> int) \<Rightarrow> ('p, task_state) world_op" where
  "check_and_dispatch cx step before clk =
     (case resolveControlTarget before (step_target step) of
        Inl e \<Rightarrow> throwS (AdapterThrown e)
      | Inr node \<Rightarrow>
         (case failed_precondition step before node of
            Some p \<Rightarrow> throwS (AdapterThrown (adapter_error_with ''CONTROL_PRECONDITION_FAILED''
              (''Precondition '' @ predicate_kind_text p @ '' did not match for step '' @ step_id step)
              NotDispatched NeedsContext))
          | None \<Rightarrow>
              if \<not> supportsControlAction node (step_action step) \<and> action_kind (step_action step) \<noteq> KWaitFor then
                throwS (AdapterThrown (adapter_error_default ''CONTROL_ACTION_UNSUPPORTED''
                  (''Target '' @ nref node @ '' does not advertise '' @ kind_text (action_kind (step_action step)))))
              else if already_in_state (step_action step) node then
                (if \<not> evaluateControlPredicate before (postcondition step) (Some node) then
                   throwS (AdapterThrown (adapter_error_with ''CONTROL_POSTCONDITION_FAILED''
                     ''Desired toggle state was already satisfied but the declared postcondition did not match''
                     NotDispatched NeedsContext))
                 else retS (TSettled (Inr (step_result step SSucceeded Matched))))
              else
                bindS (record_attempt cx step (clk 0) ''notDispatched'' ''dispatchRecorded'') (\<lambda>_.
                bindS (call_dispatch step before node) (\<lambda>_.
                retS TDispatching))))"

text \<open>The start of the operation, when the scheduler lets it run.\<close>

definition step_start :: "'p exec_ctx \<Rightarrow> control_step \<Rightarrow> (nat \<Rightarrow> int) \<Rightarrow> ('p, task_state) world_op" where
  "step_start cx step clk =
     bindS (cancelled_now cx) (\<lambda>cancelled.
     if cancelled then retS (TSettled (Inr (step_result step SCancelled NotChecked)))
     else bindS (on_store (get_observation clk (cx_owner cx) (step_surfaceId step))) (\<lambda>before.
       case before of
         None \<Rightarrow> retS TFirstObserve
       | Some ob \<Rightarrow> check_and_dispatch cx step ob (shift 2 clk)))"

text \<open>The first observation has come, or failed.\<close>

definition step_first ::
    "'p exec_ctx \<Rightarrow> control_step \<Rightarrow> thrown + control_observation \<Rightarrow> (nat \<Rightarrow> int) \<Rightarrow> ('p, task_state) world_op" where
  "step_first cx step answer clk =
     (case answer of
        Inl e \<Rightarrow> throwS e
      | Inr ob \<Rightarrow> bindS (on_store (record_observation clk (cx_owner cx) ob None)) (\<lambda>_.
          check_and_dispatch cx step ob (shift 3 clk)))"

text \<open>The receipt of the dispatch has come, or the dispatch failed.\<close>

definition step_receipt ::
    "'p exec_ctx \<Rightarrow> control_step \<Rightarrow> thrown + bool \<Rightarrow> (nat \<Rightarrow> int) \<Rightarrow> ('p, task_state) world_op" where
  "step_receipt cx step answer clk =
     (case answer of
        Inl e \<Rightarrow> throwS e
      | Inr dispatched \<Rightarrow>
          bindS (record_attempt cx step (clk 0) (if dispatched then ''dispatched'' else ''notDispatched'') ''verifying'') (\<lambda>_.
          bindS (cancelled_now cx) (\<lambda>cancelled.
          if cancelled \<and> \<not> dispatched then retS (TSettled (Inr (step_result step SCancelled NotChecked)))
          else retS (TObserving dispatched (clk 1 + timeoutMs step)))))"

definition tryResolve :: "control_observation \<Rightarrow> control_target \<Rightarrow> control_node option" where
  "tryResolve ob target = (case resolveControlTarget ob target of Inl _ \<Rightarrow> None | Inr n \<Rightarrow> Some n)"

text \<open>An observation after the dispatch.\<close>

definition step_after ::
    "'p exec_ctx \<Rightarrow> control_step \<Rightarrow> bool \<Rightarrow> int \<Rightarrow> thrown + control_observation \<Rightarrow> (nat \<Rightarrow> int) \<Rightarrow> ('p, task_state) world_op" where
  "step_after cx step dispatched deadline answer clk =
     (case answer of
        Inl e \<Rightarrow> throwS e
      | Inr ob \<Rightarrow> bindS (on_store (record_observation clk (cx_owner cx) ob None)) (\<lambda>_.
          if evaluateControlPredicate ob (postcondition step) (tryResolve ob (step_target step)) then
            retS (TSettled (Inr (step_result step SSucceeded Matched)))
          else if clk 3 \<ge> deadline then
            throwS (AdapterThrown (adapter_error_with ''CONTROL_POSTCONDITION_FAILED''
              (''Postcondition '' @ predicate_kind_text (postcondition step) @ '' did not match after dispatch'')
              (if dispatched then Dispatched else NotDispatched)
              (if dispatched then InspectOutcome else NeedsContext)))
          else retS (TSleeping dispatched deadline)))"

text \<open>A thrown value settles the promise of the task.\<close>

definition settle :: "('p, task_state) world_op \<Rightarrow> 'p world \<Rightarrow> task_state \<times> 'p world" where
  "settle m w = (case m w of (Inl e, w') \<Rightarrow> (TSettled (Inl e), w') | (Inr t, w') \<Rightarrow> (t, w'))"

datatype answer =
    Begin
  | Observed "thrown + control_observation"
  | Receipt "thrown + bool"
  | TimerFired

text \<open>An answer the task is not waiting for cannot come; it changes nothing.\<close>

fun task_step ::
    "'p exec_ctx \<Rightarrow> control_step \<Rightarrow> (nat \<Rightarrow> int) \<Rightarrow> answer \<Rightarrow> task_state \<Rightarrow> 'p world \<Rightarrow> task_state \<times> 'p world" where
  "task_step cx step clk Begin TWaiting w = settle (step_start cx step clk) w"
| "task_step cx step clk (Observed a) TFirstObserve w = settle (step_first cx step a clk) w"
| "task_step cx step clk (Receipt a) TDispatching w = settle (step_receipt cx step a clk) w"
| "task_step cx step clk (Observed a) (TObserving d dl) w = settle (step_after cx step d dl a clk) w"
| "task_step cx step clk TimerFired (TSleeping d dl) w = (TObserving d dl, w)"
| "task_step cx step clk _ t w = (t, w)"

text \<open>The answers a task can receive.\<close>

fun awaits :: "task_state \<Rightarrow> answer \<Rightarrow> bool" where
  "awaits TWaiting Begin = True"
| "awaits TFirstObserve (Observed a) = True"
| "awaits TDispatching (Receipt a) = True"
| "awaits (TObserving d dl) (Observed a) = True"
| "awaits (TSleeping d dl) TimerFired = True"
| "awaits _ _ = False"

fun settled_task :: "task_state \<Rightarrow> bool" where
  "settled_task (TSettled r) = True"
| "settled_task _ = False"

section \<open>Lemmas\<close>

text \<open>What a dispatch rests on.\<close>

definition dispatch_ok :: "dispatch \<Rightarrow> bool" where
  "dispatch_ok d \<longleftrightarrow>
     resolveControlTarget (di_seen d) (step_target (di_step d)) = Inr (di_node d) \<and>
     (\<forall>p \<in> set (preconditions (di_step d)). evaluateControlPredicate (di_seen d) p (Some (di_node d))) \<and>
     (supportsControlAction (di_node d) (step_action (di_step d)) \<or> action_kind (step_action (di_step d)) = KWaitFor) \<and>
     \<not> already_in_state (step_action (di_step d)) (di_node d)"

text \<open>A segment adds no dispatch, or, when it ends waiting for a receipt, one that is in order.\<close>

definition quiet :: "'p world \<Rightarrow> 'p world \<Rightarrow> bool" where
  "quiet w w' \<longleftrightarrow> w_dispatches w' = w_dispatches w"

definition sends :: "control_step \<Rightarrow> 'p world \<Rightarrow> 'p world \<Rightarrow> bool" where
  "sends step w w' \<longleftrightarrow> (\<exists>d. w_dispatches w' = w_dispatches w @ [d] \<and> di_step d = step \<and> dispatch_ok d)"

lemma on_store_quiet: "on_store m w = (r, w') \<Longrightarrow> quiet w w'"
  by (auto simp: on_store_def quiet_def split: prod.splits sum.splits)

lemma on_journal_quiet: "on_journal m w = (r, w') \<Longrightarrow> quiet w w'"
  by (auto simp: on_journal_def quiet_def split: prod.splits)

lemma quiet_trans: "quiet w1 w2 \<Longrightarrow> quiet w2 w3 \<Longrightarrow> quiet w1 w3"
  by (simp add: quiet_def)

lemma cancelled_now_quiet: "cancelled_now cx w = (r, w') \<Longrightarrow> quiet w w'"
  by (auto simp: cancelled_now_def quiet_def)

lemma record_attempt_quiet: "record_attempt cx step now ds st w = (r, w') \<Longrightarrow> quiet w w'"
  unfolding record_attempt_def by (rule on_journal_quiet)

text \<open>
  A property of segments relates the world before, the state the task ends in and the world after.
  When it holds of a thrown value that changed nothing, and of what follows a quiet change, it
  passes through the sequencing of operations.
\<close>

locale segment_property =
  fixes P :: "'p world \<Rightarrow> task_state \<Rightarrow> 'p world \<Rightarrow> bool"
  assumes thrown: "quiet w w' \<Longrightarrow> P w (TSettled (Inl e)) w'"
    and absorb: "quiet w1 w2 \<Longrightarrow> P w2 t w3 \<Longrightarrow> P w1 t w3"
begin

definition seg :: "('p, task_state) world_op \<Rightarrow> bool" where
  "seg m \<longleftrightarrow> (\<forall>w t w'. settle m w = (t, w') \<longrightarrow> P w t w')"

lemma seg_throw: "seg (throwS e)"
  by (auto simp: seg_def settle_def throwS_def quiet_def intro!: thrown)

lemma seg_ret: "(\<And>w. P w t w) \<Longrightarrow> seg (retS t)"
  by (auto simp: seg_def settle_def retS_def)

lemma seg_bind:
  assumes "\<And>w r w'. m w = (r, w') \<Longrightarrow> quiet w w'" "\<And>x. seg (f x)"
  shows "seg (bindS m f)"
  unfolding seg_def
proof (intro allI impI)
  fix w t w'
  assume s: "settle (bindS m f) w = (t, w')"
  obtain r w1 where m: "m w = (r, w1)" by fastforce
  then have q: "quiet w w1" by (rule assms(1))
  show "P w t w'"
  proof (cases r)
    case (Inl e)
    with m s q thrown show ?thesis by (auto simp: settle_def bindS_def)
  next
    case (Inr x)
    with m s have "settle (f x) w1 = (t, w')" by (simp add: settle_def bindS_def)
    with assms(2) have "P w1 t w'" by (simp add: seg_def)
    with q show ?thesis by (rule absorb)
  qed
qed

lemma seg_store: "(\<And>x. seg (f x)) \<Longrightarrow> seg (bindS (on_store m) f)"
  by (rule seg_bind) (auto intro: on_store_quiet)

lemma seg_cancelled: "(\<And>x. seg (f x)) \<Longrightarrow> seg (bindS (cancelled_now cx) f)"
  by (rule seg_bind) (auto intro: cancelled_now_quiet)

lemma seg_record: "(\<And>x. seg (f x)) \<Longrightarrow> seg (bindS (record_attempt cx s now ds st) f)"
  by (rule seg_bind) (auto intro: record_attempt_quiet)

lemmas seg_rules = seg_store seg_cancelled seg_record

end

text \<open>The result a task settles with.\<close>

definition own_result :: "control_step \<Rightarrow> task_state \<Rightarrow> bool" where
  "own_result step t \<longleftrightarrow>
     (\<forall>r. t = TSettled (Inr r) \<longrightarrow> res_id r = step_id step \<and> res_status r \<in> {SSucceeded, SCancelled})"

text \<open>Before the dispatch: a segment that ends waiting for a receipt has sent its step, another has sent nothing.\<close>

definition before_dispatch :: "control_step \<Rightarrow> 'p world \<Rightarrow> task_state \<Rightarrow> 'p world \<Rightarrow> bool" where
  "before_dispatch step w t w' \<longleftrightarrow> t \<noteq> TWaiting \<and> own_result step t \<and>
     (if t = TDispatching then sends step w w' else quiet w w')"

text \<open>After the dispatch nothing is sent any more.\<close>

definition after_dispatch :: "control_step \<Rightarrow> 'p world \<Rightarrow> task_state \<Rightarrow> 'p world \<Rightarrow> bool" where
  "after_dispatch step w t w' \<longleftrightarrow> quiet w w' \<and> own_result step t \<and>
     t \<noteq> TWaiting \<and> t \<noteq> TFirstObserve \<and> t \<noteq> TDispatching"

lemmas segment_defs = before_dispatch_def after_dispatch_def own_result_def quiet_def step_result_def

interpretation before: segment_property "before_dispatch step" for step
  by unfold_locales (auto simp: segment_defs sends_def split: if_splits)

interpretation after: segment_property "after_dispatch step" for step
  by unfold_locales (auto simp: segment_defs)

lemma find_failed_None: "failed_precondition step ob node = None \<longleftrightarrow>
    (\<forall>p \<in> set (preconditions step). evaluateControlPredicate ob p (Some node))"
  by (auto simp: failed_precondition_def find_None_iff)

lemma check_segment: "before.seg step (check_and_dispatch cx step before clk)"
proof (cases "resolveControlTarget before (step_target step)")
  case (Inl e)
  then show ?thesis by (simp add: check_and_dispatch_def before.seg_throw)
next
  case (Inr node)
  show ?thesis
  proof (cases "failed_precondition step before node")
    case (Some p)
    with Inr show ?thesis by (simp add: check_and_dispatch_def before.seg_throw)
  next
    case None
    then have pre: "\<forall>p \<in> set (preconditions step). evaluateControlPredicate before p (Some node)"
      by (simp add: find_failed_None)
    have send: "before.seg step (bindS (record_attempt cx step (clk 0) ''notDispatched'' ''dispatchRecorded'') (\<lambda>_.
        bindS (call_dispatch step before node) (\<lambda>_. retS TDispatching)))"
      if ok: "supportsControlAction node (step_action step) \<or> action_kind (step_action step) = KWaitFor"
        "\<not> already_in_state (step_action step) node"
    proof (rule before.seg_record)
      show "before.seg step (bindS (call_dispatch step before node) (\<lambda>_. retS TDispatching))"
        using Inr pre ok
        by (auto simp: before.seg_def settle_def bindS_def call_dispatch_def retS_def segment_defs sends_def dispatch_ok_def)
    qed
    show ?thesis
      unfolding check_and_dispatch_def Inr None sum.case option.case
      by (auto simp: before.seg_throw segment_defs intro!: send before.seg_ret)
  qed
qed

lemma start_segment: "before.seg step (step_start cx step clk)"
  unfolding step_start_def
  by (auto simp: check_segment segment_defs intro!: before.seg_rules before.seg_ret split: option.splits)

lemma first_segment: "before.seg step (step_first cx step a clk)"
  unfolding step_first_def
  by (cases a) (auto simp: before.seg_throw check_segment intro!: before.seg_rules)

lemma receipt_segment: "after.seg step (step_receipt cx step a clk)"
  unfolding step_receipt_def
  by (cases a) (auto simp: after.seg_throw segment_defs intro!: after.seg_rules after.seg_ret)

lemma after_segment: "after.seg step (step_after cx step d dl a clk)"
  unfolding step_after_def
  by (cases a) (auto simp: after.seg_throw segment_defs intro!: after.seg_rules after.seg_ret)

fun undispatched :: "task_state \<Rightarrow> bool" where
  "undispatched TWaiting = True"
| "undispatched TFirstObserve = True"
| "undispatched _ = False"

text \<open>An answer a task waits for, before its dispatch or after it.\<close>

lemma task_step_cases:
  assumes "task_step cx step clk a t w = (t', w')" "awaits t a"
  shows "undispatched t \<and> before_dispatch step w t' w' \<or>
     \<not> undispatched t \<and> \<not> settled_task t \<and> after_dispatch step w t' w'"
proof -
  have timer: "after_dispatch step u (TObserving d dl) u" for u d dl by (simp add: segment_defs)
  show ?thesis
    using assms start_segment [of step cx clk, unfolded before.seg_def]
      first_segment [of step cx _ clk, unfolded before.seg_def]
      receipt_segment [of step cx _ clk, unfolded after.seg_def] after_segment [of step cx _ _ _ clk, unfolded after.seg_def]
    by (cases "(cx, step, clk, a, t, w)" rule: task_step.cases) (auto simp: timer)
qed

end
