(* ===== verification/ResourceScheduler.thy ===== *)
theory ResourceScheduler
  imports Prelude "HOL-Library.List_Lexorder" "HOL-Library.Char_ord"
begin

text \<open>
  packages/control/src/resource-scheduler.ts: runs that share a resource go one after the other.
  A call of \<open>run\<close> takes the tail promise of each of its resources as a predecessor, puts its own
  promise there, waits for the predecessors, runs its operation and resolves the promise. A run is
  identified by its number in the order of the calls; its promise is resolved exactly when its
  phase is \<open>RFinished\<close>. Between \<open>await\<close>s the code runs without interruption, so a run is three
  steps: the call, the start of the operation, and its end.
\<close>

datatype run_phase = RWaiting | RActive | RFinished

record run_info =
  run_keys :: "string list"
  run_preds :: "nat list"
  run_phase :: run_phase

record scheduler =
  tails :: "(string, nat) jsmap"
  runs :: "run_info list"

definition new_scheduler :: scheduler where
  "new_scheduler = \<lparr>tails = [], runs = []\<rparr>"

definition resources :: "string list \<Rightarrow> string list" where
  "resources keys = sort (remdups keys)"

text \<open>The synchronous part of \<open>run\<close>, up to the first \<open>await\<close>.\<close>

definition enqueue :: "string list \<Rightarrow> scheduler \<Rightarrow> nat \<times> scheduler" where
  "enqueue keys s =
     (let rs = resources keys; t = length (runs s);
          preds = concat (map (\<lambda>k. case map_of (tails s) k of None \<Rightarrow> [] | Some p \<Rightarrow> [p]) rs) in
      (t, s\<lparr>tails := fold (\<lambda>k. AList.update k t) rs (tails s),
            runs := runs s @ [\<lparr>run_keys = rs, run_preds = preds, run_phase = RWaiting\<rparr>]\<rparr>))"

abbreviation phase_of :: "scheduler \<Rightarrow> nat \<Rightarrow> run_phase" where
  "phase_of s t \<equiv> run_phase (runs s ! t)"

abbreviation keys_of :: "scheduler \<Rightarrow> nat \<Rightarrow> string set" where
  "keys_of s t \<equiv> set (run_keys (runs s ! t))"

definition set_phase :: "nat \<Rightarrow> run_phase \<Rightarrow> scheduler \<Rightarrow> scheduler" where
  "set_phase t ph s = s\<lparr>runs := (runs s)[t := (runs s ! t)\<lparr>run_phase := ph\<rparr>]\<rparr>"

text \<open>\<open>Promise.all(predecessors)\<close> has resolved.\<close>

definition can_start :: "scheduler \<Rightarrow> nat \<Rightarrow> bool" where
  "can_start s t \<longleftrightarrow> t < length (runs s) \<and> phase_of s t = RWaiting \<and>
     (\<forall>p \<in> set (run_preds (runs s ! t)). phase_of s p = RFinished)"

definition start_run :: "nat \<Rightarrow> scheduler \<Rightarrow> scheduler" where
  "start_run t s = (if can_start s t then set_phase t RActive s else s)"

text \<open>The \<open>finally\<close> block: resolve, then drop the tails that are still this run's promise.\<close>

definition finish_run :: "nat \<Rightarrow> scheduler \<Rightarrow> scheduler" where
  "finish_run t s =
     (if t < length (runs s) \<and> phase_of s t = RActive then
        (set_phase t RFinished s)\<lparr>tails := fold (\<lambda>k m. if map_of m k = Some t then AList.delete k m else m)
           (run_keys (runs s ! t)) (tails s)\<rparr>
      else s)"

datatype sched_event = EvEnqueue "string list" | EvStart nat | EvFinishRun nat

fun sched_step :: "scheduler \<Rightarrow> sched_event \<Rightarrow> scheduler" where
  "sched_step s (EvEnqueue keys) = snd (enqueue keys s)"
| "sched_step s (EvStart t) = start_run t s"
| "sched_step s (EvFinishRun t) = finish_run t s"

section \<open>The invariant\<close>

definition shares :: "scheduler \<Rightarrow> nat \<Rightarrow> nat \<Rightarrow> bool" where
  "shares s u v \<longleftrightarrow> keys_of s u \<inter> keys_of s v \<noteq> {}"

definition preds_earlier :: "scheduler \<Rightarrow> bool" where
  "preds_earlier s \<longleftrightarrow> (\<forall>u < length (runs s). \<forall>p \<in> set (run_preds (runs s ! u)). p < u)"

text \<open>A run that has started has every earlier run on its resources behind it.\<close>

definition in_order :: "scheduler \<Rightarrow> bool" where
  "in_order s \<longleftrightarrow> (\<forall>u < length (runs s). \<forall>v < u. shares s u v \<longrightarrow> phase_of s u \<noteq> RWaiting \<longrightarrow> phase_of s v = RFinished)"

definition chained :: "scheduler \<Rightarrow> bool" where
  "chained s \<longleftrightarrow> (\<forall>u < length (runs s). \<forall>v < u. \<forall>k \<in> keys_of s u \<inter> keys_of s v.
     phase_of s v = RFinished \<or> (\<exists>p \<in> set (run_preds (runs s ! u)). v \<le> p \<and> p < u \<and> k \<in> keys_of s p))"

definition tails_last :: "scheduler \<Rightarrow> bool" where
  "tails_last s \<longleftrightarrow> (\<forall>k. case map_of (tails s) k of
       None \<Rightarrow> (\<forall>u < length (runs s). k \<in> keys_of s u \<longrightarrow> phase_of s u = RFinished)
     | Some t \<Rightarrow> t < length (runs s) \<and> k \<in> keys_of s t \<and>
         (\<forall>u < length (runs s). k \<in> keys_of s u \<longrightarrow> u \<le> t))"

definition sched_inv :: "scheduler \<Rightarrow> bool" where
  "sched_inv s \<longleftrightarrow> wf_map (tails s) \<and> preds_earlier s \<and> in_order s \<and> chained s \<and> tails_last s"

lemma in_orderD:
  assumes "in_order s" "u < length (runs s)" "v < u" "k \<in> keys_of s u" "k \<in> keys_of s v" "phase_of s u \<noteq> RWaiting"
  shows "phase_of s v = RFinished"
  using assms unfolding in_order_def shares_def by blast

lemma chainedD:
  assumes "chained s" "u < length (runs s)" "v < u" "k \<in> keys_of s u" "k \<in> keys_of s v" "phase_of s v \<noteq> RFinished"
  shows "\<exists>p \<in> set (run_preds (runs s ! u)). v \<le> p \<and> p < u \<and> k \<in> keys_of s p"
  using assms unfolding chained_def by blast

lemma new_scheduler_inv: "sched_inv new_scheduler"
  by (simp add: sched_inv_def new_scheduler_def preds_earlier_def in_order_def chained_def tails_last_def)

lemma map_of_fold_update: "map_of (fold (\<lambda>k. AList.update k t) ks m) k = (if k \<in> set ks then Some t else map_of m k)"
  by (induction ks arbitrary: m) (auto simp: update_conv')

lemma wf_fold_update_same: "wf_map m \<Longrightarrow> wf_map (fold (\<lambda>k. AList.update k t) ks m)"
  by (induction ks arbitrary: m) (simp_all add: wf_map_update)

lemma fold_drop:
  "wf_map m \<Longrightarrow>
     wf_map (fold (\<lambda>k m. if map_of m k = Some t then AList.delete k m else m) ks m) \<and>
     map_of (fold (\<lambda>k m. if map_of m k = Some t then AList.delete k m else m) ks m) k =
       (if k \<in> set ks \<and> map_of m k = Some t then None else map_of m k)"
proof (induction ks arbitrary: m)
  case (Cons x ks)
  then show ?case
    using Cons.IH [of "AList.delete x m"] Cons.IH [of m]
    by (auto simp: wf_map_delete delete_conv')
qed simp

lemma set_resources: "set (resources keys) = set keys"
  by (simp add: resources_def)

lemma enqueue_inv:
  assumes "sched_inv s"
  shows "sched_inv (snd (enqueue keys s))"
proof -
  let ?n = "length (runs s)"
  define rs where "rs = resources keys"
  define preds where "preds = concat (map (\<lambda>k. case map_of (tails s) k of None \<Rightarrow> [] | Some p \<Rightarrow> [p]) rs)"
  define s' where "s' = snd (enqueue keys s)"
  have s': "tails s' = fold (\<lambda>k. AList.update k ?n) rs (tails s)"
    "runs s' = runs s @ [\<lparr>run_keys = rs, run_preds = preds, run_phase = RWaiting\<rparr>]"
    by (simp_all add: s'_def enqueue_def Let_def rs_def preds_def)
  have old: "runs s' ! u = runs s ! u" if "u < ?n" for u using that by (simp add: s' nth_append)
  have new: "runs s' ! ?n = \<lparr>run_keys = rs, run_preds = preds, run_phase = RWaiting\<rparr>" by (simp add: s')
  have tl: "tails_last s" using assms by (simp add: sched_inv_def)
  have pred: "p \<in> set preds \<longleftrightarrow> (\<exists>k \<in> set rs. map_of (tails s) k = Some p)" for p
    by (force simp: preds_def split: option.splits)
  have earlier: "p < ?n" if "p \<in> set preds" for p
  proof -
    from that pred obtain k where "map_of (tails s) k = Some p" by blast
    with tl show ?thesis by (auto simp: tails_last_def dest!: spec [of _ k])
  qed
  have "preds_earlier s'" using assms earlier
    by (auto simp: sched_inv_def preds_earlier_def s' less_Suc_eq nth_append)
  moreover have "in_order s'" using assms
    by (auto simp: sched_inv_def in_order_def shares_def s' less_Suc_eq nth_append)
  moreover have "chained s'"
    unfolding chained_def
  proof (intro allI impI ballI)
    fix u v k assume uv: "u < length (runs s')" "v < u" and k: "k \<in> keys_of s' u \<inter> keys_of s' v"
    show "phase_of s' v = RFinished \<or> (\<exists>p \<in> set (run_preds (runs s' ! u)). v \<le> p \<and> p < u \<and> k \<in> keys_of s' p)"
    proof (cases "u < ?n")
      case True
      with uv k assms have "phase_of s v = RFinished \<or> (\<exists>p \<in> set (run_preds (runs s ! u)). v \<le> p \<and> p < u \<and> k \<in> keys_of s p)"
        by (auto simp: sched_inv_def chained_def old)
      with True uv show ?thesis by (auto simp: old)
    next
      case False
      with uv have u: "u = ?n" by (simp add: s')
      with k uv have ks: "k \<in> set rs" "k \<in> keys_of s v" "v < ?n" by (auto simp: new old)
      show ?thesis
      proof (cases "map_of (tails s) k")
        case None
        with tl ks have "phase_of s v = RFinished" by (auto simp: tails_last_def dest!: spec [of _ k])
        with ks show ?thesis by (simp add: old)
      next
        case (Some p)
        with tl ks have "p < ?n" "k \<in> keys_of s p" "v \<le> p" by (auto simp: tails_last_def dest!: spec [of _ k])
        with Some ks pred show ?thesis by (auto simp: u new old intro!: disjI2 bexI [of _ p])
      qed
    qed
  qed
  moreover have "tails_last s'"
    unfolding tails_last_def
  proof
    fix k
    have "map_of (tails s') k = (if k \<in> set rs then Some ?n else map_of (tails s) k)"
      by (simp add: s' map_of_fold_update)
    then show "case map_of (tails s') k of
       None \<Rightarrow> (\<forall>u < length (runs s'). k \<in> keys_of s' u \<longrightarrow> phase_of s' u = RFinished)
     | Some t \<Rightarrow> t < length (runs s') \<and> k \<in> keys_of s' t \<and> (\<forall>u < length (runs s'). k \<in> keys_of s' u \<longrightarrow> u \<le> t)"
      using tl by (auto simp: tails_last_def s' less_Suc_eq nth_append split: option.splits dest!: spec [of _ k])
  qed
  moreover have "wf_map (tails s')" using assms by (simp add: s' sched_inv_def wf_fold_update_same)
  ultimately show ?thesis by (simp add: sched_inv_def s'_def [symmetric])
qed

lemma set_phase_sel [simp]:
  "length (runs (set_phase t ph s)) = length (runs s)"
  "t < length (runs s) \<Longrightarrow> phase_of (set_phase t ph s) u = (if u = t then ph else phase_of s u)"
  "t < length (runs s) \<Longrightarrow> run_keys (runs (set_phase t ph s) ! u) = run_keys (runs s ! u)"
  "t < length (runs s) \<Longrightarrow> run_preds (runs (set_phase t ph s) ! u) = run_preds (runs s ! u)"
  "tails (set_phase t ph s) = tails s"
  by (simp_all add: set_phase_def nth_list_update)

text \<open>What a run waits for is enough: when its predecessors are done, so is every earlier run it shares a resource with.\<close>

lemma can_start_clear:
  assumes "sched_inv s" "can_start s u" "v < u" "shares s u v"
  shows "phase_of s v = RFinished"
proof -
  from assms(4) obtain k where k: "k \<in> keys_of s u \<inter> keys_of s v" by (auto simp: shares_def)
  have u: "u < length (runs s)" using assms(2) by (simp add: can_start_def)
  have "chained s" using assms(1) by (simp add: sched_inv_def)
  with u assms(3) k consider "phase_of s v = RFinished"
    | p where "p \<in> set (run_preds (runs s ! u))" "v \<le> p" "p < u" "k \<in> keys_of s p"
    unfolding chained_def by blast
  then show ?thesis
  proof cases
    case (2 p)
    then have fin: "phase_of s p = RFinished" using assms(2) by (simp add: can_start_def)
    show ?thesis
    proof (cases "v = p")
      case False
      with 2 k u fin assms(1) show ?thesis
        by (intro in_orderD [of s p v k]) (auto simp: sched_inv_def)
    qed (use fin in simp)
  qed
qed

lemma start_inv:
  assumes "sched_inv s"
  shows "sched_inv (start_run t s)"
proof (cases "can_start s t")
  case True
  then have t: "t < length (runs s)" by (simp add: can_start_def)
  have "in_order (set_phase t RActive s)"
    unfolding in_order_def
  proof (intro allI impI)
    fix u v assume u: "u < length (runs (set_phase t RActive s))" "v < u" "shares (set_phase t RActive s) u v"
      "phase_of (set_phase t RActive s) u \<noteq> RWaiting"
    then have sh: "shares s u v" by (simp add: shares_def t)
    have "phase_of s v = RFinished"
    proof (cases "u = t")
      case True
      with assms \<open>can_start s t\<close> u(2) sh show ?thesis by (simp add: can_start_clear)
    next
      case False
      with u t sh assms show ?thesis by (auto simp: sched_inv_def in_order_def)
    qed
    then show "phase_of (set_phase t RActive s) v = RFinished"
      using True t by (auto simp: can_start_def)
  qed
  moreover have "chained (set_phase t RActive s)"
    unfolding chained_def
  proof (intro allI impI ballI)
    fix u v k assume u: "u < length (runs (set_phase t RActive s))" "v < u"
      "k \<in> keys_of (set_phase t RActive s) u \<inter> keys_of (set_phase t RActive s) v"
    then have "phase_of s v \<noteq> RFinished \<Longrightarrow> \<exists>p \<in> set (run_preds (runs s ! u)). v \<le> p \<and> p < u \<and> k \<in> keys_of s p"
      using assms t by (intro chainedD) (auto simp: sched_inv_def)
    then show "phase_of (set_phase t RActive s) v = RFinished \<or>
        (\<exists>p \<in> set (run_preds (runs (set_phase t RActive s) ! u)). v \<le> p \<and> p < u \<and> k \<in> keys_of (set_phase t RActive s) p)"
      using True t by (cases "v = t") (auto simp: can_start_def)
  qed
  moreover have "tails_last (set_phase t RActive s)"
    unfolding tails_last_def
  proof
    fix k
    have "case map_of (tails s) k of
       None \<Rightarrow> (\<forall>u < length (runs s). k \<in> keys_of s u \<longrightarrow> phase_of s u = RFinished)
     | Some t \<Rightarrow> t < length (runs s) \<and> k \<in> keys_of s t \<and> (\<forall>u < length (runs s). k \<in> keys_of s u \<longrightarrow> u \<le> t)"
      using assms by (simp add: sched_inv_def tails_last_def)
    then show "case map_of (tails (set_phase t RActive s)) k of
       None \<Rightarrow> (\<forall>u < length (runs (set_phase t RActive s)). k \<in> keys_of (set_phase t RActive s) u \<longrightarrow>
          phase_of (set_phase t RActive s) u = RFinished)
     | Some t' \<Rightarrow> t' < length (runs (set_phase t RActive s)) \<and> k \<in> keys_of (set_phase t RActive s) t' \<and>
          (\<forall>u < length (runs (set_phase t RActive s)). k \<in> keys_of (set_phase t RActive s) u \<longrightarrow> u \<le> t')"
      using True t by (auto simp: can_start_def split: option.splits)
  qed
  ultimately show ?thesis
    using assms True t by (simp add: start_run_def sched_inv_def preds_earlier_def)
qed (simp add: start_run_def assms)

lemma finish_inv:
  assumes "sched_inv s"
  shows "sched_inv (finish_run t s)"
proof (cases "t < length (runs s) \<and> phase_of s t = RActive")
  case True
  then have t: "t < length (runs s)" by simp
  define s' where "s' = finish_run t s"
  have runs': "runs s' = runs (set_phase t RFinished s)" using True by (simp add: s'_def finish_run_def)
  have wf: "wf_map (tails s)" using assms by (simp add: sched_inv_def)
  have tails': "wf_map (tails s')"
    "map_of (tails s') k = (if k \<in> keys_of s t \<and> map_of (tails s) k = Some t then None else map_of (tails s) k)" for k
    using fold_drop [OF wf, of t "run_keys (runs s ! t)"] True by (simp_all add: s'_def finish_run_def)
  have "preds_earlier s'" using assms t by (simp add: sched_inv_def preds_earlier_def runs')
  moreover have "in_order s'"
    unfolding in_order_def shares_def
  proof (intro allI impI)
    fix u v assume u: "u < length (runs s')" "v < u" "keys_of s' u \<inter> keys_of s' v \<noteq> {}" "phase_of s' u \<noteq> RWaiting"
    then obtain k where "k \<in> keys_of s u" "k \<in> keys_of s v" using t by (auto simp: runs')
    moreover have "phase_of s u \<noteq> RWaiting" using u(4) t True by (auto simp: runs' split: if_splits)
    ultimately have "phase_of s v = RFinished"
      using assms u(1,2) t by (intro in_orderD [of s u v k]) (auto simp: sched_inv_def runs')
    then show "phase_of s' v = RFinished" using t by (simp add: runs')
  qed
  moreover have "chained s'"
    using assms t unfolding sched_inv_def chained_def by (auto simp: runs')
  moreover have "tails_last s'"
    unfolding tails_last_def
  proof
    fix k
    have tl: "case map_of (tails s) k of
       None \<Rightarrow> (\<forall>u < length (runs s). k \<in> keys_of s u \<longrightarrow> phase_of s u = RFinished)
     | Some t \<Rightarrow> t < length (runs s) \<and> k \<in> keys_of s t \<and> (\<forall>u < length (runs s). k \<in> keys_of s u \<longrightarrow> u \<le> t)"
      using assms by (simp add: sched_inv_def tails_last_def)
    show "case map_of (tails s') k of
       None \<Rightarrow> (\<forall>u < length (runs s'). k \<in> keys_of s' u \<longrightarrow> phase_of s' u = RFinished)
     | Some t \<Rightarrow> t < length (runs s') \<and> k \<in> keys_of s' t \<and> (\<forall>u < length (runs s'). k \<in> keys_of s' u \<longrightarrow> u \<le> t)"
    proof (cases "k \<in> keys_of s t \<and> map_of (tails s) k = Some t")
      case here: True
      have "phase_of s u = RFinished" if "u < length (runs s)" "k \<in> keys_of s u" "u \<noteq> t" for u
      proof -
        from tl here that have "u < t" by auto
        moreover have "shares s t u" using here that by (auto simp: shares_def)
        ultimately show ?thesis using assms True by (auto simp: sched_inv_def in_order_def)
      qed
      with here t show ?thesis by (auto simp: tails' runs')
    next
      case False
      with tl t show ?thesis by (auto simp: tails' runs' split: option.splits)
    qed
  qed
  ultimately show ?thesis using tails'(1) by (simp add: sched_inv_def s'_def [symmetric])
qed (use assms in \<open>auto simp: finish_run_def\<close>)

interpretation sched: invariant_system sched_step sched_inv
proof
  fix s ev assume "sched_inv s"
  then show "sched_inv (sched_step s ev)"
    by (cases ev) (simp_all add: enqueue_inv start_inv finish_inv)
qed

lemma sched_reachable: "sched_inv (foldl sched_step new_scheduler evs)"
  by (rule sched.run_inv [OF new_scheduler_inv])

lemma active_alone:
  assumes "sched_inv s" "u < length (runs s)" "v < length (runs s)" "phase_of s u = RActive" "phase_of s v = RActive" "shares s u v"
  shows "u = v"
proof (rule ccontr)
  assume "u \<noteq> v"
  then consider "v < u" | "u < v" by linarith
  then show False
    using assms by cases (auto simp: sched_inv_def in_order_def shares_def Int_commute)
qed

text \<open>
  C25: ResourceScheduler.run excludes: in every order of calls, starts and ends, two operations that
  name a common resource are never both between their start and their end.
\<close>

theorem scheduler_mutual_exclusion:
  assumes "s = foldl sched_step new_scheduler evs" "u < length (runs s)" "v < length (runs s)" "u \<noteq> v"
  and "phase_of s u = RActive" "phase_of s v = RActive"
  shows "keys_of s u \<inter> keys_of s v = {}"
  using active_alone [of s u v] sched_reachable [of evs] assms by (auto simp: shares_def)

definition demo_parallel :: scheduler where
  "demo_parallel = foldl sched_step new_scheduler [EvEnqueue [''a''], EvEnqueue [''b''], EvStart 0, EvStart 1]"

definition demo_queue :: "sched_event list" where
  "demo_queue = [EvEnqueue [''a''], EvEnqueue [''a''], EvStart 1, EvStart 0, EvFinishRun 0]"

lemmas sched_eval = new_scheduler_def enqueue_def resources_def Let_def start_run_def finish_run_def can_start_def set_phase_def

lemma demo_parallel_eq: "runs demo_parallel =
    [\<lparr>run_keys = [''a''], run_preds = [], run_phase = RActive\<rparr>, \<lparr>run_keys = [''b''], run_preds = [], run_phase = RActive\<rparr>]"
  by (simp add: demo_parallel_def sched_eval)

theorem scheduler_mutual_exclusion_witness: "keys_of demo_parallel 0 \<inter> keys_of demo_parallel 1 = {}"
  by (rule scheduler_mutual_exclusion [OF demo_parallel_def]) (simp_all add: demo_parallel_eq)

text \<open>
  ResourceScheduler.run is fair and free of deadlock: runs on a resource start in the order of
  their calls, and while runs are waiting and no operation is running, the one that waits longest
  can start.
\<close>

theorem scheduler_fifo_progress:
  assumes "s = foldl sched_step new_scheduler evs"
  shows "(\<forall>u < length (runs s). \<forall>v < u. shares s u v \<longrightarrow> phase_of s u \<noteq> RWaiting \<longrightarrow> phase_of s v = RFinished) \<and>
    (\<forall>u < length (runs s). phase_of s u = RWaiting \<longrightarrow> (\<forall>v < u. phase_of s v = RFinished) \<longrightarrow> can_start s u)"
  using sched_reachable [of evs] assms
  by (auto simp: sched_inv_def in_order_def preds_earlier_def can_start_def)

lemma demo_queue_eq: "runs (foldl sched_step new_scheduler demo_queue) =
    [\<lparr>run_keys = [''a''], run_preds = [], run_phase = RFinished\<rparr>, \<lparr>run_keys = [''a''], run_preds = [0], run_phase = RWaiting\<rparr>]"
  by (simp add: demo_queue_def sched_eval)

theorem scheduler_fifo_progress_witness: "can_start (foldl sched_step new_scheduler demo_queue) 1"
  using scheduler_fifo_progress [OF refl, of demo_queue] by (simp add: demo_queue_eq)

end
