(* ===== verification/PlanExecutor.thy ===== *)
theory PlanExecutor
  imports StepExecution ResourceScheduler PlanRepository
begin

text \<open>
  packages/control/src/plan-executor.ts, \<open>execute\<close>: a plan runs in waves of steps whose dependencies
  have succeeded. The steps of a wave are given to the scheduler, one resource per surface, and run
  interleaved; when all have settled the loop goes on. An execution is a state machine whose events
  are the answers to its tasks, the resolution of \<open>Promise.allSettled\<close>, and whatever else happens in
  the process: other calls of the observation store, the journal and the scheduler. The Map
  \<open>pending\<close> has every step under its own id, so the model keeps its values in their order.
\<close>

section \<open>The state\<close>

datatype exec_status = Running | Returned control_plan_result | Rejected thrown

record task =
  ta_step :: control_step
  ta_ticket :: nat
  ta_state :: task_state

type_synonym step_results = "(string, control_plan_step_result) jsmap"

record 'p exec =
  ex_ctx :: "'p exec_ctx"
  ex_world :: "'p world"
  ex_sched :: scheduler
  ex_results :: step_results
  ex_pending :: "control_step list"
  ex_wave :: "task list"
  ex_status :: exec_status

definition pending_of :: "control_step list \<Rightarrow> control_step list" where
  "pending_of ss = jvals (map_from (map (\<lambda>s. (step_id s, s)) ss))"

text \<open>\<open>plan.steps.map((step) => results.get(step.id)).filter(Boolean)\<close>\<close>

definition collected :: "control_plan \<Rightarrow> step_results \<Rightarrow> control_plan_step_result list" where
  "collected plan results = concat (map (\<lambda>s. case map_of results (step_id s) of None \<Rightarrow> [] | Some r \<Rightarrow> [r]) (steps plan))"

definition plan_result ::
    "'p exec_ctx \<Rightarrow> control_plan_status \<Rightarrow> step_results \<Rightarrow> control_observation_result option \<Rightarrow> control_error option
     \<Rightarrow> control_checkpoint option \<Rightarrow> control_plan_result" where
  "plan_result cx st results ob e cp =
     \<lparr>pr_planId = cx_planId cx, pr_status = st, pr_steps = collected (cx_plan cx) results,
      pr_observation = ob, pr_error = e, pr_checkpoint = cp\<rparr>"

section \<open>Returning\<close>

text \<open>\<open>finish\<close>\<close>

definition finish_plan :: "'p exec_ctx \<Rightarrow> (nat \<Rightarrow> int) \<Rightarrow> control_plan_result \<Rightarrow> ('p, control_plan_result) world_op" where
  "finish_plan cx clk r =
     bindS (on_journal (journal_finish (cx_ps cx) (\<lambda>i. cx_iso cx (clk i)) (cx_owner cx) r)) (\<lambda>_. retS r)"

text \<open>The \<open>catch\<close> block of \<open>execute\<close>, whose own \<open>finish\<close> may throw.\<close>

definition catch_plan ::
    "'p exec_ctx \<Rightarrow> (nat \<Rightarrow> int) \<Rightarrow> step_results \<Rightarrow> thrown \<Rightarrow> 'p world \<Rightarrow> exec_status \<times> 'p world" where
  "catch_plan cx clk results e w =
     (case finish_plan cx clk (plan_result cx PFailed results None (Some (asControlError e None)) None) w of
        (Inr r, w') \<Rightarrow> (Returned r, w')
      | (Inl e', w') \<Rightarrow> (Rejected e', w'))"

text \<open>\<open>return this.finish(...)\<close> inside the \<open>try\<close> block.\<close>

definition return_plan ::
    "'p exec_ctx \<Rightarrow> (nat \<Rightarrow> int) \<Rightarrow> step_results \<Rightarrow> control_plan_result \<Rightarrow> 'p world \<Rightarrow> exec_status \<times> 'p world" where
  "return_plan cx clk results r w =
     (case finish_plan cx clk r w of
        (Inr r', w') \<Rightarrow> (Returned r', w')
      | (Inl e, w') \<Rightarrow> catch_plan cx (shift 2 clk) results e w')"

text \<open>\<open>fail\<close>\<close>

definition failed_result ::
    "'p exec_ctx \<Rightarrow> step_results \<Rightarrow> control_step option \<Rightarrow> control_error \<Rightarrow> step_results \<times> control_plan_result" where
  "failed_result cx results step e =
     (let results' = (case step of None \<Rightarrow> results
            | Some s \<Rightarrow> AList.update (step_id s) (step_result s SFailed NotChecked) results) in
      (results', plan_result cx (if length results' > 1 then PPartial else PFailed) results' None (Some e) None))"

text \<open>\<open>output\<close>\<close>

definition plan_output_of :: "'p exec_ctx \<Rightarrow> (nat \<Rightarrow> int) \<Rightarrow> ('p, control_observation_result option) world_op" where
  "plan_output_of cx clk =
     (case surfaceIds (cx_plan cx) of
        [] \<Rightarrow> retS None
      | sid # _ \<Rightarrow>
          if sid = [] then retS None
          else bindS (on_store (get_observation clk (cx_owner cx) sid)) (\<lambda>latest.
            case latest of
              None \<Rightarrow> retS None
            | Some ob \<Rightarrow>
                if out_full (plan_output (cx_plan cx)) then
                  retS (Some (Full \<lparr>f_observation = ob, f_complete = True,
                    f_appliedObservationId = Some (observationId ob), f_continuation = None\<rparr>))
                else bindS (on_store (delta (shift 2 clk) (cx_owner cx) sid
                    (case out_baseObservationId (plan_output (cx_plan cx)) of None \<Rightarrow> [] | Some b \<Rightarrow> b)
                    (nodeBudget (maxOutputTokens (plan_output (cx_plan cx)))) None)) (\<lambda>d. retS (Some d))))"

section \<open>The loop, up to the next wave\<close>

definition ready_steps :: "step_results \<Rightarrow> control_step list \<Rightarrow> control_step list" where
  "ready_steps results pending = filter (\<lambda>s. list_all (\<lambda>d. map_of results d \<noteq> None) (dependsOn s)) pending"

definition blocked_by_failure :: "step_results \<Rightarrow> control_step \<Rightarrow> bool" where
  "blocked_by_failure results s \<longleftrightarrow>
     list_ex (\<lambda>d. map_option res_status (map_of results d) \<noteq> Some SSucceeded) (dependsOn s)"

definition drop_step :: "control_step \<Rightarrow> control_step list \<Rightarrow> control_step list" where
  "drop_step s pending = filter (\<lambda>t. step_id t \<noteq> step_id s) pending"

fun skip_blocked :: "control_step list \<Rightarrow> step_results \<Rightarrow> control_step list \<Rightarrow> step_results \<times> control_step list" where
  "skip_blocked [] results pending = (results, pending)"
| "skip_blocked (s # ready) results pending =
     (if blocked_by_failure results s then
        skip_blocked ready (AList.update (step_id s) (step_result s SSkipped NotChecked) results) (drop_step s pending)
      else skip_blocked ready results pending)"

datatype decision =
    DReturn step_results control_plan_result
  | DOutput step_results
  | DWave step_results "control_step list" "control_step list"

definition mark_all :: "control_step_status \<Rightarrow> control_step list \<Rightarrow> step_results \<Rightarrow> step_results" where
  "mark_all st ss results = fold (\<lambda>s. AList.update (step_id s) (step_result s st NotChecked)) ss results"

definition deadline_error :: "control_step \<Rightarrow> control_error" where
  "deadline_error s = \<lparr>err_code = ''CONTROL_DEADLINE_EXCEEDED'', err_stepId = Some (step_id s),
     err_dispatchState = NotDispatched, err_recovery = NoRecovery, err_observationId = None,
     err_message = ''Control plan exceeded its deadline before the next step dispatched''\<rparr>"

definition deadlock_error :: control_error where
  "deadlock_error = \<lparr>err_code = ''CONTROL_DEPENDENCY_DEADLOCK'', err_stepId = None,
     err_dispatchState = NotDispatched, err_recovery = NoRecovery, err_observationId = None,
     err_message = ''No control step can make progress''\<rparr>"

lemma length_drop_step: "length (drop_step s pending) \<le> length pending"
  by (simp add: drop_step_def)

lemma drop_step_less: "s \<in> set pending \<Longrightarrow> length (drop_step s pending) < length pending"
  unfolding drop_step_def by (rule length_filter_less) auto

lemma skip_blocked_length: "length (snd (skip_blocked ready results pending)) \<le> length pending"
proof (induction ready results pending rule: skip_blocked.induct)
  case (2 s ready results pending)
  then show ?case using length_drop_step [of s pending] by (auto intro: order_trans)
qed simp

text \<open>A step was marked exactly when one left \<open>pending\<close>.\<close>

lemma skip_blocked_less:
  "set ready \<subseteq> set pending \<Longrightarrow>
     length (snd (skip_blocked ready results pending)) < length pending \<longleftrightarrow>
     list_ex (blocked_by_failure results) ready"
proof (induction ready results pending rule: skip_blocked.induct)
  case (2 s ready results pending)
  show ?case
  proof (cases "blocked_by_failure results s")
    case True
    have "length (drop_step s pending) < length pending" using 2(3) by (intro drop_step_less) simp
    with True skip_blocked_length [of ready _ "drop_step s pending"] show ?thesis
      by (auto intro: le_less_trans)
  next
    case False
    with 2 show ?thesis by simp
  qed
qed simp

text \<open>
  The \<open>while\<close> loop between two waves; the i-th pass reads the clock for the i-th time. \<open>skipped\<close> is
  whether a step was marked, which is whether \<open>skip_blocked\<close> removed one.
\<close>

function plan_loop ::
    "'p exec_ctx \<Rightarrow> bool \<Rightarrow> (nat \<Rightarrow> int) \<Rightarrow> nat \<Rightarrow> step_results \<Rightarrow> control_step list \<Rightarrow> decision" where
  "plan_loop cx cancelled clk i results pending =
     (if pending = [] then DOutput results
      else if cancelled then
        (let results' = mark_all SCancelled pending results in
         DReturn results' (plan_result cx PCancelled results' None None None))
      else if clk i - cx_started cx \<ge> deadlineMs (cx_plan cx) then
        (case failed_result cx results (Some (hd pending)) (deadline_error (hd pending)) of
           (results', r) \<Rightarrow> DReturn results' r)
      else
        (let ready = ready_steps results pending in
         if ready = [] then
           (case failed_result cx results None deadlock_error of (results', r) \<Rightarrow> DReturn results' r)
         else
           (case skip_blocked ready results pending of
              (results', pending') \<Rightarrow>
                if length pending' < length pending then plan_loop cx cancelled clk (Suc i) results' pending'
                else
                  (let wave = take (nat (maxConcurrency (cx_plan cx))) ready in
                   DWave results' wave (fold drop_step wave pending')))))"
  by pat_completeness auto

termination
  by (relation "measure (\<lambda>(cx, cancelled, clk, i, results, pending). length pending)") (auto split: prod.splits)

declare plan_loop.simps [simp del]

text \<open>The calls of \<open>scheduler.run\<close> for a wave, in order.\<close>

fun launch :: "control_step list \<Rightarrow> scheduler \<Rightarrow> task list \<times> scheduler" where
  "launch [] s = ([], s)"
| "launch (st # ss) s =
     (case enqueue [''surface:'' @ step_surfaceId st] s of
        (t, s') \<Rightarrow> (case launch ss s' of
          (ts, s'') \<Rightarrow> (\<lparr>ta_step = st, ta_ticket = t, ta_state = TWaiting\<rparr> # ts, s'')))"

definition decide :: "(nat \<Rightarrow> int) \<Rightarrow> decision \<Rightarrow> 'p exec \<Rightarrow> 'p exec" where
  "decide clk d x =
     (case d of
        DReturn results r \<Rightarrow>
          (case return_plan (ex_ctx x) clk results r (ex_world x) of
             (st, w) \<Rightarrow> x\<lparr>ex_results := results, ex_wave := [], ex_status := st, ex_world := w\<rparr>)
      | DOutput results \<Rightarrow>
          (case plan_output_of (ex_ctx x) clk (ex_world x) of
             (Inl e, w) \<Rightarrow>
               (case catch_plan (ex_ctx x) clk results e w of
                  (st, w') \<Rightarrow> x\<lparr>ex_results := results, ex_wave := [], ex_pending := [], ex_status := st, ex_world := w'\<rparr>)
           | (Inr ob, w) \<Rightarrow>
               (case return_plan (ex_ctx x) (shift 4 clk) results
                       (plan_result (ex_ctx x) PCompleted results ob None None) w of
                  (st, w') \<Rightarrow> x\<lparr>ex_results := results, ex_wave := [], ex_pending := [], ex_status := st, ex_world := w'\<rparr>))
      | DWave results wave pending \<Rightarrow>
          (case launch wave (ex_sched x) of
             (ts, s) \<Rightarrow> x\<lparr>ex_results := results, ex_pending := pending, ex_wave := ts, ex_sched := s\<rparr>))"

text \<open>One turn of the loop from its head; \<open>clk\<close> is read by its passes, \<open>after\<close> by what follows.\<close>

definition loop_from :: "(nat \<Rightarrow> int) \<Rightarrow> (nat \<Rightarrow> int) \<Rightarrow> step_results \<Rightarrow> 'p exec \<Rightarrow> 'p exec" where
  "loop_from clk after results x =
     decide after
       (plan_loop (ex_ctx x)
          (isCancelled (cx_ps (ex_ctx x)) (cx_owner (ex_ctx x)) (cx_planId (ex_ctx x)) (w_journal (ex_world x)))
          clk 0 results (ex_pending x)) x"

section \<open>The end of a wave\<close>

text \<open>
  The results of the tasks in the order of the wave, with the first error. Recording a failed step
  in the journal may throw; then the results so far stand.
\<close>

fun settle_wave ::
    "'p exec_ctx \<Rightarrow> (nat \<Rightarrow> int) \<Rightarrow> nat \<Rightarrow> task list \<Rightarrow> step_results \<Rightarrow> control_error option \<Rightarrow> 'p world
     \<Rightarrow> (thrown + control_error option) \<times> step_results \<times> 'p world" where
  "settle_wave cx clk i [] results first w = (Inr first, results, w)"
| "settle_wave cx clk i (t # ts) results first w =
     (case ta_state t of
        TSettled (Inr r) \<Rightarrow> settle_wave cx clk i ts (AList.update (step_id (ta_step t)) r results) first w
      | TSettled (Inl reason) \<Rightarrow>
          (let s = ta_step t; e = asControlError reason (Some (step_id s));
               first' = (case first of None \<Rightarrow> Some e | Some f \<Rightarrow> Some f) in
           case on_journal (journal_recordStep (cx_ps cx) (cx_iso cx (clk i)) (cx_owner cx) (cx_planId cx) (step_id s)
               (kind_text (action_kind (step_action s)))
               (case err_dispatchState e of NotDispatched \<Rightarrow> ''notDispatched'' | Dispatched \<Rightarrow> ''dispatched''
                | UnknownDispatch \<Rightarrow> ''unknown'')
               (if err_dispatchState e = UnknownDispatch then ''unknown'' else ''failed'')) w of
             (Inl e', w') \<Rightarrow> (Inl e', results, w')
           | (Inr _, w') \<Rightarrow>
               settle_wave cx clk (Suc i) ts
                 (AList.update (step_id s) (step_result s (failedStepStatus e) NotChecked) results) first' w')
      | _ \<Rightarrow> settle_wave cx clk i ts results first w)"

definition after_failure :: "'p exec_ctx \<Rightarrow> step_results \<Rightarrow> control_step list \<Rightarrow> control_error \<Rightarrow> step_results \<times> control_plan_result" where
  "after_failure cx results pending e =
     (let results' = mark_all SSkipped pending results;
          failed = map_of results' (case err_stepId e of None \<Rightarrow> [] | Some s \<Rightarrow> s);
          (st, cp) = failedPlanOutcome failed (length results') in
      (results', plan_result cx st results' None (Some e) cp))"

text \<open>\<open>Promise.allSettled\<close> has resolved: the rest of the loop body, and the loop again.\<close>

definition join_wave :: "(nat \<Rightarrow> int) \<Rightarrow> (nat \<Rightarrow> int) \<Rightarrow> (nat \<Rightarrow> int) \<Rightarrow> 'p exec \<Rightarrow> 'p exec" where
  "join_wave jclk clk after x =
     (case settle_wave (ex_ctx x) jclk 0 (ex_wave x) (ex_results x) None (ex_world x) of
        (Inl e, results, w) \<Rightarrow>
          (case catch_plan (ex_ctx x) after results e w of
             (st, w') \<Rightarrow> x\<lparr>ex_results := results, ex_wave := [], ex_status := st, ex_world := w'\<rparr>)
      | (Inr (Some e), results, w) \<Rightarrow>
          (case after_failure (ex_ctx x) results (ex_pending x) e of
             (results', r) \<Rightarrow> decide after (DReturn results' r) (x\<lparr>ex_world := w\<rparr>))
      | (Inr None, results, w) \<Rightarrow> loop_from clk after results (x\<lparr>ex_wave := [], ex_world := w\<rparr>))"

section \<open>Starting an execution\<close>

text \<open>
  The call of \<open>execute\<close> up to the first wave. \<open>now\<close> is the reading of \<open>claim\<close>, \<open>pclk s\<close> those of the
  preflight for surface \<open>s\<close>.
\<close>

definition start_ctx ::
    "'p persistence option \<Rightarrow> (int \<Rightarrow> string) \<Rightarrow> (string \<Rightarrow> control_mode option) \<Rightarrow> string \<Rightarrow> control_plan \<Rightarrow> string \<Rightarrow> int
     \<Rightarrow> 'p exec_ctx" where
  "start_ctx ps stamp adapters owner plan pid started =
     \<lparr>cx_owner = owner, cx_plan = plan, cx_planId = pid, cx_started = started, cx_adapters = adapters,
      cx_ps = ps, cx_iso = stamp\<rparr>"

definition already_used :: "journal_record \<Rightarrow> thrown" where
  "already_used r =
     (let code = (if jr_status r = JRunning then ''CONTROL_PLAN_RUNNING'' else ''CONTROL_REQUEST_ALREADY_USED'') in
      thrown_with code (code @ '': requestId already belongs to plan '' @ jr_planId r @ '' ('' @
        journal_status_text (jr_status r) @ '')''))"

definition run_plan ::
    "'p exec_ctx \<Rightarrow> (string \<Rightarrow> nat \<Rightarrow> int) \<Rightarrow> (nat \<Rightarrow> int) \<Rightarrow> (nat \<Rightarrow> int) \<Rightarrow> 'p exec \<Rightarrow> 'p exec" where
  "run_plan cx pclk clk after x =
     (case preflightFailure (cx_plan cx) (cx_adapters cx)
         (\<lambda>sid. on_store (get_observation (pclk sid) (cx_owner cx) sid)) (ex_world x) of
        (Inl e, w) \<Rightarrow>
          (case catch_plan cx after [] e w of (st, w') \<Rightarrow> x\<lparr>ex_status := st, ex_world := w'\<rparr>)
      | (Inr (Some blocked), w) \<Rightarrow>
          (case return_plan cx after [] (blocked\<lparr>pr_planId := cx_planId cx\<rparr>) w of
             (st, w') \<Rightarrow> x\<lparr>ex_status := st, ex_world := w'\<rparr>)
      | (Inr None, w) \<Rightarrow>
          loop_from clk after [] (x\<lparr>ex_pending := pending_of (steps (cx_plan cx)), ex_world := w\<rparr>))"

definition fresh_exec :: "'p exec_ctx \<Rightarrow> 'p world \<Rightarrow> scheduler \<Rightarrow> 'p exec" where
  "fresh_exec cx w s =
     \<lparr>ex_ctx = cx, ex_world = w, ex_sched = s, ex_results = [], ex_pending = [], ex_wave = [], ex_status = Running\<rparr>"

definition execute ::
    "(string \<Rightarrow> string \<Rightarrow> string) \<Rightarrow> 'p persistence option \<Rightarrow> (int \<Rightarrow> string) \<Rightarrow> (string \<Rightarrow> control_mode option) \<Rightarrow> string
     \<Rightarrow> string \<Rightarrow> control_plan \<Rightarrow> int \<Rightarrow> int \<Rightarrow> (string \<Rightarrow> nat \<Rightarrow> int) \<Rightarrow> (nat \<Rightarrow> int) \<Rightarrow> (nat \<Rightarrow> int)
     \<Rightarrow> 'p world \<Rightarrow> scheduler \<Rightarrow> 'p exec" where
  "execute hmac ps stamp adapters uuid owner plan now started pclk clk after w s =
     (case on_journal (claim hmac ps uuid (stamp now) owner plan) w of
        (Inl e, w') \<Rightarrow>
          (fresh_exec (start_ctx ps stamp adapters owner plan [] started) w' s)\<lparr>ex_status := Rejected e\<rparr>
      | (Inr (r, existing), w') \<Rightarrow>
          (let cx = start_ctx ps stamp adapters owner plan (jr_planId r) started;
               x = fresh_exec cx w' s in
           if existing then
             (case jr_result r of
                Some res \<Rightarrow> x\<lparr>ex_status := Returned res\<rparr>
              | None \<Rightarrow> x\<lparr>ex_status := Rejected (already_used r)\<rparr>)
           else run_plan cx pclk clk after x))"

section \<open>Events\<close>

datatype exec_event =
    EvTask nat "nat \<Rightarrow> int" answer
  | EvJoin "nat \<Rightarrow> int" "nat \<Rightarrow> int" "nat \<Rightarrow> int"
  | EvStore store_event
  | EvJournal journal_event
  | EvSched sched_event

definition set_task :: "nat \<Rightarrow> task_state \<Rightarrow> 'p exec \<Rightarrow> 'p exec" where
  "set_task i t x = x\<lparr>ex_wave := (ex_wave x)[i := (ex_wave x ! i)\<lparr>ta_state := t\<rparr>]\<rparr>"

text \<open>
  A task answers; \<open>Begin\<close> comes when its predecessors have released the surface, and a task that
  settles releases it.
\<close>

definition task_event :: "nat \<Rightarrow> (nat \<Rightarrow> int) \<Rightarrow> answer \<Rightarrow> 'p exec \<Rightarrow> 'p exec" where
  "task_event i clk a x =
     (if i < length (ex_wave x) \<and> awaits (ta_state (ex_wave x ! i)) a \<and>
         (a = Begin \<longrightarrow> can_start (ex_sched x) (ta_ticket (ex_wave x ! i))) then
        (let t = ex_wave x ! i;
             s1 = (if a = Begin then start_run (ta_ticket t) (ex_sched x) else ex_sched x) in
         case task_step (ex_ctx x) (ta_step t) clk a (ta_state t) (ex_world x) of
           (t', w) \<Rightarrow>
             (set_task i t' x)\<lparr>ex_world := w,
               ex_sched := (if settled_task t' then finish_run (ta_ticket t) s1 else s1)\<rparr>)
      else x)"

text \<open>The tickets that belong to the tasks of this execution are not started or ended by others.\<close>

fun foreign :: "'p exec \<Rightarrow> sched_event \<Rightarrow> bool" where
  "foreign x (EvEnqueue keys) = True"
| "foreign x (EvStart t) = (t \<notin> ta_ticket ` set (ex_wave x))"
| "foreign x (EvFinishRun t) = (t \<notin> ta_ticket ` set (ex_wave x))"

fun exec_step :: "(string \<Rightarrow> string \<Rightarrow> string) \<Rightarrow> 'p exec \<Rightarrow> exec_event \<Rightarrow> 'p exec" where
  "exec_step hmac x (EvTask i clk a) = (if ex_status x = Running then task_event i clk a x else x)"
| "exec_step hmac x (EvJoin jclk clk after) =
     (if ex_status x = Running \<and> list_all (\<lambda>t. settled_task (ta_state t)) (ex_wave x) then join_wave jclk clk after x else x)"
| "exec_step hmac x (EvStore ev) =
     x\<lparr>ex_world := (ex_world x)\<lparr>w_store := store_step (w_store (ex_world x)) ev\<rparr>\<rparr>"
| "exec_step hmac x (EvJournal ev) = 
     x\<lparr>ex_world := (ex_world x)\<lparr>w_journal := journal_step hmac (cx_ps (ex_ctx x)) (w_journal (ex_world x)) ev\<rparr>\<rparr>"
| "exec_step hmac x (EvSched ev) = (if foreign x ev then x\<lparr>ex_sched := sched_step (ex_sched x) ev\<rparr> else x)"

section \<open>Results and the steps that have none\<close>

abbreviation ids :: "control_step list \<Rightarrow> string set" where
  "ids ss \<equiv> step_id ` set ss"

definition succeeded :: "step_results \<Rightarrow> string \<Rightarrow> bool" where
  "succeeded results d \<longleftrightarrow> map_option res_status (map_of results d) = Some SSucceeded"

text \<open>While nothing has failed a result is a success, a cancellation, or a skip after a cancellation.\<close>

definition results_ok :: "step_results \<Rightarrow> bool" where
  "results_ok results \<longleftrightarrow> wf_map results \<and>
     (\<forall>k r. map_of results k = Some r \<longrightarrow> res_id r = k) \<and>
     (\<forall>k r. map_of results k = Some r \<longrightarrow> res_status r \<in> {SSucceeded, SCancelled, SSkipped}) \<and>
     ((\<exists>k r. map_of results k = Some r \<and> res_status r = SSkipped) \<longrightarrow>
      (\<exists>k r. map_of results k = Some r \<and> res_status r = SCancelled))"

text \<open>Results, pending steps and the running wave \<open>W\<close> split the plan.\<close>

definition split_ok :: "control_plan \<Rightarrow> step_results \<Rightarrow> control_step list \<Rightarrow> string set \<Rightarrow> bool" where
  "split_ok plan results pending W \<longleftrightarrow>
     set pending \<subseteq> set (steps plan) \<and> distinct (map step_id pending) \<and>
     dom (map_of results) \<inter> ids pending = {} \<and> dom (map_of results) \<inter> W = {} \<and> ids pending \<inter> W = {} \<and>
     dom (map_of results) \<union> ids pending \<union> W = ids (steps plan)"

lemma results_ok_update:
  assumes "results_ok results" "res_id r = k" "res_status r \<in> {SSucceeded, SCancelled}" "map_of results k = None"
  shows "results_ok (AList.update k r results)"
proof -
  have upd: "map_of (AList.update k r results) = (map_of results)(k \<mapsto> r)" by (rule update_conv')
  have skip: "\<exists>k' r'. ((map_of results)(k \<mapsto> r)) k' = Some r' \<and> res_status r' = SCancelled"
    if "((map_of results)(k \<mapsto> r)) x = Some y" "res_status y = SSkipped" for x y
  proof -
    from that assms(3) have "map_of results x = Some y" by (auto split: if_splits)
    with that assms(1) obtain k' r' where "map_of results k' = Some r'" "res_status r' = SCancelled"
      by (auto simp: results_ok_def)
    with assms(4) have "((map_of results)(k \<mapsto> r)) k' = Some r'" by auto
    with \<open>res_status r' = SCancelled\<close> show ?thesis by blast
  qed
  have "wf_map (AList.update k r results)" using assms(1) by (simp add: results_ok_def wf_map_update)
  moreover have "res_id y = x \<and> res_status y \<in> {SSucceeded, SCancelled, SSkipped}"
    if "((map_of results)(k \<mapsto> r)) x = Some y" for x y
    using that assms(1-3) by (auto simp: results_ok_def split: if_splits)
  ultimately show ?thesis using skip unfolding results_ok_def upd by blast
qed

lemma results_ok_skip:
  assumes "results_ok results" "res_id r = k" "res_status r = SSkipped" "map_of results k = None"
  and d: "d \<in> dom (map_of results)" "\<not> succeeded results d"
  shows "results_ok (AList.update k r results)"
proof -
  have upd: "map_of (AList.update k r results) = (map_of results)(k \<mapsto> r)" by (rule update_conv')
  obtain v where v: "map_of results d = Some v" using d(1) by blast
  with d(2) assms(1) have "res_status v \<in> {SCancelled, SSkipped}" by (fastforce simp: results_ok_def succeeded_def)
  with v assms(1) obtain k' r' where c: "map_of results k' = Some r'" "res_status r' = SCancelled"
    by (fastforce simp: results_ok_def)
  with assms(4) have "map_of (AList.update k r results) k' = Some r'" by (auto simp: upd)
  with c(2) have "\<exists>k' r'. map_of (AList.update k r results) k' = Some r' \<and> res_status r' = SCancelled" by blast
  moreover have "wf_map (AList.update k r results)" using assms(1) by (simp add: results_ok_def wf_map_update)
  moreover have "res_id y = x \<and> res_status y \<in> {SSucceeded, SCancelled, SSkipped}"
    if "map_of (AList.update k r results) x = Some y" for x y
    using that assms(1-3) by (auto simp: upd results_ok_def split: if_splits)
  ultimately show ?thesis unfolding results_ok_def by blast
qed

lemma succeeded_mono: "map_of results \<subseteq>\<^sub>m map_of results' \<Longrightarrow> succeeded results d \<Longrightarrow> succeeded results' d"
  by (auto simp: succeeded_def map_le_def dom_def)

lemma update_mono: "map_of results k = None \<Longrightarrow> map_of results \<subseteq>\<^sub>m map_of (AList.update k r results)"
  by (auto simp: map_le_def update_conv')

lemma set_drop_step: "set (drop_step s pending) = {t \<in> set pending. step_id t \<noteq> step_id s}"
  by (auto simp: drop_step_def)

lemma distinct_drop: "distinct (map step_id pending) \<Longrightarrow> distinct (map step_id (drop_step s pending))"
  unfolding drop_step_def by (rule distinct_map_filter)

lemma ids_drop: "ids (drop_step s pending) = ids pending - {step_id s}"
  by (auto simp: set_drop_step)

lemma set_fold_drop: "set (fold drop_step ss pending) = {t \<in> set pending. step_id t \<notin> ids ss}"
  by (induction ss arbitrary: pending) (auto simp: set_drop_step)

lemma ids_fold_drop: "ids (fold drop_step ss pending) = ids pending - ids ss"
  by (auto simp: set_fold_drop)

lemma distinct_fold_drop: "distinct (map step_id pending) \<Longrightarrow> distinct (map step_id (fold drop_step ss pending))"
  by (induction ss arbitrary: pending) (simp_all add: distinct_drop)

lemma split_ok_move:
  assumes "split_ok plan results pending W" "s \<in> set pending"
  shows "split_ok plan (AList.update (step_id s) r results) (drop_step s pending) W"
  using assms unfolding split_ok_def
  by (simp add: update_conv' ids_drop distinct_drop) (auto simp: set_drop_step)

lemma pending_no_result: "split_ok plan results pending W \<Longrightarrow> s \<in> set pending \<Longrightarrow> map_of results (step_id s) = None"
  unfolding split_ok_def by blast

text \<open>Skipping keeps the books.\<close>

lemma skip_blocked_ok:
  assumes "set ready \<subseteq> set pending" "distinct (map step_id ready)" "split_ok plan results pending W" "results_ok results"
  and "\<forall>s \<in> set ready. set (dependsOn s) \<subseteq> dom (map_of results)"
  and "skip_blocked ready results pending = (results', pending')"
  shows "split_ok plan results' pending' W \<and> results_ok results' \<and> map_of results \<subseteq>\<^sub>m map_of results'"
  using assms
proof (induction ready results pending rule: skip_blocked.induct)
  case (1 results pending)
  then show ?case by simp
next
  case (2 s ready results pending)
  show ?case
  proof (cases "blocked_by_failure results s")
    case False
    with 2 show ?thesis by simp
  next
    case True
    let ?r = "AList.update (step_id s) (step_result s SSkipped NotChecked) results"
    from True obtain d where d: "d \<in> set (dependsOn s)" "\<not> succeeded results d"
      by (auto simp: blocked_by_failure_def succeeded_def list_ex_iff)
    have s: "s \<in> set pending" using "2.prems"(1) by simp
    have none: "map_of results (step_id s) = None" by (rule pending_no_result [OF "2.prems"(3) s])
    have ok: "results_ok ?r"
      by (rule results_ok_skip [OF "2.prems"(4) _ _ none]) (use d "2.prems"(5) in \<open>auto simp: step_result_def\<close>)
    have "split_ok plan results' pending' W \<and> results_ok results' \<and> map_of ?r \<subseteq>\<^sub>m map_of results'"
    proof (rule "2.IH"(1) [OF True])
      show "set ready \<subseteq> set (drop_step s pending)" using "2.prems"(1,2) by (auto simp: set_drop_step) (metis imageI)
      show "split_ok plan ?r (drop_step s pending) W" by (rule split_ok_move [OF "2.prems"(3) s])
      show "skip_blocked ready ?r (drop_step s pending) = (results', pending')" using "2.prems"(6) True by simp
      show "\<forall>t \<in> set ready. set (dependsOn t) \<subseteq> dom (map_of ?r)" using "2.prems"(5) by (auto simp: update_conv')
    qed (use "2.prems"(2) ok in simp_all)
    with update_mono [OF none] show ?thesis by (blast intro: map_le_trans)
  qed
qed

section \<open>A plan always has a next step\<close>

lemma deps_of_step:
  assumes "distinct (map step_id ss)" "s \<in> set ss"
  shows "deps_of ss (step_id s) = dependsOn s"
  using assms
proof (induction ss)
  case (Cons x ss)
  then show ?case by (auto simp: deps_of_def)
qed simp

lemma topo_next:
  "topo ss ys \<Longrightarrow> \<not> set ys \<subseteq> A \<Longrightarrow> \<exists>x \<in> set ys. x \<notin> A \<and> set (deps_of ss x) \<subseteq> A"
proof (induction ys)
  case (Cons y ys)
  show ?case
  proof (cases "set ys \<subseteq> A")
    case True
    with Cons.prems show ?thesis by (intro bexI [of _ y]) auto
  next
    case False
    with Cons show ?thesis by auto
  qed
qed simp

lemma some_ready:
  assumes v: "valid_steps ss sids" and p: "set pending \<subseteq> set ss" "pending \<noteq> []"
  and A: "A \<union> ids pending = ids ss" "A \<inter> ids pending = {}"
  shows "\<exists>s \<in> set pending. set (dependsOn s) \<subseteq> A"
proof -
  have "ensureAcyclic ss = Some (Inr ())" using v by (simp add: acyclic_check valid_steps_def)
  then obtain ys where ys: "topo ss ys" "set ys = ids ss" using ensureAcyclic_order by blast
  have "\<not> set ys \<subseteq> A" using p A ys(2) by (cases pending) auto
  from topo_next [OF ys(1) this] obtain x where x: "x \<in> ids ss" "x \<notin> A" "set (deps_of ss x) \<subseteq> A"
    using ys(2) by auto
  then obtain s where s: "s \<in> set pending" "x = step_id s" using A by blast
  then have "deps_of ss x = dependsOn s" using v p(1) by (auto simp: valid_steps_def deps_of_step)
  with s x(3) show ?thesis by auto
qed

section \<open>The loop\<close>

definition keyed :: "step_results \<Rightarrow> bool" where
  "keyed results \<longleftrightarrow> (\<forall>k r. map_of results k = Some r \<longrightarrow> res_id r = k)"

lemma results_ok_keyed: "results_ok results \<Longrightarrow> keyed results"
  by (simp add: results_ok_def keyed_def)

lemma keyed_update: "keyed results \<Longrightarrow> res_id r = k \<Longrightarrow> keyed (AList.update k r results)"
  by (auto simp: keyed_def update_conv' split: if_splits)

text \<open>The results in the order of the plan, each once.\<close>

lemma collected_ids:
  assumes "keyed results"
  shows "map res_id (collected plan results) = filter (\<lambda>i. i \<in> dom (map_of results)) (map step_id (steps plan))"
proof -
  have "map res_id (concat (map (\<lambda>s. case map_of results (step_id s) of None \<Rightarrow> [] | Some r \<Rightarrow> [r]) ss)) =
      filter (\<lambda>i. i \<in> dom (map_of results)) (map step_id ss)" for ss
    using assms by (induction ss) (auto simp: keyed_def split: option.splits)
  then show ?thesis by (simp add: collected_def)
qed

lemma collected_all:
  assumes "keyed results" "ids (steps plan) \<subseteq> dom (map_of results)"
  shows "map res_id (collected plan results) = map step_id (steps plan)"
  unfolding collected_ids [OF assms(1)] by (rule filter_True) (use assms(2) in auto)

lemma collected_status: "r \<in> set (collected plan results) \<Longrightarrow> \<exists>s \<in> set (steps plan). map_of results (step_id s) = Some r"
  by (auto simp: collected_def split: option.splits)

text \<open>What a returned result says of the steps.\<close>

definition good_result :: "control_plan \<Rightarrow> control_plan_result \<Rightarrow> bool" where
  "good_result plan r \<longleftrightarrow>
     (\<exists>A. map res_id (pr_steps r) = filter (\<lambda>i. i \<in> A) (map step_id (steps plan))) \<and>
     (pr_status r \<in> {PCompleted, PCancelled} \<longrightarrow> map res_id (pr_steps r) = map step_id (steps plan)) \<and>
     (pr_status r = PCompleted \<longrightarrow>
        (\<forall>x \<in> set (pr_steps r). res_status x \<in> {SSucceeded, SCancelled, SSkipped}) \<and>
        ((\<forall>x \<in> set (pr_steps r). res_status x \<noteq> SCancelled) \<longrightarrow> (\<forall>x \<in> set (pr_steps r). res_status x = SSucceeded)))"

lemma plan_result_sel [simp]:
  "pr_status (plan_result cx st results ob e cp) = st" "pr_error (plan_result cx st results ob e cp) = e"
  "pr_steps (plan_result cx st results ob e cp) = collected (cx_plan cx) results"
  by (simp_all add: plan_result_def)

lemma good_result_plain:
  "keyed results \<Longrightarrow> st \<noteq> PCompleted \<Longrightarrow> (st = PCancelled \<Longrightarrow> ids (steps plan) \<subseteq> dom (map_of results)) \<Longrightarrow> cx_plan cx = plan \<Longrightarrow>
     good_result plan (plan_result cx st results ob e cp)"
  using collected_ids [of results plan] collected_all [of results plan] by (auto simp: good_result_def)

lemma good_result_completed:
  assumes "results_ok results" "dom (map_of results) = ids (steps plan)" "cx_plan cx = plan"
  shows "good_result plan (plan_result cx PCompleted results ob e cp)"
proof -
  have k: "keyed results" using assms(1) by (rule results_ok_keyed)
  have st: "res_status x \<in> {SSucceeded, SCancelled, SSkipped}" if "x \<in> set (collected plan results)" for x
    using collected_status [OF that] assms(1) by (auto simp: results_ok_def)
  have all: "res_status x = SSucceeded"
    if x: "x \<in> set (collected plan results)" and nc: "\<forall>y \<in> set (collected plan results). res_status y \<noteq> SCancelled" for x
  proof (rule ccontr)
    assume "res_status x \<noteq> SSucceeded"
    with st [OF x] nc x have "res_status x = SSkipped" by blast
    with collected_status [OF x] assms(1) obtain k' r' where c: "map_of results k' = Some r'" "res_status r' = SCancelled"
      unfolding results_ok_def by blast
    then obtain s where "s \<in> set (steps plan)" "k' = step_id s" using assms(2) by blast
    with c(1) have "r' \<in> set (collected plan results)" by (force simp: collected_def)
    with nc c(2) show False by blast
  qed
  show ?thesis
    unfolding good_result_def plan_result_sel assms(3)
  proof (intro conjI impI)
    show "\<exists>A. map res_id (collected plan results) = filter (\<lambda>i. i \<in> A) (map step_id (steps plan))"
      using collected_ids [OF k] by blast
    show "map res_id (collected plan results) = map step_id (steps plan)"
      using collected_all [OF k, of plan] assms(2) by simp
    show "\<forall>x \<in> set (collected plan results). res_status x \<in> {SSucceeded, SCancelled, SSkipped}" using st by blast
    show "\<forall>x \<in> set (collected plan results). res_status x = SSucceeded"
      if "\<forall>x \<in> set (collected plan results). res_status x \<noteq> SCancelled" using all that by blast
  qed
qed

lemma mark_all_map:
  "map_of (mark_all st ss results) k =
     (if k \<in> ids ss then Some \<lparr>res_id = k, res_status = st, res_postcondition = NotChecked\<rparr> else map_of results k)"
proof (induction ss arbitrary: results)
  case (Cons s ss)
  have "mark_all st (s # ss) results = mark_all st ss (AList.update (step_id s) (step_result s st NotChecked) results)"
    by (simp add: mark_all_def)
  then show ?case by (auto simp: Cons update_conv' step_result_def)
qed (simp add: mark_all_def)

lemma mark_all_keyed: "keyed results \<Longrightarrow> keyed (mark_all st ss results)"
  by (auto simp: keyed_def mark_all_map split: if_splits)

lemma mark_all_mono:
  "split_ok plan results pending W \<Longrightarrow> map_of results \<subseteq>\<^sub>m map_of (mark_all st pending results)"
  by (auto simp: map_le_def mark_all_map dest: pending_no_result)

lemma mark_all_dom: "dom (map_of (mark_all st ss results)) = dom (map_of results) \<union> ids ss"
  by (auto simp: mark_all_map)

text \<open>What the loop decides is in order; the branch of the dependency deadlock is never taken.\<close>

fun loop_ok :: "control_plan \<Rightarrow> step_results \<Rightarrow> decision \<Rightarrow> bool" where
  "loop_ok plan results0 (DReturn results r) \<longleftrightarrow>
     map_of results0 \<subseteq>\<^sub>m map_of results \<and> good_result plan r \<and> keyed results \<and> pr_error r \<noteq> Some deadlock_error"
| "loop_ok plan results0 (DOutput results) \<longleftrightarrow>
     map_of results0 \<subseteq>\<^sub>m map_of results \<and> results_ok results \<and> dom (map_of results) = ids (steps plan)"
| "loop_ok plan results0 (DWave results wave pending) \<longleftrightarrow>
     map_of results0 \<subseteq>\<^sub>m map_of results \<and> results_ok results \<and> split_ok plan results pending (ids wave) \<and>
     distinct (map step_id wave) \<and> set wave \<subseteq> set (steps plan) \<and>
     (\<forall>s \<in> set wave. \<forall>d \<in> set (dependsOn s). succeeded results d)"

lemma loop_ok_mono: "map_of r0 \<subseteq>\<^sub>m map_of r1 \<Longrightarrow> loop_ok plan r1 d \<Longrightarrow> loop_ok plan r0 d"
  by (cases d) (auto intro: map_le_trans)

lemma set_ready: "set (ready_steps results pending) = {s \<in> set pending. set (dependsOn s) \<subseteq> dom (map_of results)}"
  by (auto simp: ready_steps_def list_all_iff)

lemma failed_result_ok:
  assumes "results_ok results" "case step of None \<Rightarrow> True | Some s \<Rightarrow> map_of results (step_id s) = None" "cx_plan cx = plan"
    "e \<noteq> deadlock_error" "failed_result cx results step e = (results', r)"
  shows "loop_ok plan results (DReturn results' r)"
proof -
  have k: "keyed results" using assms(1) by (rule results_ok_keyed)
  define st where "st = (if length results' > 1 then PPartial else PFailed)"
  have st: "st \<in> {PPartial, PFailed}" by (simp add: st_def)
  have r: "r = plan_result cx st results' None (Some e) None"
    using assms(5) by (auto simp: failed_result_def Let_def st_def)
  have res: "results' = (case step of None \<Rightarrow> results
      | Some s \<Rightarrow> AList.update (step_id s) (step_result s SFailed NotChecked) results)"
    using assms(5) by (simp add: failed_result_def Let_def)
  have k': "keyed results'" using k by (auto simp: res step_result_def intro!: keyed_update split: option.splits)
  have "map_of results \<subseteq>\<^sub>m map_of results'" using assms(2) by (cases step) (auto simp: res map_le_def)
  moreover have "good_result plan r" unfolding r by (rule good_result_plain [OF k']) (use st assms(3) in auto)
  ultimately show ?thesis using k' assms(4) by (simp add: r)
qed

lemma plan_loop_ok:
  assumes "valid_steps (steps (cx_plan cx)) sids" "results_ok results" "split_ok (cx_plan cx) results pending {}"
  shows "loop_ok (cx_plan cx) results (plan_loop cx cancelled clk i results pending)"
  using assms
proof (induction cx cancelled clk i results pending rule: plan_loop.induct)
  case (1 cx cancelled clk i results pending)
  let ?plan = "cx_plan cx"
  note split = "1.prems"(3)
  note none = pending_no_result [OF split]
  have k: "keyed results" using "1.prems"(2) by (rule results_ok_keyed)
  consider (empty) "pending = []"
    | (cancel) "pending \<noteq> []" "cancelled"
    | (late) "pending \<noteq> []" "\<not> cancelled" "clk i - cx_started cx \<ge> deadlineMs ?plan"
    | (go) "pending \<noteq> []" "\<not> cancelled" "\<not> clk i - cx_started cx \<ge> deadlineMs ?plan" by blast
  then show ?case
  proof cases
    case empty
    with "1.prems" show ?thesis by (simp add: plan_loop.simps [of _ _ _ _ _ "[]"] split_ok_def)
  next
    case cancel
    have "good_result ?plan (plan_result cx PCancelled (mark_all SCancelled pending results) None None None)"
      by (rule good_result_plain [OF mark_all_keyed [OF k]]) (use split in \<open>auto simp: mark_all_dom split_ok_def\<close>)
    with cancel mark_all_mono [OF split] mark_all_keyed [OF k] show ?thesis
      by (simp add: plan_loop.simps [of _ _ _ _ _ pending] Let_def)
  next
    case late
    obtain results' r where f: "failed_result cx results (Some (hd pending)) (deadline_error (hd pending)) = (results', r)" by fastforce
    have "loop_ok ?plan results (DReturn results' r)"
      by (rule failed_result_ok [OF "1.prems"(2) _ refl _ f])
         (use late none in \<open>auto simp: deadline_error_def deadlock_error_def\<close>)
    with late f show ?thesis by (simp add: plan_loop.simps [of _ _ _ _ _ pending])
  next
    case go
    let ?ready = "ready_steps results pending"
    obtain s where "s \<in> set ?ready"
      using some_ready [OF "1.prems"(1) _ go(1), of "dom (map_of results)"] split
      by (auto simp: set_ready split_ok_def)
    then have ready: "?ready \<noteq> []" by auto
    obtain results' pending' where sk: "skip_blocked ?ready results pending = (results', pending')" by fastforce
    have sub: "set ?ready \<subseteq> set pending" and dist: "distinct (map step_id ?ready)"
      using split by (auto simp: ready_steps_def split_ok_def intro: distinct_map_filter)
    have skip: "split_ok ?plan results' pending' {} \<and> results_ok results' \<and> map_of results \<subseteq>\<^sub>m map_of results'"
      by (rule skip_blocked_ok [OF sub dist split "1.prems"(2) _ sk]) (simp add: set_ready)
    show ?thesis
    proof (cases "length pending' < length pending")
      case True
      have "loop_ok ?plan results' (plan_loop cx cancelled clk (Suc i) results' pending')"
        by (rule "1.IH" [OF go refl ready sk [symmetric] True]) (use "1.prems"(1) skip in auto)
      then have "loop_ok ?plan results (plan_loop cx cancelled clk (Suc i) results' pending')"
        using skip loop_ok_mono by blast
      with go ready sk True show ?thesis by (simp add: plan_loop.simps [of _ _ _ _ _ pending] Let_def)
    next
      case False
      then have nb: "\<not> list_ex (blocked_by_failure results) ?ready"
        using skip_blocked_less [OF sub, of results] sk by simp
      have same: "skip_blocked rs results ps = (results, ps)" if "\<not> list_ex (blocked_by_failure results) rs" for rs ps
        using that by (induction rs) auto
      from same [OF nb] sk have eq: "results' = results" "pending' = pending" by simp_all
      define wave where "wave = take (nat (maxConcurrency ?plan)) ?ready"
      have wsub: "set wave \<subseteq> set ?ready" by (simp add: wave_def set_take_subset)
      have wdist: "distinct (map step_id wave)" using dist by (simp add: wave_def take_map [symmetric])
      have "split_ok ?plan results (fold drop_step wave pending) (ids wave)"
      proof -
        have "ids wave \<subseteq> ids pending" using wsub sub by blast
        moreover have "set (fold drop_step wave pending) \<subseteq> set pending" by (auto simp: set_fold_drop)
        moreover have sets: "D \<inter> (I - V) = {} \<and> D \<inter> V = {} \<and> (I - V) \<inter> V = {} \<and> D \<union> (I - V) \<union> V = T"
          if "D \<inter> I = {}" "D \<union> I = T" "V \<subseteq> I" for D I V T :: "string set" using that by blast
        ultimately show ?thesis
          using split distinct_fold_drop [of pending wave] sets [of "dom (map_of results)" "ids pending" _ "ids wave"]
          unfolding split_ok_def ids_fold_drop by (metis (no_types, lifting) Un_empty_right subset_trans)
      qed
      moreover have "\<forall>s \<in> set wave. \<forall>d \<in> set (dependsOn s). succeeded results d"
        using nb wsub by (auto simp: list_ex_iff blocked_by_failure_def succeeded_def)
      moreover have "set wave \<subseteq> set (steps ?plan)" using wsub sub split by (auto simp: split_ok_def)
      ultimately have "loop_ok ?plan results (DWave results wave (fold drop_step wave pending))"
        using "1.prems"(2) wdist by simp
      with go ready sk False eq show ?thesis
        by (simp add: plan_loop.simps [of _ _ _ _ _ pending] Let_def wave_def)
    qed
  qed
qed

section \<open>Returning, launching and settling\<close>

fun status_ok :: "control_plan \<Rightarrow> exec_status \<Rightarrow> bool" where
  "status_ok plan Running = False"
| "status_ok plan (Returned r) = good_result plan r"
| "status_ok plan (Rejected e) = True"

lemma finish_plan_cases:
  "finish_plan cx clk r w = (res, w') \<Longrightarrow> quiet w w' \<and> (\<forall>r'. res = Inr r' \<longrightarrow> r' = r)"
  by (auto simp: finish_plan_def bindS_def retS_def dest!: on_journal_quiet split: prod.splits sum.splits)

lemma catch_plan_ok:
  assumes "catch_plan cx clk results e w = (st, w')" "keyed results"
  shows "status_ok (cx_plan cx) st \<and> quiet w w'"
proof -
  have good: "good_result (cx_plan cx) (plan_result cx PFailed results None (Some (asControlError e None)) None)"
    by (rule good_result_plain [OF assms(2)]) auto
  obtain res w1 where f: "finish_plan cx clk (plan_result cx PFailed results None (Some (asControlError e None)) None) w = (res, w1)"
    by fastforce
  with finish_plan_cases [OF f] good assms(1) show ?thesis
    by (cases res) (auto simp: catch_plan_def)
qed

lemma return_plan_ok:
  assumes "return_plan cx clk results r w = (st, w')" "keyed results" "good_result (cx_plan cx) r"
  shows "status_ok (cx_plan cx) st \<and> quiet w w'"
proof -
  obtain res w1 where f: "finish_plan cx clk r w = (res, w1)" by fastforce
  from finish_plan_cases [OF f] have q: "quiet w w1" "\<And>r'. res = Inr r' \<Longrightarrow> r' = r" by auto
  show ?thesis
  proof (cases res)
    case (Inl e)
    with assms(1) f have "catch_plan cx (shift 2 clk) results e w1 = (st, w')" by (simp add: return_plan_def)
    from catch_plan_ok [OF this assms(2)] q(1) show ?thesis by (auto intro: quiet_trans)
  next
    case (Inr r')
    with assms f q show ?thesis by (auto simp: return_plan_def)
  qed
qed

lemma plan_output_quiet: "plan_output_of cx clk w = (res, w') \<Longrightarrow> quiet w w'"
proof -
  have bind: "quiet w w2" if "bindS (on_store m) f w = (r, w2)" "\<And>x w r w'. f x w = (r, w') \<Longrightarrow> quiet w w'"
    for m :: "'b store_op" and f :: "'b \<Rightarrow> ('a, 'c) world_op" and w r w2
    using that by (cases "on_store m w"; cases "fst (on_store m w)")
      (auto simp: bindS_def dest!: on_store_quiet intro: quiet_trans)
  have ret: "quiet w w'" if "retS x w = (r, w')" for x :: 'd and w w' :: "'a world" and r :: "thrown + 'd"
    using that by (simp add: retS_def quiet_def)
  show "plan_output_of cx clk w = (res, w') \<Longrightarrow> quiet w w'"
    unfolding plan_output_of_def
    by (auto split: list.splits if_splits option.splits intro: ret elim!: bind)
qed

text \<open>What the scheduler knows of a task.\<close>

definition ticket_ok :: "scheduler \<Rightarrow> task \<Rightarrow> bool" where
  "ticket_ok s t \<longleftrightarrow> ta_ticket t < length (runs s) \<and>
     run_keys (runs s ! ta_ticket t) = [''surface:'' @ step_surfaceId (ta_step t)] \<and>
     phase_of s (ta_ticket t) =
       (if ta_state t = TWaiting then RWaiting else if settled_task (ta_state t) then RFinished else RActive)"

lemma enqueue_run:
  "enqueue keys s = (t, s') \<Longrightarrow> t = length (runs s) \<and> length (runs s') = Suc t \<and>
     run_keys (runs s' ! t) = resources keys \<and> phase_of s' t = RWaiting \<and> (\<forall>u < t. runs s' ! u = runs s ! u)"
  by (auto simp: enqueue_def Let_def nth_append)

lemma resources_single: "resources [k] = [k]"
  by (simp add: resources_def)

lemma launch_ok:
  "launch ss s = (ts, s') \<Longrightarrow> sched_inv s \<Longrightarrow>
     sched_inv s' \<and> map ta_step ts = ss \<and> (\<forall>t \<in> set ts. ta_state t = TWaiting \<and> ticket_ok s' t) \<and>
     map ta_ticket ts = [length (runs s)..<length (runs s')] \<and> length (runs s) \<le> length (runs s') \<and>
     (\<forall>u < length (runs s). runs s' ! u = runs s ! u)"
proof (induction ss s arbitrary: ts s' rule: launch.induct)
  case (2 st ss s)
  obtain t s1 where e: "enqueue [''surface:'' @ step_surfaceId st] s = (t, s1)" by fastforce
  obtain ts1 s2 where l: "launch ss s1 = (ts1, s2)" by fastforce
  have inv: "sched_inv s1" using enqueue_inv [OF "2.prems"(2), of "[''surface:'' @ step_surfaceId st]"] e by simp
  note IH = "2.IH" [OF e [symmetric] l inv]
  have ts: "ts = \<lparr>ta_step = st, ta_ticket = t, ta_state = TWaiting\<rparr> # ts1" "s' = s2"
    using "2.prems"(1) e l by simp_all
  note r = enqueue_run [OF e, unfolded resources_single]
  have "runs s2 ! t = runs s1 ! t" using IH r by simp
  then have "ticket_ok s2 \<lparr>ta_step = st, ta_ticket = t, ta_state = TWaiting\<rparr>"
    using IH r by (auto simp: ticket_ok_def)
  moreover have "[length (runs s)..<length (runs s2)] = t # [length (runs s1)..<length (runs s2)]"
    using IH r by (simp add: upt_conv_Cons)
  ultimately show ?case using IH r ts by simp
qed simp

definition task_ok :: "task \<Rightarrow> bool" where
  "task_ok t \<longleftrightarrow> own_result (ta_step t) (ta_state t)"

lemma update_dom: "dom (map_of (AList.update k r results)) = insert k (dom (map_of results))"
  by (simp add: update_conv')

lemma settle_wave_ok:
  assumes "settle_wave cx clk i ts results first w = (out, results', w')"
  and "keyed results" "\<forall>t \<in> set ts. task_ok t \<and> settled_task (ta_state t)"
  and "distinct (map (step_id \<circ> ta_step) ts)" "\<forall>t \<in> set ts. map_of results (step_id (ta_step t)) = None"
  shows "keyed results' \<and> map_of results \<subseteq>\<^sub>m map_of results' \<and> quiet w w' \<and>
    (\<forall>f. out = Inr f \<longrightarrow> dom (map_of results') = dom (map_of results) \<union> (step_id \<circ> ta_step) ` set ts \<and>
       (f = None \<longrightarrow> first = None \<and> (results_ok results \<longrightarrow> results_ok results')))"
  using assms
proof (induction ts arbitrary: i results first w)
  case Nil
  then show ?case by (auto simp: quiet_def)
next
  case (Cons t ts)
  let ?id = "step_id (ta_step t)"
  have none: "map_of results ?id = None" using Cons.prems(5) by simp
  have rest: "\<forall>u \<in> set ts. map_of (AList.update ?id r results) (step_id (ta_step u)) = None" for r
  proof
    fix u assume u: "u \<in> set ts"
    then have "step_id (ta_step u) \<noteq> ?id" using Cons.prems(4) by (force simp: image_iff)
    then show "map_of (AList.update ?id r results) (step_id (ta_step u)) = None"
      using Cons.prems(5) u by (simp add: update_conv')
  qed
  from Cons.prems(3) obtain v where v: "ta_state t = TSettled v"
    by (cases "ta_state t") auto
  show ?case
  proof (cases v)
    case (Inr r)
    have own: "res_id r = ?id" "res_status r \<in> {SSucceeded, SCancelled}"
      using Cons.prems(3) v Inr by (auto simp: task_ok_def own_result_def)
    have call: "settle_wave cx clk i ts (AList.update ?id r results) first w = (out, results', w')"
      using Cons.prems(1) v Inr by simp
    have IH: "keyed results' \<and> map_of (AList.update ?id r results) \<subseteq>\<^sub>m map_of results' \<and> quiet w w' \<and>
        (\<forall>f. out = Inr f \<longrightarrow> dom (map_of results') = dom (map_of (AList.update ?id r results)) \<union> (step_id \<circ> ta_step) ` set ts \<and>
           (f = None \<longrightarrow> first = None \<and> (results_ok (AList.update ?id r results) \<longrightarrow> results_ok results')))"
      by (rule Cons.IH [OF call keyed_update [OF Cons.prems(2) own(1)] _ _ rest]) (use Cons.prems(3,4) in simp_all)
    have "results_ok results \<Longrightarrow> results_ok (AList.update ?id r results)"
      by (rule results_ok_update [OF _ own none])
    moreover have "map_of results \<subseteq>\<^sub>m map_of results'"
      using IH by (intro map_le_trans [OF update_mono [OF none, of r]]) blast
    ultimately show ?thesis using IH unfolding update_dom by auto
  next
    case (Inl reason)
    define e where "e = asControlError reason (Some ?id)"
    define r where "r = step_result (ta_step t) (failedStepStatus e) NotChecked"
    define m :: "('a, unit) world_op" where "m = on_journal (journal_recordStep (cx_ps cx) (cx_iso cx (clk i)) (cx_owner cx) (cx_planId cx) ?id
               (kind_text (action_kind (step_action (ta_step t))))
               (case err_dispatchState e of NotDispatched \<Rightarrow> ''notDispatched'' | Dispatched \<Rightarrow> ''dispatched''
                | UnknownDispatch \<Rightarrow> ''unknown'')
               (if err_dispatchState e = UnknownDispatch then ''unknown'' else ''failed''))"
    obtain res w1 where m: "m w = (res, w1)" by fastforce
    then have q: "quiet w w1" unfolding m_def by (rule on_journal_quiet)
    show ?thesis
    proof (cases res)
      case (Inl e')
      with Cons.prems(1,2) v \<open>v = Inl reason\<close> m q show ?thesis
        by (auto simp: Let_def e_def [symmetric] m_def [symmetric])
    next
      case (Inr u)
      define first' where "first' = (case first of None \<Rightarrow> Some e | Some f \<Rightarrow> Some f)"
      have call: "settle_wave cx clk (Suc i) ts (AList.update ?id r results) first' w1 = (out, results', w')"
        using Cons.prems(1) v \<open>v = Inl reason\<close> m Inr
        by (cases first) (simp_all add: Let_def e_def [symmetric] m_def [symmetric] r_def first'_def)
      have "res_id r = ?id" by (simp add: r_def step_result_def)
      then have IH: "keyed results' \<and> map_of (AList.update ?id r results) \<subseteq>\<^sub>m map_of results' \<and> quiet w1 w' \<and>
          (\<forall>f. out = Inr f \<longrightarrow> dom (map_of results') = dom (map_of (AList.update ?id r results)) \<union> (step_id \<circ> ta_step) ` set ts \<and>
             (f = None \<longrightarrow> first' = None \<and> (results_ok (AList.update ?id r results) \<longrightarrow> results_ok results')))"
        by (intro Cons.IH [OF call keyed_update [OF Cons.prems(2)] _ _ rest]) (use Cons.prems(3,4) in simp_all)
      have "first' \<noteq> None" by (simp add: first'_def split: option.splits)
      moreover have "map_of results \<subseteq>\<^sub>m map_of results'"
        using IH by (intro map_le_trans [OF update_mono [OF none, of r]]) blast
      ultimately show ?thesis using IH q quiet_trans unfolding update_dom by auto
    qed
  qed
qed

section \<open>The invariant of an execution\<close>

definition log_ok :: "control_plan \<Rightarrow> step_results \<Rightarrow> dispatch list \<Rightarrow> bool" where
  "log_ok plan results log \<longleftrightarrow> distinct (map (step_id \<circ> di_step) log) \<and>
     (\<forall>d \<in> set log. di_step d \<in> set (steps plan) \<and> dispatch_ok d \<and>
        (\<forall>q \<in> set (dependsOn (di_step d)). succeeded results q))"

definition log_placed :: "step_results \<Rightarrow> task list \<Rightarrow> dispatch list \<Rightarrow> bool" where
  "log_placed results wave log \<longleftrightarrow>
     (\<forall>d \<in> set log. step_id (di_step d) \<in> dom (map_of results) \<or>
        (\<exists>t \<in> set wave. step_id (ta_step t) = step_id (di_step d) \<and> \<not> undispatched (ta_state t)))"

definition wave_ok :: "control_plan \<Rightarrow> step_results \<Rightarrow> scheduler \<Rightarrow> task list \<Rightarrow> bool" where
  "wave_ok plan results s wave \<longleftrightarrow>
     distinct (map (step_id \<circ> ta_step) wave) \<and> distinct (map ta_ticket wave) \<and>
     (\<forall>t \<in> set wave. ticket_ok s t \<and> task_ok t \<and> ta_step t \<in> set (steps plan) \<and>
        (\<forall>d \<in> set (dependsOn (ta_step t)). succeeded results d))"

definition running_ok :: "'p exec \<Rightarrow> bool" where
  "running_ok x \<longleftrightarrow>
     results_ok (ex_results x) \<and>
     split_ok (cx_plan (ex_ctx x)) (ex_results x) (ex_pending x) ((step_id \<circ> ta_step) ` set (ex_wave x)) \<and>
     wave_ok (cx_plan (ex_ctx x)) (ex_results x) (ex_sched x) (ex_wave x) \<and>
     log_placed (ex_results x) (ex_wave x) (w_dispatches (ex_world x))"

definition exec_inv :: "control_plan \<Rightarrow> 'p exec \<Rightarrow> bool" where
  "exec_inv plan x \<longleftrightarrow> cx_plan (ex_ctx x) = plan \<and> sched_inv (ex_sched x) \<and>
     log_ok plan (ex_results x) (w_dispatches (ex_world x)) \<and>
     (if ex_status x = Running then running_ok x else status_ok plan (ex_status x))"

lemma log_ok_mono: "map_of results \<subseteq>\<^sub>m map_of results' \<Longrightarrow> log_ok plan results log \<Longrightarrow> log_ok plan results' log"
  by (auto simp: log_ok_def intro: succeeded_mono)

lemma log_placed_all:
  "log_placed results wave log \<Longrightarrow> dom (map_of results) \<union> (step_id \<circ> ta_step) ` set wave \<subseteq> dom (map_of results') \<Longrightarrow>
     log_placed results' wave' log"
  unfolding log_placed_def by (metis (mono_tags, lifting) UnCI comp_apply image_eqI subsetD)

text \<open>One turn of the loop from a state without a wave.\<close>

lemma decide_inv:
  assumes plan: "cx_plan (ex_ctx x) = plan" and s: "sched_inv (ex_sched x)" and run: "ex_status x = Running"
  and log: "log_ok plan results0 (w_dispatches (ex_world x))" "log_placed results0 [] (w_dispatches (ex_world x))"
  and d: "loop_ok plan results0 d"
  shows "exec_inv plan (decide clk d x)"
proof (cases d)
  case (DReturn results r)
  obtain st w where r: "return_plan (ex_ctx x) clk results r (ex_world x) = (st, w)" by fastforce
  from d DReturn have "keyed results" "good_result (cx_plan (ex_ctx x)) r" "map_of results0 \<subseteq>\<^sub>m map_of results"
    by (simp_all add: plan)
  with return_plan_ok [OF r] log log_ok_mono [of results0 results plan] plan s DReturn r show ?thesis
    by (auto simp: decide_def exec_inv_def quiet_def)
next
  case (DOutput results)
  obtain res w where o': "plan_output_of (ex_ctx x) clk (ex_world x) = (res, w)" by fastforce
  then have q: "quiet (ex_world x) w" by (rule plan_output_quiet)
  from d DOutput have ok: "results_ok results" "dom (map_of results) = ids (steps plan)" "map_of results0 \<subseteq>\<^sub>m map_of results"
    by simp_all
  have k: "keyed results" using ok(1) by (rule results_ok_keyed)
  have log': "log_ok plan results (w_dispatches (ex_world x))" using log(1) ok(3) by (blast intro: log_ok_mono)
  show ?thesis
  proof (cases res)
    case (Inl e)
    obtain st w1 where c: "catch_plan (ex_ctx x) clk results e w = (st, w1)" by fastforce
    from catch_plan_ok [OF c k] q log' plan s DOutput o' Inl c show ?thesis
      by (auto simp: decide_def exec_inv_def quiet_def)
  next
    case (Inr ob)
    obtain st w1 where c: "return_plan (ex_ctx x) (shift 4 clk) results (plan_result (ex_ctx x) PCompleted results ob None None) w = (st, w1)"
      by fastforce
    have "good_result (cx_plan (ex_ctx x)) (plan_result (ex_ctx x) PCompleted results ob None None)"
      by (rule good_result_completed [OF ok(1)]) (simp_all add: ok(2) plan)
    from return_plan_ok [OF c k this] q log' plan s DOutput o' Inr c show ?thesis
      by (auto simp: decide_def exec_inv_def quiet_def)
  qed
next
  case (DWave results wave pending)
  obtain ts s' where l: "launch wave (ex_sched x) = (ts, s')" by fastforce
  note L = launch_ok [OF l s]
  from d DWave have ok: "results_ok results" "split_ok plan results pending (ids wave)" "distinct (map step_id wave)"
    "set wave \<subseteq> set (steps plan)" "\<forall>s \<in> set wave. \<forall>d \<in> set (dependsOn s). succeeded results d"
    "map_of results0 \<subseteq>\<^sub>m map_of results"
    by simp_all
  have ids: "(step_id \<circ> ta_step) ` set ts = ids wave" using L by (metis image_comp list.set_map)
  have w: "wave_ok plan results s' ts"
    unfolding wave_ok_def
  proof (intro conjI ballI)
    show "distinct (map (step_id \<circ> ta_step) ts)" using L ok(3) by (metis list.map_comp)
    show "distinct (map ta_ticket ts)" using L by simp
    fix t assume t: "t \<in> set ts"
    then have "ta_step t \<in> set wave" using L by (metis image_eqI list.set_map)
    with ok show "ta_step t \<in> set (steps plan)" "\<And>d. d \<in> set (dependsOn (ta_step t)) \<Longrightarrow> succeeded results d" by auto
    show "ticket_ok s' t" "task_ok t" using L t by (auto simp: task_ok_def own_result_def)
  qed
  have "log_placed results ts (w_dispatches (ex_world x))"
    by (rule log_placed_all [OF log(2)]) (use map_le_implies_dom_le [OF ok(6)] in simp)
  with w ids ok L plan run l DWave log_ok_mono [OF ok(6) log(1)] show ?thesis
    by (simp add: decide_def exec_inv_def running_ok_def)
qed

lemma loop_from_inv:
  assumes v: "valid_steps (steps plan) sids"
  and x: "cx_plan (ex_ctx x) = plan" "sched_inv (ex_sched x)" "ex_status x = Running"
  and r: "results_ok results" "split_ok plan results (ex_pending x) {}"
  and log: "log_ok plan results (w_dispatches (ex_world x))" "log_placed results [] (w_dispatches (ex_world x))"
  shows "exec_inv plan (loop_from clk after results x)"
  unfolding loop_from_def
  by (rule decide_inv [OF x log])
     (use plan_loop_ok [of "ex_ctx x" sids results "ex_pending x"] v x(1) r in simp)

lemma join_inv:
  assumes v: "valid_steps (steps plan) sids" and inv: "exec_inv plan x" and run: "ex_status x = Running"
  and settled: "list_all (\<lambda>t. settled_task (ta_state t)) (ex_wave x)"
  shows "exec_inv plan (join_wave jclk clk after x)"
proof -
  have plan: "cx_plan (ex_ctx x) = plan" and s: "sched_inv (ex_sched x)"
    and log: "log_ok plan (ex_results x) (w_dispatches (ex_world x))" and ok: "running_ok x"
    using inv run by (simp_all add: exec_inv_def)
  have res: "results_ok (ex_results x)" and split: "split_ok plan (ex_results x) (ex_pending x) ((step_id \<circ> ta_step) ` set (ex_wave x))"
    and wave: "wave_ok plan (ex_results x) (ex_sched x) (ex_wave x)"
    and placed: "log_placed (ex_results x) (ex_wave x) (w_dispatches (ex_world x))"
    using ok plan by (simp_all add: running_ok_def)
  obtain out results w where sw: "settle_wave (ex_ctx x) jclk 0 (ex_wave x) (ex_results x) None (ex_world x) = (out, results, w)"
    by (metis prod_cases3)
  have none: "\<forall>t \<in> set (ex_wave x). map_of (ex_results x) (step_id (ta_step t)) = None"
    using split by (fastforce simp: split_ok_def)
  have W: "keyed results \<and> map_of (ex_results x) \<subseteq>\<^sub>m map_of results \<and> quiet (ex_world x) w \<and>
    (\<forall>f. out = Inr f \<longrightarrow> dom (map_of results) = dom (map_of (ex_results x)) \<union> (step_id \<circ> ta_step) ` set (ex_wave x) \<and>
       (f = None \<longrightarrow> None = (None :: control_error option) \<and> (results_ok (ex_results x) \<longrightarrow> results_ok results)))"
    by (rule settle_wave_ok [OF sw results_ok_keyed [OF res] _ _ none])
       (use wave settled in \<open>auto simp: wave_ok_def list_all_iff\<close>)
  have disp: "w_dispatches w = w_dispatches (ex_world x)" using W by (simp add: quiet_def)
  have log': "log_ok plan results (w_dispatches w)" using log W disp log_ok_mono by auto
  show ?thesis
  proof (cases out)
    case (Inl e)
    obtain st w' where c: "catch_plan (ex_ctx x) after results e w = (st, w')" by fastforce
    from catch_plan_ok [OF c] W log' plan s sw Inl c show ?thesis
      by (auto simp: join_wave_def exec_inv_def quiet_def)
  next
    case (Inr f)
    with W have dom: "dom (map_of results) = dom (map_of (ex_results x)) \<union> (step_id \<circ> ta_step) ` set (ex_wave x)" by simp
    have split': "split_ok plan results (ex_pending x) {}"
      using split unfolding split_ok_def dom by (auto simp: Int_Un_distrib2 Int_commute)
    have placed': "log_placed results [] (w_dispatches w)"
      unfolding disp by (rule log_placed_all [OF placed]) (simp add: dom)
    show ?thesis
    proof (cases f)
      case None
      with W Inr res have "results_ok results" by simp
      then have "exec_inv plan (loop_from clk after results (x\<lparr>ex_wave := [], ex_world := w\<rparr>))"
        by (intro loop_from_inv [OF v]) (use plan s run split' log' placed' in simp_all)
      with sw Inr None show ?thesis by (simp add: join_wave_def)
    next
      case (Some e)
      obtain results' r where a: "after_failure (ex_ctx x) results (ex_pending x) e = (results', r)" by fastforce
      have results': "results' = mark_all SSkipped (ex_pending x) results" using a by (simp add: after_failure_def Let_def split: prod.splits)
      obtain st cp where f': "failedPlanOutcome (map_of results' (case err_stepId e of None \<Rightarrow> [] | Some s \<Rightarrow> s)) (length results') = (st, cp)"
        by fastforce
      then have st: "st \<in> {PAwaitingApproval, PNeedsContext, PPartial, PFailed}"
        by (auto simp: failedPlanOutcome_def split: if_splits)
      have r: "r = plan_result (ex_ctx x) st results' None (Some e) cp"
        using a f' by (simp add: after_failure_def Let_def results')
      have k: "keyed results'" unfolding results' using W by (intro mark_all_keyed) simp
      have good: "good_result plan r" unfolding r by (rule good_result_plain [OF k _ _ plan]) (use st in auto)
      obtain st' w' where c: "return_plan (ex_ctx x) after results' r w = (st', w')" by fastforce
      have "map_of results \<subseteq>\<^sub>m map_of results'" unfolding results' by (rule mark_all_mono [OF split'])
      with log' have "log_ok plan results' (w_dispatches w)" by (rule log_ok_mono [rotated])
      with return_plan_ok [OF c k] good plan s sw Inr Some a c show ?thesis
        by (auto simp: join_wave_def decide_def exec_inv_def quiet_def)
    qed
  qed
qed

section \<open>Every event keeps the invariant\<close>

text \<open>A scheduler that differs from another in the phase of one run.\<close>

definition moved :: "scheduler \<Rightarrow> nat \<Rightarrow> run_phase \<Rightarrow> scheduler \<Rightarrow> bool" where
  "moved s k ph s' \<longleftrightarrow> length (runs s') = length (runs s) \<and>
     (\<forall>u. run_keys (runs s' ! u) = run_keys (runs s ! u) \<and> phase_of s' u = (if u = k then ph else phase_of s u))"

lemma start_run_moved: "can_start s k \<Longrightarrow> moved s k RActive (start_run k s)"
  by (simp add: moved_def start_run_def can_start_def)

lemma finish_run_moved: "k < length (runs s) \<Longrightarrow> phase_of s k = RActive \<Longrightarrow> moved s k RFinished (finish_run k s)"
  by (simp add: moved_def finish_run_def set_phase_def nth_list_update)

lemma moved_refl: "phase_of s k = ph \<Longrightarrow> moved s k ph s"
  by (simp add: moved_def)

lemma moved_trans: "moved s k ph s' \<Longrightarrow> moved s' k ph' s'' \<Longrightarrow> moved s k ph' s''"
  by (simp add: moved_def)

lemma ticket_moved:
  assumes "moved s k ph s'" "ticket_ok s t"
  shows "ta_ticket t \<noteq> k \<Longrightarrow> ticket_ok s' t"
    "ta_ticket t = k \<Longrightarrow> ph = (if st = TWaiting then RWaiting else if settled_task st then RFinished else RActive) \<Longrightarrow>
       ticket_ok s' (t\<lparr>ta_state := st\<rparr>)"
  using assms by (simp_all add: moved_def ticket_ok_def)

lemma wave_ok_update:
  assumes w: "wave_ok plan results s wave" and i: "i < length wave"
  and m: "moved s (ta_ticket (wave ! i)) ph s'" and own: "own_result (ta_step (wave ! i)) st"
  and ph: "ph = (if st = TWaiting then RWaiting else if settled_task st then RFinished else RActive)"
  shows "wave_ok plan results s' (wave[i := (wave ! i)\<lparr>ta_state := st\<rparr>])"
proof -
  let ?wave = "wave[i := (wave ! i)\<lparr>ta_state := st\<rparr>]"
  have maps: "map (step_id \<circ> ta_step) ?wave = map (step_id \<circ> ta_step) wave" "map ta_ticket ?wave = map ta_ticket wave"
    using i by (auto intro!: nth_equalityI simp: nth_list_update)
  have "ticket_ok s' (?wave ! j) \<and> task_ok (?wave ! j) \<and> ta_step (?wave ! j) \<in> set (steps plan) \<and>
      (\<forall>d \<in> set (dependsOn (ta_step (?wave ! j))). succeeded results d)" if j: "j < length wave" for j
  proof (cases "j = i")
    case True
    have t: "wave ! i \<in> set wave" using i by simp
    with w have "ticket_ok s (wave ! i)" by (simp add: wave_ok_def)
    from ticket_moved(2) [OF m this refl ph] w t own i True show ?thesis by (auto simp: wave_ok_def task_ok_def)
  next
    case False
    have t: "wave ! j \<in> set wave" using j by simp
    have "distinct (map ta_ticket wave)" using w by (simp add: wave_ok_def)
    with False i j have "ta_ticket (wave ! j) \<noteq> ta_ticket (wave ! i)" using nth_eq_iff_index_eq [of "map ta_ticket wave" j i] by simp
    with w t ticket_moved(1) [OF m, of "wave ! j"] False show ?thesis by (auto simp: wave_ok_def)
  qed
  then have "\<forall>t \<in> set ?wave. ticket_ok s' t \<and> task_ok t \<and> ta_step t \<in> set (steps plan) \<and>
      (\<forall>d \<in> set (dependsOn (ta_step t)). succeeded results d)"
    by (metis in_set_conv_nth length_list_update)
  with maps w show ?thesis by (simp add: wave_ok_def)
qed

lemma step_ids_update:
  "i < length wave \<Longrightarrow> (step_id \<circ> ta_step) ` set (wave[i := (wave ! i)\<lparr>ta_state := st\<rparr>]) = (step_id \<circ> ta_step) ` set wave"
proof -
  assume "i < length wave"
  then have "map (step_id \<circ> ta_step) (wave[i := (wave ! i)\<lparr>ta_state := st\<rparr>]) = map (step_id \<circ> ta_step) wave"
    by (auto intro!: nth_equalityI simp: nth_list_update)
  then show ?thesis by (metis list.set_map)
qed

text \<open>The answer to a task moves its run in the scheduler accordingly.\<close>

lemma task_event_cases:
  assumes i: "i < length (ex_wave x)" and a: "awaits (ta_state (ex_wave x ! i)) a"
  and b: "a = Begin \<longrightarrow> can_start (ex_sched x) (ta_ticket (ex_wave x ! i))"
  and k: "ticket_ok (ex_sched x) (ex_wave x ! i)" and s: "sched_inv (ex_sched x)"
  and step: "task_step (ex_ctx x) (ta_step (ex_wave x ! i)) clk a (ta_state (ex_wave x ! i)) (ex_world x) = (st, w)"
  and ph: "ph = (if st = TWaiting then RWaiting else if settled_task st then RFinished else RActive)"
  shows "\<exists>s'. task_event i clk a x = (set_task i st x)\<lparr>ex_world := w, ex_sched := s'\<rparr> \<and> sched_inv s' \<and>
    moved (ex_sched x) (ta_ticket (ex_wave x ! i)) ph s'"
proof -
  let ?k = "ta_ticket (ex_wave x ! i)" and ?s = "ex_sched x"
  define s1 where "s1 = (if a = Begin then start_run ?k ?s else ?s)"
  define s2 where "s2 = (if settled_task st then finish_run ?k s1 else s1)"
  have "st \<noteq> TWaiting" using task_step_cases [OF step a] by (auto simp: before_dispatch_def after_dispatch_def)
  then have ph': "ph = (if settled_task st then RFinished else RActive)" by (simp add: ph)
  have "phase_of ?s ?k = RActive" if "a \<noteq> Begin"
    using k a that by (cases "(ta_state (ex_wave x ! i), a)" rule: awaits.cases) (auto simp: ticket_ok_def)
  with b have m1: "moved ?s ?k RActive s1" by (auto simp: s1_def start_run_moved moved_refl)
  then have "phase_of s1 ?k = RActive" "?k < length (runs s1)" using k by (simp_all add: moved_def ticket_ok_def)
  then have "moved s1 ?k ph s2" by (auto simp: s2_def ph' finish_run_moved moved_refl)
  with m1 have m2: "moved ?s ?k ph s2" by (rule moved_trans)
  have "sched_inv s2" using s by (simp add: s2_def s1_def start_inv finish_inv)
  moreover have "task_event i clk a x = (set_task i st x)\<lparr>ex_world := w, ex_sched := s2\<rparr>"
    using i a b step by (simp add: task_event_def s1_def s2_def Let_def)
  ultimately show ?thesis using m2 by blast
qed

lemma log_ok_send:
  assumes "log_ok plan results log" "di_step d = s" "dispatch_ok d" "s \<in> set (steps plan)"
  and "\<forall>q \<in> set (dependsOn s). succeeded results q" "step_id s \<notin> (step_id \<circ> di_step) ` set log"
  shows "log_ok plan results (log @ [d])"
  using assms by (auto simp: log_ok_def)

lemma task_event_inv:
  assumes inv: "exec_inv plan x" and run: "ex_status x = Running"
  shows "exec_inv plan (task_event i clk a x)"
proof (cases "i < length (ex_wave x) \<and> awaits (ta_state (ex_wave x ! i)) a \<and>
    (a = Begin \<longrightarrow> can_start (ex_sched x) (ta_ticket (ex_wave x ! i)))")
  case True
  define t where "t = ex_wave x ! i"
  obtain st w where step: "task_step (ex_ctx x) (ta_step t) clk a (ta_state t) (ex_world x) = (st, w)" by fastforce
  define ph where "ph = (if st = TWaiting then RWaiting else if settled_task st then RFinished else RActive)"
  have plan: "cx_plan (ex_ctx x) = plan" and s: "sched_inv (ex_sched x)"
    and log: "log_ok plan (ex_results x) (w_dispatches (ex_world x))"
    and res: "results_ok (ex_results x)" and split: "split_ok plan (ex_results x) (ex_pending x) ((step_id \<circ> ta_step) ` set (ex_wave x))"
    and wave: "wave_ok plan (ex_results x) (ex_sched x) (ex_wave x)"
    and placed: "log_placed (ex_results x) (ex_wave x) (w_dispatches (ex_world x))"
    using inv run by (auto simp: exec_inv_def running_ok_def)
  have i: "i < length (ex_wave x)" and a: "awaits (ta_state t) a" and t: "t \<in> set (ex_wave x)"
    using True by (simp_all add: t_def)
  have k: "ticket_ok (ex_sched x) t" and ts: "ta_step t \<in> set (steps plan)"
    and deps: "\<forall>q \<in> set (dependsOn (ta_step t)). succeeded (ex_results x) q"
    using wave t by (simp_all add: wave_ok_def)
  from task_event_cases [OF i, of a clk st w ph] True k s step ph_def obtain s'
    where ev: "task_event i clk a x = (set_task i st x)\<lparr>ex_world := w, ex_sched := s'\<rparr>"
      and s': "sched_inv s'" and m: "moved (ex_sched x) (ta_ticket t) ph s'"
    unfolding t_def by blast
  note cases = task_step_cases [OF step a]
  have own: "own_result (ta_step t) st" using cases by (auto simp: before_dispatch_def after_dispatch_def)
  define wave' where "wave' = (ex_wave x)[i := t\<lparr>ta_state := st\<rparr>]"
  have wave': "wave_ok plan (ex_results x) s' wave'"
    unfolding wave'_def t_def by (rule wave_ok_update [OF wave i m [unfolded t_def] own [unfolded t_def] ph_def])
  have ids': "(step_id \<circ> ta_step) ` set wave' = (step_id \<circ> ta_step) ` set (ex_wave x)"
    unfolding wave'_def t_def by (rule step_ids_update [OF i])
  have t': "t\<lparr>ta_state := st\<rparr> \<in> set wave'" using i by (simp add: wave'_def set_update_memI)
  have dist: "distinct (map (step_id \<circ> ta_step) (ex_wave x))" using wave by (simp add: wave_ok_def)
  have other: "u = t" if "u \<in> set (ex_wave x)" "step_id (ta_step u) = step_id (ta_step t)" for u
    using dist that t by (auto simp: distinct_map inj_on_def)
  have keeps: "\<exists>u' \<in> set wave'. step_id (ta_step u') = step_id (ta_step u) \<and> \<not> undispatched (ta_state u')"
    if "u \<in> set (ex_wave x)" "\<not> undispatched (ta_state u)" "\<not> undispatched (ta_state t) \<Longrightarrow> \<not> undispatched st" for u
  proof (cases "u = t")
    case True
    with that t' show ?thesis by (intro bexI [of _ "t\<lparr>ta_state := st\<rparr>"]) simp_all
  next
    case False
    from that(1) obtain j where j: "j < length (ex_wave x)" "u = ex_wave x ! j" by (metis in_set_conv_nth)
    with False have "j \<noteq> i" by (auto simp: t_def)
    with j have "wave' ! j = u" "j < length wave'" by (simp_all add: wave'_def)
    then have "u \<in> set wave'" by (metis nth_mem)
    with that(2) show ?thesis by blast
  qed
  have "log_ok plan (ex_results x) (w_dispatches w) \<and> log_placed (ex_results x) wave' (w_dispatches w)"
  proof (cases "undispatched (ta_state t)")
    case False
    with cases have after: "after_dispatch (ta_step t) (ex_world x) st w" by blast
    then have disp: "w_dispatches w = w_dispatches (ex_world x)" and nu: "\<not> undispatched st"
      by (auto simp: after_dispatch_def quiet_def elim!: undispatched.elims)
    have "log_placed (ex_results x) wave' (w_dispatches w)"
      using placed keeps nu unfolding log_placed_def disp by metis
    with log disp show ?thesis by simp
  next
    case True
    with cases have before: "before_dispatch (ta_step t) (ex_world x) st w" by blast
    have old: "log_placed (ex_results x) wave' (w_dispatches (ex_world x))"
      using placed keeps True unfolding log_placed_def by metis
    show ?thesis
    proof (cases "st = TDispatching")
      case False
      with before have "w_dispatches w = w_dispatches (ex_world x)" by (simp add: before_dispatch_def quiet_def)
      with log old show ?thesis by simp
    next
      case sent: True
      with before obtain d where d: "w_dispatches w = w_dispatches (ex_world x) @ [d]" "di_step d = ta_step t" "dispatch_ok d"
        by (auto simp: before_dispatch_def sends_def)
      have none: "step_id (ta_step t) \<notin> dom (map_of (ex_results x))" using split t by (fastforce simp: split_ok_def)
      have "step_id (ta_step t) \<notin> (step_id \<circ> di_step) ` set (w_dispatches (ex_world x))"
        using placed none other True unfolding log_placed_def by (auto simp: image_iff)
      then have "log_ok plan (ex_results x) (w_dispatches w)"
        unfolding d(1) by (rule log_ok_send [OF log d(2,3) ts deps])
      moreover have "log_placed (ex_results x) wave' (w_dispatches w)"
        using old d(1,2) bexI [OF _ t'] sent by (simp add: log_placed_def)
      ultimately show ?thesis by blast
    qed
  qed
  with wave' ids' s' plan run res split show ?thesis
    unfolding ev by (simp add: exec_inv_def running_ok_def set_task_def wave'_def t_def)
qed (auto simp: task_event_def inv)

lemma foreign_ticket:
  assumes "ticket_ok s t" "sched_inv s" "\<And>k. ev = EvStart k \<or> ev = EvFinishRun k \<Longrightarrow> k \<noteq> ta_ticket t"
  shows "ticket_ok (sched_step s ev) t"
proof (cases ev)
  case (EvEnqueue keys)
  obtain k s' where e: "enqueue keys s = (k, s')" by fastforce
  from enqueue_run [OF e] assms(1) EvEnqueue e show ?thesis by (auto simp: ticket_ok_def)
next
  case (EvStart k)
  with ticket_moved(1) [OF start_run_moved [of s k] assms(1)] assms show ?thesis
    by (cases "can_start s k") (simp_all add: start_run_def)
next
  case (EvFinishRun k)
  with ticket_moved(1) [OF finish_run_moved [of k s] assms(1)] assms show ?thesis
    by (cases "k < length (runs s) \<and> phase_of s k = RActive") (auto simp: finish_run_def)
qed

lemma foreign_inv: "exec_inv plan x \<Longrightarrow> foreign x ev \<Longrightarrow> exec_inv plan (x\<lparr>ex_sched := sched_step (ex_sched x) ev\<rparr>)"
proof -
  assume inv: "exec_inv plan x" and f: "foreign x ev"
  have s: "sched_inv (ex_sched x)" using inv by (simp add: exec_inv_def)
  have "ticket_ok (sched_step (ex_sched x) ev) t" if "ticket_ok (ex_sched x) t" "t \<in> set (ex_wave x)" for t
    by (rule foreign_ticket [OF that(1) s]) (use f that(2) in \<open>cases ev; auto\<close>)
  then show ?thesis
    using inv sched.step_inv [OF s, of ev] by (auto simp: exec_inv_def running_ok_def wave_ok_def)
qed

text \<open>A plan that the parser accepted, and its execution.\<close>

definition accepted_plan :: "control_plan \<Rightarrow> bool" where
  "accepted_plan plan \<longleftrightarrow> valid_steps (steps plan) (surfaceIds plan)"

definition exec_sound :: "control_plan \<Rightarrow> 'p exec \<Rightarrow> bool" where
  "exec_sound plan x \<longleftrightarrow> accepted_plan plan \<and> exec_inv plan x"

lemma exec_step_inv: "exec_sound plan x \<Longrightarrow> exec_sound plan (exec_step hmac x ev)"
proof -
  assume s: "exec_sound plan x"
  then have v: "valid_steps (steps plan) (surfaceIds plan)" and inv: "exec_inv plan x" 
    by (simp_all add: exec_sound_def accepted_plan_def)
  have "exec_inv plan (exec_step hmac x ev)"
  proof (cases ev)
    case (EvTask i clk a)
    with inv task_event_inv [OF inv] show ?thesis by simp
  next
    case (EvJoin jclk clk after)
    with inv join_inv [OF v inv] show ?thesis by simp
  next
    case (EvStore e)
    with inv show ?thesis by (auto simp: exec_inv_def running_ok_def)
  next
    case (EvJournal e)
    with inv show ?thesis by (auto simp: exec_inv_def running_ok_def)
  next
    case (EvSched e)
    with inv foreign_inv [OF inv] show ?thesis by simp
  qed
  with s show ?thesis by (simp add: exec_sound_def)
qed

interpretation execution: invariant_system "exec_step hmac" "exec_sound plan" for hmac plan
  by unfold_locales (rule exec_step_inv)

section \<open>The start of an execution\<close>

lemma pending_of_all: "distinct (map step_id ss) \<Longrightarrow> pending_of ss = ss"
  by (simp add: pending_of_def map_from_distinct comp_def)

lemma preflight_quiet:
  assumes "preflightFailure plan adapters (\<lambda>sid. on_store (m sid)) w = (res, w')"
  shows "quiet w w' \<and> (\<forall>out. res = Inr (Some out) \<longrightarrow> refusal out)"
proof -
  let ?P = "\<lambda>u. w_dispatches u = w_dispatches w"
  have "valid_eff ?P (on_store (m sid)) (\<lambda>r s. ?P s \<and> True) ?P" for sid
    by (auto simp: valid_eff_def dest!: on_store_quiet simp: quiet_def split: prod.splits sum.splits)
  from preflight_valid [where cur = "\<lambda>sid. on_store (m sid)" and plan = plan and adapters = adapters, OF this]
  have "valid_eff ?P (preflightFailure plan adapters (\<lambda>sid. on_store (m sid)))
      (\<lambda>r s. ?P s \<and> (\<forall>out. r = Some out \<longrightarrow> refusal out)) ?P"
    by (rule valid_post) (auto split: option.splits)
  then show ?thesis using assms unfolding valid_eff_def quiet_def by (cases res) (auto dest!: spec [of _ w])
qed

lemma refusal_good: "refusal out \<Longrightarrow> good_result plan (out\<lparr>pr_planId := i\<rparr>)"
  by (auto simp: refusal_def good_result_def intro: exI [of _ "{}"])

lemma start_split: "distinct (map step_id (steps plan)) \<Longrightarrow> split_ok plan [] (pending_of (steps plan)) {}"
  by (simp add: split_ok_def pending_of_all)

lemma run_plan_inv:
  assumes v: "accepted_plan plan" and s: "sched_inv (ex_sched x)" and w: "w_dispatches (ex_world x) = []"
  and x: "cx_plan (ex_ctx x) = plan" "ex_status x = Running" "ex_ctx x = cx"
  shows "exec_inv plan (run_plan cx pclk clk after x)"
proof -
  obtain res w1 where p: "preflightFailure (cx_plan cx) (cx_adapters cx)
      (\<lambda>sid. on_store (get_observation (pclk sid) (cx_owner cx) sid)) (ex_world x) = (res, w1)" by fastforce
  from preflight_quiet [OF p] w have q: "w_dispatches w1 = []" and ref: "\<And>out. res = Inr (Some out) \<Longrightarrow> refusal out"
    by (auto simp: quiet_def)
  have log: "log_ok plan results []" "log_placed [] [] []" for results by (simp_all add: log_ok_def log_placed_def)
  have k: "keyed ([] :: step_results)" by (simp add: keyed_def)
  show ?thesis
  proof (cases res)
    case (Inl e)
    obtain st w2 where c: "catch_plan cx after [] e w1 = (st, w2)" by fastforce
    from catch_plan_ok [OF c k] p Inl c q s x log show ?thesis
      by (auto simp: run_plan_def exec_inv_def quiet_def)
  next
    case (Inr b)
    show ?thesis
    proof (cases b)
      case None
      have "exec_inv plan (loop_from clk after [] (x\<lparr>ex_pending := pending_of (steps (cx_plan cx)), ex_world := w1\<rparr>))"
        by (rule loop_from_inv [of plan "surfaceIds plan"])
           (use v s x q log in \<open>auto simp: accepted_plan_def results_ok_def valid_steps_def intro!: start_split\<close>)
      with p Inr None show ?thesis by (simp add: run_plan_def)
    next
      case (Some blocked)
      obtain st w2 where c: "return_plan cx after [] (blocked\<lparr>pr_planId := cx_planId cx\<rparr>) w1 = (st, w2)" by fastforce
      from return_plan_ok [OF c k] refusal_good [OF ref] p Inr Some c q s x log show ?thesis
        by (auto simp: run_plan_def exec_inv_def quiet_def)
    qed
  qed
qed

text \<open>A call of \<open>execute\<close>, and what happens in the process afterwards.\<close>

abbreviation executed where
  "executed hmac ps stamp adapters uuid owner plan now started pclk clk after w s evs \<equiv>
     foldl (exec_step hmac) (execute hmac ps stamp adapters uuid owner plan now started pclk clk after w s) evs"

lemma execute_inv:
  assumes v: "accepted_plan plan" and s: "sched_inv s" and w: "w_dispatches w = []"
  and c: "fst (on_journal (claim hmac ps uuid (stamp now) owner plan) w) = Inr (r, False)"
  shows "exec_sound plan (executed hmac ps stamp adapters uuid owner plan now started pclk clk after w s evs)"
proof -
  obtain w1 where c': "on_journal (claim hmac ps uuid (stamp now) owner plan) w = (Inr (r, False), w1)"
    using c by (metis prod.collapse)
  then have w1: "w_dispatches w1 = []" using w on_journal_quiet [OF c'] by (simp add: quiet_def)
  have "exec_inv plan (execute hmac ps stamp adapters uuid owner plan now started pclk clk after w s)"
    unfolding execute_def c' by (simp add: Let_def) (rule run_plan_inv [OF v]; simp add: fresh_exec_def start_ctx_def s w1)
  with v show ?thesis by (intro execution.run_inv) (simp add: exec_sound_def)
qed

text \<open>An execution that did not get its request for itself does nothing.\<close>

definition stopped :: "'p exec \<Rightarrow> bool" where
  "stopped x \<longleftrightarrow> ex_status x \<noteq> Running \<and> w_dispatches (ex_world x) = []"

interpretation stopped: invariant_system "exec_step hmac" stopped for hmac
proof
  fix x :: "'p exec" and ev assume "stopped x"
  then show "stopped (exec_step hmac x ev)" by (cases ev) (auto simp: stopped_def)
qed

lemma execute_stopped:
  assumes w: "w_dispatches w = []"
  and c: "\<And>r. fst (on_journal (claim hmac ps uuid (stamp now) owner plan) w) \<noteq> Inr (r, False)"
  shows "stopped (executed hmac ps stamp adapters uuid owner plan now started pclk clk after w s evs)"
proof -
  obtain res w1 where c': "on_journal (claim hmac ps uuid (stamp now) owner plan) w = (res, w1)" by fastforce
  then have w1: "w_dispatches w1 = []" using w on_journal_quiet [OF c'] by (simp add: quiet_def)
  have "stopped (execute hmac ps stamp adapters uuid owner plan now started pclk clk after w s)"
    using c c' w1 by (auto simp: execute_def stopped_def fresh_exec_def Let_def split: sum.splits option.splits)
  then show ?thesis by (rule stopped.run_inv)
qed

lemma executed_log:
  assumes "accepted_plan plan" "sched_inv s" "w_dispatches w = []"
  and "x = executed hmac ps stamp adapters uuid owner plan now started pclk clk after w s evs"
  shows "log_ok plan (ex_results x) (w_dispatches (ex_world x))"
proof (cases "\<exists>r. fst (on_journal (claim hmac ps uuid (stamp now) owner plan) w) = Inr (r, False)")
  case True
  with execute_inv [OF assms(1-3)] assms(4) show ?thesis by (auto simp: exec_sound_def exec_inv_def)
next
  case False
  with execute_stopped [OF assms(3)] assms(4) show ?thesis by (auto simp: stopped_def log_ok_def)
qed

section \<open>Properties\<close>

definition demo_task :: "string \<Rightarrow> control_action \<Rightarrow> control_step" where
  "demo_task r act = \<lparr>step_id = ''a'', step_surfaceId = ''s1'', dependsOn = [], step_target = ByRef r,
     step_action = act, preconditions = [EnabledIs True], postcondition = EnabledIs True, timeoutMs = 100\<rparr>"

definition demo_job :: "string \<Rightarrow> control_action \<Rightarrow> control_plan" where
  "demo_job r act = \<lparr>requestId = ''rq'', surfaceIds = [''s1''], expectedObservations = [(''s1'', ''o1'')],
     plan_mode = SharedSemantic, deadlineMs = 1000, maxConcurrency = 2, steps = [demo_task r act],
     plan_output = \<lparr>out_full = True, out_baseObservationId = None, maxOutputTokens = 100\<rparr>\<rparr>"

definition demo_seen :: control_observation where
  "demo_seen = demo_tree\<lparr>nodes := [leaf ''b1'' ''button'' ''Save'',
     Node ''c1'' ''checkbox'' ''Wrap'' None (Some True) (Some On) [KSetToggleState] None None None]\<rparr>"

definition demo_world :: "unit world" where
  "demo_world = \<lparr>w_store = demo_store\<lparr>reg := \<lparr>owners = [(''alice'', [(''s1'', (emptyEntry 0)\<lparr>history := [demo_seen]\<rparr>)])],
       evictions = []\<rparr>\<rparr>,
     w_journal = \<lparr>jkey = [], journal_records = [], byRequest = [], durable = ()\<rparr>, w_dispatches = []\<rparr>"

abbreviation (input) demo_hmac :: "string \<Rightarrow> string \<Rightarrow> string" where
  "demo_hmac \<equiv> \<lambda>k s. s"

abbreviation demo_started where
  "demo_started plan \<equiv> execute demo_hmac None (\<lambda>_. ''t'') (\<lambda>_. Some SharedSemantic) ''p1'' ''alice'' plan 0 0
     (\<lambda>_ _. 0) (\<lambda>_. 0) (\<lambda>_. 0) demo_world new_scheduler"

lemma demo_job_accepted: "accepted_plan (demo_job r act) \<longleftrightarrow> valid_step (demo_task r act)"
proof -
  have none: "deps_of (steps (demo_job r act)) = (\<lambda>_. [])"
    by (rule ext) (simp add: deps_of_def demo_job_def demo_task_def)
  then have "dep_rel (steps (demo_job r act)) = {}" by (simp add: dep_rel_def)
  then show ?thesis
    using none by (simp add: accepted_plan_def valid_steps_def deps_known_def acyclic_def)
       (simp add: CONTROL_MAX_STEPS_def demo_job_def demo_task_def)
qed

lemma demo_seen_id: "observationId demo_seen = ''o1''"
  by (simp add: demo_seen_def demo_tree_def)

lemma demo_read: "get_observation (\<lambda>_. 0) ''alice'' ''s1'' (w_store demo_world) = (Inr (Some demo_seen), w_store demo_world)"
  unfolding get_observation_def purge_bind
  by (simp add: purged_def purgeIdle_def demo_world_def demo_store_def DEFAULT_LIMITS_def
      bindS_def getS_def find_entry_def get_body_def put_entry_def set_entry_def owned_def liftE_def current_observation_def
      retS_def emptyEntry_def idle_def)

definition demo_record :: "control_plan \<Rightarrow> journal_record" where
  "demo_record plan = proposed_record ''p1'' ''t'' ''alice'' (requestId plan) (canonical (plan_json plan))"

definition demo_live :: "control_plan \<Rightarrow> unit world" where
  "demo_live plan = demo_world\<lparr>w_journal := remember_claim (request_key ''alice'' (requestId plan)) (demo_record plan)
     (w_journal demo_world)\<rparr>"

definition demo_ctx :: "control_plan \<Rightarrow> unit exec_ctx" where
  "demo_ctx plan = start_ctx None (\<lambda>_. ''t'') (\<lambda>_. Some SharedSemantic) ''alice'' plan ''plan_p1'' 0"

definition demo_wave :: "string \<Rightarrow> control_action \<Rightarrow> unit exec" where
  "demo_wave r act = \<lparr>ex_ctx = demo_ctx (demo_job r act), ex_world = demo_live (demo_job r act),
     ex_sched = snd (enqueue [''surface:s1''] new_scheduler), ex_results = [], ex_pending = [],
     ex_wave = [\<lparr>ta_step = demo_task r act, ta_ticket = 0, ta_state = TWaiting\<rparr>], ex_status = Running\<rparr>"

lemma demo_claims: "on_journal (claim demo_hmac None ''p1'' ''t'' ''alice'' plan) demo_world =
    (Inr (demo_record plan, False), demo_live plan)"
  by (simp add: on_journal_def claim_def plan_digest_text demo_live_def demo_record_def demo_world_def)
     (simp add: claim_new_def Let_def)

lemma demo_read_live: "on_store (get_observation (\<lambda>_. 0) ''alice'' ''s1'') (demo_live plan) = (Inr (Some demo_seen), demo_live plan)"
  using demo_read by (simp add: on_store_def demo_live_def)

lemma demo_not_cancelled: "\<not> isCancelled None ''alice'' ''plan_p1'' (w_journal (demo_live plan))"
  by (simp add: isCancelled_def journal_get_def demo_live_def remember_claim_def put_record_def demo_record_def
      proposed_record_def demo_world_def)

lemma demo_ctx_sel [simp]:
  "cx_owner (demo_ctx plan) = ''alice''" "cx_plan (demo_ctx plan) = plan" "cx_planId (demo_ctx plan) = ''plan_p1''"
  "cx_started (demo_ctx plan) = 0" "cx_ps (demo_ctx plan) = None" "cx_adapters (demo_ctx plan) = (\<lambda>_. Some SharedSemantic)"
  by (simp_all add: demo_ctx_def start_ctx_def)

lemma demo_started_eq: "demo_started (demo_job r act) = demo_wave r act"
proof -
  let ?plan = "demo_job r act"
  have pre: "preflightFailure ?plan (\<lambda>_. Some SharedSemantic)
      (\<lambda>sid. on_store (get_observation (\<lambda>_. 0) ''alice'' sid)) (demo_live ?plan) = (Inr None, demo_live ?plan)"
    by (simp add: preflightFailure_def surface_failure_def bindS_def retS_def demo_read_live expected_current_def
        demo_job_def demo_seen_id)
  have loop: "plan_loop (demo_ctx ?plan) False (\<lambda>_. 0) 0 [] [demo_task r act] = DWave [] [demo_task r act] []"
    by (subst plan_loop.simps)
       (simp add: demo_job_def demo_task_def ready_steps_def blocked_by_failure_def drop_step_def Let_def)
  have pid: "jr_planId (demo_record ?plan) = ''plan_p1''" by (simp add: demo_record_def proposed_record_def)
  have launch: "launch [demo_task r act] new_scheduler =
      ([\<lparr>ta_step = demo_task r act, ta_ticket = 0, ta_state = TWaiting\<rparr>], snd (enqueue [''surface:s1''] new_scheduler))"
    by (simp add: demo_task_def enqueue_def new_scheduler_def Let_def)
  have steps: "steps ?plan = [demo_task r act]" by (simp add: demo_job_def)
  have ctx: "start_ctx None (\<lambda>_. ''t'') (\<lambda>_. Some SharedSemantic) ''alice'' ?plan ''plan_p1'' 0 = demo_ctx ?plan"
    by (simp add: demo_ctx_def)
  show ?thesis
    by (simp add: execute_def demo_claims pid ctx run_plan_def fresh_exec_def pre loop_from_def steps pending_of_all
        demo_not_cancelled loop decide_def launch demo_wave_def del: launch.simps)
qed


text \<open>
  C18: An execution dispatches only what the plan declares, and under its conditions. In every
  interleaving of adapter answers, timers, cancellations, other store and journal calls and foreign
  runs, no step is dispatched twice; each dispatched step belongs to the plan, its target resolved to
  the node on the observation it was checked against, every precondition held there, the node
  supports the action (or the step waits), and every step it depends on has succeeded.
\<close>

theorem dispatches_are_guarded:
  assumes "accepted_plan plan" "s = foldl sched_step new_scheduler before" "w_dispatches w = []"
  and "x = executed hmac ps stamp adapters uuid owner plan now started pclk clk after w s evs"
  shows "distinct (map (step_id \<circ> di_step) (w_dispatches (ex_world x))) \<and>
    (\<forall>d \<in> set (w_dispatches (ex_world x)). di_step d \<in> set (steps plan) \<and>
       resolveControlTarget (di_seen d) (step_target (di_step d)) = Inr (di_node d) \<and>
       (\<forall>p \<in> set (preconditions (di_step d)). evaluateControlPredicate (di_seen d) p (Some (di_node d))) \<and>
       (supportsControlAction (di_node d) (step_action (di_step d)) \<or> action_kind (step_action (di_step d)) = KWaitFor) \<and>
       (\<forall>q \<in> set (dependsOn (di_step d)). succeeded (ex_results x) q))"
  using executed_log [OF assms(1) _ assms(3,4)] sched_reachable [of before] assms(2)
  by (auto simp: log_ok_def dispatch_ok_def)

lemma demo_begin:
  "exec_step demo_hmac (demo_wave r act) (EvTask 0 (\<lambda>_. 0) Begin) =
     (case settle (check_and_dispatch (demo_ctx (demo_job r act)) (demo_task r act) demo_seen (\<lambda>_. 0)) (demo_live (demo_job r act)) of
        (t', w) \<Rightarrow> (set_task 0 t' (demo_wave r act))\<lparr>ex_world := w,
          ex_sched := (let s1 = start_run 0 (snd (enqueue [''surface:s1''] new_scheduler)) in
            if settled_task t' then finish_run 0 s1 else s1)\<rparr>)"
proof -
  let ?plan = "demo_job r act"
  have go: "can_start (snd (enqueue [''surface:s1''] new_scheduler)) 0" by (simp add: sched_eval)
  have clk: "shift 2 (\<lambda>_. 0 :: int) = (\<lambda>_. 0)" by (simp add: shift_def)
  have sid: "step_surfaceId (demo_task r act) = ''s1''" by (simp add: demo_task_def)
  have "settle (step_start (demo_ctx ?plan) (demo_task r act) (\<lambda>_. 0)) (demo_live ?plan) =
      settle (check_and_dispatch (demo_ctx ?plan) (demo_task r act) demo_seen (\<lambda>_. 0)) (demo_live ?plan)"
    by (simp add: settle_def step_start_def bindS_def cancelled_now_def demo_not_cancelled demo_read_live sid clk)
  then show ?thesis
    by (auto simp: task_event_def demo_wave_def go Let_def split: prod.splits)
qed

lemma demo_click:
  "w_dispatches (ex_world (exec_step demo_hmac (demo_wave ''b1'' Click) (EvTask 0 (\<lambda>_. 0) Begin))) =
     [\<lparr>di_step = demo_task ''b1'' Click, di_seen = demo_seen, di_node = leaf ''b1'' ''button'' ''Save''\<rparr>]"
proof -
  have target: "resolveControlTarget demo_seen (step_target (demo_task ''b1'' Click)) = Inr (leaf ''b1'' ''button'' ''Save'')"
    by (simp add: demo_task_def) code_simp
  show ?thesis
    unfolding demo_begin check_and_dispatch_def target sum.case
    by (simp add: demo_task_def failed_precondition_def leaf_def supportsControlAction_def already_in_state_def settle_def
        bindS_def record_attempt_def on_journal_def journal_recordStep_def call_dispatch_def retS_def throwS_def
        demo_live_def demo_world_def)
qed

lemma demo_accepted: "accepted_plan (demo_job ''b1'' Click)" "accepted_plan (demo_job ''c1'' (SetToggleState On))"
  unfolding demo_job_accepted
  by (simp_all add: demo_task_def valid_step_def valid_opt_def valid_text_def js_length_def utf16_units_def
      CONTROL_MAX_DEADLINE_MS_def)

theorem dispatches_are_guarded_witness:
  "resolveControlTarget demo_seen (ByRef ''b1'') = Inr (leaf ''b1'' ''button'' ''Save'') \<and>
   supportsControlAction (leaf ''b1'' ''button'' ''Save'') Click"
proof -
  have x: "exec_step demo_hmac (demo_wave ''b1'' Click) (EvTask 0 (\<lambda>_. 0) Begin) =
      foldl (exec_step demo_hmac) (demo_started (demo_job ''b1'' Click)) [EvTask 0 (\<lambda>_. 0) Begin]"
    by (simp add: demo_started_eq)
  have s: "new_scheduler = foldl sched_step new_scheduler []" by simp
  show ?thesis
    using dispatches_are_guarded [OF demo_accepted(1) s _ x] unfolding demo_click
    by (simp add: demo_world_def) (simp add: demo_task_def)
qed


text \<open>
  C19: What an execution that got its request returns accounts for the steps. The results are those of
  distinct steps in plan order; a completed or cancelled plan has one for every step; a completed
  plan has no failed step, and unless a step was cancelled every one of them succeeded.
\<close>

theorem returned_result_accounts_for_steps:
  assumes "accepted_plan plan" "s = foldl sched_step new_scheduler before" "w_dispatches w = []"
  and "fst (on_journal (claim hmac ps uuid (stamp now) owner plan) w) = Inr (r, False)"
  and "x = executed hmac ps stamp adapters uuid owner plan now started pclk clk after w s evs"
  and "ex_status x = Returned res"
  shows "(\<exists>A. map res_id (pr_steps res) = filter (\<lambda>i. i \<in> A) (map step_id (steps plan))) \<and>
    (pr_status res \<in> {PCompleted, PCancelled} \<longrightarrow> map res_id (pr_steps res) = map step_id (steps plan)) \<and>
    (pr_status res = PCompleted \<longrightarrow>
       (\<forall>q \<in> set (pr_steps res). res_status q \<in> {SSucceeded, SCancelled, SSkipped}) \<and>
       ((\<forall>q \<in> set (pr_steps res). res_status q \<noteq> SCancelled) \<longrightarrow> (\<forall>q \<in> set (pr_steps res). res_status q = SSucceeded)))"
proof -
  have "exec_sound plan x"
    unfolding assms(5)
    by (rule execute_inv [where stamp = stamp and now = now]) (use assms(1-4) sched_reachable [of before] in simp_all)
  then show ?thesis using assms(6) by (simp add: exec_sound_def exec_inv_def good_result_def)
qed

lemma demo_toggle:
  "\<exists>res. ex_status (foldl (exec_step demo_hmac) (demo_wave ''c1'' (SetToggleState On))
     [EvTask 0 (\<lambda>_. 0) Begin, EvJoin (\<lambda>_. 0) (\<lambda>_. 0) (\<lambda>_. 0)]) = Returned res \<and>
     pr_status res = PCompleted \<and> pr_steps res = [step_result (demo_task ''c1'' (SetToggleState On)) SSucceeded Matched]"
proof -
  let ?plan = "demo_job ''c1'' (SetToggleState On)" and ?t = "demo_task ''c1'' (SetToggleState On)"
  let ?node = "Node ''c1'' ''checkbox'' ''Wrap'' None (Some True) (Some On) [KSetToggleState] None None None"
  let ?r = "step_result ?t SSucceeded Matched"
  have target: "resolveControlTarget demo_seen (step_target ?t) = Inr ?node"
    by (simp add: demo_task_def) code_simp
  have check: "settle (check_and_dispatch (demo_ctx ?plan) ?t demo_seen (\<lambda>_. 0)) (demo_live ?plan) =
      (TSettled (Inr ?r), demo_live ?plan)"
    unfolding check_and_dispatch_def target sum.case
    by (simp add: demo_task_def failed_precondition_def supportsControlAction_def already_in_state_def settle_def retS_def)
  have sid: "step_surfaceId ?t = ''s1''" "step_id ?t = ''a''" by (simp_all add: demo_task_def)
  have steps: "steps ?plan = [?t]" "surfaceIds ?plan = [''s1'']" "out_full (plan_output ?plan)"
    by (simp_all add: demo_job_def)
  have loop: "plan_loop (demo_ctx ?plan) b (\<lambda>_. 0) 0 rs [] = DOutput rs" for b rs
    by (subst plan_loop.simps) simp
  have shown: "plan_output_of (demo_ctx ?plan) (\<lambda>_. 0) (demo_live ?plan) =
      (Inr (Some (Full \<lparr>f_observation = demo_seen, f_complete = True,
        f_appliedObservationId = Some (observationId demo_seen), f_continuation = None\<rparr>)), demo_live ?plan)"
    by (simp add: plan_output_of_def steps bindS_def demo_read_live retS_def)
  have finish: "\<exists>w'. finish_plan (demo_ctx ?plan) clk res w = (Inr res, w')" for clk res w
    by (auto simp: finish_plan_def bindS_def on_journal_def journal_finish_def retS_def Let_def split: prod.splits)
  have returns: "\<exists>w'. return_plan (demo_ctx ?plan) clk rs res w = (Returned res, w')" for clk rs res w
    using finish [of clk res w] by (auto simp: return_plan_def)
  show ?thesis
  proof -
    define x where "x = exec_step demo_hmac (demo_wave ''c1'' (SetToggleState On)) (EvTask 0 (\<lambda>_. 0) Begin)"
    have x: "ex_ctx x = demo_ctx ?plan" "ex_world x = demo_live ?plan" "ex_results x = []" "ex_pending x = []"
      "ex_wave x = [\<lparr>ta_step = ?t, ta_ticket = 0, ta_state = TSettled (Inr ?r)\<rparr>]" "ex_status x = Running"
      unfolding x_def demo_begin check by (simp_all add: demo_wave_def set_task_def)
    have clk: "shift k (\<lambda>_. 0 :: int) = (\<lambda>_. 0)" for k by (simp add: shift_def)
    obtain w' where w': "return_plan (demo_ctx ?plan) (\<lambda>_. 0) [(''a'', ?r)]
        (plan_result (demo_ctx ?plan) PCompleted [(''a'', ?r)] (Some (Full \<lparr>f_observation = demo_seen, f_complete = True,
          f_appliedObservationId = Some (observationId demo_seen), f_continuation = None\<rparr>)) None None) (demo_live ?plan) =
        (Returned (plan_result (demo_ctx ?plan) PCompleted [(''a'', ?r)] (Some (Full \<lparr>f_observation = demo_seen, f_complete = True,
          f_appliedObservationId = Some (observationId demo_seen), f_continuation = None\<rparr>)) None None), w')"
      using returns by blast
    have "ex_status (join_wave (\<lambda>_. 0) (\<lambda>_. 0) (\<lambda>_. 0) x) =
        Returned (plan_result (demo_ctx ?plan) PCompleted [(''a'', ?r)] (Some (Full \<lparr>f_observation = demo_seen, f_complete = True,
          f_appliedObservationId = Some (observationId demo_seen), f_continuation = None\<rparr>)) None None)"
      by (simp add: join_wave_def x loop_from_def loop decide_def shown sid clk w')
    then show ?thesis
      unfolding foldl_Cons foldl_Nil x_def [symmetric] by (simp add: x) (simp add: collected_def steps sid)
  qed
qed


theorem returned_result_accounts_for_steps_witness:
  "\<exists>res. ex_status (foldl (exec_step demo_hmac) (demo_wave ''c1'' (SetToggleState On))
       [EvTask 0 (\<lambda>_. 0) Begin, EvJoin (\<lambda>_. 0) (\<lambda>_. 0) (\<lambda>_. 0)]) = Returned res \<and>
     map res_id (pr_steps res) = [''a''] \<and> (\<forall>q \<in> set (pr_steps res). res_status q = SSucceeded)"
proof -
  obtain res where res: "ex_status (foldl (exec_step demo_hmac) (demo_wave ''c1'' (SetToggleState On))
       [EvTask 0 (\<lambda>_. 0) Begin, EvJoin (\<lambda>_. 0) (\<lambda>_. 0) (\<lambda>_. 0)]) = Returned res"
    and st: "pr_status res = PCompleted" "pr_steps res = [step_result (demo_task ''c1'' (SetToggleState On)) SSucceeded Matched]"
    using demo_toggle by blast
  have s: "new_scheduler = foldl sched_step new_scheduler []" by simp
  have w: "w_dispatches demo_world = []" by (simp add: demo_world_def)
  have c: "fst (on_journal (claim demo_hmac None ''p1'' ((\<lambda>_ :: int. ''t'') 0) ''alice'' (demo_job ''c1'' (SetToggleState On))) demo_world) =
      Inr (demo_record (demo_job ''c1'' (SetToggleState On)), False)"
    by (simp add: demo_claims)
  have x: "foldl (exec_step demo_hmac) (demo_wave ''c1'' (SetToggleState On)) [EvTask 0 (\<lambda>_. 0) Begin, EvJoin (\<lambda>_. 0) (\<lambda>_. 0) (\<lambda>_. 0)] =
      foldl (exec_step demo_hmac) (demo_started (demo_job ''c1'' (SetToggleState On))) [EvTask 0 (\<lambda>_. 0) Begin, EvJoin (\<lambda>_. 0) (\<lambda>_. 0) (\<lambda>_. 0)]"
    unfolding demo_started_eq by (rule refl)
  have steps: "map step_id (steps (demo_job ''c1'' (SetToggleState On))) = [''a'']" by (simp add: demo_job_def demo_task_def)
  from returned_result_accounts_for_steps [OF demo_accepted(2) s w c x res] st(1) st(2)
  show ?thesis unfolding res steps by (intro exI [of _ res]) (simp add: step_result_def)
qed

lemma executed_running:
  assumes "accepted_plan plan" "s = foldl sched_step new_scheduler before" "w_dispatches w = []"
  and "x = executed hmac ps stamp adapters uuid owner plan now started pclk clk after w s evs"
  and "ex_status x = Running"
  shows "exec_sound plan x"
proof (cases "\<exists>r. fst (on_journal (claim hmac ps uuid (stamp now) owner plan) w) = Inr (r, False)")
  case True
  then obtain r where r: "fst (on_journal (claim hmac ps uuid (stamp now) owner plan) w) = Inr (r, False)" by blast
  show ?thesis
    unfolding assms(4)
    by (rule execute_inv [where stamp = stamp and now = now and r = r])
       (use assms(1-3) r sched_reachable [of before] in simp_all)
next
  case False
  with execute_stopped [OF assms(3)] assms(4,5) show ?thesis by (auto simp: stopped_def)
qed

lemma awaits_other: "st \<noteq> TWaiting \<Longrightarrow> \<not> settled_task st \<Longrightarrow> \<exists>a. awaits st a \<and> a \<noteq> Begin"
proof (cases st)
  case TFirstObserve
  then show ?thesis by (intro exI [of _ "Observed undefined"]) simp
next
  case TDispatching
  then show ?thesis by (intro exI [of _ "Receipt undefined"]) simp
next
  case (TObserving d dl)
  then show ?thesis by (intro exI [of _ "Observed undefined"]) simp
next
  case (TSleeping d dl)
  then show ?thesis by (intro exI [of _ TimerFired]) simp
qed simp_all

text \<open>While steps are pending, one of them waits for nothing that is pending.\<close>

lemma pending_step_ready:
  assumes v: "valid_steps (steps plan) (surfaceIds plan)" and split: "split_ok plan results pending W"
    and "pending \<noteq> []"
  shows "\<exists>p \<in> set pending. \<forall>d \<in> set (dependsOn p). d \<in> dom (map_of results) \<or> d \<in> W"
proof -
  have "\<exists>p \<in> set pending. set (dependsOn p) \<subseteq> dom (map_of results) \<union> W"
    by (intro some_ready [OF v])
      (use split assms(3) in \<open>simp_all add: split_ok_def Un_ac Int_Un_distrib Int_Un_distrib2 Int_commute\<close>)
  then obtain p where p: "p \<in> set pending" "set (dependsOn p) \<subseteq> dom (map_of results) \<union> W" by (rule bexE)
  have "d \<in> dom (map_of results) \<or> d \<in> W" if "d \<in> set (dependsOn p)" for d
    using subsetD [OF p(2) that] by (rule UnE) (rule disjI1, assumption, rule disjI2, assumption)
  then show ?thesis by (intro bexI [OF _ p(1)] ballI)
qed

text \<open>A wave that waits for no answer has a longest waiting task, and that task can start.\<close>

lemma wave_can_proceed:
  assumes wave: "wave_ok plan results sched wave" and s: "sched_inv sched"
  shows "list_all (\<lambda>t. settled_task (ta_state t)) wave \<or>
     (\<exists>t \<in> set wave. \<exists>a. awaits (ta_state t) a \<and> (a = Begin \<longrightarrow> can_start sched (ta_ticket t))) \<or>
     (\<exists>u < length (runs sched). u \<notin> ta_ticket ` set wave \<and> phase_of sched u \<noteq> RFinished)"
    (is "?settled \<or> ?answer \<or> ?other")
proof (rule ccontr)
  assume no: "\<not> (?settled \<or> ?answer \<or> ?other)"
  then have na: "a = Begin \<and> \<not> can_start (sched) (ta_ticket t)"
    if "t \<in> set (wave)" "awaits (ta_state t) a" for t a
    using that by meson
  have nf: "phase_of (sched) p = RFinished" if "p < length (runs (sched))" "p \<notin> ta_ticket ` set (wave)" for p
    using that no by meson
  have waiting: "ta_state t = TWaiting \<or> settled_task (ta_state t)" if "t \<in> set (wave)" for t
    using na [OF that] awaits_other [of "ta_state t"] by blast
  from no obtain t where t: "t \<in> set (wave)" "\<not> settled_task (ta_state t)" by (auto simp: list_all_iff)
  define P where "P k \<longleftrightarrow> (\<exists>t \<in> set (wave). ta_ticket t = k \<and> ta_state t = TWaiting)" for k
  have "P (ta_ticket t)" using t waiting by (auto simp: P_def)
  then obtain k where k: "P k" "\<And>j. j < k \<Longrightarrow> \<not> P j" using exists_least_iff [of P] by blast
  then obtain u where u: "u \<in> set (wave)" "ta_ticket u = k" "ta_state u = TWaiting" by (auto simp: P_def)
  have ticket: "ticket_ok (sched) q" if "q \<in> set (wave)" for q using wave that by (simp add: wave_ok_def)
  have "phase_of (sched) p = RFinished" if "p < k" for p
  proof (cases "p \<in> ta_ticket ` set (wave)")
    case True
    then obtain q where q: "q \<in> set (wave)" "p = ta_ticket q" by blast
    with k(2) [OF that] waiting have "settled_task (ta_state q)" "ta_state q \<noteq> TWaiting" by (auto simp: P_def)
    with ticket [OF q(1)] q show ?thesis by (simp add: ticket_ok_def)
  next
    case False
    have "k < length (runs (sched))" using ticket [OF u(1)] u(2) by (simp add: ticket_ok_def)
    with that have "p < length (runs (sched))" by simp
    from nf [OF this False] show ?thesis .
  qed
  then have "can_start (sched) k"
    using ticket [OF u(1)] u s by (auto simp: can_start_def ticket_ok_def sched_inv_def preds_earlier_def)
  moreover have "awaits (ta_state u) Begin" using u(3) by simp
  ultimately show False using na [OF u(1)] u(2) by blast
qed



text \<open>
  Two steps of a wave that act on one surface are never both under way: while a step is between
  its start and its end, every run of the process that names the surface (of this execution or of
  another) is waiting or has ended.
\<close>

theorem surface_is_held_alone:
  assumes "accepted_plan plan" "s = foldl sched_step new_scheduler before" "w_dispatches w = []"
  and "x = executed hmac ps stamp adapters uuid owner plan now started pclk clk after w s evs"
  and "ex_status x = Running" "t \<in> set (ex_wave x)" "ta_state t \<noteq> TWaiting" "\<not> settled_task (ta_state t)"
  and "u < length (runs (ex_sched x))" "u \<noteq> ta_ticket t" "''surface:'' @ step_surfaceId (ta_step t) \<in> keys_of (ex_sched x) u"
  shows "phase_of (ex_sched x) u \<noteq> RActive"
proof
  assume a: "phase_of (ex_sched x) u = RActive"
  have inv: "exec_inv plan x" using executed_running [OF assms(1-5)] by (simp add: exec_sound_def)
  then have s: "sched_inv (ex_sched x)" and "wave_ok plan (ex_results x) (ex_sched x) (ex_wave x)"
    using assms(5) by (auto simp: exec_inv_def running_ok_def)
  then have "ticket_ok (ex_sched x) t" using assms(6) by (simp add: wave_ok_def)
  with assms(7,8,11) have "ta_ticket t < length (runs (ex_sched x))" "phase_of (ex_sched x) (ta_ticket t) = RActive"
    "shares (ex_sched x) u (ta_ticket t)"
    by (auto simp: ticket_ok_def shares_def)
  with active_alone [OF s assms(9)] a assms(10) show False by blast
qed

lemma demo_clicked:
  defines "x \<equiv> exec_step demo_hmac (demo_wave ''b1'' Click) (EvTask 0 (\<lambda>_. 0) Begin)"
  shows "ex_wave x = [\<lparr>ta_step = demo_task ''b1'' Click, ta_ticket = 0, ta_state = TDispatching\<rparr>]"
    "runs (ex_sched x) = [\<lparr>run_keys = [''surface:s1''], run_preds = [], run_phase = RActive\<rparr>]"
    "tails (ex_sched x) = [(''surface:s1'', 0)]" "ex_status x = Running"
proof -
  have target: "resolveControlTarget demo_seen (step_target (demo_task ''b1'' Click)) = Inr (leaf ''b1'' ''button'' ''Save'')"
    by (simp add: demo_task_def) code_simp
  have "\<exists>w. settle (check_and_dispatch (demo_ctx (demo_job ''b1'' Click)) (demo_task ''b1'' Click) demo_seen (\<lambda>_. 0))
      (demo_live (demo_job ''b1'' Click)) = (TDispatching, w)"
    unfolding check_and_dispatch_def target sum.case
    by (simp add: demo_task_def failed_precondition_def leaf_def supportsControlAction_def already_in_state_def settle_def
        bindS_def record_attempt_def on_journal_def journal_recordStep_def call_dispatch_def retS_def)
  then obtain w where w: "settle (check_and_dispatch (demo_ctx (demo_job ''b1'' Click)) (demo_task ''b1'' Click) demo_seen (\<lambda>_. 0))
      (demo_live (demo_job ''b1'' Click)) = (TDispatching, w)" by blast
  show "ex_wave x = [\<lparr>ta_step = demo_task ''b1'' Click, ta_ticket = 0, ta_state = TDispatching\<rparr>]"
    "runs (ex_sched x) = [\<lparr>run_keys = [''surface:s1''], run_preds = [], run_phase = RActive\<rparr>]"
    "tails (ex_sched x) = [(''surface:s1'', 0)]" "ex_status x = Running"
    unfolding x_def demo_begin w by (simp_all add: demo_wave_def set_task_def sched_eval)
qed

theorem surface_is_held_alone_witness:
  "phase_of (ex_sched (exec_step demo_hmac (exec_step demo_hmac (demo_wave ''b1'' Click) (EvTask 0 (\<lambda>_. 0) Begin))
     (EvSched (EvEnqueue [''surface:s1''])))) 1 \<noteq> RActive"
proof -
  define x1 where "x1 = exec_step demo_hmac (demo_wave ''b1'' Click) (EvTask 0 (\<lambda>_. 0) Begin)"
  note c = demo_clicked [folded x1_def]
  let ?x = "exec_step demo_hmac x1 (EvSched (EvEnqueue [''surface:s1'']))"
  have x: "?x = foldl (exec_step demo_hmac) (demo_started (demo_job ''b1'' Click))
      [EvTask 0 (\<lambda>_. 0) Begin, EvSched (EvEnqueue [''surface:s1''])]"
    unfolding demo_started_eq foldl_Cons foldl_Nil x1_def by (rule refl)
  have s: "new_scheduler = foldl sched_step new_scheduler []" by simp
  have w: "w_dispatches demo_world = []" by (simp add: demo_world_def)
  have t: "\<lparr>ta_step = demo_task ''b1'' Click, ta_ticket = 0, ta_state = TDispatching\<rparr> \<in> set (ex_wave ?x)"
    and run: "ex_status ?x = Running"
    by (simp_all add: c)
  have rs: "runs (ex_sched ?x) = [\<lparr>run_keys = [''surface:s1''], run_preds = [], run_phase = RActive\<rparr>,
      \<lparr>run_keys = [''surface:s1''], run_preds = [0], run_phase = RWaiting\<rparr>]"
    by (simp add: c enqueue_def resources_def Let_def)
  show ?thesis
    unfolding x1_def [symmetric]
    by (rule surface_is_held_alone [OF demo_accepted(1) s w x run t]) (simp_all only: rs, simp_all add: demo_task_def)
qed

end
