(* ===== verification/TextPatterns.thy ===== *)
theory TextPatterns
  imports Json
begin

text \<open>
  What the guards share: the pieces of JavaScript regular expressions they are written with (a run of
  \<open>.\<close>, white space, a choice of words), and \<open>split\<close> and \<open>trim\<close>. Texts are UTF-8 bytes, and a class of
  characters is a list of byte strings.
\<close>

section \<open>Splitting\<close>

definition splits :: "'a list \<Rightarrow> ('a list \<times> 'a list) list" where
  "splits s = map (\<lambda>i. (take i s, drop i s)) [0..<Suc (length s)]"

lemma splits_iff [simp]: "(a, b) \<in> set (splits s) \<longleftrightarrow> s = a @ b"
  by (auto simp: splits_def image_iff intro!: bexI [of _ "length a"])

lemma ex_splits: "list_ex (\<lambda>(a, b). P a b) (splits s) \<longleftrightarrow> (\<exists>a b. s = a @ b \<and> P a b)"
  using splits_iff [of _ _ s] by (simp only: list_ex_iff) blast

text \<open>\<open>split\<close> at every character of a class; there is always at least one piece.\<close>

fun split_at :: "('a \<Rightarrow> bool) \<Rightarrow> 'a list \<Rightarrow> 'a list list" where
  "split_at sep [] = [[]]"
| "split_at sep (c # s) =
     (if sep c then [] # split_at sep s
      else (case split_at sep s of p # ps \<Rightarrow> (c # p) # ps | [] \<Rightarrow> [[c]]))"

lemma split_at_nonempty [simp]: "split_at sep s \<noteq> []"
  by (cases s) (auto split: list.splits)

lemma split_at_Cons: "\<not> sep c \<Longrightarrow> split_at sep (c # s) = (c # hd (split_at sep s)) # tl (split_at sep s)"
  by (cases "split_at sep s") simp_all

lemma split_at_pieces: "p \<in> set (split_at sep s) \<Longrightarrow> c \<in> set p \<Longrightarrow> \<not> sep c \<and> c \<in> set s"
proof (induction s arbitrary: p)
  case (Cons d s)
  obtain q qs where sp: "split_at sep s = q # qs" by (cases "split_at sep s") auto
  with Cons.prems consider "p = []" | "p \<in> set (split_at sep s)" | "\<not> sep d" "p = d # q"
    by (auto split: if_splits)
  then show ?case using Cons.IH [of p] Cons.IH [of q] Cons.prems(2) sp by cases auto
qed simp

lemma split_at_append: "sep c \<Longrightarrow> split_at sep (a @ c # b) = split_at sep a @ split_at sep b"
proof (induction a)
  case (Cons d a)
  then show ?case by (cases "split_at sep a") auto
qed simp

lemma split_at_word: "\<forall>c \<in> set s. \<not> sep c \<Longrightarrow> split_at sep s = [s]"
  by (induction s) auto

text \<open>\<open>join\<close>, an expression without anchors, and \<open>replace\<close> of an anchored suffix.\<close>

fun join_text :: "'a list \<Rightarrow> 'a list list \<Rightarrow> 'a list" where
  "join_text sep [] = []"
| "join_text sep [p] = p"
| "join_text sep (p # q # ps) = p @ sep @ join_text sep (q # ps)"

definition contains_text :: "string \<Rightarrow> string \<Rightarrow> bool" where
  "contains_text w s = list_ex (\<lambda>(a, b). has_prefix w b) (splits s)"

definition has_suffix :: "'a list \<Rightarrow> 'a list \<Rightarrow> bool" where
  "has_suffix w s \<longleftrightarrow> drop (length s - length w) s = w"

definition cut_suffix :: "'a list \<Rightarrow> 'a list \<Rightarrow> 'a list" where
  "cut_suffix w s = (if has_suffix w s then take (length s - length w) s else s)"

section \<open>Runs\<close>

text \<open>Where a character begins: a run ends between characters, never inside one.\<close>

definition at_boundary :: "string \<Rightarrow> bool" where
  "at_boundary s = (case s of [] \<Rightarrow> True | c # _ \<Rightarrow> of_char c div 64 \<noteq> (2 :: nat))"

lemma at_boundary_Nil [simp]: "at_boundary []"
  by (simp add: at_boundary_def)

text \<open>What \<open>.*\<close> runs over: text without a line terminator (LF, CR, U+2028, U+2029).\<close>

definition line_terminators :: "string list" where
  "line_terminators = [[CHR 0x0A], [CHR 0x0D], [CHR 0xE2, CHR 0x80, CHR 0xA8], [CHR 0xE2, CHR 0x80, CHR 0xA9]]"

fun dot_run :: "string \<Rightarrow> bool" where
  "dot_run [] = True"
| "dot_run (c # s) = (\<not> list_ex (\<lambda>t. has_prefix t (c # s)) line_terminators \<and> dot_run s)"

lemma has_prefix_append: "has_prefix t s \<Longrightarrow> has_prefix t (s @ u)"
  by (auto simp: has_prefix_def) (metis append_Nil2 length_take min.absorb_iff2 min_def take_all_iff take_append nat_le_linear diff_is_0_eq' take_0)

lemma dot_run_append: "dot_run (a @ b) \<Longrightarrow> dot_run a \<and> dot_run b"
proof (induction a)
  case (Cons c a)
  then show ?case using has_prefix_append [of _ "c # a" b] by (auto simp: list_ex_iff)
qed simp

text \<open>\<open>\s\<close>: the white space of the language.\<close>

definition white_points :: "string list" where
  "white_points = [[CHR 0x09], [CHR 0x0B], [CHR 0x0C], [CHR '' ''], [CHR 0xC2, CHR 0xA0], [CHR 0xE1, CHR 0x9A, CHR 0x80],
     [CHR 0xE2, CHR 0x80, CHR 0x80], [CHR 0xE2, CHR 0x80, CHR 0x81], [CHR 0xE2, CHR 0x80, CHR 0x82], [CHR 0xE2, CHR 0x80, CHR 0x83],
     [CHR 0xE2, CHR 0x80, CHR 0x84], [CHR 0xE2, CHR 0x80, CHR 0x85], [CHR 0xE2, CHR 0x80, CHR 0x86], [CHR 0xE2, CHR 0x80, CHR 0x87],
     [CHR 0xE2, CHR 0x80, CHR 0x88], [CHR 0xE2, CHR 0x80, CHR 0x89], [CHR 0xE2, CHR 0x80, CHR 0x8A], [CHR 0xE2, CHR 0x80, CHR 0xAF],
     [CHR 0xE2, CHR 0x81, CHR 0x9F], [CHR 0xE3, CHR 0x80, CHR 0x80], [CHR 0xEF, CHR 0xBB, CHR 0xBF]] @ line_terminators"

definition leading_white :: "string \<Rightarrow> nat" where
  "leading_white s = (case find (\<lambda>w. has_prefix w s) white_points of None \<Rightarrow> 0 | Some w \<Rightarrow> length w)"

function skip_white :: "string \<Rightarrow> string" where
  "skip_white s = (if leading_white s = 0 then s else skip_white (drop (leading_white s) s))"
  by pat_completeness auto
termination
proof (relation "measure length")
  fix s :: string
  assume pos: "leading_white s \<noteq> 0"
  then obtain w where w: "find (\<lambda>w. has_prefix w s) white_points = Some w" "leading_white s = length w"
    by (auto simp: leading_white_def split: option.splits)
  then have "has_prefix w s" by (auto simp: find_Some_iff)
  with pos w have "s \<noteq> []" by (auto simp: has_prefix_def)
  with pos show "(drop (leading_white s) s, s) \<in> measure length" by simp
qed simp

declare skip_white.simps [simp del]

text \<open>\<open>\s+\<close>\<close>

definition white :: "string \<Rightarrow> bool" where
  "white s \<longleftrightarrow> s \<noteq> [] \<and> skip_white s = []"

text \<open>\<open>trim\<close>: white space is taken from the front, then from the end as long as the text ends with some.\<close>

function trim_end :: "string \<Rightarrow> string" where
  "trim_end s =
     (case find (\<lambda>w. w \<noteq> [] \<and> has_prefix (rev w) (rev s)) white_points of
        None \<Rightarrow> s | Some w \<Rightarrow> trim_end (take (length s - length w) s))"
  by pat_completeness auto
termination
proof (relation "measure length")
  fix s w :: string
  assume "find (\<lambda>w. w \<noteq> [] \<and> has_prefix (rev w) (rev s)) white_points = Some w"
  then have w: "w \<noteq> []" "has_prefix (rev w) (rev s)" by (auto simp: find_Some_iff)
  then have "s \<noteq> []" by (auto simp: has_prefix_def)
  with w show "(take (length s - length w) s, s) \<in> measure length" by (simp add: diff_less)
qed simp

declare trim_end.simps [simp del]

definition js_trim :: "string \<Rightarrow> string" where
  "js_trim s = trim_end (skip_white s)"

end
