(* ===== verification/Permissions.thy ===== *)
theory Permissions
  imports TextPatterns "HOL-Library.Multiset"
begin

text \<open>
  apps/core/src/policy/permissions.ts and command-matcher.ts over packages/store/src/permissions.ts: the
  remembered permission rules of the gateway, how they are stored, which of them apply to a caller, which
  one decides, the summary of them a client sees, and the text a command is matched as.

  A row of the table and the rule read from it have the same fields; \<open>fromRow\<close> only renames them.
  Texts are UTF-8 bytes. \<open>Date.parse\<close> and \<open>localeCompare\<close> are parameters, and so is the clock.
\<close>

section \<open>Rules and their table\<close>

datatype perm_effect = AllowRule | DenyRule
datatype perm_scope = OnceRule | SessionRule | WorkspaceRule | GlobalRule
datatype perm_risk = RiskLow | RiskMedium | RiskHigh | RiskCritical

record permission_rule =
  pm_id :: string
  pm_effect :: perm_effect
  pm_capability :: string
  pm_scope :: perm_scope
  pm_workspaceId :: "string option"
  pm_actor :: "string option"
  pm_sessionId :: "string option"
  pm_matcher :: string
  pm_createdAt :: string
  pm_lastUsedAt :: "string option"
  pm_expiresAt :: "string option"
  pm_version :: int
  pm_status :: string
  pm_predicate :: "string option"

text \<open>What \<open>upsert\<close> is given: a rule that may leave out what has a default.\<close>

record rule_input =
  ri_rule :: permission_rule
  ri_createdAt :: "string option"
  ri_version :: "int option"
  ri_status :: "string option"

definition stored_row :: "string \<Rightarrow> rule_input \<Rightarrow> permission_rule" where
  "stored_row now inp =
     (let r = ri_rule inp in
      r\<lparr>pm_createdAt := (case ri_createdAt inp of None \<Rightarrow> now | Some t \<Rightarrow> t),
        pm_version := (case ri_version inp of None \<Rightarrow> if js_truthy_text (pm_predicate r) then 2 else 1 | Some v \<Rightarrow> v),
        pm_status := (case ri_status inp of None \<Rightarrow> ''active'' | Some s \<Rightarrow> s)\<rparr>)"

text \<open>\<open>INSERT OR REPLACE\<close> on the primary key.\<close>

definition upsert :: "string \<Rightarrow> rule_input \<Rightarrow> permission_rule list \<Rightarrow> permission_rule list" where
  "upsert now inp rows = filter (\<lambda>r. pm_id r \<noteq> pm_id (ri_rule inp)) rows @ [stored_row now inp]"

text \<open>
  One transaction: the first rule the database refuses (\<open>accepts\<close>: its constraints) rolls all of them
  back.
\<close>

definition upsertMany :: "(permission_rule \<Rightarrow> bool) \<Rightarrow> string \<Rightarrow> rule_input list \<Rightarrow> permission_rule list \<Rightarrow> bool \<times> permission_rule list" where
  "upsertMany accepts now inps rows =
     (if list_all (accepts \<circ> stored_row now) inps then (True, fold (upsert now) inps rows) else (False, rows))"

definition delete_rule :: "string \<Rightarrow> permission_rule list \<Rightarrow> permission_rule list" where
  "delete_rule rid rows = filter (\<lambda>r. pm_id r \<noteq> rid) rows"

definition get_rule :: "string \<Rightarrow> permission_rule list \<Rightarrow> permission_rule option" where
  "get_rule rid rows = find (\<lambda>r. pm_id r = rid) rows"

definition expireSession :: "string \<Rightarrow> permission_rule list \<Rightarrow> permission_rule list" where
  "expireSession sid rows = filter (\<lambda>r. \<not> (pm_scope r = SessionRule \<and> pm_sessionId r = Some sid)) rows"

section \<open>Matchers\<close>

abbreviation split_star :: "string \<Rightarrow> string list" where
  "split_star \<equiv> split_at (\<lambda>c. c = CHR ''*'')"

text \<open>The anchored expression: the parts in order, with a run between neighbours.\<close>

fun parts_match :: "string list \<Rightarrow> string \<Rightarrow> bool" where
  "parts_match [] v = (v = [])"
| "parts_match [p] v = (v = p)"
| "parts_match (p # q # ps) v =
     (has_prefix p v \<and> list_ex (\<lambda>(run, rest). dot_run run \<and> at_boundary rest \<and> parts_match (q # ps) rest) (splits (drop (length p) v)))"

definition matches :: "string \<Rightarrow> string \<Rightarrow> bool" where
  "matches pattern v = (pattern = v \<or> parts_match (split_star pattern) v)"

fun count_words :: "bool \<Rightarrow> string \<Rightarrow> nat" where
  "count_words inside [] = 0"
| "count_words inside (c # s) =
     (if c \<in> {CHR '':'', CHR ''/'', CHR ''*''} then count_words False s
      else (if inside then 0 else 1) + count_words True s)"

definition matcherScore :: "string \<Rightarrow> int" where
  "matcherScore m = int (count_words False m) * 10 + (if CHR ''*'' \<in> set m then 0 else 5)"

definition scopeScore :: "perm_scope \<Rightarrow> int" where
  "scopeScore s = (case s of GlobalRule \<Rightarrow> 1 | WorkspaceRule \<Rightarrow> 2 | SessionRule \<Rightarrow> 3 | OnceRule \<Rightarrow> 4)"

definition specificityScore :: "permission_rule \<Rightarrow> int" where
  "specificityScore r = scopeScore (pm_scope r) * 100 + matcherScore (pm_matcher r)"

definition specificity :: "(string \<Rightarrow> string \<Rightarrow> int) \<Rightarrow> permission_rule \<Rightarrow> permission_rule \<Rightarrow> int" where
  "specificity localeCompare a b =
     (let sa = specificityScore a; sb = specificityScore b in
      if sa \<noteq> sb then sb - sa
      else if pm_effect a \<noteq> pm_effect b then (if pm_effect a = DenyRule then -1 else 1)
      else localeCompare (pm_id a) (pm_id b))"

section \<open>Deciding\<close>

record perm_query =
  pq_capability :: string
  pq_matcher :: string
  pq_workspaceId :: "string option"
  pq_actor :: "string option"
  pq_sessionId :: "string option"
  pq_risk :: perm_risk

definition applicable :: "(string \<Rightarrow> int option) \<Rightarrow> int \<Rightarrow> perm_query \<Rightarrow> permission_rule \<Rightarrow> bool" where
  "applicable date_parse now q r \<longleftrightarrow>
     (\<not> js_truthy_text (pm_expiresAt r) \<or> (case date_parse (the (pm_expiresAt r)) of Some t \<Rightarrow> t > now | None \<Rightarrow> False)) \<and>
     (\<not> js_truthy_text (pm_actor r) \<or> pm_actor r = pq_actor q) \<and>
     (if pm_scope r = WorkspaceRule then pm_workspaceId r = pq_workspaceId q
      else \<not> js_truthy_text (pm_workspaceId r) \<or> pm_workspaceId r = pq_workspaceId q) \<and>
     (if pm_scope r = SessionRule then pm_sessionId r = pq_sessionId q
      else \<not> js_truthy_text (pm_sessionId r) \<or> pm_sessionId r = pq_sessionId q) \<and>
     \<not> (pm_status r = ''needs-review'' \<and> pm_effect r = AllowRule)"

definition considered :: "(string \<Rightarrow> int option) \<Rightarrow> int \<Rightarrow> perm_query \<Rightarrow> permission_rule list \<Rightarrow> permission_rule list" where
  "considered date_parse now q rows =
     filter (\<lambda>r. pm_capability r = pq_capability q \<and> matches (pm_matcher r) (pq_matcher q))
       (filter (applicable date_parse now q) rows)"

text \<open>\<open>sort\<close> is a stable sort; only its first element is used.\<close>

fun insert_by :: "('a \<Rightarrow> 'a \<Rightarrow> int) \<Rightarrow> 'a \<Rightarrow> 'a list \<Rightarrow> 'a list" where
  "insert_by cmp x [] = [x]"
| "insert_by cmp x (y # ys) = (if cmp x y \<le> 0 then x # y # ys else y # insert_by cmp x ys)"

definition sort_by :: "('a \<Rightarrow> 'a \<Rightarrow> int) \<Rightarrow> 'a list \<Rightarrow> 'a list" where
  "sort_by cmp xs = foldr (insert_by cmp) xs []"

text \<open>A decision with its rule, or the reason of an approval; the reason beside a rule id is left out.\<close>

datatype perm_decision = PermAllow string | PermDeny string | PermApproval string

definition decidePermission ::
    "(string \<Rightarrow> string \<Rightarrow> int) \<Rightarrow> (string \<Rightarrow> int option) \<Rightarrow> int \<Rightarrow> perm_query \<Rightarrow> permission_rule list \<Rightarrow> perm_decision" where
  "decidePermission localeCompare date_parse now q rows =
     (let matched = (case sort_by (specificity localeCompare) (considered date_parse now q rows) of
           [] \<Rightarrow> None | r # _ \<Rightarrow> Some r) in
      case matched of
        Some r \<Rightarrow>
          if pm_effect r = DenyRule then PermDeny (pm_id r)
          else if pq_risk q = RiskCritical then PermApproval ''critical operations require one-time local authorization''
          else PermAllow (pm_id r)
      | None \<Rightarrow>
          if pq_risk q = RiskCritical then PermApproval ''critical operations require one-time local authorization''
          else PermApproval ''no remembered permission rule'')"

section \<open>The summary\<close>

definition capabilityOrder :: "string list" where
  "capabilityOrder = [''files.read'', ''files.search'', ''git.read'', ''skills.read'', ''instructions.read'',
     ''files.write'', ''files.delete'', ''commands.run'', ''git.commit'', ''git.push'', ''network'', ''skills.write'',
     ''instructions.write'', ''browser.control'', ''desktop.control'', ''mcp.proxy'']"

text \<open>The loop over the capabilities, with the set of effective ones and the command matchers found so far.\<close>

definition summary_step :: "permission_rule list \<Rightarrow> string list \<Rightarrow> string \<Rightarrow> string set \<times> string list \<Rightarrow> string set \<times> string list" where
  "summary_step rules baseline cap acc =
     (let denies = filter (\<lambda>r. pm_capability r = cap \<and> pm_effect r = DenyRule) rules;
          allows = filter (\<lambda>r. pm_capability r = cap \<and> pm_effect r = AllowRule) rules;
          wildcardDenied = list_ex (\<lambda>r. pm_matcher r = ''*'') denies;
          eff = (if cap \<in> set baseline \<and> \<not> wildcardDenied then insert cap (fst acc) else fst acc) in
      if cap = ''commands.run'' then
        (let ms = snd acc @ filter (\<lambda>m. \<not> list_ex (\<lambda>d. matches (pm_matcher d) m) denies) (rev (remdups (rev (map pm_matcher allows)))) in
         (if ms \<noteq> [] then insert ''commands.run'' eff else eff, ms))
      else (if \<not> wildcardDenied \<and> list_ex (\<lambda>r. pm_matcher r = ''*'') allows then insert cap eff else eff, snd acc))"

definition summary ::
    "(string \<Rightarrow> int option) \<Rightarrow> int \<Rightarrow> perm_query \<Rightarrow> string list \<Rightarrow> permission_rule list \<Rightarrow> string list \<times> string list" where
  "summary date_parse now q baseline rows =
     (let rules = filter (applicable date_parse now q) rows;
          (eff, ms) = fold (summary_step rules baseline) capabilityOrder ({}, []) in
      (filter (\<lambda>c. c \<in> eff) capabilityOrder, ms))"

section \<open>The matcher of a command\<close>

text \<open>apps/core/src/policy/command-matcher.ts; \<open>lower\<close> is \<open>toLowerCase\<close>.\<close>

definition SUBCOMMAND_EXECUTABLES :: "string list" where
  "SUBCOMMAND_EXECUTABLES = [''git'', ''npm'', ''pnpm'', ''yarn'', ''cargo'', ''dotnet'', ''go'', ''rustup'', ''npx'']"

definition SHELLS :: "string list" where
  "SHELLS = [''bash'', ''sh'', ''powershell'', ''powershell.exe'', ''pwsh'', ''pwsh.exe'']"

definition executableName :: "(string \<Rightarrow> string) \<Rightarrow> string \<Rightarrow> string" where
  "executableName lower v =
     cut_suffix ''.exe'' (lower (last (split_at (\<lambda>c. c = CHR ''/'' \<or> c = CHR 0x5C) (if v = [] then ''unknown'' else v))))"

definition push_part :: "string list \<Rightarrow> string \<Rightarrow> string list" where
  "push_part parts v = (if v = ''*'' \<and> parts \<noteq> [] \<and> last parts = ''*'' then parts else parts @ [v])"

fun token_parts :: "bool \<Rightarrow> string list \<Rightarrow> string list \<Rightarrow> string list" where
  "token_parts after [] parts = parts"
| "token_parts after (t # ts) parts =
     (if after then token_parts after ts (push_part parts ''*'')
      else if t = ''--'' then token_parts True ts (parts @ [''--''])
      else if has_prefix ''-'' t then
        (if CHR ''='' \<in> set t then token_parts after ts (push_part (parts @ [takeWhile (\<lambda>c. c \<noteq> CHR ''='') t]) ''*'')
         else token_parts after ts (parts @ [t]))
      else token_parts after ts (push_part parts ''*''))"

definition commandPermissionMatcher :: "(string \<Rightarrow> string) \<Rightarrow> string list \<Rightarrow> string option \<Rightarrow> bool \<Rightarrow> string" where
  "commandPermissionMatcher lower argv shell host =
     (let rawExe = (case argv of [] \<Rightarrow> ''unknown'' | a # _ \<Rightarrow> a);
          exe = executableName lower rawExe;
          requestedShell = (case shell of None \<Rightarrow> [] | Some s \<Rightarrow> lower s);
          suffix = (if host then '':host-fallback'' else []) in
      if requestedShell \<noteq> [] \<or> lower rawExe \<in> set SHELLS \<or> exe \<in> set SHELLS then
        ''shell:'' @ (if requestedShell \<noteq> [] then requestedShell
                     else if contains_text ''power'' exe \<or> contains_text ''pwsh'' exe then ''powershell'' else exe) @ '':*'' @ suffix
      else
        (let args = drop 1 argv in
         join_text '':''
           (if exe \<in> set SUBCOMMAND_EXECUTABLES \<and> args \<noteq> [] \<and> hd args \<noteq> [] \<and> \<not> has_prefix ''-'' (hd args)
            then token_parts False (tl args) [exe, lower (hd args)]
            else token_parts False args [exe]) @ suffix))"

definition needsCommandPermissionApproval :: "perm_decision option \<Rightarrow> bool \<Rightarrow> bool" where
  "needsCommandPermissionApproval outcome oneTimeAllowed \<longleftrightarrow>
     \<not> oneTimeAllowed \<and> (case outcome of Some (PermAllow _) \<Rightarrow> False | _ \<Rightarrow> True)"

section \<open>The matcher\<close>

text \<open>The language of a matcher: literal parts, separated by runs within a line.\<close>

inductive glob_word :: "string \<Rightarrow> string \<Rightarrow> bool" where
  "glob_word [] []"
| "c \<noteq> CHR ''*'' \<Longrightarrow> glob_word p v \<Longrightarrow> glob_word (c # p) (c # v)"
| "dot_run run \<Longrightarrow> at_boundary v \<Longrightarrow> glob_word p v \<Longrightarrow> glob_word (CHR ''*'' # p) (run @ v)"

inductive_simps glob_word_Nil [simp]: "glob_word [] v"
inductive_simps glob_word_star: "glob_word (CHR ''*'' # p) v"
inductive_simps glob_word_letter: "glob_word (c # p) v"

lemma parts_match_Cons:
  "parts_match (p # q # ps) v \<longleftrightarrow> (\<exists>run v'. v = p @ run @ v' \<and> dot_run run \<and> at_boundary v' \<and> parts_match (q # ps) v')"
proof
  assume l: "parts_match (p # q # ps) v"
  then have "v = p @ drop (length p) v" by (metis append_take_drop_id has_prefix_def parts_match.simps(3))
  moreover from l obtain run v' where "drop (length p) v = run @ v'" "dot_run run" "at_boundary v'" "parts_match (q # ps) v'"
    by (auto simp: ex_splits)
  ultimately show "\<exists>run v'. v = p @ run @ v' \<and> dot_run run \<and> at_boundary v' \<and> parts_match (q # ps) v'" by metis
next
  assume "\<exists>run v'. v = p @ run @ v' \<and> dot_run run \<and> at_boundary v' \<and> parts_match (q # ps) v'"
  then show "parts_match (p # q # ps) v" by (simp add: ex_splits has_prefix_def) force
qed

lemma parts_match_step:
  "parts_match ((c # p) # ps) v \<longleftrightarrow> (\<exists>v'. v = c # v' \<and> parts_match (p # ps) v')"
  by (cases ps) (auto simp: parts_match_Cons simp del: parts_match.simps(3))

lemma parts_match_glob: "parts_match (split_star p) v \<longleftrightarrow> glob_word p v"
proof (induction p arbitrary: v)
  case (Cons c p)
  obtain q ps where sp: "split_star p = q # ps" by (cases "split_star p") auto
  show ?case
  proof (cases "c = CHR ''*''")
    case True
    have "parts_match ([] # split_star p) v \<longleftrightarrow> (\<exists>run v'. v = run @ v' \<and> dot_run run \<and> at_boundary v' \<and> glob_word p v')"
      using Cons.IH sp by (simp add: parts_match_Cons del: parts_match.simps(3))
    also have "\<dots> \<longleftrightarrow> glob_word (CHR ''*'' # p) v"
      by (auto simp: glob_word_star)
    finally show ?thesis using True by simp
  next
    case False
    then have "parts_match (split_star (c # p)) v \<longleftrightarrow> (\<exists>v'. v = c # v' \<and> glob_word p v')"
      using Cons.IH by (simp add: sp parts_match_step)
    then show ?thesis using False by (auto simp: glob_word_letter)
  qed
qed simp

lemma matches_exact: "matches p v \<longleftrightarrow> p = v \<or> glob_word p v"
  by (simp add: matches_def parts_match_glob)

lemma matches_wildcard: "matches ''*'' v \<longleftrightarrow> v = ''*'' \<or> dot_run v"
  by (auto simp: matches_exact glob_word_star)

section \<open>The first rule\<close>

text \<open>Whatever \<open>localeCompare\<close> answers, the first rule is the most specific, and a deny where one is.\<close>

lemma insert_by_mset [simp]: "mset (insert_by cmp x xs) = add_mset x (mset xs)"
  by (induction xs) auto

lemma sort_by_mset [simp]: "mset (sort_by cmp xs) = mset xs"
  by (induction xs) (simp_all add: sort_by_def)

lemma insert_by_set [simp]: "set (insert_by cmp x xs) = insert x (set xs)"
  by (induction xs) auto

lemma sort_by_set [simp]: "set (sort_by cmp xs) = set xs"
  by (induction xs) (simp_all add: sort_by_def)

lemma sort_by_Nil [simp]: "sort_by cmp xs = [] \<longleftrightarrow> xs = []"
  by (metis set_empty sort_by_set)

lemma insert_by_hd:
  assumes key: "\<And>a b. f a < (f b :: int) \<Longrightarrow> cmp a b < 0" "\<And>a b. f a > f b \<Longrightarrow> cmp a b > 0"
    and first: "\<forall>y \<in> set xs. f (hd xs) \<le> f y" and y: "y \<in> set (insert_by cmp x xs)"
  shows "f (hd (insert_by cmp x xs)) \<le> f y"
proof (cases xs)
  case (Cons z zs)
  have zx: "cmp x z \<le> 0 \<Longrightarrow> f x \<le> f z" using key(2) [of z x] by force
  have xz: "\<not> cmp x z \<le> 0 \<Longrightarrow> f z \<le> f x" using key(1) [of x z] by force
  have low: "\<forall>y \<in> set zs. f z \<le> f y" using first Cons by simp
  show ?thesis using zx xz low y unfolding Cons by (auto split: if_splits intro: order_trans)
qed (use y in simp)

lemma sort_by_hd:
  assumes "\<And>a b. f a < (f b :: int) \<Longrightarrow> cmp a b < 0" "\<And>a b. f a > f b \<Longrightarrow> cmp a b > 0"
  shows "\<forall>y \<in> set xs. f (hd (sort_by cmp xs)) \<le> f y"
proof (induction xs)
  case (Cons x xs)
  have "sort_by cmp (x # xs) = insert_by cmp x (sort_by cmp xs)" by (simp add: sort_by_def)
  then show ?case using insert_by_hd [of f cmp "sort_by cmp xs" _ x, OF assms] Cons.IH by simp
qed simp

definition rank :: "permission_rule \<Rightarrow> int" where
  "rank r = - 2 * specificityScore r + (if pm_effect r = DenyRule then 0 else 1)"

lemma specificity_rank: "rank a < rank b \<Longrightarrow> specificity lc a b < 0" "rank a > rank b \<Longrightarrow> specificity lc a b > 0"
  by (cases "pm_effect a"; cases "pm_effect b"; auto simp: rank_def specificity_def Let_def)+

lemma first_rule:
  assumes "sort_by (specificity lc) rs = r # rest"
  shows "r \<in> set rs" "y \<in> set rs \<Longrightarrow> rank r \<le> rank y"
proof -
  have "set (sort_by (specificity lc) rs) = set rs" by simp
  then show "r \<in> set rs" using assms by (metis list.set_intros(1))
  have "\<forall>y \<in> set rs. rank (hd (sort_by (specificity lc) rs)) \<le> rank y"
    by (rule sort_by_hd) (erule specificity_rank)+
  then show "y \<in> set rs \<Longrightarrow> rank r \<le> rank y" using assms by simp
qed

section \<open>What decides\<close>

text \<open>The rules that bear on a query, by the language of their matchers.\<close>

definition bears :: "(string \<Rightarrow> int option) \<Rightarrow> int \<Rightarrow> perm_query \<Rightarrow> permission_rule list \<Rightarrow> permission_rule \<Rightarrow> bool" where
  "bears date_parse now q rows r \<longleftrightarrow> r \<in> set rows \<and> applicable date_parse now q r \<and> pm_capability r = pq_capability q \<and>
     (pm_matcher r = pq_matcher q \<or> glob_word (pm_matcher r) (pq_matcher q))"

lemma considered_bears: "set (considered date_parse now q rows) = {r. bears date_parse now q rows r}"
  by (auto simp: considered_def bears_def matches_exact)

lemma rank_le: "rank r \<le> rank y \<longleftrightarrow>
    specificityScore y < specificityScore r \<or> (specificityScore y = specificityScore r \<and> (pm_effect r = DenyRule \<or> pm_effect y = AllowRule))"
  by (cases "pm_effect r"; cases "pm_effect y") (auto simp: rank_def)

lemma decide_cases:
  obtains (none) "\<And>r. \<not> bears date_parse now q rows r" "\<exists>why. decidePermission lc date_parse now q rows = PermApproval why"
  | (first) r where "bears date_parse now q rows r" "\<And>y. bears date_parse now q rows y \<Longrightarrow> rank r \<le> rank y"
      "decidePermission lc date_parse now q rows =
         (if pm_effect r = DenyRule then PermDeny (pm_id r)
          else if pq_risk q = RiskCritical then PermApproval ''critical operations require one-time local authorization''
          else PermAllow (pm_id r))"
proof (cases "sort_by (specificity lc) (considered date_parse now q rows)")
  case Nil
  then have "considered date_parse now q rows = []" by simp
  with considered_bears [of date_parse now q rows] have "\<And>r. \<not> bears date_parse now q rows r" by auto
  moreover have "\<exists>why. decidePermission lc date_parse now q rows = PermApproval why" by (simp add: decidePermission_def Nil del: sort_by_Nil)
  ultimately show thesis by (rule none)
next
  case (Cons r rest)
  from first_rule [OF Cons] have "bears date_parse now q rows r" "\<And>y. bears date_parse now q rows y \<Longrightarrow> rank r \<le> rank y"
    unfolding considered_bears by blast+
  then show thesis by (rule first) (auto simp: decidePermission_def Cons Let_def split: perm_effect.split)
qed

text \<open>
  C30: The first rule decides, and it is the right one: a query is denied exactly when a deny rule that
  bears on it is as specific as every rule that does, and allowed exactly when it is not critical and
  an allow rule that bears on it is the most specific one and more specific than every deny rule.
\<close>

theorem decide_exact:
  "((\<exists>i. decidePermission lc date_parse now q rows = PermDeny i) \<longleftrightarrow>
      (\<exists>d. bears date_parse now q rows d \<and> pm_effect d = DenyRule \<and>
        (\<forall>r. bears date_parse now q rows r \<longrightarrow> specificityScore r \<le> specificityScore d))) \<and>
   ((\<exists>i. decidePermission lc date_parse now q rows = PermAllow i) \<longleftrightarrow>
      pq_risk q \<noteq> RiskCritical \<and>
      (\<exists>a. bears date_parse now q rows a \<and> pm_effect a = AllowRule \<and>
        (\<forall>r. bears date_parse now q rows r \<longrightarrow> specificityScore r \<le> specificityScore a \<and>
           (pm_effect r = DenyRule \<longrightarrow> specificityScore r < specificityScore a))))"
proof (cases rule: decide_cases [of date_parse now q rows lc])
  case (first r)
  have top: "specificityScore y < specificityScore r \<or>
      specificityScore y = specificityScore r \<and> (pm_effect r = DenyRule \<or> pm_effect y = AllowRule)"
    if "bears date_parse now q rows y" for y
    using first(2) [OF that] unfolding rank_le .
  have deny: "(\<exists>d. bears date_parse now q rows d \<and> pm_effect d = DenyRule \<and>
      (\<forall>y. bears date_parse now q rows y \<longrightarrow> specificityScore y \<le> specificityScore d)) \<longleftrightarrow> pm_effect r = DenyRule"
    (is "?L \<longleftrightarrow> _")
  proof
    assume ?L
    then obtain d where d: "bears date_parse now q rows d" "pm_effect d = DenyRule" "specificityScore r \<le> specificityScore d"
      using first(1) by blast
    show "pm_effect r = DenyRule" using top [OF d(1)] d(2,3) by auto
  next
    assume "pm_effect r = DenyRule"
    moreover have "specificityScore y \<le> specificityScore r" if "bears date_parse now q rows y" for y
      using top [OF that] by auto
    ultimately show ?L using first(1) by blast
  qed
  have allow: "(\<exists>a. bears date_parse now q rows a \<and> pm_effect a = AllowRule \<and>
      (\<forall>y. bears date_parse now q rows y \<longrightarrow> specificityScore y \<le> specificityScore a \<and>
         (pm_effect y = DenyRule \<longrightarrow> specificityScore y < specificityScore a))) \<longleftrightarrow> pm_effect r = AllowRule"
    (is "?L \<longleftrightarrow> _")
  proof
    assume ?L
    then obtain a where a: "bears date_parse now q rows a" "pm_effect r = DenyRule \<Longrightarrow> specificityScore r < specificityScore a"
      using first(1) by blast
    show "pm_effect r = AllowRule" using top [OF a(1)] a(2) by (cases "pm_effect r") auto
  next
    assume effect: "pm_effect r = AllowRule"
    have "specificityScore y \<le> specificityScore r \<and> (pm_effect y = DenyRule \<longrightarrow> specificityScore y < specificityScore r)"
      if "bears date_parse now q rows y" for y
      using top [OF that] effect by auto
    then show ?L using first(1) effect by blast
  qed
  show ?thesis unfolding deny allow first(3) by (cases "pm_effect r") auto
qed auto

section \<open>What the summary says\<close>

definition denied_whole :: "permission_rule list \<Rightarrow> string \<Rightarrow> bool" where
  "denied_whole rules cap \<longleftrightarrow> (\<exists>r \<in> set rules. pm_capability r = cap \<and> pm_effect r = DenyRule \<and> pm_matcher r = ''*'')"

definition allowed_whole :: "permission_rule list \<Rightarrow> string \<Rightarrow> bool" where
  "allowed_whole rules cap \<longleftrightarrow> (\<exists>r \<in> set rules. pm_capability r = cap \<and> pm_effect r = AllowRule \<and> pm_matcher r = ''*'')"

definition usable_matcher :: "permission_rule list \<Rightarrow> string \<Rightarrow> bool" where
  "usable_matcher rules m \<longleftrightarrow>
     (\<exists>r \<in> set rules. pm_capability r = ''commands.run'' \<and> pm_effect r = AllowRule \<and> pm_matcher r = m) \<and>
     \<not> (\<exists>d \<in> set rules. pm_capability d = ''commands.run'' \<and> pm_effect d = DenyRule \<and> matches (pm_matcher d) m)"

definition summary_matchers :: "permission_rule list \<Rightarrow> string list" where
  "summary_matchers rules = snd (summary_step rules [] ''commands.run'' ({}, []))"

lemma summary_matchers_iff: "m \<in> set (summary_matchers rules) \<longleftrightarrow> usable_matcher rules m"
  by (auto simp: summary_matchers_def summary_step_def usable_matcher_def list_ex_iff Let_def)

lemma whole_list_ex:
  "list_ex (\<lambda>r. pm_matcher r = ''*'') (filter (\<lambda>r. pm_capability r = cap \<and> pm_effect r = DenyRule) rules) = denied_whole rules cap"
  "list_ex (\<lambda>r. pm_matcher r = ''*'') (filter (\<lambda>r. pm_capability r = cap \<and> pm_effect r = AllowRule) rules) = allowed_whole rules cap"
  by (auto simp: list_ex_iff denied_whole_def allowed_whole_def)

definition effective :: "permission_rule list \<Rightarrow> string list \<Rightarrow> string \<Rightarrow> bool" where
  "effective rules baseline cap \<longleftrightarrow>
     (cap \<in> set baseline \<and> \<not> denied_whole rules cap) \<or>
     (if cap = ''commands.run'' then \<exists>m. usable_matcher rules m else allowed_whole rules cap \<and> \<not> denied_whole rules cap)"

lemma summary_step_other:
  "cap \<noteq> ''commands.run'' \<Longrightarrow>
   summary_step rules baseline cap (S, ms) = (if effective rules baseline cap then insert cap S else S, ms)"
  by (auto simp: summary_step_def effective_def Let_def whole_list_ex)

lemma summary_step_run:
  "summary_step rules baseline ''commands.run'' (S, []) =
     (if effective rules baseline ''commands.run'' then insert ''commands.run'' S else S, summary_matchers rules)"
proof -
  have "snd (summary_step rules baseline ''commands.run'' (S, [])) = summary_matchers rules"
    by (simp add: summary_matchers_def summary_step_def Let_def)
  moreover have "fst (summary_step rules baseline ''commands.run'' (S, [])) =
      (if summary_matchers rules \<noteq> [] \<or> ''commands.run'' \<in> set baseline \<and> \<not> denied_whole rules ''commands.run''
       then insert ''commands.run'' S else S)"
    by (auto simp: summary_matchers_def summary_step_def Let_def whole_list_ex)
  moreover have "summary_matchers rules \<noteq> [] \<longleftrightarrow> (\<exists>m. usable_matcher rules m)"
    using summary_matchers_iff [of _ rules] by (metis list.set_intros(1) neq_Nil_conv empty_iff list.set(1))
  ultimately show ?thesis by (auto simp: prod_eq_iff effective_def)
qed

lemma summary_fold:
  "distinct caps \<Longrightarrow> (''commands.run'' \<in> set caps \<Longrightarrow> ms = []) \<Longrightarrow>
   fold (summary_step rules baseline) caps (S, ms) =
     (S \<union> {c \<in> set caps. effective rules baseline c}, if ''commands.run'' \<in> set caps then summary_matchers rules else ms)"
proof (induction caps arbitrary: S ms)
  case (Cons c caps)
  then show ?case
    by (cases "c = ''commands.run''") (auto simp: summary_step_other summary_step_run)
qed simp

lemma summary_members:
  "set (fst (summary date_parse now q baseline rows)) =
     {cap \<in> set capabilityOrder. effective (filter (applicable date_parse now q) rows) baseline cap}"
  "set (snd (summary date_parse now q baseline rows)) = {m. usable_matcher (filter (applicable date_parse now q) rows) m}"
proof -
  have "distinct capabilityOrder" "''commands.run'' \<in> set capabilityOrder" by (simp_all add: capabilityOrder_def)
  then show "set (fst (summary date_parse now q baseline rows)) =
     {cap \<in> set capabilityOrder. effective (filter (applicable date_parse now q) rows) baseline cap}"
  "set (snd (summary date_parse now q baseline rows)) = {m. usable_matcher (filter (applicable date_parse now q) rows) m}"
    by (auto simp: summary_def Let_def summary_fold summary_matchers_iff simp del: fold_simps)
qed

text \<open>
  The summary tells what holds: a capability is effective exactly when it is in the baseline or
  allowed as a whole and not denied as a whole, or it is running commands and some matcher can be used;
  the matchers are those of the allow rules that no deny rule covers.
\<close>

theorem summary_exact:
  "(cap \<in> set (fst (summary date_parse now q baseline rows)) \<longleftrightarrow>
     cap \<in> set capabilityOrder \<and> effective (filter (applicable date_parse now q) rows) baseline cap) \<and>
   (m \<in> set (snd (summary date_parse now q baseline rows)) \<longleftrightarrow> usable_matcher (filter (applicable date_parse now q) rows) m)"
  by (simp add: summary_members)

section \<open>The table\<close>

text \<open>The primary key: no operation makes two rules of one id.\<close>

lemma upsert_ids: "distinct (map pm_id rows) \<Longrightarrow> distinct (map pm_id (upsert now inp rows))"
  by (auto simp: upsert_def stored_row_def Let_def distinct_map inj_on_def)

lemma filter_ids: "distinct (map pm_id rows) \<Longrightarrow> distinct (map pm_id (filter P rows))"
  by (auto simp: distinct_map inj_on_def)

lemma upsert_fold_ids: "distinct (map pm_id rows) \<Longrightarrow> distinct (map pm_id (fold (upsert now) inps rows))"
  by (induction inps arbitrary: rows) (simp_all add: upsert_ids)

lemma table_keeps_ids:
  assumes "distinct (map pm_id rows)"
  shows "distinct (map pm_id (upsert now inp rows))"
    and "distinct (map pm_id (snd (upsertMany accepts now inps rows)))"
    and "distinct (map pm_id (delete_rule rid rows))"
    and "distinct (map pm_id (expireSession sid rows))"
  using assms by (simp_all add: upsert_ids upsert_fold_ids filter_ids upsertMany_def delete_rule_def expireSession_def)

lemma get_upsert: "get_rule (pm_id (ri_rule inp)) (upsert now inp rows) = Some (stored_row now inp)"
  "rid \<noteq> pm_id (ri_rule inp) \<Longrightarrow> get_rule rid (upsert now inp rows) = get_rule rid rows"
proof -
  have id: "pm_id (stored_row now inp) = pm_id (ri_rule inp)" by (simp add: stored_row_def Let_def)
  have gone: "find (\<lambda>r. pm_id r = i) (filter (\<lambda>r. pm_id r \<noteq> i) xs @ [y]) = (if pm_id y = i then Some y else None)" for i y xs
    by (induction xs) simp_all
  show "get_rule (pm_id (ri_rule inp)) (upsert now inp rows) = Some (stored_row now inp)"
    by (simp add: get_rule_def upsert_def gone id)
  assume "rid \<noteq> pm_id (ri_rule inp)"
  then show "get_rule rid (upsert now inp rows) = get_rule rid rows"
    by (induction rows) (auto simp: get_rule_def upsert_def id)
qed

section \<open>Cases worth knowing\<close>

definition demo_perm :: "string \<Rightarrow> perm_effect \<Rightarrow> string \<Rightarrow> string option \<Rightarrow> permission_rule" where
  "demo_perm rid eff cap ws = \<lparr>pm_id = rid, pm_effect = eff, pm_capability = cap,
     pm_scope = (if ws = None then GlobalRule else WorkspaceRule), pm_workspaceId = ws, pm_actor = None,
     pm_sessionId = None, pm_matcher = ''*'', pm_createdAt = ''t'', pm_lastUsedAt = None, pm_expiresAt = None,
     pm_version = 1, pm_status = ''active'', pm_predicate = None\<rparr>"

definition demo_query :: "string \<Rightarrow> string \<Rightarrow> perm_query" where
  "demo_query cap m = \<lparr>pq_capability = cap, pq_matcher = m, pq_workspaceId = Some ''w'', pq_actor = None,
     pq_sessionId = None, pq_risk = RiskLow\<rparr>"

lemma demo_fields:
  "pm_effect (demo_perm rid eff cap ws) = eff" "pm_capability (demo_perm rid eff cap ws) = cap"
  "pm_matcher (demo_perm rid eff cap ws) = ''*''" "pm_id (demo_perm rid eff cap ws) = rid"
  "specificityScore (demo_perm rid eff cap ws) = (if ws = None then 100 else 200)"
  "applicable date_parse now (demo_query c m) (demo_perm rid eff cap ws) \<longleftrightarrow> ws = None \<or> ws = Some ''w''"
  "pq_risk (demo_query cap m) = RiskLow" "pq_capability (demo_query cap m) = cap" "pq_matcher (demo_query cap m) = m"
  by (cases ws; simp add: demo_perm_def demo_query_def specificityScore_def scopeScore_def matcherScore_def applicable_def js_truthy_text_def)+

lemma demo_dot_run: "dot_run ''x''" "\<not> dot_run (''node:-e'' @ CHR 0x0A # ''x'')"
  by (simp_all add: line_terminators_def has_prefix_def)

text \<open>A line terminator takes a text out of reach of every wildcard, that of a deny rule too.\<close>

lemma newline_evades_wildcard_deny:
  assumes "m = ''node:-e'' @ CHR 0x0A # ''x''"
  shows "decidePermission lc date_parse now (demo_query ''commands.run'' m) [demo_perm ''d'' DenyRule ''commands.run'' None] =
     PermApproval ''no remembered permission rule''"
proof -
  have "\<not> matches ''*'' m" using demo_dot_run(2) unfolding assms matches_wildcard by simp
  then show ?thesis by (simp add: decidePermission_def considered_def sort_by_def demo_fields)
qed

text \<open>A rule of the workspace outweighs a global one for \<open>decidePermission\<close>, but not for \<open>summary\<close>.\<close>

lemma summary_hides_allowed:
  assumes "rows = [demo_perm ''d'' DenyRule ''network'' None, demo_perm ''a'' AllowRule ''network'' (Some ''w'')]"
  shows "decidePermission lc date_parse now (demo_query ''network'' ''x'') rows = PermAllow ''a''"
    and "fst (summary date_parse now (demo_query ''network'' ''x'') [] rows) = []"
proof -
  have "matches ''*'' ''x''" using demo_dot_run(1) by (simp add: matches_wildcard)
  then show "decidePermission lc date_parse now (demo_query ''network'' ''x'') rows = PermAllow ''a''"
    by (simp add: assms decidePermission_def considered_def sort_by_def specificity_def demo_fields)
  have "set (fst (summary date_parse now (demo_query ''network'' ''x'') [] rows)) = {}"
    unfolding summary_members
    by (auto simp: assms demo_fields effective_def usable_matcher_def allowed_whole_def denied_whole_def split: if_splits)
  then show "fst (summary date_parse now (demo_query ''network'' ''x'') [] rows) = []" by simp
qed

section \<open>Witnesses\<close>

theorem decide_exact_witness:
  "\<exists>i. decidePermission (\<lambda>_ _. 0) (\<lambda>_. None) 0 (demo_query ''network'' ''x'')
     [demo_perm ''d'' DenyRule ''network'' None, demo_perm ''a'' AllowRule ''network'' (Some ''w'')] = PermAllow i"
proof -
  have b: "bears (\<lambda>_. None) 0 (demo_query ''network'' ''x'') [demo_perm ''d'' DenyRule ''network'' None, demo_perm ''a'' AllowRule ''network'' (Some ''w'')] r \<longleftrightarrow>
      r = demo_perm ''d'' DenyRule ''network'' None \<or> r = demo_perm ''a'' AllowRule ''network'' (Some ''w'')" for r
    using demo_dot_run(1) by (auto simp: bears_def demo_fields glob_word_star)
  show ?thesis
    by (rule iffD2 [OF conjunct2 [OF decide_exact]], unfold b) (auto simp: demo_fields)
qed

end
