(* ===== verification/CommandPolicy.thy ===== *)
theory CommandPolicy
  imports Json
begin

text \<open>
  apps/core/src/policy: what happens to an analysed command. \<open>decideCommand\<close>
  (command-decision.ts) orders the gates: authority, parse status, the two YOLO axes, remembered
  denials, network, capability, one exact approval, critical work, scope, script trust and the
  typed allow rules. \<open>matchesRule\<close> (command-rule-match.ts) compares one remembered rule with one
  node of the analysis, \<open>validateCommandRuleV2\<close> (command-rule-validation.ts) types the stored
  predicate, which is parsed JSON of any shape, and \<open>buildSuggestedRule\<close>
  (command-rule-suggestion.ts) proposes the rule an operator may remember.

  \<open>nowIso\<close> is the clock, \<open>Date.toISOString\<close>; ISO texts are compared as strings, as the code
  does. The analysis itself (packages/command-analysis) is an input.
\<close>

section \<open>The analysed command\<close>

datatype parse_status = Complete | Partial | Unsupported | InvalidParse
datatype scope_status = Inside | Outside | Unknown
datatype dialect = DDirect | DPwsh | DPowershell | DCmd | DBash | DSh | DZsh

record reason =
  rs_code :: string
  rs_nodeId :: "string option"
  rs_span :: "(int \<times> int) option"
  rs_message :: string

record executable_identity =
  ex_logicalName :: string
  ex_canonicalPath :: string
  ex_launcher :: string
  ex_fingerprint :: string
  ex_provenance :: string
  ex_backendId :: string

record wrapper =
  wr_app :: string
  wr_identity :: executable_identity
  wr_mappingVersion :: string

record node_option =
  op_name :: string
  op_value :: "string option"
  op_sourceIndex :: int

record node_target =
  tg_path :: string
  tg_access :: string
  tg_scope :: scope_status
  tg_canonicalPath :: "string option"

record command_node =
  nd_id :: string
  nd_dialect :: dialect
  nd_argv :: "string list"
  nd_executable :: "executable_identity option"
  nd_wrappers :: "wrapper list"
  nd_application :: string
  nd_operation :: "string list"
  nd_scriptName :: "string option"
  nd_options :: "node_option list"
  nd_forwardedArgv :: "string list"
  nd_cwdCandidates :: "string list"
  nd_canonicalCwdCandidates :: "string list option"
  nd_modifiers :: "string list"
  nd_targets :: "node_target list"
  nd_effect :: string
  nd_risk :: string
  nd_scope :: scope_status
  nd_reasons :: "reason list"
  nd_scriptFingerprint :: "string option"
  nd_explicitEnvFingerprint :: "string option"

record capability_root =
  rt_id :: "string option"
  rt_logicalPrefix :: string
  rt_hostRoot :: "string option"

record analysis_context =
  cx_actor :: string
  cx_sessionId :: string
  cx_workspaceId :: string
  cx_rootsRevision :: string
  cx_platform :: string
  cx_backendId :: string
  cx_backendRevision :: string
  cx_policyRevision :: string
  cx_environmentFingerprint :: string
  cx_resolverGeneration :: string
  cx_workspaceRoot :: "string option"
  cx_roots :: "capability_root list option"

datatype edge_kind = Sequence | OnSuccess | OnFailure | Pipe | Subshell

record command_analysis =
  an_requestFingerprint :: string
  an_context :: analysis_context
  an_parseStatus :: parse_status
  an_scope :: scope_status
  an_nodes :: "command_node list"
  an_edges :: "(string \<times> string \<times> edge_kind) list"
  an_reasons :: "reason list"
  an_evidenceFingerprint :: string

section \<open>Typed rules\<close>

text \<open>
  A validated \<open>CommandRuleV2\<close>. Its \<open>version\<close> is always 2 and its \<open>targetScope\<close> always
  \<open>workspace\<close>, so neither is a field.
\<close>

datatype positional = Exact | WorkspacePaths

record command_rule =
  cr_application :: string
  cr_operation :: "string list"
  cr_scriptName :: "string option"
  cr_allowedModifiers :: "string list"
  cr_allowedOptions :: "(string \<times> string list option) list"
  cr_positionalConstraint :: positional
  cr_exactArgv :: "string list option"
  cr_backends :: "string list"
  cr_dialects :: "dialect list"
  cr_executableFingerprint :: string
  cr_wrapperFingerprints :: "string list"
  cr_scriptFingerprint :: "string option"
  cr_explicitEnvFingerprint :: "string option"

definition DIALECTS :: "(string \<times> dialect) list" where
  "DIALECTS = [(''direct'', DDirect), (''pwsh'', DPwsh), (''powershell'', DPowershell),
     (''cmd'', DCmd), (''bash'', DBash), (''sh'', DSh), (''zsh'', DZsh)]"

fun text_of :: "jsv \<Rightarrow> string option" where
  "text_of (VStr s) = Some s"
| "text_of _ = None"

fun stringArray :: "jsv \<Rightarrow> string list option" where
  "stringArray (VArr xs) = those (map text_of xs)"
| "stringArray _ = None"

definition nonempty_text :: "jsv \<Rightarrow> string option" where
  "nonempty_text v = (case text_of v of Some (c # s) \<Rightarrow> Some (c # s) | _ \<Rightarrow> None)"

definition nonempty_array :: "jsv \<Rightarrow> string list option" where
  "nonempty_array v = (case stringArray v of Some (x # xs) \<Rightarrow> Some (x # xs) | _ \<Rightarrow> None)"

definition dialect_of :: "jsv \<Rightarrow> dialect option" where
  "dialect_of v = Option.bind (text_of v) (map_of DIALECTS)"

fun dialect_array :: "jsv \<Rightarrow> dialect list option" where
  "dialect_array (VArr xs) = (if xs = [] then None else those (map dialect_of xs))"
| "dialect_array _ = None"

text \<open>\<open>if (!test(x)) return { ok: false, message }\<close>, and the variant that accepts undefined.\<close>

definition need :: "string \<Rightarrow> 'a option \<Rightarrow> string + 'a" where
  "need msg r = (case r of None \<Rightarrow> Inl msg | Some x \<Rightarrow> Inr x)"

definition optional :: "(jsv \<Rightarrow> 'a option) \<Rightarrow> jsv \<Rightarrow> 'a option option" where
  "optional f v = (if v = VUndef then Some None else map_option Some (f v))"

fun allowed_option :: "jsv \<Rightarrow> string + (string \<times> string list option)" where
  "allowed_option (VObj ms) =
     tryE (need ''allowedOptions entries require a name'' (nonempty_text (field_of (VObj ms) ''name''))) (\<lambda>n.
     tryE (need ''allowedOptions values must be string arrays''
             (optional stringArray (field_of (VObj ms) ''values''))) (\<lambda>vs.
     Inr (n, vs)))"
| "allowed_option _ = Inl ''allowedOptions entries must be objects''"

fun array_of :: "jsv \<Rightarrow> jsv list option" where
  "array_of (VArr xs) = Some xs"
| "array_of _ = None"

definition positional_of :: "jsv \<Rightarrow> positional option" where
  "positional_of v = (if v = VStr ''exact'' then Some Exact
     else if v = VStr ''workspace-paths'' then Some WorkspacePaths else None)"

definition validateCommandRuleV2 :: "jsv \<Rightarrow> string + command_rule" where
  "validateCommandRuleV2 v =
    (if \<not> (case v of VObj _ \<Rightarrow> True | _ \<Rightarrow> False)
     then Inl ''Typed command predicate must be an object''
     else if field_of v ''version'' \<noteq> VNum ''2''
     then Inl ''Typed command predicate version must be 2''
     else
     tryE (need ''Typed command predicate requires application''
             (nonempty_text (field_of v ''application''))) (\<lambda>app.
     tryE (need ''Typed command predicate operation must be a string array''
             (stringArray (field_of v ''operation''))) (\<lambda>oper.
     tryE (need ''allowedModifiers must be a string array''
             (stringArray (field_of v ''allowedModifiers''))) (\<lambda>mods.
     tryE (need ''allowedOptions must be an array''
             (array_of (field_of v ''allowedOptions''))) (\<lambda>raw.
     tryE (mapE allowed_option raw) (\<lambda>opts.
     tryE (need ''positionalConstraint must be exact or workspace-paths''
             (positional_of (field_of v ''positionalConstraint''))) (\<lambda>pc.
     tryE (need ''exactArgv must be a string array''
             (optional stringArray (field_of v ''exactArgv''))) (\<lambda>argv.
     if pc = Exact \<and> argv = None
     then Inl ''exact positionalConstraint requires exactArgv''
     else if field_of v ''targetScope'' \<noteq> VStr ''workspace''
     then Inl ''targetScope must be workspace''
     else
     tryE (need ''backends must be a non-empty string array''
             (nonempty_array (field_of v ''backends''))) (\<lambda>bs.
     tryE (need ''dialects contains an unsupported dialect''
             (dialect_array (field_of v ''dialects''))) (\<lambda>ds.
     tryE (need ''executableFingerprint must be a non-empty string''
             (nonempty_text (field_of v ''executableFingerprint''))) (\<lambda>fp.
     tryE (need ''wrapperFingerprints must be a string array''
             (stringArray (field_of v ''wrapperFingerprints''))) (\<lambda>wfs.
     tryE (need ''scriptName must be a string''
             (optional text_of (field_of v ''scriptName''))) (\<lambda>sn.
     tryE (need ''scriptFingerprint must be a string''
             (optional text_of (field_of v ''scriptFingerprint''))) (\<lambda>sf.
     tryE (need ''explicitEnvFingerprint must be a string''
             (optional text_of (field_of v ''explicitEnvFingerprint''))) (\<lambda>ef.
     Inr \<lparr>cr_application = app, cr_operation = oper, cr_scriptName = sn,
          cr_allowedModifiers = mods, cr_allowedOptions = opts, cr_positionalConstraint = pc,
          cr_exactArgv = argv, cr_backends = bs, cr_dialects = ds,
          cr_executableFingerprint = fp, cr_wrapperFingerprints = wfs,
          cr_scriptFingerprint = sf, cr_explicitEnvFingerprint = ef\<rparr>)))))))))))))))"

text \<open>\<open>JSON.stringify\<close> followed by \<open>JSON.parse\<close>: an undefined field is left out.\<close>

definition text_field_json :: "string \<Rightarrow> string option \<Rightarrow> (string \<times> jsv) list" where
  "text_field_json k x = (case x of None \<Rightarrow> [] | Some s \<Rightarrow> [(k, VStr s)])"

definition texts_json :: "string list \<Rightarrow> jsv" where
  "texts_json xs = VArr (map VStr xs)"

definition dialect_name :: "dialect \<Rightarrow> string" where
  "dialect_name d = (case d of DDirect \<Rightarrow> ''direct'' | DPwsh \<Rightarrow> ''pwsh''
     | DPowershell \<Rightarrow> ''powershell'' | DCmd \<Rightarrow> ''cmd'' | DBash \<Rightarrow> ''bash'' | DSh \<Rightarrow> ''sh'' | DZsh \<Rightarrow> ''zsh'')"

definition option_json :: "string \<times> string list option \<Rightarrow> jsv" where
  "option_json p = VObj ((''name'', VStr (fst p)) #
     (case snd p of None \<Rightarrow> [] | Some vs \<Rightarrow> [(''values'', texts_json vs)]))"

definition rule_json :: "command_rule \<Rightarrow> jsv" where
  "rule_json r = VObj (
     [(''version'', VNum ''2''), (''application'', VStr (cr_application r)),
      (''operation'', texts_json (cr_operation r))]
     @ text_field_json ''scriptName'' (cr_scriptName r)
     @ [(''allowedModifiers'', texts_json (cr_allowedModifiers r)),
        (''allowedOptions'', VArr (map option_json (cr_allowedOptions r))),
        (''positionalConstraint'',
          VStr (case cr_positionalConstraint r of Exact \<Rightarrow> ''exact'' | WorkspacePaths \<Rightarrow> ''workspace-paths''))]
     @ (case cr_exactArgv r of None \<Rightarrow> [] | Some xs \<Rightarrow> [(''exactArgv'', texts_json xs)])
     @ [(''targetScope'', VStr ''workspace''), (''backends'', texts_json (cr_backends r)),
        (''dialects'', VArr (map (VStr \<circ> dialect_name) (cr_dialects r))),
        (''executableFingerprint'', VStr (cr_executableFingerprint r)),
        (''wrapperFingerprints'', texts_json (cr_wrapperFingerprints r))]
     @ text_field_json ''scriptFingerprint'' (cr_scriptFingerprint r)
     @ text_field_json ''explicitEnvFingerprint'' (cr_explicitEnvFingerprint r))"

section \<open>Matching a rule with a node\<close>

definition sameStrings :: "string list \<Rightarrow> string list \<Rightarrow> bool" where
  "sameStrings left right \<longleftrightarrow>
     length left = length right \<and> list_all (\<lambda>i. left ! i = right ! i) [0..<length left]"

fun operation_matches :: "string list \<Rightarrow> string list \<Rightarrow> bool" where
  "operation_matches [] xs = True"
| "operation_matches (p # ps) [] = False"
| "operation_matches (p # ps) (x # xs) = ((p = ''*'' \<or> p = x) \<and> operation_matches ps xs)"

definition option_allowed :: "(string \<times> string list option) list \<Rightarrow> node_option \<Rightarrow> bool" where
  "option_allowed allowedOptions opt =
     (case (case find (\<lambda>e. fst e = op_name opt) allowedOptions of
              Some e \<Rightarrow> Some e | None \<Rightarrow> find (\<lambda>e. fst e = ''*'') allowedOptions) of
        None \<Rightarrow> False
      | Some (_, None) \<Rightarrow> True
      | Some (_, Some values) \<Rightarrow>
          (case op_value opt of None \<Rightarrow> False
           | Some x \<Rightarrow> List.member values x \<or> List.member values ''*''))"

definition rule_covers :: "command_rule \<Rightarrow> command_node \<Rightarrow> analysis_context \<Rightarrow> bool" where
  "rule_covers rule node context =
    (if cr_application rule \<noteq> nd_application node then False
     else if \<not> operation_matches (cr_operation rule) (nd_operation node) then False
     else if js_truthy_text (cr_scriptName rule) \<and> cr_scriptName rule \<noteq> nd_scriptName node then False
     else if \<not> list_all (\<lambda>m. List.member (cr_allowedModifiers rule) m
                          \<or> List.member (cr_allowedModifiers rule) ''*'') (nd_modifiers node) then False
     else if \<not> list_all (option_allowed (cr_allowedOptions rule)) (nd_options node) then False
     else if (case cr_positionalConstraint rule of
                Exact \<Rightarrow> (case cr_exactArgv rule of None \<Rightarrow> True
                          | Some xs \<Rightarrow> \<not> sameStrings xs (nd_argv node))
              | WorkspacePaths \<Rightarrow> list_ex (\<lambda>t. tg_scope t \<noteq> Inside) (nd_targets node)) then False
     else if \<not> List.member (cr_backends rule) (cx_backendId context)
             \<and> \<not> List.member (cr_backends rule) ''*'' then False
     else if \<not> List.member (cr_dialects rule) (nd_dialect node) then False
     else if cr_executableFingerprint rule \<noteq> ''*''
             \<and> (case nd_executable node of None \<Rightarrow> True
                | Some e \<Rightarrow> ex_fingerprint e = [] \<or> cr_executableFingerprint rule \<noteq> ex_fingerprint e) then False
     else if \<not> List.member (cr_wrapperFingerprints rule) ''*''
             \<and> \<not> sameStrings (cr_wrapperFingerprints rule)
                   (map (ex_fingerprint \<circ> wr_identity) (nd_wrappers node)) then False
     else if cr_scriptFingerprint rule \<noteq> None
             \<and> (\<not> js_truthy_text (nd_scriptFingerprint node)
                \<or> cr_scriptFingerprint rule \<noteq> nd_scriptFingerprint node) then False
     else nd_scope node = Inside)"

definition matchesRule :: "jsv \<Rightarrow> command_node \<Rightarrow> analysis_context \<Rightarrow> bool" where
  "matchesRule predicate node context =
     (case validateCommandRuleV2 predicate of
        Inl _ \<Rightarrow> False
      | Inr rule \<Rightarrow> rule_covers rule node context)"

definition buildSuggestedRule :: "command_node \<Rightarrow> command_rule" where
  "buildSuggestedRule node =
     \<lparr>cr_application = nd_application node, cr_operation = nd_operation node,
      cr_scriptName = nd_scriptName node, cr_allowedModifiers = nd_modifiers node,
      cr_allowedOptions = map (\<lambda>opt. (op_name opt, None)) (nd_options node),
      cr_positionalConstraint = WorkspacePaths, cr_exactArgv = None,
      cr_backends = [''host''], cr_dialects = [nd_dialect node],
      cr_executableFingerprint =
        (case nd_executable node of None \<Rightarrow> ''*'' | Some e \<Rightarrow> ex_fingerprint e),
      cr_wrapperFingerprints = map (ex_fingerprint \<circ> wr_identity) (nd_wrappers node),
      cr_scriptFingerprint = nd_scriptFingerprint node,
      cr_explicitEnvFingerprint =
        (if js_truthy_text (nd_explicitEnvFingerprint node) then nd_explicitEnvFingerprint node else None)\<rparr>"

section \<open>The decision\<close>

datatype rule_effect = EAllow | EDeny
datatype rule_scope = SSession | SWorkspace | SGlobal

record policy_rule =
  pr_id :: string
  pr_effect :: rule_effect
  pr_predicate :: jsv
  pr_scope :: rule_scope
  pr_actor :: "string option"
  pr_sessionId :: "string option"
  pr_workspaceId :: "string option"
  pr_expiresAt :: "string option"

datatype policy_outcome = OAllow | ODeny | OApproval
datatype yolo_mode = YWorkspace | YUnrestricted
datatype yolo_risk = PreventHighRisk | DoWhatever
datatype script_trust = NotApplicable | Trusted | Unapproved | Changed

definition normalizeYoloMode :: "jsv \<Rightarrow> yolo_mode" where
  "normalizeYoloMode v = (if v = VStr ''unrestricted'' then YUnrestricted else YWorkspace)"

definition normalizeYoloPolicy :: "jsv \<Rightarrow> yolo_mode \<times> yolo_risk" where
  "normalizeYoloPolicy v =
     (normalizeYoloMode (field_of v ''mode''),
      if field_of v ''risk'' = VStr ''do-whatever'' then DoWhatever else PreventHighRisk)"

record exact_approval =
  ea_ticketId :: string
  ea_requestFingerprint :: string
  ea_evidenceFingerprint :: string
  ea_authorityVerified :: bool
  ea_consumed :: bool

record policy_input =
  pi_analysis :: command_analysis
  pi_legacy :: "(policy_outcome \<times> string) option"
  pi_rules :: "policy_rule list"
  pi_valid :: bool
  pi_commandCapability :: bool
  pi_authorityReasons :: "reason list"
  pi_network :: policy_outcome
  pi_networkReasons :: "reason list"
  pi_yoloActive :: bool
  pi_yoloMode :: yolo_mode
  pi_yoloRisk :: yolo_risk
  pi_scriptTrust :: script_trust
  pi_exactApproval :: "exact_approval option"

datatype command_decision =
    DDeny "reason list" command_analysis
  | DInvalid "reason list" command_analysis
  | DApproval "reason list" command_analysis "command_rule list"
  | DAllow command_analysis "string list"

definition mk_reason :: "string \<Rightarrow> string \<Rightarrow> reason" where
  "mk_reason c m = \<lparr>rs_code = c, rs_nodeId = None, rs_span = None, rs_message = m\<rparr>"

definition isRuleApplicable :: "string \<Rightarrow> policy_rule \<Rightarrow> analysis_context \<Rightarrow> bool" where
  "isRuleApplicable nowIso rule context =
    (if js_truthy_text (pr_expiresAt rule) \<and> the (pr_expiresAt rule) < nowIso then False
     else if pr_scope rule = SSession
             \<and> (\<not> js_truthy_text (pr_sessionId rule) \<or> pr_sessionId rule \<noteq> Some (cx_sessionId context)) then False
     else if pr_scope rule = SWorkspace
             \<and> (\<not> js_truthy_text (pr_workspaceId rule) \<or> pr_workspaceId rule \<noteq> Some (cx_workspaceId context)) then False
     else if js_truthy_text (pr_actor rule) \<and> pr_actor rule \<noteq> Some (cx_actor context) then False
     else True)"

definition exactApprovalDecision :: "policy_input \<Rightarrow> command_decision option" where
  "exactApprovalDecision input =
    (case pi_exactApproval input of
       None \<Rightarrow> None
     | Some ap \<Rightarrow>
         if ea_consumed ap then
           Some (DDeny [mk_reason ''APPROVAL_ALREADY_CONSUMED'' ''Approval was already consumed'']
                   (pi_analysis input))
         else if ea_requestFingerprint ap \<noteq> an_requestFingerprint (pi_analysis input)
               \<or> ea_evidenceFingerprint ap \<noteq> an_evidenceFingerprint (pi_analysis input) then
           Some (DApproval [mk_reason ''CONTEXT_CHANGED''
                   ''Command evidence or context changed since ticket approval''] (pi_analysis input) [])
         else if ea_authorityVerified ap then Some (DAllow (pi_analysis input) [ea_ticketId ap])
         else None)"

definition critical_operation :: reason where
  "critical_operation = mk_reason ''CRITICAL_OPERATION''
     ''Critical operations require mandatory operator confirmation''"

definition has_critical :: "command_analysis \<Rightarrow> bool" where
  "has_critical analysis = list_ex (\<lambda>n. nd_risk n = ''CRITICAL'') (an_nodes analysis)"

definition suggestions :: "command_analysis \<Rightarrow> command_rule list" where
  "suggestions analysis = map buildSuggestedRule (an_nodes analysis)"

text \<open>The first node a deny rule matches, with the rule (lines 120 to 131).\<close>

fun matching_deny :: "policy_rule list \<Rightarrow> analysis_context \<Rightarrow> command_node list \<Rightarrow> policy_rule option" where
  "matching_deny rules context [] = None"
| "matching_deny rules context (node # nodes) =
     (case find (\<lambda>r. pr_effect r = EDeny \<and> matchesRule (pr_predicate r) node context) rules of
        Some r \<Rightarrow> Some r
      | None \<Rightarrow> matching_deny rules context nodes)"

text \<open>
  Lines 257 to 262. The predicate is parsed JSON, so reading a property of \<open>null\<close> throws
  before \<open>matchesRule\<close> can reject it.
\<close>

definition read_property :: "jsv \<Rightarrow> string \<Rightarrow> string + jsv" where
  "read_property v k =
     (if v = VNull \<or> v = VUndef then Inl (''TypeError: reading '' @ k) else Inr (field_of v k))"

fun find_allow :: "policy_rule list \<Rightarrow> analysis_context \<Rightarrow> command_node \<Rightarrow> string + policy_rule option" where
  "find_allow [] context node = Inr None"
| "find_allow (r # rules) context node =
     (if pr_effect r \<noteq> EAllow then find_allow rules context node
      else tryE (read_property (pr_predicate r) ''explicitEnvFingerprint'') (\<lambda>v.
        if v = (case nd_explicitEnvFingerprint node of None \<Rightarrow> VUndef | Some s \<Rightarrow> VStr s)
           \<and> matchesRule (pr_predicate r) node context
        then Inr (Some r)
        else find_allow rules context node))"

fun allow_nodes :: "policy_rule list \<Rightarrow> analysis_context \<Rightarrow> command_node list \<Rightarrow> string + (string list \<times> bool)" where
  "allow_nodes rules context [] = Inr ([], True)"
| "allow_nodes rules context (node # nodes) =
     tryE (find_allow rules context node) (\<lambda>m.
     tryE (allow_nodes rules context nodes) (\<lambda>(ids, covered).
     Inr (case m of Some r \<Rightarrow> (pr_id r # ids, covered) | None \<Rightarrow> (ids, False))))"

definition typed_allow :: "policy_input \<Rightarrow> policy_rule list \<Rightarrow> bool \<Rightarrow> string + command_decision" where
  "typed_allow input applicableRules scopeLifted =
     (let analysis = pi_analysis input in
      tryE (allow_nodes applicableRules (an_context analysis) (an_nodes analysis)) (\<lambda>(matchedRuleIds, covered).
      Inr (if an_nodes analysis \<noteq> [] \<and> covered then DAllow analysis matchedRuleIds
           else if scopeLifted then DAllow analysis []
           else DApproval [mk_reason ''NO_REMEMBERED_RULE'' ''No remembered typed rule covers this command'']
                  analysis (suggestions analysis))))"

text \<open>Lines 148 to 250: the confirmations that come before the typed allow rules.\<close>

definition confirmations :: "policy_input \<Rightarrow> bool \<Rightarrow> command_decision option" where
  "confirmations input scopeLifted =
     (let analysis = pi_analysis input; reasons = an_reasons analysis in
      if has_critical analysis then
        Some (DApproval [critical_operation] analysis (suggestions analysis))
      else if an_parseStatus analysis = Partial \<or> an_parseStatus analysis = Unsupported then
        Some (DApproval (reasons @ [mk_reason ''UNSUPPORTED_SYNTAX''
                ''Command contains syntax that cannot be fully authorized statically'']) analysis [])
      else if an_scope analysis = Outside \<and> \<not> scopeLifted then
        Some (DApproval (reasons @ [mk_reason ''OUTSIDE_WORKSPACE''
                ''Command leaves authorized workspace roots and requires approval'']) analysis [])
      else if an_scope analysis = Unknown \<and> \<not> scopeLifted then
        Some (DApproval (reasons @ [mk_reason ''DYNAMIC_SCOPE''
                ''Dynamic or unresolvable command scope requires approval'']) analysis [])
      else if pi_scriptTrust input = Unapproved then
        Some (DApproval [mk_reason ''SCRIPT_EVIDENCE_REQUIRED''
                ''Project script evidence is unavailable or has not been approved'']
                analysis (suggestions analysis))
      else if pi_scriptTrust input = Changed then
        Some (DApproval [mk_reason ''SCRIPT_CHANGED''
                ''Project script definition changed since prior approval''] analysis (suggestions analysis))
      else if pi_network input = OApproval then
        Some (DApproval (reasons @ pi_networkReasons input) analysis [])
      else None)"

text \<open>Lines 110 to 291: the ordinary permission policy, outside the YOLO scope.\<close>

definition ordinary_policy :: "string \<Rightarrow> policy_input \<Rightarrow> bool \<Rightarrow> string + command_decision" where
  "ordinary_policy nowIso input scopeLifted =
     (let analysis = pi_analysis input;
          applicableRules = filter (\<lambda>r. isRuleApplicable nowIso r (an_context analysis)) (pi_rules input) in
      case pi_legacy input of
        Some (ODeny, why) \<Rightarrow> Inr (DDeny [mk_reason ''SELECTED_DENY'' why] analysis)
      | _ \<Rightarrow>
      (case matching_deny applicableRules (an_context analysis) (an_nodes analysis) of
        Some r \<Rightarrow> Inr (DDeny [mk_reason ''TYPED_DENY'' (''Command matched deny rule: '' @ pr_id r)] analysis)
      | None \<Rightarrow>
      if pi_network input = ODeny then Inr (DDeny (pi_networkReasons input) analysis)
      else if \<not> pi_commandCapability input then
        Inr (DApproval (an_reasons analysis @ pi_authorityReasons input) analysis (suggestions analysis))
      else (case exactApprovalDecision input of
        Some d \<Rightarrow> Inr d
      | None \<Rightarrow>
      (case confirmations input scopeLifted of
        Some d \<Rightarrow> Inr d
      | None \<Rightarrow> typed_allow input applicableRules scopeLifted))))"

definition decideCommand :: "string \<Rightarrow> policy_input \<Rightarrow> string + command_decision" where
  "decideCommand nowIso input =
     (let analysis = pi_analysis input;
          doWhatever = (pi_yoloActive input \<and> pi_yoloRisk input = DoWhatever);
          scopeLifted = (pi_yoloActive input \<and> pi_yoloMode input = YUnrestricted) in
      if \<not> pi_valid input then Inr (DDeny (pi_authorityReasons input) analysis)
      else if an_parseStatus analysis = InvalidParse then Inr (DInvalid (an_reasons analysis) analysis)
      else if pi_yoloActive input \<and> has_critical analysis \<and> \<not> doWhatever then
        (case exactApprovalDecision input of
           Some d \<Rightarrow> Inr d
         | None \<Rightarrow> Inr (DApproval [critical_operation] analysis (suggestions analysis)))
      else if doWhatever \<and> scopeLifted then Inr (DAllow analysis [])
      else if pi_yoloActive input \<and> an_scope analysis = Inside then Inr (DAllow analysis [])
      else ordinary_policy nowIso input scopeLifted)"


section \<open>What the validator lets through\<close>

named_theorems reads \<open>what a reader of JSON accepts\<close>

lemma text_of_iff [reads]: "text_of v = Some s \<longleftrightarrow> v = VStr s"
  by (cases v) auto

lemma those_Some_iff: "those xs = Some ys \<longleftrightarrow> xs = map Some ys"
proof (induction xs arbitrary: ys)
  case (Cons x xs)
  then show ?case by (cases ys) (auto split: option.splits)
qed auto

lemma map_some_iff: "map f xs = map Some ys \<longleftrightarrow> list_all2 (\<lambda>x y. f x = Some y) xs ys"
  by (induction xs arbitrary: ys) (auto simp: list_all2_Cons1 Cons_eq_map_conv)

lemma list_all2_eq_map: "list_all2 (\<lambda>x y. x = g y) xs ys \<longleftrightarrow> xs = map g ys"
  by (induction xs arbitrary: ys) (auto simp: list_all2_Cons1 Cons_eq_map_conv)

lemma stringArray_iff [reads]: "stringArray v = Some xs \<longleftrightarrow> v = texts_json xs"
  by (cases v) (auto simp: those_Some_iff map_some_iff text_of_iff list_all2_eq_map texts_json_def)

lemma nonempty_text_iff [reads]: "nonempty_text v = Some s \<longleftrightarrow> v = VStr s \<and> s \<noteq> []"
  by (cases v) (auto simp: nonempty_text_def split: list.splits)

lemma nonempty_array_iff [reads]: "nonempty_array v = Some xs \<longleftrightarrow> v = texts_json xs \<and> xs \<noteq> []"
  unfolding nonempty_array_def stringArray_iff [symmetric] by (auto split: option.splits list.splits)

lemma dialect_of_iff [reads]: "dialect_of v = Some d \<longleftrightarrow> v = VStr (dialect_name d)"
  by (cases v; cases d) (auto simp: dialect_of_def DIALECTS_def dialect_name_def)

lemma dialect_array_iff [reads]:
  "dialect_array v = Some ds \<longleftrightarrow> v = VArr (map (VStr \<circ> dialect_name) ds) \<and> ds \<noteq> []"
proof (cases v)
  case (VArr xs)
  have "those (map dialect_of xs) = Some ds \<longleftrightarrow> xs = map (VStr \<circ> dialect_name) ds"
    using list_all2_eq_map [of "VStr \<circ> dialect_name" xs ds]
    by (simp add: those_Some_iff map_some_iff dialect_of_iff)
  with VArr show ?thesis by auto
qed auto

lemma array_of_iff [reads]: "array_of v = Some xs \<longleftrightarrow> v = VArr xs"
  by (cases v) auto

lemma positional_of_iff [reads]:
  "positional_of v = Some p \<longleftrightarrow>
     v = VStr (case p of Exact \<Rightarrow> ''exact'' | WorkspacePaths \<Rightarrow> ''workspace-paths'')"
  by (auto simp: positional_of_def split: positional.splits)

lemma optional_iff [reads]:
  "optional f v = Some x \<longleftrightarrow> (if v = VUndef then x = None else \<exists>y. f v = Some y \<and> x = Some y)"
  by (auto simp: optional_def)

lemma need_iff [reads]: "need msg r = Inr x \<longleftrightarrow> r = Some x"
  by (cases r) (auto simp: need_def)

text \<open>The type a predicate has when \<open>value as CommandRuleV2\<close> is justified.\<close>

definition optional_text :: "string option \<Rightarrow> jsv" where
  "optional_text x = (case x of None \<Rightarrow> VUndef | Some s \<Rightarrow> VStr s)"

definition optional_texts :: "string list option \<Rightarrow> jsv" where
  "optional_texts x = (case x of None \<Rightarrow> VUndef | Some s \<Rightarrow> texts_json s)"

definition option_typed :: "jsv \<Rightarrow> string \<times> string list option \<Rightarrow> bool" where
  "option_typed v p \<longleftrightarrow> (\<exists>ms. v = VObj ms) \<and> field_of v ''name'' = VStr (fst p) \<and> fst p \<noteq> []
     \<and> field_of v ''values'' = optional_texts (snd p)"

definition rule_typed :: "jsv \<Rightarrow> command_rule \<Rightarrow> bool" where
  "rule_typed v r \<longleftrightarrow>
     (\<exists>ms. v = VObj ms) \<and> field_of v ''version'' = VNum ''2''
     \<and> field_of v ''application'' = VStr (cr_application r) \<and> cr_application r \<noteq> []
     \<and> field_of v ''operation'' = texts_json (cr_operation r)
     \<and> field_of v ''allowedModifiers'' = texts_json (cr_allowedModifiers r)
     \<and> (\<exists>raw. field_of v ''allowedOptions'' = VArr raw \<and> list_all2 option_typed raw (cr_allowedOptions r))
     \<and> field_of v ''positionalConstraint'' =
         VStr (case cr_positionalConstraint r of Exact \<Rightarrow> ''exact'' | WorkspacePaths \<Rightarrow> ''workspace-paths'')
     \<and> field_of v ''exactArgv'' = optional_texts (cr_exactArgv r)
     \<and> \<not> (cr_positionalConstraint r = Exact \<and> cr_exactArgv r = None)
     \<and> field_of v ''targetScope'' = VStr ''workspace''
     \<and> field_of v ''backends'' = texts_json (cr_backends r) \<and> cr_backends r \<noteq> []
     \<and> field_of v ''dialects'' = VArr (map (VStr \<circ> dialect_name) (cr_dialects r)) \<and> cr_dialects r \<noteq> []
     \<and> field_of v ''executableFingerprint'' = VStr (cr_executableFingerprint r)
     \<and> cr_executableFingerprint r \<noteq> []
     \<and> field_of v ''wrapperFingerprints'' = texts_json (cr_wrapperFingerprints r)
     \<and> field_of v ''scriptName'' = optional_text (cr_scriptName r)
     \<and> field_of v ''scriptFingerprint'' = optional_text (cr_scriptFingerprint r)
     \<and> field_of v ''explicitEnvFingerprint'' = optional_text (cr_explicitEnvFingerprint r)"

lemma optional_text_iff: "optional text_of v = Some x \<longleftrightarrow> v = optional_text x"
  by (cases x) (auto simp: reads optional_text_def)

lemma optional_texts_iff: "optional stringArray v = Some x \<longleftrightarrow> v = optional_texts x"
  by (cases x) (auto simp: reads optional_texts_def, auto simp: texts_json_def)

lemma allowed_option_iff: "allowed_option v = Inr p \<longleftrightarrow> option_typed v p"
  by (cases v; cases p)
    (auto simp: option_typed_def tryE_Inr_iff need_iff nonempty_text_iff optional_texts_iff)

lemma json_inject [simp]:
  "texts_json xs = texts_json ys \<longleftrightarrow> xs = ys"
  "optional_texts x = optional_texts y \<longleftrightarrow> x = y"
  "optional_text s = optional_text t \<longleftrightarrow> s = t"
proof -
  show "texts_json xs = texts_json ys \<longleftrightarrow> xs = ys" for xs ys
    unfolding texts_json_def by (simp add: inj_map_eq_map inj_def)
  then show "optional_texts x = optional_texts y \<longleftrightarrow> x = y"
    by (cases x; cases y) (auto simp: optional_texts_def, auto simp: texts_json_def)
  show "optional_text s = optional_text t \<longleftrightarrow> s = t"
    by (cases s; cases t) (auto simp: optional_text_def)
qed

lemma names_inject [simp]:
  "dialect_name d = dialect_name d' \<longleftrightarrow> d = d'"
  "map (VStr \<circ> dialect_name) ds = map (VStr \<circ> dialect_name) ds' \<longleftrightarrow> ds = ds'"
  "(case p of Exact \<Rightarrow> ''exact'' | WorkspacePaths \<Rightarrow> ''workspace-paths'')
     = (case q of Exact \<Rightarrow> ''exact'' | WorkspacePaths \<Rightarrow> ''workspace-paths'') \<longleftrightarrow> p = q"
proof -
  show inj: "dialect_name d = dialect_name d' \<longleftrightarrow> d = d'" for d d'
    by (cases d; cases d') (auto simp: dialect_name_def)
  show "map (VStr \<circ> dialect_name) ds = map (VStr \<circ> dialect_name) ds' \<longleftrightarrow> ds = ds'"
    by (rule inj_map_eq_map) (auto simp: inj_def inj)
qed (cases p; cases q; simp)

lemma if_Inl_iff: "(if c then Inl e else m) = Inr x \<longleftrightarrow> \<not> c \<and> m = Inr x"
  by simp

lemma object_iff: "(case v of VObj ms \<Rightarrow> True | _ \<Rightarrow> False) \<longleftrightarrow> (\<exists>ms. v = VObj ms)"
  by (cases v) auto

lemma validate_iff: "validateCommandRuleV2 v = Inr r \<longleftrightarrow> rule_typed v r"
  unfolding validateCommandRuleV2_def tryE_Inr_iff need_iff if_Inl_iff object_iff rule_typed_def
    optional_text_iff optional_texts_iff mapE_Inr_iff allowed_option_iff stringArray_iff nonempty_text_iff
    nonempty_array_iff dialect_array_iff array_of_iff positional_of_iff
  by (cases r) (auto simp del: field_of.simps)

section \<open>Storing a rule\<close>

definition rule_ok :: "command_rule \<Rightarrow> bool" where
  "rule_ok r \<longleftrightarrow> cr_application r \<noteq> [] \<and> list_all (\<lambda>p. fst p \<noteq> []) (cr_allowedOptions r)
     \<and> \<not> (cr_positionalConstraint r = Exact \<and> cr_exactArgv r = None)
     \<and> cr_backends r \<noteq> [] \<and> cr_dialects r \<noteq> [] \<and> cr_executableFingerprint r \<noteq> []"

lemma option_json_typed: "option_typed (option_json p) q \<longleftrightarrow> q = p \<and> fst p \<noteq> []"
  by (cases p; cases q) (auto simp: option_typed_def option_json_def optional_texts_def texts_json_def
      inj_map_eq_map inj_def split: option.splits)

lemma options_json_typed:
  "list_all2 option_typed (map option_json ps) qs \<longleftrightarrow> qs = ps \<and> list_all (\<lambda>p. fst p \<noteq> []) ps"
  by (induction ps arbitrary: qs) (auto simp: option_json_typed list_all2_Cons1)

lemma rule_json_fields:
  "field_of (rule_json r) ''version'' = VNum ''2''"
  "field_of (rule_json r) ''application'' = VStr (cr_application r)"
  "field_of (rule_json r) ''operation'' = texts_json (cr_operation r)"
  "field_of (rule_json r) ''scriptName'' = optional_text (cr_scriptName r)"
  "field_of (rule_json r) ''allowedModifiers'' = texts_json (cr_allowedModifiers r)"
  "field_of (rule_json r) ''allowedOptions'' = VArr (map option_json (cr_allowedOptions r))"
  "field_of (rule_json r) ''positionalConstraint'' =
     VStr (case cr_positionalConstraint r of Exact \<Rightarrow> ''exact'' | WorkspacePaths \<Rightarrow> ''workspace-paths'')"
  "field_of (rule_json r) ''exactArgv'' = optional_texts (cr_exactArgv r)"
  "field_of (rule_json r) ''targetScope'' = VStr ''workspace''"
  "field_of (rule_json r) ''backends'' = texts_json (cr_backends r)"
  "field_of (rule_json r) ''dialects'' = VArr (map (VStr \<circ> dialect_name) (cr_dialects r))"
  "field_of (rule_json r) ''executableFingerprint'' = VStr (cr_executableFingerprint r)"
  "field_of (rule_json r) ''wrapperFingerprints'' = texts_json (cr_wrapperFingerprints r)"
  "field_of (rule_json r) ''scriptFingerprint'' = optional_text (cr_scriptFingerprint r)"
  "field_of (rule_json r) ''explicitEnvFingerprint'' = optional_text (cr_explicitEnvFingerprint r)"
  by (simp_all add: rule_json_def text_field_json_def optional_text_def optional_texts_def split: option.splits)

lemma rule_json_object: "\<exists>ms. rule_json r = VObj ms"
  by (simp add: rule_json_def)

lemma rule_json_validates: "validateCommandRuleV2 (rule_json r) = Inr q \<longleftrightarrow> q = r \<and> rule_ok r"
  unfolding validate_iff rule_typed_def rule_json_fields using rule_json_object [of r]
  by (cases r; cases q) (auto simp: rule_ok_def options_json_typed)

lemma texts_json_wf [simp]: "wf_jsv (texts_json xs)"
  by (induction xs) (auto simp: texts_json_def)

lemma option_json_wf [simp]: "wf_jsv (option_json p)"
  by (auto simp: option_json_def wf_map_def split: option.splits)

lemma wf_version: "wf_num ''2''"
  by (simp add: wf_num_def num_ok_def) code_simp

lemma rule_json_wf: "wf_jsv (rule_json r)"
  by (auto simp: rule_json_def text_field_json_def wf_version wf_map_def split: option.splits)

lemma texts_json_norm [simp]: "norm (texts_json xs) = texts_json xs"
  by (induction xs) (auto simp: texts_json_def)

lemma option_json_norm [simp]: "norm (option_json p) = option_json p"
  by (auto simp: option_json_def texts_json_def split: option.splits)

lemma rule_json_norm: "norm (rule_json r) = rule_json r"
  by (auto simp: rule_json_def text_field_json_def texts_json_def option_json_def split: option.splits)

text \<open>
  C39: validating a predicate is typing it: \<open>validateCommandRuleV2\<close> accepts a JSON value exactly when
  every field has the type \<open>CommandRuleV2\<close> gives it (strings that may not be empty, string
  arrays, the two closed enumerations, optional fields of the right type or absent, exactArgv
  present under an exact constraint), and the rule it returns is the one the value spells.
\<close>

theorem validated_predicate_is_typed: "validateCommandRuleV2 v = Inr r \<longleftrightarrow> rule_typed v r"
  by (rule validate_iff)

text \<open>
  A rule stored as JSON text and parsed back validates to the same rule, and it does so
  exactly when the rule is well formed; a rule the validator would refuse never comes back.
\<close>

theorem stored_rule_reads_back:
  "map_option validateCommandRuleV2 (Option.bind (json_stringify (rule_json r)) json_parse) = Some (Inr q)
     \<longleftrightarrow> q = r \<and> rule_ok r"
proof -
  have "json_parse (json_text (rule_json r)) = Some (rule_json r)"
    using json.read_show [OF rule_json_wf [of r]] by (simp add: rule_json_norm)
  moreover have "\<not> is_undef (rule_json r)" using rule_json_object [of r] by auto
  ultimately show ?thesis by (auto simp: json_stringify_def rule_json_validates)
qed

section \<open>Gates of the decision\<close>

lemma exact_allows:
  "exactApprovalDecision input = Some (DAllow a ids) \<longleftrightarrow>
     (\<exists>ap. pi_exactApproval input = Some ap \<and> \<not> ea_consumed ap
        \<and> ea_requestFingerprint ap = an_requestFingerprint (pi_analysis input)
        \<and> ea_evidenceFingerprint ap = an_evidenceFingerprint (pi_analysis input)
        \<and> ea_authorityVerified ap \<and> a = pi_analysis input \<and> ids = [ea_ticketId ap])"
  by (auto simp: exactApprovalDecision_def split: option.splits)

definition exactly_approved :: "policy_input \<Rightarrow> bool" where
  "exactly_approved input \<longleftrightarrow> (\<exists>ids. exactApprovalDecision input = Some (DAllow (pi_analysis input) ids))"

lemma exact_allowsD: "exactApprovalDecision input = Some (DAllow a ids) \<Longrightarrow> exactly_approved input"
  using exact_allows [of input a ids] by (auto simp: exactly_approved_def)

definition applicable_rules :: "string \<Rightarrow> policy_input \<Rightarrow> policy_rule list" where
  "applicable_rules nowIso input =
     filter (\<lambda>r. isRuleApplicable nowIso r (an_context (pi_analysis input))) (pi_rules input)"

definition no_deny :: "string \<Rightarrow> policy_input \<Rightarrow> bool" where
  "no_deny nowIso input \<longleftrightarrow>
     matching_deny (applicable_rules nowIso input) (an_context (pi_analysis input)) (an_nodes (pi_analysis input)) = None"

lemma matching_deny_None:
  "matching_deny rules context nodes = None \<longleftrightarrow>
     (\<forall>node \<in> set nodes. \<forall>r \<in> set rules. pr_effect r = EDeny \<longrightarrow> \<not> matchesRule (pr_predicate r) node context)"
proof (induction nodes)
  case (Cons node nodes)
  have "matching_deny rules context (node # nodes) = None \<longleftrightarrow>
      find (\<lambda>r. pr_effect r = EDeny \<and> matchesRule (pr_predicate r) node context) rules = None
      \<and> matching_deny rules context nodes = None"
    by (simp split: option.split)
  then show ?case unfolding find_None_iff Cons.IH by auto
qed simp

lemma confirmations_None:
  "confirmations input lifted = None \<longleftrightarrow>
     \<not> has_critical (pi_analysis input) \<and> an_parseStatus (pi_analysis input) \<in> {Complete, InvalidParse}
     \<and> (lifted \<or> an_scope (pi_analysis input) = Inside)
     \<and> pi_scriptTrust input \<in> {NotApplicable, Trusted} \<and> pi_network input \<noteq> OApproval"
  by (cases "an_parseStatus (pi_analysis input)"; cases "an_scope (pi_analysis input)"; cases "pi_scriptTrust input")
    (auto simp: confirmations_def Let_def)

lemma confirmations_not_allow: "confirmations input lifted \<noteq> Some (DAllow a ids)"
  by (simp add: confirmations_def Let_def)

text \<open>What an allow of the ordinary policy has behind it.\<close>

lemma ordinary_allow:
  assumes "ordinary_policy nowIso input lifted = Inr (DAllow a ids)"
  shows "no_deny nowIso input" "pi_network input \<noteq> ODeny" "pi_commandCapability input"
    "\<forall>why. pi_legacy input \<noteq> Some (ODeny, why)"
    "exactApprovalDecision input = Some (DAllow a ids) \<or>
       confirmations input lifted = None
       \<and> typed_allow input (applicable_rules nowIso input) lifted = Inr (DAllow a ids)"
  using assms confirmations_not_allow [of input lifted a ids]
  unfolding ordinary_policy_def Let_def no_deny_def applicable_rules_def
  by (auto split: option.splits prod.splits policy_outcome.splits if_splits)

text \<open>The two ways an active YOLO mode allows on its own.\<close>

definition yolo_allows :: "policy_input \<Rightarrow> bool" where
  "yolo_allows input \<longleftrightarrow> pi_yoloActive input
     \<and> (\<not> has_critical (pi_analysis input) \<or> pi_yoloRisk input = DoWhatever)
     \<and> (pi_yoloRisk input = DoWhatever \<and> pi_yoloMode input = YUnrestricted \<or> an_scope (pi_analysis input) = Inside)"

lemma decide_allow:
  assumes "decideCommand nowIso input = Inr (DAllow a ids)"
  shows "pi_valid input" "an_parseStatus (pi_analysis input) \<noteq> InvalidParse"
    "yolo_allows input \<or> exactApprovalDecision input = Some (DAllow a ids)
      \<or> (pi_yoloActive input \<and> has_critical (pi_analysis input) \<longrightarrow> pi_yoloRisk input = DoWhatever)
        \<and> ordinary_policy nowIso input (pi_yoloActive input \<and> pi_yoloMode input = YUnrestricted) = Inr (DAllow a ids)"
  using assms unfolding decideCommand_def Let_def yolo_allows_def
  by (auto split: if_splits option.splits)

text \<open>
  C28: a command with a critical node is allowed only when do-whatever is switched on or one exact
  approval stands behind it: not consumed, of this very request and evidence, with its authority
  verified, and then the decision names that ticket. Remembered rules, an unrestricted YOLO
  scope or a granted capability are never enough.
\<close>

theorem critical_needs_confirmation:
  assumes "decideCommand nowIso input = Inr (DAllow a ids)" "has_critical (pi_analysis input)"
  shows "pi_yoloActive input \<and> pi_yoloRisk input = DoWhatever \<or>
    (\<exists>ap. pi_exactApproval input = Some ap \<and> \<not> ea_consumed ap
        \<and> ea_requestFingerprint ap = an_requestFingerprint (pi_analysis input)
        \<and> ea_evidenceFingerprint ap = an_evidenceFingerprint (pi_analysis input)
        \<and> ea_authorityVerified ap \<and> ids = [ea_ticketId ap])"
  using decide_allow [OF assms(1)] ordinary_allow(5) [of nowIso input _ a ids] assms(2)
  by (auto simp: yolo_allows_def exact_allows confirmations_None)

text \<open>
  Every allow has passed the gates: the authority is valid and the request parsed; and unless
  YOLO or an exact approval decided, no remembered or typed deny applies, the network is
  allowed, the capability is granted, no node is critical, the syntax is fully understood, the scope is
  inside or lifted and the project script is trusted.
\<close>

theorem allow_passes_every_gate:
  assumes "decideCommand nowIso input = Inr (DAllow a ids)"
  shows "pi_valid input \<and> an_parseStatus (pi_analysis input) \<noteq> InvalidParse \<and>
    (yolo_allows input \<or> exactly_approved input \<or>
      pi_commandCapability input \<and> pi_network input = OAllow
      \<and> (\<forall>why. pi_legacy input \<noteq> Some (ODeny, why))
      \<and> (\<forall>node \<in> set (an_nodes (pi_analysis input)). \<forall>r \<in> set (pi_rules input).
           pr_effect r = EDeny \<longrightarrow> isRuleApplicable nowIso r (an_context (pi_analysis input))
           \<longrightarrow> \<not> matchesRule (pr_predicate r) node (an_context (pi_analysis input)))
      \<and> \<not> has_critical (pi_analysis input) \<and> an_parseStatus (pi_analysis input) = Complete
      \<and> (pi_yoloActive input \<and> pi_yoloMode input = YUnrestricted \<or> an_scope (pi_analysis input) = Inside)
      \<and> pi_scriptTrust input \<in> {NotApplicable, Trusted})"
proof -
  let ?lifted = "pi_yoloActive input \<and> pi_yoloMode input = YUnrestricted"
  note d = decide_allow [OF assms]
  consider "yolo_allows input" | "exactApprovalDecision input = Some (DAllow a ids)"
    | "ordinary_policy nowIso input ?lifted = Inr (DAllow a ids)" "exactApprovalDecision input \<noteq> Some (DAllow a ids)"
    using d(3) by blast
  then show ?thesis
  proof cases
    case 1
    then show ?thesis using d by simp
  next
    case 2
    then show ?thesis using d exact_allowsD by blast
  next
    case 3
    note o = ordinary_allow [OF 3(1)]
    from o(5) 3(2) have c: "confirmations input ?lifted = None" by blast
    from o(2) c have "pi_network input = OAllow" by (cases "pi_network input") (simp_all add: confirmations_None)
    with o c d(1,2) show ?thesis
      by (auto simp: confirmations_None no_deny_def matching_deny_None applicable_rules_def)
  qed
qed

section \<open>Changing the remembered rules\<close>

lemma typed_allow_rules [simp]:
  "typed_allow (input\<lparr>pi_rules := rules\<rparr>) = typed_allow input"
  "confirmations (input\<lparr>pi_rules := rules\<rparr>) = confirmations input"
  "exactApprovalDecision (input\<lparr>pi_rules := rules\<rparr>) = exactApprovalDecision input"
  by (auto simp: typed_allow_def confirmations_def exactApprovalDecision_def Let_def fun_eq_iff
      split: option.split)

text \<open>Whether the decision reaches the remembered rules at all.\<close>

definition consults_rules :: "policy_input \<Rightarrow> bool" where
  "consults_rules input \<longleftrightarrow> pi_valid input \<and> an_parseStatus (pi_analysis input) \<noteq> InvalidParse
     \<and> \<not> (pi_yoloActive input \<and> has_critical (pi_analysis input) \<and> pi_yoloRisk input \<noteq> DoWhatever)
     \<and> \<not> (pi_yoloActive input \<and> pi_yoloRisk input = DoWhatever \<and> pi_yoloMode input = YUnrestricted)
     \<and> \<not> (pi_yoloActive input \<and> an_scope (pi_analysis input) = Inside)"

lemma decide_rules:
  "decideCommand nowIso (input\<lparr>pi_rules := rules\<rparr>) =
     (if consults_rules input
      then ordinary_policy nowIso (input\<lparr>pi_rules := rules\<rparr>)
             (pi_yoloActive input \<and> pi_yoloMode input = YUnrestricted)
      else decideCommand nowIso input)"
  by (auto simp: decideCommand_def Let_def consults_rules_def)

lemma find_allow_append:
  "find_allow (xs @ ys) context node =
     tryE (find_allow xs context node) (\<lambda>m. case m of Some r \<Rightarrow> Inr (Some r) | None \<Rightarrow> find_allow ys context node)"
  by (induction xs) (auto simp: tryE_def split: sum.splits)

lemma find_allow_skips_deny:
  "find_allow (xs @ d # ys) context node = find_allow (xs @ ys) context node" if "pr_effect d = EDeny"
proof -
  have "find_allow (d # ys) context node = find_allow ys context node" using that by simp
  then show ?thesis unfolding find_allow_append by simp
qed

lemma allow_nodes_skips_deny:
  "allow_nodes (xs @ d # ys) context nodes = allow_nodes (xs @ ys) context nodes" if "pr_effect d = EDeny"
  by (induction nodes) (simp_all add: find_allow_skips_deny [OF that])

lemma ordinary_skips_deny:
  assumes "pr_effect d = EDeny"
    "ordinary_policy nowIso (input\<lparr>pi_rules := xs @ d # ys\<rparr>) lifted = Inr (DAllow a ids)"
  shows "ordinary_policy nowIso (input\<lparr>pi_rules := xs @ ys\<rparr>) lifted = Inr (DAllow a ids)"
proof -
  let ?ok = "\<lambda>r. isRuleApplicable nowIso r (an_context (pi_analysis input))"
  let ?all = "filter ?ok (xs @ d # ys)" and ?rest = "filter ?ok (xs @ ys)"
  have none: "matching_deny ?all (an_context (pi_analysis input)) (an_nodes (pi_analysis input)) = None"
    using ordinary_allow(1) [OF assms(2)] by (simp add: no_deny_def applicable_rules_def)
  then have none': "matching_deny ?rest (an_context (pi_analysis input)) (an_nodes (pi_analysis input)) = None"
    unfolding matching_deny_None by auto
  have "typed_allow input ?all lifted = typed_allow input ?rest lifted"
    using allow_nodes_skips_deny [OF assms(1), of "filter ?ok xs" "filter ?ok ys"]
    by (simp add: typed_allow_def Let_def)
  with assms(2) none none' show ?thesis
    by (simp add: ordinary_policy_def Let_def del: filter_append split: option.splits prod.splits policy_outcome.splits if_splits)
qed

text \<open>
  C29: a deny rule never widens what may run. Whatever the other remembered rules are, if a command is
  allowed with the deny rule in place it is allowed, by the same rules, without it.
\<close>

theorem deny_rule_never_widens:
  assumes "pr_effect d = EDeny"
    "decideCommand nowIso (input\<lparr>pi_rules := xs @ d # ys\<rparr>) = Inr (DAllow a ids)"
  shows "decideCommand nowIso (input\<lparr>pi_rules := xs @ ys\<rparr>) = Inr (DAllow a ids)"
proof (cases "consults_rules input")
  case True
  with assms(2) have "ordinary_policy nowIso (input\<lparr>pi_rules := xs @ d # ys\<rparr>)
      (pi_yoloActive input \<and> pi_yoloMode input = YUnrestricted) = Inr (DAllow a ids)"
    by (simp only: decide_rules if_True)
  from ordinary_skips_deny [OF assms(1) this] True show ?thesis by (simp only: decide_rules if_True)
next
  case False
  with assms(2) show ?thesis by (simp only: decide_rules if_False)
qed

section \<open>Remembering a suggestion\<close>

text \<open>A node whose suggested rule can be stored and matched again.\<close>

definition nameable :: "command_node \<Rightarrow> bool" where
  "nameable node \<longleftrightarrow> nd_application node \<noteq> []
     \<and> (\<forall>e. nd_executable node = Some e \<longrightarrow> ex_fingerprint e \<noteq> [])
     \<and> list_all (\<lambda>opt. op_name opt \<noteq> []) (nd_options node)
     \<and> list_all (\<lambda>t. tg_scope t = Inside) (nd_targets node) \<and> nd_scope node = Inside
     \<and> nd_scriptFingerprint node \<noteq> Some [] \<and> nd_explicitEnvFingerprint node \<noteq> Some []"

definition remember :: "command_rule \<Rightarrow> policy_rule" where
  "remember r = \<lparr>pr_id = ''remembered'', pr_effect = EAllow, pr_predicate = rule_json r, pr_scope = SGlobal,
     pr_actor = None, pr_sessionId = None, pr_workspaceId = None, pr_expiresAt = None\<rparr>"

lemma suggested_ok: "nameable node \<Longrightarrow> rule_ok (buildSuggestedRule node)"
  by (auto simp: nameable_def rule_ok_def buildSuggestedRule_def list_all_iff split: option.splits)

lemma operation_matches_refl [simp]: "operation_matches xs xs"
  by (induction xs) auto

lemma sameStrings_refl [simp]: "sameStrings xs xs"
  by (simp add: sameStrings_def list_all_iff)

lemma option_allowed_suggested:
  "opt \<in> set opts \<Longrightarrow> option_allowed (map (\<lambda>opt. (op_name opt, None)) opts) opt"
  by (induction opts) (auto simp: option_allowed_def split: option.splits)

lemma suggested_covers:
  assumes "nameable node" "cx_backendId context = ''host''"
  shows "rule_covers (buildSuggestedRule node) node context"
  using assms option_allowed_suggested
  by (auto simp: rule_covers_def nameable_def buildSuggestedRule_def list_all_iff list_ex_iff
      js_truthy_text_def split: option.splits)

lemma remembered_matches:
  assumes "nameable node" "cx_backendId context = ''host''"
  shows "matchesRule (pr_predicate (remember (buildSuggestedRule node))) node context"
    "read_property (pr_predicate (remember (buildSuggestedRule node))) ''explicitEnvFingerprint''
       = Inr (optional_text (nd_explicitEnvFingerprint node))"
proof -
  have "validateCommandRuleV2 (rule_json (buildSuggestedRule node)) = Inr (buildSuggestedRule node)"
    by (simp add: rule_json_validates suggested_ok [OF assms(1)])
  then show "matchesRule (pr_predicate (remember (buildSuggestedRule node))) node context"
    using suggested_covers [OF assms] by (simp add: matchesRule_def remember_def)
  show "read_property (pr_predicate (remember (buildSuggestedRule node))) ''explicitEnvFingerprint''
       = Inr (optional_text (nd_explicitEnvFingerprint node))"
    using assms(1) rule_json_object [of "buildSuggestedRule node"]
    by (auto simp: remember_def read_property_def rule_json_fields buildSuggestedRule_def nameable_def
        js_truthy_text_def optional_text_def simp del: field_of.simps split: option.splits)
qed

lemma remembered_read:
  "read_property (pr_predicate (remember r)) k = Inr (field_of (rule_json r) k)"
  using rule_json_object [of r] by (auto simp: remember_def read_property_def simp del: field_of.simps)

lemma find_allow_remembered:
  assumes "nameable node" "cx_backendId context = ''host''" "node \<in> set nodes"
  shows "\<exists>r. find_allow (map (remember \<circ> buildSuggestedRule) nodes) context node = Inr (Some r)"
  using assms(3)
proof (induction nodes)
  case (Cons n nodes)
  have eff: "pr_effect (remember r) = EAllow" for r by (simp add: remember_def)
  show ?case
  proof (cases "n = node")
    case True
    then show ?thesis
      using remembered_matches [OF assms(1,2)] eff
      by (simp add: optional_text_def)
  next
    case False
    then show ?thesis using Cons eff by (auto simp: remembered_read simp del: field_of.simps)
  qed
qed simp

lemma allow_nodes_all:
  assumes "\<And>n. n \<in> set nodes \<Longrightarrow> \<exists>r. find_allow rules context n = Inr (Some r)"
  shows "\<exists>ids. allow_nodes rules context nodes = Inr (ids, True)"
  using assms
proof (induction nodes)
  case (Cons n nodes)
  from Cons.prems obtain r where r: "find_allow rules context n = Inr (Some r)" by auto
  from Cons obtain ids where "allow_nodes rules context nodes = Inr (ids, True)" by auto
  with r show ?case by simp
qed simp

lemma allow_nodes_finds:
  assumes "allow_nodes rules context nodes = Inr x" "n \<in> set nodes"
  shows "\<exists>m. find_allow rules context n = Inr m"
  using assms by (induction nodes arbitrary: x) (auto simp: tryE_Inr_iff split: prod.splits)

lemma allow_nodes_remembered:
  assumes "allow_nodes rules context nodes = Inr x" "\<forall>n \<in> set nodes. nameable n"
    "cx_backendId context = ''host''"
  shows "\<exists>ids. allow_nodes (rules @ map (remember \<circ> buildSuggestedRule) nodes) context nodes = Inr (ids, True)"
proof (rule allow_nodes_all)
  fix n assume n: "n \<in> set nodes"
  obtain m where m: "find_allow rules context n = Inr m" using allow_nodes_finds [OF assms(1) n] by blast
  obtain r where "find_allow (map (remember \<circ> buildSuggestedRule) nodes) context n = Inr (Some r)"
    using find_allow_remembered [OF _ assms(3) n] assms(2) n by blast
  with m show "\<exists>r. find_allow (rules @ map (remember \<circ> buildSuggestedRule) nodes) context n = Inr (Some r)"
    unfolding find_allow_append by (cases m) simp_all
qed

lemma matching_deny_append:
  assumes "list_all (\<lambda>r. pr_effect r = EAllow) ys"
  shows "matching_deny (xs @ ys) context nodes = matching_deny xs context nodes"
proof -
  have none: "find (\<lambda>r. pr_effect r = EDeny \<and> Q r) ys = None" for Q
    using assms by (auto simp: find_None_iff list_all_iff)
  have app: "find P (xs @ ys) = (case find P xs of Some r \<Rightarrow> Some r | None \<Rightarrow> find P ys)" for P
    by (induction xs) auto
  show ?thesis
    by (induction nodes) (simp_all add: app none split: option.splits)
qed

text \<open>The decision is left to the typed allow rules: every gate before them stays silent.\<close>

definition reaches_typed_rules :: "string \<Rightarrow> policy_input \<Rightarrow> bool" where
  "reaches_typed_rules nowIso input \<longleftrightarrow> consults_rules input \<and> no_deny nowIso input
     \<and> (\<forall>w. pi_legacy input \<noteq> Some (ODeny, w)) \<and> pi_network input \<noteq> ODeny \<and> pi_commandCapability input
     \<and> exactApprovalDecision input = None
     \<and> confirmations input (pi_yoloActive input \<and> pi_yoloMode input = YUnrestricted) = None"

lemma legacy_not_deny:
  "\<forall>w. leg \<noteq> Some (ODeny, w) \<Longrightarrow> (case leg of Some (ODeny, w) \<Rightarrow> X w | _ \<Rightarrow> Y) = Y"
  by (auto split: option.splits prod.splits policy_outcome.splits)

lemma reaches_typed_rulesD:
  assumes "reaches_typed_rules nowIso input"
  shows "decideCommand nowIso input =
    typed_allow input (applicable_rules nowIso input) (pi_yoloActive input \<and> pi_yoloMode input = YUnrestricted)"
proof -
  have "decideCommand nowIso input = decideCommand nowIso (input\<lparr>pi_rules := pi_rules input\<rparr>)" by simp
  then show ?thesis
    using assms unfolding decide_rules reaches_typed_rules_def
    by (simp add: ordinary_policy_def Let_def no_deny_def applicable_rules_def legacy_not_deny)
qed

text \<open>
  Remembering what was suggested works. When a command reaches the typed rules and every node of
  it is nameable (inside the workspace, with non-empty names and fingerprints) on the host backend,
  storing the suggested rules as global allow rules makes the same command allowed, whatever
  rules were there before.
\<close>

theorem remembered_suggestions_allow:
  assumes "reaches_typed_rules nowIso input" "decideCommand nowIso input = Inr d"
    "\<forall>n \<in> set (an_nodes (pi_analysis input)). nameable n" "an_nodes (pi_analysis input) \<noteq> []"
    "cx_backendId (an_context (pi_analysis input)) = ''host''"
  shows "\<exists>ids. decideCommand nowIso
      (input\<lparr>pi_rules := pi_rules input @ map remember (suggestions (pi_analysis input))\<rparr>)
      = Inr (DAllow (pi_analysis input) ids)"
proof -
  let ?new = "map remember (suggestions (pi_analysis input))"
  let ?ctx = "an_context (pi_analysis input)" and ?nodes = "an_nodes (pi_analysis input)"
  let ?old = "applicable_rules nowIso input"
  have new: "?new = map (remember \<circ> buildSuggestedRule) ?nodes" by (simp add: suggestions_def)
  have "isRuleApplicable nowIso (remember r) ?ctx" for r
    by (simp add: isRuleApplicable_def remember_def js_truthy_text_def)
  then have app: "filter (\<lambda>r. isRuleApplicable nowIso r ?ctx) (pi_rules input @ ?new) = ?old @ ?new"
    by (simp add: applicable_rules_def filter_id_conv)
  have "list_all (\<lambda>r. pr_effect r = EAllow) ?new" by (simp add: list_all_iff remember_def)
  from matching_deny_append [OF this] assms(1)
  have deny: "matching_deny (?old @ ?new) ?ctx ?nodes = None" by (simp add: reaches_typed_rules_def no_deny_def)
  obtain x where "allow_nodes ?old ?ctx ?nodes = Inr x"
    using assms(2) unfolding reaches_typed_rulesD [OF assms(1)] by (auto simp: typed_allow_def Let_def tryE_Inr_iff)
  from allow_nodes_remembered [OF this assms(3,5)]
  obtain ids where "allow_nodes (?old @ ?new) ?ctx ?nodes = Inr (ids, True)" unfolding new by blast
  then have ty: "typed_allow input (?old @ ?new) lifted = Inr (DAllow (pi_analysis input) ids)" for lifted
    using assms(4) by (simp add: typed_allow_def Let_def)
  show ?thesis
    using assms(1) deny ty unfolding decide_rules reaches_typed_rules_def
    by (simp add: ordinary_policy_def Let_def app legacy_not_deny del: filter_append)
qed

text \<open>
  The decision never throws except in one place: it fails only with a TypeError, and only
  when an applicable allow rule carries a stored predicate that is JSON null.
\<close>

theorem decision_throws_only_on_null_predicate:
  assumes "decideCommand nowIso input = Inl e"
  shows "e = ''TypeError: reading explicitEnvFingerprint'' \<and>
    (\<exists>r \<in> set (pi_rules input). isRuleApplicable nowIso r (an_context (pi_analysis input))
      \<and> pr_effect r = EAllow \<and> (pr_predicate r = VNull \<or> pr_predicate r = VUndef))"
proof -
  have find: "find_allow rules cx node = Inl e \<Longrightarrow> e = ''TypeError: reading explicitEnvFingerprint''
      \<and> (\<exists>r \<in> set rules. pr_effect r = EAllow \<and> (pr_predicate r = VNull \<or> pr_predicate r = VUndef))"
    for rules cx node
    by (induction rules) (auto simp: tryE_def read_property_def split: if_splits sum.splits)
  have nodes: "allow_nodes rules cx nodes = Inl e \<Longrightarrow> \<exists>node. find_allow rules cx node = Inl e"
    for rules cx nodes
    by (induction nodes) (auto simp: tryE_def split: sum.splits)
  have "\<exists>lifted. typed_allow input (applicable_rules nowIso input) lifted = Inl e"
    using assms unfolding decideCommand_def ordinary_policy_def applicable_rules_def Let_def
    by (auto split: if_splits option.splits prod.splits policy_outcome.splits)
  then obtain node where "find_allow (applicable_rules nowIso input) (an_context (pi_analysis input)) node = Inl e"
    by (auto simp: typed_allow_def Let_def tryE_Inl_iff dest: nodes)
  from find [OF this] show ?thesis by (auto simp: applicable_rules_def)
qed

text \<open>
  Inside the workspace any active YOLO mode, the one that prevents high risk included, allows
  a command without critical nodes before the remembered denials, the network policy, the capability
  and the syntax check are looked at: those inputs do not change the decision.
\<close>

theorem yolo_inside_skips_policy:
  assumes "pi_valid input" "pi_yoloActive input" "an_scope (pi_analysis input) = Inside"
    "an_parseStatus (pi_analysis input) \<noteq> InvalidParse" "\<not> has_critical (pi_analysis input)"
  shows "decideCommand nowIso (input\<lparr>pi_rules := rules, pi_legacy := leg, pi_network := net,
      pi_commandCapability := cap, pi_scriptTrust := trust, pi_exactApproval := ap\<rparr>)
    = Inr (DAllow (pi_analysis input) [])"
  using assms by (simp add: decideCommand_def Let_def)

section \<open>Concrete decisions\<close>

definition demo_node :: command_node where
  "demo_node = \<lparr>nd_id = ''n1'', nd_dialect = DDirect, nd_argv = [''git'', ''status''], nd_executable = None,
     nd_wrappers = [], nd_application = ''git'', nd_operation = [''status''], nd_scriptName = None,
     nd_options = [\<lparr>op_name = ''--short'', op_value = None, op_sourceIndex = 2\<rparr>], nd_forwardedArgv = [],
     nd_cwdCandidates = [], nd_canonicalCwdCandidates = None, nd_modifiers = [], nd_targets = [],
     nd_effect = ''READ_ONLY'', nd_risk = ''LOW'', nd_scope = Inside, nd_reasons = [],
     nd_scriptFingerprint = None, nd_explicitEnvFingerprint = None\<rparr>"

definition demo_context :: analysis_context where
  "demo_context = \<lparr>cx_actor = ''a'', cx_sessionId = ''s'', cx_workspaceId = ''w'', cx_rootsRevision = ''1'',
     cx_platform = ''linux'', cx_backendId = ''host'', cx_backendRevision = ''1'', cx_policyRevision = ''1'',
     cx_environmentFingerprint = ''e'', cx_resolverGeneration = ''1'', cx_workspaceRoot = None, cx_roots = None\<rparr>"

definition demo_analysis :: "command_node list \<Rightarrow> command_analysis" where
  "demo_analysis nodes = \<lparr>an_requestFingerprint = ''rf'', an_context = demo_context, an_parseStatus = Complete,
     an_scope = Inside, an_nodes = nodes, an_edges = [], an_reasons = [], an_evidenceFingerprint = ''ef''\<rparr>"

definition demo_input :: "command_node list \<Rightarrow> policy_rule list \<Rightarrow> policy_input" where
  "demo_input nodes rules = \<lparr>pi_analysis = demo_analysis nodes, pi_legacy = None, pi_rules = rules,
     pi_valid = True, pi_commandCapability = True, pi_authorityReasons = [], pi_network = OAllow,
     pi_networkReasons = [], pi_yoloActive = False, pi_yoloMode = YWorkspace,
     pi_yoloRisk = PreventHighRisk, pi_scriptTrust = NotApplicable, pi_exactApproval = None\<rparr>"

definition demo_approval :: exact_approval where
  "demo_approval = \<lparr>ea_ticketId = ''req_1'', ea_requestFingerprint = ''rf'', ea_evidenceFingerprint = ''ef'',
     ea_authorityVerified = True, ea_consumed = False\<rparr>"

definition null_rule :: "rule_effect \<Rightarrow> policy_rule" where
  "null_rule e = \<lparr>pr_id = ''r'', pr_effect = e, pr_predicate = VNull, pr_scope = SGlobal,
     pr_actor = None, pr_sessionId = None, pr_workspaceId = None, pr_expiresAt = None\<rparr>"

lemmas demo_simps = demo_input_def demo_analysis_def demo_context_def demo_node_def demo_approval_def
  null_rule_def decideCommand_def ordinary_policy_def confirmations_def exactApprovalDecision_def
  typed_allow_def isRuleApplicable_def has_critical_def js_truthy_text_def read_property_def Let_def

lemma demo_nameable: "nameable demo_node"
  by (simp add: nameable_def demo_node_def)

lemma demo_reaches: "reaches_typed_rules ''2026'' (demo_input [demo_node] [])"
  by (simp add: reaches_typed_rules_def consults_rules_def no_deny_def applicable_rules_def demo_simps)

lemma demo_undecided: "\<exists>d. decideCommand ''2026'' (demo_input [demo_node] []) = Inr d"
  by (simp add: demo_simps)

definition demo_critical :: policy_input where
  "demo_critical = (demo_input [demo_node\<lparr>nd_risk := ''CRITICAL''\<rparr>] [])\<lparr>pi_exactApproval := Some demo_approval\<rparr>"

lemma demo_critical_allowed:
  "decideCommand ''2026'' demo_critical = Inr (DAllow (pi_analysis demo_critical) [''req_1''])"
  by (simp add: demo_critical_def demo_simps)

theorem critical_needs_confirmation_witness:
  "\<exists>ap. pi_exactApproval demo_critical = Some ap \<and> \<not> ea_consumed ap \<and> [''req_1''] = [ea_ticketId ap]"
  using critical_needs_confirmation [OF demo_critical_allowed]
  by (auto simp: demo_critical_def demo_input_def demo_analysis_def has_critical_def)

theorem allow_passes_every_gate_witness: "pi_valid demo_critical"
  using allow_passes_every_gate [OF demo_critical_allowed] by simp

theorem deny_rule_never_widens_witness:
  "decideCommand ''2026'' (demo_critical\<lparr>pi_rules := []\<rparr>) = Inr (DAllow (pi_analysis demo_critical) [''req_1''])"
proof -
  have d: "pr_effect (null_rule EDeny) = EDeny" by (simp add: null_rule_def)
  have "decideCommand ''2026'' (demo_critical\<lparr>pi_rules := [] @ null_rule EDeny # []\<rparr>)
      = Inr (DAllow (pi_analysis demo_critical) [''req_1''])"
    by (simp add: demo_critical_def demo_simps matchesRule_def validateCommandRuleV2_def)
  from deny_rule_never_widens [OF d this] show ?thesis by simp
qed

theorem remembered_suggestions_allow_witness:
  "\<exists>ids. decideCommand ''2026'' ((demo_input [demo_node] [])\<lparr>pi_rules := [remember (buildSuggestedRule demo_node)]\<rparr>)
     = Inr (DAllow (demo_analysis [demo_node]) ids)"
proof -
  obtain d where d: "decideCommand ''2026'' (demo_input [demo_node] []) = Inr d" using demo_undecided by blast
  have n: "\<forall>n \<in> set (an_nodes (pi_analysis (demo_input [demo_node] []))). nameable n"
    "an_nodes (pi_analysis (demo_input [demo_node] [])) \<noteq> []"
    "cx_backendId (an_context (pi_analysis (demo_input [demo_node] []))) = ''host''"
    by (simp_all add: demo_input_def demo_analysis_def demo_context_def demo_nameable)
  from remembered_suggestions_allow [OF demo_reaches d n] show ?thesis
    by (simp add: demo_input_def demo_analysis_def suggestions_def)
qed

theorem decision_throws_only_on_null_predicate_witness:
  "pr_predicate (null_rule EAllow) = VNull \<or> pr_predicate (null_rule EAllow) = VUndef"
proof -
  have "decideCommand ''2026'' (demo_input [demo_node] [null_rule EAllow])
      = Inl ''TypeError: reading explicitEnvFingerprint''"
    by (simp add: demo_simps)
  from decision_throws_only_on_null_predicate [OF this] show ?thesis
    by (simp add: demo_input_def)
qed

theorem yolo_inside_skips_policy_witness:
  "decideCommand ''2026'' ((demo_input [demo_node] [])\<lparr>pi_yoloActive := True, pi_rules := [], pi_legacy := Some (ODeny, ''no''),
      pi_network := ODeny, pi_commandCapability := False, pi_scriptTrust := Changed, pi_exactApproval := None\<rparr>)
    = Inr (DAllow (demo_analysis [demo_node]) [])"
proof -
  let ?in = "(demo_input [demo_node] [])\<lparr>pi_yoloActive := True\<rparr>"
  have "pi_valid ?in" "pi_yoloActive ?in" "an_scope (pi_analysis ?in) = Inside"
    "an_parseStatus (pi_analysis ?in) \<noteq> InvalidParse" "\<not> has_critical (pi_analysis ?in)"
    by (simp_all add: demo_simps)
  from yolo_inside_skips_policy [OF this, where nowIso = "''2026''" and rules = "[]" and leg = "Some (ODeny, ''no'')"
      and net = ODeny and cap = False and trust = Changed and ap = None]
  show ?thesis by (simp add: demo_input_def)
qed

end
