(* ===== verification/RuleMigration.thy ===== *)
theory RuleMigration
  imports Permissions CommandPolicy
begin

text \<open>
  apps/core/src/policy/command-rule-migration.ts: at start-up every legacy rule for commands becomes a typed
  rule, or is set aside for the owner to review. \<open>lower\<close> is \<open>toLowerCase\<close>. The text of a reason is left out.
\<close>

section \<open>The migration\<close>

datatype migration_result = NeedsReview | MigratedTo command_rule

definition migrated_rule :: "string \<Rightarrow> string list \<Rightarrow> string option \<Rightarrow> command_rule" where
  "migrated_rule app operation scriptName =
     \<lparr>cr_application = app, cr_operation = operation, cr_scriptName = scriptName, cr_allowedModifiers = [],
      cr_allowedOptions = [], cr_positionalConstraint = WorkspacePaths, cr_exactArgv = None,
      cr_backends = [''host''], cr_dialects = [DDirect, DBash, DPwsh, DCmd],
      cr_executableFingerprint = ''*'', cr_wrapperFingerprints = [''*''], cr_scriptFingerprint = None,
      cr_explicitEnvFingerprint = None\<rparr>"

definition convertLegacyMatcher :: "(string \<Rightarrow> string) \<Rightarrow> string \<Rightarrow> migration_result" where
  "convertLegacyMatcher lower matcher =
     (let norm = js_trim matcher in
      if has_prefix ''shell:'' norm \<or> norm = ''*'' \<or> norm = ''*:*'' then NeedsReview
      else
        (let parts = filter (\<lambda>p. p \<noteq> []) (split_at (\<lambda>c. c = CHR '':'') norm);
             app = (case parts of [] \<Rightarrow> [] | p # _ \<Rightarrow> lower p);
             sub = (case parts of _ # p # _ \<Rightarrow> lower p | _ \<Rightarrow> []) in
         if app = [] then NeedsReview
         else if app = ''git'' then
           (if sub = [] \<or> sub = ''*'' then NeedsReview else MigratedTo (migrated_rule ''git'' [sub] None))
         else if app \<in> set [''npm'', ''pnpm'', ''yarn'', ''bun''] then
           (if sub = [] \<or> sub = ''*'' then NeedsReview
            else
              (let scriptName = (if sub = ''run'' then (case parts of _ # _ # p # _ \<Rightarrow> Some p | _ \<Rightarrow> None) else None) in
               MigratedTo (migrated_rule app (sub # (if js_truthy_text scriptName then [the scriptName] else [])) scriptName)))
         else NeedsReview))"

definition left_alone :: "permission_rule \<Rightarrow> bool" where
  "left_alone r \<longleftrightarrow> pm_capability r \<noteq> ''commands.run'' \<or> (pm_version r \<noteq> 0 \<and> pm_version r \<ge> 2 \<and> js_truthy_text (pm_predicate r))"

text \<open>What is written back: the row with the new version and status, and the predicate where it has none.\<close>

definition migration_input :: "(string \<Rightarrow> string) \<Rightarrow> permission_rule \<Rightarrow> rule_input" where
  "migration_input lower r =
     (case convertLegacyMatcher lower (pm_matcher r) of
        MigratedTo p \<Rightarrow>
          \<lparr>ri_rule = r\<lparr>pm_predicate := or_else (pm_predicate r) (json_stringify (rule_json p))\<rparr>,
           ri_createdAt = Some (pm_createdAt r), ri_version = Some 2, ri_status = Some ''active''\<rparr>
      | NeedsReview \<Rightarrow>
          \<lparr>ri_rule = r, ri_createdAt = Some (pm_createdAt r), ri_version = Some 1, ri_status = Some ''needs-review''\<rparr>)"

definition migrate_one :: "(string \<Rightarrow> string) \<Rightarrow> string \<Rightarrow> permission_rule \<Rightarrow> permission_rule list \<Rightarrow> permission_rule list" where
  "migrate_one lower now r rows = (if left_alone r then rows else upsert now (migration_input lower r) rows)"

definition migratePermissionRules :: "(string \<Rightarrow> string) \<Rightarrow> string \<Rightarrow> permission_rule list \<Rightarrow> permission_rule list" where
  "migratePermissionRules lower now rows = fold (migrate_one lower now) rows rows"

section \<open>What becomes of one rule\<close>

definition migrated :: "(string \<Rightarrow> string) \<Rightarrow> permission_rule \<Rightarrow> permission_rule" where
  "migrated lower r =
     (if left_alone r then r
      else case convertLegacyMatcher lower (pm_matcher r) of
          MigratedTo p \<Rightarrow> r\<lparr>pm_version := 2, pm_status := ''active'', pm_predicate := or_else (pm_predicate r) (json_stringify (rule_json p))\<rparr>
        | NeedsReview \<Rightarrow> r\<lparr>pm_version := 1, pm_status := ''needs-review''\<rparr>)"

lemma migrated_id [simp]: "pm_id (migrated lower r) = pm_id r"
  by (simp add: migrated_def split: migration_result.split)

lemma stored_migration: "\<not> left_alone r \<Longrightarrow> stored_row now (migration_input lower r) = migrated lower r"
  by (simp add: stored_row_def migration_input_def migrated_def split: migration_result.split)

lemma migration_input_id [simp]: "pm_id (ri_rule (migration_input lower r)) = pm_id r"
  by (simp add: migration_input_def split: migration_result.split)

lemma migrated_twice: "migrated lower (migrated lower r) = migrated lower r"
  by (cases "convertLegacyMatcher lower (pm_matcher r)") (auto simp: migrated_def left_alone_def or_else_def split: option.splits)

lemma migrate_one_cases:
  "left_alone p \<Longrightarrow> migrate_one lower now p rows = rows"
  "\<not> left_alone p \<Longrightarrow> migrate_one lower now p rows = upsert now (migration_input lower p) rows"
  by (simp_all add: migrate_one_def)

lemma migrate_fold:
  assumes "distinct (map pm_id (ps @ qs))" "set rows = set (ps @ qs)" "distinct (map pm_id rows)"
  shows "set (fold (migrate_one lower now) ps rows) = migrated lower ` set ps \<union> set qs"
  using assms
proof (induction ps arbitrary: rows qs rule: rev_induct)
  case (snoc p ps)
  have before: "set (fold (migrate_one lower now) ps rows) = migrated lower ` set ps \<union> set (p # qs)"
    by (rule snoc.IH) (use snoc.prems in auto)
  have other: "pm_id q \<noteq> pm_id p" if "q \<in> set ps \<union> set qs" for q
    using snoc.prems(1) that by (auto simp: image_iff)
  show ?case
  proof (cases "left_alone p")
    case True
    then have "migrated lower p = p" by (simp add: migrated_def)
    then show ?thesis using True before by (auto simp: migrate_one_cases)
  next
    case False
    have "set (upsert now (migration_input lower p) (fold (migrate_one lower now) ps rows)) =
        {r \<in> migrated lower ` set ps \<union> set (p # qs). pm_id r \<noteq> pm_id p} \<union> {migrated lower p}"
      using before stored_migration [OF False] by (auto simp: upsert_def)
    also have "{r \<in> migrated lower ` set ps \<union> set (p # qs). pm_id r \<noteq> pm_id p} = migrated lower ` set ps \<union> set qs"
      using other by auto
    finally show ?thesis using False by (auto simp: migrate_one_cases)
  qed
qed simp

lemma migration_rows:
  "distinct (map pm_id rows) \<Longrightarrow> set (migratePermissionRules lower now rows) = migrated lower ` set rows"
  using migrate_fold [of rows "[]" rows lower now] by (simp add: migratePermissionRules_def)

lemma migration_ids:
  "distinct (map pm_id rows) \<Longrightarrow> distinct (map pm_id (migratePermissionRules lower now rows))"
proof -
  have "distinct (map pm_id (fold (migrate_one lower now) ps xs))" if "distinct (map pm_id xs)" for ps xs
    using that by (induction ps arbitrary: xs) (simp_all add: migrate_one_def upsert_ids)
  then show "distinct (map pm_id rows) \<Longrightarrow> ?thesis" by (simp add: migratePermissionRules_def)
qed

lemma converted_ok: "convertLegacyMatcher lower m = MigratedTo p \<Longrightarrow> rule_ok p"
  by (auto simp: convertLegacyMatcher_def Let_def rule_ok_def migrated_rule_def split: if_splits)

lemma applicable_active: "applicable date_parse t q r \<Longrightarrow> pm_effect r = AllowRule \<Longrightarrow> pm_status r \<noteq> ''needs-review''"
  by (simp add: applicable_def)


text \<open>
  The migration runs at every start, and a second run changes nothing.
\<close>

theorem migration_settles:
  assumes "distinct (map pm_id rows)"
  shows "set (migratePermissionRules lower now' (migratePermissionRules lower now rows)) =
    set (migratePermissionRules lower now rows)"
  using migration_rows [OF migration_ids [OF assms]] migration_rows [OF assms]
  by (simp add: image_image migrated_twice)

section \<open>Cases worth knowing\<close>

text \<open>
  The words after the subcommand are dropped: a rule that allowed a rehearsal only becomes a rule that
  covers the real thing, which the legacy matcher did not match.
\<close>

lemma migration_widens_dry_run:
  "convertLegacyMatcher id ''git:clean:-n'' = MigratedTo (migrated_rule ''git'' [''clean''] None)"
  "commandPermissionMatcher id [''git'', ''clean''] None False = ''git:clean''"
  "matches ''git:clean:-n'' ''git:clean'' = False"
  "rule_covers (migrated_rule ''git'' [''clean''] None)
     (demo_node\<lparr>nd_argv := [''git'', ''clean''], nd_operation := [''clean''], nd_options := []\<rparr>) demo_context"
  by (simp_all add: convertLegacyMatcher_def Let_def js_trim_def skip_white.simps trim_end.simps leading_white_def
      white_points_def line_terminators_def has_prefix_def migrated_rule_def commandPermissionMatcher_def executableName_def
      cut_suffix_def has_suffix_def SHELLS_def SUBCOMMAND_EXECUTABLES_def matches_exact glob_word_letter
      rule_covers_def demo_node_def demo_context_def)

text \<open>A wildcard script becomes an active rule for a script named \<open>*\<close>.\<close>

lemma migrated_wildcard_script:
  "convertLegacyMatcher id ''npm:run:*'' = MigratedTo (migrated_rule ''npm'' [''run'', ''*''] (Some ''*''))"
  by (simp add: convertLegacyMatcher_def Let_def js_trim_def skip_white.simps trim_end.simps leading_white_def
      white_points_def line_terminators_def has_prefix_def)

section \<open>Witnesses\<close>

definition demo_legacy :: "permission_rule list" where
  "demo_legacy = [(demo_perm ''a'' AllowRule ''commands.run'' None)\<lparr>pm_matcher := ''git:status''\<rparr>,
     demo_perm ''b'' AllowRule ''commands.run'' None]"


theorem migration_settles_witness:
  "set (migratePermissionRules id ''u'' (migratePermissionRules id ''t'' demo_legacy)) = set (migratePermissionRules id ''t'' demo_legacy)"
  by (rule migration_settles) (simp add: demo_legacy_def demo_perm_def)

end
