(* ===== verification/Approvals.thy ===== *)
theory Approvals
  imports Json
begin

text \<open>
  apps/core/src/approvals: the tickets that freeze an operation until an operator decides on
  it. \<open>service\<close> is \<open>ApprovalService\<close> (approval-service.ts) with the table of
  packages/store/src/approvals.ts; approval-ownership.ts, approval-reuse.ts and approval-audit.ts are
  here too. Rows are kept the way \<open>get\<close> returns them.

  Times are milliseconds; \<open>toISOString\<close> keeps their order, so the SQL comparison of ISO texts is
  the comparison of times. \<open>sanitize\<close> stands for \<open>sanitizeStructuredSecrets\<close>
  (packages/security/src/dlp.ts), the handlers for the callbacks other services register: each
  returns the error it throws, if any. \<open>resume\<close> suspends twice, at \<open>await revalidate\<close> and
  at \<open>await execute\<close>; it is three functions, and between them any other operation may run.
\<close>

section \<open>Tickets and rows\<close>

datatype risk_tier = LOW | MEDIUM | HIGH | CRITICAL

datatype approval_state =
    PENDING | APPROVED | DENIED | EXPIRED | CANCELLED | EXECUTING | CONTEXT_CHANGED
  | SUCCEEDED | FAILED | INTERRUPTED

datatype ticket_scope = TWorkspace | THost

record normalized_operation =
  oc_family :: string
  oc_capability :: string
  oc_risk :: risk_tier
  oc_effect :: "string option"
  oc_resource :: "string option"
  oc_argsHash :: string

record ticket =
  tk_id :: string
  tk_actor :: string
  tk_sessionId :: string
  tk_workspaceId :: "string option"
  tk_scope :: "ticket_scope option"
  tk_identity :: "(string option \<times> string option) option"
  tk_operation :: normalized_operation
  tk_payload :: jsv
  tk_expectedState :: "(string \<times> string) list"
  tk_risk :: risk_tier
  tk_state :: approval_state
  tk_expiresAt :: int
  tk_createdAt :: "int option"
  tk_updatedAt :: "int option"
  tk_cancellationReason :: "string option"
  tk_decisionScope :: "string option"
  tk_connectionId :: "string option"
  tk_connectionSubject :: "string option"

record caller_identity =
  cl_actor :: string
  cl_sessionId :: string
  cl_connectionId :: "string option"
  cl_subject :: "string option"

record session_identity =
  si_actor :: string
  si_subject :: string
  si_connectionId :: "string option"

record audit_entry =
  au_actor :: string
  au_sessionId :: string
  au_workspaceId :: "string option"
  au_connectionId :: "string option"
  au_operation :: string
  au_risk :: risk_tier
  au_decision :: string
  au_result :: string
  au_redactionCount :: nat

text \<open>The error code, when the thrown Error has one, and its message.\<close>

type_synonym approval_error = "string option \<times> string"
type_synonym approved_handler = "ticket \<Rightarrow> approval_error option"

record service =
  sv_rows :: "(string, ticket) jsmap"
  sv_volatile :: "(string, jsv) jsmap"
  sv_bindings :: "(string, jsv) jsmap"
  sv_audit :: "audit_entry list"
  sv_before :: "approved_handler list"
  sv_approved :: "approved_handler list"
  sv_lifetimeMs :: int
  sv_lifetimeByRiskMs :: "(risk_tier \<times> int) list"

definition state_name :: "approval_state \<Rightarrow> string" where
  "state_name s = (case s of PENDING \<Rightarrow> ''PENDING'' | APPROVED \<Rightarrow> ''APPROVED'' | DENIED \<Rightarrow> ''DENIED''
     | EXPIRED \<Rightarrow> ''EXPIRED'' | CANCELLED \<Rightarrow> ''CANCELLED'' | EXECUTING \<Rightarrow> ''EXECUTING''
     | CONTEXT_CHANGED \<Rightarrow> ''CONTEXT_CHANGED'' | SUCCEEDED \<Rightarrow> ''SUCCEEDED'' | FAILED \<Rightarrow> ''FAILED''
     | INTERRUPTED \<Rightarrow> ''INTERRUPTED'')"

section \<open>Ownership, audit and the repository\<close>

definition isTicketOwnedByCaller :: "caller_identity \<Rightarrow> ticket \<Rightarrow> bool" where
  "isTicketOwnedByCaller caller t =
    (if cl_actor caller \<noteq> tk_actor t then False
     else if has_prefix ''oauth:'' (cl_actor caller) \<and> has_prefix ''oauth:'' (tk_actor t)
             \<and> (js_truthy_text (tk_connectionId t) \<or> js_truthy_text (tk_connectionSubject t)) then
       (let targetSubject = or_else (tk_connectionSubject t) (tk_connectionId t);
            callerSubject = or_else (cl_subject caller) (cl_connectionId caller) in
        if js_truthy_text (cl_connectionId caller) \<and> js_truthy_text (tk_connectionId t)
           \<and> cl_connectionId caller = tk_connectionId t then True
        else if js_truthy_text callerSubject \<and> js_truthy_text targetSubject \<and> callerSubject = targetSubject then True
        else False)
     else cl_sessionId caller = tk_sessionId t)"

definition recordTicketDecision :: "ticket \<Rightarrow> string \<Rightarrow> string \<Rightarrow> service \<Rightarrow> service" where
  "recordTicketDecision t decision result s = s\<lparr>sv_audit := sv_audit s @
     [\<lparr>au_actor = tk_actor t, au_sessionId = tk_sessionId t,
       au_workspaceId = (if js_truthy_text (tk_workspaceId t) then tk_workspaceId t else None),
       au_connectionId =
         (case tk_identity t of
            Some (_, key) \<Rightarrow> if js_truthy_text key then key
              else if js_truthy_text (tk_connectionId t) then tk_connectionId t else None
          | None \<Rightarrow> if js_truthy_text (tk_connectionId t) then tk_connectionId t else None),
       au_operation = oc_family (tk_operation t), au_risk = tk_risk t,
       au_decision = decision, au_result = result, au_redactionCount = 0\<rparr>]\<rparr>"

definition clean_payload :: "(jsv \<Rightarrow> jsv) \<Rightarrow> jsv \<Rightarrow> jsv" where
  "clean_payload sanitize p = sanitize (if p = VUndef then VNull else p)"

text \<open>The row \<open>put\<close> writes, as \<open>get\<close> reads it back.\<close>

definition row_of :: "(jsv \<Rightarrow> jsv) \<Rightarrow> int \<Rightarrow> ticket \<Rightarrow> ticket" where
  "row_of sanitize now t = t\<lparr>
     tk_workspaceId := (if tk_scope t = Some THost then None else tk_workspaceId t),
     tk_scope := Some (case tk_scope t of None \<Rightarrow> TWorkspace | Some sc \<Rightarrow> sc),
     tk_identity := (if tk_scope t = Some THost
       then Some (case tk_identity t of None \<Rightarrow> (None, None) | Some i \<Rightarrow> i) else None),
     tk_payload := (let p = clean_payload sanitize (tk_payload t) in if p = VNull then VUndef else p),
     tk_createdAt := or_else (tk_createdAt t) (Some now),
     tk_updatedAt := Some now,
     tk_connectionId := or_else (tk_connectionSubject t) (tk_connectionId t),
     tk_connectionSubject := or_else (tk_connectionSubject t) (tk_connectionId t)\<rparr>"

definition put :: "(jsv \<Rightarrow> jsv) \<Rightarrow> int \<Rightarrow> ticket \<Rightarrow> service \<Rightarrow> service" where
  "put sanitize now t s = s\<lparr>sv_rows := AList.update (tk_id t) (row_of sanitize now t) (sv_rows s)\<rparr>"

definition list_rows :: "service \<Rightarrow> ticket list" where
  "list_rows s = sort_key (\<lambda>t. - (case tk_createdAt t of None \<Rightarrow> 0 | Some c \<Rightarrow> c)) (jvals (sv_rows s))"

definition live_states :: "approval_state list" where
  "live_states = [PENDING, APPROVED, EXECUTING]"

definition clearFinished :: "service \<Rightarrow> nat \<times> service" where
  "clearFinished s =
     (let kept = filter (\<lambda>(k, t). List.member live_states (tk_state t)) (sv_rows s) in
      (length (sv_rows s) - length kept, s\<lparr>sv_rows := kept\<rparr>))"

text \<open>\<open>UPDATE ... WHERE id=? AND ...\<close>, with \<open>changes === 1\<close>.\<close>

definition update_where :: "string \<Rightarrow> (ticket \<Rightarrow> bool) \<Rightarrow> approval_state \<Rightarrow> int \<Rightarrow> service \<Rightarrow> bool \<times> service" where
  "update_where id0 cond st now s =
    (case map_of (sv_rows s) id0 of
       None \<Rightarrow> (False, s)
     | Some t \<Rightarrow> if cond t
         then (True, s\<lparr>sv_rows := AList.update id0 (t\<lparr>tk_state := st, tk_updatedAt := Some now\<rparr>) (sv_rows s)\<rparr>)
         else (False, s))"

definition claimExecution :: "string \<Rightarrow> int \<Rightarrow> service \<Rightarrow> bool \<times> service" where
  "claimExecution id0 now = update_where id0 (\<lambda>t. tk_state t = APPROVED \<and> tk_expiresAt t > now) EXECUTING now"

definition transitionExecution :: "string \<Rightarrow> approval_state \<Rightarrow> int \<Rightarrow> service \<Rightarrow> bool \<times> service" where
  "transitionExecution id0 st now = update_where id0 (\<lambda>t. tk_state t = EXECUTING) st now"

definition transitionContextChanged :: "string \<Rightarrow> int \<Rightarrow> service \<Rightarrow> bool \<times> service" where
  "transitionContextChanged id0 now = update_where id0 (\<lambda>t. tk_state t = APPROVED) CONTEXT_CHANGED now"

section \<open>Status and decisions\<close>

definition drop_secrets :: "string \<Rightarrow> service \<Rightarrow> service" where
  "drop_secrets id0 s = s\<lparr>sv_volatile := AList.delete id0 (sv_volatile s),
     sv_bindings := AList.delete id0 (sv_bindings s)\<rparr>"

text \<open>Store a decided ticket, forget what it held, and write the audit entry.\<close>

definition settle :: "(jsv \<Rightarrow> jsv) \<Rightarrow> int \<Rightarrow> ticket \<Rightarrow> string \<Rightarrow> string \<Rightarrow> service \<Rightarrow> service" where
  "settle sanitize now t decision result s =
     recordTicketDecision t decision result (drop_secrets (tk_id t) (put sanitize now t s))"

definition expired_now :: "int \<Rightarrow> ticket \<Rightarrow> bool" where
  "expired_now now t \<longleftrightarrow> List.member [PENDING, APPROVED] (tk_state t) \<and> tk_expiresAt t \<le> now"

definition status :: "(jsv \<Rightarrow> jsv) \<Rightarrow> int \<Rightarrow> string \<Rightarrow> service \<Rightarrow> ticket option \<times> service" where
  "status sanitize now id0 s =
    (case map_of (sv_rows s) id0 of
       None \<Rightarrow> (None, s)
     | Some t \<Rightarrow>
         if expired_now now t then
           (let t' = t\<lparr>tk_state := EXPIRED\<rparr> in
            (Some t', settle sanitize now t' ''expired'' ''APPROVAL_TIMEOUT'' s))
         else (Some t, s))"

definition status_for :: "(jsv \<Rightarrow> jsv) \<Rightarrow> int \<Rightarrow> string \<Rightarrow> caller_identity option \<Rightarrow> service \<Rightarrow> ticket option \<times> service" where
  "status_for sanitize now id0 caller s =
    (case status sanitize now id0 s of
       (None, s') \<Rightarrow> (None, s')
     | (Some t, s') \<Rightarrow>
         (case caller of Some c \<Rightarrow> if isTicketOwnedByCaller c t then (Some t, s') else (None, s')
          | None \<Rightarrow> (Some t, s')))"

definition required :: "(jsv \<Rightarrow> jsv) \<Rightarrow> int \<Rightarrow> string \<Rightarrow> service \<Rightarrow> (approval_error + ticket) \<times> service" where
  "required sanitize now id0 s =
    (case status sanitize now id0 s of
       (None, s') \<Rightarrow> (Inl (None, ''approval not found''), s')
     | (Some t, s') \<Rightarrow> (Inr t, s'))"

text \<open>The refusals of \<open>approve\<close>, in order (lines 174 to 200).\<close>

definition approval_refusal :: "ticket \<Rightarrow> string \<Rightarrow> string option" where
  "approval_refusal t sc =
    (if tk_state t \<noteq> PENDING then Some (''Cannot approve '' @ state_name (tk_state t))
     else if tk_scope t = Some THost \<and> oc_family (tk_operation t) = ''host-control:request'' \<and> sc \<noteq> ''connection''
     then Some ''Host control approval requires connection scope''
     else if tk_scope t = Some THost \<and> oc_family (tk_operation t) \<noteq> ''host-control:request'' \<and> sc \<noteq> ''once''
     then Some ''Host action approval requires once scope''
     else if tk_risk t = CRITICAL \<and> sc \<noteq> ''once''
     then Some ''Critical operations only support one-time local approval''
     else if field_of (tk_payload t) ''securityOnce'' = VBool True \<and> sc \<noteq> ''once''
     then Some ''Security-sensitive operations only support one-time local approval''
     else if oc_capability (tk_operation t) = ''commands.run'' \<and> sc \<noteq> ''once''
             \<and> has_prefix ''shell:'' (oc_family (tk_operation t))
     then Some ''Shell execution only supports one-time local approval''
     else if oc_capability (tk_operation t) = ''commands.run'' \<and> sc \<noteq> ''once'' \<and> oc_risk (tk_operation t) = HIGH
     then Some ''High-risk commands only support one-time local approval''
     else if oc_family (tk_operation t) = ''skills:read'' \<and> sc \<noteq> ''once''
     then Some ''This request is connection/session scoped and only supports one-time local approval''
     else None)"

definition narrow_payload :: "ticket \<Rightarrow> ticket" where
  "narrow_payload t =
    (if oc_family (tk_operation t) = ''workspace:select'' \<and> has_prefix ''connector:'' (tk_actor t)
        \<and> field_of (tk_payload t) ''tool'' = VStr ''workspace_select''
        \<and> field_of (tk_payload t) ''profileId'' = VStr ''developer''
     then t\<lparr>tk_payload := (case tk_payload t of
         VObj ms \<Rightarrow> VObj (AList.update ''profileId'' (VStr ''read-only'') ms) | p \<Rightarrow> p)\<rparr>
     else t)"

fun run_handlers :: "approved_handler list \<Rightarrow> ticket \<Rightarrow> approval_error option" where
  "run_handlers [] t = None"
| "run_handlers (h # hs) t = (case h t of Some e \<Rightarrow> Some e | None \<Rightarrow> run_handlers hs t)"

definition approve :: "(jsv \<Rightarrow> jsv) \<Rightarrow> int \<Rightarrow> string \<Rightarrow> string \<Rightarrow> service \<Rightarrow> (approval_error + ticket) \<times> service" where
  "approve sanitize now id0 sc s =
    (case required sanitize now id0 s of
       (Inl e, s') \<Rightarrow> (Inl e, s')
     | (Inr t, s') \<Rightarrow>
    (case approval_refusal t sc of
       Some msg \<Rightarrow> (Inl (None, msg), s')
     | None \<Rightarrow>
       let t1 = narrow_payload t in
    (case run_handlers (sv_before s') t1 of
       Some e \<Rightarrow> (Inl e, s')
     | None \<Rightarrow>
       let t2 = t1\<lparr>tk_decisionScope := Some sc\<rparr> in
    (case run_handlers (sv_approved s') t2 of
       Some e \<Rightarrow> (Inl e, s')
     | None \<Rightarrow>
       let t3 = t2\<lparr>tk_state := APPROVED\<rparr> in
       (Inr t3, recordTicketDecision t3 (''approved:'' @ sc) ''armed'' (put sanitize now t3 s'))))))"

definition deny :: "(jsv \<Rightarrow> jsv) \<Rightarrow> int \<Rightarrow> string \<Rightarrow> service \<Rightarrow> (approval_error + ticket) \<times> service" where
  "deny sanitize now id0 s =
    (case required sanitize now id0 s of
       (Inl e, s') \<Rightarrow> (Inl e, s')
     | (Inr t, s') \<Rightarrow>
         if tk_state t \<noteq> PENDING then (Inl (None, ''Cannot deny '' @ state_name (tk_state t)), s')
         else let t' = t\<lparr>tk_state := DENIED\<rparr> in
              (Inr t', settle sanitize now t' ''denied'' ''APPROVAL_DENIED'' s'))"

definition cancel :: "(jsv \<Rightarrow> jsv) \<Rightarrow> int \<Rightarrow> string \<Rightarrow> string \<Rightarrow> caller_identity option \<Rightarrow> service \<Rightarrow>
    (approval_error + ticket) \<times> service" where
  "cancel sanitize now id0 why caller s =
    (case required sanitize now id0 s of
       (Inl e, s') \<Rightarrow> (Inl e, s')
     | (Inr t, s') \<Rightarrow>
         if (case caller of Some c \<Rightarrow> \<not> isTicketOwnedByCaller c t | None \<Rightarrow> False)
         then (Inl (Some ''APPROVAL_NOT_FOUND'', ''approval not found''), s')
         else if \<not> List.member [PENDING, APPROVED] (tk_state t)
         then (Inl (None, ''Cannot cancel '' @ state_name (tk_state t)), s')
         else let t' = t\<lparr>tk_state := CANCELLED, tk_cancellationReason := Some why\<rparr> in
              (Inr t', settle sanitize now t' ''cancelled'' why s'))"

fun cancel_rows :: "(jsv \<Rightarrow> jsv) \<Rightarrow> int \<Rightarrow> ticket list \<Rightarrow> service \<Rightarrow> service" where
  "cancel_rows sanitize now [] s = s"
| "cancel_rows sanitize now (t # ts) s = cancel_rows sanitize now ts
    (if List.member [PENDING, APPROVED] (tk_state t) then
       settle sanitize now (t\<lparr>tk_state := CANCELLED, tk_cancellationReason := Some ''CANCELLED_RESTART''\<rparr>)
         ''cancelled'' ''CANCELLED_RESTART'' s
     else if tk_state t = EXECUTING then
       settle sanitize now (t\<lparr>tk_state := INTERRUPTED, tk_cancellationReason := Some ''INTERRUPTED_RESTART''\<rparr>)
         ''interrupted'' ''INTERRUPTED_RESTART'' s
     else s)"

definition cancelForRestart :: "(jsv \<Rightarrow> jsv) \<Rightarrow> int \<Rightarrow> service \<Rightarrow> service" where
  "cancelForRestart sanitize now s = (cancel_rows sanitize now (list_rows s) s)\<lparr>sv_volatile := []\<rparr>"

fun sweep :: "(jsv \<Rightarrow> jsv) \<Rightarrow> int \<Rightarrow> string list \<Rightarrow> service \<Rightarrow> service" where
  "sweep sanitize now [] s = s"
| "sweep sanitize now (i # ids) s = sweep sanitize now ids (snd (status sanitize now i s))"

definition clearHistory :: "(jsv \<Rightarrow> jsv) \<Rightarrow> int \<Rightarrow> service \<Rightarrow> nat \<times> service" where
  "clearHistory sanitize now s =
    (case clearFinished (sweep sanitize now (map tk_id (list_rows s)) s) of
       (deleted, s') \<Rightarrow>
         (deleted, s'\<lparr>sv_volatile := filter (\<lambda>(k, _). map_of (sv_rows s') k \<noteq> None) (sv_volatile s')\<rparr>))"

section \<open>Requests\<close>

definition canResumeAcrossSessions :: "ticket \<Rightarrow> string \<Rightarrow> bool" where
  "canResumeAcrossSessions t currentSessionId =
    (if tk_sessionId t = currentSessionId then True
     else if tk_state t = PENDING then True
     else if tk_state t = APPROVED then tk_decisionScope t = Some ''connection''
     else False)"

type_synonym identity_resolver = "string \<Rightarrow> session_identity option"

definition isSameConnection :: "ticket \<Rightarrow> session_identity \<Rightarrow> identity_resolver \<Rightarrow> bool" where
  "isSameConnection t current resolve =
    (if js_truthy_text (tk_connectionSubject t) \<and> tk_connectionSubject t = Some (si_subject current) then True
     else if js_truthy_text (tk_connectionId t) \<and> js_truthy_text (si_connectionId current)
             \<and> tk_connectionId t = si_connectionId current then True
     else (case resolve (tk_sessionId t) of
             None \<Rightarrow> False
           | Some existing \<Rightarrow> si_actor existing = si_actor current \<and> si_subject existing = si_subject current))"

text \<open>\<open>identity?.kind\<close>, where a host row reads a missing key as null.\<close>

definition identity_kind :: "ticket \<Rightarrow> string option" where
  "identity_kind t = (case tk_identity t of None \<Rightarrow> None | Some (k, _) \<Rightarrow> k)"

definition identity_key :: "ticket \<Rightarrow> string option" where
  "identity_key t = (case tk_identity t of None \<Rightarrow> None | Some (_, k) \<Rightarrow> k)"

definition reusable_ticket :: "ticket \<Rightarrow> session_identity \<Rightarrow> identity_resolver \<Rightarrow> ticket \<Rightarrow> bool" where
  "reusable_ticket inp current resolve t =
    (let fam = oc_family (tk_operation inp);
         reusableStates = (if fam = ''host-control:request'' then [PENDING] else [PENDING, APPROVED]) in
     if oc_family (tk_operation t) \<noteq> fam
        \<or> (tk_scope inp \<noteq> Some THost \<and> tk_workspaceId t \<noteq> tk_workspaceId inp)
        \<or> (tk_scope inp = Some THost
            \<and> (identity_kind t \<noteq> identity_kind inp \<or> identity_key t \<noteq> identity_key inp
               \<or> oc_capability (tk_operation t) \<noteq> oc_capability (tk_operation inp)))
        \<or> tk_actor t \<noteq> tk_actor inp
        \<or> \<not> List.member reusableStates (tk_state t)
        \<or> (fam = ''workspace:select'' \<and> oc_argsHash (tk_operation t) \<noteq> oc_argsHash (tk_operation inp))
     then False
     else if \<not> isSameConnection t current resolve then False
     else canResumeAcrossSessions t (tk_sessionId inp))"

definition findReusableConnectionRequest :: "ticket \<Rightarrow> ticket list \<Rightarrow> identity_resolver option \<Rightarrow> ticket option" where
  "findReusableConnectionRequest inp tickets resolver =
    (case resolver of
       None \<Rightarrow> None
     | Some resolve \<Rightarrow>
         if (oc_family (tk_operation inp) \<noteq> ''workspace:select''
             \<and> oc_family (tk_operation inp) \<noteq> ''host-control:request'')
            \<or> \<not> has_prefix ''oauth:'' (tk_actor inp) then None
         else (case resolve (tk_sessionId inp) of
             None \<Rightarrow> None
           | Some current \<Rightarrow> find (reusable_ticket inp current resolve) tickets))"

datatype request_result = AlreadyApproved string | ApprovalPending string int

definition seconds_left :: "int \<Rightarrow> ticket \<Rightarrow> int" where
  "seconds_left now t = max 0 ((tk_expiresAt t - now + 999) div 1000)"

definition lifetime_of :: "service \<Rightarrow> ticket \<Rightarrow> int" where
  "lifetime_of s inp = (case map_of (sv_lifetimeByRiskMs s) (tk_risk inp) of None \<Rightarrow> sv_lifetimeMs s | Some l \<Rightarrow> l)"

text \<open>Lines 86 to 103: the ticket a request creates.\<close>

definition new_ticket :: "int \<Rightarrow> string \<Rightarrow> identity_resolver option \<Rightarrow> service \<Rightarrow> ticket \<Rightarrow> ticket" where
  "new_ticket now fresh resolver s inp =
    (let sessionIdentity = Option.bind resolver (\<lambda>resolve. resolve (tk_sessionId inp));
         isOAuth = has_prefix ''oauth:''
           (case sessionIdentity of None \<Rightarrow> tk_actor inp | Some si \<Rightarrow> si_actor si);
         connectionId = (if isOAuth
           then or_else (Option.bind sessionIdentity si_connectionId) (tk_connectionId inp) else None);
         connectionSubject = (if isOAuth
           then or_else connectionId (or_else (map_option si_subject sessionIdentity) (tk_connectionSubject inp))
           else None) in
     inp\<lparr>tk_id := fresh,
       tk_connectionId := (if js_truthy_text connectionId then connectionId else tk_connectionId inp),
       tk_connectionSubject :=
         (if js_truthy_text connectionSubject then connectionSubject else tk_connectionSubject inp),
       tk_state := PENDING, tk_expiresAt := now + lifetime_of s inp, tk_createdAt := Some now\<rparr>)"

text \<open>
  Lines 104 to 113: store it, and keep the payload in memory when the stored one lost something.
  \<open>fresh\<close> is the request id, \<open>req_\<close> followed by a random UUID.
\<close>

definition create_request :: "(jsv \<Rightarrow> jsv) \<Rightarrow> int \<Rightarrow> string \<Rightarrow> identity_resolver option \<Rightarrow> ticket \<Rightarrow> jsv \<Rightarrow>
    service \<Rightarrow> ticket \<times> service" where
  "create_request sanitize now fresh resolver inp volatilePayload s =
    (let t = new_ticket now fresh resolver s inp;
         stored = clean_payload sanitize (tk_payload t);
         s1 = put sanitize now t s;
         s2 = (if volatilePayload \<noteq> VUndef
               then s1\<lparr>sv_volatile := AList.update fresh volatilePayload (sv_volatile s1)\<rparr>
               else if tk_payload inp \<noteq> VUndef \<and> json_stringify stored \<noteq> json_stringify (tk_payload inp)
               then s1\<lparr>sv_volatile := AList.update fresh (tk_payload inp) (sv_volatile s1)\<rparr>
               else s1) in
     (t, recordTicketDecision t ''approval_requested'' ''pending'' s2))"

text \<open>The part of \<open>request\<close> before its wait: an answer, or the ticket it created.\<close>

definition request :: "(jsv \<Rightarrow> jsv) \<Rightarrow> int \<Rightarrow> string \<Rightarrow> identity_resolver option \<Rightarrow> ticket \<Rightarrow> jsv \<Rightarrow>
    service \<Rightarrow> (request_result + ticket) \<times> service" where
  "request sanitize now fresh resolver inp volatilePayload s =
    (let create = (\<lambda>s'. case create_request sanitize now fresh resolver inp volatilePayload s' of
           (t, s'') \<Rightarrow> (Inr t, s'')) in
     case findReusableConnectionRequest inp (list_rows s) resolver of
       None \<Rightarrow> create s
     | Some r \<Rightarrow>
         (case status sanitize now (tk_id r) s of
            (None, s') \<Rightarrow> create s'
          | (Some latest, s') \<Rightarrow>
              if tk_state latest = APPROVED then (Inl (AlreadyApproved (tk_id latest)), s')
              else if tk_state latest = PENDING
              then (Inl (ApprovalPending (tk_id latest) (seconds_left now latest)), s')
              else create s'))"

text \<open>Lines 118 to 124, after the fast wait.\<close>

definition request_answer :: "(jsv \<Rightarrow> jsv) \<Rightarrow> int \<Rightarrow> ticket \<Rightarrow> service \<Rightarrow> request_result option \<times> service" where
  "request_answer sanitize now t s =
    (case status sanitize now (tk_id t) s of
       (None, s') \<Rightarrow> (None, s')
     | (Some latest, s') \<Rightarrow>
         (Some (if tk_state latest = APPROVED then AlreadyApproved (tk_id t)
                else ApprovalPending (tk_id t) (seconds_left now t)), s'))"

section \<open>Resuming an approved operation\<close>

definition withVolatilePayload :: "service \<Rightarrow> ticket \<Rightarrow> ticket" where
  "withVolatilePayload s t =
    (case map_of (sv_volatile s) (tk_id t) of None \<Rightarrow> t | Some p \<Rightarrow> t\<lparr>tk_payload := p\<rparr>)"

datatype resume_start = StartThrows approval_error | StartReturns ticket | Revalidate ticket
datatype resume_claim = ClaimThrows approval_error | ClaimReturns ticket | Execute ticket
datatype verdict = Valid | Refused string "string option"

text \<open>Lines 265 to 275: up to \<open>await revalidate(t)\<close>.\<close>

definition resume_begin :: "(jsv \<Rightarrow> jsv) \<Rightarrow> int \<Rightarrow> string \<Rightarrow> service \<Rightarrow> resume_start \<times> service" where
  "resume_begin sanitize now id0 s =
    (case required sanitize now id0 s of
       (Inl e, s') \<Rightarrow> (StartThrows e, s')
     | (Inr stored, s') \<Rightarrow>
         if tk_state stored = EXPIRED
         then (StartThrows (Some ''APPROVAL_TIMEOUT'', ''APPROVAL_TIMEOUT''), s')
         else if tk_state stored = EXECUTING then (StartReturns stored, s')
         else if List.member [SUCCEEDED, FAILED, INTERRUPTED] (tk_state stored) then (StartReturns stored, s')
         else if tk_state stored \<noteq> APPROVED
         then (StartThrows (Some (if tk_state stored = DENIED then ''APPROVAL_DENIED'' else ''APPROVAL_PENDING''),
                 ''Approval is '' @ state_name (tk_state stored)), s')
         else (Revalidate (withVolatilePayload s' stored), s'))"

text \<open>Lines 276 to 318: from the verdict to \<open>await execute(t)\<close>.\<close>

definition resume_validated :: "(jsv \<Rightarrow> jsv) \<Rightarrow> int \<Rightarrow> ticket \<Rightarrow> verdict \<Rightarrow> (ticket \<Rightarrow> bool \<times> string option) option \<Rightarrow>
    service \<Rightarrow> resume_claim \<times> service" where
  "resume_validated sanitize now t v postClaimCheck s =
    (case v of
       Refused why code \<Rightarrow>
         if code = Some ''APPROVAL_SCOPE_MISMATCH'' then (ClaimThrows (Some ''APPROVAL_SCOPE_MISMATCH'', why), s)
         else if List.member [''OAuth connection changed'', ''session changed'', ''unauthorized''] why
         then (ClaimThrows (Some ''APPROVAL_UNAUTHORIZED'', why), s)
         else (ClaimThrows (Some ''APPROVAL_CONTEXT_CHANGED'', why),
           (case transitionContextChanged (tk_id t) now s of
              (False, s') \<Rightarrow> s'
            | (True, s') \<Rightarrow> recordTicketDecision (t\<lparr>tk_state := CONTEXT_CHANGED\<rparr>) ''resume_rejected''
                ''APPROVAL_CONTEXT_CHANGED'' (drop_secrets (tk_id t) s')))
     | Valid \<Rightarrow>
        (case claimExecution (tk_id t) now s of
           (False, s') \<Rightarrow>
             (case status sanitize now (tk_id t) s' of
                (fresh, s'') \<Rightarrow> (ClaimReturns (case fresh of None \<Rightarrow> t | Some f \<Rightarrow> f), s''))
         | (True, s') \<Rightarrow>
             let t' = t\<lparr>tk_state := EXECUTING\<rparr>;
                 s1 = recordTicketDecision t' ''resume'' ''EXECUTING'' s' in
             (case postClaimCheck of
                None \<Rightarrow> (Execute t', s1)
              | Some check \<Rightarrow>
                  (case check t' of
                     (True, _) \<Rightarrow> (Execute t', s1)
                   | (False, why) \<Rightarrow>
                       (ClaimThrows (Some ''APPROVAL_CONTEXT_CHANGED'',
                          case why of None \<Rightarrow> ''authority changed'' | Some w \<Rightarrow> w),
                        recordTicketDecision t' ''resume_rejected''
                          (case why of None \<Rightarrow> ''APPROVAL_CONTEXT_CHANGED'' | Some w \<Rightarrow> w)
                          (drop_secrets (tk_id t) (snd (transitionExecution (tk_id t) FAILED now s1))))))))"

text \<open>Lines 319 to 329: the execution returned (\<open>ok\<close>) or threw.\<close>

definition resume_finish :: "int \<Rightarrow> ticket \<Rightarrow> bool \<Rightarrow> service \<Rightarrow> service" where
  "resume_finish now t ok s =
     (let st = (if ok then SUCCEEDED else FAILED) in
      recordTicketDecision t ''resume'' (state_name st)
        (drop_secrets (tk_id t) (snd (transitionExecution (tk_id t) st now s))))"

section \<open>The service with its suspended calls\<close>

text \<open>
  A run is a list of events, each with its clock. \<open>sy_waiting\<close> are the \<open>resume\<close> calls at
  \<open>await revalidate\<close> and \<open>sy_running\<close> those at \<open>await execute\<close>; \<open>sy_log\<close> notes what was
  approved and what was executed. \<open>uuid\<close> is \<open>randomUUID\<close>: the n-th draw.
\<close>

datatype approval_log = LApproved string | LExecuted string

record system =
  sy_service :: service
  sy_minted :: nat
  sy_waiting :: "ticket list"
  sy_running :: "ticket list"
  sy_log :: "approval_log list"

datatype approval_event =
    ERequest "identity_resolver option" ticket jsv
  | EApprove string string
  | EDeny string
  | ECancel string string "caller_identity option"
  | ERestart
  | EClear
  | EStatus string "caller_identity option"
  | EAnswer ticket
  | EResume string
  | EVerdict nat verdict "(ticket \<Rightarrow> bool \<times> string option) option"
  | EFinish nat bool

definition request_id :: "(nat \<Rightarrow> string) \<Rightarrow> nat \<Rightarrow> string" where
  "request_id uuid n = ''req_'' @ uuid n"

definition remove_at :: "nat \<Rightarrow> 'a list \<Rightarrow> 'a list" where
  "remove_at k xs = take k xs @ drop (Suc k) xs"

fun approval_step :: "(nat \<Rightarrow> string) \<Rightarrow> (jsv \<Rightarrow> jsv) \<Rightarrow> system \<Rightarrow> int \<times> approval_event \<Rightarrow> system" where
  "approval_step uuid sanitize sys (now, ERequest resolver inp vol) =
     (case request sanitize now (request_id uuid (sy_minted sys)) resolver inp vol (sy_service sys) of
        (Inl _, s') \<Rightarrow> sys\<lparr>sy_service := s'\<rparr>
      | (Inr _, s') \<Rightarrow> sys\<lparr>sy_service := s', sy_minted := Suc (sy_minted sys)\<rparr>)"
| "approval_step uuid sanitize sys (now, EApprove i sc) =
     (case approve sanitize now i sc (sy_service sys) of
        (Inl _, s') \<Rightarrow> sys\<lparr>sy_service := s'\<rparr>
      | (Inr _, s') \<Rightarrow> sys\<lparr>sy_service := s', sy_log := sy_log sys @ [LApproved i]\<rparr>)"
| "approval_step uuid sanitize sys (now, EDeny i) =
     sys\<lparr>sy_service := snd (deny sanitize now i (sy_service sys))\<rparr>"
| "approval_step uuid sanitize sys (now, ECancel i why caller) =
     sys\<lparr>sy_service := snd (cancel sanitize now i why caller (sy_service sys))\<rparr>"
| "approval_step uuid sanitize sys (now, ERestart) =
     sys\<lparr>sy_service := cancelForRestart sanitize now (sy_service sys)\<rparr>"
| "approval_step uuid sanitize sys (now, EClear) =
     sys\<lparr>sy_service := snd (clearHistory sanitize now (sy_service sys))\<rparr>"
| "approval_step uuid sanitize sys (now, EStatus i caller) =
     sys\<lparr>sy_service := snd (status_for sanitize now i caller (sy_service sys))\<rparr>"
| "approval_step uuid sanitize sys (now, EAnswer t) =
     sys\<lparr>sy_service := snd (request_answer sanitize now t (sy_service sys))\<rparr>"
| "approval_step uuid sanitize sys (now, EResume i) =
     (case resume_begin sanitize now i (sy_service sys) of
        (Revalidate t, s') \<Rightarrow> sys\<lparr>sy_service := s', sy_waiting := sy_waiting sys @ [t]\<rparr>
      | (_, s') \<Rightarrow> sys\<lparr>sy_service := s'\<rparr>)"
| "approval_step uuid sanitize sys (now, EVerdict k v check) =
     (if k < length (sy_waiting sys) then
        (case resume_validated sanitize now (sy_waiting sys ! k) v check (sy_service sys) of
           (Execute t, s') \<Rightarrow> sys\<lparr>sy_service := s', sy_waiting := remove_at k (sy_waiting sys),
              sy_running := sy_running sys @ [t], sy_log := sy_log sys @ [LExecuted (tk_id t)]\<rparr>
         | (_, s') \<Rightarrow> sys\<lparr>sy_service := s', sy_waiting := remove_at k (sy_waiting sys)\<rparr>)
      else sys)"
| "approval_step uuid sanitize sys (now, EFinish k ok) =
     (if k < length (sy_running sys) then
        sys\<lparr>sy_service := resume_finish now (sy_running sys ! k) ok (sy_service sys),
            sy_running := remove_at k (sy_running sys)\<rparr>
      else sys)"

definition new_service :: "approved_handler list \<Rightarrow> approved_handler list \<Rightarrow> int \<Rightarrow> (risk_tier \<times> int) list \<Rightarrow> service" where
  "new_service before after lifetime byRisk = \<lparr>sv_rows = [], sv_volatile = [], sv_bindings = [], sv_audit = [],
     sv_before = before, sv_approved = after, sv_lifetimeMs = lifetime, sv_lifetimeByRiskMs = byRisk\<rparr>"

definition new_system :: "service \<Rightarrow> system" where
  "new_system s = \<lparr>sy_service = s, sy_minted = 0, sy_waiting = [], sy_running = [], sy_log = []\<rparr>"

section \<open>The abstract life of a ticket\<close>

text \<open>
  What the service promises: a ticket moves along these edges only; finished tickets may be
  purged; only a fresh id comes to life. \<open>As\<close> are the ids approved and \<open>Xs\<close> the ids claimed on the
  way, \<open>Fs\<close> the fresh ids.
\<close>

fun lifecycle :: "approval_state \<Rightarrow> approval_state \<Rightarrow> bool" where
  "lifecycle PENDING b = List.member [APPROVED, DENIED, EXPIRED, CANCELLED] b"
| "lifecycle APPROVED b = List.member [EXECUTING, EXPIRED, CANCELLED, CONTEXT_CHANGED] b"
| "lifecycle EXECUTING b = List.member [SUCCEEDED, FAILED, INTERRUPTED] b"
| "lifecycle _ b = False"

inductive ticket_moves :: "string set \<Rightarrow> string set \<Rightarrow> string set \<Rightarrow>
    (string \<rightharpoonup> approval_state) \<Rightarrow> (string \<rightharpoonup> approval_state) \<Rightarrow> bool"
  for As Xs Fs where
  stay: "ticket_moves As Xs Fs m m"
| advance: "ticket_moves As Xs Fs m m' \<Longrightarrow> m' i = Some a \<Longrightarrow> lifecycle a b \<Longrightarrow>
    (b = APPROVED \<longrightarrow> i \<in> As) \<Longrightarrow> (b = EXECUTING \<longrightarrow> i \<in> Xs) \<Longrightarrow>
    ticket_moves As Xs Fs m (m'(i \<mapsto> b))"
| purge: "ticket_moves As Xs Fs m m' \<Longrightarrow> m' i = Some a \<Longrightarrow> a \<notin> set live_states \<Longrightarrow>
    ticket_moves As Xs Fs m (m'(i := None))"
| create: "ticket_moves As Xs Fs m m' \<Longrightarrow> m' i = None \<Longrightarrow> i \<in> Fs \<Longrightarrow>
    ticket_moves As Xs Fs m (m'(i \<mapsto> PENDING))"

lemma moves_trans:
  "ticket_moves As Xs Fs m' m'' \<Longrightarrow> ticket_moves As Xs Fs m m' \<Longrightarrow> ticket_moves As Xs Fs m m''"
  by (induction rule: ticket_moves.induct) (blast intro: ticket_moves.intros)+

lemma moves_mono:
  "ticket_moves As Xs Fs m m' \<Longrightarrow> As \<subseteq> As' \<Longrightarrow> Xs \<subseteq> Xs' \<Longrightarrow> Fs \<subseteq> Fs' \<Longrightarrow> ticket_moves As' Xs' Fs' m m'"
  by (induction rule: ticket_moves.induct) (blast intro: ticket_moves.intros)+

lemma moves_one:
  "m i = Some a \<Longrightarrow> lifecycle a b \<Longrightarrow> (b = APPROVED \<longrightarrow> i \<in> As) \<Longrightarrow> (b = EXECUTING \<longrightarrow> i \<in> Xs) \<Longrightarrow>
   ticket_moves As Xs Fs m (m(i \<mapsto> b))"
  by (rule advance [OF stay])

definition decided :: "approval_state set" where
  "decided = {APPROVED, EXECUTING, SUCCEEDED, FAILED, INTERRUPTED, CONTEXT_CHANGED}"

definition claimed :: "approval_state set" where
  "claimed = {EXECUTING, SUCCEEDED, FAILED, INTERRUPTED}"

lemma lifecycle_claimed: "lifecycle a b \<Longrightarrow> a \<in> claimed \<Longrightarrow> b \<in> claimed"
  by (cases a) (auto simp: claimed_def)

lemma lifecycle_decided: "lifecycle a b \<Longrightarrow> b \<in> decided \<Longrightarrow> b \<noteq> APPROVED \<Longrightarrow> a \<in> decided"
  by (cases a) (auto simp: decided_def)

lemma moves_decided:
  "ticket_moves As Xs Fs m m' \<Longrightarrow> m' i = Some b \<Longrightarrow> b \<in> decided \<Longrightarrow>
   i \<in> As \<or> (\<exists>a. m i = Some a \<and> a \<in> decided)"
proof (induction arbitrary: b rule: ticket_moves.induct)
  case (advance m m' j a c)
  show ?case
  proof (cases "i = j")
    case True
    with advance.prems have b: "b = c" by simp
    show ?thesis
    proof (cases "c = APPROVED")
      case True
      with advance.hyps \<open>i = j\<close> show ?thesis by simp
    next
      case False
      with lifecycle_decided advance.hyps advance.prems b have "a \<in> decided" by blast
      with advance.IH advance.hyps \<open>i = j\<close> show ?thesis by blast
    qed
  qed (use advance in auto)
qed (auto simp: decided_def split: if_splits)

lemma moves_claimed:
  "ticket_moves As Xs Fs m m' \<Longrightarrow> i \<notin> Fs \<Longrightarrow> m' i = Some b \<Longrightarrow>
   \<exists>a. m i = Some a \<and> (a \<in> claimed \<longrightarrow> b \<in> claimed)"
proof (induction arbitrary: b rule: ticket_moves.induct)
  case (advance m m' j a c)
  show ?case
  proof (cases "i = j")
    case True
    with advance show ?thesis using lifecycle_claimed by fastforce
  qed (use advance in auto)
qed (auto split: if_splits)

lemma moves_dom: "ticket_moves As Xs Fs m m' \<Longrightarrow> m' i = Some b \<Longrightarrow> i \<in> Fs \<or> i \<in> dom m"
  by (induction arbitrary: b rule: ticket_moves.induct) (auto split: if_splits)

section \<open>The service implements it\<close>

definition life :: "service \<Rightarrow> string \<rightharpoonup> approval_state" where
  "life s i = map_option tk_state (map_of (sv_rows s) i)"

definition rows_ok :: "service \<Rightarrow> bool" where
  "rows_ok s \<longleftrightarrow> wf_map (sv_rows s) \<and> (\<forall>i t. map_of (sv_rows s) i = Some t \<longrightarrow> tk_id t = i)"

definition simulated :: "string set \<Rightarrow> string set \<Rightarrow> string set \<Rightarrow> service \<Rightarrow> service \<Rightarrow> bool" where
  "simulated As Xs Fs s s' \<longleftrightarrow> (rows_ok s \<longrightarrow> rows_ok s' \<and> ticket_moves As Xs Fs (life s) (life s'))"

lemma simulated_refl [simp, intro]: "simulated As Xs Fs s s"
  by (simp add: simulated_def stay)

lemma simulated_trans [trans]: "simulated As Xs Fs s s' \<Longrightarrow> simulated As Xs Fs s' s'' \<Longrightarrow> simulated As Xs Fs s s''"
  unfolding simulated_def using moves_trans by blast

lemma rows_ok_same: "sv_rows s' = sv_rows s \<Longrightarrow> rows_ok s' = rows_ok s"
  by (simp add: rows_ok_def)

lemma life_same: "sv_rows s' = sv_rows s \<Longrightarrow> life s' = life s"
  by (simp add: life_def fun_eq_iff)

lemma simulated_same:
  assumes "sv_rows s' = sv_rows s"
  shows "simulated As Xs Fs s s'"
  unfolding simulated_def rows_ok_same [OF assms] life_same [OF assms] by (simp add: stay)

lemma rows_simps [simp]:
  "sv_rows (recordTicketDecision t d r s) = sv_rows s"
  "sv_rows (drop_secrets i s) = sv_rows s"
  by (simp_all add: recordTicketDecision_def drop_secrets_def)

lemma life_simps [simp]:
  "life (recordTicketDecision t d r s) = life s"
  "life (drop_secrets i s) = life s"
  "rows_ok (recordTicketDecision t d r s) = rows_ok s"
  "rows_ok (drop_secrets i s) = rows_ok s"
  by (simp_all add: life_def rows_ok_def fun_eq_iff)

lemma row_of_simps [simp]:
  "tk_id (row_of sanitize now t) = tk_id t"
  "tk_state (row_of sanitize now t) = tk_state t"
  by (simp_all add: row_of_def)

lemma life_put: "life (put sanitize now t s) = (life s)(tk_id t \<mapsto> tk_state t)"
  by (auto simp: life_def put_def fun_eq_iff)

lemma rows_ok_put: "rows_ok s \<Longrightarrow> rows_ok (put sanitize now t s)"
  by (auto simp: rows_ok_def put_def)

lemma settle_life: "life (settle sanitize now t d r s) = (life s)(tk_id t \<mapsto> tk_state t)"
  by (simp add: settle_def life_put)

lemma settle_rows_ok: "rows_ok s \<Longrightarrow> rows_ok (settle sanitize now t d r s)"
  by (simp add: settle_def rows_ok_put)

lemma simulated_settle:
  assumes "life s (tk_id t) = Some a" "lifecycle a (tk_state t)"
    "tk_state t = APPROVED \<longrightarrow> tk_id t \<in> As" "tk_state t = EXECUTING \<longrightarrow> tk_id t \<in> Xs"
  shows "simulated As Xs Fs s (settle sanitize now t d r s)"
  unfolding simulated_def settle_life
  using settle_rows_ok moves_one [where m = "life s" and i = "tk_id t" and b = "tk_state t", OF assms] by simp

lemma life_row: "map_of (sv_rows s) i = Some t \<Longrightarrow> life s i = Some (tk_state t)"
  by (simp add: life_def)

lemma status_simulated: "simulated As Xs Fs s (snd (status sanitize now i s))"
proof (cases "map_of (sv_rows s) i")
  case None
  then show ?thesis by (simp add: status_def)
next
  case (Some t)
  show ?thesis
  proof (cases "rows_ok s \<and> expired_now now t")
    case True
    then have i: "tk_id t = i" using Some by (simp add: rows_ok_def)
    have "simulated As Xs Fs s (settle sanitize now (t\<lparr>tk_state := EXPIRED\<rparr>) ''expired'' ''APPROVAL_TIMEOUT'' s)"
      by (rule simulated_settle) (use True Some i in \<open>auto simp: life_def expired_now_def\<close>)
    with Some True show ?thesis by (simp add: status_def Let_def)
  next
    case False
    with Some show ?thesis by (auto simp: status_def simulated_def stay)
  qed
qed

text \<open>What \<open>status\<close> answers is the row it leaves.\<close>

lemma status_row:
  assumes "status sanitize now i s = (r, s')" "rows_ok s"
  shows "life s' i = map_option tk_state r \<and> (\<forall>t. r = Some t \<longrightarrow> tk_id t = i) \<and> rows_ok s'
      \<and> (\<forall>t. r = Some t \<longrightarrow> \<not> expired_now now t)"
proof (cases "map_of (sv_rows s) i")
  case None
  with assms show ?thesis
    by (auto simp: status_def life_def)
next
  case (Some t)
  with assms(2) have i: "tk_id t = i" by (simp add: rows_ok_def)
  show ?thesis
  proof (cases "expired_now now t")
    case True
    with Some assms i show ?thesis
      by (auto simp: status_def Let_def settle_life settle_rows_ok expired_now_def)
  next
    case False
    with Some assms i show ?thesis by (auto simp: status_def life_def)
  qed
qed

lemma required_simulated: "simulated As Xs Fs s (snd (required sanitize now i s))"
  using status_simulated [of As Xs Fs s sanitize now i]
  by (auto simp: required_def split: prod.splits option.splits)

lemma required_row:
  assumes "required sanitize now i s = (Inr t, s')" "rows_ok s"
  shows "life s' i = Some (tk_state t)" "tk_id t = i" "rows_ok s'"
proof -
  from assms(1) have "status sanitize now i s = (Some t, s')"
    by (auto simp: required_def split: prod.splits option.splits)
  from status_row [OF this assms(2)]
  show "life s' i = Some (tk_state t)" "tk_id t = i" "rows_ok s'" by simp_all
qed

lemma narrow_simps [simp]:
  "tk_id (narrow_payload t) = tk_id t"
  "tk_state (narrow_payload t) = tk_state t"
  by (simp_all add: narrow_payload_def)

lemma approve_simulated:
  assumes "approve sanitize now i sc s = (r, s')"
  shows "simulated (if isl r then {} else {i}) Xs Fs s s'"
proof -
  obtain r1 s1 where req: "required sanitize now i s = (r1, s1)" by fastforce
  have base: "simulated As Xs Fs s s1" for As using required_simulated [of As Xs Fs s sanitize now i] req by simp
  show ?thesis
  proof (cases r)
    case (Inl e)
    with assms req have "s' = s1"
      by (auto simp: approve_def Let_def split: sum.splits option.splits)
    with base Inl show ?thesis by simp
  next
    case (Inr t3)
    from assms req Inr obtain t where t: "r1 = Inr t" "approval_refusal t sc = None" "tk_id t3 = tk_id t"
        "tk_state t3 = APPROVED" "s' = recordTicketDecision t3 (''approved:'' @ sc) ''armed'' (put sanitize now t3 s1)"
      by (auto simp: approve_def Let_def split: sum.splits option.splits)
    from t(2) have p: "tk_state t = PENDING" by (auto simp: approval_refusal_def split: if_splits)
    have "simulated {i} Xs Fs s1 s'" if "rows_ok s"
    proof -
      note row = required_row [OF req [unfolded t(1)] that]
      have "ticket_moves {i} Xs Fs (life s1) ((life s1)(i \<mapsto> APPROVED))"
        by (rule moves_one [where a = PENDING]) (use row p in simp_all)
      then show ?thesis using row(2) t(3-5) by (simp add: simulated_def life_put rows_ok_put)
    qed
    with base [of "{i}"] Inr show ?thesis using simulated_trans by (fastforce simp: simulated_def)
  qed
qed

lemma settle_after_required:
  assumes "required sanitize now i s = (Inr t, s1)" "tk_id t' = tk_id t" "lifecycle (tk_state t) (tk_state t')"
    "tk_state t' \<notin> {APPROVED, EXECUTING}"
  shows "simulated As Xs Fs s (settle sanitize now t' d r s1)"
proof (cases "rows_ok s")
  case True
  note row = required_row [OF assms(1) True]
  have "simulated As Xs Fs s s1" using required_simulated [of As Xs Fs s sanitize now i] assms(1) by simp
  also have "simulated As Xs Fs s1 (settle sanitize now t' d r s1)"
    by (rule simulated_settle [where a = "tk_state t"]) (use row assms in auto)
  finally show ?thesis .
qed (simp add: simulated_def)

lemma deny_simulated: "simulated As Xs Fs s (snd (deny sanitize now i s))"
proof -
  obtain r1 s1 where req: "required sanitize now i s = (r1, s1)" by fastforce
  have base: "simulated As Xs Fs s s1" using required_simulated [of As Xs Fs s sanitize now i] req by simp
  show ?thesis
  proof (cases r1)
    case (Inr t)
    show ?thesis
    proof (cases "tk_state t = PENDING")
      case True
      have "simulated As Xs Fs s (settle sanitize now (t\<lparr>tk_state := DENIED\<rparr>) ''denied'' ''APPROVAL_DENIED'' s1)"
        by (rule settle_after_required [OF req [unfolded Inr]]) (simp_all add: True)
      with True req Inr show ?thesis by (simp add: deny_def Let_def)
    qed (use base req Inr in \<open>simp add: deny_def\<close>)
  qed (use base req in \<open>simp add: deny_def\<close>)
qed

lemma cancel_simulated: "simulated As Xs Fs s (snd (cancel sanitize now i why caller s))"
proof -
  obtain r1 s1 where req: "required sanitize now i s = (r1, s1)" by fastforce
  have base: "simulated As Xs Fs s s1" using required_simulated [of As Xs Fs s sanitize now i] req by simp
  show ?thesis
  proof (cases r1)
    case (Inr t)
    show ?thesis
    proof (cases "tk_state t \<in> {PENDING, APPROVED}
        \<and> \<not> (case caller of Some c \<Rightarrow> \<not> isTicketOwnedByCaller c t | None \<Rightarrow> False)")
      case True
      have "simulated As Xs Fs s (settle sanitize now (t\<lparr>tk_state := CANCELLED, tk_cancellationReason := Some why\<rparr>)
          ''cancelled'' why s1)"
        by (rule settle_after_required [OF req [unfolded Inr]]) (use True in auto)
      with True req Inr show ?thesis by (auto simp: cancel_def Let_def)
    qed (use base req Inr in \<open>auto simp: cancel_def Let_def\<close>)
  qed (use base req in \<open>simp add: cancel_def\<close>)
qed

lemma list_rows_facts:
  assumes "rows_ok s"
  shows "distinct (map tk_id (list_rows s))"
    "\<And>t. t \<in> set (list_rows s) \<Longrightarrow> life s (tk_id t) = Some (tk_state t)"
proof -
  have row: "tk_id t = k \<and> map_of (sv_rows s) k = Some t" if "(k, t) \<in> set (sv_rows s)" for k t
    using assms that by (auto simp: rows_ok_def map_of_mem)
  have ids: "map tk_id (jvals (sv_rows s)) = jkeys (sv_rows s)" using row by auto
  have "distinct (map tk_id (jvals (sv_rows s)))" unfolding ids using assms by (simp add: rows_ok_def wf_map_def)
  then show "distinct (map tk_id (list_rows s))"
    by (simp only: list_rows_def distinct_map distinct_sort set_sort)
  show "life s (tk_id t) = Some (tk_state t)" if "t \<in> set (list_rows s)" for t
    using that row by (auto simp: list_rows_def life_def)
qed

lemma cancel_rows_simulated:
  "(rows_ok s \<Longrightarrow> distinct (map tk_id ts) \<and> (\<forall>t \<in> set ts. life s (tk_id t) = Some (tk_state t))) \<Longrightarrow>
   simulated As Xs Fs s (cancel_rows sanitize now ts s)"
proof (induction ts arbitrary: s)
  case (Cons t ts)
  define s1 where "s1 = (if List.member [PENDING, APPROVED] (tk_state t) then
       settle sanitize now (t\<lparr>tk_state := CANCELLED, tk_cancellationReason := Some ''CANCELLED_RESTART''\<rparr>)
         ''cancelled'' ''CANCELLED_RESTART'' s
     else if tk_state t = EXECUTING then
       settle sanitize now (t\<lparr>tk_state := INTERRUPTED, tk_cancellationReason := Some ''INTERRUPTED_RESTART''\<rparr>)
         ''interrupted'' ''INTERRUPTED_RESTART'' s
     else s)"
  show ?case
  proof (cases "rows_ok s")
    case True
    with Cons.prems have t: "life s (tk_id t) = Some (tk_state t)" by simp
    have other: "\<forall>u \<in> set ts. tk_id u \<noteq> tk_id t"
      using Cons.prems [OF True] by (simp add: image_iff) metis
    have "simulated As Xs Fs s s1"
      unfolding s1_def by (auto intro!: simulated_settle [where a = "tk_state t"] simp: t)
    also have "simulated As Xs Fs s1 (cancel_rows sanitize now ts s1)"
      by (rule Cons.IH) (use Cons.prems True other in \<open>auto simp: s1_def settle_life\<close>)
    finally show ?thesis by (simp add: s1_def)
  qed (simp add: simulated_def)
qed simp

lemma restart_simulated: "simulated As Xs Fs s (cancelForRestart sanitize now s)"
proof -
  have "simulated As Xs Fs s (cancel_rows sanitize now (list_rows s) s)"
    by (rule cancel_rows_simulated) (use list_rows_facts in blast)
  also have "simulated As Xs Fs (cancel_rows sanitize now (list_rows s) s) (cancelForRestart sanitize now s)"
    by (rule simulated_same) (simp add: cancelForRestart_def)
  finally show ?thesis .
qed

lemma sweep_simulated: "simulated As Xs Fs s (sweep sanitize now ids s)"
proof (induction ids arbitrary: s)
  case (Cons i ids)
  have "simulated As Xs Fs s (snd (status sanitize now i s))" by (rule status_simulated)
  also have "simulated As Xs Fs (snd (status sanitize now i s)) (sweep sanitize now (i # ids) s)"
    using Cons.IH by simp
  finally show ?case .
qed simp

lemma moves_purge_all:
  "ticket_moves As Xs Fs m (\<lambda>i. if i \<in> set ks then (case m i of Some a \<Rightarrow> if a \<in> set live_states then Some a else None
     | None \<Rightarrow> None) else m i)"
proof (induction ks)
  case Nil
  show ?case by (simp add: stay)
next
  case (Cons k ks)
  let ?m = "\<lambda>ks i. if i \<in> set ks then (case m i of Some a \<Rightarrow> if a \<in> set live_states then Some a else None
     | None \<Rightarrow> None) else m i"
  show ?case
  proof (cases "k \<notin> set ks \<and> (\<exists>a. m k = Some a \<and> a \<notin> set live_states)")
    case True
    then obtain a where a: "?m ks k = Some a" "a \<notin> set live_states" by auto
    have "?m (k # ks) = (?m ks)(k := None)" using True by (auto simp: fun_eq_iff)
    then show ?thesis using purge [OF Cons.IH a] by simp
  next
    case False
    then have "?m (k # ks) = ?m ks" by (auto simp: fun_eq_iff split: option.splits)
    then show ?thesis using Cons.IH by simp
  qed
qed

lemma map_of_filter_wf:
  "wf_map m \<Longrightarrow> map_of (filter (\<lambda>(k, v). P v) m) i = Option.bind (map_of m i) (\<lambda>v. if P v then Some v else None)"
proof (induction m)
  case (Cons p m)
  obtain k v where p: "p = (k, v)" by fastforce
  have "map_of (filter (\<lambda>(k, v). P v) m) k = None"
    using Cons.prems p by (auto simp: wf_map_def map_of_eq_None_iff)
  with Cons p show ?case by (auto simp: wf_map_def)
qed simp

lemma clear_simulated: "simulated As Xs Fs s (snd (clearHistory sanitize now s))"
proof -
  let ?s = "sweep sanitize now (map tk_id (list_rows s)) s"
  have swept: "simulated As Xs Fs s ?s" by (rule sweep_simulated)
  have clr: "simulated As Xs Fs ?s (snd (clearFinished ?s))"
    unfolding simulated_def
  proof (intro impI conjI)
    assume ok: "rows_ok ?s"
    then have wf: "wf_map (sv_rows ?s)" by (simp add: rows_ok_def)
    let ?p = "\<lambda>(k, t). tk_state t \<in> set live_states"
    have rows: "sv_rows (snd (clearFinished ?s)) = filter ?p (sv_rows ?s)"
      by (simp add: clearFinished_def Let_def)
    have of: "map_of (filter ?p (sv_rows ?s)) i
        = Option.bind (map_of (sv_rows ?s) i) (\<lambda>t. if tk_state t \<in> set live_states then Some t else None)" for i
      by (rule map_of_filter_wf [OF wf])
    show "rows_ok (snd (clearFinished ?s))"
      unfolding rows_ok_def rows using ok wf_map_filter [OF wf, of ?p]
      by (auto simp: of rows_ok_def bind_eq_Some_conv split: if_splits)
    have "life (snd (clearFinished ?s)) = (\<lambda>i. if i \<in> set (jkeys (sv_rows ?s)) then
        (case life ?s i of Some a \<Rightarrow> if a \<in> set live_states then Some a else None | None \<Rightarrow> None) else life ?s i)"
      unfolding life_def rows of
      by (rule ext) (auto split: option.splits bind_split dest!: map_of_SomeD intro: rev_image_eqI)
    then show "ticket_moves As Xs Fs (life ?s) (life (snd (clearFinished ?s)))"
      using moves_purge_all [of As Xs Fs "life ?s" "jkeys (sv_rows ?s)"] by simp
  qed
  have "simulated As Xs Fs (snd (clearFinished ?s)) (snd (clearHistory sanitize now s))"
    by (rule simulated_same) (simp add: clearHistory_def split: prod.splits)
  with swept clr show ?thesis using simulated_trans by blast
qed

lemma update_where_simulated:
  assumes "\<And>t. cond t \<Longrightarrow> lifecycle (tk_state t) st" "st = APPROVED \<longrightarrow> i \<in> As" "st = EXECUTING \<longrightarrow> i \<in> Xs"
  shows "simulated As Xs Fs s (snd (update_where i cond st now s))"
proof (cases "map_of (sv_rows s) i")
  case (Some t)
  show ?thesis
  proof (cases "cond t")
    case True
    let ?s = "s\<lparr>sv_rows := AList.update i (t\<lparr>tk_state := st, tk_updatedAt := Some now\<rparr>) (sv_rows s)\<rparr>"
    have "life ?s = (life s)(i \<mapsto> st)" by (auto simp: life_def fun_eq_iff)
    moreover have "ticket_moves As Xs Fs (life s) ((life s)(i \<mapsto> st))"
      by (rule moves_one [where a = "tk_state t"]) (use Some assms True in \<open>simp_all add: life_def\<close>)
    moreover have "rows_ok s \<Longrightarrow> rows_ok ?s" using Some by (auto simp: rows_ok_def)
    ultimately show ?thesis using Some True by (simp add: update_where_def simulated_def)
  qed (simp add: update_where_def Some)
qed (simp add: update_where_def)

lemma finish_simulated: "simulated As Xs Fs s (resume_finish now t ok s)"
proof -
  have "simulated As Xs Fs s (snd (transitionExecution (tk_id t) (if ok then SUCCEEDED else FAILED) now s))"
    unfolding transitionExecution_def by (rule update_where_simulated) auto
  also have "simulated As Xs Fs \<dots> (resume_finish now t ok s)"
    by (rule simulated_same) (simp add: resume_finish_def Let_def)
  finally show ?thesis .
qed

lemma begin_simulated: "simulated As Xs Fs s (snd (resume_begin sanitize now i s))"
  using required_simulated [of As Xs Fs s sanitize now i]
  by (auto simp: resume_begin_def split: prod.splits sum.splits)

lemma simulated_rows: "simulated As Xs Fs s s1 \<Longrightarrow> sv_rows s' = sv_rows s1 \<Longrightarrow> simulated As Xs Fs s s'"
  by (rule simulated_trans [OF _ simulated_same])

text \<open>An executed resume claimed the row; any other leaves the row at an edge of the life cycle.\<close>

lemma update_where_True:
  assumes "update_where i cond st now s = (True, s')"
  obtains t where "map_of (sv_rows s) i = Some t" "cond t" "life s' = (life s)(i \<mapsto> st)"
    "rows_ok s \<Longrightarrow> rows_ok s'"
proof -
  from assms obtain t where t: "map_of (sv_rows s) i = Some t" "cond t"
      "s' = s\<lparr>sv_rows := AList.update i (t\<lparr>tk_state := st, tk_updatedAt := Some now\<rparr>) (sv_rows s)\<rparr>"
    by (auto simp: update_where_def split: option.splits if_splits)
  show ?thesis
  proof (rule that [OF t(1,2)])
    show "life s' = (life s)(i \<mapsto> st)" using t(3) by (auto simp: life_def fun_eq_iff)
    show "rows_ok s'" if "rows_ok s" using that t by (auto simp: rows_ok_def)
  qed
qed

lemma update_where_False: "update_where i cond st now s = (False, s') \<Longrightarrow> s' = s"
  by (auto simp: update_where_def split: option.splits if_splits)

lemma validated_execute:
  assumes "resume_validated sanitize now t v check s = (Execute t', s')"
  shows "life s (tk_id t) = Some APPROVED" "tk_id t' = tk_id t"
    "life s' = (life s)(tk_id t \<mapsto> EXECUTING)" "rows_ok s \<Longrightarrow> rows_ok s'"
proof -
  obtain b s1 where c: "claimExecution (tk_id t) now s = (b, s1)" by fastforce
  have v: "v = Valid" using assms by (cases v) (auto simp: resume_validated_def split: if_splits)
  have b: "b = True"
    using assms c v by (cases b) (auto simp: resume_validated_def split: prod.splits)
  have s': "sv_rows s' = sv_rows s1" and t': "tk_id t' = tk_id t"
    using assms c v b by (auto simp: resume_validated_def Let_def split: option.splits prod.splits bool.splits)
  from c b obtain r where r: "map_of (sv_rows s) (tk_id t) = Some r" "tk_state r = APPROVED"
      "life s1 = (life s)(tk_id t \<mapsto> EXECUTING)" "rows_ok s \<Longrightarrow> rows_ok s1"
    unfolding claimExecution_def by (auto elim: update_where_True)
  show "life s (tk_id t) = Some APPROVED" using r by (simp add: life_def)
  show "tk_id t' = tk_id t" by (rule t')
  show "life s' = (life s)(tk_id t \<mapsto> EXECUTING)" using life_same [OF s'] r(3) by simp
  show "rows_ok s'" if "rows_ok s" using rows_ok_same [OF s'] r(4) that by simp
qed

lemma validated_simulated:
  "simulated As (insert (tk_id t) Xs) Fs s (snd (resume_validated sanitize now t v check s))"
proof -
  have claim: "simulated As (insert (tk_id t) Xs) Fs s (snd (claimExecution (tk_id t) now s))"
    unfolding claimExecution_def by (rule update_where_simulated) auto
  have fail: "simulated As (insert (tk_id t) Xs) Fs s' (snd (transitionExecution (tk_id t) FAILED now s'))" for s'
    unfolding transitionExecution_def by (rule update_where_simulated) auto
  have changed: "simulated As (insert (tk_id t) Xs) Fs s (snd (transitionContextChanged (tk_id t) now s))"
    unfolding transitionContextChanged_def by (rule update_where_simulated) auto
  show ?thesis
  proof (cases v)
    case (Refused why code)
    obtain b s1 where c: "transitionContextChanged (tk_id t) now s = (b, s1)" by fastforce
    have "sv_rows (snd (resume_validated sanitize now t v check s)) = sv_rows s \<or>
        sv_rows (snd (resume_validated sanitize now t v check s)) = sv_rows s1"
      using c Refused by (cases b) (simp_all add: resume_validated_def)
    moreover have "simulated As (insert (tk_id t) Xs) Fs s s1" using changed c by simp
    ultimately show ?thesis using simulated_rows [OF simulated_refl] simulated_rows by (elim disjE) blast+
  next
    case Valid
    obtain b s1 where c: "claimExecution (tk_id t) now s = (b, s1)" by fastforce
    show ?thesis
    proof (cases b)
      case False
      then have "snd (resume_validated sanitize now t v check s) = snd (status sanitize now (tk_id t) s1)"
        using c Valid by (simp add: resume_validated_def split: prod.splits)
      moreover have "s1 = s" using c False update_where_False by (auto simp: claimExecution_def)
      ultimately show ?thesis using status_simulated by simp
    next
      case True
      let ?t = "t\<lparr>tk_state := EXECUTING\<rparr>"
      let ?s = "recordTicketDecision ?t ''resume'' ''EXECUTING'' s1"
      have s1: "simulated As (insert (tk_id t) Xs) Fs s ?s"
        using claim c simulated_trans [OF _ simulated_same] by fastforce
      have "sv_rows (snd (resume_validated sanitize now t v check s)) = sv_rows ?s \<or>
          sv_rows (snd (resume_validated sanitize now t v check s))
            = sv_rows (snd (transitionExecution (tk_id t) FAILED now ?s))"
        using c Valid True
        by (auto simp: resume_validated_def Let_def split: option.splits prod.splits bool.splits)
      then show ?thesis
        using simulated_rows [OF s1] simulated_rows [OF simulated_trans [OF s1 fail]] by (elim disjE) blast+
    qed
  qed
qed

lemma request_simulated:
  assumes "request sanitize now fresh resolver inp vol s = (r, s')" "fresh \<notin> dom (life s)"
  shows "simulated As Xs (if isl r then {} else {fresh}) s s'"
proof -
  have create: "simulated As Xs {fresh} s1 (snd (create_request sanitize now fresh resolver inp vol s1))"
    if "fresh \<notin> dom (life s1)" for s1
  proof -
    let ?t = "new_ticket now fresh resolver s1 inp"
    have id: "tk_id ?t = fresh" "tk_state ?t = PENDING" by (simp_all add: new_ticket_def Let_def)
    have "ticket_moves As Xs {fresh} (life s1) ((life s1)(fresh \<mapsto> PENDING))"
      by (rule create [OF stay]) (use that in auto)
    then have "simulated As Xs {fresh} s1 (put sanitize now ?t s1)"
      by (simp add: simulated_def life_put id rows_ok_put)
    also have "simulated As Xs {fresh} (put sanitize now ?t s1) (snd (create_request sanitize now fresh resolver inp vol s1))"
      by (rule simulated_same) (simp add: create_request_def Let_def)
    finally show ?thesis .
  qed
  show ?thesis
  proof (cases "findReusableConnectionRequest inp (list_rows s) resolver")
    case None
    with assms create [of s] show ?thesis by (auto simp: request_def Let_def split: prod.splits)
  next
    case (Some old)
    obtain l s1 where st: "status sanitize now (tk_id old) s = (l, s1)" by fastforce
    have s1: "simulated As Xs Fs s s1" for Fs
      using status_simulated [of As Xs Fs s sanitize now "tk_id old"] st by simp
    show ?thesis
    proof (cases r)
      case (Inl a)
      with assms Some st have "s' = s1"
        by (auto simp: request_def Let_def split: prod.splits option.splits if_splits)
      with Inl s1 show ?thesis by simp
    next
      case (Inr a)
      with assms Some st have s': "s' = snd (create_request sanitize now fresh resolver inp vol s1)"
        by (auto simp: request_def Let_def split: prod.splits option.splits if_splits)
      have "simulated As Xs {fresh} s1 s'" if "rows_ok s"
      proof -
        have "ticket_moves As Xs {} (life s) (life s1)" using s1 [of "{}"] that by (simp add: simulated_def)
        with assms(2) have "fresh \<notin> dom (life s1)" using moves_dom by fastforce
        from create [OF this] show ?thesis by (simp add: s')
      qed
      with s1 [of "{fresh}"] Inr simulated_trans show ?thesis by (fastforce simp: simulated_def)
    qed
  qed
qed

section \<open>Runs\<close>

definition is_executed :: "approval_log \<Rightarrow> bool" where
  "is_executed l = (case l of LExecuted _ \<Rightarrow> True | LApproved _ \<Rightarrow> False)"

definition approved_first :: "approval_log list \<Rightarrow> bool" where
  "approved_first log \<longleftrightarrow> (\<forall>pre i post. log = pre @ LExecuted i # post \<longrightarrow> LApproved i \<in> set pre)"

lemma approved_first_snoc:
  "approved_first (log @ [l]) \<longleftrightarrow> approved_first log \<and> (\<forall>i. l = LExecuted i \<longrightarrow> LApproved i \<in> set log)"
proof
  assume a: "approved_first (log @ [l])"
  have "LApproved i \<in> set pre" if "log = pre @ LExecuted i # post" for pre i post
    using a [unfolded approved_first_def, rule_format, of pre i "post @ [l]"] that by simp
  moreover have "LApproved i \<in> set log" if "l = LExecuted i" for i
    using a [unfolded approved_first_def, rule_format, of log i "[]"] that by simp
  ultimately show "approved_first log \<and> (\<forall>i. l = LExecuted i \<longrightarrow> LApproved i \<in> set log)"
    by (auto simp: approved_first_def)
next
  assume a: "approved_first log \<and> (\<forall>i. l = LExecuted i \<longrightarrow> LApproved i \<in> set log)"
  have "LApproved i \<in> set pre" if "log @ [l] = pre @ LExecuted i # post" for pre i post
  proof (cases post rule: rev_cases)
    case Nil
    with that a show ?thesis by auto
  next
    case (snoc post' y)
    with that have "log = pre @ LExecuted i # post'" by auto
    with a show ?thesis by (simp add: approved_first_def)
  qed
  then show "approved_first (log @ [l])" by (simp add: approved_first_def)
qed

definition request_ids :: "(nat \<Rightarrow> string) \<Rightarrow> nat \<Rightarrow> string set" where
  "request_ids uuid n = request_id uuid ` {..<n}"

text \<open>What the log says of the tickets: \<open>m\<close> is their life, \<open>n\<close> the number of ids drawn.\<close>

definition log_ok :: "(nat \<Rightarrow> string) \<Rightarrow> nat \<Rightarrow> (string \<rightharpoonup> approval_state) \<Rightarrow> approval_log list \<Rightarrow> bool" where
  "log_ok uuid n m log \<longleftrightarrow> dom m \<subseteq> request_ids uuid n \<and> {i. LExecuted i \<in> set log} \<subseteq> request_ids uuid n
     \<and> (\<forall>i b. m i = Some b \<longrightarrow> b \<in> decided \<longrightarrow> LApproved i \<in> set log)
     \<and> (\<forall>i b. m i = Some b \<longrightarrow> LExecuted i \<in> set log \<longrightarrow> b \<in> claimed)
     \<and> distinct (filter is_executed log) \<and> approved_first log"

lemma log_ok_moves:
  assumes "log_ok uuid n m log" "ticket_moves As Xs Fs m m'" "Fs \<inter> request_ids uuid n = {}"
    "Fs \<subseteq> request_ids uuid n'" "n \<le> n'" "set log \<subseteq> set log'" "As \<subseteq> {i. LApproved i \<in> set log'}"
    "filter is_executed log' = filter is_executed log" "approved_first log'"
  shows "log_ok uuid n' m' log'"
proof -
  have ids: "request_ids uuid n \<subseteq> request_ids uuid n'" using assms(5) by (auto simp: request_ids_def)
  have ex: "LExecuted i \<in> set log' \<longleftrightarrow> LExecuted i \<in> set log" for i
    using arg_cong [OF assms(8), of set] by (force simp: is_executed_def)
  have "dom m' \<subseteq> request_ids uuid n'"
  proof
    fix i assume "i \<in> dom m'"
    then obtain b where "m' i = Some b" by blast
    from moves_dom [OF assms(2) this] assms(1,4) ids show "i \<in> request_ids uuid n'"
      by (auto simp: log_ok_def)
  qed
  moreover have "LApproved i \<in> set log'" if "m' i = Some b" "b \<in> decided" for i b
    using moves_decided [OF assms(2) that] assms(1,6,7) by (auto simp: log_ok_def)
  moreover have "b \<in> claimed" if b: "m' i = Some b" "LExecuted i \<in> set log" for i b
  proof -
    have "i \<notin> Fs" using that assms(1,3) by (auto simp: log_ok_def)
    from moves_claimed [OF assms(2) this b(1)] b(2) assms(1) show ?thesis by (auto simp: log_ok_def)
  qed
  ultimately show ?thesis using assms(1,8,9) ids ex by (auto simp: log_ok_def)
qed

lemma log_ok_execute:
  assumes "log_ok uuid n m log" "m i = Some APPROVED"
  shows "log_ok uuid n (m(i \<mapsto> EXECUTING)) (log @ [LExecuted i])"
proof -
  have "LExecuted i \<notin> set log" using assms by (auto simp: log_ok_def claimed_def)
  moreover have "LApproved i \<in> set log" using assms by (auto simp: log_ok_def decided_def)
  ultimately show ?thesis
    using assms by (auto simp: log_ok_def approved_first_snoc is_executed_def claimed_def decided_def)
qed

definition approval_inv :: "(nat \<Rightarrow> string) \<Rightarrow> system \<Rightarrow> bool" where
  "approval_inv uuid sys \<longleftrightarrow> (inj uuid \<longrightarrow> rows_ok (sy_service sys)
     \<and> log_ok uuid (sy_minted sys) (life (sy_service sys)) (sy_log sys))"

lemma fresh_id: "inj uuid \<Longrightarrow> request_id uuid n \<notin> request_ids uuid n"
  by (auto simp: request_ids_def request_id_def inj_def)

text \<open>A step that neither approves nor executes.\<close>

lemma quiet_step:
  assumes "approval_inv uuid sys" "simulated {} Xs {} (sy_service sys) s'"
    "sy_service sys' = s'" "sy_minted sys' = sy_minted sys" "sy_log sys' = sy_log sys"
  shows "approval_inv uuid sys'"
  unfolding approval_inv_def assms(3-5)
proof (intro impI conjI)
  assume "inj uuid"
  with assms(1) have ok: "rows_ok (sy_service sys)"
      "log_ok uuid (sy_minted sys) (life (sy_service sys)) (sy_log sys)" by (simp_all add: approval_inv_def)
  then show "rows_ok s'" using assms(2) by (simp add: simulated_def)
  from assms(2) ok(1) have "ticket_moves {} Xs {} (life (sy_service sys)) (life s')" by (simp add: simulated_def)
  show "log_ok uuid (sy_minted sys) (life s') (sy_log sys)"
    by (rule log_ok_moves [OF ok(2) \<open>ticket_moves {} Xs {} (life (sy_service sys)) (life s')\<close>])
      (use ok(2) in \<open>auto simp: log_ok_def\<close>)
qed

text \<open>Which ids an event approves, claims and brings to life.\<close>

definition event_approves :: "approval_event \<Rightarrow> string set" where
  "event_approves ev = (case ev of EApprove i _ \<Rightarrow> {i} | _ \<Rightarrow> {})"

definition event_claims :: "system \<Rightarrow> approval_event \<Rightarrow> string set" where
  "event_claims sys ev = (case ev of EVerdict k _ _ \<Rightarrow>
     if k < length (sy_waiting sys) then {tk_id (sy_waiting sys ! k)} else {} | _ \<Rightarrow> {})"

definition event_creates :: "(nat \<Rightarrow> string) \<Rightarrow> system \<Rightarrow> approval_event \<Rightarrow> string set" where
  "event_creates uuid sys ev = (case ev of ERequest _ _ _ \<Rightarrow> {request_id uuid (sy_minted sys)} | _ \<Rightarrow> {})"

lemma simulated_mono:
  "simulated As Xs Fs s s' \<Longrightarrow> As \<subseteq> As' \<Longrightarrow> Xs \<subseteq> Xs' \<Longrightarrow> Fs \<subseteq> Fs' \<Longrightarrow> simulated As' Xs' Fs' s s'"
  unfolding simulated_def using moves_mono by blast

lemma status_for_rows: "snd (status_for sanitize now i caller s) = snd (status sanitize now i s)"
  by (auto simp: status_for_def split: prod.splits option.splits)

lemma answer_rows: "snd (request_answer sanitize now t s) = snd (status sanitize now (tk_id t) s)"
  by (auto simp: request_answer_def split: prod.splits option.splits)

lemma step_simulated:
  assumes "request_id uuid (sy_minted sys) \<notin> dom (life (sy_service sys))"
  shows "simulated (event_approves ev) (event_claims sys ev) (event_creates uuid sys ev)
    (sy_service sys) (sy_service (approval_step uuid sanitize sys (now, ev)))"
proof (cases ev)
  case (ERequest resolver inp vol)
  obtain r s' where q: "request sanitize now (request_id uuid (sy_minted sys)) resolver inp vol (sy_service sys) = (r, s')"
    by fastforce
  from request_simulated [OF q assms] ERequest q show ?thesis
    by (cases r) (auto simp: event_approves_def event_claims_def event_creates_def intro: simulated_mono)
next
  case (EApprove i sc)
  obtain r s' where q: "approve sanitize now i sc (sy_service sys) = (r, s')" by fastforce
  from approve_simulated [OF q] EApprove q show ?thesis
    by (cases r) (auto simp: event_approves_def event_claims_def event_creates_def intro: simulated_mono)
next
  case (EVerdict k v check)
  show ?thesis
  proof (cases "k < length (sy_waiting sys)")
    case True
    obtain r s' where q: "resume_validated sanitize now (sy_waiting sys ! k) v check (sy_service sys) = (r, s')"
      by fastforce
    from validated_simulated [of _ "sy_waiting sys ! k" "{}" _ "sy_service sys" sanitize now v check] q EVerdict True
    show ?thesis by (cases r) (simp_all add: event_approves_def event_claims_def event_creates_def)
  qed (use EVerdict in \<open>simp add: event_approves_def event_claims_def event_creates_def\<close>)
next
  case (EResume i)
  obtain r s' where "resume_begin sanitize now i (sy_service sys) = (r, s')" by fastforce
  with begin_simulated [of _ _ _ "sy_service sys" sanitize now i] EResume show ?thesis
    by (cases r) (auto simp: event_approves_def event_claims_def event_creates_def)
qed (simp_all add: event_approves_def event_claims_def event_creates_def deny_simulated cancel_simulated
    restart_simulated clear_simulated status_for_rows answer_rows status_simulated finish_simulated)

lemma inv_fresh:
  "approval_inv uuid sys \<Longrightarrow> inj uuid \<Longrightarrow> request_id uuid (sy_minted sys) \<notin> dom (life (sy_service sys))"
  using fresh_id by (auto simp: approval_inv_def log_ok_def)

lemma request_step_inv:
  assumes "approval_inv uuid sys"
  shows "approval_inv uuid (approval_step uuid sanitize sys (now, ERequest resolver inp vol))"
proof (cases "inj uuid")
  case True
  note ok = assms [unfolded approval_inv_def, rule_format, OF True]
  note fresh = inv_fresh [OF assms True]
  obtain r s' where q: "request sanitize now (request_id uuid (sy_minted sys)) resolver inp vol (sy_service sys) = (r, s')"
    by fastforce
  note sim = request_simulated [OF q fresh]
  show ?thesis
  proof (cases r)
    case (Inl x)
    with sim have "simulated {} {} {} (sy_service sys) s'" by simp
    from quiet_step [OF assms this] q Inl show ?thesis by simp
  next
    case (Inr t)
    with sim ok have m: "rows_ok s'" "ticket_moves {} {} {request_id uuid (sy_minted sys)} (life (sy_service sys)) (life s')"
      by (auto simp: simulated_def)
    have "log_ok uuid (Suc (sy_minted sys)) (life s') (sy_log sys)"
      by (rule log_ok_moves [OF conjunct2 [OF ok] m(2)])
        (use ok fresh_id [OF True] in \<open>auto simp: log_ok_def request_ids_def\<close>)
    with m(1) q Inr show ?thesis by (simp add: approval_inv_def)
  qed
qed (simp add: approval_inv_def)

lemma approve_step_inv:
  assumes "approval_inv uuid sys"
  shows "approval_inv uuid (approval_step uuid sanitize sys (now, EApprove i sc))"
proof (cases "inj uuid")
  case True
  note ok = assms [unfolded approval_inv_def, rule_format, OF True]
  obtain r s' where q: "approve sanitize now i sc (sy_service sys) = (r, s')" by fastforce
  note sim = approve_simulated [OF q]
  show ?thesis
  proof (cases r)
    case (Inl x)
    with sim have "simulated {} {} {} (sy_service sys) s'" by simp
    from quiet_step [OF assms this] q Inl show ?thesis by simp
  next
    case (Inr t)
    with sim ok have m: "rows_ok s'" "ticket_moves {i} {} {} (life (sy_service sys)) (life s')"
      by (auto simp: simulated_def)
    have "log_ok uuid (sy_minted sys) (life s') (sy_log sys @ [LApproved i])"
      by (rule log_ok_moves [OF conjunct2 [OF ok] m(2)])
        (use ok in \<open>auto simp: log_ok_def approved_first_snoc is_executed_def\<close>)
    with m(1) q Inr show ?thesis by (simp add: approval_inv_def)
  qed
qed (simp add: approval_inv_def)

lemma verdict_step_inv:
  assumes "approval_inv uuid sys"
  shows "approval_inv uuid (approval_step uuid sanitize sys (now, EVerdict k v check))"
proof (cases "k < length (sy_waiting sys)")
  case True
  let ?t = "sy_waiting sys ! k"
  obtain r s' where q: "resume_validated sanitize now ?t v check (sy_service sys) = (r, s')" by fastforce
  show ?thesis
  proof (cases "\<exists>t. r = Execute t")
    case False
    have "simulated {} {tk_id ?t} {} (sy_service sys) s'"
      using validated_simulated [of "{}" ?t "{}" "{}" "sy_service sys" sanitize now v check] q by simp
    from quiet_step [OF assms this] q True False show ?thesis by (cases r) simp_all
  next
    case ex: True
    then obtain t where t: "r = Execute t" by blast
    note x = validated_execute [OF q [unfolded t]]
    show ?thesis
      unfolding approval_inv_def
    proof
      assume "inj uuid"
      with assms have ok: "rows_ok (sy_service sys)"
          "log_ok uuid (sy_minted sys) (life (sy_service sys)) (sy_log sys)" by (simp_all add: approval_inv_def)
      from log_ok_execute [OF ok(2) x(1)] x(4) [OF ok(1)] True q t x(2,3)
      show "rows_ok (sy_service (approval_step uuid sanitize sys (now, EVerdict k v check))) \<and>
          log_ok uuid (sy_minted (approval_step uuid sanitize sys (now, EVerdict k v check)))
            (life (sy_service (approval_step uuid sanitize sys (now, EVerdict k v check))))
            (sy_log (approval_step uuid sanitize sys (now, EVerdict k v check)))"
        by simp
    qed
  qed
qed (use assms in simp)

lemma resume_step_inv:
  assumes "approval_inv uuid sys"
  shows "approval_inv uuid (approval_step uuid sanitize sys (now, EResume i))"
proof -
  obtain r s' where q: "resume_begin sanitize now i (sy_service sys) = (r, s')" by fastforce
  have "simulated {} {} {} (sy_service sys) s'"
    using begin_simulated [of "{}" "{}" "{}" "sy_service sys" sanitize now i] q by simp
  from quiet_step [OF assms this] q show ?thesis by (cases r) simp_all
qed

lemma approval_step_inv: "approval_inv uuid sys \<Longrightarrow> approval_inv uuid (approval_step uuid sanitize sys ev)"
proof (cases ev)
  case (Pair now e)
  assume inv: "approval_inv uuid sys"
  note quiet = quiet_step [OF inv, where Xs = "{}"]
  show ?thesis
    unfolding Pair
  proof (cases e)
    case (EDeny i)
    show "approval_inv uuid (approval_step uuid sanitize sys (now, e))"
      unfolding EDeny by (rule quiet [OF deny_simulated]) simp_all
  next
    case (ECancel i why caller)
    show "approval_inv uuid (approval_step uuid sanitize sys (now, e))"
      unfolding ECancel by (rule quiet [OF cancel_simulated]) simp_all
  next
    case ERestart
    show "approval_inv uuid (approval_step uuid sanitize sys (now, e))"
      unfolding ERestart by (rule quiet [OF restart_simulated]) simp_all
  next
    case EClear
    show "approval_inv uuid (approval_step uuid sanitize sys (now, e))"
      unfolding EClear by (rule quiet [OF clear_simulated]) simp_all
  next
    case (EStatus i caller)
    show "approval_inv uuid (approval_step uuid sanitize sys (now, e))"
      unfolding EStatus by (rule quiet [OF status_simulated]) (simp_all add: status_for_rows)
  next
    case (EAnswer t)
    show "approval_inv uuid (approval_step uuid sanitize sys (now, e))"
      unfolding EAnswer by (rule quiet [OF status_simulated]) (simp_all add: answer_rows)
  next
    case (EFinish k ok)
    show "approval_inv uuid (approval_step uuid sanitize sys (now, e))"
    proof (cases "k < length (sy_running sys)")
      case True
      show ?thesis unfolding EFinish by (rule quiet [OF finish_simulated]) (simp_all add: True)
    qed (use inv EFinish in simp)
  next
    case (ERequest resolver inp vol)
    show "approval_inv uuid (approval_step uuid sanitize sys (now, e))"
      unfolding ERequest by (rule request_step_inv [OF inv])
  next
    case (EApprove i sc)
    show "approval_inv uuid (approval_step uuid sanitize sys (now, e))"
      unfolding EApprove by (rule approve_step_inv [OF inv])
  next
    case (EVerdict k v check)
    show "approval_inv uuid (approval_step uuid sanitize sys (now, e))"
      unfolding EVerdict by (rule verdict_step_inv [OF inv])
  next
    case (EResume i)
    show "approval_inv uuid (approval_step uuid sanitize sys (now, e))"
      unfolding EResume by (rule resume_step_inv [OF inv])
  qed
qed

interpretation approvals: invariant_system "approval_step uuid sanitize" "approval_inv uuid" for uuid sanitize
  by unfold_locales (rule approval_step_inv)

lemma new_system_inv: "approval_inv uuid (new_system (new_service before after lifetime byRisk))"
  by (simp add: approval_inv_def new_system_def new_service_def rows_ok_def log_ok_def life_def dom_def
      approved_first_def)

section \<open>Properties\<close>

text \<open>
  C26: an approved operation runs at most once, and never before its approval. Whatever operations
  clients, operators and restarts interleave with the suspended \<open>resume\<close> calls, every request id is
  executed at most once, and each execution has an approval of that id before it, provided
  \<open>randomUUID\<close> does not repeat.
\<close>

theorem approved_operation_runs_once:
  assumes "inj uuid"
    "sys = foldl (approval_step uuid sanitize) (new_system (new_service before after lifetime byRisk)) evs"
  shows "length (filter (\<lambda>l. l = LExecuted i) (sy_log sys)) \<le> 1
    \<and> (sy_log sys = pre @ LExecuted i # post \<longrightarrow> LApproved i \<in> set pre)"
proof
  have "approval_inv uuid sys" unfolding assms(2) by (rule approvals.run_inv [OF new_system_inv])
  then have d: "distinct (filter is_executed (sy_log sys))" and a: "approved_first (sy_log sys)"
    using assms(1) by (simp_all add: approval_inv_def log_ok_def)
  have "distinct (filter (\<lambda>l. l = LExecuted i) (filter is_executed (sy_log sys)))"
    using d by (rule distinct_filter)
  moreover have "filter (\<lambda>l. l = LExecuted i) (filter is_executed (sy_log sys)) = filter (\<lambda>l. l = LExecuted i) (sy_log sys)"
    by (simp add: filter_filter is_executed_def) (rule filter_cong, auto)
  ultimately have f: "distinct (filter (\<lambda>l. l = LExecuted i) (sy_log sys))" by simp
  have "card (set (filter (\<lambda>l. l = LExecuted i) (sy_log sys))) \<le> card {LExecuted i}"
    by (rule card_mono) auto
  with distinct_card [OF f] show "length (filter (\<lambda>l. l = LExecuted i) (sy_log sys)) \<le> 1" by simp
  show "sy_log sys = pre @ LExecuted i # post \<longrightarrow> LApproved i \<in> set pre"
    using a by (auto simp: approved_first_def)
qed

text \<open>
  C27: the service refines the life of a ticket. In every reachable state each event moves the tickets
  along the edges of \<open>lifecycle\<close> only: an approval can only come from an approve event on that id, a
  claim from the verdict of its own resume, a new ticket from a request; finished states are
  final until the ticket is purged.
\<close>

theorem service_refines_lifecycle:
  assumes "inj uuid"
    "sys = foldl (approval_step uuid sanitize) (new_system (new_service before after lifetime byRisk)) evs"
  shows "ticket_moves (event_approves ev) (event_claims sys ev) (event_creates uuid sys ev)
    (life (sy_service sys)) (life (sy_service (approval_step uuid sanitize sys (now, ev))))"
proof -
  have inv: "approval_inv uuid sys" unfolding assms(2) by (rule approvals.run_inv [OF new_system_inv])
  with assms(1) have "rows_ok (sy_service sys)" by (simp add: approval_inv_def)
  with step_simulated [OF inv_fresh [OF inv assms(1)]] show ?thesis by (simp add: simulated_def)
qed

lemma required_error:
  "required sanitize now i s = (Inl e, s') \<Longrightarrow> map_of (sv_rows s) i = None \<and> e = (None, ''approval not found'') \<and> s' = s"
  by (auto simp: required_def status_def Let_def split: prod.splits option.splits if_splits)

text \<open>
  An approval that fails leaves no trace. When \<open>approve\<close> throws, the state is the one looking the
  ticket up leaves (an overdue ticket becomes EXPIRED): no grant is stored, nothing is
  recorded, and the error is \<open>approval not found\<close>, the refusal for the ticket and
  scope, or the error of a handler.
\<close>

theorem failed_approval_leaves_no_trace:
  assumes "approve sanitize now i sc s = (Inl e, s')"
  shows "s' = snd (status sanitize now i s) \<and>
    (case fst (status sanitize now i s) of
       None \<Rightarrow> e = (None, ''approval not found'')
     | Some t \<Rightarrow> (case approval_refusal t sc of
         Some msg \<Rightarrow> e = (None, msg)
       | None \<Rightarrow> run_handlers (sv_before s') (narrow_payload t) = Some e
           \<or> run_handlers (sv_approved s') ((narrow_payload t)\<lparr>tk_decisionScope := Some sc\<rparr>) = Some e))"
  using assms
  by (auto simp: approve_def required_def Let_def split: prod.splits option.splits sum.splits)

text \<open>
  A standing approval is limited. An approval with a scope other than once is never given to a
  critical operation, a payload marked securityOnce, a shell script, a high-risk command or a skill
  read; on the host only to a host-control request, and then with connection scope.
\<close>

theorem standing_approval_is_limited:
  assumes "approve sanitize now i sc s = (Inr t, s')" "sc \<noteq> ''once''"
  shows "tk_risk t \<noteq> CRITICAL \<and> oc_family (tk_operation t) \<noteq> ''skills:read''
    \<and> \<not> (oc_capability (tk_operation t) = ''commands.run''
         \<and> (has_prefix ''shell:'' (oc_family (tk_operation t)) \<or> oc_risk (tk_operation t) = HIGH))
    \<and> \<not> (tk_scope t = Some THost
         \<and> \<not> (oc_family (tk_operation t) = ''host-control:request'' \<and> sc = ''connection''))
    \<and> tk_decisionScope t = Some sc \<and> life s' (tk_id t) = Some APPROVED"
proof -
  have n: "tk_risk (narrow_payload u) = tk_risk u" "tk_operation (narrow_payload u) = tk_operation u"
    "tk_scope (narrow_payload u) = tk_scope u" for u
    by (simp_all add: narrow_payload_def)
  from assms(1) obtain u where u: "approval_refusal u sc = None"
      "t = (narrow_payload u)\<lparr>tk_decisionScope := Some sc, tk_state := APPROVED\<rparr>"
      "life s' (tk_id t) = Some APPROVED"
    by (auto simp: approve_def Let_def life_put split: sum.splits option.splits prod.splits)
  with assms(2) n show ?thesis
    by (auto simp: approval_refusal_def split: if_splits)
qed

section \<open>A concrete run\<close>

definition demo_uuid :: "nat \<Rightarrow> string" where
  "demo_uuid n = replicate n (CHR ''a'')"

lemma demo_uuid_inj: "inj demo_uuid"
  by (auto simp: inj_def demo_uuid_def dest: arg_cong [where f = length])

definition demo_ticket :: ticket where
  "demo_ticket = \<lparr>tk_id = '''', tk_actor = ''oauth:x'', tk_sessionId = ''s'', tk_workspaceId = Some ''w'',
     tk_scope = None, tk_identity = None,
     tk_operation = \<lparr>oc_family = ''git:push'', oc_capability = ''git.push'', oc_risk = MEDIUM, oc_effect = None,
       oc_resource = None, oc_argsHash = ''h''\<rparr>,
     tk_payload = VNull, tk_expectedState = [], tk_risk = MEDIUM, tk_state = PENDING, tk_expiresAt = 0,
     tk_createdAt = None, tk_updatedAt = None, tk_cancellationReason = None, tk_decisionScope = None,
     tk_connectionId = None, tk_connectionSubject = None\<rparr>"

definition demo_service :: service where
  "demo_service = new_service [] [] 60000 []"

definition demo_events :: "(int \<times> approval_event) list" where
  "demo_events = [(0, ERequest None demo_ticket VUndef), (1, EApprove ''req_'' ''session''), (2, EResume ''req_''),
     (2, EResume ''req_''), (3, EVerdict 0 Valid None), (3, EVerdict 0 Valid None), (4, EFinish 0 True)]"

definition demo_run :: system where
  "demo_run = foldl (approval_step demo_uuid id) (new_system demo_service) demo_events"

lemma demo_log: "sy_log demo_run = [LApproved ''req_'', LExecuted ''req_'']"
  by code_simp

definition demo_approve :: "(approval_error + ticket) \<times> service" where
  "demo_approve = approve id 1 ''req_'' ''session''
     (sy_service (foldl (approval_step demo_uuid id) (new_system demo_service) (take 1 demo_events)))"

lemma demo_approved: "map_option tk_decisionScope (case fst demo_approve of Inl _ \<Rightarrow> None | Inr t \<Rightarrow> Some t) = Some (Some ''session'')"
  by code_simp

theorem approved_operation_runs_once_witness:
  "length (filter (\<lambda>l. l = LExecuted ''req_'') (sy_log demo_run)) \<le> 1 \<and> LExecuted ''req_'' \<in> set (sy_log demo_run)"
proof -
  have run: "demo_run = foldl (approval_step demo_uuid id) (new_system (new_service [] [] 60000 [])) demo_events"
    by (simp add: demo_run_def demo_service_def)
  show ?thesis
    using approved_operation_runs_once [OF demo_uuid_inj run, of "''req_''"] demo_log by simp
qed

theorem service_refines_lifecycle_witness:
  "ticket_moves {} {} {} (life (sy_service demo_run)) (life (sy_service (approval_step demo_uuid id demo_run (9, EDeny ''req_''))))"
proof -
  have run: "demo_run = foldl (approval_step demo_uuid id) (new_system (new_service [] [] 60000 [])) demo_events"
    by (simp add: demo_run_def demo_service_def)
  show ?thesis
    using service_refines_lifecycle [OF demo_uuid_inj run, of "EDeny ''req_''" 9]
    by (simp add: event_approves_def event_claims_def event_creates_def)
qed

theorem failed_approval_leaves_no_trace_witness: "demo_service = snd (status id 0 ''x'' demo_service)"
proof -
  have "approve id 0 ''x'' ''once'' demo_service = (Inl (None, ''approval not found''), demo_service)"
    by (simp add: approve_def required_def status_def demo_service_def new_service_def)
  from failed_approval_leaves_no_trace [OF this] show ?thesis by blast
qed

theorem standing_approval_is_limited_witness:
  "\<exists>t. fst demo_approve = Inr t \<and> tk_risk t \<noteq> CRITICAL"
proof -
  obtain t s' where t: "demo_approve = (Inr t, s')"
    using demo_approved by (cases demo_approve rule: prod.exhaust; cases "fst demo_approve") (auto simp: prod_eq_iff)
  have "''session'' \<noteq> ''once''" by simp
  from standing_approval_is_limited [OF t [unfolded demo_approve_def] this] have "tk_risk t \<noteq> CRITICAL" by blast
  moreover have "fst demo_approve = Inr t" using arg_cong [OF t, of fst] by simp
  ultimately show ?thesis by blast
qed

end
