(* ===== verification/LoginThrottle.thy ===== *)
theory LoginThrottle
  imports ControlParse
begin

text \<open>
  apps/core/src/admin/login-throttle.ts: the throttle of failed Admin logins.

  A tracker is a JavaScript object that a map and any number of attempts hold at once, also after
  the map dropped it, so trackers live on a heap and are named by their index. An attempt is the
  closure \<open>begin\<close> returns: its two trackers, its keys and whether it is settled.
  \<open>trim\<close> and \<open>lower\<close> are \<open>String.prototype.trim\<close> and \<open>toLowerCase\<close>; \<open>maxKeys\<close>
  is a count. Times are milliseconds, and a maximal lock is finite, so the doubling is exact.
\<close>

section \<open>State\<close>

record tracker =
  tr_failures :: "int list"
  tr_pending :: int
  tr_level :: nat
  tr_lockedUntil :: int

record attempt =
  at_pair :: nat
  at_byIp :: nat
  at_pairKey :: string
  at_ip :: string
  at_settled :: bool

record throttle =
  th_heap :: "tracker list"
  th_pairs :: "(string, nat) jsmap"
  th_ips :: "(string, nat) jsmap"
  th_attempts :: "attempt list"
  th_pairThreshold :: nat
  th_ipThreshold :: nat
  th_windowMs :: int
  th_baseLockMs :: int
  th_maxLockMs :: int
  th_maxKeys :: nat

datatype lockout_scope = ByIp | ByIpUsername

record lockout_event =
  lo_scope :: lockout_scope
  lo_ip :: string
  lo_lockSeconds :: int
  lo_level :: nat

definition MAX_USERNAME_CHARS :: nat where "MAX_USERNAME_CHARS = 128"
definition SATURATED_RETRY_MS :: int where "SATURATED_RETRY_MS = 1000"

definition new_throttle :: throttle where
  "new_throttle = \<lparr>th_heap = [], th_pairs = [], th_ips = [], th_attempts = [], th_pairThreshold = 5,
     th_ipThreshold = 20, th_windowMs = 15 * 60000, th_baseLockMs = 60000, th_maxLockMs = 60 * 60000,
     th_maxKeys = 4096\<rparr>"

section \<open>Operations\<close>

text \<open>\<open>slice(0, n)\<close> counts UTF-16 units.\<close>

fun js_take :: "nat \<Rightarrow> string \<Rightarrow> string" where
  "js_take n [] = []"
| "js_take n (c # s) = (if utf16_units c \<le> n then c # js_take (n - utf16_units c) s else [])"

definition normalizeUsername :: "(string \<Rightarrow> string) \<Rightarrow> (string \<Rightarrow> string) \<Rightarrow> string \<Rightarrow> string" where
  "normalizeUsername trim lower username = js_take MAX_USERNAME_CHARS (lower (trim username))"

definition isIdle :: "tracker \<Rightarrow> int \<Rightarrow> bool" where
  "isIdle t now \<longleftrightarrow> tr_lockedUntil t \<le> now \<and> tr_pending t = 0 \<and> tr_failures t = []"

text \<open>The first key whose tracker is neither locked nor in flight, else the first key.\<close>

definition victim_key :: "tracker list \<Rightarrow> (string, nat) jsmap \<Rightarrow> int \<Rightarrow> string option" where
  "victim_key heap m now =
    (case find (\<lambda>(k, i). tr_lockedUntil (heap ! i) \<le> now \<and> tr_pending (heap ! i) = 0) m of
       Some (k, _) \<Rightarrow> Some k
     | None \<Rightarrow> (case m of [] \<Rightarrow> None | (k, _) # _ \<Rightarrow> Some k))"

lemma victim_key_mem: "victim_key heap m now = Some k \<Longrightarrow> k \<in> set (jkeys m)"
proof -
  assume v: "victim_key heap m now = Some k"
  show ?thesis
  proof (cases "find (\<lambda>(k, i). tr_lockedUntil (heap ! i) \<le> now \<and> tr_pending (heap ! i) = 0) m")
    case None
    with v show ?thesis by (auto simp: victim_key_def split: list.splits prod.splits)
  next
    case (Some p)
    then have "p \<in> set m" by (metis find_Some_iff nth_mem)
    with v Some show ?thesis by (cases p) (force simp: victim_key_def)
  qed
qed

function evict :: "nat \<Rightarrow> tracker list \<Rightarrow> int \<Rightarrow> (string, nat) jsmap \<Rightarrow> (string, nat) jsmap" where
  "evict maxKeys heap now m =
    (if length m \<le> maxKeys then m
     else (case victim_key heap m now of
             None \<Rightarrow> m
           | Some k \<Rightarrow> evict maxKeys heap now (AList.delete k m)))"
  by auto
termination
  by (relation "measure (\<lambda>(_, _, _, m). length m)")
    (auto dest!: victim_key_mem intro: length_delete_less simp del: set_map)

declare evict.simps [simp del]

definition refresh :: "int \<Rightarrow> int \<Rightarrow> tracker \<Rightarrow> tracker" where
  "refresh windowMs now t =
    (let t1 = t\<lparr>tr_failures := filter (\<lambda>at. now - at < windowMs) (tr_failures t)\<rparr> in
     if isIdle t1 now \<and> now \<ge> tr_lockedUntil t1 + windowMs then t1\<lparr>tr_level := 0\<rparr> else t1)"

text \<open>\<open>touch(map, key, now)\<close>: the tracker's index, the heap and the map.\<close>

definition touch :: "nat \<Rightarrow> int \<Rightarrow> tracker list \<Rightarrow> (string, nat) jsmap \<Rightarrow> string \<Rightarrow> int \<Rightarrow>
    nat \<times> tracker list \<times> (string, nat) jsmap" where
  "touch maxKeys windowMs heap m key now =
    (let (i, heap1) = (case map_of m key of
           Some i \<Rightarrow> (i, heap)
         | None \<Rightarrow> (length heap, heap @ [\<lparr>tr_failures = [], tr_pending = 0, tr_level = 0, tr_lockedUntil = 0\<rparr>]));
         heap2 = heap1[i := refresh windowMs now (heap1 ! i)] in
     (i, heap2, evict maxKeys heap2 now (AList.delete key m @ [(key, i)])))"

definition blockedForMs :: "tracker \<Rightarrow> nat \<Rightarrow> int \<Rightarrow> int" where
  "blockedForMs t threshold now =
    (if tr_lockedUntil t > now then tr_lockedUntil t - now
     else if int (length (tr_failures t)) + tr_pending t \<ge> int threshold then SATURATED_RETRY_MS else 0)"

definition ceil_seconds :: "int \<Rightarrow> int" where
  "ceil_seconds ms = (ms + 999) div 1000"

definition lock_ms :: "throttle \<Rightarrow> nat \<Rightarrow> int" where
  "lock_ms th level = min (th_maxLockMs th) (th_baseLockMs th * 2 ^ (level - 1))"

definition recordFailure :: "throttle \<Rightarrow> tracker \<Rightarrow> nat \<Rightarrow> lockout_scope \<Rightarrow> string \<Rightarrow> int \<Rightarrow>
    lockout_event option \<times> tracker" where
  "recordFailure th t threshold sc ip now =
    (let t1 = t\<lparr>tr_failures := tr_failures t @ [now]\<rparr> in
     if length (tr_failures t1) < threshold then (None, t1)
     else let level = Suc (tr_level t1); lockMs = lock_ms th level in
       (Some \<lparr>lo_scope = sc, lo_ip = ip, lo_lockSeconds = ceil_seconds lockMs, lo_level = level\<rparr>,
        t1\<lparr>tr_level := level, tr_lockedUntil := now + lockMs, tr_failures := []\<rparr>))"

text \<open>\<open>begin\<close>: \<open>Inl\<close> the seconds to wait, \<open>Inr\<close> the number of the attempt it allowed.\<close>

definition begin_attempt :: "(string \<Rightarrow> string) \<Rightarrow> (string \<Rightarrow> string) \<Rightarrow> int \<Rightarrow> string \<Rightarrow> string \<Rightarrow> throttle \<Rightarrow>
    (int + nat) \<times> throttle" where
  "begin_attempt trim lower now ip username th =
    (let pairKey = ip @ [CHR 0x0A] @ normalizeUsername trim lower username;
         (p, heap1, pairs1) = touch (th_maxKeys th) (th_windowMs th) (th_heap th) (th_pairs th) pairKey now;
         (b, heap2, ips1) = touch (th_maxKeys th) (th_windowMs th) heap1 (th_ips th) ip now;
         th1 = th\<lparr>th_heap := heap2, th_pairs := pairs1, th_ips := ips1\<rparr>;
         waitMs = max (blockedForMs (heap2 ! p) (th_pairThreshold th) now)
                      (blockedForMs (heap2 ! b) (th_ipThreshold th) now) in
     if waitMs > 0 then (Inl (ceil_seconds waitMs), th1)
     else let heap3 = heap2[p := (heap2 ! p)\<lparr>tr_pending := tr_pending (heap2 ! p) + 1\<rparr>];
              heap4 = heap3[b := (heap3 ! b)\<lparr>tr_pending := tr_pending (heap3 ! b) + 1\<rparr>] in
       (Inr (length (th_attempts th)),
        th1\<lparr>th_heap := heap4, th_attempts := th_attempts th @
          [\<lparr>at_pair = p, at_byIp = b, at_pairKey = pairKey, at_ip = ip, at_settled = False\<rparr>]\<rparr>))"

definition settle_attempt :: "nat \<Rightarrow> throttle \<Rightarrow> bool \<times> throttle" where
  "settle_attempt k th =
    (let a = th_attempts th ! k in
     if at_settled a then (False, th)
     else let heap1 = (th_heap th)[at_pair a := (th_heap th ! at_pair a)\<lparr>tr_pending := tr_pending (th_heap th ! at_pair a) - 1\<rparr>];
              heap2 = heap1[at_byIp a := (heap1 ! at_byIp a)\<lparr>tr_pending := tr_pending (heap1 ! at_byIp a) - 1\<rparr>] in
       (True, th\<lparr>th_heap := heap2, th_attempts := (th_attempts th)[k := a\<lparr>at_settled := True\<rparr>]\<rparr>))"

definition attempt_failure :: "int \<Rightarrow> nat \<Rightarrow> throttle \<Rightarrow> lockout_event list \<times> throttle" where
  "attempt_failure now k th =
    (case settle_attempt k th of
       (False, th1) \<Rightarrow> ([], th1)
     | (True, th1) \<Rightarrow>
         let a = th_attempts th ! k;
             (e1, t1) = recordFailure th1 (th_heap th1 ! at_pair a) (th_pairThreshold th1) ByIpUsername (at_ip a) now;
             heap1 = (th_heap th1)[at_pair a := t1];
             (e2, t2) = recordFailure th1 (heap1 ! at_byIp a) (th_ipThreshold th1) ByIp (at_ip a) now in
         (List.map_filter id [e1, e2], th1\<lparr>th_heap := heap1[at_byIp a := t2]\<rparr>))"

definition attempt_success :: "nat \<Rightarrow> throttle \<Rightarrow> throttle" where
  "attempt_success k th =
    (case settle_attempt k th of
       (False, th1) \<Rightarrow> th1
     | (True, th1) \<Rightarrow> th1\<lparr>th_pairs := AList.delete (at_pairKey (th_attempts th ! k)) (th_pairs th1)\<rparr>)"

definition attempt_abandon :: "nat \<Rightarrow> throttle \<Rightarrow> throttle" where
  "attempt_abandon k th = snd (settle_attempt k th)"

text \<open>The events of a run; an attempt is named by its number, and only an existing one is settled.\<close>

datatype login_event = LBegin string string | LFailure nat | LSuccess nat | LAbandon nat

fun login_step :: "(string \<Rightarrow> string) \<Rightarrow> (string \<Rightarrow> string) \<Rightarrow> throttle \<Rightarrow> int \<times> login_event \<Rightarrow> throttle" where
  "login_step trim lower th (now, LBegin ip username) = snd (begin_attempt trim lower now ip username th)"
| "login_step trim lower th (now, LFailure k) =
     (if k < length (th_attempts th) then snd (attempt_failure now k th) else th)"
| "login_step trim lower th (now, LSuccess k) =
     (if k < length (th_attempts th) then attempt_success k th else th)"
| "login_step trim lower th (now, LAbandon k) =
     (if k < length (th_attempts th) then attempt_abandon k th else th)"

section \<open>Eviction and touching\<close>

lemma evict_subset: "set (evict maxKeys heap now m) \<subseteq> set m"
proof (induction maxKeys heap now m rule: evict.induct)
  case (1 maxKeys heap now m)
  show ?case
  proof (cases "length m \<le> maxKeys \<or> victim_key heap m now = None")
    case False
    then obtain k where "\<not> length m \<le> maxKeys" "victim_key heap m now = Some k" by auto
    with 1 set_delete_subset [of k m] show ?thesis by (subst evict.simps) auto
  qed (subst evict.simps, auto)
qed

lemma evict_wf: "wf_map m \<Longrightarrow> wf_map (evict maxKeys heap now m)"
proof (induction maxKeys heap now m rule: evict.induct)
  case (1 maxKeys heap now m)
  then show ?case by (subst evict.simps) (auto split: option.splits)
qed

lemma victim_key_None: "victim_key heap m now = None \<longleftrightarrow> m = []"
  by (auto simp: victim_key_def split: option.splits list.splits)

lemma evict_bounded: "length (evict maxKeys heap now m) \<le> maxKeys"
proof (induction maxKeys heap now m rule: evict.induct)
  case (1 maxKeys heap now m)
  show ?case
  proof (cases "length m \<le> maxKeys")
    case False
    then obtain k where "victim_key heap m now = Some k"
      using victim_key_None [of heap m now] by (cases "victim_key heap m now") auto
    with False 1 show ?thesis by (subst evict.simps) simp
  qed (subst evict.simps, simp)
qed

definition new_tracker :: tracker where
  "new_tracker = \<lparr>tr_failures = [], tr_pending = 0, tr_level = 0, tr_lockedUntil = 0\<rparr>"

definition tracker_at :: "tracker list \<Rightarrow> nat \<Rightarrow> tracker" where
  "tracker_at heap i = (if i < length heap then heap ! i else new_tracker)"

text \<open>Touching renews one tracker, which the map held or which is new, and nothing else.\<close>

lemma touch_facts:
  assumes "touch maxKeys w heap m key now = (i, heap', m')" "set (jvals m) \<subseteq> {..<length heap}" "wf_map m"
  shows "i < length heap'" "length heap' = max (length heap) (Suc i)" "i \<in> set (jvals m) \<or> i = length heap"
    "tracker_at heap' = (tracker_at heap)(i := refresh w now (tracker_at heap i))"
    "set (jvals m') \<subseteq> insert i (set (jvals m))" "wf_map m'" "length m' \<le> maxKeys"
proof -
  let ?heap1 = "case map_of m key of Some _ \<Rightarrow> heap | None \<Rightarrow> heap @ [new_tracker]"
  have i: "i = (case map_of m key of Some j \<Rightarrow> j | None \<Rightarrow> length heap)"
    and h: "heap' = ?heap1[i := refresh w now (?heap1 ! i)]"
    and m': "m' = evict maxKeys heap' now (AList.delete key m @ [(key, i)])"
    using assms(1) by (auto simp: touch_def Let_def new_tracker_def split: option.splits)
  have old: "j < length heap \<and> j \<in> set (jvals m)" if "map_of m key = Some j" for j
    using map_of_SomeD [OF that] assms(2) by force
  show "i < length heap'" "length heap' = max (length heap) (Suc i)" "i \<in> set (jvals m) \<or> i = length heap"
    using i h old by (auto split: option.splits)
  show "tracker_at heap' = (tracker_at heap)(i := refresh w now (tracker_at heap i))"
    using i h old by (auto simp: tracker_at_def fun_eq_iff nth_append nth_list_update split: option.splits)
  have "set (AList.delete key m @ [(key, i)]) \<subseteq> insert (key, i) (set m)"
    using set_delete_subset by fastforce
  with evict_subset have "set m' \<subseteq> insert (key, i) (set m)" unfolding m' by fast
  then show "set (jvals m') \<subseteq> insert i (set (jvals m))" by auto
  have "wf_map (AList.delete key m @ [(key, i)])"
    using wf_map_delete [OF assms(3), of key] by (auto simp: wf_map_def AList.delete_eq)
  then show "wf_map m'" unfolding m' by (rule evict_wf)
  show "length m' \<le> maxKeys" unfolding m' by (rule evict_bounded)
qed

section \<open>The invariant\<close>

text \<open>
  \<open>P\<close> and \<open>B\<close> are the trackers of pairs and of addresses. Every tracker counts its unsettled
  attempts, and its failures with them never exceed its threshold.
\<close>

definition tracker_ok :: "nat \<Rightarrow> tracker \<Rightarrow> bool" where
  "tracker_ok threshold t \<longleftrightarrow> 0 \<le> tr_pending t \<and> int (length (tr_failures t)) + tr_pending t \<le> int threshold
     \<and> length (tr_failures t) < threshold"

definition open_attempts :: "(attempt \<Rightarrow> nat) \<Rightarrow> attempt list \<Rightarrow> nat \<Rightarrow> nat" where
  "open_attempts which as i = length (filter (\<lambda>a. \<not> at_settled a \<and> which a = i) as)"

definition heap_ok :: "nat \<Rightarrow> nat \<Rightarrow> nat set \<Rightarrow> nat set \<Rightarrow> (attempt \<Rightarrow> nat) \<Rightarrow> (attempt \<Rightarrow> nat) \<Rightarrow>
    tracker list \<Rightarrow> attempt list \<Rightarrow> bool" where
  "heap_ok pT bT P B f g heap as \<longleftrightarrow> P \<union> B \<subseteq> {..<length heap} \<and> P \<inter> B = {}
     \<and> list_all (\<lambda>a. f a \<in> P \<and> g a \<in> B) as
     \<and> (\<forall>i \<in> P. tracker_ok pT (tracker_at heap i) \<and> tr_pending (tracker_at heap i) = int (open_attempts f as i))
     \<and> (\<forall>i \<in> B. tracker_ok bT (tracker_at heap i) \<and> tr_pending (tracker_at heap i) = int (open_attempts g as i))"

lemma heap_ok_swap: "heap_ok pT bT P B f g heap as \<Longrightarrow> heap_ok bT pT B P g f heap as"
  unfolding heap_ok_def by (auto simp: list_all_iff)

definition throttle_inv :: "throttle \<Rightarrow> bool" where
  "throttle_inv th \<longleftrightarrow> 0 < th_pairThreshold th \<and> 0 < th_ipThreshold th
     \<and> wf_map (th_pairs th) \<and> wf_map (th_ips th)
     \<and> length (th_pairs th) \<le> th_maxKeys th \<and> length (th_ips th) \<le> th_maxKeys th
     \<and> (\<exists>P B. heap_ok (th_pairThreshold th) (th_ipThreshold th) P B at_pair at_byIp (th_heap th) (th_attempts th)
         \<and> set (jvals (th_pairs th)) \<subseteq> P \<and> set (jvals (th_ips th)) \<subseteq> B)"

lemma refresh_ok:
  "tracker_ok threshold t \<Longrightarrow> tracker_ok threshold (refresh w now t)" "tr_pending (refresh w now t) = tr_pending t"
proof -
  have f: "tr_failures (refresh w now t) = filter (\<lambda>at. now - at < w) (tr_failures t)"
    and p: "tr_pending (refresh w now t) = tr_pending t"
    by (simp_all add: refresh_def Let_def)
  show "tr_pending (refresh w now t) = tr_pending t" by (rule p)
  have le: "length (filter (\<lambda>at. now - at < w) (tr_failures t)) \<le> length (tr_failures t)"
    by (rule length_filter_le)
  show "tracker_ok threshold t \<Longrightarrow> tracker_ok threshold (refresh w now t)"
    unfolding tracker_ok_def f p using le by linarith
qed

lemma new_tracker_ok: "0 < threshold \<Longrightarrow> tracker_ok threshold new_tracker"
  by (simp add: tracker_ok_def new_tracker_def)

lemma heap_ok_touch:
  assumes "touch maxKeys w heap m key now = (i, heap', m')" "set (jvals m) \<subseteq> P" "wf_map m"
    "heap_ok pT bT P B f g heap as" "0 < pT" "0 < bT"
  shows "heap_ok pT bT (insert i P) B f g heap' as" "i \<notin> B" "set (jvals m') \<subseteq> insert i P"
proof -
  note ok = assms(4) [unfolded heap_ok_def]
  have "set (jvals m) \<subseteq> {..<length heap}" using assms(2) ok by blast
  note t = touch_facts [OF assms(1) this assms(3)]
  show i: "i \<notin> B" using t(3) assms(2) ok by blast
  show "set (jvals m') \<subseteq> insert i P" using t(5) assms(2) by blast
  have fresh: "open_attempts f as j = 0" if "j \<notin> P" for j
    using ok that by (auto simp: open_attempts_def list_all_iff filter_empty_conv)
  have new: "tracker_ok pT (tracker_at heap i) \<and> tr_pending (tracker_at heap i) = int (open_attempts f as i)"
  proof (cases "i \<in> P")
    case True
    then show ?thesis using ok by blast
  next
    case False
    with t(3) assms(2) have "i = length heap" by blast
    then show ?thesis using fresh [OF False] new_tracker_ok [OF assms(5)]
      by (simp add: tracker_at_def) (simp add: new_tracker_def)
  qed
  show "heap_ok pT bT (insert i P) B f g heap' as"
    unfolding heap_ok_def
  proof (intro conjI)
    show "insert i P \<union> B \<subseteq> {..<length heap'}" using t(1,2) ok by auto
    show "insert i P \<inter> B = {}" using i ok by auto
    show "list_all (\<lambda>a. f a \<in> insert i P \<and> g a \<in> B) as" using ok by (auto simp: list_all_iff)
    show "\<forall>j \<in> insert i P. tracker_ok pT (tracker_at heap' j) \<and> tr_pending (tracker_at heap' j) = int (open_attempts f as j)"
      using ok new refresh_ok by (auto simp: t(4))
    show "\<forall>j \<in> B. tracker_ok bT (tracker_at heap' j) \<and> tr_pending (tracker_at heap' j) = int (open_attempts g as j)"
      using ok i by (auto simp: t(4))
  qed
qed

section \<open>Beginning and settling\<close>

lemma blocked_zero:
  "blockedForMs t threshold now \<le> 0 \<Longrightarrow>
     tr_lockedUntil t \<le> now \<and> int (length (tr_failures t)) + tr_pending t < int threshold"
  by (auto simp: blockedForMs_def SATURATED_RETRY_MS_def split: if_splits)

lemma pending_ok:
  "tracker_ok threshold t \<Longrightarrow> int (length (tr_failures t)) + tr_pending t < int threshold \<Longrightarrow>
     tracker_ok threshold (t\<lparr>tr_pending := tr_pending t + 1\<rparr>)"
  by (simp add: tracker_ok_def)

lemma settled_ok:
  "tracker_ok threshold t \<Longrightarrow> 0 < tr_pending t \<Longrightarrow>
     tracker_ok threshold (t\<lparr>tr_pending := tr_pending t - 1\<rparr>)
     \<and> int (length (tr_failures t)) + (tr_pending t - 1) < int threshold"
  by (simp add: tracker_ok_def)

text \<open>Recording a failure keeps a tracker inside its threshold: it counts, or it locks and starts again.\<close>

lemma recordFailure_ok:
  assumes "recordFailure th t threshold sc ip now = (e, t')" "tracker_ok threshold t"
    "int (length (tr_failures t)) + tr_pending t < int threshold"
  shows "tracker_ok threshold t'" "tr_pending t' = tr_pending t"
  using assms by (auto simp: recordFailure_def Let_def tracker_ok_def split: if_splits)

lemma tracker_at_update:
  "i < length heap \<Longrightarrow> tracker_at (heap[i := t]) = (tracker_at heap)(i := t)"
  by (auto simp: tracker_at_def fun_eq_iff)

lemma tracker_at_nth: "i < length heap \<Longrightarrow> heap ! i = tracker_at heap i"
  by (simp add: tracker_at_def)

lemma open_snoc:
  "open_attempts f (as @ [a]) i = open_attempts f as i + (if \<not> at_settled a \<and> f a = i then 1 else 0)"
  by (simp add: open_attempts_def)

lemma open_settle:
  assumes "k < length as" "\<not> at_settled (as ! k)" "f (as ! k) = f ((as ! k)\<lparr>at_settled := True\<rparr>)"
  shows "int (open_attempts f (as[k := (as ! k)\<lparr>at_settled := True\<rparr>]) i)
    = int (open_attempts f as i) - (if f (as ! k) = i then 1 else 0)"
proof -
  let ?Q = "\<lambda>a. \<not> at_settled a \<and> f a = i"
  have split: "as = take k as @ as ! k # drop (Suc k) as" using assms(1) by (rule id_take_nth_drop)
  have upd: "as[k := x] = take k as @ x # drop (Suc k) as" for x using assms(1) by (rule upd_conv_take_nth_drop)
  have "open_attempts f as i = length (filter ?Q (take k as)) + length (filter ?Q (as ! k # drop (Suc k) as))"
    unfolding open_attempts_def by (subst split) (simp only: filter_append length_append)
  moreover have "open_attempts f (as[k := (as ! k)\<lparr>at_settled := True\<rparr>]) i
      = length (filter ?Q (take k as)) + length (filter ?Q (drop (Suc k) as))"
    unfolding open_attempts_def upd by simp
  ultimately show ?thesis using assms(2) by simp
qed

text \<open>Updating two trackers, one of each kind, together with the attempts.\<close>

lemma heap_ok_update:
  assumes "heap_ok pT bT P B f g heap as" "p \<in> P" "b \<in> B"
    "tracker_ok pT t" "tracker_ok bT u"
    "list_all (\<lambda>a. f a \<in> P \<and> g a \<in> B) as'"
    "tr_pending t = int (open_attempts f as' p)" "tr_pending u = int (open_attempts g as' b)"
    "\<And>i. i \<noteq> p \<Longrightarrow> open_attempts f as' i = open_attempts f as i"
    "\<And>i. i \<noteq> b \<Longrightarrow> open_attempts g as' i = open_attempts g as i"
  shows "heap_ok pT bT P B f g (heap[p := t, b := u]) as'"
proof -
  note ok = assms(1) [unfolded heap_ok_def]
  have len: "p < length heap" "b < length heap" and ne: "p \<noteq> b" using ok assms(2,3) by auto
  have at: "tracker_at (heap[p := t, b := u]) = (tracker_at heap)(p := t, b := u)"
    using len by (simp add: tracker_at_update)
  have P: "b \<notin> P" and B: "p \<notin> B" using ok assms(2,3) by auto
  show ?thesis
    unfolding heap_ok_def at
  proof (intro conjI ballI)
    show "list_all (\<lambda>a. f a \<in> P \<and> g a \<in> B) as'" by (rule assms(6))
  qed (use ok assms P B ne in auto)
qed

lemma throttle_inv_same:
  assumes "throttle_inv th" "heap_ok (th_pairThreshold th) (th_ipThreshold th) P B at_pair at_byIp heap' as'"
    "set (jvals pairs') \<subseteq> P" "set (jvals ips') \<subseteq> B" "wf_map pairs'" "wf_map ips'"
    "length pairs' \<le> th_maxKeys th" "length ips' \<le> th_maxKeys th"
  shows "throttle_inv (th\<lparr>th_heap := heap', th_pairs := pairs', th_ips := ips', th_attempts := as'\<rparr>)"
  using assms by (auto simp: throttle_inv_def)

text \<open>The two touches of \<open>begin\<close>.\<close>

lemma touches_ok:
  assumes "throttle_inv th"
    "touch (th_maxKeys th) (th_windowMs th) (th_heap th) (th_pairs th) pairKey now = (p, heap1, pairs1)"
    "touch (th_maxKeys th) (th_windowMs th) heap1 (th_ips th) ip now = (b, heap2, ips1)"
  obtains P B where
    "heap_ok (th_pairThreshold th) (th_ipThreshold th) P B at_pair at_byIp heap2 (th_attempts th)"
    "p \<in> P" "b \<in> B" "set (jvals pairs1) \<subseteq> P" "set (jvals ips1) \<subseteq> B"
    "wf_map pairs1" "wf_map ips1" "length pairs1 \<le> th_maxKeys th" "length ips1 \<le> th_maxKeys th"
proof -
  from assms(1) obtain P B where
      inv: "0 < th_pairThreshold th" "0 < th_ipThreshold th" "wf_map (th_pairs th)" "wf_map (th_ips th)"
      and h: "heap_ok (th_pairThreshold th) (th_ipThreshold th) P B at_pair at_byIp (th_heap th) (th_attempts th)"
      and m: "set (jvals (th_pairs th)) \<subseteq> P" "set (jvals (th_ips th)) \<subseteq> B"
    by (auto simp: throttle_inv_def)
  note t1 = heap_ok_touch [OF assms(2) m(1) inv(3) h inv(1,2)]
  note t2 = heap_ok_touch [OF assms(3) m(2) inv(4) heap_ok_swap [OF t1(1)] inv(2,1)]
  have l1: "set (jvals (th_pairs th)) \<subseteq> {..<length (th_heap th)}" using h m by (auto simp: heap_ok_def)
  have l2: "set (jvals (th_ips th)) \<subseteq> {..<length heap1}" using t1(1) m by (auto simp: heap_ok_def)
  show ?thesis
    by (rule that [OF heap_ok_swap [OF t2(1)] _ _ t1(3) t2(3)])
      (use touch_facts [OF assms(2) l1 inv(3)] touch_facts [OF assms(3) l2 inv(4)] in simp_all)
qed

lemma begin_inv:
  assumes "throttle_inv th"
  shows "throttle_inv (snd (begin_attempt trim lower now ip username th))"
proof -
  define pairKey where "pairKey = ip @ [CHR 0x0A] @ normalizeUsername trim lower username"
  obtain p heap1 pairs1 where t1: "touch (th_maxKeys th) (th_windowMs th) (th_heap th) (th_pairs th) pairKey now = (p, heap1, pairs1)"
    by (cases "touch (th_maxKeys th) (th_windowMs th) (th_heap th) (th_pairs th) pairKey now") auto
  obtain b heap2 ips1 where t2: "touch (th_maxKeys th) (th_windowMs th) heap1 (th_ips th) ip now = (b, heap2, ips1)"
    by (cases "touch (th_maxKeys th) (th_windowMs th) heap1 (th_ips th) ip now") auto
  obtain P B where ok: "heap_ok (th_pairThreshold th) (th_ipThreshold th) P B at_pair at_byIp heap2 (th_attempts th)"
      and pb: "p \<in> P" "b \<in> B"
      and m: "set (jvals pairs1) \<subseteq> P" "set (jvals ips1) \<subseteq> B" "wf_map pairs1" "wf_map ips1"
        "length pairs1 \<le> th_maxKeys th" "length ips1 \<le> th_maxKeys th"
    using touches_ok [OF assms t1 t2] by blast
  note o = ok [unfolded heap_ok_def]
  let ?a = "\<lparr>at_pair = p, at_byIp = b, at_pairKey = pairKey, at_ip = ip, at_settled = False\<rparr>"
  let ?as = "th_attempts th @ [?a]"
  let ?wait = "max (blockedForMs (heap2 ! p) (th_pairThreshold th) now) (blockedForMs (heap2 ! b) (th_ipThreshold th) now)"
  have pl: "p < length heap2" "b < length heap2" and ne: "p \<noteq> b" using o pb by auto
  show ?thesis
  proof (cases "?wait > 0")
    case True
    have "throttle_inv (th\<lparr>th_heap := heap2, th_pairs := pairs1, th_ips := ips1, th_attempts := th_attempts th\<rparr>)"
      by (rule throttle_inv_same [OF assms ok m])
    with True t1 t2 show ?thesis by (simp add: begin_attempt_def Let_def pairKey_def)
  next
    case False
    then have w: "int (length (tr_failures (heap2 ! p))) + tr_pending (heap2 ! p) < int (th_pairThreshold th)"
        "int (length (tr_failures (heap2 ! b))) + tr_pending (heap2 ! b) < int (th_ipThreshold th)"
      using blocked_zero [of "heap2 ! p" "th_pairThreshold th" now] blocked_zero [of "heap2 ! b" "th_ipThreshold th" now]
      by linarith+
    have tp: "tracker_ok (th_pairThreshold th) (heap2 ! p)" "tracker_ok (th_ipThreshold th) (heap2 ! b)"
      using o pb pl by (simp_all add: tracker_at_nth)
    let ?heap = "heap2[p := (heap2 ! p)\<lparr>tr_pending := tr_pending (heap2 ! p) + 1\<rparr>,
      b := (heap2 ! b)\<lparr>tr_pending := tr_pending (heap2 ! b) + 1\<rparr>]"
    have h: "heap_ok (th_pairThreshold th) (th_ipThreshold th) P B at_pair at_byIp ?heap ?as"
    proof (rule heap_ok_update [OF ok pb])
      show "tracker_ok (th_pairThreshold th) ((heap2 ! p)\<lparr>tr_pending := tr_pending (heap2 ! p) + 1\<rparr>)"
        by (rule pending_ok [OF tp(1) w(1)])
      show "tracker_ok (th_ipThreshold th) ((heap2 ! b)\<lparr>tr_pending := tr_pending (heap2 ! b) + 1\<rparr>)"
        by (rule pending_ok [OF tp(2) w(2)])
    qed (use o pb pl in \<open>simp_all add: open_snoc tracker_at_nth\<close>)
    have b3: "heap2[p := x] ! b = heap2 ! b" for x using ne by simp
    have "throttle_inv (th\<lparr>th_pairs := pairs1, th_ips := ips1, th_heap := ?heap, th_attempts := ?as\<rparr>)"
      using throttle_inv_same [OF assms h m] by (simp add: throttle_inv_def)
    with False t1 t2 show ?thesis
      by (simp add: begin_attempt_def Let_def pairKey_def b3)
  qed
qed

text \<open>Settling an attempt that is not settled yet.\<close>

lemma settle_facts:
  assumes "throttle_inv th" "k < length (th_attempts th)" "\<not> at_settled (th_attempts th ! k)"
  obtains P B p b t u where "p = at_pair (th_attempts th ! k)" "b = at_byIp (th_attempts th ! k)"
    "settle_attempt k th = (True, th\<lparr>th_heap := (th_heap th)[p := t, b := u],
       th_attempts := (th_attempts th)[k := (th_attempts th ! k)\<lparr>at_settled := True\<rparr>]\<rparr>)"
    "heap_ok (th_pairThreshold th) (th_ipThreshold th) P B at_pair at_byIp ((th_heap th)[p := t, b := u])
       ((th_attempts th)[k := (th_attempts th ! k)\<lparr>at_settled := True\<rparr>])"
    "p \<in> P" "b \<in> B" "p \<noteq> b" "p < length (th_heap th)" "b < length (th_heap th)"
    "set (jvals (th_pairs th)) \<subseteq> P" "set (jvals (th_ips th)) \<subseteq> B"
    "int (length (tr_failures t)) + tr_pending t < int (th_pairThreshold th)"
    "int (length (tr_failures u)) + tr_pending u < int (th_ipThreshold th)"
proof -
  from assms(1) obtain P B where
      ok: "heap_ok (th_pairThreshold th) (th_ipThreshold th) P B at_pair at_byIp (th_heap th) (th_attempts th)"
      and m: "set (jvals (th_pairs th)) \<subseteq> P" "set (jvals (th_ips th)) \<subseteq> B"
    by (auto simp: throttle_inv_def)
  note o = ok [unfolded heap_ok_def]
  let ?a = "th_attempts th ! k" and ?h = "th_heap th"
  let ?p = "at_pair ?a" and ?b = "at_byIp ?a"
  let ?as = "(th_attempts th)[k := ?a\<lparr>at_settled := True\<rparr>]"
  have "?a \<in> set (th_attempts th)" using assms(2) by simp
  with o have pb: "?p \<in> P" "?b \<in> B" by (auto simp: list_all_iff)
  with o have ne: "?p \<noteq> ?b" and len: "?p < length ?h" "?b < length ?h" by auto
  have mem: "open_attempts at_pair (th_attempts th) ?p \<noteq> 0" "open_attempts at_byIp (th_attempts th) ?b \<noteq> 0"
    using assms(3) \<open>?a \<in> set (th_attempts th)\<close> by (auto simp: open_attempts_def filter_empty_conv)
  let ?t = "(?h ! ?p)\<lparr>tr_pending := tr_pending (?h ! ?p) - 1\<rparr>"
  let ?u = "(?h ! ?b)\<lparr>tr_pending := tr_pending (?h ! ?b) - 1\<rparr>"
  have t: "tracker_ok (th_pairThreshold th) ?t \<and> int (length (tr_failures ?t)) + tr_pending ?t < int (th_pairThreshold th)"
    using settled_ok [of "th_pairThreshold th" "?h ! ?p"] o pb len mem by (simp add: tracker_at_nth)
  have u: "tracker_ok (th_ipThreshold th) ?u \<and> int (length (tr_failures ?u)) + tr_pending ?u < int (th_ipThreshold th)"
    using settled_ok [of "th_ipThreshold th" "?h ! ?b"] o pb len mem by (simp add: tracker_at_nth)
  note os = open_settle [OF assms(2,3), of at_pair] open_settle [OF assms(2,3), of at_byIp]
  have h: "heap_ok (th_pairThreshold th) (th_ipThreshold th) P B at_pair at_byIp (?h[?p := ?t, ?b := ?u]) ?as"
  proof (rule heap_ok_update [OF ok pb])
    show "list_all (\<lambda>a. at_pair a \<in> P \<and> at_byIp a \<in> B) ?as"
      unfolding list_all_iff
    proof
      fix a assume "a \<in> set ?as"
      then have "a = ?a\<lparr>at_settled := True\<rparr> \<or> a \<in> set (th_attempts th)"
        using set_update_subset_insert [of "th_attempts th" k "?a\<lparr>at_settled := True\<rparr>"] by blast
      with o pb show "at_pair a \<in> P \<and> at_byIp a \<in> B" by (auto simp: list_all_iff)
    qed
    show "tr_pending ?t = int (open_attempts at_pair ?as ?p)" "tr_pending ?u = int (open_attempts at_byIp ?as ?b)"
      using o pb len os by (simp_all add: tracker_at_nth)
    show "open_attempts at_pair ?as i = open_attempts at_pair (th_attempts th) i" if "i \<noteq> ?p" for i
      using os(1) [of i] that by simp
    show "open_attempts at_byIp ?as i = open_attempts at_byIp (th_attempts th) i" if "i \<noteq> ?b" for i
      using os(2) [of i] that by simp
  qed (use t u in simp_all)
  have st: "settle_attempt k th = (True, th\<lparr>th_heap := ?h[?p := ?t, ?b := ?u], th_attempts := ?as\<rparr>)"
    using assms(3) ne by (simp add: settle_attempt_def Let_def)
  show ?thesis by (rule that [OF refl refl st h pb ne len m]) (use t u in simp_all)
qed

lemma settle_inv:
  assumes "throttle_inv th" "k < length (th_attempts th)"
  shows "throttle_inv (snd (settle_attempt k th))"
proof (cases "at_settled (th_attempts th ! k)")
  case False
  obtain P B p b t u where st: "settle_attempt k th = (True, th\<lparr>th_heap := (th_heap th)[p := t, b := u],
       th_attempts := (th_attempts th)[k := (th_attempts th ! k)\<lparr>at_settled := True\<rparr>]\<rparr>)"
    and h: "heap_ok (th_pairThreshold th) (th_ipThreshold th) P B at_pair at_byIp ((th_heap th)[p := t, b := u])
       ((th_attempts th)[k := (th_attempts th ! k)\<lparr>at_settled := True\<rparr>])"
    and m: "set (jvals (th_pairs th)) \<subseteq> P" "set (jvals (th_ips th)) \<subseteq> B"
    using settle_facts [OF assms False] by metis
  show ?thesis unfolding st using assms(1) h m by (auto simp: throttle_inv_def)
qed (use assms in \<open>simp add: settle_attempt_def\<close>)

lemma success_inv:
  assumes "throttle_inv th" "k < length (th_attempts th)"
  shows "throttle_inv (attempt_success k th)"
proof -
  obtain b th1 where st: "settle_attempt k th = (b, th1)" by fastforce
  with settle_inv [OF assms] have inv: "throttle_inv th1" by simp
  have "set (jvals (AList.delete key m)) \<subseteq> set (jvals m)" for key and m :: "(string, nat) jsmap"
    using set_delete_subset [of key m] by auto
  then have "throttle_inv (th1\<lparr>th_pairs := AList.delete key (th_pairs th1)\<rparr>)" for key
    using inv length_delete_le [of key "th_pairs th1"] unfolding throttle_inv_def
    by simp (meson order_trans)
  with inv st show ?thesis by (cases b) (simp_all add: attempt_success_def)
qed

lemma failure_inv:
  assumes "throttle_inv th" "k < length (th_attempts th)"
  shows "throttle_inv (snd (attempt_failure now k th))"
proof (cases "at_settled (th_attempts th ! k)")
  case True
  then show ?thesis using assms(1) by (simp add: attempt_failure_def settle_attempt_def)
next
  case False
  let ?as = "(th_attempts th)[k := (th_attempts th ! k)\<lparr>at_settled := True\<rparr>]"
  obtain P B p b t u where pb: "p = at_pair (th_attempts th ! k)" "b = at_byIp (th_attempts th ! k)"
    and st: "settle_attempt k th = (True, th\<lparr>th_heap := (th_heap th)[p := t, b := u], th_attempts := ?as\<rparr>)"
    and h: "heap_ok (th_pairThreshold th) (th_ipThreshold th) P B at_pair at_byIp ((th_heap th)[p := t, b := u]) ?as"
    and mem: "p \<in> P" "b \<in> B" "p \<noteq> b" "p < length (th_heap th)" "b < length (th_heap th)"
    and m: "set (jvals (th_pairs th)) \<subseteq> P" "set (jvals (th_ips th)) \<subseteq> B"
    and lt: "int (length (tr_failures t)) + tr_pending t < int (th_pairThreshold th)"
      "int (length (tr_failures u)) + tr_pending u < int (th_ipThreshold th)"
    using settle_facts [OF assms False] by metis
  define th1 where "th1 = th\<lparr>th_heap := (th_heap th)[p := t, b := u], th_attempts := ?as\<rparr>"
  obtain e1 t1 where r1: "recordFailure th1 t (th_pairThreshold th) ByIpUsername (at_ip (th_attempts th ! k)) now = (e1, t1)"
    by fastforce
  obtain e2 t2 where r2: "recordFailure th1 u (th_ipThreshold th) ByIp (at_ip (th_attempts th ! k)) now = (e2, t2)"
    by fastforce
  note o = h [unfolded heap_ok_def]
  have at: "tracker_at ((th_heap th)[p := t, b := u]) p = t" "tracker_at ((th_heap th)[p := t, b := u]) b = u"
    using mem by (simp_all add: tracker_at_update)
  have tok: "tracker_ok (th_pairThreshold th) t" "tr_pending t = int (open_attempts at_pair ?as p)"
    and uok: "tracker_ok (th_ipThreshold th) u" "tr_pending u = int (open_attempts at_byIp ?as b)"
    using o mem at by auto
  have "heap_ok (th_pairThreshold th) (th_ipThreshold th) P B at_pair at_byIp
      ((th_heap th)[p := t, b := u, p := t1, b := t2]) ?as"
    by (rule heap_ok_update [OF h mem(1,2)])
      (use o recordFailure_ok [OF r1 tok(1) lt(1)] recordFailure_ok [OF r2 uok(1) lt(2)] tok uok in simp_all)
  then have "throttle_inv (th1\<lparr>th_heap := (th_heap th)[p := t, b := u, p := t1, b := t2]\<rparr>)"
    using assms(1) m by (auto simp: throttle_inv_def th1_def)
  moreover have "snd (attempt_failure now k th) = th1\<lparr>th_heap := (th_heap th)[p := t, b := u, p := t1, b := t2]\<rparr>"
  proof -
    have n: "(th_heap th)[p := t, b := u] ! p = t" "(th_heap th)[p := t, b := u, p := x] ! b = u" for x
      using mem by simp_all
    have f: "th_heap th1 = (th_heap th)[p := t, b := u]" "th_pairThreshold th1 = th_pairThreshold th"
      "th_ipThreshold th1 = th_ipThreshold th" by (simp_all add: th1_def)
    show ?thesis
      unfolding attempt_failure_def st th1_def [symmetric]
      by (simp add: Let_def pb [symmetric] f n r1 r2)
  qed
  ultimately show ?thesis by simp
qed

lemma login_step_inv: "throttle_inv th \<Longrightarrow> throttle_inv (login_step trim lower th ev)"
proof (cases ev)
  case (Pair now e)
  assume "throttle_inv th"
  then show ?thesis
    unfolding Pair by (cases e) (simp_all add: begin_inv failure_inv success_inv attempt_abandon_def settle_inv)
qed

interpretation logins: invariant_system "login_step trim lower" throttle_inv for trim lower
  by unfold_locales (rule login_step_inv)

lemma new_throttle_inv: "throttle_inv new_throttle"
  unfolding throttle_inv_def by (auto simp: new_throttle_def heap_ok_def intro!: exI [of _ "{}"])

definition config :: "throttle \<Rightarrow> nat \<times> nat \<times> nat" where
  "config th = (th_pairThreshold th, th_ipThreshold th, th_maxKeys th)"

lemma settle_config: "config (snd (settle_attempt k th)) = config th"
  by (simp add: settle_attempt_def Let_def config_def)

lemma step_config: "config (login_step trim lower th ev) = config th"
proof (cases ev)
  case (Pair now e)
  show ?thesis
  proof (cases e)
    case (LBegin ip username)
    then show ?thesis using Pair
      by (simp add: begin_attempt_def Let_def config_def split: prod.splits)
  next
    case (LFailure k)
    then show ?thesis using Pair settle_config [of k th]
      by (auto simp: attempt_failure_def Let_def config_def split: prod.splits bool.splits)
  next
    case (LSuccess k)
    then show ?thesis using Pair settle_config [of k th]
      by (auto simp: attempt_success_def config_def split: prod.splits bool.splits)
  next
    case (LAbandon k)
    then show ?thesis using Pair settle_config [of k th] by (simp add: attempt_abandon_def)
  qed
qed

lemma run_config: "config (foldl (login_step trim lower) th evs) = config th"
  by (induction evs arbitrary: th) (simp_all add: step_config)

section \<open>Properties\<close>


text \<open>
  An attempt that is allowed to go on is not locked. When \<open>begin\<close> hands out an attempt, neither
  the lock of its pair nor that of its address reaches past the present, and with itself counted
  the pair stays within its threshold and the address within its own.
\<close>

theorem allowed_attempt_is_unlocked:
  assumes "throttle_inv th" "begin_attempt trim lower now ip username th = (Inr k, th')"
  shows "let a = th_attempts th' ! k; t = th_heap th' ! at_pair a; u = th_heap th' ! at_byIp a in
    tr_lockedUntil t \<le> now \<and> tr_lockedUntil u \<le> now
    \<and> int (length (tr_failures t)) + tr_pending t \<le> int (th_pairThreshold th)
    \<and> int (length (tr_failures u)) + tr_pending u \<le> int (th_ipThreshold th)"
proof -
  define pairKey where "pairKey = ip @ [CHR 0x0A] @ normalizeUsername trim lower username"
  obtain p heap1 pairs1 where t1: "touch (th_maxKeys th) (th_windowMs th) (th_heap th) (th_pairs th) pairKey now = (p, heap1, pairs1)"
    by (cases "touch (th_maxKeys th) (th_windowMs th) (th_heap th) (th_pairs th) pairKey now") auto
  obtain b heap2 ips1 where t2: "touch (th_maxKeys th) (th_windowMs th) heap1 (th_ips th) ip now = (b, heap2, ips1)"
    by (cases "touch (th_maxKeys th) (th_windowMs th) heap1 (th_ips th) ip now") auto
  obtain P B where ok: "heap_ok (th_pairThreshold th) (th_ipThreshold th) P B at_pair at_byIp heap2 (th_attempts th)"
      and pb: "p \<in> P" "b \<in> B"
    using touches_ok [OF assms(1) t1 t2] by metis
  then have len: "p < length heap2" "b < length heap2" and ne: "p \<noteq> b" by (auto simp: heap_ok_def)
  have w: "blockedForMs (heap2 ! p) (th_pairThreshold th) now \<le> 0" "blockedForMs (heap2 ! b) (th_ipThreshold th) now \<le> 0"
    using assms(2) t1 t2 by (auto simp: begin_attempt_def Let_def pairKey_def not_less split: if_splits)
  have "k = length (th_attempts th)" "th_attempts th' ! k = \<lparr>at_pair = p, at_byIp = b, at_pairKey = pairKey, at_ip = ip, at_settled = False\<rparr>"
      "th_heap th' ! p = (heap2 ! p)\<lparr>tr_pending := tr_pending (heap2 ! p) + 1\<rparr>"
      "th_heap th' ! b = (heap2 ! b)\<lparr>tr_pending := tr_pending (heap2 ! b) + 1\<rparr>"
    using assms(2) t1 t2 len ne by (auto simp: begin_attempt_def Let_def pairKey_def split: if_splits)
  with blocked_zero [OF w(1)] blocked_zero [OF w(2)] show ?thesis by (simp add: Let_def)
qed

theorem allowed_attempt_is_unlocked_witness:
  "tr_lockedUntil (th_heap (snd (begin_attempt id id 0 ''1.2.3.4'' ''root'' new_throttle)) ! 0) \<le> 0"
proof -
  let ?r = "begin_attempt id id 0 ''1.2.3.4'' ''root'' new_throttle"
  have f: "fst ?r = Inr 0" and a: "at_pair (th_attempts (snd ?r) ! 0) = 0" by code_simp+
  have "?r = (Inr 0, snd ?r)" using f by (metis prod.collapse)
  from allowed_attempt_is_unlocked [OF new_throttle_inv this] a show ?thesis by (simp add: Let_def)
qed

end
