(* ===== verification/PathGuards.thy ===== *)
theory PathGuards
  imports TextPatterns
begin

text \<open>
  packages/security/src/logical-path.ts, glob.ts and sensitive.ts: one spelling for the paths an agent
  writes, the pattern lists they are compared with, and the class of secrecy that decides what is
  shown of a file. \<open>win\<close> says whether the platform is win32. \<open>lower\<close> is \<open>toLowerCase\<close>; \<open>canon\<close> is the case
  folding of the flag \<open>i\<close>, which works character by character and leaves \<open>*\<close> and the separators alone, so
  that folding pattern and text beforehand is the same.
\<close>

section \<open>One spelling for a path\<close>

definition ascii_letter :: "char \<Rightarrow> bool" where
  "ascii_letter c = (let n = of_char c :: nat in (65 \<le> n \<and> n \<le> 90) \<or> (97 \<le> n \<and> n \<le> 122))"

definition is_drive :: "string \<Rightarrow> bool" where
  "is_drive s = (case s of [c, d] \<Rightarrow> ascii_letter c \<and> d = CHR '':'' | _ \<Rightarrow> False)"

definition slashed :: "string \<Rightarrow> string" where
  "slashed v = map (\<lambda>c. if c = CHR 0x5C then CHR ''/'' else c) v"

abbreviation split_slash :: "string \<Rightarrow> string list" where
  "split_slash \<equiv> split_at (\<lambda>c. c = CHR ''/'')"

definition ambiguous :: "string list \<Rightarrow> string \<Rightarrow> bool" where
  "ambiguous segments segment \<longleftrightarrow>
     last segment = CHR '' '' \<or> last segment = CHR ''.'' \<or>
     (\<not> (segments = [] \<and> is_drive segment) \<and> CHR '':'' \<in> set segment)"

fun path_segments :: "bool \<Rightarrow> string list \<Rightarrow> string list \<Rightarrow> string + string list" where
  "path_segments win [] segments = Inr segments"
| "path_segments win (segment # rest) segments =
     (if segment = [] \<or> segment = ''.'' then path_segments win rest segments
      else if segment = ''..'' then
        path_segments win rest (if length segments = 1 \<and> is_drive (hd segments) then segments else butlast segments)
      else if win \<and> ambiguous segments segment then Inl ''INVALID_REQUEST''
      else path_segments win rest (segments @ [segment]))"

definition normalizeLogicalPath :: "bool \<Rightarrow> string \<Rightarrow> string + string" where
  "normalizeLogicalPath win v =
     (case path_segments win (split_slash (slashed v)) [] of Inl e \<Rightarrow> Inl e | Inr segments \<Rightarrow> Inr (CHR ''/'' # join_text ''/'' segments))"

section \<open>Globs\<close>

text \<open>The parts of a compiled pattern; \<open>^\<close> and \<open>$\<close> are understood.\<close>

datatype glob_part = GLit char | GSep | GSegRun | GAnyRun | GOptional "glob_part list"

abbreviation is_sep :: "char \<Rightarrow> bool" where
  "is_sep c \<equiv> c = CHR ''/'' \<or> c = CHR 0x5C"

fun compileSegment :: "string \<Rightarrow> glob_part list" where
  "compileSegment [] = []"
| "compileSegment (c # p) =
     (if has_prefix ''**'' (c # p) then GAnyRun # compileSegment (drop 1 p)
      else (if c = CHR ''*'' then GSegRun else if c = CHR ''/'' then GSep else GLit c) # compileSegment p)"

definition compileGlob :: "string \<Rightarrow> glob_part list option" where
  "compileGlob pattern =
     (if pattern = [] then None
      else
        (let prefixOptional = has_prefix ''**/'' pattern;
             body = (if prefixOptional then drop 3 pattern else pattern);
             suffixOptional = has_suffix ''/**'' body;
             body' = (if suffixOptional then take (length body - 3) body else body) in
         Some ([GOptional [GLit (CHR ''/'')]] @ (if prefixOptional then [GOptional [GAnyRun, GSep]] else []) @
           (if body' = [] then [GAnyRun] else compileSegment body') @
           (if suffixOptional then [GOptional [GSep, GAnyRun]] else []))))"

function glob_test :: "glob_part list \<Rightarrow> string \<Rightarrow> bool" where
  "glob_test [] v = (v = [])"
| "glob_test (GLit c # ps) v = (case v of [] \<Rightarrow> False | d # w \<Rightarrow> d = c \<and> glob_test ps w)"
| "glob_test (GSep # ps) v = (case v of [] \<Rightarrow> False | d # w \<Rightarrow> is_sep d \<and> glob_test ps w)"
| "glob_test (GSegRun # ps) v =
     list_ex (\<lambda>(run, w). list_all (\<lambda>c. \<not> is_sep c) run \<and> at_boundary w \<and> glob_test ps w) (splits v)"
| "glob_test (GAnyRun # ps) v = list_ex (\<lambda>(run, w). dot_run run \<and> at_boundary w \<and> glob_test ps w) (splits v)"
| "glob_test (GOptional qs # ps) v = (glob_test ps v \<or> glob_test (qs @ ps) v)"
  by pat_completeness auto
termination by (relation "measure (\<lambda>(ps, v). size_list size ps)") auto

text \<open>\<open>compileGlob\<close> and \<open>test\<close> with the flag \<open>i\<close>.\<close>

definition globMatches :: "(string \<Rightarrow> string) \<Rightarrow> string \<Rightarrow> string \<Rightarrow> bool" where
  "globMatches canon pattern v = (case compileGlob (canon pattern) of None \<Rightarrow> False | Some ps \<Rightarrow> glob_test ps (canon v))"

section \<open>Sensitivity\<close>

datatype sensitivity = NormalFile | SensitiveFile | SecretFile

definition sensitivityRank :: "sensitivity \<Rightarrow> nat" where
  "sensitivityRank s = (case s of NormalFile \<Rightarrow> 0 | SensitiveFile \<Rightarrow> 1 | SecretFile \<Rightarrow> 2)"

instantiation sensitivity :: linorder
begin

definition less_eq_sensitivity :: "sensitivity \<Rightarrow> sensitivity \<Rightarrow> bool" where
  "less_eq_sensitivity a b \<longleftrightarrow> sensitivityRank a \<le> sensitivityRank b"

definition less_sensitivity :: "sensitivity \<Rightarrow> sensitivity \<Rightarrow> bool" where
  "less_sensitivity a b \<longleftrightarrow> sensitivityRank a < sensitivityRank b"

instance
proof
  fix a b c :: sensitivity
  show "(a < b) = (a \<le> b \<and> \<not> b \<le> a)" by (auto simp: less_eq_sensitivity_def less_sensitivity_def)
  show "a \<le> a" by (simp add: less_eq_sensitivity_def)
  show "a \<le> b \<Longrightarrow> b \<le> c \<Longrightarrow> a \<le> c" by (simp add: less_eq_sensitivity_def)
  show "a \<le> b \<Longrightarrow> b \<le> a \<Longrightarrow> a = b"
    by (cases a; cases b) (simp_all add: less_eq_sensitivity_def sensitivityRank_def)
  show "a \<le> b \<or> b \<le> a" by (auto simp: less_eq_sensitivity_def)
qed

end

definition maxSensitivity :: "sensitivity list \<Rightarrow> sensitivity" where
  "maxSensitivity values = fold (\<lambda>v result. if result < v then v else result) values NormalFile"

record sensitivity_input =
  sn_path :: string
  sn_gitIgnored :: bool
  sn_explicit :: "sensitivity option"
  sn_userPatterns :: "(string \<times> sensitivity) list"
  sn_mountPolicy :: "sensitivity option"

text \<open>\<open>/^\/?[a-z]:(?:[\\/]|$)/i\<close> is replaced by a slash.\<close>

definition cut_drive :: "string \<Rightarrow> string" where
  "cut_drive v =
     (let w = (if has_prefix ''/'' v then drop 1 v else v) in
      if is_drive (take 2 w) \<and> (length w = 2 \<or> is_sep (w ! 2)) then CHR ''/'' # drop 3 w else v)"

text \<open>\<open>/id_(rsa|ed25519|ecdsa)$/\<close>, \<open>/\.pem$|\.p12$|\.pfx$|private[-_]?key/\<close>\<close>

definition secret_name :: "string \<Rightarrow> bool" where
  "secret_name base \<longleftrightarrow> base = ''.env'' \<or> has_prefix ''.env.'' base \<or>
     list_ex (\<lambda>w. has_suffix w base) [''id_rsa'', ''id_ed25519'', ''id_ecdsa'', ''.pem'', ''.p12'', ''.pfx''] \<or>
     list_ex (\<lambda>w. contains_text w base) [''privatekey'', ''private-key'', ''private_key'']"

text \<open>\<open>/credentials|secrets?\.json|\.npmrc$|\.pypirc$/\<close>\<close>

definition sensitive_name :: "string \<Rightarrow> bool" where
  "sensitive_name base \<longleftrightarrow> list_ex (\<lambda>w. contains_text w base) [''credentials'', ''secret.json'', ''secrets.json''] \<or>
     list_ex (\<lambda>w. has_suffix w base) [''.npmrc'', ''.pypirc'']"

definition configured_class :: "(string \<Rightarrow> string) \<Rightarrow> sensitivity_input \<Rightarrow> string \<Rightarrow> sensitivity" where
  "configured_class canon inp path =
     fold (\<lambda>(pattern, cls) configured. if globMatches canon pattern path then maxSensitivity [configured, cls] else configured)
       (sn_userPatterns inp) (case sn_mountPolicy inp of None \<Rightarrow> NormalFile | Some s \<Rightarrow> s)"

text \<open>A segment \<open>.git\<close>: the path begins with a slash.\<close>

definition classifySensitivity ::
    "(string \<Rightarrow> string) \<Rightarrow> (string \<Rightarrow> string) \<Rightarrow> bool \<Rightarrow> sensitivity_input \<Rightarrow> string + sensitivity" where
  "classifySensitivity canon lower win inp =
     (case sn_explicit inp of
        Some s \<Rightarrow> Inr s
      | None \<Rightarrow>
          (case normalizeLogicalPath win (if win then cut_drive (sn_path inp) else sn_path inp) of
             Inl e \<Rightarrow> Inl e
           | Inr path \<Rightarrow>
               (let configured = configured_class canon inp path;
                    p = lower path; base = last (split_slash p) in
                if secret_name base then Inr SecretFile
                else if ''.git'' \<in> set (split_slash p) \<or> sn_gitIgnored inp \<or> sensitive_name base
                then Inr (maxSensitivity [SensitiveFile, configured])
                else Inr configured)))"

text \<open>\<open>split(/\r?\n/)\<close>\<close>

definition split_lines :: "string \<Rightarrow> string list" where
  "split_lines s =
     (case split_at (\<lambda>c. c = CHR 0x0A) s of ls \<Rightarrow> map (\<lambda>l. if has_suffix [CHR 0x0D] l then butlast l else l) (butlast ls) @ [last ls])"

definition mask_line :: "string \<Rightarrow> string" where
  "mask_line line =
     (let key = takeWhile (\<lambda>c. c \<noteq> CHR ''='') line in
      if key \<noteq> [] \<and> CHR ''='' \<in> set line then key @ ''=[REDACTED]'' else line)"

definition maskSecretFile :: "(string \<Rightarrow> string) \<Rightarrow> string \<Rightarrow> string \<Rightarrow> string" where
  "maskSecretFile lower path content =
     (if has_prefix ''.env'' (last (split_at is_sep (lower path)))
      then join_text [CHR 0x0A] (map mask_line (split_lines content))
      else ''[REDACTED SECRET FILE]'')"

section \<open>Segments\<close>

definition plain :: "string \<Rightarrow> bool" where
  "plain s \<longleftrightarrow> s \<noteq> [] \<and> s \<noteq> ''.'' \<and> s \<noteq> ''..''"

text \<open>What \<open>path_segments\<close> does with the segments when it does not refuse one.\<close>

definition path_step :: "string list \<Rightarrow> string \<Rightarrow> string list" where
  "path_step segments segment =
     (if segment = [] \<or> segment = ''.'' then segments
      else if segment = ''..'' then (if length segments = 1 \<and> is_drive (hd segments) then segments else butlast segments)
      else segments @ [segment])"

abbreviation resolved :: "string list \<Rightarrow> string list" where
  "resolved xs \<equiv> foldl path_step [] xs"

lemma path_segments_fold:
  "path_segments win xs acc = Inr segs \<Longrightarrow> segs = foldl path_step acc xs"
  by (induction win xs acc rule: path_segments.induct) (auto simp: path_step_def split: if_splits)

lemma path_segments_posix: "path_segments False xs acc = Inr (foldl path_step acc xs)"
  by (induction xs arbitrary: acc) (simp_all add: path_step_def)

lemma path_step_plain: "list_all plain acc \<Longrightarrow> list_all plain (path_step acc s)"
  by (auto simp: path_step_def plain_def list_all_iff dest: in_set_butlastD)

lemma resolved_plain: "list_all plain acc \<Longrightarrow> list_all plain (foldl path_step acc xs)"
  by (induction xs arbitrary: acc) (simp_all add: path_step_plain)

lemma plain_resolved: "list_all plain xs \<Longrightarrow> foldl path_step acc xs = acc @ xs"
  by (induction xs arbitrary: acc) (auto simp: path_step_def plain_def)

lemma join_split:
  assumes "\<forall>x \<in> set xs. \<forall>c \<in> set x. \<not> sep c" "sep d" "xs \<noteq> []"
  shows "split_at sep (join_text [d] xs) = xs"
  using assms
proof (induction xs)
  case (Cons x xs)
  show ?case
  proof (cases xs)
    case Nil
    then show ?thesis using Cons.prems by (simp add: split_at_word)
  next
    case (Cons y ys)
    have "split_at sep (x @ d # join_text [d] xs) = split_at sep x @ split_at sep (join_text [d] xs)"
      by (rule split_at_append) (rule Cons.prems)
    then show ?thesis using Cons.IH Cons.prems Cons by (simp add: split_at_word)
  qed
qed simp

lemma slashed_no_backslash [simp]: "CHR 0x5C \<notin> set (slashed v)"
  by (auto simp: slashed_def)

lemma slashed_id: "CHR 0x5C \<notin> set v \<Longrightarrow> slashed v = v"
  by (auto simp: slashed_def intro: map_idI)

lemma split_slash_chars: "x \<in> set (split_slash (slashed v)) \<Longrightarrow> c \<in> set x \<Longrightarrow> c \<noteq> CHR ''/'' \<and> c \<noteq> CHR 0x5C"
  using split_at_pieces [of x "\<lambda>c. c = CHR ''/''" "slashed v" c] slashed_no_backslash [of v] by auto

lemma resolved_subset: "set (foldl path_step acc xs) \<subseteq> set acc \<union> set xs"
proof (induction xs arbitrary: acc)
  case (Cons x xs)
  have "set (path_step acc x) \<subseteq> insert x (set acc)" by (auto simp: path_step_def dest: in_set_butlastD)
  with Cons.IH [of "path_step acc x"] show ?case by auto
qed simp

text \<open>A normalised path: its segments, which are its normal form.\<close>

definition path_of :: "string list \<Rightarrow> string" where
  "path_of segments = CHR ''/'' # join_text ''/'' segments"

definition clean_segment :: "string \<Rightarrow> bool" where
  "clean_segment s \<longleftrightarrow> plain s \<and> (\<forall>c \<in> set s. c \<noteq> CHR ''/'' \<and> c \<noteq> CHR 0x5C)"

lemma normalize_clean:
  assumes "normalizeLogicalPath win v = Inr p"
  shows "p = path_of (resolved (split_slash (slashed v)))" "\<forall>s \<in> set (resolved (split_slash (slashed v))). clean_segment s"
proof -
  show "p = path_of (resolved (split_slash (slashed v)))"
    using assms by (auto simp: normalizeLogicalPath_def path_of_def split: sum.splits dest: path_segments_fold)
  show "\<forall>s \<in> set (resolved (split_slash (slashed v))). clean_segment s"
  proof
    fix s
    assume s: "s \<in> set (resolved (split_slash (slashed v)))"
    then have "plain s" using resolved_plain [of "[]" "split_slash (slashed v)"] by (simp add: list_all_iff)
    moreover have "s \<in> set (split_slash (slashed v))"
      using s resolved_subset [of "[]" "split_slash (slashed v)"] by auto
    ultimately show "clean_segment s" using split_slash_chars [of s v] by (auto simp: clean_segment_def)
  qed
qed

lemma path_of_split:
  assumes "\<forall>s \<in> set segs. clean_segment s"
  shows "split_slash (slashed (path_of segs)) = [] # (if segs = [] then [[]] else segs)"
proof -
  have "CHR 0x5C \<notin> set (join_text ''/'' segs)"
    using assms by (induction "''/''" segs rule: join_text.induct) (auto simp: clean_segment_def)
  then have "slashed (path_of segs) = path_of segs" by (simp add: path_of_def slashed_id)
  moreover have "split_slash (join_text ''/'' segs) = (if segs = [] then [[]] else segs)"
    using assms join_split [of segs "\<lambda>c. c = CHR ''/''" "CHR ''/''"] by (auto simp: clean_segment_def)
  ultimately show ?thesis by (simp add: path_of_def)
qed

lemma path_of_inject:
  assumes "\<forall>s \<in> set xs. clean_segment s" "\<forall>s \<in> set ys. clean_segment s" "path_of xs = path_of ys"
  shows "xs = ys"
proof -
  have "(if xs = [] then [[]] else xs) = (if ys = [] then [[]] else ys)"
    using path_of_split [OF assms(1)] path_of_split [OF assms(2)] unfolding assms(3) by simp
  moreover have "[] \<notin> set xs" "[] \<notin> set ys" using assms(1,2) by (auto simp: clean_segment_def plain_def)
  ultimately show ?thesis by (auto split: if_splits)
qed

lemma resolved_clean: "\<forall>s \<in> set segs. clean_segment s \<Longrightarrow> resolved ([] # (if segs = [] then [[]] else segs)) = segs"
  using plain_resolved [of segs "[]"] by (auto simp: path_step_def clean_segment_def list_all_iff)

section \<open>Respelling\<close>

text \<open>Two spellings of one path, in its segments: an empty or a dot segment more, a step into a name and back, or a step above the root.\<close>

inductive respell :: "string list \<Rightarrow> string list \<Rightarrow> bool" where
  "s = [] \<or> s = ''.'' \<Longrightarrow> respell (a @ [s] @ b) (a @ b)"
| "list_all plain a \<Longrightarrow> plain s \<Longrightarrow> \<not> (a = [] \<and> is_drive s) \<Longrightarrow> respell (a @ [s, ''..''] @ b) (a @ b)"
| "respell (''..'' # b) b"
| "is_drive d \<Longrightarrow> respell (d # ''..'' # b) (d # b)"

lemma drive_plain: "is_drive d \<Longrightarrow> plain d"
  by (auto simp: is_drive_def plain_def ascii_letter_def split: list.splits)

lemma respell_resolved: "respell xs ys \<Longrightarrow> resolved xs = resolved ys"
proof (induction rule: respell.induct)
  case (2 a s b)
  have "path_step (path_step a s) ''..'' = a" using 2(2,3) by (auto simp: path_step_def plain_def)
  then show ?case using 2(1) by (simp add: plain_resolved)
next
  case (4 d b)
  then show ?case using drive_plain [OF 4] by (simp add: path_step_def plain_def)
qed (auto simp: path_step_def)

lemma respell_to_resolved: "list_all plain acc \<Longrightarrow> respell\<^sup>*\<^sup>* (acc @ xs) (foldl path_step acc xs)"
proof (induction xs arbitrary: acc)
  case (Cons x xs)
  have step: "respell\<^sup>*\<^sup>* (acc @ x # xs) (path_step acc x @ xs)"
  proof (cases "x = [] \<or> x = ''.''")
    case True
    then show ?thesis using respell.intros(1) [of x acc xs] by (auto simp: path_step_def)
  next
    case other: False
    show ?thesis
    proof (cases "x = ''..''")
      case up: True
      show ?thesis
      proof (cases acc rule: rev_cases)
        case Nil
        then show ?thesis using respell.intros(3) [of xs] up by (auto simp: path_step_def)
      next
        case (snoc front s)
        then have plains: "list_all plain front" "plain s" using Cons.prems by simp_all
        show ?thesis
        proof (cases "front = [] \<and> is_drive s")
          case True
          then show ?thesis using respell.intros(4) [of s xs] up snoc by (auto simp: path_step_def)
        next
          case False
          then show ?thesis using respell.intros(2) [OF plains False, of xs] up snoc by (auto simp: path_step_def)
        qed
      qed
    qed (use other in \<open>simp add: path_step_def\<close>)
  qed
  also have "respell\<^sup>*\<^sup>* (path_step acc x @ xs) (foldl path_step (path_step acc x) xs)"
    by (rule Cons.IH) (rule path_step_plain [OF Cons.prems])
  finally show ?case by simp
qed simp

lemma rtranclp_equivclp_le: "r\<^sup>*\<^sup>* x y \<Longrightarrow> equivclp r x y"
  by (induction rule: rtranclp_induct) (auto intro: equivclp_into_equivclp)

lemma equiv_resolved: "equivclp respell xs ys \<longleftrightarrow> resolved xs = resolved ys"
proof
  assume "equivclp respell xs ys"
  then show "resolved xs = resolved ys"
    by (induction rule: equivclp_induct) (auto dest: respell_resolved)
next
  assume same: "resolved xs = resolved ys"
  have "equivclp respell zs (resolved zs)" for zs
    using respell_to_resolved [of "[]" zs] rtranclp_equivclp_le [of respell] by auto
  from this [of xs] this [of ys] show "equivclp respell xs ys"
    unfolding same by (meson equivclp_sym equivclp_trans)
qed

lemma normalize_posix: "normalizeLogicalPath False v = Inr (path_of (resolved (split_slash (slashed v))))"
  by (simp add: normalizeLogicalPath_def path_segments_posix path_of_def)

lemma normalize_path_of:
  assumes "\<forall>s \<in> set segs. clean_segment s"
  shows "normalizeLogicalPath False (path_of segs) = Inr (path_of segs)"
  unfolding normalize_posix path_of_split [OF assms] resolved_clean [OF assms] ..

lemma normalize_same:
  "normalizeLogicalPath False u = normalizeLogicalPath False v \<longleftrightarrow>
     resolved (split_slash (slashed u)) = resolved (split_slash (slashed v))"
  using path_of_inject [OF normalize_clean(2) [OF normalize_posix] normalize_clean(2) [OF normalize_posix], of u v]
  unfolding normalize_posix by auto


section \<open>What a pattern means\<close>

text \<open>The documented meaning: \<open>*\<close> is a run inside a segment, \<open>**\<close> any run, everything else itself.\<close>

inductive seg_word :: "string \<Rightarrow> string \<Rightarrow> bool" where
  "seg_word [] []"
| "at_boundary v \<Longrightarrow> seg_word p v \<Longrightarrow> seg_word (CHR ''*'' # CHR ''*'' # p) (run @ v)"
| "\<not> has_prefix ''*'' p \<Longrightarrow> list_all (\<lambda>c. \<not> is_sep c) run \<Longrightarrow> at_boundary v \<Longrightarrow> seg_word p v \<Longrightarrow> seg_word (CHR ''*'' # p) (run @ v)"
| "is_sep s \<Longrightarrow> seg_word p v \<Longrightarrow> seg_word (CHR ''/'' # p) (s # v)"
| "c \<noteq> CHR ''*'' \<Longrightarrow> c \<noteq> CHR ''/'' \<Longrightarrow> seg_word p v \<Longrightarrow> seg_word (c # p) (c # v)"

inductive_simps seg_word_Nil [simp]: "seg_word [] v"
inductive_simps seg_word_Cons: "seg_word (c # p) v"

definition glob_core :: "string \<Rightarrow> string \<Rightarrow> bool" where
  "glob_core body w \<longleftrightarrow> body = [] \<or> seg_word body w"

text \<open>\<open>dir/**\<close> is the directory itself or what is below it; \<open>**/name\<close> is the name at any depth.\<close>

definition glob_tail :: "string \<Rightarrow> string \<Rightarrow> bool" where
  "glob_tail body w \<longleftrightarrow>
     (if has_suffix ''/**'' body
      then \<exists>a. (w = a \<or> (\<exists>s rest. is_sep s \<and> w = a @ s # rest)) \<and> glob_core (take (length body - 3) body) a
      else glob_core body w)"

definition documented_glob :: "string \<Rightarrow> string \<Rightarrow> bool" where
  "documented_glob pattern v \<longleftrightarrow> pattern \<noteq> [] \<and>
     (\<exists>u. (v = u \<or> v = CHR ''/'' # u) \<and>
        (if has_prefix ''**/'' pattern
         then \<exists>w. (u = w \<or> (\<exists>run s. is_sep s \<and> u = run @ s # w)) \<and> glob_tail (drop 3 pattern) w
         else glob_tail pattern u))"

lemma is_sep_boundary: "is_sep s \<Longrightarrow> at_boundary (s # w)"
  by (auto simp: at_boundary_def)

lemma at_boundary_append: "at_boundary b \<Longrightarrow> at_boundary (a @ b) \<longleftrightarrow> at_boundary a"
  by (cases a) (auto simp: at_boundary_def)

lemma glob_test_runs:
  "glob_test (GSegRun # ps) v \<longleftrightarrow> (\<exists>run w. v = run @ w \<and> list_all (\<lambda>c. \<not> is_sep c) run \<and> at_boundary w \<and> glob_test ps w)"
  "glob_test (GAnyRun # ps) v \<longleftrightarrow> (\<exists>run w. v = run @ w \<and> dot_run run \<and> at_boundary w \<and> glob_test ps w)"
  "glob_test (GSep # ps) v \<longleftrightarrow> (\<exists>s w. v = s # w \<and> is_sep s \<and> glob_test ps w)"
  "glob_test (GLit c # ps) v \<longleftrightarrow> (\<exists>w. v = c # w \<and> glob_test ps w)"
  by (auto simp: ex_splits split: list.splits)

declare glob_test.simps(2-5) [simp del]

lemma compile_words:
  assumes "\<And>w. glob_test ps w \<Longrightarrow> at_boundary w" "dot_run v"
  shows "glob_test (compileSegment p @ ps) v \<longleftrightarrow> (\<exists>a b. v = a @ b \<and> seg_word p a \<and> glob_test ps b)"
  using assms(2)
proof (induction p arbitrary: v rule: compileSegment.induct)
  case (2 c p)
  show ?case
  proof (cases "has_prefix ''**'' (c # p)")
    case True
    then obtain q where q: "c = CHR ''*''" "p = CHR ''*'' # q" by (cases p) (auto simp: has_prefix_def)
    have "glob_test (compileSegment (c # p) @ ps) v \<longleftrightarrow>
        (\<exists>run w. v = run @ w \<and> at_boundary w \<and> (\<exists>a b. w = a @ b \<and> seg_word q a \<and> glob_test ps b))"
    proof -
      have "dot_run run \<and> at_boundary w \<and> glob_test (compileSegment q @ ps) w \<longleftrightarrow>
          at_boundary w \<and> (\<exists>a b. w = a @ b \<and> seg_word q a \<and> glob_test ps b)" if "v = run @ w" for run w
        using 2(1) [OF True, of w] 2(3) dot_run_append [of run w] that q by auto
      then have "(\<exists>run w. v = run @ w \<and> dot_run run \<and> at_boundary w \<and> glob_test (compileSegment q @ ps) w) \<longleftrightarrow>
          (\<exists>run w. v = run @ w \<and> at_boundary w \<and> (\<exists>a b. w = a @ b \<and> seg_word q a \<and> glob_test ps b))"
        by - (rule iff_exI, rule iff_exI, rule conj_cong [OF refl], blast)
      then show ?thesis using True q by (simp add: glob_test_runs)
    qed
    also have "\<dots> \<longleftrightarrow> (\<exists>a b. v = a @ b \<and> seg_word (c # p) a \<and> glob_test ps b)"
      unfolding q seg_word_Cons using at_boundary_append [OF assms(1)]
      by (auto simp: has_prefix_def) (metis append.assoc)+
    finally show ?thesis .
  next
    case False
    note IH = 2(2) [OF False]
    consider (star) "c = CHR ''*''" "\<not> has_prefix ''*'' p" | (sep) "c = CHR ''/''" | (lit) "c \<noteq> CHR ''*''" "c \<noteq> CHR ''/''"
      using False by (cases p) (auto simp: has_prefix_def)
    then show ?thesis
    proof cases
      case star
      have "glob_test (compileSegment (c # p) @ ps) v \<longleftrightarrow>
          (\<exists>run w. v = run @ w \<and> list_all (\<lambda>c. \<not> is_sep c) run \<and> at_boundary w \<and> (\<exists>a b. w = a @ b \<and> seg_word p a \<and> glob_test ps b))"
      proof -
        have "glob_test (compileSegment p @ ps) w \<longleftrightarrow> (\<exists>a b. w = a @ b \<and> seg_word p a \<and> glob_test ps b)"
          if "v = run @ w" for run w
          using IH [of w] 2(3) dot_run_append [of run w] that by auto
        then have "(\<exists>run w. v = run @ w \<and> list_all (\<lambda>c. \<not> is_sep c) run \<and> at_boundary w \<and> glob_test (compileSegment p @ ps) w) \<longleftrightarrow>
            (\<exists>run w. v = run @ w \<and> list_all (\<lambda>c. \<not> is_sep c) run \<and> at_boundary w \<and> (\<exists>a b. w = a @ b \<and> seg_word p a \<and> glob_test ps b))"
          by (intro iff_exI conj_cong refl)
        then show ?thesis using False star by (simp add: glob_test_runs)
      qed
      also have "\<dots> \<longleftrightarrow> (\<exists>a b. v = a @ b \<and> seg_word (c # p) a \<and> glob_test ps b)"
        using star at_boundary_append [OF assms(1)] unfolding seg_word_Cons
        by (auto simp: has_prefix_def) (metis append.assoc)+
      finally show ?thesis .
    next
      case sep
      then show ?thesis
        using IH 2(3) False by (cases v) (auto simp: glob_test_runs seg_word_Cons Cons_eq_append_conv)
    next
      case lit
      then show ?thesis
        using IH 2(3) False by (cases v) (auto simp: glob_test_runs seg_word_Cons Cons_eq_append_conv)
    qed
  qed
qed simp

lemma tail_words:
  assumes "dot_run v"
  shows "glob_test ((let suffixOptional = has_suffix ''/**'' body; body' = (if suffixOptional then take (length body - 3) body else body) in
      (if body' = [] then [GAnyRun] else compileSegment body') @ (if suffixOptional then [GOptional [GSep, GAnyRun]] else []))) v \<longleftrightarrow>
    glob_tail body v"
proof -
  let ?tail = "[GOptional [GSep, GAnyRun]]"
  have rest: "glob_test ?tail w \<longleftrightarrow> w = [] \<or> (\<exists>s r. is_sep s \<and> w = s # r)" if "dot_run w" for w
    using dot_run_append [of "[hd w]" "tl w"] that by (cases w) (auto simp: glob_test_runs)
  have bound: "at_boundary w" if "glob_test ?tail w \<or> glob_test [] w" for w
  proof -
    from that consider "w = []" | s r where "w = s # r" "is_sep s" by (simp add: glob_test_runs) metis
    then show ?thesis by cases (simp_all add: is_sep_boundary)
  qed
  have core: "glob_test ((if b = [] then [GAnyRun] else compileSegment b) @ ps) v \<longleftrightarrow> (\<exists>a c. v = a @ c \<and> glob_core b a \<and> glob_test ps c)"
    if "ps = ?tail \<or> ps = []" for b ps
  proof (cases "b = []")
    case True
    have "(\<exists>a c. v = a @ c \<and> dot_run a \<and> at_boundary c \<and> glob_test ps c) \<longleftrightarrow> (\<exists>a c. v = a @ c \<and> glob_test ps c)"
      (is "?L \<longleftrightarrow> ?R")
    proof
      assume ?R
      then obtain a c where ac: "v = a @ c" "glob_test ps c" by blast
      have "dot_run a" using assms dot_run_append [of a c] ac(1) by simp
      moreover have "at_boundary c" using \<open>ps = ?tail \<or> ps = []\<close> ac(2) by (intro bound) metis
      ultimately show ?L using ac by blast
    qed blast
    then show ?thesis using True by (simp only: glob_test_runs glob_core_def append_Cons append_Nil if_True simp_thms)
  next
    case False
    have "at_boundary w" if "glob_test ps w" for w using \<open>ps = ?tail \<or> ps = []\<close> that by (intro bound) metis
    from compile_words [where p = b, OF this assms] show ?thesis using False by (simp only: glob_core_def if_False simp_thms)
  qed
  show ?thesis
  proof (cases "has_suffix ''/**'' body")
    case True
    have "(\<exists>a c. v = a @ c \<and> glob_core (take (length body - 3) body) a \<and> glob_test ?tail c) \<longleftrightarrow> glob_tail body v"
      (is "?L \<longleftrightarrow> ?R")
    proof
      assume ?L
      then obtain a c where ac: "v = a @ c" "glob_core (take (length body - 3) body) a" "glob_test ?tail c" by blast
      have "dot_run c" using assms dot_run_append [of a c] ac(1) by simp
      from rest [OF this] ac(3) have "c = [] \<or> (\<exists>s r. is_sep s \<and> c = s # r)" by simp
      then show ?R using True ac(1,2) unfolding glob_tail_def by auto
    next
      assume ?R
      then obtain a where a: "v = a \<or> (\<exists>s r. is_sep s \<and> v = a @ s # r)" "glob_core (take (length body - 3) body) a"
        using True unfolding glob_tail_def by auto
      obtain c where c: "v = a @ c" "c = [] \<or> (\<exists>s r. is_sep s \<and> c = s # r)"
        by (metis a(1) append_Nil2)
      have "dot_run c" using assms dot_run_append [of a c] c(1) by simp
      from iffD2 [OF rest [OF this] c(2)] show ?L using a(2) c(1) by (intro exI conjI)
    qed
    then show ?thesis
      using core [of ?tail "take (length body - 3) body", OF disjI1 [OF refl]] by (simp only: Let_def True if_True)
  next
    case False
    then show ?thesis using core [of "[]" body, OF disjI2 [OF refl]] by (cases "body = []") (simp_all add: glob_tail_def Let_def)
  qed
qed

text \<open>
  C35: A compiled pattern means what its documentation says, on every text without a line terminator: an
  optional leading slash, either separator, runs inside a segment and across segments, and the two
  forms at the ends.
\<close>

theorem glob_means_documented:
  assumes "dot_run (canon v)"
  shows "globMatches canon pattern v \<longleftrightarrow> documented_glob (canon pattern) (canon v)"
proof (cases "canon pattern = []")
  case False
  define p where "p = canon pattern"
  define t where "t = (\<lambda>body. let suffixOptional = has_suffix ''/**'' body; body' = (if suffixOptional then take (length body - 3) body else body) in
      (if body' = [] then [GAnyRun] else compileSegment body') @ (if suffixOptional then [GOptional [GSep, GAnyRun]] else []))"
  have tail: "glob_test (t body) w \<longleftrightarrow> glob_tail body w" if "dot_run w" for body w
    using tail_words [OF that, of body] by (simp add: t_def del: glob_test.simps)
  have deep: "glob_test (GOptional [GAnyRun, GSep] # t body) u \<longleftrightarrow>
      (\<exists>w. (u = w \<or> (\<exists>run s. is_sep s \<and> u = run @ s # w)) \<and> glob_tail body w)" if "dot_run u" for body u
  proof -
    have "glob_test ([GAnyRun, GSep] @ t body) u \<longleftrightarrow> (\<exists>run s w. u = run @ s # w \<and> is_sep s \<and> glob_test (t body) w)"
    proof -
      have "glob_test ([GAnyRun, GSep] @ t body) u \<longleftrightarrow>
          (\<exists>run v. u = run @ v \<and> dot_run run \<and> at_boundary v \<and> (\<exists>s w. v = s # w \<and> is_sep s \<and> glob_test (t body) w))"
        by (simp only: append_Cons append_Nil glob_test_runs)
      also have "\<dots> \<longleftrightarrow> (\<exists>run s w. u = run @ s # w \<and> is_sep s \<and> glob_test (t body) w)"
        using that dot_run_append is_sep_boundary by metis
      finally show ?thesis .
    qed
    moreover have "glob_test (t body) w \<longleftrightarrow> glob_tail body w" if "u = run @ s # w" for run s w
      using tail [of w body] dot_run_append [of "run @ [s]" w] \<open>dot_run u\<close> that by simp
    ultimately have "glob_test ([GAnyRun, GSep] @ t body) u \<longleftrightarrow> (\<exists>run s w. u = run @ s # w \<and> is_sep s \<and> glob_tail body w)"
      by metis
    then show ?thesis using tail [OF \<open>dot_run u\<close>, of body] unfolding glob_test.simps(6) by metis
  qed
  have compiled: "compileGlob p = Some (GOptional [GLit (CHR ''/'')] #
      (if has_prefix ''**/'' p then GOptional [GAnyRun, GSep] # t (drop 3 p) else t p))"
    using False by (simp add: compileGlob_def p_def t_def Let_def)
  have slash: "glob_test (GOptional [GLit (CHR ''/'')] # ps) v \<longleftrightarrow> (\<exists>u. (v = u \<or> v = CHR ''/'' # u) \<and> glob_test ps u)" for ps v
    unfolding glob_test.simps(6) append_Cons append_Nil glob_test_runs by blast
  have smaller: "dot_run u" if "canon v = CHR ''/'' # u" for u using assms that by simp
  show ?thesis
  proof (cases "has_prefix ''**/'' p")
    case True
    have "glob_test (GOptional [GAnyRun, GSep] # t (drop 3 p)) u \<longleftrightarrow>
        (\<exists>w. (u = w \<or> (\<exists>run s. is_sep s \<and> u = run @ s # w)) \<and> glob_tail (drop 3 p) w)" if "canon v = u \<or> canon v = CHR ''/'' # u" for u
    proof -
      have "dot_run u" using assms smaller that by auto
      then show ?thesis by (rule deep)
    qed
    then have "(\<exists>u. (canon v = u \<or> canon v = CHR ''/'' # u) \<and> glob_test (GOptional [GAnyRun, GSep] # t (drop 3 p)) u) \<longleftrightarrow>
        (\<exists>u. (canon v = u \<or> canon v = CHR ''/'' # u) \<and>
          (\<exists>w. (u = w \<or> (\<exists>run s. is_sep s \<and> u = run @ s # w)) \<and> glob_tail (drop 3 p) w))"
      by - (rule iff_exI, rule conj_cong [OF refl], blast)
    moreover have "globMatches canon pattern v \<longleftrightarrow>
        (\<exists>u. (canon v = u \<or> canon v = CHR ''/'' # u) \<and> glob_test (GOptional [GAnyRun, GSep] # t (drop 3 p)) u)"
      unfolding globMatches_def p_def [symmetric] compiled by (simp only: option.case True if_True slash)
    ultimately show ?thesis using True False by (simp only: documented_glob_def p_def [symmetric] if_True simp_thms)
  next
    case no: False
    have "glob_test (t p) u \<longleftrightarrow> glob_tail p u" if "canon v = u \<or> canon v = CHR ''/'' # u" for u
    proof -
      have "dot_run u" using assms smaller that by auto
      then show ?thesis by (rule tail)
    qed
    then have "(\<exists>u. (canon v = u \<or> canon v = CHR ''/'' # u) \<and> glob_test (t p) u) \<longleftrightarrow>
        (\<exists>u. (canon v = u \<or> canon v = CHR ''/'' # u) \<and> glob_tail p u)"
      by - (rule iff_exI, rule conj_cong [OF refl], blast)
    moreover have "globMatches canon pattern v \<longleftrightarrow> (\<exists>u. (canon v = u \<or> canon v = CHR ''/'' # u) \<and> glob_test (t p) u)"
      unfolding globMatches_def p_def [symmetric] compiled by (simp only: option.case no if_False slash)
    ultimately show ?thesis using no False by (simp only: documented_glob_def p_def [symmetric] if_False simp_thms)
  qed
qed (simp add: globMatches_def compileGlob_def documented_glob_def)

section \<open>Classes\<close>

lemma max_pair: "a \<le> maxSensitivity [a, b]" "b \<le> maxSensitivity [a, b]"
  by (cases a; cases b; simp add: maxSensitivity_def less_sensitivity_def less_eq_sensitivity_def sensitivityRank_def)+

lemma secret_top: "s \<le> SecretFile"
  by (cases s) (simp_all add: less_eq_sensitivity_def sensitivityRank_def)

lemma configured_fold:
  fixes s :: sensitivity
  assumes "s' = fold (\<lambda>(pattern, cls) configured. if globMatches canon pattern path then maxSensitivity [configured, cls] else configured) pats s"
  shows "s \<le> s' \<and> (\<forall>(pattern, cls) \<in> set pats. globMatches canon pattern path \<longrightarrow> cls \<le> s')"
  using assms
proof (induction pats arbitrary: s)
  case (Cons x pats)
  obtain q c where x: "x = (q, c)" by force
  let ?s = "if globMatches canon q path then maxSensitivity [s, c] else s"
  have "?s \<le> s'" "\<forall>(pattern, cls) \<in> set pats. globMatches canon pattern path \<longrightarrow> cls \<le> s'"
    using Cons.IH [of ?s] Cons.prems x by simp_all
  moreover have "s \<le> ?s" "globMatches canon q path \<longrightarrow> c \<le> ?s" using max_pair [of s c] max_pair(2) [of c s] by auto
  ultimately show ?case using x by (auto intro: order_trans)
qed simp

lemma classify_configured:
  assumes "sn_explicit inp = None" "normalizeLogicalPath False (sn_path inp) = Inr p"
  shows "\<exists>s. classifySensitivity canon lower False inp = Inr s \<and> configured_class canon inp p \<le> s"
  using assms max_pair secret_top by (auto simp: classifySensitivity_def Let_def)


section \<open>Cases worth knowing\<close>

text \<open>\<open>**\<close> stops at a line terminator, which a name may hold on POSIX.\<close>

lemma newline_evades_double_star:
  "globMatches id ''keys/**'' ''/keys/a'' = True"
  "globMatches id ''keys/**'' (''/keys/a'' @ [CHR 0x0A]) = False"
  by (simp_all add: globMatches_def compileGlob_def has_prefix_def has_suffix_def splits_def line_terminators_def at_boundary_def
      glob_test.simps(2-5) upt_conv_Cons)

text \<open>A value over several lines is masked in its first line only.\<close>

lemma masked_value_continues:
  "maskSecretFile id ''/.env'' (''KEY=x'' @ CHR 0x0A # ''MIIE'' @ CHR 0x0A # ''Z=y'') =
     ''KEY=[REDACTED]'' @ CHR 0x0A # ''MIIE'' @ CHR 0x0A # ''Z=[REDACTED]''"
  by (simp add: maskSecretFile_def split_lines_def mask_line_def has_prefix_def has_suffix_def)

section \<open>Witnesses\<close>


theorem glob_means_documented_witness: "documented_glob ''keys/**'' ''/keys/a''"
proof -
  have "dot_run (id ''/keys/a'')" by (simp add: line_terminators_def has_prefix_def)
  from glob_means_documented [where canon = id, OF this, of "''keys/**''"] newline_evades_double_star(1) show ?thesis by simp
qed


end
