(* ===== verification/PathPolicy.thy ===== *)
theory PathPolicy
  imports PathGuards
begin

text \<open>
  packages/security/src/path-policy.ts on POSIX: from the path an agent writes to a path of the host, inside the
  root that gives the capability. The file system is a parameter: \<open>realpath k p\<close> is what the k-th question of
  the call, about \<open>p\<close>, is answered (0 the root, 1 the candidate, 2 its parent, 3 the path read as one of the
  host), an error code or an absolute path; so links may change between the questions. Lengths of prefixes
  are in bytes: of two prefixes of one path the longer one is the same in both units.
\<close>

section \<open>Paths of the host\<close>

text \<open>\<open>path.resolve\<close> from an absolute path on, and \<open>path.relative\<close> of two resolved paths.\<close>

definition host_step :: "string list \<Rightarrow> string \<Rightarrow> string list" where
  "host_step segments s =
     (if s = [] \<or> s = ''.'' then segments else if s = ''..'' then butlast segments else segments @ [s])"

definition host_segments :: "string \<Rightarrow> string list" where
  "host_segments p = foldl host_step [] (split_slash p)"

definition resolve_host :: "string \<Rightarrow> string list \<Rightarrow> string" where
  "resolve_host base parts = path_of (foldl host_step (host_segments base) (concat (map split_slash parts)))"

fun relative_segments :: "string list \<Rightarrow> string list \<Rightarrow> string list" where
  "relative_segments (r # rs) (t # ts) = (if r = t then relative_segments rs ts else map (\<lambda>_. ''..'') (r # rs) @ t # ts)"
| "relative_segments rs ts = map (\<lambda>_. ''..'') rs @ ts"

definition path_relative :: "string \<Rightarrow> string \<Rightarrow> string" where
  "path_relative from to = join_text ''/'' (relative_segments (host_segments from) (host_segments to))"

definition path_inside :: "string \<Rightarrow> string \<Rightarrow> bool" where
  "path_inside root target =
     (let rel = path_relative root target in
      rel = [] \<or> (\<not> has_prefix ''../'' rel \<and> rel \<noteq> ''..'' \<and> \<not> has_prefix ''/'' rel))"

definition path_dirname :: "string \<Rightarrow> string" where
  "path_dirname p = path_of (butlast (host_segments p))"

definition path_basename :: "string \<Rightarrow> string" where
  "path_basename p = (case host_segments p of [] \<Rightarrow> [] | xs \<Rightarrow> last xs)"

section \<open>The resolution\<close>

datatype access_mode = ReadAccess | WriteAccess | CommandAccess

record path_root =
  pr_rootId :: string
  pr_logicalPrefix :: string
  pr_hostRoot :: string
  pr_capabilities :: "string list"

record resolved_path =
  rv_rootId :: string
  rv_logicalPath :: string
  rv_hostPath :: string
  rv_canonicalHostPath :: string

datatype path_error = WorkspaceEscape string | CapabilityMissing string access_mode | HostError string

definition capabilityFor :: "access_mode \<Rightarrow> string list" where
  "capabilityFor m = (case m of ReadAccess \<Rightarrow> [''files.read'', ''files.search'']
     | WriteAccess \<Rightarrow> [''files.write'', ''files.delete''] | CommandAccess \<Rightarrow> [''commands.run''])"

fun squeeze :: "string \<Rightarrow> string" where
  "squeeze (c # d # s) = (if c = CHR ''/'' \<and> d = CHR ''/'' then squeeze (d # s) else c # squeeze (d # s))"
| "squeeze s = s"

definition normalizePrefix :: "string \<Rightarrow> string" where
  "normalizePrefix v =
     (let norm = cut_suffix ''/'' (squeeze (CHR ''/'' # slashed v)) in if norm = [] then ''/'' else norm)"

definition prefixMatches :: "string \<Rightarrow> string \<Rightarrow> bool" where
  "prefixMatches logical p = (logical = p \<or> has_prefix (if has_suffix ''/'' p then p else p @ ''/'') logical)"

definition windows_drive_path :: "string \<Rightarrow> bool" where
  "windows_drive_path logical \<longleftrightarrow>
     has_prefix ''/'' logical \<and> is_drive (take 2 (drop 1 logical)) \<and> (length logical = 3 \<or> logical ! 3 = CHR ''/'')"

definition path_candidates :: "path_root list \<Rightarrow> (path_root \<times> string) list" where
  "path_candidates roots = concat (map (\<lambda>r.
     (let lp = normalizePrefix (pr_logicalPrefix r);
          hp = (if pr_hostRoot r \<noteq> [] then normalizePrefix (pr_hostRoot r) else []) in
      (r, lp) # (if hp \<noteq> [] \<and> hp \<noteq> lp then [(r, hp)] else []))) roots)"

text \<open>A stable sort, longest prefix first.\<close>

definition by_length :: "(path_root \<times> string) list \<Rightarrow> (path_root \<times> string) list" where
  "by_length cs = sort_key (\<lambda>c. - int (length (snd c))) cs"

definition canonicalExistingOrParent ::
    "(nat \<Rightarrow> string \<Rightarrow> string + string) \<Rightarrow> string \<Rightarrow> access_mode \<Rightarrow> string + string" where
  "canonicalExistingOrParent realpath candidate mode =
     (case realpath 1 candidate of
        Inr p \<Rightarrow> Inr p
      | Inl e \<Rightarrow>
          if mode = ReadAccess \<or> mode = CommandAccess then Inl e
          else (case realpath 2 (path_dirname candidate) of
              Inl e' \<Rightarrow> Inl e'
            | Inr parent \<Rightarrow> Inr (resolve_host parent [path_basename candidate])))"

definition isHostPathOutsideRoot :: "(nat \<Rightarrow> string \<Rightarrow> string + string) \<Rightarrow> string \<Rightarrow> string \<Rightarrow> bool" where
  "isHostPathOutsideRoot realpath logical canonicalRoot =
     (case realpath 3 logical of Inl _ \<Rightarrow> False | Inr target \<Rightarrow> \<not> path_inside canonicalRoot target)"

definition resolveCapabilityPath ::
    "(nat \<Rightarrow> string \<Rightarrow> string + string) \<Rightarrow> string \<Rightarrow> path_root list \<Rightarrow> access_mode \<Rightarrow> path_error + resolved_path" where
  "resolveCapabilityPath realpath logicalPath roots mode =
     (let logical = squeeze (CHR ''/'' # slashed logicalPath) in
      case find (\<lambda>c. \<not> (windows_drive_path logical \<and> snd c = ''/'') \<and> prefixMatches logical (snd c)) (by_length (path_candidates roots)) of
        None \<Rightarrow> Inl (WorkspaceEscape logicalPath)
      | Some (root, p) \<Rightarrow>
          if \<not> list_ex (\<lambda>c. c \<in> set (pr_capabilities root)) (capabilityFor mode) then Inl (CapabilityMissing (pr_rootId root) mode)
          else
            (let rest = drop (length p) logical;
                 relative = (if has_prefix ''/'' rest then drop 1 rest else rest) in
             if ''..'' \<in> set (split_slash relative) then Inl (WorkspaceEscape logicalPath)
             else case realpath 0 (pr_hostRoot root) of
                 Inl e \<Rightarrow> Inl (HostError e)
               | Inr canonicalRoot \<Rightarrow>
                   (let candidate = resolve_host canonicalRoot (filter (\<lambda>x. x \<noteq> []) (split_slash relative)) in
                    case canonicalExistingOrParent realpath candidate mode of
                      Inl e \<Rightarrow>
                        if p = ''/'' \<and> e = ''ENOENT'' \<and> isHostPathOutsideRoot realpath logical canonicalRoot
                        then Inl (WorkspaceEscape logicalPath) else Inl (HostError e)
                    | Inr found \<Rightarrow>
                        if \<not> path_inside canonicalRoot found then Inl (WorkspaceEscape logicalPath)
                        else Inr \<lparr>rv_rootId = pr_rootId root, rv_logicalPath = logical, rv_hostPath = candidate,
                                  rv_canonicalHostPath = found\<rparr>)))"

section \<open>Inside\<close>

lemma host_segments_plain: "s \<in> set (host_segments p) \<Longrightarrow> plain s \<and> CHR ''/'' \<notin> set s"
proof -
  have "s \<in> set (foldl host_step acc xs) \<Longrightarrow> s \<in> set acc \<or> (s \<in> set xs \<and> plain s)" for acc xs
  proof (induction xs arbitrary: acc)
    case (Cons x xs)
    from Cons.IH [of "host_step acc x"] Cons.prems show ?case
      by (auto simp: host_step_def plain_def split: if_splits dest: in_set_butlastD)
  qed simp
  from this [of "[]" "split_slash p"] show "s \<in> set (host_segments p) \<Longrightarrow> ?thesis"
    using split_at_pieces [of s "\<lambda>c. c = CHR ''/''" p] by (auto simp: host_segments_def)
qed

lemma relative_below: "relative_segments rs (rs @ ts) = ts"
  by (induction rs) simp_all

lemma relative_outside:
  "\<forall>t \<in> set ts. t \<noteq> ''..'' \<Longrightarrow> \<not> (\<exists>us. ts = rs @ us) \<Longrightarrow> \<exists>us. relative_segments rs ts = ''..'' # us"
  by (induction rs ts rule: relative_segments.induct) (auto simp: neq_Nil_conv)

lemma join_up: "join_text ''/'' (''..'' # us) = ''..'' \<or> has_prefix ''../'' (join_text ''/'' (''..'' # us))"
  by (cases us) (simp_all add: has_prefix_def)

lemma join_plain:
  assumes "\<forall>s \<in> set ts. plain s \<and> CHR ''/'' \<notin> set s"
  shows "\<not> has_prefix ''../'' (join_text ''/'' ts)" "join_text ''/'' ts \<noteq> ''..''" "\<not> has_prefix ''/'' (join_text ''/'' ts)"
proof -
  have split: "split_slash (join_text ''/'' ts) = ts" if "ts \<noteq> []"
    using join_split [of ts "\<lambda>c. c = CHR ''/''"] assms that by auto
  show "\<not> has_prefix ''../'' (join_text ''/'' ts)"
  proof
    assume up: "has_prefix ''../'' (join_text ''/'' ts)"
    then obtain r where r: "join_text ''/'' ts = ''../'' @ r" by (metis append_take_drop_id has_prefix_def)
    then have "ts \<noteq> []" by auto
    have "split_slash (''..'' @ CHR ''/'' # r) = [''..''] @ split_slash r" by (subst split_at_append) simp_all
    with split [OF \<open>ts \<noteq> []\<close>] have "''..'' \<in> set ts" unfolding r by (simp del: split_at.simps)
    with assms show False by (auto simp: plain_def)
  qed
  show "join_text ''/'' ts \<noteq> ''..''"
  proof
    assume up: "join_text ''/'' ts = ''..''"
    then have "ts \<noteq> []" by auto
    from split [OF this] have "ts = [''..'']" unfolding up by simp
    with assms show False by (simp add: plain_def)
  qed
  show "\<not> has_prefix ''/'' (join_text ''/'' ts)"
    using assms by (cases ts rule: list.exhaust [case_names nil cons]; cases "tl ts"; cases "hd ts") (auto simp: has_prefix_def plain_def)
qed

lemma inside_segments: "path_inside root target \<longleftrightarrow> (\<exists>ts. host_segments target = host_segments root @ ts)"
proof
  assume "\<exists>ts. host_segments target = host_segments root @ ts"
  then obtain ts where ts: "host_segments target = host_segments root @ ts" by blast
  then have "\<forall>s \<in> set ts. plain s \<and> CHR ''/'' \<notin> set s" using host_segments_plain [of _ target] by simp
  from join_plain [OF this] show "path_inside root target"
    by (simp add: path_inside_def path_relative_def ts relative_below)
next
  assume inside: "path_inside root target"
  show "\<exists>ts. host_segments target = host_segments root @ ts"
  proof (rule ccontr)
    assume "\<not> ?thesis"
    then obtain us where "relative_segments (host_segments root) (host_segments target) = ''..'' # us"
      using relative_outside [of "host_segments target" "host_segments root"] host_segments_plain [of _ target]
      by (auto simp: plain_def)
    with join_up [of us] inside show False by (auto simp: path_inside_def path_relative_def has_prefix_def)
  qed
qed

text \<open>
  C36: What is resolved stays inside: a result names a root of the caller with a capability of the mode, and its
  canonical path, whatever links the file system has, is the canonical root or below it; the test of
  inside by a relative path is the prefix relation of the resolved segments. On reading and running the
  canonical path is the real path of the candidate, on writing that or a new name in a real directory.
\<close>

theorem resolved_path_stays_inside:
  assumes "resolveCapabilityPath realpath logicalPath roots mode = Inr res"
  shows "\<exists>root \<in> set roots. \<exists>canonicalRoot ts.
    rv_rootId res = pr_rootId root \<and> (\<exists>c \<in> set (capabilityFor mode). c \<in> set (pr_capabilities root)) \<and>
    realpath 0 (pr_hostRoot root) = Inr canonicalRoot \<and>
    host_segments (rv_canonicalHostPath res) = host_segments canonicalRoot @ ts \<and>
    (realpath 1 (rv_hostPath res) = Inr (rv_canonicalHostPath res) \<or>
     mode = WriteAccess \<and>
       (\<exists>parent. realpath 2 (path_dirname (rv_hostPath res)) = Inr parent \<and>
         rv_canonicalHostPath res = resolve_host parent [path_basename (rv_hostPath res)]))"
proof -
  let ?logical = "squeeze (CHR ''/'' # slashed logicalPath)"
  obtain root p where found: "find (\<lambda>c. \<not> (windows_drive_path ?logical \<and> snd c = ''/'') \<and> prefixMatches ?logical (snd c))
      (by_length (path_candidates roots)) = Some (root, p)"
    using assms by (auto simp: resolveCapabilityPath_def Let_def split: option.splits)
  then have "(root, p) \<in> set (by_length (path_candidates roots))" by (auto simp: find_Some_iff)
  then have "(root, p) \<in> set (path_candidates roots)" by (simp add: by_length_def)
  then have root: "root \<in> set roots" by (auto simp: path_candidates_def Let_def split: if_splits)
  from assms found obtain canonicalRoot where res:
    "list_ex (\<lambda>c. c \<in> set (pr_capabilities root)) (capabilityFor mode)" "rv_rootId res = pr_rootId root"
    "realpath 0 (pr_hostRoot root) = Inr canonicalRoot" "path_inside canonicalRoot (rv_canonicalHostPath res)"
    "canonicalExistingOrParent realpath (rv_hostPath res) mode = Inr (rv_canonicalHostPath res)"
    by (auto simp: resolveCapabilityPath_def Let_def split: if_splits sum.splits)
  from res(5) have "realpath 1 (rv_hostPath res) = Inr (rv_canonicalHostPath res) \<or>
     mode = WriteAccess \<and>
       (\<exists>parent. realpath 2 (path_dirname (rv_hostPath res)) = Inr parent \<and>
         rv_canonicalHostPath res = resolve_host parent [path_basename (rv_hostPath res)])"
    by (cases mode) (auto simp: canonicalExistingOrParent_def split: sum.splits if_splits)
  moreover obtain ts where "host_segments (rv_canonicalHostPath res) = host_segments canonicalRoot @ ts"
    using res(4) inside_segments by blast
  moreover have "\<exists>c \<in> set (capabilityFor mode). c \<in> set (pr_capabilities root)" using res(1) by (simp add: list_ex_iff)
  ultimately show ?thesis using root res(2,3) by blast
qed

section \<open>Witnesses\<close>

definition demo_realpath :: "nat \<Rightarrow> string \<Rightarrow> string + string" where
  "demo_realpath k p = (if p = ''/w/link'' then Inr ''/etc'' else if p = ''/w/new'' then Inl ''ENOENT'' else Inr p)"

definition demo_roots :: "path_root list" where
  "demo_roots = [\<lparr>pr_rootId = ''r'', pr_logicalPrefix = ''/'', pr_hostRoot = ''/w'', pr_capabilities = [''files.read'', ''files.write'']\<rparr>]"

lemmas demo_path_simps = resolveCapabilityPath_def demo_roots_def demo_realpath_def path_candidates_def by_length_def
  normalizePrefix_def slashed_def cut_suffix_def has_suffix_def has_prefix_def prefixMatches_def windows_drive_path_def is_drive_def
  capabilityFor_def resolve_host_def host_segments_def host_step_def path_of_def canonicalExistingOrParent_def path_dirname_def
  path_basename_def path_inside_def path_relative_def Let_def

lemma demo_link_refused: "resolveCapabilityPath demo_realpath ''/link'' demo_roots ReadAccess = Inl (WorkspaceEscape ''/link'')"
  by (simp add: demo_path_simps)

theorem resolved_path_stays_inside_witness:
  "\<exists>res. resolveCapabilityPath demo_realpath ''new'' demo_roots WriteAccess = Inr res \<and>
     (\<exists>canonicalRoot ts. host_segments (rv_canonicalHostPath res) = host_segments canonicalRoot @ ts)"
proof -
  have "\<exists>res. resolveCapabilityPath demo_realpath ''new'' demo_roots WriteAccess = Inr res"
    by (simp add: demo_path_simps)
  then obtain res where res: "resolveCapabilityPath demo_realpath ''new'' demo_roots WriteAccess = Inr res" by blast
  from resolved_path_stays_inside [OF res] show ?thesis using res by blast
qed

end
