(* ===== verification/GitArguments.thy ===== *)
theory GitArguments
  imports PathGuards
begin

text \<open>
  packages/security/src/git-arguments.ts on POSIX: which arguments an agent may hand to \<open>git diff\<close>, \<open>git log\<close>, \<open>git
  branch\<close> and \<open>git commit\<close>. An argument that is refused stops the command.
\<close>

section \<open>The arguments\<close>

datatype git_kind = GitDiff | GitLog | GitBranch

definition workspacePathspec :: "string \<Rightarrow> bool" where
  "workspacePathspec v \<longleftrightarrow>
     (let n = slashed v in
      \<not> (v = [] \<or> has_prefix '':'' n \<or> has_prefix ''/'' v \<or> is_drive (take 2 v) \<or> ''..'' \<in> set (split_slash n) \<or>
         list_ex (\<lambda>c. c = CHR 0x00 \<or> c = CHR 0x0D \<or> c = CHR 0x0A) v))"

definition decimal_digit :: "char \<Rightarrow> bool" where
  "decimal_digit c = (let n = of_char c :: nat in 48 \<le> n \<and> n \<le> 57)"

definition revision_char :: "char \<Rightarrow> bool" where
  "revision_char c \<longleftrightarrow> ascii_letter c \<or> decimal_digit c \<or> c \<in> set ''_./~^{}+@*-''"

definition REVISION :: "string \<Rightarrow> bool" where
  "REVISION s = (case s of [] \<Rightarrow> False | c # r \<Rightarrow> (ascii_letter c \<or> decimal_digit c) \<and> list_all revision_char r)"

text \<open>\<open>^\d{1,n}$\<close>, and the same after one of several prefixes.\<close>

definition digits :: "nat \<Rightarrow> string \<Rightarrow> bool" where
  "digits n s \<longleftrightarrow> s \<noteq> [] \<and> length s \<le> n \<and> list_all decimal_digit s"

definition digits_after :: "string list \<Rightarrow> nat \<Rightarrow> string \<Rightarrow> bool" where
  "digits_after ps n s = list_ex (\<lambda>p. has_prefix p s \<and> digits n (drop (length p) s)) ps"

definition COMMON :: "string list" where
  "COMMON = [''-p'', ''--patch'', ''--stat'', ''--shortstat'', ''--numstat'', ''--name-only'', ''--name-status'',
     ''--no-patch'', ''--no-color'', ''--color=never'', ''--no-renames'']"

definition branch_options :: "string list" where
  "branch_options = [''--list'', ''--all'', ''-a'', ''--remotes'', ''-r'', ''--show-current'', ''--no-color'', ''--color=never'', ''-v'', ''-vv'']"

definition diff_options :: "string list" where
  "diff_options = [''--cached'', ''--staged'', ''--check'']"

definition log_options :: "string list" where
  "log_options = [''--oneline'', ''--all'', ''--first-parent'', ''--reverse'', ''--no-merges'', ''--merges'']"

definition selector :: "string \<Rightarrow> bool" where
  "selector arg \<longleftrightarrow> contains_text [CHR ''@'', CHR 0x7B] arg"

text \<open>One argument that stands alone, before the separator.\<close>

definition read_option :: "git_kind \<Rightarrow> string \<Rightarrow> bool" where
  "read_option kind arg \<longleftrightarrow>
     arg \<in> set COMMON \<or> (kind = GitDiff \<and> arg \<in> set diff_options) \<or> (kind = GitLog \<and> arg \<in> set log_options) \<or>
     (kind = GitLog \<and> digits_after [''-''] 6 arg)"

definition read_count :: "git_kind \<Rightarrow> string \<Rightarrow> bool" where
  "read_count kind arg \<longleftrightarrow> digits_after [''-U'', ''--unified=''] 4 arg \<or> (kind = GitLog \<and> digits_after [''-n'', ''--max-count=''] 6 arg)"

fun read_args :: "git_kind \<Rightarrow> bool \<Rightarrow> bool \<Rightarrow> string list \<Rightarrow> bool" where
  "read_args kind paths patterns [] = True"
| "read_args kind paths patterns (arg # args) =
     (if paths then workspacePathspec arg \<and> read_args kind paths patterns args
      else if arg = ''--'' then kind \<noteq> GitBranch \<and> read_args kind True patterns args
      else if kind = GitBranch then
        (if arg \<in> set branch_options then read_args kind paths (patterns \<or> arg = ''--list'') args
         else patterns \<and> REVISION arg \<and> read_args kind paths patterns args)
      else if read_option kind arg then read_args kind paths patterns args
      else if kind = GitLog \<and> (arg = ''-n'' \<or> arg = ''--max-count'') then
        (case args of [] \<Rightarrow> False | n # rest \<Rightarrow> digits 6 n \<and> read_args kind paths patterns rest)
      else if read_count kind arg then read_args kind paths patterns args
      else REVISION arg \<and> \<not> selector arg \<and> read_args kind paths patterns args)"

definition validateGitReadArgs :: "git_kind \<Rightarrow> string list \<Rightarrow> string list option" where
  "validateGitReadArgs kind args = (if read_args kind False False args then Some args else None)"

section \<open>The selection of a commit\<close>

record commit_selection =
  cs_paths :: "string list"
  cs_includeAll :: bool

definition commit_options :: "string list" where
  "commit_options = [''--quiet'', ''--amend'', ''--no-edit'', ''--allow-empty'', ''--allow-empty-message'', ''--no-verify'',
     ''--signoff'', ''-s'', ''--reset-author'']"

definition all_or_quiet :: "string \<Rightarrow> bool" where
  "all_or_quiet arg \<longleftrightarrow> has_prefix ''-'' arg \<and> drop 1 arg \<noteq> [] \<and> list_all (\<lambda>c. c = CHR ''a'' \<or> c = CHR ''q'') (drop 1 arg)"

fun commit_args :: "bool \<Rightarrow> string list \<Rightarrow> commit_selection \<Rightarrow> commit_selection option" where
  "commit_args after [] sel = Some sel"
| "commit_args after (arg # args) sel =
     (if arg = ''--'' then commit_args True args sel
      else if after \<or> \<not> has_prefix ''-'' arg then
        (if workspacePathspec arg then commit_args after args (sel\<lparr>cs_paths := cs_paths sel @ [arg]\<rparr>) else None)
      else if arg = ''--all'' \<or> all_or_quiet arg then
        commit_args after args (sel\<lparr>cs_includeAll := cs_includeAll sel \<or> arg = ''--all'' \<or> CHR ''a'' \<in> set arg\<rparr>)
      else if arg \<in> set commit_options then commit_args after args sel
      else None)"

definition commitSelection :: "string list \<Rightarrow> commit_selection option" where
  "commitSelection args = commit_args False args \<lparr>cs_paths = [], cs_includeAll = False\<rparr>"

section \<open>What gets through\<close>

text \<open>A path that names nothing above the directory it starts in.\<close>

definition stays_below :: "string \<Rightarrow> bool" where
  "stays_below v \<longleftrightarrow> (\<forall>above. \<exists>below. foldl path_step above (split_slash (slashed v)) = above @ below)"

lemma stays_below_pathspec: "workspacePathspec v \<Longrightarrow> stays_below v"
proof -
  assume "workspacePathspec v"
  then have "''..'' \<notin> set (split_slash (slashed v))" by (simp add: workspacePathspec_def Let_def)
  moreover have "\<exists>below. foldl path_step above xs = above @ below" if "''..'' \<notin> set xs" for above xs
    using that
  proof (induction xs arbitrary: above)
    case (Cons x xs)
    from Cons.IH [of "path_step above x"] Cons.prems show ?case by (auto simp: path_step_def split: if_splits)
  qed simp
  ultimately show ?thesis by (simp add: stays_below_def)
qed

text \<open>What one accepted argument is.\<close>

definition harmless :: "git_kind \<Rightarrow> string \<Rightarrow> bool" where
  "harmless kind arg \<longleftrightarrow>
     arg = ''--'' \<or> (kind = GitBranch \<and> arg \<in> set branch_options) \<or>
     (kind \<noteq> GitBranch \<and> (read_option kind arg \<or> read_count kind arg)) \<or>
     (kind = GitLog \<and> (arg = ''-n'' \<or> arg = ''--max-count'' \<or> digits 6 arg)) \<or>
     (REVISION arg \<and> (kind \<noteq> GitBranch \<longrightarrow> \<not> selector arg))"

lemma read_args_split:
  "read_args kind False patterns args \<Longrightarrow>
   \<exists>front rear. args = front @ rear \<and> list_all (harmless kind) front \<and>
     (rear = [] \<or> kind \<noteq> GitBranch \<and> (\<exists>paths. rear = ''--'' # paths \<and> list_all workspacePathspec paths))"
proof (induction args arbitrary: patterns rule: length_induct)
  case (1 args)
  note step = 1(1) [rule_format]
  show ?case
  proof (cases args)
    case (Cons arg rest)
    have more: ?thesis if ok: "harmless kind arg" "read_args kind False p rest" for p
    proof -
      obtain front rear where fb: "rest = front @ rear" "list_all (harmless kind) front"
        "rear = [] \<or> kind \<noteq> GitBranch \<and> (\<exists>paths. rear = ''--'' # paths \<and> list_all workspacePathspec paths)"
        using step [of rest p] ok(2) Cons by auto
      with ok(1) Cons have "args = (arg # front) @ rear" "list_all (harmless kind) (arg # front)" by simp_all
      with fb(3) show ?thesis by blast
    qed
    consider (sep) "arg = ''--''" | (branch) "arg \<noteq> ''--''" "kind = GitBranch"
      | (option) "arg \<noteq> ''--''" "kind \<noteq> GitBranch" "read_option kind arg"
      | (count) "arg \<noteq> ''--''" "\<not> read_option kind arg" "kind = GitLog" "arg = ''-n'' \<or> arg = ''--max-count''"
      | (last) "arg \<noteq> ''--''" "kind \<noteq> GitBranch" "\<not> read_option kind arg" "\<not> (kind = GitLog \<and> (arg = ''-n'' \<or> arg = ''--max-count''))"
      by blast
    then show ?thesis
    proof cases
      case sep
      have all: "read_args kind True q ps \<Longrightarrow> list_all workspacePathspec ps" for q ps by (induction ps) simp_all
      have "kind \<noteq> GitBranch" "list_all workspacePathspec rest" using 1(2) sep all by (auto simp: Cons)
      then have "args = [] @ ''--'' # rest" "list_all (harmless kind) []" using sep Cons by simp_all
      with \<open>kind \<noteq> GitBranch\<close> \<open>list_all workspacePathspec rest\<close> show ?thesis by blast
    next
      case branch
      then show ?thesis using 1(2) more by (auto simp: Cons harmless_def split: if_splits)
    next
      case option
      then show ?thesis using 1(2) more by (simp add: Cons harmless_def)
    next
      case count
      then obtain n rest' where n: "rest = n # rest'" "digits 6 n" "read_args kind False patterns rest'"
        using 1(2) by (auto simp: Cons split: list.splits)
      obtain front rear where fb: "rest' = front @ rear" "list_all (harmless kind) front"
        "rear = [] \<or> kind \<noteq> GitBranch \<and> (\<exists>paths. rear = ''--'' # paths \<and> list_all workspacePathspec paths)"
        using step [of rest' patterns] n Cons by auto
      have "harmless kind arg" "harmless kind n" using count n(2) by (auto simp: harmless_def)
      with fb Cons n(1) have "args = (arg # n # front) @ rear" "list_all (harmless kind) (arg # n # front)" by simp_all
      with fb(3) show ?thesis by blast
    next
      case last
      then show ?thesis using 1(2) more by (auto simp: Cons harmless_def split: if_splits)
    qed
  qed simp
qed


lemma revision_plain: "REVISION arg \<Longrightarrow> \<not> has_prefix ''-'' arg \<and> CHR '':'' \<notin> set arg \<and> CHR '' '' \<notin> set arg"
  by (cases arg) (auto simp: REVISION_def has_prefix_def list_all_iff revision_char_def ascii_letter_def decimal_digit_def Let_def)

lemma commit_paths_below:
  "commit_args after args sel = Some sel' \<Longrightarrow> list_all stays_below (cs_paths sel) \<Longrightarrow> list_all stays_below (cs_paths sel')"
  by (induction after args sel rule: commit_args.induct) (auto simp: stays_below_pathspec split: if_splits)

section \<open>Witness\<close>


end
