(* ===== verification/WindowGate.thy ===== *)
theory WindowGate
  imports TextPatterns
begin

text \<open>
  packages/security/src/window-gate.ts: which desktop windows a caller may see or drive. A policy lists
  applications to allow or to deny; a window is judged by what the operating system reports of it.
  \<open>toLowerCase\<close> is the parameter \<open>lower\<close>.
\<close>

section \<open>Identities and policies\<close>

datatype gate_mode = Allowlist | Denylist
datatype gate_direction = Capture | Input | Background

record window_identity =
  wi_windowId :: string
  wi_processName :: "string option"
  wi_executablePath :: "string option"
  wi_title :: "string option"

record app_grant =
  gr_executablePath :: string
  gr_sessionId :: "string option"

record desktop_policy =
  dp_mode :: gate_mode
  dp_applications :: "string list"
  dp_unattributedAllow :: bool
  dp_deniedTitles :: "string list option"
  dp_grants :: "app_grant list option"

record window_host =
  wh_windowId :: string
  wh_executablePath :: string

record target_identity =
  ti_window :: window_identity
  ti_host :: "window_host option"

record gate_verdict =
  gv_allowed :: bool
  gv_reason :: string
  gv_attributed :: bool

section \<open>Names\<close>

abbreviation slash :: "char \<Rightarrow> bool" where
  "slash c \<equiv> c = CHR 0x5C \<or> c = CHR ''/''"

definition basename :: "string \<Rightarrow> string" where
  "basename p = last (split_at slash (rev (dropWhile slash (rev p))))"

definition presentFields :: "(string \<Rightarrow> string) \<Rightarrow> window_identity \<Rightarrow> string list" where
  "presentFields lower w =
     (if js_truthy_text (wi_processName w) then [lower (the (wi_processName w))] else []) @
     (if js_truthy_text (wi_executablePath w) then
        (let base = lower (basename (the (wi_executablePath w))) in if base \<noteq> [] then [base] else [])
      else [])"

definition attributed :: "(string \<Rightarrow> string) \<Rightarrow> window_identity \<Rightarrow> bool" where
  "attributed lower w \<longleftrightarrow> presentFields lower w \<noteq> []"

definition listed :: "(string \<Rightarrow> string) \<Rightarrow> window_identity \<Rightarrow> desktop_policy \<Rightarrow> bool" where
  "listed lower w pol =
     (let fields = presentFields lower w; applications = map lower (dp_applications pol) in
      if fields = [] then False
      else if dp_mode pol = Denylist then list_ex (\<lambda>f. f \<in> set applications) fields
      else list_all (\<lambda>f. f \<in> set applications) fields)"

section \<open>Titles\<close>

definition browser_names :: "string list" where
  "browser_names = [''google chrome'', ''chromium'', ''microsoft edge'', ''mozilla firefox'', ''firefox'', ''brave'', ''opera'', ''safari'']"

text \<open>The class of separators, as the file has it: hyphen, the replacement character (twice), bar.\<close>

definition title_separators :: "string list" where
  "title_separators = [''-'', [CHR 0xEF, CHR 0xBF, CHR 0xBD], ''|'']"

definition after_one_of :: "string list \<Rightarrow> (string \<Rightarrow> bool) \<Rightarrow> string \<Rightarrow> bool" where
  "after_one_of words rest s \<longleftrightarrow> list_ex (\<lambda>w. has_prefix w s \<and> rest (drop (length w) s)) words"

definition browser_suffix :: "string \<Rightarrow> bool" where
  "browser_suffix s \<longleftrightarrow>
     list_ex (\<lambda>(w1, r1). white w1 \<and>
       after_one_of title_separators (\<lambda>r2.
         list_ex (\<lambda>(w2, r3). white w2 \<and>
           after_one_of browser_names (\<lambda>r4.
             r4 = [] \<or> list_ex (\<lambda>(w3, r5). white w3 \<and> dot_run r5) (splits r4)) r3) (splits r2)) r1) (splits s)"

text \<open>\<open>replace(..., '')\<close>: the leftmost match reaches to the end.\<close>

definition cut_browser :: "string \<Rightarrow> string" where
  "cut_browser s = (case find (\<lambda>(a, b). browser_suffix b) (splits s) of None \<Rightarrow> s | Some (a, b) \<Rightarrow> a)"

definition isProtectedDesktopTitle :: "(string \<Rightarrow> string) \<Rightarrow> window_identity \<Rightarrow> desktop_policy \<Rightarrow> bool" where
  "isProtectedDesktopTitle lower w pol =
     (case wi_title w of
        None \<Rightarrow> False
      | Some t \<Rightarrow>
          (let title = js_trim (cut_browser (lower t)) in
           title \<noteq> [] \<and> (case dp_deniedTitles pol of None \<Rightarrow> False | Some ps \<Rightarrow> list_ex (\<lambda>p. title = lower p) ps)))"

section \<open>The gate of a window\<close>

definition gate_answer :: "bool \<Rightarrow> string \<Rightarrow> bool \<Rightarrow> gate_verdict" where
  "gate_answer ok why att = \<lparr>gv_allowed = ok, gv_reason = why, gv_attributed = att\<rparr>"

definition gate_mode_text :: "gate_mode \<Rightarrow> string" where
  "gate_mode_text m = (case m of Allowlist \<Rightarrow> ''allowlist'' | Denylist \<Rightarrow> ''denylist'')"

definition evaluateWindowGate :: "(string \<Rightarrow> string) \<Rightarrow> window_identity \<Rightarrow> desktop_policy \<Rightarrow> gate_direction \<Rightarrow> gate_verdict" where
  "evaluateWindowGate lower w pol dir =
     (if \<not> attributed lower w then
        (if dir = Background \<or> dir = Capture then gate_answer False ''window identity is unavailable for background target'' False
         else if dp_unattributedAllow pol then gate_answer True ''unattributedInput is set to allow'' False
         else gate_answer False ''window identity is unavailable'' False)
      else
        (let baseAllowed = (if dp_mode pol = Allowlist then listed lower w pol else \<not> listed lower w pol) in
         if baseAllowed \<and> isProtectedDesktopTitle lower w pol then
           gate_answer False ''refused by deniedTitlePatterns (defense in depth only - window titles are attacker-influenceable)'' True
         else gate_answer baseAllowed
           ((if baseAllowed then ''permitted by '' else ''refused by '') @ gate_mode_text (dp_mode pol)) True))"

section \<open>Grants and hosts\<close>

definition unc_prefix :: "string \<Rightarrow> bool" where
  "unc_prefix s \<longleftrightarrow> take 4 s = [CHR 0x5C, CHR 0x5C, CHR ''?'', CHR 0x5C] \<and>
     map (\<lambda>c. if CHR ''a'' \<le> c \<and> c \<le> CHR ''z'' then char_of (of_char c - 32 :: nat) else c) (take 3 (drop 4 s)) = ''UNC'' \<and>
     take 1 (drop 7 s) = [CHR 0x5C]"

definition canonicalExecutablePath :: "(string \<Rightarrow> string) \<Rightarrow> string \<Rightarrow> string" where
  "canonicalExecutablePath lower v =
     (let n0 = map (\<lambda>c. if c = CHR ''/'' then CHR 0x5C else c) (js_trim v);
          n1 = (if unc_prefix n0 then [CHR 0x5C, CHR 0x5C] @ drop 8 n0
                else if take 4 n0 = [CHR 0x5C, CHR 0x5C, CHR ''?'', CHR 0x5C] then drop 4 n0 else n0) in
      lower (rev (dropWhile (\<lambda>c. c = CHR 0x5C) (rev n1))))"

definition isSharedWebViewRuntime :: "(string \<Rightarrow> string) \<Rightarrow> window_identity \<Rightarrow> bool" where
  "isSharedWebViewRuntime lower w \<longleftrightarrow>
     map_option lower (wi_processName w) = Some ''msedgewebview2.exe'' \<or>
     (js_truthy_text (wi_executablePath w) \<and> lower (basename (the (wi_executablePath w))) = ''msedgewebview2.exe'')"

definition hasExactGrant :: "(string \<Rightarrow> string) \<Rightarrow> string option \<Rightarrow> desktop_policy \<Rightarrow> string option \<Rightarrow> bool" where
  "hasExactGrant lower path pol sessionId =
     (js_truthy_text path \<and>
      (let identity = canonicalExecutablePath lower (the path) in
       identity \<noteq> [] \<and>
       (case dp_grants pol of
          None \<Rightarrow> False
        | Some gs \<Rightarrow> list_ex (\<lambda>g. (gr_sessionId g = None \<or> gr_sessionId g = sessionId) \<and>
            canonicalExecutablePath lower (gr_executablePath g) = identity) gs)))"

definition host_window :: "window_identity \<Rightarrow> window_host \<Rightarrow> window_identity" where
  "host_window target host =
     \<lparr>wi_windowId = wh_windowId host, wi_processName = Some (basename (wh_executablePath host)),
      wi_executablePath = Some (wh_executablePath host),
      wi_title = (if js_truthy_text (wi_title target) then wi_title target else None)\<rparr>"

definition evaluateDesktopTargetGate ::
    "(string \<Rightarrow> string) \<Rightarrow> target_identity \<Rightarrow> desktop_policy \<Rightarrow> gate_direction \<Rightarrow> string option \<Rightarrow> gate_verdict" where
  "evaluateDesktopTargetGate lower ident pol dir sessionId =
     (let target = ti_window ident; tv = evaluateWindowGate lower target pol dir in
      if dp_mode pol = Denylist then
        (if \<not> gv_allowed tv then tv
         else (case (isSharedWebViewRuntime lower target, ti_host ident) of
             (True, Some host) \<Rightarrow>
               (let hv = evaluateWindowGate lower (host_window target host) pol dir in
                if \<not> gv_allowed hv then
                  hv\<lparr>gv_reason := ''refused by denylist (verified host '' @ basename (wh_executablePath host) @ '')''\<rparr>
                else tv)
           | _ \<Rightarrow> tv))
      else if \<not> gv_allowed tv then
        (if isProtectedDesktopTitle lower target pol then tv
         else if isSharedWebViewRuntime lower target then
           (case ti_host ident of
              None \<Rightarrow> tv\<lparr>gv_reason := ''WebView2 host could not be verified; no host grant applies''\<rparr>
            | Some host \<Rightarrow>
                if hasExactGrant lower (Some (wh_executablePath host)) pol sessionId
                then gate_answer True ''permitted by exact-path grant for verified host application'' (gv_attributed tv)
                else tv\<lparr>gv_reason := ''refused by allowlist (verified host has no exact-path grant)''\<rparr>)
         else if hasExactGrant lower (wi_executablePath target) pol sessionId
         then gate_answer True ''permitted by exact-path application grant'' (gv_attributed tv)
         else tv)
      else tv)"

section \<open>What the gate lets through\<close>

lemma gate_answer_sel [simp]: "gv_allowed (gate_answer ok why att) = ok" "gv_attributed (gate_answer ok why att) = att"
  by (simp_all add: gate_answer_def)

lemma window_allowed:
  "gv_allowed (evaluateWindowGate lower w pol dir) \<longleftrightarrow>
     (if attributed lower w then listed lower w pol = (dp_mode pol = Allowlist) \<and> \<not> isProtectedDesktopTitle lower w pol
      else dir = Input \<and> dp_unattributedAllow pol)"
  by (cases dir; cases "dp_mode pol") (auto simp: evaluateWindowGate_def Let_def)

text \<open>The base name keeps the last character that is no separator.\<close>

lemma split_at_snoc_all:
  "\<not> sep c \<Longrightarrow> split_at sep (s @ [c]) = butlast (split_at sep s) @ [last (split_at sep s) @ [c]]"
proof (induction s)
  case (Cons d s)
  then show ?case by (cases "split_at sep s") auto
qed simp

lemma split_at_snoc: "\<not> sep c \<Longrightarrow> last (split_at sep (s @ [c])) = last (split_at sep s) @ [c]"
  by (simp add: split_at_snoc_all)

lemma basename_empty: "basename p = [] \<Longrightarrow> \<forall>c \<in> set p. slash c"
proof -
  assume empty: "basename p = []"
  obtain t where t: "rev (dropWhile slash (rev p)) = t" by blast
  have "t = []"
  proof (cases t rule: rev_cases)
    case (snoc u c)
    then have "dropWhile slash (rev p) = c # rev u" using arg_cong [OF t, of rev] by simp
    then have "\<not> slash c" using hd_dropWhile [of slash "rev p"] by simp
    with split_at_snoc [of slash c u] empty show ?thesis by (simp add: basename_def t snoc)
  qed
  then have "dropWhile slash (rev p) = []" using t by simp
  then show ?thesis by (auto simp: dropWhile_eq_Nil_conv)
qed

lemma white_no_slash: "w \<in> set white_points \<Longrightarrow> w \<noteq> [] \<and> \<not> slash (hd w) \<and> \<not> slash (last w)"
  by (auto simp: white_points_def line_terminators_def)

lemma slash_no_white: "w \<in> set white_points \<Longrightarrow> \<forall>c \<in> set p. slash c \<Longrightarrow> \<not> has_prefix w p \<and> \<not> has_prefix (rev w) (rev p)"
proof -
  assume w: "w \<in> set white_points" and p: "\<forall>c \<in> set p. slash c"
  have "\<not> has_prefix v q" if "v \<noteq> []" "\<not> slash (hd v)" "\<forall>c \<in> set q. slash c" for v q
    using that by (cases v; cases q) (auto simp: has_prefix_def)
  from this [of w p] this [of "rev w" "rev p"] show ?thesis
    using white_no_slash [OF w] p by (auto simp: hd_rev)
qed

lemma trim_slashes: "(\<forall>c \<in> set p. slash c) \<Longrightarrow> js_trim p = p"
proof -
  assume slashes: "\<forall>c \<in> set p. slash c"
  have "find (\<lambda>w. has_prefix w p) white_points = None"
    using slash_no_white [OF _ slashes] by (auto simp: find_None_iff)
  then have "skip_white p = p" by (subst skip_white.simps) (simp add: leading_white_def)
  moreover have "find (\<lambda>w. w \<noteq> [] \<and> has_prefix (rev w) (rev p)) white_points = None"
    using slash_no_white [OF _ slashes] by (auto simp: find_None_iff)
  then have "trim_end p = p" by (subst trim_end.simps) simp
  ultimately show ?thesis by (simp add: js_trim_def)
qed

lemma no_grant_for_slashes:
  assumes "\<forall>c \<in> set p. slash c" "lower [] = []"
  shows "\<not> hasExactGrant lower (Some p) pol sessionId"
proof -
  have turned: "map (\<lambda>c. if c = CHR ''/'' then CHR 0x5C else c) p = replicate (length p) (CHR 0x5C)"
    using assms(1) by (induction p) auto
  have device: "take 4 (replicate (length p) (CHR 0x5C)) \<noteq> [CHR 0x5C, CHR 0x5C, CHR ''?'', CHR 0x5C]"
  proof
    assume "take 4 (replicate (length p) (CHR 0x5C)) = [CHR 0x5C, CHR 0x5C, CHR ''?'', CHR 0x5C]"
    then have "CHR ''?'' \<in> set (take 4 (replicate (length p) (CHR 0x5C)))" by (simp del: take_replicate)
    then show False by (auto dest: in_set_takeD)
  qed
  then have "canonicalExecutablePath lower p = lower (rev (dropWhile (\<lambda>c. c = CHR 0x5C) (rev (replicate (length p) (CHR 0x5C)))))"
    by (simp add: canonicalExecutablePath_def Let_def trim_slashes [OF assms(1)] turned unc_prefix_def del: take_replicate rev_replicate)
  then have "canonicalExecutablePath lower p = []" using assms(2) by simp
  then show ?thesis by (simp add: hasExactGrant_def)
qed

section \<open>The gate of a target\<close>

definition granted :: "(string \<Rightarrow> string) \<Rightarrow> target_identity \<Rightarrow> desktop_policy \<Rightarrow> string option \<Rightarrow> bool" where
  "granted lower ident pol sessionId \<longleftrightarrow>
     (if isSharedWebViewRuntime lower (ti_window ident)
      then (\<exists>host. ti_host ident = Some host \<and> hasExactGrant lower (Some (wh_executablePath host)) pol sessionId)
      else hasExactGrant lower (wi_executablePath (ti_window ident)) pol sessionId)"

lemma target_allowed:
  "gv_allowed (evaluateDesktopTargetGate lower ident pol dir sessionId) \<longleftrightarrow>
     (if dp_mode pol = Denylist
      then gv_allowed (evaluateWindowGate lower (ti_window ident) pol dir) \<and>
        (\<forall>host. isSharedWebViewRuntime lower (ti_window ident) \<and> ti_host ident = Some host \<longrightarrow>
           gv_allowed (evaluateWindowGate lower (host_window (ti_window ident) host) pol dir))
      else gv_allowed (evaluateWindowGate lower (ti_window ident) pol dir) \<or>
        (\<not> isProtectedDesktopTitle lower (ti_window ident) pol \<and> granted lower ident pol sessionId))"
  by (cases "ti_host ident"; cases "isSharedWebViewRuntime lower (ti_window ident)")
    (auto simp: evaluateDesktopTargetGate_def granted_def Let_def split: if_splits)


text \<open>
  A title only takes away: what is allowed with protected titles is allowed without them, and a
  target whose own title is protected is not allowed, whatever lists, grants and hosts there are, unless
  nothing else is known of it.
\<close>

theorem titles_only_take_away:
  "(gv_allowed (evaluateDesktopTargetGate lower ident pol dir sessionId) \<longrightarrow>
     gv_allowed (evaluateDesktopTargetGate lower ident (pol\<lparr>dp_deniedTitles := None\<rparr>) dir sessionId)) \<and>
   (attributed lower (ti_window ident) \<and> isProtectedDesktopTitle lower (ti_window ident) pol \<longrightarrow>
     \<not> gv_allowed (evaluateDesktopTargetGate lower ident pol dir sessionId))"
proof -
  have none: "\<not> isProtectedDesktopTitle lower w (pol\<lparr>dp_deniedTitles := None\<rparr>)" for w
    by (simp add: isProtectedDesktopTitle_def Let_def split: option.split)
  have kept: "listed lower w (pol\<lparr>dp_deniedTitles := None\<rparr>) = listed lower w pol"
    "granted lower ident (pol\<lparr>dp_deniedTitles := None\<rparr>) sessionId = granted lower ident pol sessionId" for w
    by (simp_all add: listed_def granted_def hasExactGrant_def)
  have "gv_allowed (evaluateWindowGate lower w pol dir) \<Longrightarrow> gv_allowed (evaluateWindowGate lower w (pol\<lparr>dp_deniedTitles := None\<rparr>) dir)" for w
    by (auto simp: window_allowed kept none split: if_splits)
  then show ?thesis unfolding target_allowed by (auto simp: kept none window_allowed split: if_splits)
qed

section \<open>Cases worth knowing\<close>

definition demo_window :: "string \<Rightarrow> string \<Rightarrow> window_identity" where
  "demo_window process title = \<lparr>wi_windowId = ''1'', wi_processName = Some process, wi_executablePath = None, wi_title = Some title\<rparr>"

definition demo_policy :: "gate_mode \<Rightarrow> desktop_policy" where
  "demo_policy m = \<lparr>dp_mode = m, dp_applications = [], dp_unattributedAllow = True, dp_deniedTitles = Some [''aevra''], dp_grants = None\<rparr>"

lemma browser_suffix_separator:
  "browser_suffix s \<Longrightarrow> CHR ''-'' \<in> set s \<or> CHR ''|'' \<in> set s \<or> CHR 0xEF \<in> set s"
proof -
  assume "browser_suffix s"
  then obtain w1 r1 where "s = w1 @ r1" "after_one_of title_separators (\<lambda>r2.
         list_ex (\<lambda>(w2, r3). white w2 \<and>
           after_one_of browser_names (\<lambda>r4. r4 = [] \<or> list_ex (\<lambda>(w3, r5). white w3 \<and> dot_run r5) (splits r4)) r3) (splits r2)) r1"
    unfolding browser_suffix_def ex_splits by blast
  moreover from this(2) have "CHR ''-'' \<in> set r1 \<or> CHR ''|'' \<in> set r1 \<or> CHR 0xEF \<in> set r1"
    unfolding after_one_of_def title_separators_def by (cases r1) (auto simp: has_prefix_def)
  ultimately show ?thesis by auto
qed

lemma cut_browser_none:
  "CHR ''-'' \<notin> set s \<Longrightarrow> CHR ''|'' \<notin> set s \<Longrightarrow> CHR 0xEF \<notin> set s \<Longrightarrow> cut_browser s = s"
proof -
  assume free: "CHR ''-'' \<notin> set s" "CHR ''|'' \<notin> set s" "CHR 0xEF \<notin> set s"
  have "\<not> browser_suffix b" if "(a, b) \<in> set (splits s)" for a b
    using browser_suffix_separator [of b] free that by auto
  then have "find (\<lambda>(a, b). browser_suffix b) (splits s) = None" by (auto simp: find_None_iff simp del: splits_iff)
  then show ?thesis by (simp add: cut_browser_def)
qed

lemmas trim_eval = js_trim_def skip_white.simps trim_end.simps leading_white_def white_points_def line_terminators_def has_prefix_def

lemma demo_protected: "isProtectedDesktopTitle id (demo_window ''firefox'' ''aevra'') (demo_policy m)"
proof -
  have "js_trim (cut_browser ''aevra'') = ''aevra''" by (simp add: cut_browser_none) (simp add: trim_eval)
  then show ?thesis by (simp add: isProtectedDesktopTitle_def demo_window_def demo_policy_def)
qed

text \<open>The dashes that browsers put before their names have become replacement characters in the source: with an em dash the name stays.\<close>

lemma em_dash_title_not_protected:
  assumes "t = ''aevra '' @ [CHR 0xE2, CHR 0x80, CHR 0x94] @ '' mozilla firefox''"
  shows "\<not> isProtectedDesktopTitle id (demo_window ''firefox'' t) (demo_policy m)"
proof -
  have "js_trim (cut_browser t) = t" unfolding assms by (simp add: cut_browser_none) (simp add: trim_eval)
  then show ?thesis by (simp add: isProtectedDesktopTitle_def demo_window_def demo_policy_def assms)
qed

text \<open>An allowlist takes fields that match different entries.\<close>

lemma allowlist_mixes_entries:
  "gv_allowed (evaluateWindowGate id
     \<lparr>wi_windowId = ''1'', wi_processName = Some ''a.exe'', wi_executablePath = Some ''b.exe'', wi_title = None\<rparr>
     \<lparr>dp_mode = Allowlist, dp_applications = [''a.exe'', ''b.exe''], dp_unattributedAllow = False, dp_deniedTitles = None, dp_grants = None\<rparr> Input)"
  by (simp add: window_allowed attributed_def presentFields_def listed_def basename_def isProtectedDesktopTitle_def)

section \<open>Witnesses\<close>


theorem titles_only_take_away_witness:
  "\<not> gv_allowed (evaluateDesktopTargetGate id \<lparr>ti_window = demo_window ''firefox'' ''aevra'', ti_host = None\<rparr> (demo_policy Denylist) Input None)"
proof -
  have "attributed id (demo_window ''firefox'' ''aevra'')" by (simp add: attributed_def presentFields_def demo_window_def)
  with conjunct2 [OF titles_only_take_away [of id "\<lparr>ti_window = demo_window ''firefox'' ''aevra'', ti_host = None\<rparr>" "demo_policy Denylist" Input None]]
    demo_protected show ?thesis by simp
qed

end
