(* ===== verification/WorkspaceLocks.thy ===== *)
theory WorkspaceLocks
  imports Prelude
begin

text \<open>
  apps/core/src/policy/workspace-locks.ts: commands that would disturb each other in a workspace wait for each
  other. A caller of \<open>acquire\<close> tries at once and again whenever its timer fires; the coordinator has no
  queue. A request is an object and \<open>release\<close> compares objects, so calls are named by their index.
\<close>

section \<open>The coordinator\<close>

record lock_request =
  lk_operationId :: string
  lk_sessionId :: string
  lk_workspaceId :: string
  lk_effect :: string
  lk_outputKeys :: "string list"

definition lock_conflict :: "lock_request \<Rightarrow> lock_request \<Rightarrow> bool" where
  "lock_conflict a b =
     (if lk_workspaceId a \<noteq> lk_workspaceId b then False
      else if lk_effect a = ''READ_ONLY'' \<and> lk_effect b = ''READ_ONLY'' then False
      else if (lk_effect a = ''BUILD_OUTPUT'' \<and> lk_effect b = ''READ_ONLY'') \<or>
              (lk_effect b = ''BUILD_OUTPUT'' \<and> lk_effect a = ''READ_ONLY'') then False
      else if lk_effect a = ''BUILD_OUTPUT'' \<and> lk_effect b = ''BUILD_OUTPUT'' then
        list_ex (\<lambda>k. k \<in> set (lk_outputKeys b)) (lk_outputKeys a)
      else True)"

text \<open>The calls made so far, and those that hold their lock, in the order of \<open>active\<close>.\<close>

record coordinator =
  co_calls :: "lock_request list"
  co_active :: "nat list"

definition new_coordinator :: coordinator where
  "new_coordinator = \<lparr>co_calls = [], co_active = []\<rparr>"

definition lock_holder :: "nat \<Rightarrow> coordinator \<Rightarrow> nat option" where
  "lock_holder i co = find (\<lambda>j. lock_conflict (co_calls co ! i) (co_calls co ! j)) (co_active co)"

text \<open>One round of the loop of \<open>acquire\<close>: the holder it waits for, or the lock.\<close>

definition try_acquire :: "nat \<Rightarrow> coordinator \<Rightarrow> nat option \<times> coordinator" where
  "try_acquire i co =
     (case lock_holder i co of
        Some j \<Rightarrow> (Some j, co)
      | None \<Rightarrow> (None, co\<lparr>co_active := co_active co @ [i]\<rparr>))"

definition release_lock :: "nat \<Rightarrow> coordinator \<Rightarrow> coordinator" where
  "release_lock i co = co\<lparr>co_active := filter (\<lambda>j. j \<noteq> i) (co_active co)\<rparr>"

text \<open>A call begins, a waiting one tries again, a ticket is released. A call that returned tries no more.\<close>

inductive lock_step :: "coordinator \<Rightarrow> nat set \<Rightarrow> coordinator \<Rightarrow> nat set \<Rightarrow> bool" where
  begins: "co1 = co\<lparr>co_calls := co_calls co @ [req]\<rparr> \<Longrightarrow> i = length (co_calls co) \<Longrightarrow> try_acquire i co1 = (holder, co') \<Longrightarrow>
     lock_step co waiting co' (if holder = None then waiting else insert i waiting)"
| tries_again: "i \<in> waiting \<Longrightarrow> try_acquire i co = (holder, co') \<Longrightarrow>
     lock_step co waiting co' (if holder = None then waiting - {i} else waiting)"
| releases: "i \<in> set (co_active co) \<Longrightarrow> lock_step co waiting (release_lock i co) waiting"

inductive lock_reachable :: "coordinator \<Rightarrow> nat set \<Rightarrow> bool" where
  "lock_reachable new_coordinator {}"
| "lock_reachable co waiting \<Longrightarrow> lock_step co waiting co' waiting' \<Longrightarrow> lock_reachable co' waiting'"

inductive_cases lock_stepE: "lock_step co waiting co' waiting'"

section \<open>Exclusion\<close>

lemma lock_conflict_sym: "lock_conflict a b \<longleftrightarrow> lock_conflict b a"
  by (auto simp: lock_conflict_def list_ex_iff)

text \<open>The holders are calls that no longer wait, and no two of them conflict.\<close>

definition locks_ok :: "coordinator \<Rightarrow> nat set \<Rightarrow> bool" where
  "locks_ok co waiting \<longleftrightarrow>
     distinct (co_active co) \<and> set (co_active co) \<union> waiting \<subseteq> {..<length (co_calls co)} \<and> set (co_active co) \<inter> waiting = {} \<and>
     (\<forall>i \<in> set (co_active co). \<forall>j \<in> set (co_active co). i \<noteq> j \<longrightarrow> \<not> lock_conflict (co_calls co ! i) (co_calls co ! j))"

lemma try_acquire_cases:
  assumes "try_acquire i co = (holder, co')"
  obtains (waits) j where "holder = Some j" "co' = co" "j \<in> set (co_active co)" "lock_conflict (co_calls co ! i) (co_calls co ! j)"
  | (gets) "holder = None" "co' = co\<lparr>co_active := co_active co @ [i]\<rparr>"
      "\<And>j. j \<in> set (co_active co) \<Longrightarrow> \<not> lock_conflict (co_calls co ! i) (co_calls co ! j)"
proof (cases "lock_holder i co")
  case None
  then have "holder = None" "co' = co\<lparr>co_active := co_active co @ [i]\<rparr>" using assms by (simp_all add: try_acquire_def)
  moreover have "\<not> lock_conflict (co_calls co ! i) (co_calls co ! j)" if "j \<in> set (co_active co)" for j
    using None that by (simp add: lock_holder_def find_None_iff)
  ultimately show thesis by (rule gets)
next
  case (Some j)
  then have "holder = Some j" "co' = co" using assms by (simp_all add: try_acquire_def)
  moreover have "j \<in> set (co_active co)" "lock_conflict (co_calls co ! i) (co_calls co ! j)"
    using Some by (auto simp: lock_holder_def find_Some_iff)
  ultimately show thesis by (rule waits)
qed

lemma acquire_keeps_ok:
  assumes "locks_ok co waiting" "i < length (co_calls co)" "i \<notin> set (co_active co)" "try_acquire i co = (holder, co')"
  shows "locks_ok co' (if holder = None then waiting - {i} else insert i waiting)"
  using assms(4)
proof (cases rule: try_acquire_cases)
  case (waits j)
  then show ?thesis using assms(1-3) by (auto simp: locks_ok_def)
next
  case gets
  then show ?thesis using assms(1-3) lock_conflict_sym by (auto simp: locks_ok_def)
qed

lemma lock_step_ok: "lock_step co waiting co' waiting' \<Longrightarrow> locks_ok co waiting \<Longrightarrow> locks_ok co' waiting'"
proof (induction rule: lock_step.induct)
  case (begins co1 co req i holder co' waiting)
  have grown: "locks_ok co1 waiting"
    using begins(1,4) by (fastforce simp: locks_ok_def nth_append)
  have new: "i \<notin> waiting" "i \<notin> set (co_active co1)" "i < length (co_calls co1)"
    using begins(1,2,4) by (auto simp: locks_ok_def)
  from acquire_keeps_ok [OF grown new(3,2) begins(3)] new(1) show ?case by (cases holder) simp_all
next
  case (tries_again i waiting co holder co')
  then have "i < length (co_calls co)" "i \<notin> set (co_active co)" by (auto simp: locks_ok_def)
  from acquire_keeps_ok [OF tries_again(3) this tries_again(2)] tries_again(1) show ?case by (cases holder) (simp_all add: insert_absorb)
next
  case (releases i co waiting)
  then show ?case by (auto simp: locks_ok_def release_lock_def)
qed


section \<open>Cases worth knowing\<close>

definition demo_lock :: "string \<Rightarrow> string list \<Rightarrow> lock_request" where
  "demo_lock effect keys = \<lparr>lk_operationId = ''o'', lk_sessionId = ''s'', lk_workspaceId = ''w'', lk_effect = effect, lk_outputKeys = keys\<rparr>"

text \<open>
  Output keys are compared as texts: an install that writes \<open>node_modules\<close> and a test that writes
  \<open>node_modules/.cache\<close> (the keys of command-family.ts) run together.
\<close>

lemma nested_outputs_do_not_conflict:
  "\<not> lock_conflict (demo_lock ''BUILD_OUTPUT'' [''node_modules'', ''package-lock.json'', ''pnpm-lock.yaml'', ''yarn.lock''])
     (demo_lock ''BUILD_OUTPUT'' [''node_modules/.cache'', ''coverage''])"
  by (simp add: lock_conflict_def demo_lock_def)

section \<open>Witness\<close>


end
