(* ===== verification/OAuthStore.thy ===== *)
theory OAuthStore
  imports TextPatterns
begin

text \<open>
  packages/store/src/oauth.ts with oauth-authorization-store.ts, oauth-token-store.ts, oauth-connection-store.ts
  and oauth-maintenance.ts: the tables of the OAuth server as lists of rows, with their primary and foreign
  keys; rows stand in the order of their row ids. A stored date is its time in milliseconds. Every
  reading of the clock and every random identifier or secret is the next of a sequence the host gives, so
  the numbers of those drawn are part of the state. A statement the database refuses throws.
  The numbers of rows that pruning and trimming report are left out.
\<close>

section \<open>Tables\<close>

datatype request_status = RequestPending | RequestApproved | RequestDenied
datatype token_status = TokenActive | TokenSpent | TokenRevoked

record oauth_client =
  oc_clientId :: string
  oc_clientName :: string
  oc_redirectUris :: "string list"
  oc_createdAt :: int

record auth_request =
  ar_id :: string
  ar_clientId :: string
  ar_redirectUri :: string
  ar_scope :: string
  ar_resource :: string
  ar_codeChallenge :: string
  ar_state :: "string option"
  ar_remoteIp :: "string option"
  ar_pairingCode :: string
  ar_status :: request_status
  ar_renewable :: bool
  ar_createdAt :: int
  ar_expiresAt :: int
  ar_decidedAt :: "int option"

record oauth_grant =
  og_clientId :: string
  og_actor :: string
  og_subject :: string
  og_scope :: string
  og_resource :: string
  og_renewable :: "bool option"

text \<open>Only a code stores whether its grant is renewable.\<close>

definition stored_grant :: "oauth_grant \<Rightarrow> oauth_grant" where
  "stored_grant g = g\<lparr>og_renewable := None\<rparr>"

record code_row =
  cd_hash :: string
  cd_grant :: oauth_grant
  cd_redirectUri :: string
  cd_codeChallenge :: string
  cd_createdAt :: int
  cd_expiresAt :: int

abbreviation cd_subject :: "code_row \<Rightarrow> string" where
  "cd_subject r \<equiv> og_subject (cd_grant r)"

record access_row =
  at_hash :: string
  at_grant :: oauth_grant
  at_createdAt :: int
  at_expiresAt :: int

record refresh_row =
  rt_hash :: string
  rt_grant :: oauth_grant
  rt_familyId :: string
  rt_status :: token_status
  rt_createdAt :: int
  rt_expiresAt :: int
  rt_rotatedAt :: "int option"
  rt_revokedAt :: "int option"
  rt_replacedBy :: "string option"

abbreviation rt_subject :: "refresh_row \<Rightarrow> string" where
  "rt_subject r \<equiv> og_subject (rt_grant r)"

record family_row =
  fm_familyId :: string
  fm_subject :: string
  fm_clientId :: string
  fm_active :: bool
  fm_createdAt :: int
  fm_expiresAt :: int
  fm_revokedAt :: "int option"
  fm_revokeReason :: "string option"

record connection_row =
  cx_grant :: oauth_grant
  cx_active :: bool
  cx_yoloEnabled :: bool
  cx_createdAt :: int
  cx_lastUsedAt :: int
  cx_revokedAt :: "int option"
  cx_revokeReason :: "string option"
  cx_disconnectedAt :: "int option"
  cx_graceExpiresAt :: "int option"

record oauth_db =
  ob_clients :: "oauth_client list"
  ob_requests :: "auth_request list"
  ob_codes :: "code_row list"
  ob_access :: "access_row list"
  ob_refresh :: "refresh_row list"
  ob_families :: "family_row list"
  ob_connections :: "connection_row list"
  ob_ticks :: nat
  ob_draws :: nat

text \<open>
  What the host gives: clock, random identifiers and secrets, the short pairing codes, SHA-256 in its two
  spellings, and the origin of a URL.
\<close>

record oauth_host =
  oh_clock :: "nat \<Rightarrow> int"
  oh_random :: "nat \<Rightarrow> string"
  oh_pairing :: "nat \<Rightarrow> string"
  oh_hash :: "string \<Rightarrow> string"
  oh_sha :: "string \<Rightarrow> string"
  oh_origin :: "string \<Rightarrow> string + string"

definition subject_of :: "string \<Rightarrow> string" where
  "subject_of u = ''oauth_grant_'' @ u"

definition family_of :: "string \<Rightarrow> string" where
  "family_of u = ''oauth_family_'' @ u"

definition empty_oauth :: oauth_db where
  "empty_oauth = \<lparr>ob_clients = [], ob_requests = [], ob_codes = [], ob_access = [], ob_refresh = [], ob_families = [],
     ob_connections = [], ob_ticks = 0, ob_draws = 0\<rparr>"

type_synonym 'a oauth = "(oauth_db, string, 'a) eff"

definition now_of :: "oauth_host \<Rightarrow> int oauth" where
  "now_of h db = (Inr (oh_clock h (ob_ticks db)), db\<lparr>ob_ticks := Suc (ob_ticks db)\<rparr>)"

definition draw :: "oauth_host \<Rightarrow> string oauth" where
  "draw h db = (Inr (oh_random h (ob_draws db)), db\<lparr>ob_draws := Suc (ob_draws db)\<rparr>)"

definition draw_pairing :: "oauth_host \<Rightarrow> string oauth" where
  "draw_pairing h db = (Inr (oh_pairing h (ob_draws db)), db\<lparr>ob_draws := Suc (ob_draws db)\<rparr>)"

definition db_get :: "(oauth_db \<Rightarrow> 'a) \<Rightarrow> 'a oauth" where
  "db_get f db = (Inr (f db), db)"

definition db_run :: "(oauth_db \<Rightarrow> oauth_db) \<Rightarrow> unit oauth" where
  "db_run g db = (Inr (), g db)"

definition db_insert :: "(oauth_db \<Rightarrow> bool) \<Rightarrow> (oauth_db \<Rightarrow> oauth_db) \<Rightarrow> unit oauth" where
  "db_insert admits g db = (if admits db then (Inr (), g db) else (Inl ''constraint failed'', db))"

text \<open>\<open>BEGIN IMMEDIATE\<close> to \<open>COMMIT\<close>: a throw rolls the tables back, not the clock and not the randomness.\<close>

definition in_transaction :: "'a oauth \<Rightarrow> 'a oauth" where
  "in_transaction m db =
     (case m db of (Inl e, db') \<Rightarrow> (Inl e, db\<lparr>ob_ticks := ob_ticks db', ob_draws := ob_draws db'\<rparr>) | (Inr x, db') \<Rightarrow> (Inr x, db'))"

abbreviation has_client :: "string \<Rightarrow> oauth_db \<Rightarrow> bool" where
  "has_client c db \<equiv> list_ex (\<lambda>r. oc_clientId r = c) (ob_clients db)"

section \<open>Clients and authorization requests\<close>

definition registerClient :: "oauth_host \<Rightarrow> string \<Rightarrow> string list \<Rightarrow> oauth_client oauth" where
  "registerClient h name uris =
     bindS (now_of h) (\<lambda>t. bindS (draw h) (\<lambda>u.
       (let r = \<lparr>oc_clientId = ''oauth_client_'' @ u, oc_clientName = name, oc_redirectUris = uris, oc_createdAt = t\<rparr> in
        bindS (db_insert (\<lambda>db. \<not> has_client (oc_clientId r) db) (\<lambda>db. db\<lparr>ob_clients := ob_clients db @ [r]\<rparr>)) (\<lambda>_. retS r))))"

definition getClient :: "string \<Rightarrow> oauth_db \<Rightarrow> oauth_client option" where
  "getClient c db = find (\<lambda>r. oc_clientId r = c) (ob_clients db)"

definition createAuthorizationRequest :: "oauth_host \<Rightarrow> auth_request \<Rightarrow> bool option \<Rightarrow> int \<Rightarrow> auth_request oauth" where
  "createAuthorizationRequest h inp renewable ttl =
     bindS (now_of h) (\<lambda>t. bindS (draw h) (\<lambda>u. bindS (draw_pairing h) (\<lambda>pairing.
       (let r = inp\<lparr>ar_id := ''oauth_req_'' @ u, ar_pairingCode := pairing, ar_status := RequestPending,
              ar_renewable := (case renewable of None \<Rightarrow> True | Some b \<Rightarrow> b), ar_createdAt := t, ar_expiresAt := t + ttl,
              ar_decidedAt := None\<rparr> in
        bindS (db_insert (\<lambda>db. \<not> list_ex (\<lambda>q. ar_id q = ar_id r) (ob_requests db) \<and> has_client (ar_clientId r) db)
            (\<lambda>db. db\<lparr>ob_requests := ob_requests db @ [r]\<rparr>)) (\<lambda>_. retS r)))))"

definition getAuthorizationRequest :: "oauth_host \<Rightarrow> string \<Rightarrow> auth_request option oauth" where
  "getAuthorizationRequest h rid =
     bindS (db_get (\<lambda>db. find (\<lambda>r. ar_id r = rid) (ob_requests db))) (\<lambda>row.
       case row of
         None \<Rightarrow> retS None
       | Some r \<Rightarrow> bindS (now_of h) (\<lambda>t.
           if ar_expiresAt r \<le> t \<and> ar_status r = RequestPending then
             bindS (db_run (\<lambda>db. db\<lparr>ob_requests := filter (\<lambda>q. ar_id q \<noteq> rid) (ob_requests db)\<rparr>)) (\<lambda>_. retS None)
           else retS (Some r)))"

definition listPendingAuthorizationRequests :: "oauth_host \<Rightarrow> auth_request list oauth" where
  "listPendingAuthorizationRequests h =
     bindS (now_of h) (\<lambda>t.
       bindS (db_run (\<lambda>db. db\<lparr>ob_requests := filter (\<lambda>q. \<not> (ar_status q = RequestPending \<and> ar_expiresAt q \<le> t)) (ob_requests db)\<rparr>)) (\<lambda>_.
         db_get (\<lambda>db. sort_key ar_createdAt (filter (\<lambda>q. ar_status q = RequestPending) (ob_requests db)))))"

definition decideAuthorizationRequest ::
    "oauth_host \<Rightarrow> string \<Rightarrow> request_status \<Rightarrow> bool option \<Rightarrow> auth_request option oauth" where
  "decideAuthorizationRequest h rid status renewable =
     bindS (getAuthorizationRequest h rid) (\<lambda>cur.
       case cur of
         None \<Rightarrow> retS None
       | Some r \<Rightarrow> bindS (now_of h) (\<lambda>t.
           bindS (db_run (\<lambda>db. db\<lparr>ob_requests := map (\<lambda>q. if ar_id q = rid \<and> ar_status q = RequestPending
               then q\<lparr>ar_status := status, ar_renewable := (case renewable of None \<Rightarrow> ar_renewable r | Some b \<Rightarrow> b), ar_decidedAt := Some t\<rparr>
               else q) (ob_requests db)\<rparr>)) (\<lambda>_.
             getAuthorizationRequest h rid)))"

text \<open>The newest pending requests of a client that have not expired, at most \<open>keep\<close> of them, stay.\<close>

definition trimPendingAuthorizationRequests :: "oauth_host \<Rightarrow> string \<Rightarrow> nat \<Rightarrow> unit oauth" where
  "trimPendingAuthorizationRequests h c keep =
     bindS (now_of h) (\<lambda>t. bindS (now_of h) (\<lambda>t'.
       db_run (\<lambda>db.
         (let pending = filter (\<lambda>q. ar_clientId q = c \<and> ar_status q = RequestPending \<and> ar_expiresAt q > t') (ob_requests db);
              kept = map ar_id (take keep (sort_key (\<lambda>q. - ar_createdAt q) (rev pending))) in
          db\<lparr>ob_requests := filter (\<lambda>q. \<not> (ar_clientId q = c \<and> ar_status q = RequestPending \<and>
               (ar_expiresAt q \<le> t \<or> ar_id q \<notin> set kept))) (ob_requests db)\<rparr>))))"

section \<open>Codes\<close>

definition oauthActor :: "oauth_host \<Rightarrow> string \<Rightarrow> string \<Rightarrow> string oauth" where
  "oauthActor h name uri db =
     (case oh_origin h uri of Inl e \<Rightarrow> (Inl e, db) | Inr origin \<Rightarrow> (Inr (''oauth:'' @ name @ ''@'' @ origin), db))"

definition issueAuthorizationCode :: "oauth_host \<Rightarrow> string \<Rightarrow> int \<Rightarrow> string oauth" where
  "issueAuthorizationCode h rid ttl =
     bindS (getAuthorizationRequest h rid) (\<lambda>req. bindS (case req of Some r \<Rightarrow> if ar_status r = RequestApproved then now_of h else retS 0 | None \<Rightarrow> retS 0) (\<lambda>t.
       case req of
         None \<Rightarrow> throwS ''OAuth authorization request is not approved''
       | Some r \<Rightarrow>
           if ar_status r \<noteq> RequestApproved \<or> ar_expiresAt r \<le> t then throwS ''OAuth authorization request is not approved''
           else bindS (db_get (getClient (ar_clientId r))) (\<lambda>client.
             case client of
               None \<Rightarrow> throwS ''OAuth client no longer exists''
             | Some c \<Rightarrow>
                 bindS (draw h) (\<lambda>code. bindS (now_of h) (\<lambda>t'.
                 bindS (oauthActor h (oc_clientName c) (ar_redirectUri r)) (\<lambda>actor. bindS (draw h) (\<lambda>u.
                   (let row = \<lparr>cd_hash = oh_hash h code,
                          cd_grant = \<lparr>og_clientId = ar_clientId r, og_actor = actor, og_subject = subject_of u,
                            og_scope = ar_scope r, og_resource = ar_resource r, og_renewable = Some (ar_renewable r)\<rparr>,
                          cd_redirectUri = ar_redirectUri r, cd_codeChallenge = ar_codeChallenge r,
                          cd_createdAt = t', cd_expiresAt = t' + ttl\<rparr> in
                    bindS (db_insert (\<lambda>db. \<not> list_ex (\<lambda>q. cd_hash q = cd_hash row) (ob_codes db) \<and> has_client (ar_clientId r) db)
                        (\<lambda>db. db\<lparr>ob_codes := ob_codes db @ [row]\<rparr>)) (\<lambda>_.
                      bindS (db_run (\<lambda>db. db\<lparr>ob_requests := filter (\<lambda>q. ar_id q \<noteq> rid) (ob_requests db)\<rparr>)) (\<lambda>_.
                        retS code))))))))))"

definition consumeAuthorizationCode :: "oauth_host \<Rightarrow> string \<Rightarrow> code_row option oauth" where
  "consumeAuthorizationCode h code =
     bindS (db_get (\<lambda>db. find (\<lambda>r. cd_hash r = oh_hash h code) (ob_codes db))) (\<lambda>row.
       case row of
         None \<Rightarrow> retS None
       | Some r \<Rightarrow>
           bindS (db_run (\<lambda>db. db\<lparr>ob_codes := filter (\<lambda>q. cd_hash q \<noteq> oh_hash h code) (ob_codes db)\<rparr>)) (\<lambda>_.
             bindS (now_of h) (\<lambda>t. retS (if cd_expiresAt r \<le> t then None else Some r))))"

section \<open>Connections\<close>

abbreviation cx_subject :: "connection_row \<Rightarrow> string" where
  "cx_subject r \<equiv> og_subject (cx_grant r)"

definition getConnection :: "string \<Rightarrow> oauth_db \<Rightarrow> connection_row option" where
  "getConnection s db = find (\<lambda>r. cx_subject r = s) (ob_connections db)"

definition new_connection_row :: "oauth_grant \<Rightarrow> int \<Rightarrow> connection_row" where
  "new_connection_row g t = \<lparr>cx_grant = stored_grant g, cx_active = True, cx_yoloEnabled = False, cx_createdAt = t, cx_lastUsedAt = t,
     cx_revokedAt = None, cx_revokeReason = None, cx_disconnectedAt = None, cx_graceExpiresAt = None\<rparr>"

text \<open>\<open>INSERT OR IGNORE\<close> passes over a row that is there; the foreign key is checked all the same.\<close>

definition ensureConnection :: "oauth_host \<Rightarrow> oauth_grant \<Rightarrow> connection_row oauth" where
  "ensureConnection h g =
     bindS (now_of h) (\<lambda>t.
       bindS (db_insert (\<lambda>db. getConnection (og_subject g) db \<noteq> None \<or> has_client (og_clientId g) db)
           (\<lambda>db. if getConnection (og_subject g) db \<noteq> None then db
                 else db\<lparr>ob_connections := ob_connections db @ [new_connection_row g t]\<rparr>)) (\<lambda>_.
         bindS (db_get (getConnection (og_subject g))) (\<lambda>row.
           case row of
             None \<Rightarrow> throwS ''OAuth connection could not be persisted''
           | Some r \<Rightarrow>
               if og_clientId (cx_grant r) \<noteq> og_clientId g \<or> og_actor (cx_grant r) \<noteq> og_actor g \<or> og_resource (cx_grant r) \<noteq> og_resource g
               then throwS ''OAuth connection binding mismatch'' else retS r)))"

definition set_connections :: "(connection_row \<Rightarrow> bool) \<Rightarrow> (connection_row \<Rightarrow> connection_row) \<Rightarrow> oauth_db \<Rightarrow> oauth_db" where
  "set_connections P g db = db\<lparr>ob_connections := map (\<lambda>r. if P r then g r else r) (ob_connections db)\<rparr>"

definition touchConnection :: "oauth_host \<Rightarrow> string \<Rightarrow> unit oauth" where
  "touchConnection h s = bindS (now_of h) (\<lambda>t. db_run (set_connections (\<lambda>r. cx_subject r = s \<and> cx_active r) (\<lambda>r. r\<lparr>cx_lastUsedAt := t\<rparr>)))"

definition setConnectionYolo :: "oauth_host \<Rightarrow> string \<Rightarrow> bool \<Rightarrow> bool oauth" where
  "setConnectionYolo h s enabled =
     bindS (now_of h) (\<lambda>t. bindS (db_get (\<lambda>db. list_ex (\<lambda>r. cx_subject r = s \<and> cx_active r) (ob_connections db))) (\<lambda>changed.
       bindS (db_run (set_connections (\<lambda>r. cx_subject r = s \<and> cx_active r) (\<lambda>r. r\<lparr>cx_yoloEnabled := enabled, cx_lastUsedAt := t\<rparr>))) (\<lambda>_.
         retS changed)))"

definition markConnectionConnected :: "oauth_host \<Rightarrow> string \<Rightarrow> unit oauth" where
  "markConnectionConnected h s =
     bindS (now_of h) (\<lambda>t. db_run (set_connections (\<lambda>r. cx_subject r = s \<and> cx_active r)
       (\<lambda>r. r\<lparr>cx_disconnectedAt := None, cx_graceExpiresAt := None, cx_lastUsedAt := t\<rparr>)))"

definition markConnectionGrace :: "string \<Rightarrow> int \<Rightarrow> int \<Rightarrow> unit oauth" where
  "markConnectionGrace s at_time until =
     db_run (set_connections (\<lambda>r. cx_subject r = s \<and> cx_active r)
       (\<lambda>r. r\<lparr>cx_disconnectedAt := Some at_time, cx_graceExpiresAt := Some until, cx_lastUsedAt := at_time\<rparr>))"

definition clearConnectionGrace :: "string \<Rightarrow> unit oauth" where
  "clearConnectionGrace s = db_run (set_connections (\<lambda>r. cx_subject r = s \<and> cx_active r) (\<lambda>r. r\<lparr>cx_graceExpiresAt := None\<rparr>))"

definition revoke_connection_row :: "string \<Rightarrow> string \<Rightarrow> int \<Rightarrow> oauth_db \<Rightarrow> oauth_db" where
  "revoke_connection_row s why t =
     set_connections (\<lambda>r. cx_subject r = s)
       (\<lambda>r. r\<lparr>cx_active := False, cx_yoloEnabled := False, cx_revokedAt := Some t, cx_revokeReason := Some why,
             cx_disconnectedAt := None, cx_graceExpiresAt := None, cx_lastUsedAt := t\<rparr>)"

section \<open>Tokens\<close>

definition set_refresh :: "(refresh_row \<Rightarrow> bool) \<Rightarrow> (refresh_row \<Rightarrow> refresh_row) \<Rightarrow> oauth_db \<Rightarrow> oauth_db" where
  "set_refresh P g db = db\<lparr>ob_refresh := map (\<lambda>r. if P r then g r else r) (ob_refresh db)\<rparr>"

definition set_families :: "(family_row \<Rightarrow> bool) \<Rightarrow> (family_row \<Rightarrow> family_row) \<Rightarrow> oauth_db \<Rightarrow> oauth_db" where
  "set_families P g db = db\<lparr>ob_families := map (\<lambda>r. if P r then g r else r) (ob_families db)\<rparr>"

definition issueAccessToken :: "oauth_host \<Rightarrow> oauth_grant \<Rightarrow> int \<Rightarrow> string oauth" where
  "issueAccessToken h g ttl =
     bindS (ensureConnection h g) (\<lambda>c.
       if \<not> cx_active c then throwS ''OAuth connection is revoked''
       else bindS (draw h) (\<lambda>token. bindS (now_of h) (\<lambda>t.
         bindS (db_insert (\<lambda>db. \<not> list_ex (\<lambda>r. at_hash r = oh_hash h token) (ob_access db) \<and> has_client (og_clientId g) db)
             (\<lambda>db. db\<lparr>ob_access := ob_access db @ [\<lparr>at_hash = oh_hash h token, at_grant = stored_grant g, at_createdAt = t, at_expiresAt = t + ttl\<rparr>]\<rparr>)) (\<lambda>_.
           retS token))))"

definition getFamily :: "string \<Rightarrow> oauth_db \<Rightarrow> family_row option" where
  "getFamily f db = find (\<lambda>r. fm_familyId r = f) (ob_families db)"

definition insert_refresh :: "oauth_host \<Rightarrow> string \<Rightarrow> oauth_grant \<Rightarrow> string \<Rightarrow> int \<Rightarrow> int \<Rightarrow> unit oauth" where
  "insert_refresh h token g f created expires =
     db_insert (\<lambda>db. \<not> list_ex (\<lambda>r. rt_hash r = oh_hash h token) (ob_refresh db) \<and> has_client (og_clientId g) db)
       (\<lambda>db. db\<lparr>ob_refresh := ob_refresh db @ [\<lparr>rt_hash = oh_hash h token, rt_grant = stored_grant g, rt_familyId = f, rt_status = TokenActive,
          rt_createdAt = created, rt_expiresAt = expires, rt_rotatedAt = None, rt_revokedAt = None, rt_replacedBy = None\<rparr>]\<rparr>)"

definition issueRefreshToken :: "oauth_host \<Rightarrow> oauth_grant \<Rightarrow> int \<Rightarrow> string option \<Rightarrow> string oauth" where
  "issueRefreshToken h g ttl familyId =
     bindS (ensureConnection h g) (\<lambda>c.
       if \<not> cx_active c then throwS ''OAuth connection is revoked''
       else bindS (now_of h) (\<lambda>t. bindS (case familyId of Some f \<Rightarrow> retS f | None \<Rightarrow> bindS (draw h) (\<lambda>u. retS (family_of u))) (\<lambda>f.
         bindS (db_get (getFamily f)) (\<lambda>old.
         bindS (if old = None
             then db_insert (\<lambda>db. getConnection (og_subject g) db \<noteq> None \<and> has_client (og_clientId g) db)
               (\<lambda>db. db\<lparr>ob_families := ob_families db @ [\<lparr>fm_familyId = f, fm_subject = og_subject g, fm_clientId = og_clientId g, fm_active = True,
                  fm_createdAt = t, fm_expiresAt = t + ttl, fm_revokedAt = None, fm_revokeReason = None\<rparr>]\<rparr>)
             else retS ()) (\<lambda>_.
         bindS (db_get (getFamily f)) (\<lambda>fam.
           case fam of
             None \<Rightarrow> throwS ''invalid refresh token family''
           | Some fm \<Rightarrow>
               if \<not> fm_active fm \<or> fm_subject fm \<noteq> og_subject g \<or> fm_clientId fm \<noteq> og_clientId g \<or> fm_expiresAt fm \<le> t
               then throwS ''invalid refresh token family''
               else bindS (draw h) (\<lambda>token. bindS (insert_refresh h token g f t (fm_expiresAt fm)) (\<lambda>_. retS token))))))))"

definition findAccessToken :: "oauth_host \<Rightarrow> string \<Rightarrow> access_row option oauth" where
  "findAccessToken h token =
     bindS (db_get (\<lambda>db. find (\<lambda>r. at_hash r = oh_hash h token) (ob_access db))) (\<lambda>row.
       case row of
         None \<Rightarrow> retS None
       | Some r \<Rightarrow> bindS (now_of h) (\<lambda>t.
           if at_expiresAt r \<le> t then
             bindS (db_run (\<lambda>db. db\<lparr>ob_access := filter (\<lambda>q. at_hash q \<noteq> oh_hash h token) (ob_access db)\<rparr>)) (\<lambda>_. retS None)
           else retS (Some r)))"

definition revokeFamilyRows :: "oauth_host \<Rightarrow> string \<Rightarrow> string \<Rightarrow> unit oauth" where
  "revokeFamilyRows h f why =
     bindS (now_of h) (\<lambda>t.
       bindS (db_run (set_families (\<lambda>r. fm_familyId r = f) (\<lambda>r. r\<lparr>fm_active := False, fm_revokedAt := Some t, fm_revokeReason := Some why\<rparr>))) (\<lambda>_.
         db_run (set_refresh (\<lambda>r. rt_familyId r = f \<and> rt_status r \<noteq> TokenRevoked) (\<lambda>r. r\<lparr>rt_status := TokenRevoked, rt_revokedAt := Some t\<rparr>))))"

definition revokeRefreshFamily :: "oauth_host \<Rightarrow> string \<Rightarrow> string \<Rightarrow> unit oauth" where
  "revokeRefreshFamily h f why = in_transaction (revokeFamilyRows h f why)"

definition find_refresh :: "oauth_host \<Rightarrow> string \<Rightarrow> oauth_db \<Rightarrow> refresh_row option" where
  "find_refresh h token db = find (\<lambda>r. rt_hash r = oh_hash h token) (ob_refresh db)"

definition findRefreshToken :: "oauth_host \<Rightarrow> string \<Rightarrow> refresh_row option oauth" where
  "findRefreshToken h token =
     bindS (db_get (find_refresh h token)) (\<lambda>row.
       case row of
         None \<Rightarrow> retS None
       | Some r \<Rightarrow> bindS (now_of h) (\<lambda>t.
           if rt_expiresAt r \<le> t then bindS (revokeRefreshFamily h (rt_familyId r) ''EXPIRED'') (\<lambda>_. retS None) else retS (Some r)))"

datatype rotation = Rotated string | RotationInvalid | RotationReplayed

definition delete_access_of :: "string \<Rightarrow> oauth_db \<Rightarrow> oauth_db" where
  "delete_access_of s db = db\<lparr>ob_access := filter (\<lambda>r. og_subject (at_grant r) \<noteq> s) (ob_access db)\<rparr>"

definition spend :: "string \<Rightarrow> string \<Rightarrow> int \<Rightarrow> oauth_db \<Rightarrow> oauth_db" where
  "spend hsh next t = set_refresh (\<lambda>r. rt_hash r = hsh \<and> rt_status r = TokenActive)
     (\<lambda>r. r\<lparr>rt_status := TokenSpent, rt_rotatedAt := Some t, rt_replacedBy := Some next\<rparr>)"

text \<open>A token that was spent before ends the family, the access tokens and the connection.\<close>

definition rotate_found :: "oauth_host \<Rightarrow> string \<Rightarrow> refresh_row \<Rightarrow> rotation oauth" where
  "rotate_found h token r =
     bindS (db_get (getFamily (rt_familyId r))) (\<lambda>fam.
       case fam of
         None \<Rightarrow> retS RotationInvalid
       | Some fm \<Rightarrow> bindS (now_of h) (\<lambda>t.
           if fm_expiresAt fm \<le> t then bindS (revokeFamilyRows h (fm_familyId fm) ''EXPIRED'') (\<lambda>_. retS RotationInvalid)
           else if rt_status r = TokenSpent then
             bindS (revokeFamilyRows h (fm_familyId fm) ''REFRESH_TOKEN_REUSE'') (\<lambda>_.
             bindS (db_run (delete_access_of (rt_subject r))) (\<lambda>_.
             bindS (now_of h) (\<lambda>t'.
             bindS (db_run (revoke_connection_row (rt_subject r) ''REFRESH_TOKEN_REUSE'' t')) (\<lambda>_.
               retS RotationReplayed))))
           else if rt_status r \<noteq> TokenActive \<or> \<not> fm_active fm then retS RotationInvalid
           else bindS (now_of h) (\<lambda>t'. bindS (draw h) (\<lambda>next.
             bindS (db_run (spend (oh_hash h token) (oh_hash h next) t')) (\<lambda>_.
             bindS (insert_refresh h next (rt_grant r) (rt_familyId r) t' (fm_expiresAt fm)) (\<lambda>_.
               retS (Rotated next)))))))"

definition rotateRefreshTokenSecurely :: "oauth_host \<Rightarrow> string \<Rightarrow> rotation oauth" where
  "rotateRefreshTokenSecurely h token =
     in_transaction (bindS (db_get (find_refresh h token)) (\<lambda>row.
       case row of None \<Rightarrow> retS RotationInvalid | Some r \<Rightarrow> rotate_found h token r))"

definition revokeConnection :: "oauth_host \<Rightarrow> string \<Rightarrow> string \<Rightarrow> unit oauth" where
  "revokeConnection h s why =
     bindS (now_of h) (\<lambda>t. in_transaction (
       bindS (db_run (set_families (\<lambda>r. fm_subject r = s \<and> fm_active r)
         (\<lambda>r. r\<lparr>fm_active := False, fm_revokedAt := Some t, fm_revokeReason := Some why\<rparr>))) (\<lambda>_.
       bindS (db_run (set_refresh (\<lambda>r. rt_subject r = s \<and> rt_status r \<noteq> TokenRevoked)
         (\<lambda>r. r\<lparr>rt_status := TokenRevoked, rt_revokedAt := Some t\<rparr>))) (\<lambda>_.
       bindS (db_run (delete_access_of s)) (\<lambda>_.
         db_run (revoke_connection_row s why t))))))"

definition revokeToken :: "oauth_host \<Rightarrow> string \<Rightarrow> unit oauth" where
  "revokeToken h token =
     bindS (db_run (\<lambda>db. db\<lparr>ob_access := filter (\<lambda>r. at_hash r \<noteq> oh_hash h token) (ob_access db)\<rparr>)) (\<lambda>_.
       bindS (now_of h) (\<lambda>t. db_run (set_refresh (\<lambda>r. rt_hash r = oh_hash h token \<and> rt_status r = TokenActive)
         (\<lambda>r. r\<lparr>rt_status := TokenRevoked, rt_revokedAt := Some t\<rparr>))))"

section \<open>Maintenance\<close>

definition countUnconnectedClients :: "oauth_db \<Rightarrow> nat" where
  "countUnconnectedClients db =
     length (filter (\<lambda>c. \<not> list_ex (\<lambda>r. og_clientId (cx_grant r) = oc_clientId c) (ob_connections db)) (ob_clients db))"

text \<open>Deleting clients takes along what refers to them: requests, codes, tokens, connections, and the families of both.\<close>

definition delete_clients :: "(oauth_client \<Rightarrow> bool) \<Rightarrow> oauth_db \<Rightarrow> oauth_db" where
  "delete_clients P db =
     (let gone = map oc_clientId (filter P (ob_clients db));
          conns = filter (\<lambda>r. og_clientId (cx_grant r) \<notin> set gone) (ob_connections db);
          lost = map cx_subject (filter (\<lambda>r. og_clientId (cx_grant r) \<in> set gone) (ob_connections db)) in
      db\<lparr>ob_clients := filter (\<lambda>c. \<not> P c) (ob_clients db),
         ob_requests := filter (\<lambda>r. ar_clientId r \<notin> set gone) (ob_requests db),
         ob_codes := filter (\<lambda>r. og_clientId (cd_grant r) \<notin> set gone) (ob_codes db),
         ob_access := filter (\<lambda>r. og_clientId (at_grant r) \<notin> set gone) (ob_access db),
         ob_refresh := filter (\<lambda>r. og_clientId (rt_grant r) \<notin> set gone) (ob_refresh db),
         ob_families := filter (\<lambda>r. fm_clientId r \<notin> set gone \<and> fm_subject r \<notin> set lost) (ob_families db),
         ob_connections := conns\<rparr>)"

definition pruneUnconnectedClients :: "oauth_host \<Rightarrow> int \<Rightarrow> unit oauth" where
  "pruneUnconnectedClients h maxAge =
     bindS (now_of h) (\<lambda>t. db_run (\<lambda>db. delete_clients
       (\<lambda>c. oc_createdAt c < t - maxAge \<and> \<not> list_ex (\<lambda>r. og_clientId (cx_grant r) = oc_clientId c) (ob_connections db)) db))"

datatype client_deletion = ClientNotFound | ClientHasConnections | ClientDeleted

definition deleteClient :: "oauth_host \<Rightarrow> string \<Rightarrow> bool \<Rightarrow> client_deletion oauth" where
  "deleteClient h cid force =
     bindS (db_get (\<lambda>db. (if getClient cid db \<noteq> None then Some False
         else if list_ex (\<lambda>c. oc_clientName c = cid) (ob_clients db) then Some True else None))) (\<lambda>how.
       case how of
         None \<Rightarrow> retS ClientNotFound
       | Some byName \<Rightarrow>
           (let victim = (\<lambda>c. if byName then oc_clientName c = cid else oc_clientId c = cid) in
            bindS (db_get (\<lambda>db. map oc_clientId (filter victim (ob_clients db)))) (\<lambda>ids.
            bindS (db_get (\<lambda>db. list_ex (\<lambda>r. og_clientId (cx_grant r) \<in> set ids \<and> cx_active r) (ob_connections db))) (\<lambda>hasActive.
              if hasActive \<and> \<not> force then retS ClientHasConnections
              else bindS (if hasActive
                  then bindS (now_of h) (\<lambda>t. db_run (set_connections (\<lambda>r. og_clientId (cx_grant r) \<in> set ids \<and> cx_active r)
                    (\<lambda>r. r\<lparr>cx_active := False, cx_revokedAt := Some t, cx_revokeReason := Some ''CLIENT_DELETED''\<rparr>)))
                  else retS ()) (\<lambda>_.
                bindS (db_run (delete_clients victim)) (\<lambda>_. retS ClientDeleted))))))"

definition invalidateEphemeralForRestart :: "unit oauth" where
  "invalidateEphemeralForRestart = db_run (\<lambda>db. db\<lparr>ob_requests := [], ob_codes := []\<rparr>)"

section \<open>What the tables keep\<close>

definition given_out :: "oauth_host \<Rightarrow> (string \<Rightarrow> string) \<Rightarrow> nat \<Rightarrow> string \<Rightarrow> bool" where
  "given_out h f d x \<longleftrightarrow> (\<exists>k < d. x = f (oh_random h k))"

lemma given_mono: "given_out h f d x \<Longrightarrow> d \<le> e \<Longrightarrow> given_out h f e x"
  unfolding given_out_def using order_less_le_trans by blast

text \<open>
  Codes, connections and refresh tokens are known by things given_out; a subject that has a code has no connection
  yet; a refresh token has a connection of its subject and its client; a family has one active token. Subjects in
  \<open>F\<close> are finished, code hashes in \<open>G\<close> are used up, subjects in \<open>H\<close> may be
  given tokens, and at least \<open>d\<close> things were drawn.
\<close>

definition oauth_inv :: "oauth_host \<Rightarrow> nat \<Rightarrow> string set \<Rightarrow> string set \<Rightarrow> string set \<Rightarrow> oauth_db \<Rightarrow> bool" where
  "oauth_inv h d F G H db \<longleftrightarrow>
     d \<le> ob_draws db \<and>
     (\<forall>c \<in> set (ob_codes db). given_out h (oh_hash h) (ob_draws db) (cd_hash c) \<and> given_out h subject_of (ob_draws db) (cd_subject c)) \<and>
     distinct (map cd_subject (ob_codes db)) \<and>
     (\<forall>c \<in> set (ob_connections db). given_out h subject_of (ob_draws db) (cx_subject c) \<and> cx_subject c \<notin> cd_subject ` set (ob_codes db)) \<and>
     distinct (map rt_hash (ob_refresh db)) \<and>
     (\<forall>r \<in> set (ob_refresh db). given_out h (oh_hash h) (ob_draws db) (rt_hash r) \<and> given_out h family_of (ob_draws db) (rt_familyId r) \<and>
        (\<exists>c \<in> set (ob_connections db). cx_subject c = rt_subject r \<and> og_clientId (cx_grant c) = og_clientId (rt_grant r))) \<and>
     (\<forall>r \<in> set (ob_refresh db). \<forall>q \<in> set (ob_refresh db).
        rt_status r = TokenActive \<and> rt_status q = TokenActive \<and> rt_familyId r = rt_familyId q \<longrightarrow> r = q) \<and>
     (\<forall>s \<in> F. given_out h subject_of (ob_draws db) s \<and> s \<notin> cd_subject ` set (ob_codes db) \<and>
        (\<forall>c \<in> set (ob_connections db). cx_subject c = s \<longrightarrow> \<not> cx_active c)) \<and>
     (\<forall>g \<in> G. given_out h (oh_hash h) (ob_draws db) g \<and> g \<notin> cd_hash ` set (ob_codes db)) \<and>
     (\<forall>s \<in> H. given_out h subject_of (ob_draws db) s \<and> s \<notin> cd_subject ` set (ob_codes db) \<and>
        (s \<in> F \<longrightarrow> s \<in> cx_subject ` set (ob_connections db)))"

lemma oauth_invI:
  assumes "d \<le> ob_draws db"
    "\<And>c. c \<in> set (ob_codes db) \<Longrightarrow> given_out h (oh_hash h) (ob_draws db) (cd_hash c) \<and> given_out h subject_of (ob_draws db) (cd_subject c)"
    "distinct (map cd_subject (ob_codes db))"
    "\<And>c. c \<in> set (ob_connections db) \<Longrightarrow> given_out h subject_of (ob_draws db) (cx_subject c) \<and> cx_subject c \<notin> cd_subject ` set (ob_codes db)"
    "distinct (map rt_hash (ob_refresh db))"
    "\<And>r. r \<in> set (ob_refresh db) \<Longrightarrow> given_out h (oh_hash h) (ob_draws db) (rt_hash r) \<and> given_out h family_of (ob_draws db) (rt_familyId r)"
    "\<And>r. r \<in> set (ob_refresh db) \<Longrightarrow>
       \<exists>c \<in> set (ob_connections db). cx_subject c = rt_subject r \<and> og_clientId (cx_grant c) = og_clientId (rt_grant r)"
    "\<And>r q. r \<in> set (ob_refresh db) \<Longrightarrow> q \<in> set (ob_refresh db) \<Longrightarrow> rt_status r = TokenActive \<Longrightarrow> rt_status q = TokenActive \<Longrightarrow>
       rt_familyId r = rt_familyId q \<Longrightarrow> r = q"
    "\<And>s. s \<in> F \<Longrightarrow> given_out h subject_of (ob_draws db) s \<and> s \<notin> cd_subject ` set (ob_codes db)"
    "\<And>c. c \<in> set (ob_connections db) \<Longrightarrow> cx_subject c \<in> F \<Longrightarrow> \<not> cx_active c"
    "\<And>g. g \<in> G \<Longrightarrow> given_out h (oh_hash h) (ob_draws db) g \<and> g \<notin> cd_hash ` set (ob_codes db)"
    "\<And>s. s \<in> H \<Longrightarrow> given_out h subject_of (ob_draws db) s \<and> s \<notin> cd_subject ` set (ob_codes db)"
    "\<And>s. s \<in> H \<Longrightarrow> s \<in> F \<Longrightarrow> s \<in> cx_subject ` set (ob_connections db)"
  shows "oauth_inv h d F G H db"
proof -
  have "\<forall>c \<in> set (ob_codes db). given_out h (oh_hash h) (ob_draws db) (cd_hash c) \<and> given_out h subject_of (ob_draws db) (cd_subject c)"
    using assms(2) by blast
  moreover have "\<forall>c \<in> set (ob_connections db). given_out h subject_of (ob_draws db) (cx_subject c) \<and> cx_subject c \<notin> cd_subject ` set (ob_codes db)"
    using assms(4) by blast
  moreover have "\<forall>r \<in> set (ob_refresh db). given_out h (oh_hash h) (ob_draws db) (rt_hash r) \<and> given_out h family_of (ob_draws db) (rt_familyId r) \<and>
        (\<exists>c \<in> set (ob_connections db). cx_subject c = rt_subject r \<and> og_clientId (cx_grant c) = og_clientId (rt_grant r))"
    by (intro ballI conjI conjunct1 [OF assms(6)] conjunct2 [OF assms(6)] assms(7))
  moreover have "\<forall>r \<in> set (ob_refresh db). \<forall>q \<in> set (ob_refresh db).
        rt_status r = TokenActive \<and> rt_status q = TokenActive \<and> rt_familyId r = rt_familyId q \<longrightarrow> r = q"
    by (intro ballI impI assms(8)) simp_all
  moreover have "\<forall>s \<in> F. given_out h subject_of (ob_draws db) s \<and> s \<notin> cd_subject ` set (ob_codes db) \<and>
        (\<forall>c \<in> set (ob_connections db). cx_subject c = s \<longrightarrow> \<not> cx_active c)"
    using assms(9,10) by blast
  moreover have "\<forall>g \<in> G. given_out h (oh_hash h) (ob_draws db) g \<and> g \<notin> cd_hash ` set (ob_codes db)"
    using assms(11) by blast
  moreover have "\<forall>s \<in> H. given_out h subject_of (ob_draws db) s \<and> s \<notin> cd_subject ` set (ob_codes db) \<and>
        (s \<in> F \<longrightarrow> s \<in> cx_subject ` set (ob_connections db))"
    using assms(12,13) by blast
  ultimately show ?thesis unfolding oauth_inv_def using assms(1,3,5) by (intro conjI)
qed

lemma oauth_invD:
  assumes "oauth_inv h d F G H db"
  shows "d \<le> ob_draws db"
    "\<And>c. c \<in> set (ob_codes db) \<Longrightarrow> given_out h (oh_hash h) (ob_draws db) (cd_hash c) \<and> given_out h subject_of (ob_draws db) (cd_subject c)"
    "distinct (map cd_subject (ob_codes db))"
    "\<And>c. c \<in> set (ob_connections db) \<Longrightarrow> given_out h subject_of (ob_draws db) (cx_subject c) \<and> cx_subject c \<notin> cd_subject ` set (ob_codes db)"
    "distinct (map rt_hash (ob_refresh db))"
    "\<And>r. r \<in> set (ob_refresh db) \<Longrightarrow> given_out h (oh_hash h) (ob_draws db) (rt_hash r) \<and> given_out h family_of (ob_draws db) (rt_familyId r)"
    "\<And>r. r \<in> set (ob_refresh db) \<Longrightarrow>
       \<exists>c \<in> set (ob_connections db). cx_subject c = rt_subject r \<and> og_clientId (cx_grant c) = og_clientId (rt_grant r)"
    "\<And>r q. r \<in> set (ob_refresh db) \<Longrightarrow> q \<in> set (ob_refresh db) \<Longrightarrow> rt_status r = TokenActive \<Longrightarrow> rt_status q = TokenActive \<Longrightarrow>
       rt_familyId r = rt_familyId q \<Longrightarrow> r = q"
    "\<And>s. s \<in> F \<Longrightarrow> given_out h subject_of (ob_draws db) s \<and> s \<notin> cd_subject ` set (ob_codes db)"
    "\<And>c. c \<in> set (ob_connections db) \<Longrightarrow> cx_subject c \<in> F \<Longrightarrow> \<not> cx_active c"
    "\<And>g. g \<in> G \<Longrightarrow> given_out h (oh_hash h) (ob_draws db) g \<and> g \<notin> cd_hash ` set (ob_codes db)"
    "\<And>s. s \<in> H \<Longrightarrow> given_out h subject_of (ob_draws db) s \<and> s \<notin> cd_subject ` set (ob_codes db)"
    "\<And>s. s \<in> H \<Longrightarrow> s \<in> F \<Longrightarrow> s \<in> cx_subject ` set (ob_connections db)"
proof -
  note i = assms [unfolded oauth_inv_def]
  show "d \<le> ob_draws db" using i by (elim conjE)
  have "\<forall>c \<in> set (ob_codes db). given_out h (oh_hash h) (ob_draws db) (cd_hash c) \<and> given_out h subject_of (ob_draws db) (cd_subject c)"
    using i by (elim conjE)
  then show "c \<in> set (ob_codes db) \<Longrightarrow> given_out h (oh_hash h) (ob_draws db) (cd_hash c) \<and> given_out h subject_of (ob_draws db) (cd_subject c)" for c
    by blast
  show "distinct (map cd_subject (ob_codes db))" using i by (elim conjE)
  have "\<forall>c \<in> set (ob_connections db). given_out h subject_of (ob_draws db) (cx_subject c) \<and> cx_subject c \<notin> cd_subject ` set (ob_codes db)"
    using i by (elim conjE)
  then show "c \<in> set (ob_connections db) \<Longrightarrow> given_out h subject_of (ob_draws db) (cx_subject c) \<and> cx_subject c \<notin> cd_subject ` set (ob_codes db)" for c
    by blast
  show "distinct (map rt_hash (ob_refresh db))" using i by (elim conjE)
  have r: "\<forall>r \<in> set (ob_refresh db). given_out h (oh_hash h) (ob_draws db) (rt_hash r) \<and> given_out h family_of (ob_draws db) (rt_familyId r) \<and>
        (\<exists>c \<in> set (ob_connections db). cx_subject c = rt_subject r \<and> og_clientId (cx_grant c) = og_clientId (rt_grant r))"
    using i by (elim conjE)
  show "r \<in> set (ob_refresh db) \<Longrightarrow> given_out h (oh_hash h) (ob_draws db) (rt_hash r) \<and> given_out h family_of (ob_draws db) (rt_familyId r)" for r
    using r by blast
  show "r \<in> set (ob_refresh db) \<Longrightarrow>
       \<exists>c \<in> set (ob_connections db). cx_subject c = rt_subject r \<and> og_clientId (cx_grant c) = og_clientId (rt_grant r)" for r
    using r by blast
  have "\<forall>r \<in> set (ob_refresh db). \<forall>q \<in> set (ob_refresh db).
        rt_status r = TokenActive \<and> rt_status q = TokenActive \<and> rt_familyId r = rt_familyId q \<longrightarrow> r = q"
    using i by (elim conjE)
  then show "r \<in> set (ob_refresh db) \<Longrightarrow> q \<in> set (ob_refresh db) \<Longrightarrow> rt_status r = TokenActive \<Longrightarrow> rt_status q = TokenActive \<Longrightarrow>
       rt_familyId r = rt_familyId q \<Longrightarrow> r = q" for r q
    by blast
  have f: "\<forall>s \<in> F. given_out h subject_of (ob_draws db) s \<and> s \<notin> cd_subject ` set (ob_codes db) \<and>
        (\<forall>c \<in> set (ob_connections db). cx_subject c = s \<longrightarrow> \<not> cx_active c)"
    using i by (elim conjE)
  show "s \<in> F \<Longrightarrow> given_out h subject_of (ob_draws db) s \<and> s \<notin> cd_subject ` set (ob_codes db)" for s
    using f by blast
  show "c \<in> set (ob_connections db) \<Longrightarrow> cx_subject c \<in> F \<Longrightarrow> \<not> cx_active c" for c
    using f by blast
  have "\<forall>g \<in> G. given_out h (oh_hash h) (ob_draws db) g \<and> g \<notin> cd_hash ` set (ob_codes db)"
    using i by (elim conjE)
  then show "g \<in> G \<Longrightarrow> given_out h (oh_hash h) (ob_draws db) g \<and> g \<notin> cd_hash ` set (ob_codes db)" for g
    by blast
  have s: "\<forall>s \<in> H. given_out h subject_of (ob_draws db) s \<and> s \<notin> cd_subject ` set (ob_codes db) \<and>
        (s \<in> F \<longrightarrow> s \<in> cx_subject ` set (ob_connections db))"
    using i by (elim conjE)
  show "s \<in> H \<Longrightarrow> given_out h subject_of (ob_draws db) s \<and> s \<notin> cd_subject ` set (ob_codes db)" for s
    using s by blast
  show "s \<in> H \<Longrightarrow> s \<in> F \<Longrightarrow> s \<in> cx_subject ` set (ob_connections db)" for s
    using s by blast
qed

lemma oauth_inv_empty: "oauth_inv h 0 {} {} {} empty_oauth"
  by (rule oauth_invI) (simp_all add: empty_oauth_def)

text \<open>Most statements only take rows away, or change in a row nothing that matters here.\<close>

definition lessens :: "oauth_db \<Rightarrow> oauth_db \<Rightarrow> bool" where
  "lessens db db' \<longleftrightarrow>
     ob_draws db \<le> ob_draws db' \<and>
     (\<exists>P. ob_codes db' = filter P (ob_codes db)) \<and>
     (\<exists>Q R g k. ob_connections db' = map g (filter Q (ob_connections db)) \<and> ob_refresh db' = map k (filter R (ob_refresh db)) \<and>
       (\<forall>c. cx_grant (g c) = cx_grant c \<and> (cx_active (g c) \<longrightarrow> cx_active c)) \<and>
       (\<forall>r. rt_hash (k r) = rt_hash r \<and> rt_familyId (k r) = rt_familyId r \<and> rt_grant (k r) = rt_grant r \<and>
          (rt_status (k r) = TokenActive \<longrightarrow> rt_status r = TokenActive)) \<and>
       (\<forall>r c. R r \<and> og_clientId (cx_grant c) = og_clientId (rt_grant r) \<longrightarrow> Q c))"

definition keeps_connections :: "oauth_db \<Rightarrow> oauth_db \<Rightarrow> bool" where
  "keeps_connections db db' \<longleftrightarrow> cx_subject ` set (ob_connections db) \<subseteq> cx_subject ` set (ob_connections db')"

lemma distinct_map_filter_map:
  "distinct (map f xs) \<Longrightarrow> (\<And>x. f (k x) = f x) \<Longrightarrow> distinct (map f (map k (filter R xs)))"
  by (simp add: distinct_map_filter o_def)

lemma inv_lessens:
  assumes i: "oauth_inv h d F G H db" and l: "lessens db db'" and c: "H = {} \<or> keeps_connections db db'"
  shows "oauth_inv h d F G H db'"
proof -
  note iD = oauth_invD [OF i]
  obtain P Q R g k where d: "ob_draws db \<le> ob_draws db'" and P: "ob_codes db' = filter P (ob_codes db)"
    and Q: "ob_connections db' = map g (filter Q (ob_connections db))" and R: "ob_refresh db' = map k (filter R (ob_refresh db))"
    and g: "\<And>c. cx_grant (g c) = cx_grant c" "\<And>c. cx_active (g c) \<Longrightarrow> cx_active c"
    and k: "\<And>r. rt_hash (k r) = rt_hash r" "\<And>r. rt_familyId (k r) = rt_familyId r" "\<And>r. rt_grant (k r) = rt_grant r"
      "\<And>r. rt_status (k r) = TokenActive \<Longrightarrow> rt_status r = TokenActive"
    and RQ: "\<And>r c. R r \<Longrightarrow> og_clientId (cx_grant c) = og_clientId (rt_grant r) \<Longrightarrow> Q c"
    using l unfolding lessens_def by blast
  have up: "given_out h f (ob_draws db) x \<Longrightarrow> given_out h f (ob_draws db') x" for f x
    using given_mono d by blast
  have codes: "set (ob_codes db') \<subseteq> set (ob_codes db)"
    unfolding P by auto
  have fewer: "s \<notin> f ` set (ob_codes db) \<Longrightarrow> s \<notin> f ` set (ob_codes db')" for s and f :: "code_row \<Rightarrow> string"
    using codes by blast
  show ?thesis
  proof (rule oauth_invI)
    show "d \<le> ob_draws db'" using iD(1) d by simp
    show "given_out h (oh_hash h) (ob_draws db') (cd_hash c) \<and> given_out h subject_of (ob_draws db') (cd_subject c)"
      if "c \<in> set (ob_codes db')" for c
      using iD(2) [of c] that codes up by blast
    show "distinct (map cd_subject (ob_codes db'))" unfolding P using iD(3) by (simp add: distinct_map_filter)
    show "given_out h subject_of (ob_draws db') (cx_subject c) \<and> cx_subject c \<notin> cd_subject ` set (ob_codes db')"
      if c: "c \<in> set (ob_connections db')" for c
    proof -
      obtain c0 where "c0 \<in> set (ob_connections db)" "c = g c0" using c unfolding Q by auto
      then show ?thesis using iD(4) [of c0] up fewer g(1) by simp
    qed
    show "distinct (map rt_hash (ob_refresh db'))" unfolding R by (rule distinct_map_filter_map [OF iD(5) k(1)])
    fix r assume r: "r \<in> set (ob_refresh db')"
    then obtain r0 where r0: "r0 \<in> set (ob_refresh db)" "r = k r0" "R r0" unfolding R by auto
    show "given_out h (oh_hash h) (ob_draws db') (rt_hash r) \<and> given_out h family_of (ob_draws db') (rt_familyId r)"
      using iD(6) [OF r0(1)] up r0(2) k by simp
    show "\<exists>c \<in> set (ob_connections db'). cx_subject c = rt_subject r \<and> og_clientId (cx_grant c) = og_clientId (rt_grant r)"
    proof -
      obtain c where "c \<in> set (ob_connections db)" "cx_subject c = rt_subject r0" "og_clientId (cx_grant c) = og_clientId (rt_grant r0)"
        using iD(7) [OF r0(1)] by blast
      then show ?thesis unfolding Q r0(2) using RQ [OF r0(3)] by (intro bexI [of _ "g c"]) (auto simp: g(1) k(3))
    qed
    fix q assume q: "q \<in> set (ob_refresh db')" and a: "rt_status r = TokenActive" "rt_status q = TokenActive" "rt_familyId r = rt_familyId q"
    from q obtain q0 where q0: "q0 \<in> set (ob_refresh db)" "q = k q0" unfolding R by auto
    have "r0 = q0" using iD(8) [OF r0(1) q0(1)] a k(4) [of r0] k(4) [of q0] by (simp add: r0(2) q0(2) k(2))
    then show "r = q" using r0(2) q0(2) by simp
  next
    show "given_out h subject_of (ob_draws db') s \<and> s \<notin> cd_subject ` set (ob_codes db')" if "s \<in> F" for s
      using iD(9) [OF that] up fewer by blast
    show "\<not> cx_active c" if c: "c \<in> set (ob_connections db')" "cx_subject c \<in> F" for c
    proof -
      obtain c0 where "c0 \<in> set (ob_connections db)" "c = g c0" using c unfolding Q by auto
      then show ?thesis using iD(10) [of c0] c(2) g by auto
    qed
    show "given_out h (oh_hash h) (ob_draws db') x \<and> x \<notin> cd_hash ` set (ob_codes db')" if "x \<in> G" for x
      using iD(11) [OF that] up fewer by blast
    show "given_out h subject_of (ob_draws db') s \<and> s \<notin> cd_subject ` set (ob_codes db')" if "s \<in> H" for s
      using iD(12) [OF that] up fewer by blast
    show "s \<in> cx_subject ` set (ob_connections db')" if "s \<in> H" "s \<in> F" for s
      using iD(13) [OF that] c that unfolding keeps_connections_def by blast
  qed
qed

definition mild :: "oauth_db \<Rightarrow> oauth_db \<Rightarrow> bool" where
  "mild db db' \<longleftrightarrow> lessens db db' \<and> keeps_connections db db'"

lemma mildI:
  assumes "ob_draws db \<le> ob_draws db'" "ob_codes db' = filter P (ob_codes db)" "ob_connections db' = map g (ob_connections db)"
    "ob_refresh db' = map k (ob_refresh db)"
    "\<And>c. cx_grant (g c) = cx_grant c \<and> (cx_active (g c) \<longrightarrow> cx_active c)"
    "\<And>r. rt_hash (k r) = rt_hash r \<and> rt_familyId (k r) = rt_familyId r \<and> rt_grant (k r) = rt_grant r \<and>
       (rt_status (k r) = TokenActive \<longrightarrow> rt_status r = TokenActive)"
  shows "mild db db'"
  unfolding mild_def
proof
  show "lessens db db'"
    unfolding lessens_def
  proof (intro conjI)
    show "\<exists>P. ob_codes db' = filter P (ob_codes db)" using assms(2) by blast
    show "\<exists>Q R g k. ob_connections db' = map g (filter Q (ob_connections db)) \<and> ob_refresh db' = map k (filter R (ob_refresh db)) \<and>
       (\<forall>c. cx_grant (g c) = cx_grant c \<and> (cx_active (g c) \<longrightarrow> cx_active c)) \<and>
       (\<forall>r. rt_hash (k r) = rt_hash r \<and> rt_familyId (k r) = rt_familyId r \<and> rt_grant (k r) = rt_grant r \<and>
          (rt_status (k r) = TokenActive \<longrightarrow> rt_status r = TokenActive)) \<and>
       (\<forall>r c. R r \<and> og_clientId (cx_grant c) = og_clientId (rt_grant r) \<longrightarrow> Q c)"
      using assms(3-6) by (intro exI [of _ "\<lambda>_. True"] exI [of _ g] exI [of _ k]) simp
  qed (rule assms(1))
  have "\<And>c. cx_grant (g c) = cx_grant c" using assms(5) by blast
  then show "keeps_connections db db'" unfolding keeps_connections_def assms(3) by (simp add: image_image)
qed

lemma mild_same:
  "ob_draws db \<le> ob_draws db' \<Longrightarrow> ob_codes db' = ob_codes db \<Longrightarrow> ob_connections db' = ob_connections db \<Longrightarrow> ob_refresh db' = ob_refresh db \<Longrightarrow>
   mild db db'"
  by (rule mildI [where P = "\<lambda>_. True" and g = id and k = id]) auto

lemma mild_codes:
  "ob_codes db' = filter P (ob_codes db) \<Longrightarrow> ob_draws db' = ob_draws db \<Longrightarrow> ob_connections db' = ob_connections db \<Longrightarrow>
   ob_refresh db' = ob_refresh db \<Longrightarrow> mild db db'"
  by (rule mildI [where P = P and g = id and k = id]) auto

lemma mild_connections:
  "(\<And>c. cx_grant (g c) = cx_grant c \<and> (cx_active (g c) \<longrightarrow> cx_active c)) \<Longrightarrow> mild db (set_connections P g db)"
  by (rule mildI [where P = "\<lambda>_. True" and g = "\<lambda>c. if P c then g c else c" and k = id]) (auto simp: set_connections_def)

lemma mild_refresh:
  "(\<And>r. rt_hash (g r) = rt_hash r \<and> rt_familyId (g r) = rt_familyId r \<and> rt_grant (g r) = rt_grant r \<and> rt_status (g r) \<noteq> TokenActive) \<Longrightarrow>
   mild db (set_refresh P g db)"
  by (rule mildI [where P = "\<lambda>_. True" and g = id and k = "\<lambda>r. if P r then g r else r"]) (auto simp: set_refresh_def)

lemma mild_tokens: "mild db (set_families Q k db)" "mild db (delete_access_of s db)"
  by (rule mild_same; simp add: set_families_def delete_access_of_def)+

lemma inv_mild: "oauth_inv h d F G H db \<Longrightarrow> mild db db' \<Longrightarrow> oauth_inv h d F G H db'"
  by (auto simp: mild_def intro: inv_lessens)

text \<open>Running a statement.\<close>

lemma run_simps [effect_simps]:
  "bindS (db_get f) k0 db = k0 (f db) db"
  "bindS (now_of h) k1 db = k1 (oh_clock h (ob_ticks db)) (db\<lparr>ob_ticks := Suc (ob_ticks db)\<rparr>)"
  "bindS (draw h) k2 db = k2 (oh_random h (ob_draws db)) (db\<lparr>ob_draws := Suc (ob_draws db)\<rparr>)"
  "bindS (db_run g) k3 db = k3 () (g db)"
  "bindS (db_insert a g) k3 db = (if a db then k3 () (g db) else (Inl ''constraint failed'', db))"
  "bindS (retS x) k4 db = k4 x db"
  "bindS (throwS e) k5 db = (Inl e, db)"
  "bindS (bindS m f') k6 db = bindS m (\<lambda>x. bindS (f' x) k6) db"
  by (simp_all add: bindS_def db_get_def now_of_def draw_def db_run_def db_insert_def retS_def throwS_def split: prod.splits sum.splits)

text \<open>What keeps the tables in order, whatever is finished, used up or allowed.\<close>

definition keeps :: "oauth_host \<Rightarrow> string set \<Rightarrow> string set \<Rightarrow> string set \<Rightarrow> 'a oauth \<Rightarrow> bool" where
  "keeps h F G H m \<longleftrightarrow> (\<forall>d db. oauth_inv h d F G H db \<longrightarrow> oauth_inv h d F G H (snd (m db)))"

named_theorems keeping \<open>operations that keep the invariant of the OAuth tables\<close>

lemma keepsI: "(\<And>d db. oauth_inv h d F G H db \<Longrightarrow> oauth_inv h d F G H (snd (m db))) \<Longrightarrow> keeps h F G H m"
  by (simp add: keeps_def)

lemma keepsD: "keeps h F G H m \<Longrightarrow> oauth_inv h d F G H db \<Longrightarrow> oauth_inv h d F G H (snd (m db))"
  by (simp add: keeps_def)

lemma keeps_bind [keeping]: "keeps h F G H m \<Longrightarrow> (\<And>x. keeps h F G H (f x)) \<Longrightarrow> keeps h F G H (bindS m f)"
proof (rule keepsI)
  fix d db assume m: "keeps h F G H m" and f: "\<And>x. keeps h F G H (f x)" and "oauth_inv h d F G H db"
  then have "oauth_inv h d F G H (snd (m db))" by (intro keepsD)
  then show "oauth_inv h d F G H (snd (bindS m f db))"
    using f by (cases "m db"; cases "fst (m db)") (auto simp: bindS_def intro: keepsD)
qed

lemma keeps_ret [keeping]: "keeps h F G H (retS x)" "keeps h F G H (throwS e)" "keeps h F G H (db_get f)"
  by (simp_all add: keeps_def retS_def throwS_def db_get_def)

lemma keeps_run [keeping]: "(\<And>db. mild db (g db)) \<Longrightarrow> keeps h F G H (db_run g)"
  by (simp add: keeps_def db_run_def inv_mild)

lemma keeps_insert [keeping]: "(\<And>db. mild db (g db)) \<Longrightarrow> keeps h F G H (db_insert a g)"
  by (simp add: keeps_def db_insert_def inv_mild)

lemma keeps_delete: "(\<And>db. lessens db (g db)) \<Longrightarrow> keeps h F G {} (db_run g)"
  by (simp add: keeps_def db_run_def inv_lessens)

lemma keeps_host [keeping]: "keeps h F G H (now_of h)" "keeps h F G H (draw h)" "keeps h F G H (draw_pairing h)"
  by (rule keepsI, erule inv_mild, rule mild_same; simp add: now_of_def draw_def draw_pairing_def)+

lemma keeps_if [keeping]: "(P \<Longrightarrow> keeps h F G H m) \<Longrightarrow> (\<not> P \<Longrightarrow> keeps h F G H m') \<Longrightarrow> keeps h F G H (if P then m else m')"
  by simp

lemma keeps_option [keeping]:
  "(x = None \<Longrightarrow> keeps h F G H m) \<Longrightarrow> (\<And>y. x = Some y \<Longrightarrow> keeps h F G H (f y)) \<Longrightarrow>
   keeps h F G H (case x of None \<Rightarrow> m | Some y \<Rightarrow> f y)"
  by (cases x) auto

lemma keeps_let [keeping]: "keeps h F G H (f x) \<Longrightarrow> keeps h F G H (let y = x in f y)"
  by simp

lemma keeps_in_transaction [keeping]:
  assumes "keeps h F G H m"
  shows "keeps h F G H (in_transaction m)"
proof (rule keepsI)
  fix d db assume i: "oauth_inv h d F G H db"
  then have "oauth_inv h (ob_draws db) F G H db" by (simp add: oauth_inv_def)
  then have "ob_draws db \<le> ob_draws (snd (m db))" using oauth_invD(1) [OF keepsD [OF assms]] by blast
  then have "oauth_inv h d F G H (db\<lparr>ob_ticks := t, ob_draws := ob_draws (snd (m db))\<rparr>)" for t
    using inv_mild [OF i mild_same] by simp
  then show "oauth_inv h d F G H (snd (in_transaction m db))"
    using keepsD [OF assms i] by (auto simp: in_transaction_def split: prod.splits sum.splits)
qed

section \<open>The operations keep the tables in order\<close>

lemma keeps_requests [keeping]:
  "keeps h F G H (registerClient h name uris)"
  "keeps h F G H (createAuthorizationRequest h inp renewable ttl)"
  "keeps h F G H (getAuthorizationRequest h rid)"
  "keeps h F G H (listPendingAuthorizationRequests h)"
  "keeps h F G H (trimPendingAuthorizationRequests h c n)"
proof -
  show "keeps h F G H (registerClient h name uris)"
    unfolding registerClient_def by (intro keeping mild_same) simp_all
  show "keeps h F G H (createAuthorizationRequest h inp renewable ttl)"
    unfolding createAuthorizationRequest_def by (intro keeping mild_same) simp_all
  show "keeps h F G H (getAuthorizationRequest h rid)"
    unfolding getAuthorizationRequest_def by (intro keeping mild_same) simp_all
  show "keeps h F G H (listPendingAuthorizationRequests h)"
    unfolding listPendingAuthorizationRequests_def by (intro keeping mild_same) simp_all
  show "keeps h F G H (trimPendingAuthorizationRequests h c n)"
    unfolding trimPendingAuthorizationRequests_def by (intro keeping mild_same) (simp_all add: Let_def)
qed

lemma keeps_decide [keeping]: "keeps h F G H (decideAuthorizationRequest h rid status renewable)"
  unfolding decideAuthorizationRequest_def by (intro keeping mild_same) simp_all

lemma keeps_actor [keeping]: "keeps h F G H (oauthActor h name uri)"
  by (auto intro!: keepsI simp: oauthActor_def split: sum.splits)

lemma keeps_consume [keeping]: "keeps h F G H (consumeAuthorizationCode h code)"
  unfolding consumeAuthorizationCode_def by (intro keeping mild_codes) simp_all

lemma keeps_connection_marks [keeping]:
  "keeps h F G H (touchConnection h s)"
  "keeps h F G H (setConnectionYolo h s on)"
  "keeps h F G H (markConnectionConnected h s)"
  "keeps h F G H (markConnectionGrace s t u)"
  "keeps h F G H (clearConnectionGrace s)"
  unfolding touchConnection_def setConnectionYolo_def markConnectionConnected_def markConnectionGrace_def clearConnectionGrace_def
  by (intro keeping mild_connections; simp)+

lemma keeps_find_access [keeping]: "keeps h F G H (findAccessToken h token)"
  unfolding findAccessToken_def by (intro keeping mild_same) simp_all

lemma keeps_revoke_family [keeping]: "keeps h F G H (revokeFamilyRows h f why)" "keeps h F G H (revokeRefreshFamily h f why)"
proof -
  show f: "keeps h F G H (revokeFamilyRows h f why)"
    unfolding revokeFamilyRows_def by (intro keeping mild_refresh mild_tokens) simp
  show "keeps h F G H (revokeRefreshFamily h f why)" unfolding revokeRefreshFamily_def by (intro keeping f)
qed

lemma keeps_find_refresh [keeping]: "keeps h F G H (findRefreshToken h token)"
  unfolding findRefreshToken_def by (intro keeping)

lemma keeps_revoke_connection [keeping]: "keeps h F G H (revokeConnection h s why)"
  unfolding revokeConnection_def revoke_connection_row_def by (intro keeping mild_refresh mild_tokens mild_connections) simp_all

lemma keeps_revoke_row [keeping]: "keeps h F G H (db_run (revoke_connection_row s why t))" "keeps h F G H (db_run (delete_access_of s))"
  unfolding revoke_connection_row_def by (intro keeping mild_connections mild_tokens; simp)+

lemma keeps_revoke_token [keeping]: "keeps h F G H (revokeToken h token)"
  unfolding revokeToken_def by (intro keeping mild_refresh; (rule mild_same)?; simp)

lemma lessens_delete_clients: "lessens db (delete_clients P db)"
proof -
  let ?gone = "map oc_clientId (filter P (ob_clients db))"
  show ?thesis
    unfolding lessens_def delete_clients_def Let_def
    by (intro conjI exI [of _ "\<lambda>r. og_clientId (cd_grant r) \<notin> set ?gone"] exI [of _ "\<lambda>r. og_clientId (cx_grant r) \<notin> set ?gone"]
        exI [of _ "\<lambda>r. og_clientId (rt_grant r) \<notin> set ?gone"] exI [of _ id]) simp_all
qed

lemma keeps_maintenance [keeping]:
  "keeps h F G {} (pruneUnconnectedClients h age)"
  "keeps h F G {} (deleteClient h c force)"
  "keeps h F G {} invalidateEphemeralForRestart"
proof -
  show "keeps h F G {} (pruneUnconnectedClients h age)"
    unfolding pruneUnconnectedClients_def by (intro keeping keeps_delete lessens_delete_clients)
  have d: "keeps h F G {} (db_run (delete_clients P))" for P
    by (intro keeps_delete lessens_delete_clients)
  show "keeps h F G {} (deleteClient h c force)"
    unfolding deleteClient_def by (intro keeping d mild_connections) simp
  show "keeps h F G {} invalidateEphemeralForRestart"
    unfolding invalidateEphemeralForRestart_def by (intro keeping mild_codes [where P = "\<lambda>_. False"]) simp_all
qed

section \<open>The operations that add\<close>

text \<open>What is drawn next was not drawn before.\<close>

lemma given_next: "given_out h f (Suc d) (f (oh_random h d))"
  unfolding given_out_def by blast

lemma not_given_yet: "inj (\<lambda>k. f (oh_random h k)) \<Longrightarrow> d \<le> e \<Longrightarrow> \<not> given_out h f d (f (oh_random h e))"
  unfolding given_out_def by (auto dest!: injD)

lemma inj_prefix:
  "inj (oh_random h) \<Longrightarrow> inj (\<lambda>k. subject_of (oh_random h k))"
  "inj (oh_random h) \<Longrightarrow> inj (\<lambda>k. family_of (oh_random h k))"
  by (auto simp: inj_def subject_of_def family_of_def)

definition fresh_host :: "oauth_host \<Rightarrow> bool" where
  "fresh_host h \<longleftrightarrow> inj (oh_random h) \<and> inj (\<lambda>k. oh_hash h (oh_random h k))"

lemma inv_add_code:
  assumes i: "oauth_inv h d F G H db" and h: "fresh_host h"
    and db': "ob_codes db' = ob_codes db @ [c]" "ob_connections db' = ob_connections db" "ob_refresh db' = ob_refresh db"
      "ob_draws db' = Suc (Suc (ob_draws db))"
    and c: "cd_hash c = oh_hash h (oh_random h (ob_draws db))" "cd_subject c = subject_of (oh_random h (Suc (ob_draws db)))"
  shows "oauth_inv h d F G H db'"
proof -
  let ?d = "ob_draws db"
  note iD = oauth_invD [OF i]
  have up: "given_out h f ?d x \<Longrightarrow> given_out h f (Suc (Suc ?d)) x" for f x
    by (rule given_mono) auto
  have s: "\<not> given_out h subject_of ?d (cd_subject c)"
    unfolding c using not_given_yet [OF inj_prefix(1), of h ?d "Suc ?d"] h by (simp add: fresh_host_def)
  have g: "\<not> given_out h (oh_hash h) ?d (cd_hash c)"
    unfolding c using not_given_yet [of "oh_hash h" h ?d ?d] h by (simp add: fresh_host_def)
  have new: "given_out h subject_of (Suc (Suc ?d)) (cd_subject c)" "given_out h (oh_hash h) (Suc (Suc ?d)) (cd_hash c)"
    unfolding c by (rule given_next) (rule given_mono [OF given_next], simp)
  show ?thesis
  proof (rule oauth_invI, unfold db')
    show "d \<le> Suc (Suc ?d)" using iD(1) by simp
    show "distinct (map cd_subject (ob_codes db @ [c]))" using iD(2,3) s by auto
    show "given_out h (oh_hash h) (Suc (Suc ?d)) (cd_hash x) \<and> given_out h subject_of (Suc (Suc ?d)) (cd_subject x)"
      if "x \<in> set (ob_codes db @ [c])" for x
      using that iD(2) [of x] new up by auto
    show "given_out h subject_of (Suc (Suc ?d)) (cx_subject x) \<and> cx_subject x \<notin> cd_subject ` set (ob_codes db @ [c])"
      if "x \<in> set (ob_connections db)" for x
      using iD(4) [OF that] s up by auto
    show "given_out h subject_of (Suc (Suc ?d)) x \<and> x \<notin> cd_subject ` set (ob_codes db @ [c])" if "x \<in> F" for x
      using iD(9) [OF that] s up by auto
    show "given_out h subject_of (Suc (Suc ?d)) x \<and> x \<notin> cd_subject ` set (ob_codes db @ [c])" if "x \<in> H" for x
      using iD(12) [OF that] s up by auto
    show "given_out h (oh_hash h) (Suc (Suc ?d)) x \<and> x \<notin> cd_hash ` set (ob_codes db @ [c])" if "x \<in> G" for x
      using iD(11) [OF that] g up by auto
    show "given_out h (oh_hash h) (Suc (Suc ?d)) (rt_hash r) \<and> given_out h family_of (Suc (Suc ?d)) (rt_familyId r)"
      if "r \<in> set (ob_refresh db)" for r
      using iD(6) [OF that] up by blast
  qed (fact iD(5) iD(7) iD(8) iD(10) iD(13))+
qed

lemma inv_add_connection:
  assumes i: "oauth_inv h d F G H db" and s: "cx_subject c \<in> H" "\<And>x. x \<in> set (ob_connections db) \<Longrightarrow> cx_subject x \<noteq> cx_subject c"
  shows "oauth_inv h d F G H (db\<lparr>ob_connections := ob_connections db @ [c]\<rparr>)"
proof -
  note iD = oauth_invD [OF i]
  have f: "cx_subject c \<notin> F" using iD(13) [OF s(1)] s(2) by force
  let ?db' = "db\<lparr>ob_connections := ob_connections db @ [c]\<rparr>"
  show ?thesis
  proof (rule oauth_invI)
    show "given_out h subject_of (ob_draws ?db') (cx_subject x) \<and> cx_subject x \<notin> cd_subject ` set (ob_codes ?db')"
      if "x \<in> set (ob_connections ?db')" for x
      using that iD(4) [of x] iD(12) [OF s(1)] by auto
    show "\<exists>x \<in> set (ob_connections ?db'). cx_subject x = rt_subject r \<and> og_clientId (cx_grant x) = og_clientId (rt_grant r)"
      if "r \<in> set (ob_refresh ?db')" for r
      using that iD(7) [of r] by auto
    show "\<not> cx_active x" if "x \<in> set (ob_connections ?db')" "cx_subject x \<in> F" for x
      using that iD(10) [of x] f by auto
    show "x \<in> cx_subject ` set (ob_connections ?db')" if "x \<in> H" "x \<in> F" for x
      using iD(13) [OF that] by auto
  qed (simp_all add: iD(1,2,3,5,6,9,11,12) iD(8))
qed

lemma inv_add_refresh:
  assumes i: "oauth_inv h d F G H db"
    and db': "ob_codes db' = ob_codes db" "ob_connections db' = ob_connections db" "ob_refresh db' = ob_refresh db @ [r]"
      "ob_draws db \<le> ob_draws db'"
    and r: "given_out h (oh_hash h) (ob_draws db') (rt_hash r)" "given_out h family_of (ob_draws db') (rt_familyId r)"
      "rt_hash r \<notin> rt_hash ` set (ob_refresh db)"
      "\<exists>c \<in> set (ob_connections db). cx_subject c = rt_subject r \<and> og_clientId (cx_grant c) = og_clientId (rt_grant r)"
      "\<And>q. q \<in> set (ob_refresh db) \<Longrightarrow> rt_familyId q = rt_familyId r \<Longrightarrow> rt_status q \<noteq> TokenActive"
  shows "oauth_inv h d F G H db'"
proof -
  note iD = oauth_invD [OF i]
  have up: "given_out h f (ob_draws db) x \<Longrightarrow> given_out h f (ob_draws db') x" for f x
    using given_mono db'(4) by blast
  show ?thesis
  proof (rule oauth_invI, unfold db'(1-3))
    show "d \<le> ob_draws db'" using iD(1) db'(4) by simp
    show "distinct (map rt_hash (ob_refresh db @ [r]))" using iD(5) r(3) by auto
    show "given_out h (oh_hash h) (ob_draws db') (rt_hash q) \<and> given_out h family_of (ob_draws db') (rt_familyId q)"
      if "q \<in> set (ob_refresh db @ [r])" for q
      using that iD(6) [of q] r(1,2) up by auto
    show "\<exists>c \<in> set (ob_connections db). cx_subject c = rt_subject q \<and> og_clientId (cx_grant c) = og_clientId (rt_grant q)"
      if "q \<in> set (ob_refresh db @ [r])" for q
      using that iD(7) [of q] r(4) by auto
    show "q = q'" if "q \<in> set (ob_refresh db @ [r])" "q' \<in> set (ob_refresh db @ [r])" "rt_status q = TokenActive" "rt_status q' = TokenActive"
      "rt_familyId q = rt_familyId q'" for q q'
    proof -
      from that(1,2) consider "q \<in> set (ob_refresh db)" "q' \<in> set (ob_refresh db)" | "q = r" "q' = r"
        | "q \<in> set (ob_refresh db)" "q' = r" | "q = r" "q' \<in> set (ob_refresh db)"
        unfolding set_append by auto
      then show ?thesis
      proof cases
        case 1 then show ?thesis using iD(8) that(3-5) by blast
      next
        case 3 then show ?thesis using r(5) [of q] that(3,5) by simp
      next
        case 4 then show ?thesis using r(5) [of q'] that(4,5) by simp
      qed simp
    qed
    show "given_out h (oh_hash h) (ob_draws db') (cd_hash x) \<and> given_out h subject_of (ob_draws db') (cd_subject x)" if "x \<in> set (ob_codes db)" for x
      using iD(2) [OF that] up by blast
    show "given_out h subject_of (ob_draws db') (cx_subject x) \<and> cx_subject x \<notin> cd_subject ` set (ob_codes db)" if "x \<in> set (ob_connections db)" for x
      using iD(4) [OF that] up by blast
    show "given_out h subject_of (ob_draws db') x \<and> x \<notin> cd_subject ` set (ob_codes db)" if "x \<in> F" for x
      using iD(9) [OF that] up by blast
    show "given_out h subject_of (ob_draws db') x \<and> x \<notin> cd_subject ` set (ob_codes db)" if "x \<in> H" for x
      using iD(12) [OF that] up by blast
    show "given_out h (oh_hash h) (ob_draws db') x \<and> x \<notin> cd_hash ` set (ob_codes db)" if "x \<in> G" for x
      using iD(11) [OF that] up by blast
  qed (fact iD(3) iD(10) iD(13))+
qed

lemma find_snoc: "find P (xs @ [x]) = (case find P xs of None \<Rightarrow> if P x then Some x else None | Some y \<Rightarrow> Some y)"
  by (induction xs) auto

lemma find_got: "find P xs = Some x \<Longrightarrow> x \<in> set xs \<and> P x"
  by (auto simp: find_Some_iff)

text \<open>After it has answered, the connection is there, with the subject and the client of the grant.\<close>

definition connected :: "oauth_grant \<Rightarrow> oauth_db \<Rightarrow> bool" where
  "connected g db \<longleftrightarrow> (\<exists>c \<in> set (ob_connections db). cx_subject c = og_subject g \<and> og_clientId (cx_grant c) = og_clientId g)"

lemma ensure_connection:
  assumes i: "oauth_inv h d F G H db" and s: "og_subject g \<in> H"
  shows "oauth_inv h d F G H (snd (ensureConnection h g db)) \<and>
    (isl (fst (ensureConnection h g db)) \<or> connected g (snd (ensureConnection h g db)))"
proof -
  let ?db = "db\<lparr>ob_ticks := Suc (ob_ticks db)\<rparr>"
  let ?row = "new_connection_row g (oh_clock h (ob_ticks db))"
  have i1: "oauth_inv h d F G H ?db" by (rule inv_mild [OF i mild_same]) simp_all
  have row: "cx_subject ?row = og_subject g" "og_clientId (cx_grant ?row) = og_clientId g"
    by (simp_all add: new_connection_row_def stored_grant_def)
  show ?thesis
  proof (cases "getConnection (og_subject g) db")
    case None
    then have "\<And>x. x \<in> set (ob_connections db) \<Longrightarrow> cx_subject x \<noteq> og_subject g"
      by (auto simp: getConnection_def find_None_iff)
    then have i2: "oauth_inv h d F G H (?db\<lparr>ob_connections := ob_connections db @ [?row]\<rparr>)"
      using inv_add_connection [OF i1, of ?row] s row by simp
    show ?thesis
      using None i1 i2 row
      by (auto simp: ensureConnection_def getConnection_def find_snoc connected_def effect_simps split: option.splits)
  next
    case (Some c)
    then have "c \<in> set (ob_connections db) \<and> cx_subject c = og_subject g"
      unfolding getConnection_def by (rule find_got)
    then show ?thesis
      using Some i1 by (auto simp: ensureConnection_def getConnection_def connected_def effect_simps)
  qed
qed

lemma keeps_ensure: "og_subject g \<in> H \<Longrightarrow> keeps h F G H (ensureConnection h g)"
  using ensure_connection by (intro keepsI) blast

lemma keeps_issue_access: "og_subject g \<in> H \<Longrightarrow> keeps h F G H (issueAccessToken h g ttl)"
  unfolding issueAccessToken_def by (intro keeping keeps_ensure mild_same) simp_all

lemma issue_refresh_tail:
  assumes i: "oauth_inv h d F G H db" and c: "connected g db"
    and that: "given_out h family_of (ob_draws db) f" "\<And>q. q \<in> set (ob_refresh db) \<Longrightarrow> rt_familyId q = f \<Longrightarrow> rt_status q \<noteq> TokenActive"
  shows "oauth_inv h d F G H (snd (bindS (draw h) (\<lambda>token. bindS (insert_refresh h token g f t e) (\<lambda>_. retS token)) db))"
proof -
  let ?d = "ob_draws db"
  let ?hash = "oh_hash h (oh_random h ?d)"
  have i1: "oauth_inv h d F G H (db\<lparr>ob_draws := Suc ?d\<rparr>)" by (rule inv_mild [OF i mild_same]) simp_all
  show ?thesis
  proof (cases "list_ex (\<lambda>r. rt_hash r = ?hash) (ob_refresh db) \<or> \<not> has_client (og_clientId g) db")
    case False
    then have "?hash \<notin> rt_hash ` set (ob_refresh db)" by (auto simp: list_ex_iff)
    then show ?thesis
      using False c that given_mono [OF that(1), of "Suc ?d"] given_next [of h "oh_hash h" ?d]
      by (auto simp: insert_refresh_def effect_simps connected_def stored_grant_def intro!: inv_add_refresh [OF i])
  qed (use i1 in \<open>auto simp: insert_refresh_def effect_simps\<close>)
qed

lemma keeps_issue_refresh:
  assumes s: "og_subject g \<in> H" and h: "fresh_host h"
  shows "keeps h F G H (issueRefreshToken h g ttl None)"
proof (rule keepsI)
  fix d db assume i: "oauth_inv h d F G H db"
  obtain r db1 where e: "ensureConnection h g db = (r, db1)" by fastforce
  have i1: "oauth_inv h d F G H db1" and c1: "isl r \<or> connected g db1"
    using ensure_connection [OF i s] e by auto
  let ?t = "oh_clock h (ob_ticks db1)"
  let ?f = "family_of (oh_random h (ob_draws db1))"
  let ?db2 = "db1\<lparr>ob_ticks := Suc (ob_ticks db1), ob_draws := Suc (ob_draws db1)\<rparr>"
  have f: "rt_familyId q \<noteq> ?f" if "q \<in> set (ob_refresh db1)" for q
    using oauth_invD(6) [OF i1 that] not_given_yet [OF inj_prefix(2), of h "ob_draws db1" "ob_draws db1"] h
    by (auto simp: fresh_host_def)
  have i2: "oauth_inv h d F G H (?db2\<lparr>ob_families := fs\<rparr>)" for fs
    by (rule inv_mild [OF i1 mild_same]) simp_all
  have tail: "oauth_inv h d F G H (snd (bindS (draw h) (\<lambda>token. bindS (insert_refresh h token g ?f t e) (\<lambda>_. retS token)) (?db2\<lparr>ob_families := fs\<rparr>)))"
    if "connected g db1" for fs t e
    using issue_refresh_tail [OF i2, where g = g and f = ?f] that f given_next [of h family_of "ob_draws db1"] by (simp add: connected_def)
  show "oauth_inv h d F G H (snd (issueRefreshToken h g ttl None db))"
  proof (cases r)
    case (Inr c)
    then show ?thesis
      using e c1 i1 i2 [of "ob_families db1"] i2 tail [where fs = "ob_families db1"] tail
      by (auto simp: issueRefreshToken_def bindS_def [of "ensureConnection h g"] run_simps eff_simps getFamily_def split: option.splits)
  qed (use e i1 in \<open>simp add: issueRefreshToken_def eff_simps\<close>)
qed

lemma keeps_issue_code:
  assumes h: "fresh_host h"
  shows "keeps h F G H (issueAuthorizationCode h rid ttl)"
proof (rule keepsI)
  fix d db assume i: "oauth_inv h d F G H db"
  obtain res db1 where e: "getAuthorizationRequest h rid db = (res, db1)" by fastforce
  have i1: "oauth_inv h d F G H db1" using keepsD [OF keeps_requests(3) i, of rid] e by simp
  have same: "oauth_inv h d F G H (db1\<lparr>ob_ticks := n\<rparr>)"
    "ob_draws db1 \<le> m \<Longrightarrow> oauth_inv h d F G H (db1\<lparr>ob_ticks := n, ob_draws := m\<rparr>)"
    "ob_draws db1 \<le> m \<Longrightarrow> oauth_inv h d F G H (db1\<lparr>ob_draws := m, ob_ticks := n\<rparr>)" for n m
    by (rule inv_mild [OF i1 mild_same]; simp)+
  have added: "oauth_inv h d F G H (db1\<lparr>ob_ticks := n, ob_draws := Suc (Suc (ob_draws db1)), ob_codes := ob_codes db1 @ [c], ob_requests := q\<rparr>)"
    if "cd_hash c = oh_hash h (oh_random h (ob_draws db1))" "cd_subject c = subject_of (oh_random h (Suc (ob_draws db1)))" for n c q
    by (rule inv_add_code [OF i1 h, where c = c]) (simp_all add: that)
  show "oauth_inv h d F G H (snd (issueAuthorizationCode h rid ttl db))"
  proof (cases res)
    case (Inr req)
    show ?thesis
    proof (cases req)
      case (Some r)
      show ?thesis
        by (auto simp: issueAuthorizationCode_def bindS_def [of "getAuthorizationRequest h rid"] e Inr Some run_simps eff_simps
            bindS_def [of "oauthActor h n u" for n u] oauthActor_def Let_def i1 same added
            split: option.splits sum.splits)
    qed (simp add: issueAuthorizationCode_def bindS_def [of "getAuthorizationRequest h rid"] e Inr run_simps eff_simps i1)
  qed (simp add: issueAuthorizationCode_def bindS_def [of "getAuthorizationRequest h rid"] e i1)
qed

lemma given_all: "x \<in> set (ob_refresh db) \<Longrightarrow> oauth_inv h d F G H db \<Longrightarrow> given_out h family_of (ob_draws db) (rt_familyId x)"
  using oauth_invD(6) by blast

lemma rotate_tail:
  assumes i: "oauth_inv h d F G H db" and r: "r \<in> set (ob_refresh db)" "rt_hash r = hsh" "rt_status r = TokenActive"
  shows "oauth_inv h d F G H (snd (bindS (draw h) (\<lambda>next. bindS (db_run (spend hsh (oh_hash h next) t)) (\<lambda>_.
    bindS (insert_refresh h next (rt_grant r) (rt_familyId r) t u) (\<lambda>_. retS (Rotated next)))) db))"
proof -
  let ?d = "ob_draws db"
  let ?hash = "oh_hash h (oh_random h ?d)"
  let ?db1 = "spend hsh ?hash t (db\<lparr>ob_draws := Suc ?d\<rparr>)"
  have i0: "oauth_inv h d F G H (db\<lparr>ob_draws := Suc ?d\<rparr>)" by (rule inv_mild [OF i mild_same]) simp_all
  have i1: "oauth_inv h d F G H ?db1" unfolding spend_def by (rule inv_mild [OF i0 mild_refresh]) simp
  let ?row = "\<lparr>rt_hash = ?hash, rt_grant = stored_grant (rt_grant r), rt_familyId = rt_familyId r, rt_status = TokenActive,
     rt_createdAt = t, rt_expiresAt = u, rt_rotatedAt = None, rt_revokedAt = None, rt_replacedBy = None\<rparr>"
  have none: "rt_status q \<noteq> TokenActive" if q: "q \<in> set (ob_refresh ?db1)" "rt_familyId q = rt_familyId r" for q
  proof
    assume a: "rt_status q = TokenActive"
    from q(1) obtain q0 where q0: "q0 \<in> set (ob_refresh db)"
      "q = (if rt_hash q0 = hsh \<and> rt_status q0 = TokenActive
         then q0\<lparr>rt_status := TokenSpent, rt_rotatedAt := Some t, rt_replacedBy := Some ?hash\<rparr> else q0)"
      by (auto simp: spend_def set_refresh_def)
    from q0(2) a have "q = q0" "rt_hash q0 \<noteq> hsh" by (auto split: if_splits)
    then show False using oauth_invD(8) [OF i q0(1) r(1)] a r(2,3) q(2) by simp
  qed
  show ?thesis
  proof (cases "list_ex (\<lambda>q. rt_hash q = ?hash) (ob_refresh ?db1) \<or> \<not> has_client (og_clientId (rt_grant r)) ?db1")
    case False
    then have "?hash \<notin> rt_hash ` set (ob_refresh ?db1)" by (auto simp: list_ex_iff)
    moreover have "given_out h family_of (Suc ?d) (rt_familyId r)" "given_out h (oh_hash h) (Suc ?d) ?hash"
      using given_mono [OF given_all [OF r(1) i]] given_next [of h "oh_hash h"] by simp_all
    moreover have "\<exists>c \<in> set (ob_connections ?db1). cx_subject c = rt_subject r \<and> og_clientId (cx_grant c) = og_clientId (rt_grant r)"
      using oauth_invD(7) [OF i r(1)] by (simp add: spend_def set_refresh_def)
    moreover have "ob_draws ?db1 = Suc ?d" by (simp add: spend_def set_refresh_def)
    ultimately have "oauth_inv h d F G H (?db1\<lparr>ob_refresh := ob_refresh ?db1 @ [?row]\<rparr>)"
      by (intro inv_add_refresh [OF i1, where r = ?row]) (use none in \<open>simp_all add: stored_grant_def\<close>)
    then show ?thesis using False by (simp add: insert_refresh_def run_simps eff_simps)
  qed (use i1 in \<open>auto simp: insert_refresh_def run_simps\<close>)
qed

lemma keeps_rotate [keeping]: "keeps h F G H (rotateRefreshTokenSecurely h token)"
  unfolding rotateRefreshTokenSecurely_def
proof (intro keeps_in_transaction keepsI)
  fix d db assume i: "oauth_inv h d F G H db"
  have i1: "oauth_inv h d F G H (db\<lparr>ob_ticks := n\<rparr>)" for n by (rule inv_mild [OF i mild_same]) simp_all
  have revoke: "oauth_inv h d F G H (snd (bindS (revokeFamilyRows h f ''EXPIRED'') (\<lambda>_. retS RotationInvalid) (db\<lparr>ob_ticks := n\<rparr>)))" for f n
    by (rule keepsD [OF _ i1]) (intro keeping)
  have replay: "oauth_inv h d F G H (snd (bindS (revokeFamilyRows h f ''REFRESH_TOKEN_REUSE'') (\<lambda>_. bindS (db_run (delete_access_of s)) (\<lambda>_.
             bindS (now_of h) (\<lambda>t'. bindS (db_run (revoke_connection_row s ''REFRESH_TOKEN_REUSE'' t')) (\<lambda>_. retS RotationReplayed))))
         (db\<lparr>ob_ticks := n\<rparr>)))" for f s n
    by (rule keepsD [OF _ i1]) (intro keeping)
  show "oauth_inv h d F G H (snd (bindS (db_get (find_refresh h token)) (\<lambda>row.
       case row of None \<Rightarrow> retS RotationInvalid | Some r \<Rightarrow> rotate_found h token r) db))"
  proof (cases "find_refresh h token db")
    case (Some r)
    then have r: "r \<in> set (ob_refresh db)" "rt_hash r = oh_hash h token"
      using find_got unfolding find_refresh_def by fastforce+
    show ?thesis
    proof (cases "getFamily (rt_familyId r) db")
      case (Some fm)
      show ?thesis
        using \<open>find_refresh h token db = Some r\<close> Some i1 revoke replay rotate_tail [OF i1, where r = r and hsh = "oh_hash h token"] r
        by (simp add: rotate_found_def run_simps(1,2) eff_simps)
    qed (use i \<open>find_refresh h token db = Some r\<close> in \<open>simp add: rotate_found_def run_simps eff_simps\<close>)
  qed (use i in \<open>simp add: run_simps eff_simps\<close>)
qed

lemma consume_code:
  assumes i: "oauth_inv h d F G H db" and c: "consumeAuthorizationCode h code db = (Inr (Some r), db')"
  shows "r \<in> set (ob_codes db) \<and> cd_hash r = oh_hash h code \<and> oauth_inv h d F (insert (oh_hash h code) G) (insert (cd_subject r) H) db'"
proof -
  let ?cs = "filter (\<lambda>q. cd_hash q \<noteq> oh_hash h code) (ob_codes db)"
  have find: "find (\<lambda>r. cd_hash r = oh_hash h code) (ob_codes db) = Some r"
    and db': "db' = db\<lparr>ob_codes := ?cs, ob_ticks := Suc (ob_ticks db)\<rparr>"
    using c by (auto simp: consumeAuthorizationCode_def run_simps eff_simps split: option.splits if_splits)
  have r: "r \<in> set (ob_codes db)" "cd_hash r = oh_hash h code" using find_got [OF find] by auto
  have i': "oauth_inv h d F G H db'" by (rule inv_mild [OF i mild_codes]) (simp_all add: db')
  note iD = oauth_invD [OF i]
  have gone: "cd_subject r \<notin> cd_subject ` set (ob_codes db')"
  proof
    assume "cd_subject r \<in> cd_subject ` set (ob_codes db')"
    then obtain q where "q \<in> set (ob_codes db)" "cd_hash q \<noteq> oh_hash h code" "cd_subject q = cd_subject r"
      unfolding db' by auto
    then show False using iD(3) r by (auto simp: distinct_map dest: inj_onD)
  qed
  have f: "cd_subject r \<notin> F" using iD(9) [of "cd_subject r"] r(1) by blast
  have d: "given_out h (oh_hash h) (ob_draws db') (oh_hash h code)" "given_out h subject_of (ob_draws db') (cd_subject r)"
    using iD(2) [OF r(1)] r(2) by (simp_all add: db')
  have "oh_hash h code \<notin> cd_hash ` set (ob_codes db')" unfolding db' by auto
  then show ?thesis using i' gone f d r unfolding oauth_inv_def by simp
qed

lemma inv_weaken: "oauth_inv h d F G H db \<Longrightarrow> G' \<subseteq> G \<Longrightarrow> H' \<subseteq> H \<Longrightarrow> oauth_inv h d F G' H' db"
  unfolding oauth_inv_def by (elim conjE, intro conjI) blast+

text \<open>Whoever holds a refresh token may be given more.\<close>

lemma inv_holder:
  assumes i: "oauth_inv h d F G H db" and r: "r \<in> set (ob_refresh db)"
  shows "oauth_inv h d F G (insert (rt_subject r) H) db"
proof -
  obtain c where c: "c \<in> set (ob_connections db)" "cx_subject c = rt_subject r" using oauth_invD(7) [OF i r] by blast
  then have "given_out h subject_of (ob_draws db) (rt_subject r)" "rt_subject r \<notin> cd_subject ` set (ob_codes db)"
    using oauth_invD(4) [OF i c(1)] by auto
  moreover have "rt_subject r \<in> cx_subject ` set (ob_connections db)" by (rule image_eqI [OF _ c(1)]) (simp add: c(2))
  ultimately show ?thesis using i unfolding oauth_inv_def by simp
qed

text \<open>A subject none of whose connections is active has come to its end.\<close>

lemma inv_finish:
  assumes i: "oauth_inv h d F G {} db" and c: "c \<in> set (ob_connections db)" "cx_subject c = s"
    and ended: "\<And>x. x \<in> set (ob_connections db) \<Longrightarrow> cx_subject x = s \<Longrightarrow> \<not> cx_active x"
  shows "oauth_inv h d (insert s F) G {} db"
proof -
  have "given_out h subject_of (ob_draws db) s" "s \<notin> cd_subject ` set (ob_codes db)"
    using oauth_invD(4) [OF i c(1)] c(2) by auto
  then show ?thesis using i ended unfolding oauth_inv_def by simp
qed

end
