(* ===== verification/OAuth.thy ===== *)
theory OAuth
  imports OAuthStore ControlParse
begin

text \<open>
  apps/core/src/auth/oauth.ts with oauth-token-issuance.ts and the scope and resource rules of oauth-helpers.ts: the
  OAuth server over the tables of OAuthStore. Audit entries, origins of connections, the metadata documents and
  the redirect URL around a code are left out. Lengths are those of the texts.
\<close>

section \<open>Scopes and resources\<close>

text \<open>\<open>split(/\s+/)\<close>: the words, and an empty text where the text begins or ends with white space.\<close>

fun word_prefix :: "string \<Rightarrow> string" where
  "word_prefix [] = []"
| "word_prefix (c # s) = (if leading_white (c # s) \<noteq> 0 then [] else c # word_prefix s)"

lemma skip_white_shorter: "length (skip_white s) \<le> length s"
proof (induction s rule: skip_white.induct)
  case (1 s)
  then show ?case by (subst skip_white.simps) auto
qed

function text_words :: "string \<Rightarrow> string list" where
  "text_words s = (let t = skip_white s in if t = [] \<or> leading_white t \<noteq> 0 then [] else word_prefix t # text_words (drop (length (word_prefix t)) t))"
  by pat_completeness auto

termination
proof (relation "measure length")
  fix s t :: string
  assume t: "t = skip_white s" "\<not> (t = [] \<or> leading_white t \<noteq> 0)"
  then have "word_prefix t \<noteq> []" by (metis word_prefix.simps(2) list.exhaust list.distinct(1))
  then have "0 < length t" "0 < length (word_prefix t)" using t(2) by simp_all
  then have "length t - length (word_prefix t) < length t" by linarith
  also have "\<dots> \<le> length s" unfolding t(1) by (rule skip_white_shorter)
  finally show "(drop (length (word_prefix t)) t, s) \<in> measure length" by simp
qed simp

declare text_words.simps [simp del]

definition split_white :: "string \<Rightarrow> string list" where
  "split_white s =
     (if s = [] then [[]]
      else (if leading_white s \<noteq> 0 then [[]] else []) @ text_words s @ (if trim_end s \<noteq> s then [[]] else []))"

definition SUPPORTED_SCOPES :: "string list" where
  "SUPPORTED_SCOPES = [''mcp'', ''offline_access'']"

definition normalizeScope :: "string option \<Rightarrow> string + string" where
  "normalizeScope v =
     (let scopes = filter (\<lambda>w. w \<noteq> []) (map js_trim (split_white (case v of None \<Rightarrow> ''mcp'' | Some s \<Rightarrow> s)));
          scopes' = (if ''mcp'' \<in> set scopes then scopes else ''mcp'' # scopes);
          unique = rev (remdups (rev scopes')) in
      if list_all (\<lambda>w. w \<in> set SUPPORTED_SCOPES) unique then Inr (join_text '' '' unique) else Inl ''unsupported OAuth scope'')"

definition canonicalResource :: "string \<Rightarrow> string" where
  "canonicalResource v = rev (dropWhile (\<lambda>c. c = CHR ''/'') (rev (js_trim v)))"

definition resourceMatches :: "string option \<Rightarrow> string \<Rightarrow> bool" where
  "resourceMatches requested expected =
     (let wanted = canonicalResource expected; v = js_trim (case requested of None \<Rightarrow> [] | Some s \<Rightarrow> s) in
      v = [] \<or> canonicalResource v = wanted \<or> canonicalResource v = cut_suffix ''/mcp'' wanted)"

definition resolvedResource :: "string option \<Rightarrow> string \<Rightarrow> string + string" where
  "resolvedResource requested expected =
     (if resourceMatches requested expected then Inr expected else Inl ''resource does not match this MCP server'')"

definition lift_sum :: "string + 'a \<Rightarrow> 'a oauth" where
  "lift_sum r db = (r, db)"

section \<open>The service\<close>

record oauth_service =
  sv_issuer :: string
  sv_resource :: string
  sv_requestTtl :: int
  sv_codeTtl :: int
  sv_accessTtl :: int
  sv_refreshTtl :: int

record authorize_input =
  ai_client_id :: string
  ai_redirect_uri :: string
  ai_response_type :: string
  ai_scope :: "string option"
  ai_resource :: "string option"
  ai_code_challenge :: string
  ai_code_challenge_method :: string
  ai_state :: "string option"
  ai_renewable :: "bool option"
  ai_remoteIp :: "string option"

record code_input =
  ci_grant_type :: string
  ci_client_id :: string
  ci_code :: string
  ci_redirect_uri :: string
  ci_code_verifier :: string
  ci_resource :: "string option"

record refresh_input =
  ri_grant_type :: string
  ri_client_id :: string
  ri_refresh_token :: string
  ri_resource :: "string option"
  ri_scope :: "string option"

record token_response =
  tr_access_token :: string
  tr_scope :: string
  tr_refresh_token :: "string option"

record remote_identity =
  id_actor :: string
  id_subject :: string
  id_audience :: string
  id_expiresAt :: int

definition request_of :: "authorize_input \<Rightarrow> string \<Rightarrow> string \<Rightarrow> auth_request" where
  "request_of inp resource scope = \<lparr>ar_id = [], ar_clientId = ai_client_id inp, ar_redirectUri = ai_redirect_uri inp, ar_scope = scope,
     ar_resource = resource, ar_codeChallenge = ai_code_challenge inp, ar_state = ai_state inp, ar_remoteIp = ai_remoteIp inp,
     ar_pairingCode = [], ar_status = RequestPending, ar_renewable = True, ar_createdAt = 0, ar_expiresAt = 0, ar_decidedAt = None\<rparr>"

definition beginAuthorization :: "oauth_host \<Rightarrow> oauth_service \<Rightarrow> authorize_input \<Rightarrow> auth_request oauth" where
  "beginAuthorization h sv inp =
     bindS (db_get (getClient (ai_client_id inp))) (\<lambda>client.
       case client of
         None \<Rightarrow> throwS ''unknown OAuth client_id''
       | Some c \<Rightarrow>
           if ai_response_type inp \<noteq> ''code'' then throwS ''response_type must be code''
           else if ai_redirect_uri inp \<notin> set (oc_redirectUris c) then throwS ''redirect_uri does not exactly match the registered client''
           else bindS (lift_sum (resolvedResource (ai_resource inp) (sv_resource sv))) (\<lambda>resource.
             if ai_code_challenge_method inp \<noteq> ''S256'' then throwS ''PKCE code_challenge_method must be S256''
             else if js_length (ai_code_challenge inp) < 43 then throwS ''PKCE code_challenge is required''
             else bindS (lift_sum (normalizeScope (ai_scope inp))) (\<lambda>scope.
               bindS (listPendingAuthorizationRequests h) (\<lambda>_.
               bindS (createAuthorizationRequest h (request_of inp resource scope) (ai_renewable inp) (sv_requestTtl sv)) (\<lambda>pending.
               bindS (trimPendingAuthorizationRequests h (oc_clientId c) 5) (\<lambda>_.
                 retS pending))))))"

definition decideAuthorization :: "oauth_host \<Rightarrow> string \<Rightarrow> request_status \<Rightarrow> bool option \<Rightarrow> auth_request oauth" where
  "decideAuthorization h rid status renewable =
     bindS (decideAuthorizationRequest h rid status renewable) (\<lambda>req.
       case req of None \<Rightarrow> throwS ''OAuth authorization request not found'' | Some r \<Rightarrow> retS r)"

definition continueAuthorization :: "oauth_host \<Rightarrow> oauth_service \<Rightarrow> string \<Rightarrow> string oauth" where
  "continueAuthorization h sv rid =
     bindS (getAuthorizationRequest h rid) (\<lambda>req.
       case req of
         None \<Rightarrow> throwS ''OAuth authorization request is not approved''
       | Some r \<Rightarrow> if ar_status r \<noteq> RequestApproved then throwS ''OAuth authorization request is not approved''
           else issueAuthorizationCode h rid (sv_codeTtl sv))"

definition without_offline :: "string \<Rightarrow> string" where
  "without_offline scope = join_text '' '' (filter (\<lambda>w. w \<noteq> ''offline_access'') (split_white scope))"

definition issueGrantTokens :: "oauth_host \<Rightarrow> oauth_service \<Rightarrow> oauth_grant \<Rightarrow> token_response oauth" where
  "issueGrantTokens h sv g =
     bindS (ensureConnection h g) (\<lambda>_. bindS (issueAccessToken h g (sv_accessTtl sv)) (\<lambda>access.
       (let scope = (if og_renewable g = Some False then without_offline (og_scope g) else og_scope g);
            wants = (case og_renewable g of Some b \<Rightarrow> b | None \<Rightarrow> ''offline_access'' \<in> set (split_white (og_scope g))) in
        if wants then bindS (issueRefreshToken h g (sv_refreshTtl sv) None) (\<lambda>refresh.
          retS \<lparr>tr_access_token = access, tr_scope = scope, tr_refresh_token = Some refresh\<rparr>)
        else retS \<lparr>tr_access_token = access, tr_scope = scope, tr_refresh_token = None\<rparr>)))"

definition exchangeAuthorizationCode :: "oauth_host \<Rightarrow> oauth_service \<Rightarrow> code_input \<Rightarrow> token_response oauth" where
  "exchangeAuthorizationCode h sv inp =
     (if ci_grant_type inp \<noteq> ''authorization_code'' then throwS ''unsupported grant_type''
      else bindS (lift_sum (resolvedResource (ci_resource inp) (sv_resource sv))) (\<lambda>resource.
        bindS (consumeAuthorizationCode h (ci_code inp)) (\<lambda>row.
          case row of
            None \<Rightarrow> throwS ''invalid authorization code''
          | Some r \<Rightarrow>
              if og_clientId (cd_grant r) \<noteq> ci_client_id inp \<or> cd_redirectUri r \<noteq> ci_redirect_uri inp \<or> og_resource (cd_grant r) \<noteq> resource
              then throwS ''authorization code binding mismatch''
              else if js_length (ci_code_verifier inp) < 43 then throwS ''PKCE code_verifier is invalid''
              else if oh_sha h (ci_code_verifier inp) \<noteq> cd_codeChallenge r then throwS ''PKCE verification failed''
              else issueGrantTokens h sv (cd_grant r))))"

definition exchangeRefreshToken :: "oauth_host \<Rightarrow> oauth_service \<Rightarrow> refresh_input \<Rightarrow> token_response oauth" where
  "exchangeRefreshToken h sv inp =
     (if ri_grant_type inp \<noteq> ''refresh_token'' then throwS ''unsupported grant_type''
      else bindS (lift_sum (resolvedResource (ri_resource inp) (sv_resource sv))) (\<lambda>resource.
        bindS (findRefreshToken h (ri_refresh_token inp)) (\<lambda>row.
          case row of
            None \<Rightarrow> throwS ''invalid refresh token''
          | Some r \<Rightarrow>
              if og_clientId (rt_grant r) \<noteq> ri_client_id inp \<or> og_resource (rt_grant r) \<noteq> resource then throwS ''invalid refresh token''
              else if rt_status r \<noteq> TokenActive then
                bindS (rotateRefreshTokenSecurely h (ri_refresh_token inp)) (\<lambda>_. throwS ''invalid refresh token'')
              else bindS (case ri_scope inp of
                    Some s \<Rightarrow> if s \<noteq> [] then lift_sum (normalizeScope (Some s)) else retS (og_scope (rt_grant r))
                  | None \<Rightarrow> retS (og_scope (rt_grant r))) (\<lambda>scope.
                if list_ex (\<lambda>w. w \<notin> set (split_white (og_scope (rt_grant r)))) (split_white scope)
                then throwS ''refresh scope exceeds original grant''
                else bindS (rotateRefreshTokenSecurely h (ri_refresh_token inp)) (\<lambda>rotated.
                  case rotated of
                    Rotated next \<Rightarrow>
                      bindS (issueAccessToken h (stored_grant (rt_grant r)\<lparr>og_scope := scope\<rparr>) (sv_accessTtl sv)) (\<lambda>access.
                        retS \<lparr>tr_access_token = access, tr_scope = scope, tr_refresh_token = Some next\<rparr>)
                  | _ \<Rightarrow> throwS ''invalid refresh token'')))))"

definition verifyAccessToken :: "oauth_host \<Rightarrow> oauth_service \<Rightarrow> string \<Rightarrow> remote_identity oauth" where
  "verifyAccessToken h sv token =
     bindS (findAccessToken h token) (\<lambda>row.
       case row of
         None \<Rightarrow> throwS ''invalid OAuth access token''
       | Some r \<Rightarrow>
           if og_resource (at_grant r) \<noteq> sv_resource sv then throwS ''invalid OAuth access token''
           else bindS (db_get (getConnection (og_subject (at_grant r)))) (\<lambda>conn.
             case conn of
               None \<Rightarrow> throwS ''invalid OAuth access token''
             | Some c \<Rightarrow>
                 if \<not> cx_active c then throwS ''invalid OAuth access token''
                 else bindS (touchConnection h (og_subject (at_grant r))) (\<lambda>_.
                   retS \<lparr>id_actor = og_actor (at_grant r), id_subject = og_subject (at_grant r), id_audience = sv_resource sv,
                         id_expiresAt = at_expiresAt r\<rparr>)))"

text \<open>What happens to the server.\<close>

datatype oauth_event =
    ORegister string "string list"
  | OAuthorize authorize_input
  | OApprove string "bool option"
  | ODeny string
  | OStatus string
  | OListPending
  | OContinue string
  | OExchangeCode code_input
  | OExchangeRefresh refresh_input
  | OVerify string
  | ORevokeToken string
  | ORevokeConnection string string
  | ORevokeFamily string string
  | OYolo string bool
  | OConnected string
  | OGrace string int int
  | OClearGrace string
  | OPrune int
  | ODeleteClient string bool
  | ORestart

fun oauth_step :: "oauth_host \<Rightarrow> oauth_service \<Rightarrow> oauth_db \<Rightarrow> oauth_event \<Rightarrow> oauth_db" where
  "oauth_step h sv db (ORegister name uris) = snd (registerClient h name uris db)"
| "oauth_step h sv db (OAuthorize inp) = snd (beginAuthorization h sv inp db)"
| "oauth_step h sv db (OApprove rid renewable) = snd (decideAuthorization h rid RequestApproved renewable db)"
| "oauth_step h sv db (ODeny rid) = snd (decideAuthorization h rid RequestDenied None db)"
| "oauth_step h sv db (OStatus rid) = snd (getAuthorizationRequest h rid db)"
| "oauth_step h sv db OListPending = snd (listPendingAuthorizationRequests h db)"
| "oauth_step h sv db (OContinue rid) = snd (continueAuthorization h sv rid db)"
| "oauth_step h sv db (OExchangeCode inp) = snd (exchangeAuthorizationCode h sv inp db)"
| "oauth_step h sv db (OExchangeRefresh inp) = snd (exchangeRefreshToken h sv inp db)"
| "oauth_step h sv db (OVerify token) = snd (verifyAccessToken h sv token db)"
| "oauth_step h sv db (ORevokeToken token) = snd (revokeToken h token db)"
| "oauth_step h sv db (ORevokeConnection s why) = snd (revokeConnection h s why db)"
| "oauth_step h sv db (ORevokeFamily f why) = snd (revokeRefreshFamily h f why db)"
| "oauth_step h sv db (OYolo s on) = snd (setConnectionYolo h s on db)"
| "oauth_step h sv db (OConnected s) = snd (markConnectionConnected h s db)"
| "oauth_step h sv db (OGrace s t u) = snd (markConnectionGrace s t u db)"
| "oauth_step h sv db (OClearGrace s) = snd (clearConnectionGrace s db)"
| "oauth_step h sv db (OPrune age) = snd (pruneUnconnectedClients h age db)"
| "oauth_step h sv db (ODeleteClient c force) = snd (deleteClient h c force db)"
| "oauth_step h sv db ORestart = snd (invalidateEphemeralForRestart db)"

section \<open>The service keeps the tables in order\<close>

lemma keeps_lift [keeping]: "keeps h F G H (lift_sum r)"
  by (simp add: keeps_def lift_sum_def)

lemma keeps_begin [keeping]: "keeps h F G H (beginAuthorization h sv inp)"
  unfolding beginAuthorization_def by (intro keeping)

lemma keeps_decision [keeping]: "keeps h F G H (decideAuthorization h rid status renewable)"
  unfolding decideAuthorization_def by (intro keeping)

lemma keeps_continue: "fresh_host h \<Longrightarrow> keeps h F G H (continueAuthorization h sv rid)"
  unfolding continueAuthorization_def by (intro keeping keeps_issue_code)

lemma keeps_verify [keeping]: "keeps h F G H (verifyAccessToken h sv token)"
  unfolding verifyAccessToken_def by (intro keeping)

lemma keeps_grant_tokens:
  assumes "fresh_host h" "og_subject g \<in> H"
  shows "keeps h F G H (issueGrantTokens h sv g)"
  unfolding issueGrantTokens_def Let_def
  by (intro keeping keeps_ensure keeps_issue_access keeps_issue_refresh assms)

text \<open>A code that was consumed is used up, and its subject may be given tokens.\<close>

lemma exchange_code_inv:
  assumes h: "fresh_host h" and i: "oauth_inv h d F G {} db"
  shows "oauth_inv h d F G {} (snd (exchangeAuthorizationCode h sv inp db)) \<and>
    (fst (exchangeAuthorizationCode h sv inp db) = Inr tokens \<longrightarrow>
       oauth_inv h d F (insert (oh_hash h (ci_code inp)) G) {} (snd (exchangeAuthorizationCode h sv inp db)))"
proof -
  obtain res db1 where c: "consumeAuthorizationCode h (ci_code inp) db = (res, db1)" by fastforce
  have i1: "oauth_inv h d F G {} db1" using keepsD [OF keeps_consume i, of "ci_code inp"] c by simp
  show ?thesis
  proof (cases "ci_grant_type inp = ''authorization_code'' \<and> (\<exists>resource r. resolvedResource (ci_resource inp) (sv_resource sv) = Inr resource \<and> res = Inr (Some r))")
    case True
    then obtain resource r where t: "resolvedResource (ci_resource inp) (sv_resource sv) = Inr resource" "res = Inr (Some r)" by blast
    have i2: "oauth_inv h d F (insert (oh_hash h (ci_code inp)) G) {cd_subject r} db1"
      using consume_code [OF i] c t(2) by blast
    have i3: "oauth_inv h d F (insert (oh_hash h (ci_code inp)) G) {} (snd (issueGrantTokens h sv (cd_grant r) db1))"
      by (rule inv_weaken [OF keepsD [OF keeps_grant_tokens [OF h] i2]]) auto
    have i4: "oauth_inv h d F (insert (oh_hash h (ci_code inp)) G) {} db1" by (rule inv_weaken [OF i2]) auto
    have "oauth_inv h d F (insert (oh_hash h (ci_code inp)) G) {} (snd (exchangeAuthorizationCode h sv inp db))"
      using True t c i3 i4 by (simp add: exchangeAuthorizationCode_def bindS_def lift_sum_def throwS_def)
    then show ?thesis using inv_weaken [of h d F "insert (oh_hash h (ci_code inp)) G" "{}"] by blast
  next
    case False
    then show ?thesis
      using c i i1 by (auto simp: exchangeAuthorizationCode_def bindS_def lift_sum_def throwS_def split: sum.splits option.splits)
  qed
qed

lemma keeps_exchange_refresh:
  "keeps h F G {} (exchangeRefreshToken h sv inp)"
proof (rule keepsI)
  fix d db assume i: "oauth_inv h d F G {} db"
  obtain res db1 where f: "findRefreshToken h (ri_refresh_token inp) db = (res, db1)" by fastforce
  have i1: "oauth_inv h d F G {} db1" using keepsD [OF keeps_find_refresh i, of "ri_refresh_token inp"] f by simp
  show "oauth_inv h d F G {} (snd (exchangeRefreshToken h sv inp db))"
  proof (cases "\<exists>r. res = Inr (Some r)")
    case True
    then obtain r where r: "res = Inr (Some r)" by blast
    then have "find_refresh h (ri_refresh_token inp) db = Some r" "ob_refresh db1 = ob_refresh db"
      using f by (auto simp: findRefreshToken_def run_simps eff_simps bindS_def [of "revokeRefreshFamily h f w" for f w]
          split: option.splits if_splits prod.splits sum.splits)
    then have "r \<in> set (ob_refresh db1)" using find_got unfolding find_refresh_def by fastforce
    then have i2: "oauth_inv h d F G {rt_subject r} db1" by (rule inv_holder [OF i1])
    have issue: "keeps h F G {rt_subject r} (issueAccessToken h (stored_grant (rt_grant r)\<lparr>og_scope := s\<rparr>) ttl)" for s ttl
      by (rule keeps_issue_access) (simp add: stored_grant_def)
    have rest: "keeps h F G {rt_subject r} (bindS (rotateRefreshTokenSecurely h t) (\<lambda>rotated. case rotated of
        Rotated next \<Rightarrow> bindS (issueAccessToken h (stored_grant (rt_grant r)\<lparr>og_scope := scope\<rparr>) ttl) (\<lambda>access.
            retS \<lparr>tr_access_token = access, tr_scope = scope, tr_refresh_token = Some next\<rparr>)
      | _ \<Rightarrow> throwS e))" for t scope ttl e
      by (intro keeping; split rotation.split; intro conjI allI impI keeping issue)
    have scope: "keeps h F G {rt_subject r} (case ri_scope inp of
                    Some s \<Rightarrow> if s \<noteq> [] then lift_sum (normalizeScope (Some s)) else retS (og_scope (rt_grant r))
                  | None \<Rightarrow> retS (og_scope (rt_grant r)))"
      by (intro keeping)
    have "keeps h F G {rt_subject r} (bindS (rotateRefreshTokenSecurely h (ri_refresh_token inp)) (\<lambda>_. throwS e :: token_response oauth))" for e
      by (intro keeping)
    note all = keepsD [OF this i2] keepsD [OF keeps_bind [OF scope keeps_if [OF keeps_ret(2) rest]] i2]
    have i3: "oauth_inv h d F G {rt_subject r} x \<Longrightarrow> oauth_inv h d F G {} x" for x
      by (erule inv_weaken) auto
    show ?thesis
      using i i1 f r i3 [OF all(1)] i3 [OF all(2)]
      by (simp add: exchangeRefreshToken_def bindS_def [of "findRefreshToken h t" for t] bindS_def [of "lift_sum x" for x] lift_sum_def [of x db for x]
          eff_simps split: sum.splits)
  next
    case False
    then show ?thesis
      using i i1 f
      by (auto simp: exchangeRefreshToken_def bindS_def [of "findRefreshToken h t" for t] bindS_def [of "lift_sum x" for x] lift_sum_def [of x db for x]
          eff_simps split: sum.splits option.splits)
  qed
qed

lemma oauth_step_inv:
  assumes h: "fresh_host h" and i: "oauth_inv h d F G {} db"
  shows "oauth_inv h d F G {} (oauth_step h sv db ev)"
proof (cases ev)
  case (OExchangeCode inp)
  then show ?thesis using exchange_code_inv [OF h i] by simp
qed (simp_all add: keepsD [OF _ i] keeping keeps_continue [OF h] keeps_exchange_refresh)

interpretation oauth_runs: invariant_system "oauth_step h sv" "\<lambda>db. fresh_host h \<and> oauth_inv h d F G {} db" for h sv d F G
  by unfold_locales (simp add: oauth_step_inv)

lemma oauth_run_inv: "fresh_host h \<Longrightarrow> oauth_inv h d F G {} db \<Longrightarrow> oauth_inv h d F G {} (foldl (oauth_step h sv) db evs)"
  using oauth_runs.run_inv by blast

lemma reached_inv: "fresh_host h \<Longrightarrow> oauth_inv h 0 {} {} {} (foldl (oauth_step h sv) empty_oauth evs)"
  by (rule oauth_run_inv [OF _ oauth_inv_empty])

text \<open>Nobody is let in as a subject that is finished.\<close>

lemma finished_not_verified:
  assumes i: "oauth_inv h d F G H db" and v: "fst (verifyAccessToken h sv token db) = Inr who"
  shows "id_subject who \<notin> F"
proof -
  obtain res db1 where f: "findAccessToken h token db = (res, db1)" by fastforce
  have i1: "oauth_inv h d F G H db1" using keepsD [OF keeps_find_access i, of token] f by simp
  have "\<exists>c. getConnection (id_subject who) db1 = Some c \<and> cx_active c"
    using v f by (auto simp: verifyAccessToken_def bindS_def [of "findAccessToken h t" for t] run_simps eff_simps touchConnection_def
        split: sum.splits option.splits if_splits)
  then obtain c where c: "getConnection (id_subject who) db1 = Some c" "cx_active c" by blast
  then have "c \<in> set (ob_connections db1)" "cx_subject c = id_subject who"
    using find_got unfolding getConnection_def by fastforce+
  then show ?thesis using oauth_invD(10) [OF i1] c(2) by metis
qed

text \<open>Where a connection was closed, its subject is finished for the rest of the run.\<close>

lemma closed_for_good:
  assumes h: "fresh_host h" and i: "oauth_inv h d F G {} db"
    and c: "c \<in> set (ob_connections old)" "cx_subject c = s"
    and closed: "ob_connections db = ob_connections (revoke_connection_row s why t old)"
    and v: "fst (verifyAccessToken h sv token (foldl (oauth_step h sv) db later)) = Inr who"
  shows "id_subject who \<noteq> s"
proof -
  let ?close = "\<lambda>r. r\<lparr>cx_active := False, cx_yoloEnabled := False, cx_revokedAt := Some t, cx_revokeReason := Some why,
      cx_disconnectedAt := None, cx_graceExpiresAt := None, cx_lastUsedAt := t\<rparr>"
  have conns: "ob_connections db = map (\<lambda>r. if cx_subject r = s then ?close r else r) (ob_connections old)"
    unfolding closed by (simp add: revoke_connection_row_def set_connections_def)
  have c': "?close c \<in> set (ob_connections db)" "cx_subject (?close c) = s"
    unfolding conns set_map by (rule image_eqI [OF _ c(1)]) (simp_all add: c(2))
  have "\<not> cx_active x" if x: "x \<in> set (ob_connections db)" "cx_subject x = s" for x
  proof -
    from x(1) obtain x0 where "x = (if cx_subject x0 = s then ?close x0 else x0)" unfolding conns set_map by blast
    with x(2) show ?thesis by (simp split: if_splits)
  qed
  then have "oauth_inv h d (insert s F) G {} db" by (rule inv_finish [OF i c'])
  then have "oauth_inv h d (insert s F) G {} (foldl (oauth_step h sv) db later)" by (rule oauth_run_inv [OF h])
  then show ?thesis using finished_not_verified [OF _ v] by blast
qed

lemma revoke_closes:
  "ob_connections (snd (revokeConnection h s why db)) = ob_connections (revoke_connection_row s why (oh_clock h (ob_ticks db)) db)"
  by (simp add: revokeConnection_def in_transaction_def run_simps db_run_def revoke_connection_row_def set_connections_def
      delete_access_of_def set_refresh_def set_families_def)

lemma replay_closes:
  assumes "find_refresh h token db = Some r" "rt_status r = TokenSpent" "getFamily (rt_familyId r) db = Some fm"
    "oh_clock h (ob_ticks db) < fm_expiresAt fm"
  obtains t db' where "rotateRefreshTokenSecurely h token db = (Inr RotationReplayed, db')"
    "ob_connections db' = ob_connections (revoke_connection_row (rt_subject r) ''REFRESH_TOKEN_REUSE'' t db)"
proof -
  have "\<exists>db'. rotate_found h token r db = (Inr RotationReplayed, db') \<and>
    ob_connections db' = ob_connections (revoke_connection_row (rt_subject r) ''REFRESH_TOKEN_REUSE'' (oh_clock h (Suc (Suc (ob_ticks db)))) db)"
    using assms(2-4)
    by (simp add: rotate_found_def run_simps eff_simps revokeFamilyRows_def
        revoke_connection_row_def set_connections_def delete_access_of_def set_refresh_def set_families_def)
  then obtain db' where "rotate_found h token r db = (Inr RotationReplayed, db')"
    "ob_connections db' = ob_connections (revoke_connection_row (rt_subject r) ''REFRESH_TOKEN_REUSE'' (oh_clock h (Suc (Suc (ob_ticks db)))) db)"
    by blast
  then show ?thesis
    using assms(1) by (intro that [of db' "oh_clock h (Suc (Suc (ob_ticks db)))"]) (simp_all add: rotateRefreshTokenSecurely_def in_transaction_def run_simps)
qed

section \<open>Theorems\<close>

text \<open>C4: In every state the server reaches, each family of refresh tokens has at most one token that is still good.\<close>

theorem one_live_token_per_family:
  assumes "fresh_host h"
  shows "length (filter (\<lambda>r. rt_familyId r = f \<and> rt_status r = TokenActive) (ob_refresh (foldl (oauth_step h sv) empty_oauth evs))) \<le> 1"
proof -
  let ?db = "foldl (oauth_step h sv) empty_oauth evs"
  let ?live = "filter (\<lambda>r. rt_familyId r = f \<and> rt_status r = TokenActive) (ob_refresh ?db)"
  have i: "oauth_inv h 0 {} {} {} ?db" by (rule reached_inv [OF assms])
  have "distinct (map rt_hash (ob_refresh ?db))" by (rule oauth_invD(5) [OF i])
  then have "distinct ?live" by (simp add: distinct_map)
  moreover have "r = q" if "r \<in> set ?live" "q \<in> set ?live" for r q
    using oauth_invD(8) [OF i, of r q] that by simp
  ultimately have "card (set ?live) \<le> Suc 0" "distinct ?live" using card_le_Suc0_iff_eq [of "set ?live"] by blast+
  then show ?thesis by (simp only: distinct_card One_nat_def)
qed

text \<open>
  C3: Revoking a connection is final: whatever happens afterwards, no access token lets anyone in as its
  subject again.
\<close>

theorem revocation_is_final:
  assumes "fresh_host h" and db: "db = foldl (oauth_step h sv) empty_oauth evs" and c: "getConnection s db \<noteq> None"
    and who: "id_subject who = s"
  shows "fst (verifyAccessToken h sv token (foldl (oauth_step h sv) (oauth_step h sv db (ORevokeConnection s why)) later)) \<noteq> Inr who"
proof
  assume v: "fst (verifyAccessToken h sv token (foldl (oauth_step h sv) (oauth_step h sv db (ORevokeConnection s why)) later)) = Inr who"
  let ?db = "oauth_step h sv db (ORevokeConnection s why)"
  have i: "oauth_inv h 0 {} {} {} ?db" unfolding db by (intro oauth_step_inv reached_inv assms(1))
  obtain c where "c \<in> set (ob_connections db)" "cx_subject c = s"
    using c find_got unfolding getConnection_def by fastforce
  then have "id_subject who \<noteq> s" by (rule closed_for_good [OF assms(1) i _ _ _ v]) (simp add: revoke_closes)
  then show False using who by simp
qed

text \<open>C2: A code buys tokens once: after an exchange that succeeded, no exchange with the same code succeeds.\<close>

theorem code_redeemed_once:
  assumes "fresh_host h" and db: "db = foldl (oauth_step h sv) empty_oauth evs"
    and bought: "fst (exchangeAuthorizationCode h sv inp db) = Inr tokens"
    and same: "ci_code again = ci_code inp"
  shows "isl (fst (exchangeAuthorizationCode h sv again (foldl (oauth_step h sv) (oauth_step h sv db (OExchangeCode inp)) later)))"
proof -
  let ?later = "foldl (oauth_step h sv) (oauth_step h sv db (OExchangeCode inp)) later"
  have "oauth_inv h 0 {} {} {} db" unfolding db by (rule reached_inv [OF assms(1)])
  then have "oauth_inv h 0 {} {oh_hash h (ci_code inp)} {} (oauth_step h sv db (OExchangeCode inp))"
    using exchange_code_inv [OF assms(1), of 0 "{}" "{}" db sv inp tokens] bought by simp
  then have "oauth_inv h 0 {} {oh_hash h (ci_code inp)} {} ?later" by (rule oauth_run_inv [OF assms(1)])
  then have "oh_hash h (ci_code again) \<notin> cd_hash ` set (ob_codes ?later)"
    unfolding same using oauth_invD(11) by blast
  then have "find (\<lambda>r. cd_hash r = oh_hash h (ci_code again)) (ob_codes ?later) = None" unfolding find_None_iff by (metis imageI)
  then show ?thesis
    by (auto simp: exchangeAuthorizationCode_def consumeAuthorizationCode_def run_simps eff_simps lift_sum_def bindS_def [of "lift_sum x" for x]
        split: sum.splits)
qed

text \<open>
  C1: A refresh token that was spent and comes back ends the connection: while its family stands and has
  not expired, presenting it fails, and from then on no access token lets anyone in as its subject.
\<close>

theorem reused_refresh_token_ends_connection:
  assumes "fresh_host h" and db: "db = foldl (oauth_step h sv) empty_oauth evs"
    and r: "find_refresh h (ri_refresh_token inp) db = Some r" "rt_status r = TokenSpent"
    and bound: "ri_grant_type inp = ''refresh_token''" "og_clientId (rt_grant r) = ri_client_id inp"
      "resolvedResource (ri_resource inp) (sv_resource sv) = Inr (og_resource (rt_grant r))"
    and fm: "getFamily (rt_familyId r) db = Some fm"
    and open_yet: "oh_clock h (ob_ticks db) < rt_expiresAt r" "oh_clock h (Suc (ob_ticks db)) < fm_expiresAt fm"
    and who: "id_subject who = rt_subject r"
  shows "fst (verifyAccessToken h sv token (foldl (oauth_step h sv) (oauth_step h sv db (OExchangeRefresh inp)) later)) \<noteq> Inr who"
proof
  assume v: "fst (verifyAccessToken h sv token (foldl (oauth_step h sv) (oauth_step h sv db (OExchangeRefresh inp)) later)) = Inr who"
  let ?db = "oauth_step h sv db (OExchangeRefresh inp)"
  let ?s = "rt_subject r"
  have i0: "oauth_inv h 0 {} {} {} db" unfolding db by (rule reached_inv [OF assms(1)])
  have i: "oauth_inv h 0 {} {} {} ?db" by (rule oauth_step_inv [OF assms(1) i0])
  let ?db1 = "db\<lparr>ob_ticks := Suc (ob_ticks db)\<rparr>"
  have "find_refresh h (ri_refresh_token inp) ?db1 = Some r" "getFamily (rt_familyId r) ?db1 = Some fm"
    "oh_clock h (ob_ticks ?db1) < fm_expiresAt fm"
    using r(1) fm open_yet(2) by (simp_all add: find_refresh_def getFamily_def)
  from replay_closes [OF this(1) r(2) this(2,3)] obtain t db2 where
    t: "rotateRefreshTokenSecurely h (ri_refresh_token inp) ?db1 = (Inr RotationReplayed, db2)"
      "ob_connections db2 = ob_connections (revoke_connection_row ?s ''REFRESH_TOKEN_REUSE'' t ?db1)"
    by blast
  have "findRefreshToken h (ri_refresh_token inp) db = (Inr (Some r), ?db1)"
    using r(1) open_yet(1) by (simp add: findRefreshToken_def run_simps eff_simps)
  then have "?db = db2"
    using r(2) bound t(1) by (simp add: exchangeRefreshToken_def bindS_def lift_sum_def throwS_def)
  then have closed: "ob_connections ?db = ob_connections (revoke_connection_row ?s ''REFRESH_TOKEN_REUSE'' t ?db1)"
    using t(2) by simp
  have "r \<in> set (ob_refresh db)" using r(1) find_got unfolding find_refresh_def by fastforce
  then obtain c where "c \<in> set (ob_connections ?db1)" "cx_subject c = ?s" using oauth_invD(7) [OF i0] by auto
  then have "id_subject who \<noteq> ?s" by (rule closed_for_good [OF assms(1) i _ _ closed v])
  then show False using who by simp
qed

text \<open>Tokens for a code are given only to who shows its client, redirect, resource and the secret behind its challenge, in time.\<close>

theorem code_exchange_checks:
  assumes "fst (exchangeAuthorizationCode h sv inp db) = Inr tokens"
  shows "\<exists>r \<in> set (ob_codes db). cd_hash r = oh_hash h (ci_code inp) \<and> og_clientId (cd_grant r) = ci_client_id inp \<and>
     cd_redirectUri r = ci_redirect_uri inp \<and> resolvedResource (ci_resource inp) (sv_resource sv) = Inr (og_resource (cd_grant r)) \<and>
     43 \<le> js_length (ci_code_verifier inp) \<and> oh_sha h (ci_code_verifier inp) = cd_codeChallenge r \<and> oh_clock h (ob_ticks db) < cd_expiresAt r"
proof -
  obtain r where r: "find (\<lambda>r. cd_hash r = oh_hash h (ci_code inp)) (ob_codes db) = Some r" "og_clientId (cd_grant r) = ci_client_id inp"
    "cd_redirectUri r = ci_redirect_uri inp" "resolvedResource (ci_resource inp) (sv_resource sv) = Inr (og_resource (cd_grant r))"
    "\<not> js_length (ci_code_verifier inp) < 43" "oh_sha h (ci_code_verifier inp) = cd_codeChallenge r" "\<not> cd_expiresAt r \<le> oh_clock h (ob_ticks db)"
    using assms by (auto simp: exchangeAuthorizationCode_def consumeAuthorizationCode_def lift_sum_def bindS_def [of "lift_sum x" for x] run_simps eff_simps
        split: sum.splits option.splits if_splits)
  then show ?thesis using find_got [OF r(1)] by (intro bexI [of _ r]) simp_all
qed

section \<open>Witnesses\<close>

definition demo_oauth_host :: oauth_host where
  "demo_oauth_host = \<lparr>oh_clock = (\<lambda>_. 0), oh_random = (\<lambda>k. replicate k CHR ''x''), oh_pairing = (\<lambda>_. ''AB''),
     oh_hash = (\<lambda>s. s), oh_sha = (\<lambda>s. s), oh_origin = (\<lambda>_. Inr ''o'')\<rparr>"

definition demo_oauth_service :: oauth_service where
  "demo_oauth_service = \<lparr>sv_issuer = ''i'', sv_resource = ''r/mcp'', sv_requestTtl = 5, sv_codeTtl = 5, sv_accessTtl = 5, sv_refreshTtl = 5\<rparr>"

definition demo_approved :: "oauth_event list" where
  "demo_approved = [ORegister ''app'' [''u''],
     OAuthorize \<lparr>ai_client_id = ''oauth_client_'', ai_redirect_uri = ''u'', ai_response_type = ''code'', ai_scope = None, ai_resource = None,
       ai_code_challenge = replicate 43 CHR ''c'', ai_code_challenge_method = ''S256'', ai_state = None, ai_renewable = None, ai_remoteIp = None\<rparr>,
     OApprove ''oauth_req_x'' None, OContinue ''oauth_req_x'']"

definition demo_code :: code_input where
  "demo_code = \<lparr>ci_grant_type = ''authorization_code'', ci_client_id = ''oauth_client_'', ci_code = ''xxx'', ci_redirect_uri = ''u'',
     ci_code_verifier = replicate 43 CHR ''c'', ci_resource = None\<rparr>"

definition demo_refresh :: refresh_input where
  "demo_refresh = \<lparr>ri_grant_type = ''refresh_token'', ri_client_id = ''oauth_client_'', ri_refresh_token = ''xxxxxxx'', ri_resource = None, ri_scope = None\<rparr>"

abbreviation demo_oauth_run :: "oauth_event list \<Rightarrow> oauth_db" where
  "demo_oauth_run \<equiv> foldl (oauth_step demo_oauth_host demo_oauth_service) empty_oauth"

lemma demo_fresh_host: "fresh_host demo_oauth_host"
  by (auto simp: fresh_host_def demo_oauth_host_def inj_def)

lemma demo_bought:
  "fst (exchangeAuthorizationCode demo_oauth_host demo_oauth_service demo_code (demo_oauth_run demo_approved)) =
     Inr \<lparr>tr_access_token = ''xxxxx'', tr_scope = ''mcp'', tr_refresh_token = Some ''xxxxxxx''\<rparr>"
  by code_simp

definition demo_spent :: oauth_db where
  "demo_spent = demo_oauth_run (demo_approved @ [OExchangeCode demo_code, OExchangeRefresh demo_refresh])"

definition demo_who :: remote_identity where
  "demo_who = \<lparr>id_actor = ''oauth:app@o'', id_subject = ''oauth_grant_xxxx'', id_audience = ''r/mcp'', id_expiresAt = 5\<rparr>"

theorem one_live_token_per_family_witness:
  "map rt_status (ob_refresh (demo_oauth_run (demo_approved @ [OExchangeCode demo_code, OExchangeRefresh demo_refresh]))) = [TokenSpent, TokenActive] \<and>
   length (filter (\<lambda>r. rt_familyId r = ''oauth_family_xxxxxx'' \<and> rt_status r = TokenActive)
     (ob_refresh (demo_oauth_run (demo_approved @ [OExchangeCode demo_code, OExchangeRefresh demo_refresh])))) \<le> 1"
proof
  show "map rt_status (ob_refresh (demo_oauth_run (demo_approved @ [OExchangeCode demo_code, OExchangeRefresh demo_refresh]))) = [TokenSpent, TokenActive]"
    by code_simp
qed (rule one_live_token_per_family [OF demo_fresh_host])

theorem revocation_is_final_witness:
  "fst (verifyAccessToken demo_oauth_host demo_oauth_service ''xxxxx'' (demo_oauth_run (demo_approved @ [OExchangeCode demo_code]))) = Inr demo_who \<and>
   fst (verifyAccessToken demo_oauth_host demo_oauth_service ''xxxxx'' (foldl (oauth_step demo_oauth_host demo_oauth_service)
     (oauth_step demo_oauth_host demo_oauth_service (demo_oauth_run (demo_approved @ [OExchangeCode demo_code]))
       (ORevokeConnection ''oauth_grant_xxxx'' ''ADMIN_REVOKE'')) [])) \<noteq> Inr demo_who"
proof
  show "fst (verifyAccessToken demo_oauth_host demo_oauth_service ''xxxxx'' (demo_oauth_run (demo_approved @ [OExchangeCode demo_code]))) = Inr demo_who"
    by code_simp
  have "getConnection ''oauth_grant_xxxx'' (demo_oauth_run (demo_approved @ [OExchangeCode demo_code])) \<noteq> None"
    by code_simp
  then show "fst (verifyAccessToken demo_oauth_host demo_oauth_service ''xxxxx'' (foldl (oauth_step demo_oauth_host demo_oauth_service)
     (oauth_step demo_oauth_host demo_oauth_service (demo_oauth_run (demo_approved @ [OExchangeCode demo_code]))
       (ORevokeConnection ''oauth_grant_xxxx'' ''ADMIN_REVOKE'')) [])) \<noteq> Inr demo_who"
    by (rule revocation_is_final [OF demo_fresh_host refl]) (simp add: demo_who_def)
qed

theorem code_redeemed_once_witness:
  "isl (fst (exchangeAuthorizationCode demo_oauth_host demo_oauth_service demo_code (foldl (oauth_step demo_oauth_host demo_oauth_service)
     (oauth_step demo_oauth_host demo_oauth_service (demo_oauth_run demo_approved) (OExchangeCode demo_code)) [OExchangeRefresh demo_refresh])))"
  by (rule code_redeemed_once [OF demo_fresh_host refl demo_bought refl])

theorem reused_refresh_token_ends_connection_witness:
  "fst (verifyAccessToken demo_oauth_host demo_oauth_service ''xxxxxxxxx'' demo_spent) = Inr demo_who \<and>
   fst (verifyAccessToken demo_oauth_host demo_oauth_service ''xxxxxxxxx'' (foldl (oauth_step demo_oauth_host demo_oauth_service)
     (oauth_step demo_oauth_host demo_oauth_service demo_spent (OExchangeRefresh demo_refresh)) [])) \<noteq> Inr demo_who"
proof
  show "fst (verifyAccessToken demo_oauth_host demo_oauth_service ''xxxxxxxxx'' demo_spent) = Inr demo_who"
    by code_simp
  have "(case find_refresh demo_oauth_host (ri_refresh_token demo_refresh) demo_spent of None \<Rightarrow> False | Some r \<Rightarrow>
      rt_status r = TokenSpent \<and> og_clientId (rt_grant r) = ri_client_id demo_refresh \<and>
      resolvedResource (ri_resource demo_refresh) (sv_resource demo_oauth_service) = Inr (og_resource (rt_grant r)) \<and>
      rt_subject r = id_subject demo_who \<and> 0 < rt_expiresAt r \<and>
      (case getFamily (rt_familyId r) demo_spent of None \<Rightarrow> False | Some fm \<Rightarrow> 0 < fm_expiresAt fm))"
    by code_simp
  then obtain r fm where r: "find_refresh demo_oauth_host (ri_refresh_token demo_refresh) demo_spent = Some r" "rt_status r = TokenSpent"
      "og_clientId (rt_grant r) = ri_client_id demo_refresh"
      "resolvedResource (ri_resource demo_refresh) (sv_resource demo_oauth_service) = Inr (og_resource (rt_grant r))"
      "rt_subject r = id_subject demo_who" "0 < rt_expiresAt r" "getFamily (rt_familyId r) demo_spent = Some fm" "0 < fm_expiresAt fm"
    by (auto split: option.splits)
  have clock: "oh_clock demo_oauth_host n = 0" for n by (simp add: demo_oauth_host_def)
  have grant: "ri_grant_type demo_refresh = ''refresh_token''" by (simp add: demo_refresh_def)
  show "fst (verifyAccessToken demo_oauth_host demo_oauth_service ''xxxxxxxxx'' (foldl (oauth_step demo_oauth_host demo_oauth_service)
     (oauth_step demo_oauth_host demo_oauth_service demo_spent (OExchangeRefresh demo_refresh)) [])) \<noteq> Inr demo_who"
    by (rule reused_refresh_token_ends_connection [OF demo_fresh_host demo_spent_def r(1-2) grant r(3-4) r(7)])
      (simp_all add: clock r)
qed

end
