(* ===== verification/Spec2Isabelle.thy ===== *)
theory Spec2Isabelle
  imports IpcClient TargetResolver ObservationStore PlanRepository PlanExecutor
    RuleMigration Approvals LoginThrottle PathPolicy GitArguments WindowGate WorkspaceLocks OAuth
begin

text \<open>
  Verification library of Aevra, a local gateway that lets coding agents run commands, edit files and
  drive a browser or a desktop on the machine of its owner.

  \<^bold>\<open>The program.\<close> A core process (apps/core) serves agents over MCP and the owner over an admin API. It
  decides what an agent may do (apps/core/src/policy), freezes what needs a decision in an
  approval ticket (apps/core/src/approvals), and sends operations to a worker process
  (apps/worker) over a socket (packages/ipc): length-prefixed JSON frames, signed envelopes, chunked
  streams. Browser and desktop control goes through plans of steps
  (packages/protocol/src/control*.ts, packages/control): a plan is parsed, claimed in a journal, scheduled
  per surface and executed against observations kept in a store. Everything else (transport,
  drivers, SQL, the web console) is host I/O around these parts.

  \<^bold>\<open>Theories\<close>, in the order of their imports; each opens with the files it models.
  \<^item> Prelude: maps in insertion order (\<open>jsmap\<close>), errors as sums (\<open>tryE\<close>), stateful code that may throw
    (\<open>eff\<close>, \<open>bindS\<close>), and the locales \<open>invariant_system\<close>, \<open>guarded_system\<close> and \<open>monotone_system\<close>, which every
    component with a run interprets on its own step function.
  \<^item> Json: JavaScript values, \<open>JSON.stringify\<close>, \<open>JSON.parse\<close> and the canonical serialisers;
    the locale \<open>text_codec\<close> is the contract framing, signing and stored rules rely on.
  \<^item> Framing: packages/ipc/src/framing.ts. Envelope: packages/ipc/src/envelope.ts, the parser of
    packages/protocol/src/worker.ts and the order of checks of apps/worker/src/server.ts.
    Streams: packages/ipc/src/stream.ts, stream-table.ts and stream-server.ts. IpcServer: a connection of
    packages/ipc/src/server.ts with its handshake, requests and streams. WorkerProcess: the worker of
    apps/worker/src/server.ts over any number of such connections and one signer. IpcClient:
    packages/ipc/src/client.ts and stream-client.ts, the core's end of the socket.
  \<^item> ControlTypes and ControlParse: packages/protocol/src/control.ts and control-parse.ts.
    TargetResolver: packages/control/src/target-resolver.ts and context-composer.ts.
  \<^item> ObservationRules, SurfaceRegistry, ObservationPaging, ObservationStore: the observation store of
    packages/control/src (observation-*.ts, surface-registry.ts).
  \<^item> PlanOutcome, PlanJournal, PlanRepository: plan-outcome.ts, plan-journal.ts and the SQL journal of
    packages/store/src/control-plans.ts. ResourceScheduler, StepExecution, PlanExecutor:
    resource-scheduler.ts and plan-executor.ts.
  \<^item> CommandPolicy: command-decision.ts, command-rule-match.ts, command-rule-validation.ts and
    command-rule-suggestion.ts of apps/core/src/policy, over packages/protocol/src/command-analysis.ts.
  \<^item> TextPatterns: what the guards share of texts, \<open>split\<close>, \<open>trim\<close> and the runs of regular expressions.
    Permissions: permissions.ts and command-matcher.ts of apps/core/src/policy and packages/store/src/permissions.ts.
    RuleMigration: command-rule-migration.ts, from the rules of Permissions to those of CommandPolicy.
    WorkspaceLocks: workspace-locks.ts.
  \<^item> PathGuards, PathPolicy, GitArguments, WindowGate: packages/security/src, that is logical-path.ts, glob.ts and
    sensitive.ts; path-policy.ts; git-arguments.ts; window-gate.ts.
  \<^item> Approvals: apps/core/src/approvals (approval-service.ts, -reuse.ts, -ownership.ts,
    -audit.ts, -types.ts) and packages/store/src/approvals.ts.
  \<^item> LoginThrottle: apps/core/src/admin/login-throttle.ts.
  \<^item> OAuthStore: packages/store/src/oauth.ts and the stores it delegates to (oauth-authorization-store.ts,
    oauth-token-store.ts, oauth-connection-store.ts, oauth-maintenance.ts). OAuth: oauth.ts, oauth-helpers.ts and
    oauth-token-issuance.ts of apps/core/src/auth.

  \<^bold>\<open>How the code is modelled.\<close> Objects are records, \<open>Map\<close>s are \<open>jsmap\<close>s, closures and shared objects are
  indices into a list that plays the heap (the ends of a stream, the trackers of the login
  throttle). A \<open>throw\<close> is the left of a sum. JavaScript runs without interruption between
  \<open>await\<close>s, so an asynchronous method is cut at its \<open>await\<close>s into functions, and a run is a
  fold of a step function over events that may come in any order: the plan executor, the
  scheduler, the streams, both ends of the socket, the workspace locks, the approval service and the login
  throttle are such state machines. Regular expressions are written out as the parsers they stand for. Host
  functions (HMAC, clocks, randomness, base64 decoding, secret redaction, callbacks) are arguments; what a
  theorem needs of them is one of its hypotheses.

  \<^bold>\<open>What is shown.\<close> Framing and streams deliver exactly what was sent, whatever the chunking and the
  interleaving, in bounded memory. Nothing runs on a connection before its peer has proved itself, every
  request is answered once and every call settles once; an envelope starts an operation once over all
  connections, and only inside its scope. A parsed plan is inside
  its contract, is claimed once, and its steps are dispatched at most once, guarded, one at a time per surface,
  without deadlock. The observation store keeps its limits, isolates owners and pages deltas
  exactly. The command policy never allows a critical command without its confirmation, denials
  never widen, and remembered suggestions work; the validator types stored rules. The most specific
  permission decides, with deny before allow, and the migration of legacy rules leaves no rule that
  allows a command without a valid predicate. A path keeps its protection however it is spelled, a resolved
  path stays inside its root, Git gets harmless arguments, and a window nothing is known of is not
  reached through lists or grants. Approvals follow their life cycle, and an approved operation
  runs at most once. Commands that conflict do not hold a workspace together. Login guesses stay
  inside their thresholds. An authorization code is redeemed once, a family of refresh tokens has one live token,
  and a connection that was revoked, or whose spent refresh token came back, never authenticates again
  (\<open>oauth_inv\<close>, kept by every operation). Where the code does otherwise than it says, a lemma shows a concrete case
  (sections \<open>Cases worth knowing\<close>).

  \<^bold>\<open>Bounds and fuel.\<close> Recursion on fuel occurs in \<open>json_parse\<close> (\<open>parse_fuel_irrelevant\<close>: the fuel given
  is always enough) and in \<open>ensureAcyclic\<close> (\<open>visit_total\<close>); every other loop is a total function
  with its measure.

  \<^bold>\<open>Not modelled.\<close> Lone surrogates of UTF-16 and integer-like property order; the operations behind an
  accepted envelope, drivers, HTTP, SQL beyond the statements read as table operations, and the
  views. The shell parsers of packages/command-analysis rest on third-party grammars: their result
  is an input of \<open>decideCommand\<close>. The risk of a command line (risk.ts, command-family.ts), the redaction of secrets
  (dlp.ts) and the mask of configuration files are tables of regular expressions without an invariant of
  their own. Paths and Git arguments are those of POSIX; only the spelling rules of logical-path.ts are modelled
  for win32 too. Of the OAuth server the audit entries, the origins of connections, the checks of redirect URLs at
  registration and the URLs it builds are left out, and its issuer and resource do not change during a run.
\<close>

end
